(* ===== verification/Prelude.thy ===== *)
theory Prelude
  imports Main "HOL-Library.Word" "HOL-Library.Monad_Syntax"
begin

text \<open>
  Shared vocabulary of the development: the machine integers of \<^verbatim>\<open>kstd/numbers.hh\<close>,
  the way a failed \<^verbatim>\<open>kstd_assert\<close> is represented, and generic lemmas on words, lists
  and options that several components use.

  \<^item> \<open>u8\<close> .. \<open>u64\<close> are machine words; \<open>psize\<close> (an address) is a \<open>u64\<close>. \<open>ssize\<close> and
    \<open>s32\<close> values are \<open>int\<close> where the code keeps them small and words read by \<open>sint\<close> where
    the width matters.
  \<^item> \<open>'a outcome\<close> is \<open>string + 'a\<close>: \<open>Inl msg\<close> is a failed assertion
    (\<^verbatim>\<open>kstd::assertion_failure\<close> never returns), \<open>Inr x\<close> a normal return.
\<close>

unbundle bit_operations_syntax

type_synonym u8 = "8 word"
type_synonym u16 = "16 word"
type_synonym u32 = "32 word"
type_synonym u64 = "64 word"

type_synonym 'a outcome = "string + 'a"

text \<open>
  \<open>kstd_assert\<close> evaluates to the failure when its predicate is false and continues with the
  rest of the function otherwise.
\<close>

definition kstd_assert :: "bool \<Rightarrow> string \<Rightarrow> 'a outcome \<Rightarrow> 'a outcome" where
  "kstd_assert predicate message rest = (if predicate then rest else Inl message)"

lemma kstd_assert_simps [simp]:
  "kstd_assert True msg rest = rest"
  "kstd_assert False msg rest = Inl msg"
  by (simp_all add: kstd_assert_def)

lemma kstd_assert_InrD:
  "kstd_assert p msg rest = Inr x \<Longrightarrow> p \<and> rest = Inr x"
  by (cases p) auto

lemma kstd_assert_cong [fundef_cong]:
  "p = q \<Longrightarrow> m = m' \<Longrightarrow> (q \<Longrightarrow> x = y) \<Longrightarrow> kstd_assert p m x = kstd_assert q m' y"
  by (cases q) simp_all

text \<open>Sequencing of computations that may fail.\<close>

fun obind :: "'a outcome \<Rightarrow> ('a \<Rightarrow> 'b outcome) \<Rightarrow> 'b outcome" where
  "obind (Inl msg) f = Inl msg"
| "obind (Inr x) f = f x"

lemma obind_InrD: "obind r f = Inr y \<Longrightarrow> \<exists>x. r = Inr x \<and> f x = Inr y"
  by (cases r) auto

text \<open>
  A loop that may not end is a \<open>'a run\<close>: \<open>None\<close> when it does not return, otherwise the outcome.
\<close>

type_synonym 'a run = "'a outcome option"

fun rbind :: "'a run \<Rightarrow> ('a \<Rightarrow> 'b run) \<Rightarrow> 'b run" where
  "rbind None f = None"
| "rbind (Some (Inl msg)) f = Some (Inl msg)"
| "rbind (Some (Inr x)) f = f x"

definition run_assert :: "bool \<Rightarrow> string \<Rightarrow> 'a run \<Rightarrow> 'a run" where
  "run_assert predicate message rest = (if predicate then rest else Some (Inl message))"

lemma run_assert_simps [simp]:
  "run_assert True msg rest = rest"
  "run_assert False msg rest = Some (Inl msg)"
  by (simp_all add: run_assert_def)

lemma obind_cong [fundef_cong]:
  "x = y \<Longrightarrow> (\<And>v. y = Inr v \<Longrightarrow> f v = g v) \<Longrightarrow> obind x f = obind y g"
  by (cases y) auto

lemma rbind_cong [fundef_cong]:
  "x = y \<Longrightarrow> (\<And>v. y = Some (Inr v) \<Longrightarrow> f v = g v) \<Longrightarrow> rbind x f = rbind y g"
  by (cases y rule: rbind.cases [of "(y, f)" for y, simplified]) auto

lemma rbind_eq_bind:
  "rbind x f = Option.bind x (\<lambda>r. case r of Inl msg \<Rightarrow> Some (Inl msg) | Inr v \<Rightarrow> f v)"
  by (cases "(x, f)" rule: rbind.cases) auto

lemma rbind_mono [partial_function_mono]:
  assumes "mono_option f" "\<And>v. mono_option (\<lambda>rec. g v rec)"
  shows "mono_option (\<lambda>rec. rbind (f rec) (\<lambda>v. g v rec))"
  unfolding rbind_eq_bind using assms
  by (intro bind_mono option.const_mono) (auto split: sum.split simp: monotone_def fun_ord_def flat_ord_def)

lemma obind_Inr_iff: "obind x f = Inr y \<longleftrightarrow> (\<exists>v. x = Inr v \<and> f v = Inr y)"
  by (cases x) auto

lemma kstd_assert_Inr_iff: "kstd_assert P msg rest = Inr x \<longleftrightarrow> P \<and> rest = Inr x"
  by (cases P) auto

subsection \<open>Lists\<close>

lemma length_filter_update:
  "i < List.length xs \<Longrightarrow>
   List.length (filter P (xs[i := x])) + (if P (xs ! i) then 1 else 0)
   = List.length (filter P xs) + (if P x then 1 else 0)"
proof (induction xs arbitrary: i)
  case (Cons y ys)
  then show ?case by (cases i) auto
qed simp

lemma filter_length_less_ex:
  assumes "List.length (filter P xs) < List.length xs"
  shows "\<exists>i < List.length xs. \<not> P (xs ! i)"
proof (rule ccontr)
  assume "\<not> ?thesis"
  then have "filter P xs = xs" by (metis filter_True in_set_conv_nth)
  with assms show False by simp
qed

subsection \<open>Words\<close>

named_theorems unat_simps \<open>reading word arithmetic as arithmetic of natural numbers\<close>

lemma unat_pow2 [unat_simps]:
  "k < LENGTH('a) \<Longrightarrow> unat ((2::'a::len word) ^ k) = 2 ^ k"
  by (metis of_nat_numeral of_nat_power nat_power_eq power_strict_increasing_iff
      one_less_numeral_iff semiring_norm(76) unat_of_nat take_bit_nat_eq_self_iff
      unsigned_of_nat)

lemma unat_add_no_wrap:
  fixes a b :: "'a::len word"
  assumes "unat a + unat b < 2 ^ LENGTH('a)"
  shows "unat (a + b) = unat a + unat b"
  using assms by (simp add: unat_word_ariths)

lemma unat_add_le_bound:
  fixes a b c :: "'a::len word"
  assumes "unat a + unat b \<le> unat c"
  shows "unat (a + b) = unat a + unat b"
proof -
  have "unat c < 2 ^ LENGTH('a)" by simp
  with assms show ?thesis by (intro unat_add_no_wrap) linarith
qed

lemma unat_lt_pow64 [simp]: "unat (x :: u64) < 18446744073709551616"
  using unsigned_less [of x] by simp

lemma unat_lt_pow32 [simp]: "unat (x :: u32) < 4294967296"
  using unsigned_less [of x] by simp

lemma unat_lt_pow8 [simp]: "unat (x :: u8) < 256"
  using unsigned_less [of x] by simp

lemma unat_drop_bit [unat_simps]: "unat (drop_bit k w) = unat w div 2 ^ k"
  by (subst unat_drop_bit_eq) (rule drop_bit_eq_div)

lemma unat_take_bit [unat_simps]: "unat (take_bit k w) = unat w mod 2 ^ k"
  by (simp add: unsigned_take_bit_eq take_bit_nat_def)

lemma and_not_mask_eq:
  fixes v :: "'a::len word"
  shows "v AND NOT (mask k) = v - take_bit k v"
proof -
  have "v = (v AND NOT (mask k)) OR take_bit k v"
    by (rule bit_word_eqI) (auto simp: bit_simps)
  moreover have "(v AND NOT (mask k)) AND take_bit k v = 0"
    by (rule bit_word_eqI) (auto simp: bit_simps)
  ultimately have "v = (v AND NOT (mask k)) + take_bit k v"
    by (metis disjunctive_add_eq_or)
  then show ?thesis by (metis add_diff_cancel_right')
qed

lemma unat_and_not_mask:
  fixes v :: "'a::len word"
  shows "unat (v AND NOT (mask k)) = unat v - unat v mod 2 ^ k"
proof -
  have t: "unat (take_bit k v) = unat v mod 2 ^ k" by (rule unat_take_bit)
  then have "take_bit k v \<le> v" by (simp add: word_le_nat_alt)
  then show ?thesis by (simp add: and_not_mask_eq unat_sub t)
qed

end
