(* ===== verification/Bits.thy ===== *)
theory Bits
  imports Prelude
begin

text \<open>
  The integer helpers of \<^verbatim>\<open>kstd/math.hh\<close> (\<open>abs\<close>, \<open>abs_diff\<close>, \<open>lerp\<close>, \<open>log2\<close>,
  \<open>next_power_of_two\<close>, \<open>is_power_of_two\<close>, \<open>floor_pow2\<close>), \<open>align_up\<close> and \<open>align_down\<close> of
  \<^verbatim>\<open>kstd/allocator.hh\<close>, and the flag tests of \<^verbatim>\<open>kstd/enum_flags.hh\<close>. The lemmas read
  them as arithmetic on natural numbers, which is how the allocators use them.
\<close>

unbundle bit_operations_syntax

subsection \<open>Alignment\<close>

definition align_up :: "u64 \<Rightarrow> u64 \<Rightarrow> u64" where
  "align_up value alignment = (value + alignment - 1) AND NOT (alignment - 1)"

definition align_down :: "u64 \<Rightarrow> u64 \<Rightarrow> u64" where
  "align_down value alignment = value AND NOT (alignment - 1)"

lemma unat_align_down:
  assumes "k < 64"
  shows "unat (align_down v (2 ^ k)) = unat v - unat v mod 2 ^ k"
  using unat_and_not_mask [of v k] by (simp add: align_down_def mask_eq_exp_minus_1)

lemma align_down_bounds:
  assumes "k < 64"
  shows "2 ^ k dvd unat (align_down v (2 ^ k))" "unat (align_down v (2 ^ k)) \<le> unat v"
    "unat v < unat (align_down v (2 ^ k)) + 2 ^ k"
proof -
  have e: "unat (align_down v (2 ^ k)) = unat v - unat v mod 2 ^ k"
    using assms by (rule unat_align_down)
  have m: "unat v mod 2 ^ k < 2 ^ k" by simp
  show "2 ^ k dvd unat (align_down v (2 ^ k))"
    by (simp add: e minus_mod_eq_mult_div)
  show "unat (align_down v (2 ^ k)) \<le> unat v" by (simp add: e)
  show "unat v < unat (align_down v (2 ^ k)) + 2 ^ k"
    using m mod_less_eq_dividend [of "unat v" "2 ^ k"] unfolding e by linarith
qed

lemma align_up_eq_down: "align_up v a = align_down (v + (a - 1)) a"
  by (simp add: align_up_def align_down_def algebra_simps)

lemma align_up_bounds:
  assumes k: "k < 64" and fits: "unat v + 2 ^ k \<le> 2 ^ 64"
  shows "2 ^ k dvd unat (align_up v (2 ^ k))" "unat v \<le> unat (align_up v (2 ^ k))"
    "unat (align_up v (2 ^ k)) < unat v + 2 ^ k"
proof -
  have p: "unat ((2::u64) ^ k) = 2 ^ k" using k by (simp add: unat_simps)
  have one: "(1::u64) \<le> 2 ^ k" using k p by (simp add: word_le_nat_alt)
  have m: "unat ((2::u64) ^ k - 1) = 2 ^ k - 1" using one p by (simp add: unat_sub)
  have pos: "(0::nat) < 2 ^ k" by simp
  have "unat v + unat ((2::u64) ^ k - 1) < 2 ^ 64" using fits pos m by linarith
  then have s: "unat (v + (2 ^ k - 1)) = unat v + (2 ^ k - 1)"
    using m by (subst unat_add_no_wrap) simp_all
  note b = align_down_bounds [OF k, of "v + (2 ^ k - 1)"]
  show "2 ^ k dvd unat (align_up v (2 ^ k))" using b(1) by (simp add: align_up_eq_down)
  show "unat v \<le> unat (align_up v (2 ^ k))"
    using b(3) s pos unfolding align_up_eq_down by linarith
  show "unat (align_up v (2 ^ k)) < unat v + 2 ^ k"
    using b(2) s pos unfolding align_up_eq_down by linarith
qed

lemma align_up_aligned_id:
  assumes "k < 64" "2 ^ k dvd unat v"
  shows "align_down v (2 ^ k) = v"
  using unat_align_down [OF assms(1), of v] assms(2) by (simp add: word_unat_eq_iff)

text \<open>The \<open>ssize\<close> instance used for page and reserve sizes (small non-negative values).\<close>

definition align_up_ssize :: "int \<Rightarrow> int \<Rightarrow> int" where
  "align_up_ssize value alignment = (value + alignment - 1) AND NOT (alignment - 1)"

lemma int_and_not_mask: "(v::int) AND NOT (mask k) = v - v mod 2 ^ k"
proof -
  have "v = (v AND NOT (mask k)) OR take_bit k v"
    by (rule bit_eqI) (auto simp: bit_simps)
  moreover have "(v AND NOT (mask k)) AND take_bit k v = 0"
    by (rule bit_eqI) (auto simp: bit_simps)
  ultimately have "v = (v AND NOT (mask k)) + take_bit k v"
    by (metis disjunctive_add_eq_or)
  then show ?thesis by (simp add: take_bit_eq_mod)
qed

lemma align_up_ssize_eq:
  "align_up_ssize v (2 ^ k) = (v + 2 ^ k - 1) - (v + 2 ^ k - 1) mod 2 ^ k"
  using int_and_not_mask [of "v + 2 ^ k - 1" k]
  by (simp add: align_up_ssize_def mask_eq_exp_minus_1)

lemma align_up_ssize_bounds:
  "2 ^ k dvd align_up_ssize v (2 ^ k)" "v \<le> align_up_ssize v (2 ^ k)"
  "align_up_ssize v (2 ^ k) < v + 2 ^ k"
proof -
  let ?w = "v + 2 ^ k - 1"
  have m: "0 \<le> ?w mod 2 ^ k" "?w mod 2 ^ k < 2 ^ k" by simp_all
  show "2 ^ k dvd align_up_ssize v (2 ^ k)"
    unfolding align_up_ssize_eq by (rule dvd_minus_mod)
  show "v \<le> align_up_ssize v (2 ^ k)" "align_up_ssize v (2 ^ k) < v + 2 ^ k"
    using m unfolding align_up_ssize_eq by linarith+
qed

subsection \<open>Powers of two\<close>

text \<open>
  \<open>is_power_of_two\<close> is a template: the \<open>ssize\<close> instance checks the alignments the
  allocators are given, the \<open>u64\<close> instance the alignment stored in a header.
\<close>

definition is_power_of_two :: "int \<Rightarrow> bool" where
  "is_power_of_two value \<longleftrightarrow> value > 0 \<and> value AND (value - 1) = 0"

definition is_power_of_two_u64 :: "u64 \<Rightarrow> bool" where
  "is_power_of_two_u64 value \<longleftrightarrow> value > 0 \<and> value AND (value - 1) = 0"

lemma int_and_pred_zero:
  fixes v :: int
  assumes "v > 0" "v AND (v - 1) = 0"
  shows "\<exists>k. v = 2 ^ k"
  using assms
proof (induction "nat v" arbitrary: v rule: less_induct)
  case less
  show ?case
  proof (cases "even v")
    case True
    then obtain w where w: "v = 2 * w" by (elim evenE)
    with less.prems have "w > 0" by simp
    have "v - 1 = 2 * (w - 1) + 1" by (simp add: w)
    moreover have "(2 * w - 1) div 2 = w - 1" by simp
    ultimately have "v AND (v - 1) = 2 * (w AND (w - 1))"
      by (subst and_int_rec) (simp add: w)
    with less.prems have "w AND (w - 1) = 0" by simp
    moreover have "nat w < nat v" using w \<open>w > 0\<close> by simp
    ultimately obtain k where "w = 2 ^ k" using less.hyps \<open>w > 0\<close> by blast
    then have "v = 2 ^ Suc k" by (simp add: w)
    then show ?thesis by blast
  next
    case False
    then obtain w where w: "v = 2 * w + 1" by (elim oddE)
    then have "v AND (v - 1) = 2 * (w AND w)"
      by (subst and_int_rec) simp
    with less.prems w have "v = 2 ^ 0" by simp
    then show ?thesis by blast
  qed
qed

lemma int_pow2_and_pred: "(2::int) ^ k AND (2 ^ k - 1) = 0"
proof -
  have "(2::int) ^ k AND mask k = 0" by (simp flip: take_bit_eq_mask)
  then show ?thesis by (simp add: mask_eq_exp_minus_1)
qed

lemma is_power_of_two_iff: "is_power_of_two v \<longleftrightarrow> (\<exists>k. v = 2 ^ k)"
  using int_and_pred_zero [of v] by (auto simp: is_power_of_two_def int_pow2_and_pred)

lemma is_power_of_two_u64_uint: "is_power_of_two_u64 v \<longleftrightarrow> is_power_of_two (uint v)"
proof (cases "v = 0")
  case True
  then show ?thesis by (simp add: is_power_of_two_u64_def is_power_of_two_def)
next
  case False
  then have "uint v \<noteq> 0" by (simp add: word_uint_eq_iff)
  then have "1 \<le> uint v" using uint_ge_0 [of v] by linarith
  then have "uint (v - 1) = uint v - 1" using uint_lt2p [of v]
    by (simp add: uint_word_ariths mod_pos_pos_trivial)
  then have "uint (v AND (v - 1)) = uint v AND (uint v - 1)"
    by (simp add: uint_and)
  moreover have "uint v > 0" using \<open>1 \<le> uint v\<close> by simp
  ultimately show ?thesis
    using False by (simp add: is_power_of_two_u64_def is_power_of_two_def word_gt_0
        word_uint_eq_iff)
qed

lemma is_power_of_two_u64_iff: "is_power_of_two_u64 v \<longleftrightarrow> (\<exists>k < 64. v = 2 ^ k)"
proof
  assume "is_power_of_two_u64 v"
  then obtain k where k: "uint v = 2 ^ k"
    by (auto simp: is_power_of_two_u64_uint is_power_of_two_iff)
  have "uint v < 2 ^ 64" using uint_lt2p [of v] by simp
  then have "(2::int) ^ k < 2 ^ 64" by (simp only: k)
  then have "k < 64" by (rule power_less_imp_less_exp [rotated]) simp
  moreover have "v = 2 ^ k" using k by (metis word_of_int_uint word_of_int_2p)
  ultimately show "\<exists>k < 64. v = 2 ^ k" by blast
next
  assume "\<exists>k < 64. v = 2 ^ k"
  then obtain k where k: "k < 64" "v = 2 ^ k" by blast
  then have "unat v = 2 ^ k" by (simp add: unat_simps)
  then have "uint v = 2 ^ k" by (simp add: uint_nat)
  then show "is_power_of_two_u64 v"
    by (auto simp: is_power_of_two_u64_uint is_power_of_two_iff)
qed

text \<open>
  \<open>next_power_of_two\<close> doubles \<open>result\<close>, which starts at 1, until it reaches \<open>value\<close>; the
  guard's second conjunct never fails and only makes the function total. Its arguments are table
  sizes; up to \<open>2 ^ 62\<close> no intermediate value leaves the range of \<open>ssize\<close>
  (\<open>next_power_of_two_bound\<close>).
\<close>

function next_power_of_two_loop :: "int \<Rightarrow> int \<Rightarrow> int" where
  "next_power_of_two_loop value result =
     (if value > result \<and> result > 0 then next_power_of_two_loop value (result + result) else result)"
  by pat_completeness auto
termination
  by (relation "measure (\<lambda>(v, r). nat (v - r))") auto

declare next_power_of_two_loop.simps [simp del]

definition next_power_of_two :: "int \<Rightarrow> int outcome" where
  "next_power_of_two value = kstd_assert (value \<noteq> 0) [] (Inr (next_power_of_two_loop value 1))"

lemma next_power_of_two_loop_spec:
  assumes "r = 2 ^ j"
  shows "\<exists>k \<ge> j. next_power_of_two_loop v r = 2 ^ k \<and> v \<le> 2 ^ k \<and>
           (k = j \<or> 2 ^ k < 2 * v)"
  using assms
proof (induction v r arbitrary: j rule: next_power_of_two_loop.induct)
  case (1 v r)
  show ?case
  proof (cases "v > r")
    case True
    have "r + r = 2 ^ Suc j" using 1(2) by simp
    with 1(1) True 1(2) obtain k where
      k: "k \<ge> Suc j" "next_power_of_two_loop v (r + r) = 2 ^ k" "v \<le> 2 ^ k"
        "k = Suc j \<or> 2 ^ k < 2 * v"
      by (metis zero_less_numeral zero_less_power)
    then have "2 ^ k < 2 * v" using True 1(2) by auto
    moreover have "next_power_of_two_loop v r = next_power_of_two_loop v (r + r)"
      by (subst next_power_of_two_loop.simps) (use True 1(2) in simp)
    ultimately show ?thesis
      using k by (intro exI [of _ k]) auto
  next
    case False
    then have "next_power_of_two_loop v r = r" by (subst next_power_of_two_loop.simps) simp
    with False 1(2) show ?thesis by (intro exI [of _ j]) simp
  qed
qed

lemma next_power_of_two_spec:
  assumes "v > 0"
  obtains k where "next_power_of_two v = Inr (2 ^ k)" "v \<le> 2 ^ k" "2 ^ k < 2 * v"
proof -
  obtain k where k: "next_power_of_two_loop v 1 = 2 ^ k" "v \<le> 2 ^ k" "k = 0 \<or> 2 ^ k < 2 * v"
    using next_power_of_two_loop_spec [of 1 0 v] by auto
  moreover have "2 ^ k < 2 * v" using k(3) assms by auto
  ultimately show ?thesis using that assms by (simp add: next_power_of_two_def)
qed

lemma next_power_of_two_bound:
  assumes "v > 0" "v \<le> 2 ^ 62" "next_power_of_two v = Inr r"
  shows "r \<le> 2 ^ 62"
proof -
  obtain k where k: "next_power_of_two v = Inr (2 ^ k)" "2 ^ k < 2 * v"
    using next_power_of_two_spec [OF assms(1)] by metis
  then have "(2::int) ^ k < 2 ^ 63" using assms(2) by simp
  then have "k \<le> 62" using power_less_imp_less_exp [of "2::int" k 63] by simp
  then have "(2::int) ^ k \<le> 2 ^ 62" by (intro power_increasing) simp_all
  with k(1) assms(3) show ?thesis by simp
qed

subsection \<open>The bit smear of \<open>floor_pow2\<close>\<close>

definition floor_pow2 :: "u64 \<Rightarrow> u64" where
  "floor_pow2 n =
     (if n = 0 then 0
      else
        let n = n OR drop_bit 1 n;
            n = n OR drop_bit 2 n;
            n = n OR drop_bit 4 n;
            n = n OR drop_bit 8 n;
            n = n OR drop_bit 16 n;
            n = n OR drop_bit 32 n
        in n AND NOT (drop_bit 1 n))"

text \<open>\<open>smeared k a n\<close>: every bit of \<open>n\<close> has been copied to the \<open>k\<close> positions at and below it.\<close>

definition smeared :: "nat \<Rightarrow> u64 \<Rightarrow> u64 \<Rightarrow> bool" where
  "smeared k a n \<longleftrightarrow> (\<forall>i. bit a i \<longleftrightarrow> (\<exists>j. i \<le> j \<and> j < i + k \<and> bit n j))"

lemma smeared_start: "smeared 1 n n"
  by (auto simp: smeared_def) (metis le_antisym less_Suc_eq_le)

lemma smeared_step:
  assumes "smeared k a n"
  shows "smeared (2 * k) (a OR drop_bit k a) n"
proof -
  have "bit (a OR drop_bit k a) i \<longleftrightarrow> (\<exists>j. i \<le> j \<and> j < i + 2 * k \<and> bit n j)" for i
  proof -
    have "bit (a OR drop_bit k a) i \<longleftrightarrow> bit a i \<or> bit a (k + i)"
      by (simp add: bit_or_iff bit_drop_bit_eq)
    also have "\<dots> \<longleftrightarrow> (\<exists>j. i \<le> j \<and> j < i + k \<and> bit n j) \<or>
        (\<exists>j. k + i \<le> j \<and> j < k + i + k \<and> bit n j)"
      using assms by (simp add: smeared_def)
    also have "\<dots> \<longleftrightarrow> (\<exists>j. i \<le> j \<and> j < i + 2 * k \<and> bit n j)"
    proof
      assume "\<exists>j. i \<le> j \<and> j < i + 2 * k \<and> bit n j"
      then obtain j where j: "i \<le> j" "j < i + 2 * k" "bit n j" by blast
      show "(\<exists>j. i \<le> j \<and> j < i + k \<and> bit n j) \<or> (\<exists>j. k + i \<le> j \<and> j < k + i + k \<and> bit n j)"
      proof (cases "j < i + k")
        case True
        with j show ?thesis by blast
      next
        case False
        with j have "k + i \<le> j" "j < k + i + k" by linarith+
        with j show ?thesis by blast
      qed
    next
      assume "(\<exists>j. i \<le> j \<and> j < i + k \<and> bit n j) \<or> (\<exists>j. k + i \<le> j \<and> j < k + i + k \<and> bit n j)"
      then obtain j where j: "i \<le> j \<and> j < i + k \<or> k + i \<le> j \<and> j < k + i + k" "bit n j"
        by blast
      then have "i \<le> j" "j < i + 2 * k" by linarith+
      with j(2) show "\<exists>j. i \<le> j \<and> j < i + 2 * k \<and> bit n j" by blast
    qed
    finally show ?thesis .
  qed
  then show ?thesis by (simp add: smeared_def)
qed

lemma smeared_top:
  assumes "smeared 64 a n" "bit n t" "\<And>j. j > t \<Longrightarrow> \<not> bit n j"
  shows "a AND NOT (drop_bit 1 a) = 2 ^ t"
proof (rule bit_word_eqI)
  fix i assume "i < LENGTH(64)"
  have "t < 64" using assms(2) bit_imp_le_length by fastforce
  have a: "bit a i \<longleftrightarrow> i \<le> t" for i
  proof
    assume "bit a i"
    then obtain j where "i \<le> j" "bit n j" using assms(1) by (auto simp: smeared_def)
    with assms(3) [of j] show "i \<le> t" by force
  next
    assume "i \<le> t"
    moreover have "t < i + 64" using \<open>t < 64\<close> by simp
    ultimately show "bit a i" using assms(1,2) by (auto simp: smeared_def)
  qed
  show "bit (a AND NOT (drop_bit 1 a)) i \<longleftrightarrow> bit ((2::u64) ^ t) i"
    using \<open>i < LENGTH(64)\<close> \<open>t < 64\<close>
    by (auto simp: bit_and_iff bit_not_iff bit_drop_bit_eq a bit_exp_iff)
qed

lemma exists_top_bit:
  assumes "(n::u64) \<noteq> 0"
  obtains t where "t < 64" "bit n t" "\<And>j. j > t \<Longrightarrow> \<not> bit n j"
proof -
  let ?S = "{i. bit n i}"
  have fin: "finite ?S" by (rule finite_subset [of _ "{..<64}"]) (auto dest: bit_imp_le_length)
  have ne: "?S \<noteq> {}" using assms by (auto simp: bit_eq_iff)
  have "bit n (Max ?S)" using Max_in [OF fin ne] by simp
  moreover have "Max ?S < 64" using bit_imp_le_length [OF \<open>bit n (Max ?S)\<close>] by simp
  moreover have "\<not> bit n j" if "j > Max ?S" for j
    using that Max_ge [OF fin, of j] by fastforce
  ultimately show ?thesis using that by blast
qed

lemma floor_pow2_top:
  assumes "bit n t" "\<And>j. j > t \<Longrightarrow> \<not> bit n j"
  shows "floor_pow2 n = 2 ^ t"
proof -
  have "n \<noteq> 0" using assms(1) by auto
  have step: "smeared k' (a OR drop_bit k a) n" if "smeared k a n" "k' = 2 * k" for k k' a
    using smeared_step [OF that(1)] that(2) by simp
  define n1 where "n1 = n OR drop_bit 1 n"
  define n2 where "n2 = n1 OR drop_bit 2 n1"
  define n4 where "n4 = n2 OR drop_bit 4 n2"
  define n8 where "n8 = n4 OR drop_bit 8 n4"
  define n16 where "n16 = n8 OR drop_bit 16 n8"
  define n32 where "n32 = n16 OR drop_bit 32 n16"
  have "smeared 2 n1 n" unfolding n1_def by (rule step [OF smeared_start]) simp
  then have "smeared 4 n2 n" unfolding n2_def by (rule step) simp
  then have "smeared 8 n4 n" unfolding n4_def by (rule step) simp
  then have "smeared 16 n8 n" unfolding n8_def by (rule step) simp
  then have "smeared 32 n16 n" unfolding n16_def by (rule step) simp
  then have "smeared 64 n32 n" unfolding n32_def by (rule step) simp
  from smeared_top [OF this assms] have "n32 AND NOT (drop_bit 1 n32) = 2 ^ t" .
  then show ?thesis
    using \<open>n \<noteq> 0\<close> unfolding floor_pow2_def Let_def n32_def n16_def n8_def n4_def n2_def n1_def
    by (simp only: if_False)
qed

lemma top_bit_bounds:
  fixes n :: u64
  assumes t: "t < 64" and "bit n t" and top: "\<And>j. j > t \<Longrightarrow> \<not> bit n j"
  shows "2 ^ t \<le> unat n" "unat n < 2 ^ Suc t"
proof -
  have b: "bit (unat n) i \<longleftrightarrow> bit n i" for i
    by (auto simp: bit_unsigned_iff dest: bit_imp_possible_bit)
  have "take_bit (Suc t) (unat n) = unat n"
    using top by (intro bit_eqI) (auto simp: bit_take_bit_iff b less_Suc_eq_le not_le [symmetric])
  then show "unat n < 2 ^ Suc t" by (metis take_bit_nat_less_exp)
  show "2 ^ t \<le> unat n"
  proof (rule ccontr)
    assume "\<not> 2 ^ t \<le> unat n"
    then have "take_bit t (unat n) = unat n" by (simp add: take_bit_nat_eq_self)
    then have "\<not> bit (unat n) t" by (metis bit_take_bit_iff less_irrefl)
    with assms(2) b show False by simp
  qed
qed

lemma floor_pow2_spec:
  assumes "n \<noteq> 0"
  obtains t where "t < 64" "floor_pow2 n = 2 ^ t" "2 ^ t \<le> unat n" "unat n < 2 ^ Suc t"
  using exists_top_bit [OF assms] floor_pow2_top top_bit_bounds that by metis

subsection \<open>Small arithmetic helpers\<close>

text \<open>\<open>s32\<close> arithmetic: \<open>x >> 31\<close> is the arithmetic shift, all ones for a negative \<open>x\<close>.\<close>

definition abs_s32 :: "u32 \<Rightarrow> u32" where
  "abs_s32 x = (x XOR signed_drop_bit 31 x) - signed_drop_bit 31 x"

definition abs_diff :: "u32 \<Rightarrow> u32 \<Rightarrow> u32" where
  "abs_diff a b = (if a > b then a - b else b - a)"

lemma abs_diff_spec: "uint (abs_diff a b) = \<bar>uint a - uint b\<bar>"
proof (cases "b < a")
  case True
  then have "uint (a - b) = uint a - uint b"
    using uint_minus_simple_alt [of b a] by (simp add: less_imp_le)
  with True show ?thesis by (simp add: abs_diff_def word_less_def)
next
  case False
  then have "uint (b - a) = uint b - uint a"
    using uint_minus_simple_alt [of a b] by (simp add: not_less)
  with False show ?thesis by (simp add: abs_diff_def word_less_def)
qed

text \<open>Integral \<open>log2\<close>: \<^verbatim>\<open>std::bit_width(value) - 1\<close>, and \<open>-1\<close> for non-positive values.\<close>

fun bit_width :: "nat \<Rightarrow> nat" where
  "bit_width n = (if n = 0 then 0 else Suc (bit_width (n div 2)))"

declare bit_width.simps [simp del]

definition log2_int :: "int \<Rightarrow> int" where
  "log2_int value = (if value \<le> 0 then -1 else int (bit_width (nat value)) - 1)"

lemma bit_width_spec: "n > 0 \<Longrightarrow> 2 ^ (bit_width n - 1) \<le> n \<and> n < 2 ^ bit_width n \<and> bit_width n > 0"
proof (induction n rule: bit_width.induct)
  case (1 n)
  show ?case
  proof (cases "n div 2 = 0")
    case True
    then have "n = 1" using 1(2) by simp
    then show ?thesis by (simp add: bit_width.simps)
  next
    case False
    then have ih: "2 ^ (bit_width (n div 2) - 1) \<le> n div 2" "n div 2 < 2 ^ bit_width (n div 2)"
      "bit_width (n div 2) > 0" using 1 by auto
    then have "2 ^ bit_width (n div 2) \<le> n"
      by (cases "bit_width (n div 2)") auto
    moreover have "n < 2 * 2 ^ bit_width (n div 2)" using ih(2) by linarith
    ultimately show ?thesis using 1(2) by (simp add: bit_width.simps [of n])
  qed
qed

lemma log2_int_spec:
  assumes "v > 0"
  shows "2 ^ nat (log2_int v) \<le> v \<and> v < 2 ^ nat (log2_int v + 1)"
proof -
  let ?w = "bit_width (nat v)"
  have b: "2 ^ (?w - 1) \<le> nat v" "nat v < 2 ^ ?w" "?w > 0"
    using bit_width_spec [of "nat v"] assms by auto
  have "nat (log2_int v) = ?w - 1" "nat (log2_int v + 1) = ?w"
    using assms b(3) by (auto simp: log2_int_def)
  moreover have "int (2 ^ (?w - 1)) \<le> v" "v < int (2 ^ ?w)" using b assms by linarith+
  ultimately show ?thesis by simp
qed

text \<open>\<open>lerp\<close> computes in \<open>int\<close> (division truncates towards zero) and returns a byte.\<close>

definition lerp :: "u8 \<Rightarrow> u8 \<Rightarrow> int \<Rightarrow> int \<Rightarrow> u8" where
  "lerp a b pos max_pos =
     word_of_int (uint a + (let d = (uint b - uint a) * pos in
        sgn d * sgn max_pos * (\<bar>d\<bar> div \<bar>max_pos\<bar>)))"

subsection \<open>Flag sets\<close>

text \<open>\<open>has_flag (value, flags...)\<close>: all the flags of the mask are set in the value.\<close>

definition has_flag :: "'a::len word \<Rightarrow> 'a word list \<Rightarrow> bool" where
  "has_flag v flags = (let mask = foldr (OR) flags 0 in v AND mask = mask)"

lemma has_flag_single: "has_flag v [f] \<longleftrightarrow> v AND f = f"
  by (simp add: has_flag_def)

end
