(* ===== verification/Allocator.thy ===== *)
theory Allocator
  imports Bits
begin

text \<open>
  \<^verbatim>\<open>kstd/allocator_types.hh\<close> and the allocator-independent part of \<^verbatim>\<open>kstd/allocator.hh\<close>: the
  modes, features, errors and results, the helpers \<open>alloc\<close>, \<open>free\<close>, \<open>realloc\<close>, the queries,
  and the null allocator. An allocator's \<open>proc\<close> is a function on its state; addresses are
  64-bit words and \<open>nullptr\<close> is 0. In the modes \<open>FEATURES\<close> and \<open>INFO\<close> the pointer argument
  addresses an object the allocator writes: that object is the \<open>out_cell\<close> the \<open>proc\<close>
  receives and returns.
\<close>

section \<open>Types\<close>

datatype allocator_mode = ALLOCATE | FREE | RESIZE | FEATURES | IS_THIS_YOURS | INFO

definition Feature_NONE :: u32 where "Feature_NONE = 0"
definition Feature_FREE :: u32 where "Feature_FREE = push_bit 0 1"
definition Feature_RESIZE_SHRINK_NO_OP :: u32 where "Feature_RESIZE_SHRINK_NO_OP = push_bit 1 1"
definition Feature_ACTUALLY_RESIZE :: u32 where "Feature_ACTUALLY_RESIZE = push_bit 2 1"
definition Feature_THREADSAFE :: u32 where "Feature_THREADSAFE = push_bit 3 1"
definition Feature_IS_THIS_YOURS :: u32 where "Feature_IS_THIS_YOURS = push_bit 4 1"
definition Feature_INFO :: u32 where "Feature_INFO = push_bit 5 1"
definition Feature_FAST_BUMP_ALLOCATOR :: u32 where "Feature_FAST_BUMP_ALLOCATOR = push_bit 6 1"
definition Feature_GENERAL_HEAP_ALLOCATOR :: u32 where "Feature_GENERAL_HEAP_ALLOCATOR = push_bit 7 1"
definition Feature_PER_FRAME_TEMPORARY_STORAGE :: u32 where
  "Feature_PER_FRAME_TEMPORARY_STORAGE = push_bit 8 1"
definition Feature_DEBUG_ALLOCATOR :: u32 where "Feature_DEBUG_ALLOCATOR = push_bit 9 1"

lemmas feature_defs = Feature_NONE_def Feature_FREE_def Feature_RESIZE_SHRINK_NO_OP_def
  Feature_ACTUALLY_RESIZE_def Feature_THREADSAFE_def Feature_IS_THIS_YOURS_def Feature_INFO_def
  Feature_FAST_BUMP_ALLOCATOR_def Feature_GENERAL_HEAP_ALLOCATOR_def
  Feature_PER_FRAME_TEMPORARY_STORAGE_def Feature_DEBUG_ALLOCATOR_def

datatype allocator_error = Error_NONE | OUT_OF_MEMORY | USE_OF_UNINITIALIZED_ALLOCATOR
  | INVALID_POINTER | INVALID_ARGUMENT | MODE_NOT_IMPLEMENTED

record allocator_result =
  res_memory :: u64
  res_error :: allocator_error

datatype allocator_query_error = Query_NONE | QUERY_NOT_IMPLEMENTED

record allocator_info =
  info_pointer :: u64
  info_requested_size :: int
  info_requested_alignment :: int

record out_cell =
  out_features :: u32
  out_info :: allocator_info

definition no_info :: "u64 \<Rightarrow> allocator_info" where
  "no_info pointer = \<lparr> info_pointer = pointer, info_requested_size = 0, info_requested_alignment = 0 \<rparr>"

definition no_out :: out_cell where
  "no_out = \<lparr> out_features = Feature_NONE, out_info = no_info 0 \<rparr>"

text \<open>Mode, size, alignment, old size, old memory; then the out object and the state.\<close>

type_synonym 's allocator_proc =
  "allocator_mode \<Rightarrow> int \<Rightarrow> int \<Rightarrow> int \<Rightarrow> u64 \<Rightarrow> out_cell \<Rightarrow> 's \<Rightarrow>
   (allocator_result \<times> out_cell \<times> 's) outcome"

definition MAX_ALIGN :: int where "MAX_ALIGN = 16"

definition result :: "u64 \<Rightarrow> allocator_error \<Rightarrow> allocator_result" where
  "result memory error = \<lparr> res_memory = memory, res_error = error \<rparr>"

lemma result_sel [simp]: "res_memory (result m e) = m" "res_error (result m e) = e"
  by (simp_all add: result_def)

section \<open>Helpers\<close>

definition call_allocator ::
  "'s allocator_proc \<Rightarrow> allocator_mode \<Rightarrow> int \<Rightarrow> int \<Rightarrow> int \<Rightarrow> u64 \<Rightarrow> 's \<Rightarrow> (allocator_result \<times> 's) outcome"
  where
  "call_allocator proc mode sz alignment old_size old_memory st =
     obind (proc mode sz alignment old_size old_memory no_out st) (\<lambda>(r, out, st). Inr (r, st))"

definition alloc :: "'s allocator_proc \<Rightarrow> int \<Rightarrow> int \<Rightarrow> 's \<Rightarrow> (allocator_result \<times> 's) outcome" where
  "alloc proc sz alignment st =
     (if sz < 0 then Inr (result 0 INVALID_ARGUMENT, st)
      else if \<not> is_power_of_two alignment then Inr (result 0 INVALID_ARGUMENT, st)
      else call_allocator proc ALLOCATE sz alignment 0 0 st)"

definition free_aligned ::
  "'s allocator_proc \<Rightarrow> u64 \<Rightarrow> int \<Rightarrow> int \<Rightarrow> 's \<Rightarrow> (allocator_error \<times> 's) outcome" where
  "free_aligned proc pointer sz alignment st =
     (if sz < 0 \<or> alignment < 0 then Inr (INVALID_ARGUMENT, st)
      else obind (call_allocator proc FREE 0 alignment sz pointer st) (\<lambda>(r, st). Inr (res_error r, st)))"

definition free_memory :: "'s allocator_proc \<Rightarrow> u64 \<Rightarrow> int \<Rightarrow> 's \<Rightarrow> (allocator_error \<times> 's) outcome" where
  "free_memory proc pointer sz st = free_aligned proc pointer sz 0 st"

definition get_features :: "'s allocator_proc \<Rightarrow> 's \<Rightarrow> (u32 \<times> 's) outcome" where
  "get_features proc st =
     obind (proc FEATURES 0 0 0 1 no_out st) (\<lambda>(query, out, st).
       kstd_assert (res_error query = Error_NONE) ''Allocator features query failed''
         (Inr (out_features out, st)))"

definition is_this_yours ::
  "'s allocator_proc \<Rightarrow> u64 \<Rightarrow> 's \<Rightarrow> ((bool \<times> allocator_query_error) \<times> 's) outcome" where
  "is_this_yours proc pointer st =
     obind (call_allocator proc IS_THIS_YOURS 0 0 0 pointer st) (\<lambda>(query, st).
       if res_error query = MODE_NOT_IMPLEMENTED then Inr ((False, QUERY_NOT_IMPLEMENTED), st)
       else kstd_assert (res_error query = Error_NONE) ''Allocator ownership query failed''
              (Inr ((res_memory query \<noteq> 0, Query_NONE), st)))"

definition get_info ::
  "'s allocator_proc \<Rightarrow> u64 \<Rightarrow> 's \<Rightarrow> ((allocator_info \<times> allocator_query_error) \<times> 's) outcome" where
  "get_info proc pointer st =
     (let info = no_info pointer
      in obind (proc INFO 0 0 0 1 (no_out\<lparr> out_info := info \<rparr>) st) (\<lambda>(query, out, st).
           if res_error query = MODE_NOT_IMPLEMENTED
           then Inr ((out_info out, QUERY_NOT_IMPLEMENTED), st)
           else kstd_assert (res_error query = Error_NONE) ''Allocator info query failed''
                  (Inr ((out_info out, Query_NONE), st))))"

text \<open>
  \<open>realloc\<close>, with the copying of bytes (\<^verbatim>\<open>kstd_memcpy\<close>: destination, source, length) a
  parameter, because the bytes live in the client's state.
\<close>

definition realloc ::
  "(u64 \<Rightarrow> u64 \<Rightarrow> int \<Rightarrow> 's \<Rightarrow> 's) \<Rightarrow> 's allocator_proc \<Rightarrow> u64 \<Rightarrow> int \<Rightarrow> int \<Rightarrow> int \<Rightarrow> 's \<Rightarrow>
   (allocator_result \<times> 's) outcome" where
  "realloc memcpy proc pointer old_size new_size alignment st =
     (if old_size < 0 \<or> new_size < 0 \<or> alignment < 0 then Inr (result 0 INVALID_ARGUMENT, st)
      else if pointer = 0 \<and> new_size = 0 then Inr (result 0 Error_NONE, st)
      else
        obind (call_allocator proc RESIZE new_size alignment old_size pointer st) (\<lambda>(direct, st).
        if res_error direct \<noteq> MODE_NOT_IMPLEMENTED then Inr (direct, st)
        else if pointer \<noteq> 0 \<and> old_size = 0 then Inr (result 0 INVALID_ARGUMENT, st)
        else
          obind (get_features proc st) (\<lambda>(features, st).
          let can_free = has_flag features [Feature_FREE] in
          if new_size = 0 then
            if \<not> can_free then Inr (direct, st)
            else obind (free_aligned proc pointer old_size alignment st) (\<lambda>(error, st).
                   Inr (result 0 error, st))
          else if pointer \<noteq> 0 \<and> new_size \<le> old_size \<and> has_flag features [Feature_RESIZE_SHRINK_NO_OP]
          then Inr (result pointer Error_NONE, st)
          else
            obind (alloc proc new_size alignment st) (\<lambda>(allocation, st).
            if res_memory allocation = 0 then Inr (allocation, st)
            else
              let copy_size = (if old_size < new_size then old_size else new_size);
                  st = (if pointer \<noteq> 0 \<and> 0 < copy_size
                        then memcpy (res_memory allocation) pointer copy_size st else st)
              in if \<not> can_free then Inr (allocation, st)
                 else obind (free_aligned proc pointer old_size alignment st) (\<lambda>(error, st).
                   if error \<noteq> Error_NONE
                   then obind (free_aligned proc (res_memory allocation) new_size alignment st)
                          (\<lambda>(ignored, st). Inr (result 0 error, st))
                   else Inr (allocation, st))))))"

section \<open>Choosing an allocator\<close>

text \<open>An \<open>Allocator\<close> is valid when its \<open>proc\<close> is set; an invalid one is \<open>None\<close>.\<close>

definition resolve_allocator :: "'a option \<Rightarrow> 'a option \<Rightarrow> 'a \<Rightarrow> 'a" where
  "resolve_allocator override context_allocator null_allocator =
     (case override of Some a \<Rightarrow> a
      | None \<Rightarrow> (case context_allocator of Some a \<Rightarrow> a | None \<Rightarrow> null_allocator))"

definition set_allocator :: "'a option \<Rightarrow> 'a \<Rightarrow> 'a" where
  "set_allocator allocator null_allocator = (case allocator of Some a \<Rightarrow> a | None \<Rightarrow> null_allocator)"

section \<open>The null allocator\<close>

definition null_proc :: "'s allocator_proc" where
  "null_proc mode sz alignment old_size old_memory out st =
     (case mode of
        FEATURES \<Rightarrow>
          if old_memory \<noteq> 0 then Inr (result 0 Error_NONE, out\<lparr> out_features := Feature_NONE \<rparr>, st)
          else Inr (result 0 INVALID_ARGUMENT, out, st)
      | FREE \<Rightarrow>
          if old_memory = 0 then Inr (result 0 Error_NONE, out, st)
          else Inl ''Null_Allocator: Operation called.''
      | ALLOCATE \<Rightarrow>
          if sz = 0 then Inr (result 0 Error_NONE, out, st)
          else Inl ''Null_Allocator: Operation called.''
      | RESIZE \<Rightarrow>
          if sz = 0 then Inr (result 0 Error_NONE, out, st)
          else Inl ''Null_Allocator: Operation called.''
      | _ \<Rightarrow> Inr (result 0 MODE_NOT_IMPLEMENTED, out, st))"

section \<open>The interface of an allocator\<close>

text \<open>
  What clients rely on: \<open>L\<close> is the set of pointers handed out and not given back, and \<open>owned s p\<close>
  the addresses that belong to \<open>p\<close>. A program of \<open>alloc\<close> and \<open>free\<close> calls is run by
  \<open>run_heap\<close>, which keeps the list of its live pointers.
\<close>

datatype heap_op = Alloc int int | Free_nth nat

fun run_heap :: "'s allocator_proc \<Rightarrow> heap_op list \<Rightarrow> u64 list \<Rightarrow> 's \<Rightarrow> (u64 list \<times> 's) outcome" where
  "run_heap proc [] ps s = Inr (ps, s)"
| "run_heap proc (Alloc sz alignment # ops) ps s =
     obind (alloc proc sz alignment s) (\<lambda>(r, s).
       run_heap proc ops (if res_memory r = 0 then ps else res_memory r # ps) s)"
| "run_heap proc (Free_nth i # ops) ps s =
     (if i < List.length ps
      then obind (free_memory proc (ps ! i) 0 s) (\<lambda>(e, s).
             run_heap proc ops (take i ps @ drop (Suc i) ps) s)
      else run_heap proc ops ps s)"

text \<open>Sizes and alignments are \<open>ssize\<close> values.\<close>

fun op_ok :: "heap_op \<Rightarrow> bool" where
  "op_ok (Alloc sz alignment) \<longleftrightarrow> - (2 ^ 63) \<le> sz \<and> sz < 2 ^ 63 \<and> alignment < 2 ^ 63"
| "op_ok (Free_nth i) \<longleftrightarrow> True"

locale block_allocator =
  fixes proc :: "'s allocator_proc"
    and inv :: "'s \<Rightarrow> u64 set \<Rightarrow> bool"
    and owned :: "'s \<Rightarrow> u64 \<Rightarrow> nat set"
  assumes allocate: "inv s L \<Longrightarrow> 0 \<le> sz \<Longrightarrow> sz < 2 ^ 63 \<Longrightarrow> alignment < 2 ^ 63 \<Longrightarrow>
        is_power_of_two alignment \<Longrightarrow>
      \<exists>r s'. proc ALLOCATE sz alignment 0 0 out s = Inr (r, out, s') \<and>
        (if res_memory r = 0 then inv s' L
         else res_error r = Error_NONE \<and> res_memory r \<notin> L \<and> inv s' (insert (res_memory r) L)
           \<and> alignment dvd int (unat (res_memory r))
           \<and> {unat (res_memory r) ..< unat (res_memory r) + nat sz} \<subseteq> owned s' (res_memory r))
        \<and> (\<forall>p \<in> L. owned s' p = owned s p)"
    and disjoint: "inv s L \<Longrightarrow> p \<in> L \<Longrightarrow> q \<in> L \<Longrightarrow> p \<noteq> q \<Longrightarrow> owned s p \<inter> owned s q = {}"
    and bounded: "inv s L \<Longrightarrow> p \<in> L \<Longrightarrow> owned s p \<subseteq> {..< 2 ^ 63}"
begin

text \<open>The helper \<open>alloc\<close>: a new block is aligned, owned, and disjoint from every live one.\<close>

lemma alloc_spec:
  assumes inv: "inv s L" and sz: "sz < 2 ^ 63" "alignment < 2 ^ 63"
  shows "\<exists>r s'. alloc proc sz alignment s = Inr (r, s') \<and>
    (if res_memory r = 0 then inv s' L
     else res_error r = Error_NONE \<and> res_memory r \<notin> L \<and> inv s' (insert (res_memory r) L)
       \<and> alignment dvd int (unat (res_memory r))
       \<and> {unat (res_memory r) ..< unat (res_memory r) + nat sz} \<subseteq> owned s' (res_memory r)
       \<and> (\<forall>p \<in> L. owned s p \<inter> owned s' (res_memory r) = {}))
    \<and> (\<forall>p \<in> L. owned s' p = owned s p)"
proof (cases "sz < 0 \<or> \<not> is_power_of_two alignment")
  case True
  then show ?thesis using inv by (auto simp: alloc_def)
next
  case False
  then obtain r s' where r: "proc ALLOCATE sz alignment 0 0 no_out s = Inr (r, no_out, s')"
    "if res_memory r = 0 then inv s' L
     else res_error r = Error_NONE \<and> res_memory r \<notin> L \<and> inv s' (insert (res_memory r) L)
       \<and> alignment dvd int (unat (res_memory r))
       \<and> {unat (res_memory r) ..< unat (res_memory r) + nat sz} \<subseteq> owned s' (res_memory r)"
    "\<forall>p \<in> L. owned s' p = owned s p"
    using allocate [OF inv _ sz, of no_out] by auto
  have run: "alloc proc sz alignment s = Inr (r, s')"
    using False r(1) by (simp add: alloc_def call_allocator_def)
  have "owned s p \<inter> owned s' (res_memory r) = {}"
    if "res_memory r \<noteq> 0" "p \<in> L" for p
  proof -
    have "inv s' (insert (res_memory r) L)" "res_memory r \<notin> L" using r(2) that(1) by auto
    then have "owned s' p \<inter> owned s' (res_memory r) = {}" using that(2)
      by (intro disjoint [of s' "insert (res_memory r) L"]) auto
    then show ?thesis using r(3) that(2) by simp
  qed
  then show ?thesis using run r(2,3) by auto
qed

end

locale freeing_allocator = block_allocator +
  assumes free: "inv s L \<Longrightarrow> p \<in> L \<Longrightarrow>
      \<exists>s'. proc FREE 0 0 0 p out s = Inr (result 0 Error_NONE, out, s')
        \<and> inv s' (L - {p}) \<and> (\<forall>q \<in> L - {p}. owned s' q = owned s q)"
begin

lemma free_spec:
  assumes "inv s L" "p \<in> L"
  shows "\<exists>s'. free_memory proc p 0 s = Inr (Error_NONE, s') \<and> inv s' (L - {p})
    \<and> (\<forall>q \<in> L - {p}. owned s' q = owned s q)"
  using free [OF assms, of no_out]
  by (auto simp: free_memory_def free_aligned_def call_allocator_def)

lemma run_heap_ok:
  "inv s (set ps) \<Longrightarrow> distinct ps \<Longrightarrow> \<forall>op \<in> set ops. op_ok op \<Longrightarrow>
   \<exists>ps' s'. run_heap proc ops ps s = Inr (ps', s') \<and> inv s' (set ps') \<and> distinct ps'"
proof (induction ops arbitrary: ps s)
  case (Cons op ops)
  show ?case
  proof (cases op)
    case (Alloc sz alignment)
    then have "sz < 2 ^ 63" "alignment < 2 ^ 63" using Cons.prems(3) by auto
    from alloc_spec [OF Cons.prems(1) this] obtain r s' where r: "alloc proc sz alignment s = Inr (r, s')"
      "if res_memory r = 0 then inv s' (set ps)
       else res_memory r \<notin> set ps \<and> inv s' (insert (res_memory r) (set ps))"
      by (auto split: if_splits)
    define ps1 where "ps1 = (if res_memory r = 0 then ps else res_memory r # ps)"
    have "inv s' (set ps1)" "distinct ps1"
      using r(2) Cons.prems(2) by (auto simp: ps1_def split: if_splits)
    then show ?thesis using Cons.IH [of s' ps1] Cons.prems(3) Alloc r(1) by (simp add: ps1_def)
  next
    case (Free_nth i)
    show ?thesis
    proof (cases "i < List.length ps")
      case True
      let ?ps = "take i ps @ drop (Suc i) ps"
      have split: "ps = take i ps @ ps ! i # drop (Suc i) ps" using True by (rule id_take_nth_drop)
      have "distinct (take i ps @ ps ! i # drop (Suc i) ps)" using Cons.prems(2) split by simp
      then have d: "distinct ?ps" and notin: "ps ! i \<notin> set ?ps" by auto
      have "set ps = insert (ps ! i) (set ?ps)" by (subst split) simp
      then have set: "set ?ps = set ps - {ps ! i}" using notin by auto
      obtain s' where "free_memory proc (ps ! i) 0 s = Inr (Error_NONE, s')" "inv s' (set ?ps)"
        using free_spec [OF Cons.prems(1), of "ps ! i"] True unfolding set by auto
      then show ?thesis using Cons.IH [of s' ?ps] d Cons.prems(3) True Free_nth by simp
    next
      case False
      then show ?thesis using Cons Free_nth by simp
    qed
  qed
qed simp

end

text \<open>
  A heap that looks blocks up by pointer: it takes back a block whatever size and alignment the
  caller names, and says that it frees memory.
\<close>

locale sized_heap = freeing_allocator +
  assumes free_sized: "inv s L \<Longrightarrow> p \<in> L \<Longrightarrow>
      \<exists>s'. proc FREE 0 alignment old_size p out s = Inr (result 0 Error_NONE, out, s')
        \<and> inv s' (L - {p}) \<and> (\<forall>q \<in> L - {p}. owned s' q = owned s q)"
    and heap_features: "\<exists>features. proc FEATURES 0 0 0 1 no_out s
      = Inr (result 0 Error_NONE, no_out\<lparr> out_features := features \<rparr>, s) \<and> has_flag features [Feature_FREE]"
begin

lemma free_sized_spec:
  assumes "inv s L" "p \<in> L" "0 \<le> old_size" "0 \<le> alignment"
  shows "\<exists>s'. free_aligned proc p old_size alignment s = Inr (Error_NONE, s') \<and> inv s' (L - {p})
    \<and> (\<forall>q \<in> L - {p}. owned s' q = owned s q)"
  using free_sized [OF assms(1,2), of alignment old_size no_out] assms(3,4)
  by (auto simp: free_aligned_def call_allocator_def)

lemma get_features_spec:
  "\<exists>features. get_features proc s = Inr (features, s) \<and> has_flag features [Feature_FREE]"
  using heap_features [of s] by (auto simp: get_features_def)

end

end
