(* ===== verification/Buddy.thy ===== *)
theory Buddy
  imports Allocator
begin

text \<open>
  \<^verbatim>\<open>gameos/allocator.hh\<close>: the buddy heap that hands out the machine's memory. \<open>free_lists\<close> is the
  array of singly linked lists of free blocks, by order; a list is the addresses of its blocks
  from the head. \<open>headers\<close> is what memory shows when the 32 bytes at an address are read as an
  \<open>Allocation_Header\<close>, for every address (arbitrary where no header was written; the code only
  asks whether the state byte is \<open>LIVE\<close>, every other byte value is \<open>FREED\<close> here). The \<open>next\<close>
  pointer that \<open>push_free_block\<close> writes into the first 8 bytes of a free block lies below the
  \<open>state\<close> byte of a header there and is not read through \<open>headers\<close>. The lock is held from the
  first access to the state to the return, so each call is one step.
\<close>

section \<open>State\<close>

datatype allocation_state = LIVE | FREED

record allocation_header =
  block_base :: u64
  header_order :: nat
  header_state :: allocation_state
  requested_size :: u64
  requested_alignment :: u64

record buddy_state =
  free_lists :: "nat \<Rightarrow> u64 list"
  headers :: "u64 \<Rightarrow> allocation_header"

definition PAGE_USIZE :: u64 where "PAGE_USIZE = 4096"
definition MIN_ORDER :: nat where "MIN_ORDER = 12"
definition MAX_ORDER :: nat where "MAX_ORDER = 63"
definition HEADER_SIZE :: u64 where "HEADER_SIZE = 32"

definition Buddy_FEATURES :: u32 where
  "Buddy_FEATURES = Feature_THREADSAFE OR Feature_FREE OR Feature_ACTUALLY_RESIZE OR Feature_INFO
     OR Feature_GENERAL_HEAP_ALLOCATOR"

section \<open>Orders and block sizes\<close>

definition block_size_for_order :: "nat \<Rightarrow> u64" where
  "block_size_for_order order = push_bit order 1"

text \<open>
  The loop variable \<open>current\<close> is an \<^verbatim>\<open>int\<close>: shifting it left wraps at 32 bits, and the
  comparison with the 64-bit \<open>block_size\<close> sign-extends it.
\<close>

function order_loop :: "u64 \<Rightarrow> nat \<Rightarrow> u32 \<Rightarrow> nat" where
  "order_loop block_size order current =
     (if scast current < block_size \<and> order < MAX_ORDER
      then order_loop block_size (order + 1) (push_bit 1 current) else order)"
  by pat_completeness auto
termination by (relation "measure (\<lambda>(b, order, c). MAX_ORDER - order)") auto

definition order_for_block_size :: "u64 \<Rightarrow> nat" where
  "order_for_block_size block_size = order_loop block_size MIN_ORDER 4096"

text \<open>The conjunct \<open>block_size \<noteq> 0\<close> never fails; it only makes the function total.\<close>

function next_block_loop :: "u64 \<Rightarrow> u64 \<Rightarrow> u64" where
  "next_block_loop required_size block_size =
     (if block_size < required_size \<and> block_size < push_bit MAX_ORDER 1 \<and> block_size \<noteq> 0
      then next_block_loop required_size (push_bit 1 block_size) else block_size)"
  by pat_completeness auto
termination
proof (relation "measure (\<lambda>(r, b). 2 ^ 64 - unat b)", simp)
  fix required_size b :: u64
  assume "b < required_size \<and> b < push_bit MAX_ORDER 1 \<and> b \<noteq> 0"
  then have "unat b < 2 ^ 63" "0 < unat b"
    by (auto simp: word_less_nat_alt MAX_ORDER_def unat_gt_0)
  moreover have "unat (push_bit 1 b) = 2 * unat b"
    using \<open>unat b < 2 ^ 63\<close> by (simp add: push_bit_eq_mult unat_word_ariths)
  ultimately show "((required_size, push_bit 1 b), required_size, b)
      \<in> measure (\<lambda>(r, b). 2 ^ 64 - unat b)"
    by simp
qed

definition next_block_size :: "u64 \<Rightarrow> u64" where
  "next_block_size required_size = next_block_loop required_size PAGE_USIZE"

declare order_loop.simps [simp del] next_block_loop.simps [simp del]

section \<open>Free lists\<close>

definition header_from_pointer :: "u64 \<Rightarrow> u64" where
  "header_from_pointer memory = memory - HEADER_SIZE"

definition buddy_clear :: "buddy_state \<Rightarrow> buddy_state" where
  "buddy_clear st = st\<lparr> free_lists := \<lambda>order. [] \<rparr>"

definition push_free_block :: "u64 \<Rightarrow> nat \<Rightarrow> buddy_state \<Rightarrow> buddy_state" where
  "push_free_block base order st =
     st\<lparr> free_lists := (free_lists st)(order := base # free_lists st order) \<rparr>"

definition remove_free_block :: "nat \<Rightarrow> u64 \<Rightarrow> buddy_state \<Rightarrow> bool \<times> buddy_state" where
  "remove_free_block order base st =
     (if base \<in> set (free_lists st order)
      then (True, st\<lparr> free_lists := (free_lists st)(order := remove1 base (free_lists st order)) \<rparr>)
      else (False, st))"

definition is_free_block :: "nat \<Rightarrow> u64 \<Rightarrow> buddy_state \<Rightarrow> bool" where
  "is_free_block order base st \<longleftrightarrow> base \<in> set (free_lists st order)"

section \<open>Regions\<close>

function shrink_to_alignment :: "u64 \<Rightarrow> u64 \<Rightarrow> u64" where
  "shrink_to_alignment current block_size =
     (if PAGE_USIZE < block_size \<and> current AND (block_size - 1) \<noteq> 0
      then shrink_to_alignment current (drop_bit 1 block_size) else block_size)"
  by pat_completeness auto
termination
proof (relation "measure (\<lambda>(c, b). unat b)", simp)
  fix current b :: u64
  assume "PAGE_USIZE < b \<and> current AND (b - 1) \<noteq> 0"
  then have "0 < unat b" by (simp add: word_less_nat_alt PAGE_USIZE_def)
  then show "((current, drop_bit 1 b), current, b) \<in> measure (\<lambda>(c, b). unat b)"
    by (simp add: unat_drop_bit)
qed

declare shrink_to_alignment.simps [simp del]

definition region_block_size :: "u64 \<Rightarrow> u64 \<Rightarrow> u64" where
  "region_block_size current region_end =
     (let block_size = shrink_to_alignment current (floor_pow2 (region_end - current))
      in if block_size < PAGE_USIZE then PAGE_USIZE else block_size)"

partial_function (option) region_loop :: "u64 \<Rightarrow> u64 \<Rightarrow> buddy_state \<Rightarrow> buddy_state option" where
  "region_loop current region_end st =
     (if current < region_end then
        let block_size = region_block_size current region_end;
            order = order_for_block_size block_size
        in region_loop (current + block_size) region_end (push_free_block current order st)
      else Some st)"

definition add_region :: "u64 \<Rightarrow> u64 \<Rightarrow> buddy_state \<Rightarrow> buddy_state option" where
  "add_region base bytes st =
     (let start = align_up base PAGE_USIZE; region_end = align_down (base + bytes) PAGE_USIZE
      in if region_end \<le> start then Some st else region_loop start region_end st)"

section \<open>Allocation\<close>

function find_order :: "nat \<Rightarrow> buddy_state \<Rightarrow> nat" where
  "find_order order st =
     (if order \<le> MAX_ORDER \<and> free_lists st order = [] then find_order (order + 1) st else order)"
  by pat_completeness auto
termination by (relation "measure (\<lambda>(order, st). Suc MAX_ORDER - order)") auto

declare find_order.simps [simp del]

text \<open>Splitting from \<open>order\<close> down to \<open>target_order\<close>: the upper halves go to the free lists.\<close>

fun split_block :: "u64 \<Rightarrow> nat \<Rightarrow> nat \<Rightarrow> buddy_state \<Rightarrow> buddy_state" where
  "split_block base 0 target_order st = st"
| "split_block base (Suc order) target_order st =
     (if target_order < Suc order
      then split_block base order target_order
             (push_free_block (base + block_size_for_order order) order st)
      else st)"

definition buddy_allocate :: "int \<Rightarrow> int \<Rightarrow> buddy_state \<Rightarrow> allocator_result \<times> buddy_state" where
  "buddy_allocate sz alignment st =
     (if sz < 0 \<or> \<not> is_power_of_two alignment then (result 0 INVALID_ARGUMENT, st)
      else if sz = 0 then (result 0 Error_NONE, st)
      else
        let req_size = word_of_int sz; req_alignment = word_of_int alignment;
            required_size = req_size + req_alignment + HEADER_SIZE
        in if required_size < req_size then (result 0 INVALID_ARGUMENT, st)
           else
             let target_block_size = next_block_size required_size
             in if target_block_size < PAGE_USIZE then (result 0 OUT_OF_MEMORY, st)
                else
                  let target_order = order_for_block_size target_block_size;
                      order = find_order target_order st
                  in if MAX_ORDER < order then (result 0 OUT_OF_MEMORY, st)
                     else
                       let base = hd (free_lists st order);
                           st = st\<lparr> free_lists := (free_lists st)(order := tl (free_lists st order)) \<rparr>;
                           st = split_block base order target_order st;
                           block_size = block_size_for_order target_order;
                           user_ptr = align_up (base + HEADER_SIZE) req_alignment
                       in if user_ptr + req_size < user_ptr \<or> base + block_size < user_ptr + req_size
                          then (result 0 OUT_OF_MEMORY, push_free_block base target_order st)
                          else
                            (result user_ptr Error_NONE,
                             st\<lparr> headers := (headers st)(header_from_pointer user_ptr :=
                               \<lparr> block_base = base, header_order = target_order, header_state = LIVE,
                                 requested_size = req_size, requested_alignment = req_alignment \<rparr>) \<rparr>))"

section \<open>Freeing\<close>

function merge_loop :: "u64 \<Rightarrow> nat \<Rightarrow> buddy_state \<Rightarrow> u64 \<times> nat \<times> buddy_state" where
  "merge_loop base order st =
     (if order < MAX_ORDER then
        let buddy_base = base XOR block_size_for_order order;
            (found, st') = remove_free_block order buddy_base st
        in if \<not> found then (base, order, st)
           else merge_loop (if buddy_base < base then buddy_base else base) (order + 1) st'
      else (base, order, st))"
  by pat_completeness auto
termination by (relation "measure (\<lambda>(base, order, st). MAX_ORDER - order)") auto

declare merge_loop.simps [simp del]

definition buddy_free :: "u64 \<Rightarrow> buddy_state \<Rightarrow> (allocator_result \<times> buddy_state) outcome" where
  "buddy_free old_memory st =
     (if old_memory = 0 then Inr (result 0 Error_NONE, st)
      else
        let address = header_from_pointer old_memory; header = headers st address
        in kstd_assert (header_state header = LIVE) ''Buddy allocator: double free''
             (let st = st\<lparr> headers := (headers st)(address := header\<lparr> header_state := FREED \<rparr>) \<rparr>;
                  (base, order, st) = merge_loop (block_base header) (header_order header) st
              in Inr (result 0 Error_NONE, push_free_block base order st)))"

section \<open>Resizing\<close>

text \<open>The check loop, and the removal loop, which ends with the base of the merged block.\<close>

fun buddies_free :: "nat \<Rightarrow> u64 \<Rightarrow> nat \<Rightarrow> buddy_state \<Rightarrow> bool" where
  "buddies_free 0 base order st \<longleftrightarrow> True"
| "buddies_free (Suc n) base order st \<longleftrightarrow>
     (let buddy_base = base XOR block_size_for_order order
      in is_free_block order buddy_base st \<and>
         buddies_free n (if buddy_base < base then buddy_base else base) (order + 1) st)"

fun remove_buddies :: "nat \<Rightarrow> u64 \<Rightarrow> nat \<Rightarrow> buddy_state \<Rightarrow> u64 \<times> buddy_state" where
  "remove_buddies 0 base order st = (base, st)"
| "remove_buddies (Suc n) base order st =
     (let buddy_base = base XOR block_size_for_order order;
          st = snd (remove_free_block order buddy_base st)
      in remove_buddies n (if buddy_base < base then buddy_base else base) (order + 1) st)"

text \<open>The payload bytes belong to the clients; \<open>memcpy\<close> is recorded as the copy it asks for.\<close>

definition buddy_resize ::
  "int \<Rightarrow> int \<Rightarrow> int \<Rightarrow> u64 \<Rightarrow> buddy_state \<Rightarrow> (allocator_result \<times> (u64 \<times> u64 \<times> int) option) \<times> buddy_state"
  where
  "buddy_resize sz alignment old_size old_memory st =
     (if sz < 0 \<or> \<not> is_power_of_two alignment then ((result 0 INVALID_ARGUMENT, None), st)
      else if sz = 0 then ((result 0 Error_NONE, None), st)
      else if old_memory = 0 then (let (r, st) = buddy_allocate sz alignment st in ((r, None), st))
      else if unat old_memory mod nat alignment \<noteq> 0 then ((result 0 MODE_NOT_IMPLEMENTED, None), st)
      else
        let address = header_from_pointer old_memory; header = headers st address;
            base = block_base header; old_order = header_order header;
            old_block_size = block_size_for_order old_order;
            available = base + old_block_size - old_memory;
            new_size = word_of_int sz; new_alignment = word_of_int alignment
        in if new_size \<le> available \<and> new_alignment = requested_alignment header
           then ((result old_memory Error_NONE, None),
                 st\<lparr> headers := (headers st)(address := header\<lparr> requested_size := new_size \<rparr>) \<rparr>)
           else
             let required_size = new_size + new_alignment + HEADER_SIZE
             in if required_size < new_size then ((result 0 INVALID_ARGUMENT, None), st)
                else
                  let target_order = order_for_block_size (next_block_size required_size)
                  in if target_order \<le> old_order \<or> MAX_ORDER < target_order
                     then ((result 0 MODE_NOT_IMPLEMENTED, None), st)
                     else if \<not> buddies_free (target_order - old_order) base old_order st
                     then ((result 0 MODE_NOT_IMPLEMENTED, None), st)
                     else
                       let (new_base, st) = remove_buddies (target_order - old_order) base old_order st;
                           new_user = align_up (new_base + HEADER_SIZE) new_alignment;
                           new_block_size = block_size_for_order target_order
                       in if new_user + new_size < new_user \<or> new_base + new_block_size < new_user + new_size
                          then ((result 0 MODE_NOT_IMPLEMENTED, None), st)
                          else
                            let st = st\<lparr> headers := (headers st)(header_from_pointer new_user :=
                                  \<lparr> block_base = new_base, header_order = target_order,
                                    header_state = LIVE, requested_size = new_size,
                                    requested_alignment = new_alignment \<rparr>) \<rparr>;
                                copy = (if new_user \<noteq> old_memory \<and> 0 < old_size
                                        then Some (new_user, old_memory, if old_size < sz then old_size else sz)
                                        else None);
                                st = st\<lparr> headers := (headers st)(address :=
                                  (headers st address)\<lparr> header_state := FREED \<rparr>) \<rparr>
                            in ((result new_user Error_NONE, copy), st))"

section \<open>Queries and the dispatcher\<close>

definition buddy_is_this_yours :: "u64 \<Rightarrow> buddy_state \<Rightarrow> allocator_result" where
  "buddy_is_this_yours old_memory st =
     (if old_memory = 0 then result 0 Error_NONE
      else
        let header = headers st (header_from_pointer old_memory)
        in if header_state header \<noteq> LIVE then result 0 Error_NONE
           else if header_order header < MIN_ORDER \<or> MAX_ORDER < header_order header
             \<or> \<not> is_power_of_two_u64 (requested_alignment header) then result 0 Error_NONE
           else
             let base = block_base header; block_size = block_size_for_order (header_order header);
                 user_address = align_up (base + HEADER_SIZE) (requested_alignment header)
             in if old_memory \<noteq> user_address
                  \<or> user_address + requested_size header < user_address
                  \<or> base + block_size < user_address + requested_size header
                then result 0 Error_NONE else result old_memory Error_NONE)"

definition buddy_info :: "out_cell \<Rightarrow> buddy_state \<Rightarrow> allocator_result \<times> out_cell" where
  "buddy_info out st =
     (let info = out_info out
      in if info_pointer info = 0 then (result 0 INVALID_ARGUMENT, out)
         else
           let header = headers st (header_from_pointer (info_pointer info))
           in if header_state header \<noteq> LIVE then (result 0 INVALID_POINTER, out)
              else (result 0 Error_NONE, out\<lparr> out_info := info\<lparr>
                      info_requested_size := sint (requested_size header),
                      info_requested_alignment := sint (requested_alignment header) \<rparr> \<rparr>))"

definition buddy_proc :: "buddy_state allocator_proc" where
  "buddy_proc mode sz alignment old_size old_memory out st =
     (case mode of
        ALLOCATE \<Rightarrow> (let (r, st) = buddy_allocate sz alignment st in Inr (r, out, st))
      | FREE \<Rightarrow> obind (buddy_free old_memory st) (\<lambda>(r, st). Inr (r, out, st))
      | RESIZE \<Rightarrow> (let ((r, copy), st) = buddy_resize sz alignment old_size old_memory st
                   in Inr (r, out, st))
      | FEATURES \<Rightarrow>
          if old_memory \<noteq> 0
          then Inr (result 0 Error_NONE, out\<lparr> out_features := Buddy_FEATURES \<rparr>, st)
          else Inr (result 0 INVALID_ARGUMENT, out, st)
      | IS_THIS_YOURS \<Rightarrow> Inr (buddy_is_this_yours old_memory st, out, st)
      | INFO \<Rightarrow> (if old_memory = 0 then Inr (result 0 INVALID_ARGUMENT, out, st)
                 else let (r, out) = buddy_info out st in Inr (r, out, st)))"

section \<open>What the size loops compute\<close>

lemma unat_block_size: "o' < 64 \<Longrightarrow> unat (block_size_for_order o') = 2 ^ o'"
  by (simp add: block_size_for_order_def push_bit_of_1 unat_pow2)

lemma order_loop_step:
  assumes k: "12 \<le> k" "k < 31" and b: "block_size = 2 ^ j" "j < 64"
  shows "order_loop block_size k (2 ^ k) = (if k < j then order_loop block_size (Suc k) (2 ^ Suc k) else k)"
proof -
  have "scast ((2::u32) ^ k) = (2::u64) ^ k"
    by (rule bit_word_eqI) (use k in \<open>auto simp: bit_signed_iff bit_exp_iff min_def\<close>)
  moreover have "(2::u64) ^ k < 2 ^ j \<longleftrightarrow> k < j"
    using k b(2) by (simp add: word_less_nat_alt unat_pow2)
  ultimately show ?thesis
    using k unfolding b(1) by (subst order_loop.simps) (simp add: MAX_ORDER_def push_bit_eq_mult mult.commute)
qed

lemma order_loop_31:
  assumes "j < 64"
  shows "order_loop (2 ^ j) 31 (2 ^ 31) = 31"
proof -
  have "unat (scast ((2::u32) ^ 31) :: u64) = 2 ^ 64 - 2 ^ 31" by simp
  moreover have "unat ((2::u64) ^ j) \<le> 2 ^ 63"
    using assms power_increasing [of j 63 "2::nat"] by (simp add: unat_pow2)
  ultimately have "\<not> scast ((2::u32) ^ 31) < (2::u64) ^ j" by (simp add: word_less_nat_alt)
  then show ?thesis by (subst order_loop.simps) simp
qed

lemma order_loop_result:
  assumes "j < 64" "12 \<le> k" "k \<le> 31" "k \<le> max 12 j"
  shows "order_loop (2 ^ j) k (2 ^ k) = min 31 (max 12 j)"
  using assms(2-4)
proof (induction "31 - k" arbitrary: k)
  case 0
  then have "k = 31" by simp
  then show ?case using 0 order_loop_31 [OF assms(1)] by simp
next
  case (Suc n)
  then have "k < 31" by simp
  show ?case
  proof (cases "k < j")
    case True
    have "order_loop (2 ^ j) (Suc k) (2 ^ Suc k) = min 31 (max 12 j)"
      using Suc.hyps(1) [of "Suc k"] Suc.hyps(2) Suc.prems True \<open>k < 31\<close> by simp
    then show ?thesis
      using order_loop_step [of k "2 ^ j" j] True \<open>k < 31\<close> Suc.prems assms(1) by simp
  next
    case False
    then show ?thesis
      using order_loop_step [of k "2 ^ j" j] \<open>k < 31\<close> Suc.prems assms(1) by simp
  qed
qed

lemma order_for_pow2:
  "j < 64 \<Longrightarrow> order_for_block_size (2 ^ j) = min 31 (max 12 j)"
  using order_loop_result [of j 12] by (simp add: order_for_block_size_def MIN_ORDER_def)

lemma next_block_loop_result:
  assumes "12 \<le> k" "k \<le> 63"
  shows "\<exists>j. k \<le> j \<and> j \<le> 63 \<and> next_block_loop r (2 ^ k) = 2 ^ j \<and> (unat r \<le> 2 ^ j \<or> j = 63)"
  using assms
proof (induction "63 - k" arbitrary: k)
  case 0
  then have "k = 63" by simp
  then show ?case
    by (subst next_block_loop.simps) (auto simp: MAX_ORDER_def push_bit_of_1 intro!: exI [of _ 63])
next
  case (Suc n)
  have p: "unat ((2::u64) ^ k) = 2 ^ k" using Suc by (simp add: unat_pow2)
  show ?case
  proof (cases "unat r \<le> 2 ^ k")
    case True
    then show ?thesis using Suc p
      by (subst next_block_loop.simps) (auto simp: word_less_nat_alt intro!: exI [of _ k])
  next
    case False
    have k: "k < 63" using Suc by simp
    then have "(2::nat) ^ k < 2 ^ 63" by (rule power_strict_increasing) simp
    moreover have "(2::u64) ^ k \<noteq> 0" using p by (metis unsigned_0 power_not_zero zero_neq_numeral)
    ultimately have "next_block_loop r (2 ^ k) = next_block_loop r (2 ^ Suc k)"
      using False p by (subst next_block_loop.simps)
        (simp add: word_less_nat_alt MAX_ORDER_def push_bit_eq_mult mult.commute)
    moreover obtain j where "Suc k \<le> j" "j \<le> 63" "next_block_loop r (2 ^ Suc k) = 2 ^ j"
        "unat r \<le> 2 ^ j \<or> j = 63"
    proof -
      have "n = 63 - Suc k" "12 \<le> Suc k" "Suc k \<le> 63" using Suc.hyps(2) Suc.prems k by simp_all
      then show ?thesis using Suc.hyps(1) [of "Suc k"] that by blast
    qed
    ultimately show ?thesis by (auto intro!: exI [of _ j])
  qed
qed

lemma next_block_size_pow2:
  "\<exists>j. 12 \<le> j \<and> j \<le> 63 \<and> next_block_size r = 2 ^ j \<and> (unat r \<le> 2 ^ j \<or> j = 63)"
  using next_block_loop_result [of 12 r] by (simp add: next_block_size_def PAGE_USIZE_def)

lemma target_order_bounds:
  "12 \<le> order_for_block_size (next_block_size r)" "order_for_block_size (next_block_size r) \<le> 31"
  "\<not> next_block_size r < PAGE_USIZE"
proof -
  obtain j where j: "12 \<le> j" "j \<le> 63" "next_block_size r = 2 ^ j"
    using next_block_size_pow2 by blast
  then show "12 \<le> order_for_block_size (next_block_size r)"
    "order_for_block_size (next_block_size r) \<le> 31"
    by (simp_all add: order_for_pow2)
  have "(2::nat) ^ 12 \<le> 2 ^ j" using j(1) by (intro power_increasing) simp_all
  then show "\<not> next_block_size r < PAGE_USIZE"
    using j by (simp add: word_less_nat_alt PAGE_USIZE_def unat_pow2)
qed

section \<open>Blocks as sets of addresses\<close>

definition block_range :: "u64 \<Rightarrow> nat \<Rightarrow> nat set" where
  "block_range base order = {unat base ..< unat base + 2 ^ order}"

text \<open>Blocks lie below \<open>2 ^ 63\<close>: physical addresses have at most 52 bits.\<close>

definition block_ok :: "u64 \<Rightarrow> nat \<Rightarrow> bool" where
  "block_ok base order \<longleftrightarrow> 12 \<le> order \<and> order \<le> 63 \<and> 2 ^ order dvd unat base
     \<and> unat base + 2 ^ order \<le> 2 ^ 63"

lemma block_range_nonempty [simp]: "block_range base order \<noteq> {}"
  by (simp add: block_range_def)

lemma base_in_range [simp]: "unat base \<in> block_range base order"
  by (simp add: block_range_def)

text \<open>The buddy of a block, and the block the two form.\<close>

lemma nat_xor_1: "(q::nat) XOR 1 = (if even q then q + 1 else q - 1)"
proof (rule bit_eqI)
  fix n
  show "bit (q XOR 1) n = bit (if even q then q + 1 else q - 1) n"
  proof (cases n)
    case 0
    have "even (q XOR 1) \<longleftrightarrow> odd q" by (simp add: even_xor_iff)
    then show ?thesis using 0 by (auto simp: bit_0)
  next
    case (Suc m)
    have "(q + 1) div 2 = q div 2" if "even q" using that by presburger
    moreover have "(q - 1) div 2 = q div 2" if "odd q" using that by presburger
    moreover have "(q XOR 1) div 2 = q div 2"
      using drop_bit_xor [of 1 q 1] by (simp add: drop_bit_eq_div del: One_nat_def)
    ultimately show ?thesis using Suc by (auto simp: bit_Suc simp del: One_nat_def)
  qed
qed

lemma unat_buddy:
  assumes "order < 64" "unat base = 2 ^ order * q"
  shows "unat (base XOR block_size_for_order order) = 2 ^ order * (if even q then q + 1 else q - 1)"
proof -
  have "unat (base XOR block_size_for_order order) = (2 ^ order * q) XOR (2 ^ order * 1)"
    using assms by (simp add: unsigned_xor_eq unat_block_size)
  also have "\<dots> = push_bit order q XOR push_bit order 1" by (simp add: push_bit_eq_mult mult.commute)
  also have "\<dots> = push_bit order (q XOR 1)" by (simp only: push_bit_xor)
  finally show ?thesis by (simp only: nat_xor_1 push_bit_eq_mult mult.commute)
qed

lemma merge_blocks:
  assumes ok: "block_ok base order" and lt: "order < 63"
  defines "buddy \<equiv> base XOR block_size_for_order order"
  defines "low \<equiv> if buddy < base then buddy else base"
  shows "block_ok low (Suc order)"
    and "block_range low (Suc order) = block_range base order \<union> block_range buddy order"
    and "block_range base order \<inter> block_range buddy order = {}"
    and "block_ok buddy order"
proof -
  obtain q where q: "unat base = 2 ^ order * q" using ok by (auto simp: block_ok_def)
  have b: "unat buddy = 2 ^ order * (if even q then q + 1 else q - 1)"
    unfolding buddy_def using lt q by (intro unat_buddy) auto
  have "unat base < 2 ^ 63"
    using ok less_le_trans [of "unat base" "unat base + 2 ^ order" "2 ^ 63"] by (simp add: block_ok_def)
  then have "2 ^ order * q < 2 ^ order * 2 ^ (63 - order)"
    using q lt by (simp flip: power_add)
  then have q63: "q < 2 ^ (63 - order)" by simp
  have ev: "even ((2::nat) ^ (63 - order))" using lt by simp
  have low: "unat low = 2 ^ order * (if even q then q else q - 1)"
    using b q by (auto simp: low_def word_less_nat_alt)
  define r where "r = (if even q then q else q - 1) div 2"
  have r: "(if even q then q else q - 1) = 2 * r" by (auto simp: r_def)
  have "2 * r < 2 ^ (63 - order)" using q63 r by (auto split: if_splits)
  then have "2 * r + 2 \<le> 2 ^ (63 - order)" using ev by presburger
  then have "2 ^ order * (2 * r + 2) \<le> 2 ^ order * 2 ^ (63 - order)" by (rule mult_left_mono) simp
  then have bound: "2 ^ order * (2 * r + 2) \<le> 2 ^ 63" using lt by (simp flip: power_add)
  have low2: "unat low = 2 ^ Suc order * r" using low r by simp
  show "block_ok low (Suc order)"
    using ok lt low2 bound by (simp add: block_ok_def algebra_simps)
  have cases: "(unat base = unat low \<and> unat buddy = unat low + 2 ^ order)
      \<or> (unat buddy = unat low \<and> unat base = unat low + 2 ^ order)"
    using b q low by (cases "even q") (auto simp: algebra_simps odd_pos elim!: oddE)
  show "block_range low (Suc order) = block_range base order \<union> block_range buddy order"
    and "block_range base order \<inter> block_range buddy order = {}"
    using cases unfolding block_range_def by auto
  have "2 ^ order dvd unat buddy" using b by simp
  moreover have "unat buddy + 2 ^ order \<le> 2 ^ 63"
    using cases low2 bound by (auto simp: algebra_simps)
  ultimately show "block_ok buddy order" using ok by (simp add: block_ok_def)
qed

section \<open>The free lists as a set of blocks\<close>

definition free_bytes :: "buddy_state \<Rightarrow> nat set" where
  "free_bytes st = (\<Union>order \<in> {..63}. \<Union>base \<in> set (free_lists st order). block_range base order)"

text \<open>
  The free lists are sound and none of their blocks meets the reserved addresses \<open>U\<close>.
\<close>

definition heap_ok :: "buddy_state \<Rightarrow> nat set \<Rightarrow> bool" where
  "heap_ok st U \<longleftrightarrow>
     (\<forall>order. distinct (free_lists st order)) \<and>
     (\<forall>order. \<forall>base \<in> set (free_lists st order). block_ok base order
        \<and> block_range base order \<inter> U = {}) \<and>
     (\<forall>order order' base base'. base \<in> set (free_lists st order) \<longrightarrow>
        base' \<in> set (free_lists st order') \<longrightarrow> (base, order) \<noteq> (base', order') \<longrightarrow>
        block_range base order \<inter> block_range base' order' = {})"

lemma heap_okD:
  assumes "heap_ok st U"
  shows "distinct (free_lists st order)"
    and "base \<in> set (free_lists st order) \<Longrightarrow> block_ok base order"
    and "base \<in> set (free_lists st order) \<Longrightarrow> block_range base order \<inter> U = {}"
    and "base \<in> set (free_lists st order) \<Longrightarrow> base' \<in> set (free_lists st order') \<Longrightarrow>
      (base, order) \<noteq> (base', order') \<Longrightarrow> block_range base order \<inter> block_range base' order' = {}"
  using assms unfolding heap_ok_def by blast+

lemma heap_ok_mono: "heap_ok st U \<Longrightarrow> V \<subseteq> U \<Longrightarrow> heap_ok st V"
  unfolding heap_ok_def by blast

lemma heap_ok_headers [simp]:
  "heap_ok (st\<lparr> headers := h \<rparr>) U = heap_ok st U" "free_bytes (st\<lparr> headers := h \<rparr>) = free_bytes st"
  by (simp_all add: heap_ok_def free_bytes_def)

lemma in_free_bytes:
  assumes "heap_ok st U" "base \<in> set (free_lists st order)"
  shows "block_range base order \<subseteq> free_bytes st"
proof -
  have "order \<le> 63" using heap_okD(2) [OF assms] by (simp add: block_ok_def)
  then show ?thesis using assms(2) unfolding free_bytes_def by blast
qed

lemma free_bytes_disjoint:
  assumes "heap_ok st U" shows "free_bytes st \<inter> U = {}"
  using heap_okD(3) [OF assms] unfolding free_bytes_def by blast

lemma heap_ok_extend:
  assumes ok: "heap_ok st U" and V: "V \<inter> free_bytes st = {}"
  shows "heap_ok st (U \<union> V)"
proof -
  have "block_range b k \<inter> V = {}" if "b \<in> set (free_lists st k)" for b k
    using in_free_bytes [OF ok that] V by blast
  then show ?thesis using ok by (simp add: heap_ok_def Int_Un_distrib)
qed

text \<open>Putting a reserved block on a free list, and taking a free block off its list.\<close>

lemma push_heap_ok:
  assumes ok: "heap_ok st (U \<union> block_range base order)" and b: "block_ok base order"
    and disj: "block_range base order \<inter> U = {}"
  shows "heap_ok (push_free_block base order st) U"
    and "free_bytes (push_free_block base order st) = free_bytes st \<union> block_range base order"
    and "headers (push_free_block base order st) = headers st"
proof -
  let ?L = "free_lists st" and ?L' = "free_lists (push_free_block base order st)"
  have L': "?L' k = (if k = order then base # ?L order else ?L k)" for k
    by (simp add: push_free_block_def)
  have other: "block_range b k \<inter> block_range base order = {}" "block_range b k \<inter> U = {}"
    "block_ok b k" if "b \<in> set (?L k)" for b k
    using heap_okD(2,3) [OF ok that] by auto
  have notin: "base \<notin> set (?L order)" using other(1) [of base order] by auto
  have mem: "b \<in> set (?L' k) \<longleftrightarrow> b \<in> set (?L k) \<or> (b = base \<and> k = order)" for b k
    by (auto simp: L')
  have "distinct (?L' k)" for k using heap_okD(1) [OF ok] notin by (simp add: L')
  moreover have "block_ok b k \<and> block_range b k \<inter> U = {}" if "b \<in> set (?L' k)" for b k
    using that other [of b k] b disj unfolding mem by blast
  moreover have "block_range b k \<inter> block_range b' k' = {}"
    if "b \<in> set (?L' k)" "b' \<in> set (?L' k')" "(b, k) \<noteq> (b', k')" for b b' k k'
    using that heap_okD(4) [OF ok, of b k b' k'] other(1) [of b k] other(1) [of b' k']
    unfolding mem by blast
  ultimately show "heap_ok (push_free_block base order st) U" unfolding heap_ok_def by blast
  have "order \<le> 63" using b by (simp add: block_ok_def)
  then show "free_bytes (push_free_block base order st) = free_bytes st \<union> block_range base order"
    unfolding free_bytes_def by (intro set_eqI) (simp add: mem Bex_def, blast)
  show "headers (push_free_block base order st) = headers st" by (simp add: push_free_block_def)
qed

lemma take_heap_ok:
  assumes ok: "heap_ok st U" and b: "base \<in> set (free_lists st order)"
    and st': "free_lists st' = (free_lists st)(order := ys)" "distinct ys"
      "set ys = set (free_lists st order) - {base}"
  shows "heap_ok st' (U \<union> block_range base order)"
    and "free_bytes st' \<union> block_range base order = free_bytes st"
    and "block_range base order \<inter> U = {}" and "block_ok base order"
proof -
  have mem: "b' \<in> set (free_lists st' k) \<longleftrightarrow> b' \<in> set (free_lists st k) \<and> (b', k) \<noteq> (base, order)" for b' k
    using st' by auto
  have "distinct (free_lists st' k)" for k using heap_okD(1) [OF ok] st' by simp
  moreover have "block_ok b' k \<and> block_range b' k \<inter> (U \<union> block_range base order) = {}"
    if "b' \<in> set (free_lists st' k)" for b' k
    using that heap_okD(2,3) [OF ok] heap_okD(4) [OF ok _ b] unfolding mem by blast
  moreover have "block_range b1 k1 \<inter> block_range b2 k2 = {}"
    if "b1 \<in> set (free_lists st' k1)" "b2 \<in> set (free_lists st' k2)" "(b1, k1) \<noteq> (b2, k2)" for b1 b2 k1 k2
    using that heap_okD(4) [OF ok] unfolding mem by blast
  ultimately show "heap_ok st' (U \<union> block_range base order)" unfolding heap_ok_def by blast
  show "block_range base order \<inter> U = {}" "block_ok base order" using heap_okD(2,3) [OF ok b] by auto
  then have "order \<le> 63" by (simp add: block_ok_def)
  then show "free_bytes st' \<union> block_range base order = free_bytes st"
    unfolding free_bytes_def using mem b by auto
qed

lemma remove_free_block_ok:
  assumes ok: "heap_ok st U" and b: "base \<in> set (free_lists st order)"
  defines "st' \<equiv> snd (remove_free_block order base st)"
  shows "fst (remove_free_block order base st)" "heap_ok st' (U \<union> block_range base order)"
    "free_bytes st' \<union> block_range base order = free_bytes st"
    "block_range base order \<inter> U = {}" "block_ok base order" "headers st' = headers st"
proof -
  have st': "free_lists st' = (free_lists st)(order := remove1 base (free_lists st order))"
    "headers st' = headers st"
    using b by (simp_all add: st'_def remove_free_block_def)
  show "fst (remove_free_block order base st)" using b by (simp add: remove_free_block_def)
  show "headers st' = headers st" by (rule st'(2))
  note t = take_heap_ok [OF ok b st'(1)]
  show "heap_ok st' (U \<union> block_range base order)"
    "free_bytes st' \<union> block_range base order = free_bytes st"
    "block_range base order \<inter> U = {}" "block_ok base order"
    using t heap_okD(1) [OF ok, of order] by (simp_all add: set_remove1_eq)
qed

section \<open>Splitting and merging\<close>

lemma unat_upper_half:
  assumes "block_ok base (Suc order)"
  shows "unat (base + block_size_for_order order) = unat base + 2 ^ order"
proof -
  have "unat base + 2 ^ Suc order \<le> 2 ^ 63" "order < 64" using assms by (auto simp: block_ok_def)
  then show ?thesis by (subst unat_add_no_wrap) (auto simp: unat_block_size)
qed

lemma split_halves:
  assumes "block_ok base (Suc order)" "12 \<le> order"
  defines "upper \<equiv> base + block_size_for_order order"
  shows "block_ok base order" "block_ok upper order"
    "block_range base (Suc order) = block_range base order \<union> block_range upper order"
    "block_range base order \<inter> block_range upper order = {}"
proof -
  note u = unat_upper_half [OF assms(1), folded upper_def]
  have d: "2 ^ order dvd unat base" using assms(1) by (auto simp: block_ok_def intro: dvd_trans [of _ "2 ^ Suc order"])
  show "block_ok base order" "block_ok upper order"
    using assms(1,2) d u by (auto simp: block_ok_def)
  show "block_range base (Suc order) = block_range base order \<union> block_range upper order"
    "block_range base order \<inter> block_range upper order = {}"
    unfolding block_range_def u by auto
qed

lemma split_block_ok:
  assumes "heap_ok st (U \<union> block_range base order)" "block_ok base order"
    "block_range base order \<inter> U = {}" "12 \<le> target" "target \<le> order"
  defines "st' \<equiv> split_block base order target st"
  shows "heap_ok st' (U \<union> block_range base target)"
    "free_bytes st' \<union> block_range base target = free_bytes st \<union> block_range base order"
    "block_ok base target" "block_range base target \<subseteq> block_range base order"
    "headers st' = headers st"
proof -
  have "heap_ok (split_block base order target st) (U \<union> block_range base target)
    \<and> free_bytes (split_block base order target st) \<union> block_range base target
      = free_bytes st \<union> block_range base order
    \<and> block_ok base target \<and> block_range base target \<subseteq> block_range base order
    \<and> headers (split_block base order target st) = headers st"
    using assms(1-5)
  proof (induction order arbitrary: st)
    case 0
    then show ?case by simp
  next
    case (Suc order)
    show ?case
    proof (cases "target < Suc order")
      case False
      then have "target = Suc order" using Suc.prems(5) by simp
      then show ?thesis using Suc.prems by simp
    next
      case True
      let ?upper = "base + block_size_for_order order"
      let ?st = "push_free_block ?upper order st"
      have o12: "12 \<le> order" using True Suc.prems(4) by simp
      note h = split_halves [OF Suc.prems(2) o12]
      have heap: "heap_ok st ((U \<union> block_range base order) \<union> block_range ?upper order)"
        using Suc.prems(1) unfolding h(3) by (simp add: Un_ac)
      have d: "block_range ?upper order \<inter> (U \<union> block_range base order) = {}"
        using h(3,4) Suc.prems(3) by blast
      note p = push_heap_ok [OF heap h(2) d]
      have IH: "heap_ok (split_block base order target ?st) (U \<union> block_range base target)
        \<and> free_bytes (split_block base order target ?st) \<union> block_range base target
          = free_bytes ?st \<union> block_range base order
        \<and> block_ok base target \<and> block_range base target \<subseteq> block_range base order
        \<and> headers (split_block base order target ?st) = headers ?st"
        by (rule Suc.IH [OF p(1) h(1) _ Suc.prems(4)]) (use h(3) Suc.prems(3) True in auto)
      then show ?thesis using True p(2,3) h(3) by auto
    qed
  qed
  then show "heap_ok st' (U \<union> block_range base target)"
    "free_bytes st' \<union> block_range base target = free_bytes st \<union> block_range base order"
    "block_ok base target" "block_range base target \<subseteq> block_range base order"
    "headers st' = headers st"
    unfolding st'_def by blast+
qed

text \<open>
  Merging keeps the reserved block's bytes and the free bytes together; it stops only when the
  buddy of the result is not free.
\<close>

lemma merge_loop_ok:
  assumes "merge_loop base order st = (base', order', st')"
    and "heap_ok st (U \<union> block_range base order)" "block_ok base order" "block_range base order \<inter> U = {}"
  shows "heap_ok st' (U \<union> block_range base' order') \<and> block_ok base' order'
    \<and> block_range base' order' \<inter> U = {} \<and> block_range base order \<subseteq> block_range base' order'
    \<and> free_bytes st' \<union> block_range base' order' = free_bytes st \<union> block_range base order
    \<and> headers st' = headers st
    \<and> (order' = 63 \<or> \<not> is_free_block order' (base' XOR block_size_for_order order') st')"
  using assms
proof (induction base order st arbitrary: base' order' st' rule: merge_loop.induct)
  case (1 base order st)
  let ?buddy = "base XOR block_size_for_order order"
  let ?low = "if ?buddy < base then ?buddy else base"
  note run = 1(2) and heap = 1(3) and ok = 1(4) and disj = 1(5)
  show ?case
  proof (cases "order < 63 \<and> ?buddy \<in> set (free_lists st order)")
    case False
    have "order \<le> 63" using ok by (simp add: block_ok_def)
    then have "(base', order', st') = (base, order, st)
        \<and> (order = 63 \<or> \<not> is_free_block order ?buddy st)"
      using run False
      by (subst (asm) merge_loop.simps)
        (auto simp: remove_free_block_def MAX_ORDER_def is_free_block_def split: if_splits)
    then show ?thesis using heap ok disj by auto
  next
    case True
    let ?st = "snd (remove_free_block order ?buddy st)"
    have buddy: "?buddy \<in> set (free_lists st order)" and o: "order < 63" using True by auto
    note r = remove_free_block_ok [OF heap buddy]
    note m = merge_blocks [OF ok o]
    have run': "merge_loop ?low (order + 1) ?st = (base', order', st')"
      using run r(1) o by (subst (asm) merge_loop.simps)
        (auto simp: Let_def MAX_ORDER_def split: prod.splits)
    have heap': "heap_ok ?st (U \<union> block_range ?low (order + 1))"
      using r(2) m(2) by (simp add: Un_ac)
    have disj': "block_range ?low (order + 1) \<inter> U = {}"
      using m(2) disj r(4) by auto
    have "heap_ok st' (U \<union> block_range base' order') \<and> block_ok base' order'
      \<and> block_range base' order' \<inter> U = {} \<and> block_range ?low (order + 1) \<subseteq> block_range base' order'
      \<and> free_bytes st' \<union> block_range base' order' = free_bytes ?st \<union> block_range ?low (order + 1)
      \<and> headers st' = headers ?st
      \<and> (order' = 63 \<or> \<not> is_free_block order' (base' XOR block_size_for_order order') st')"
      by (rule "1.IH" [OF _ refl refl prod.collapse _ run'])
        (use heap' m(1) disj' o r(1) in \<open>simp_all add: MAX_ORDER_def\<close>)
    then show ?thesis using m(2) r(3,6) by auto
  qed
qed

section \<open>The heap invariant\<close>

text \<open>
  \<open>L\<close> is the set of pointers that have been handed out and not freed. Each has a live header just
  below it that describes a block around it; the blocks of two pointers are disjoint, and no
  free block meets the block of a pointer.
\<close>

definition live_range :: "buddy_state \<Rightarrow> u64 \<Rightarrow> nat set" where
  "live_range st p = (let h = headers st (header_from_pointer p)
     in block_range (block_base h) (header_order h))"

definition live_ok :: "buddy_state \<Rightarrow> u64 \<Rightarrow> bool" where
  "live_ok st p \<longleftrightarrow> (let h = headers st (header_from_pointer p)
     in header_state h = LIVE \<and> block_ok (block_base h) (header_order h)
      \<and> unat (block_base h) + 32 \<le> unat p \<and> 0 < unat (requested_size h)
      \<and> unat p + unat (requested_size h) \<le> unat (block_base h) + 2 ^ header_order h
      \<and> (\<exists>k < 63. requested_alignment h = 2 ^ k \<and> 2 ^ k dvd unat p
            \<and> p = align_up (block_base h + HEADER_SIZE) (2 ^ k)))"

definition live_bytes :: "buddy_state \<Rightarrow> u64 set \<Rightarrow> nat set" where
  "live_bytes st L = (\<Union>p \<in> L. live_range st p)"

definition buddy_inv :: "buddy_state \<Rightarrow> u64 set \<Rightarrow> bool" where
  "buddy_inv st L \<longleftrightarrow> heap_ok st (live_bytes st L) \<and> (\<forall>p \<in> L. live_ok st p)
     \<and> (\<forall>p \<in> L. \<forall>q \<in> L. p \<noteq> q \<longrightarrow> live_range st p \<inter> live_range st q = {})"

text \<open>The bytes \<open>[p, p + requested size)\<close> that belong to the client.\<close>

definition user_range :: "buddy_state \<Rightarrow> u64 \<Rightarrow> nat set" where
  "user_range st p = {unat p ..< unat p + unat (requested_size (headers st (header_from_pointer p)))}"

lemma user_range_live: "live_ok st p \<Longrightarrow> user_range st p \<subseteq> live_range st p \<and> unat p \<in> live_range st p"
  by (auto simp: live_ok_def user_range_def live_range_def block_range_def Let_def)

lemma live_ok_pointer: "live_ok st p \<Longrightarrow> p \<noteq> 0"
  by (auto simp: live_ok_def Let_def)

lemma live_range_cong:
  "headers st' (header_from_pointer p) = headers st (header_from_pointer p) \<Longrightarrow>
   live_range st' p = live_range st p \<and> live_ok st' p = live_ok st p"
  by (simp add: live_range_def live_ok_def)

lemma header_from_pointer_inj [simp]: "header_from_pointer p = header_from_pointer q \<longleftrightarrow> p = q"
  by (simp add: header_from_pointer_def)

subsection \<open>Allocation\<close>

lemma find_order_result:
  "find_order order st \<le> MAX_ORDER \<Longrightarrow>
   order \<le> find_order order st \<and> free_lists st (find_order order st) \<noteq> []"
proof (induction order st rule: find_order.induct)
  case (1 order st)
  show ?case
  proof (cases "order \<le> MAX_ORDER \<and> free_lists st order = []")
    case True
    then have "find_order order st = find_order (order + 1) st" by (subst find_order.simps) simp
    then show ?thesis using 1 True by auto
  next
    case False
    then have "find_order order st = order" by (subst find_order.simps) auto
    then show ?thesis using False 1(2) by auto
  qed
qed

lemma find_order_finds:
  "order \<le> k \<Longrightarrow> k \<le> MAX_ORDER \<Longrightarrow> free_lists st k \<noteq> [] \<Longrightarrow> find_order order st \<le> k"
proof (induction order st rule: find_order.induct)
  case (1 order st)
  show ?case
  proof (cases "order \<le> MAX_ORDER \<and> free_lists st order = []")
    case True
    then have "find_order order st = find_order (order + 1) st" by (subst find_order.simps) simp
    moreover have "order \<noteq> k" using True 1(4) by auto
    ultimately show ?thesis using 1 True by simp
  next
    case False
    then have "find_order order st = order" by (subst find_order.simps) auto
    then show ?thesis using 1(2) by simp
  qed
qed

text \<open>Taking a block of the target order: the head of the first non-empty list, split down.\<close>

definition take_block :: "nat \<Rightarrow> buddy_state \<Rightarrow> u64 \<times> buddy_state" where
  "take_block target st =
     (let order = find_order target st; base = hd (free_lists st order);
          st = st\<lparr> free_lists := (free_lists st)(order := tl (free_lists st order)) \<rparr>
      in (base, split_block base order target st))"

lemma take_block_ok:
  assumes ok: "heap_ok st U" and target: "12 \<le> target" and found: "find_order target st \<le> MAX_ORDER"
    and run: "take_block target st = (base, st')"
  shows "heap_ok st' (U \<union> block_range base target)"
    "free_bytes st' \<union> block_range base target = free_bytes st"
    "block_ok base target" "block_range base target \<inter> U = {}" "headers st' = headers st"
proof -
  let ?o = "find_order target st"
  let ?b = "hd (free_lists st ?o)"
  let ?st = "st\<lparr> free_lists := (free_lists st)(?o := tl (free_lists st ?o)) \<rparr>"
  have le: "target \<le> ?o" and ne: "free_lists st ?o \<noteq> []"
    using find_order_result [OF found] by auto
  have b: "?b \<in> set (free_lists st ?o)" using ne by simp
  have d: "distinct (free_lists st ?o)" by (rule heap_okD(1) [OF ok])
  have tl: "set (tl (free_lists st ?o)) = set (free_lists st ?o) - {?b}"
    using ne d by (cases "free_lists st ?o") auto
  have "distinct (tl (free_lists st ?o))" using d by (rule distinct_tl)
  note t = take_heap_ok [OF ok b, where st' = ?st, OF _ this tl, simplified]
  have st': "base = ?b" "st' = split_block ?b ?o target ?st"
    using run by (auto simp: take_block_def Let_def)
  note s = split_block_ok [OF t(1,4,3) target le]
  show "heap_ok st' (U \<union> block_range base target)" "block_ok base target" "headers st' = headers st"
    using s(1,3,5) by (simp_all add: st')
  show "free_bytes st' \<union> block_range base target = free_bytes st"
    using s(2) t(2) by (simp add: st')
  show "block_range base target \<inter> U = {}" using s(4) t(3) by (auto simp: st')
qed

text \<open>\<open>buddy_allocate\<close> once its arguments are valid, in terms of \<open>take_block\<close>.\<close>

lemma buddy_allocate_unfold:
  assumes "0 < sz" "is_power_of_two alignment"
  shows "buddy_allocate sz alignment st =
    (let req_size = word_of_int sz; req_alignment = word_of_int alignment;
         required = req_size + req_alignment + HEADER_SIZE;
         target = order_for_block_size (next_block_size required)
     in if required < req_size then (result 0 INVALID_ARGUMENT, st)
        else if MAX_ORDER < find_order target st then (result 0 OUT_OF_MEMORY, st)
        else let (base, st') = take_block target st;
                 user_ptr = align_up (base + HEADER_SIZE) req_alignment
             in if user_ptr + req_size < user_ptr
                   \<or> base + block_size_for_order target < user_ptr + req_size
                then (result 0 OUT_OF_MEMORY, push_free_block base target st')
                else (result user_ptr Error_NONE, st'\<lparr> headers := (headers st')(header_from_pointer user_ptr :=
                   \<lparr> block_base = base, header_order = target, header_state = LIVE,
                     requested_size = req_size, requested_alignment = req_alignment \<rparr>) \<rparr>))"
proof -
  have c: "(sz < 0 \<or> \<not> is_power_of_two alignment) = False" "(sz = 0) = False" using assms by auto
  have np: "(next_block_size r < PAGE_USIZE) = False" for r using target_order_bounds(3) by simp
  show ?thesis
    unfolding buddy_allocate_def take_block_def Let_def c np if_False prod.case ..
qed

lemma user_pointer_bounds:
  assumes b: "block_ok base order" and k: "k < 63"
  defines "p \<equiv> align_up (base + HEADER_SIZE) (2 ^ k)"
  shows "unat base + 32 \<le> unat p" "2 ^ k dvd unat p"
proof -
  have "(2::nat) ^ 12 \<le> 2 ^ order" using b by (intro power_increasing) (auto simp: block_ok_def)
  then have base: "unat base + 2 ^ 12 \<le> 2 ^ 63" using b by (auto simp: block_ok_def)
  then have h: "unat (base + HEADER_SIZE) = unat base + 32"
    by (subst unat_add_no_wrap) (simp_all add: HEADER_SIZE_def)
  have "(2::nat) ^ k \<le> 2 ^ 62" using k by (intro power_increasing) auto
  then have fits: "unat (base + HEADER_SIZE) + 2 ^ k \<le> 2 ^ 64" using h base by simp
  have "k < 64" using k by simp
  note a = align_up_bounds [OF this fits]
  show "unat base + 32 \<le> unat p" "2 ^ k dvd unat p" using a h by (simp_all add: p_def)
qed

lemma word_no_wrap:
  fixes a b :: u64
  assumes "\<not> a + b < a" shows "unat (a + b) = unat a + unat b"
proof (rule ccontr)
  assume ne: "\<not> ?thesis"
  then have "2 ^ 64 \<le> unat a + unat b" using unat_add_no_wrap [of a b] by force
  have lt: "unat a < 2 ^ 64" "unat b < 2 ^ 64" using unsigned_less [of a] unsigned_less [of b] by simp_all
  have "unat (a + b) = (unat a + unat b) mod 2 ^ 64" by (simp add: unat_word_ariths)
  also have "\<dots> = (unat a + unat b - 2 ^ 64) mod 2 ^ 64"
    using \<open>2 ^ 64 \<le> unat a + unat b\<close> by (rule le_mod_geq)
  also have "\<dots> = unat a + unat b - 2 ^ 64"
    using lt by (intro mod_less) linarith
  finally have "unat (a + b) < unat a"
    using lt \<open>2 ^ 64 \<le> unat a + unat b\<close> by linarith
  with assms show False by (simp add: word_less_nat_alt)
qed

lemma live_bytes_cong:
  "(\<And>p. p \<in> L \<Longrightarrow> headers st' (header_from_pointer p) = headers st (header_from_pointer p)) \<Longrightarrow>
   live_bytes st' L = live_bytes st L"
  by (simp add: live_bytes_def live_range_def)

text \<open>A new header for a block that meets no other extends the invariant.\<close>

lemma buddy_inv_new_header:
  assumes inv: "\<forall>p \<in> L. live_ok st p" "\<forall>p \<in> L. \<forall>q \<in> L. p \<noteq> q \<longrightarrow> live_range st p \<inter> live_range st q = {}"
    and heap: "heap_ok st (live_bytes st L \<union> block_range base order)"
    and disj: "block_range base order \<inter> live_bytes st L = {}"
    and st': "st' = st\<lparr> headers := (headers st)(header_from_pointer p := h) \<rparr>"
    and h: "block_base h = base" "header_order h = order" and ok: "live_ok st' p"
  shows "buddy_inv st' (insert p L)" "p \<notin> L" "live_range st' p = block_range base order"
    "live_bytes st' (insert p L) = live_bytes st L \<union> block_range base order"
proof -
  show r: "live_range st' p = block_range base order"
    using h by (simp add: live_range_def Let_def st')
  have "unat p \<in> block_range base order" using user_range_live [OF ok] r by simp
  then show new: "p \<notin> L"
    using disj user_range_live inv(1) unfolding live_bytes_def by blast
  have same: "live_range st' q = live_range st q \<and> live_ok st' q = live_ok st q" if "q \<in> L" for q
    using that new by (intro live_range_cong) (auto simp: st')
  then have old: "live_bytes st' L = live_bytes st L" by (simp add: live_bytes_def)
  then show bytes: "live_bytes st' (insert p L) = live_bytes st L \<union> block_range base order"
    using r by (auto simp: live_bytes_def)
  have "live_range st' p \<inter> live_range st' q = {}" if "q \<in> L" for q
    using disj that same r unfolding live_bytes_def by auto
  then show "buddy_inv st' (insert p L)"
    unfolding buddy_inv_def bytes using heap inv same ok
    by (auto simp: st' Int_commute)
qed

lemma buddy_allocate_ok:
  assumes inv: "buddy_inv st L" and run: "buddy_allocate sz alignment st = (r, st')"
    and range: "sz < 2 ^ 63" "alignment < 2 ^ 63"
  shows "(res_memory r = 0 \<and> buddy_inv st' L \<and> headers st' = headers st \<and> free_bytes st' = free_bytes st)
    \<or> (res_memory r \<noteq> 0 \<and> res_error r = Error_NONE \<and> res_memory r \<notin> L
       \<and> buddy_inv st' (insert (res_memory r) L)
       \<and> (\<forall>p \<in> L. headers st' (header_from_pointer p) = headers st (header_from_pointer p))
       \<and> int (unat (requested_size (headers st' (header_from_pointer (res_memory r))))) = sz
       \<and> alignment dvd int (unat (res_memory r))
       \<and> free_bytes st' \<union> live_range st' (res_memory r) = free_bytes st)"
proof (cases "0 < sz \<and> is_power_of_two alignment")
  case False
  then show ?thesis using run inv by (auto simp: buddy_allocate_def result_def split: if_splits)
next
  case True
  then obtain k where k: "alignment = 2 ^ k" by (auto simp: is_power_of_two_iff)
  have k63: "k < 63" using range(2) k power_less_imp_less_exp [of "2::int" k 63] by simp
  let ?size = "word_of_int sz :: u64" and ?al = "word_of_int alignment :: u64"
  have size: "unat ?size = nat sz" using True range(1) by (simp add: unat_eq_nat_uint uint_word_of_int_eq take_bit_int_eq_self)
  have al: "?al = 2 ^ k" using k by (simp add: word_of_int_2p)
  let ?req = "?size + ?al + HEADER_SIZE"
  let ?target = "order_for_block_size (next_block_size ?req)"
  note tb = target_order_bounds(1,2) [of ?req]
  have heap: "heap_ok st (live_bytes st L)" using inv by (simp add: buddy_inv_def)
  have fail: ?thesis if "r = result 0 e" "st' = st" for e using that inv by simp
  show ?thesis
  proof (cases "?req < ?size \<or> MAX_ORDER < find_order ?target st")
    case True
    then show ?thesis
      using run \<open>0 < sz \<and> _\<close> fail by (auto simp: buddy_allocate_unfold Let_def split: if_splits)
  next
    case ok: False
    obtain base st1 where take: "take_block ?target st = (base, st1)" by (rule prod.exhaust)
    have found: "find_order ?target st \<le> MAX_ORDER" using ok by simp
    note t = take_block_ok [OF heap tb(1) found take]
    let ?p = "align_up (base + HEADER_SIZE) ?al"
    let ?h = "\<lparr> block_base = base, header_order = ?target, header_state = LIVE,
                requested_size = ?size, requested_alignment = ?al \<rparr>"
    let ?new = "st1\<lparr> headers := (headers st1)(header_from_pointer ?p := ?h) \<rparr>"
    let ?bad = "?p + ?size < ?p \<or> base + block_size_for_order ?target < ?p + ?size"
    have res: "(r, st') = (if ?bad then (result 0 OUT_OF_MEMORY, push_free_block base ?target st1)
        else (result ?p Error_NONE, ?new))"
      using run ok True take by (simp add: buddy_allocate_unfold Let_def)
    have live1: "live_bytes st1 L = live_bytes st L" using t(5) by (intro live_bytes_cong) simp
    show ?thesis
    proof (cases ?bad)
      case bad: True
      note p = push_heap_ok [OF t(1,3,4)]
      have rst: "r = result 0 OUT_OF_MEMORY" "st' = push_free_block base ?target st1"
        using res bad by auto
      have hd: "headers st' = headers st" using p(3) t(5) rst by simp
      have "live_bytes st' L = live_bytes st L" using hd by (intro live_bytes_cong) simp
      moreover have "live_range st' q = live_range st q \<and> live_ok st' q = live_ok st q" for q
        using hd by (intro live_range_cong) simp
      ultimately have "buddy_inv st' L" using p(1) inv rst unfolding buddy_inv_def by simp
      then show ?thesis using rst p(2) t(2) hd by simp
    next
      case good: False
      then have rst: "r = result ?p Error_NONE" "st' = ?new" using res by auto
      note ub = user_pointer_bounds [OF t(3) k63, folded al]
      have np: "unat (?p + ?size) = unat ?p + unat ?size" using good by (intro word_no_wrap) auto
      have "unat (base + block_size_for_order ?target) = unat base + 2 ^ ?target"
        using t(3) by (subst unat_add_no_wrap) (auto simp: block_ok_def unat_block_size)
      then have top: "unat ?p + unat ?size \<le> unat base + 2 ^ ?target"
        using good np by (simp add: word_less_nat_alt)
      have ok': "live_ok st' ?p"
        unfolding live_ok_def rst using t(3) ub top size True k63
        by (auto simp: Let_def al intro!: exI [of _ k])
      have liv: "\<forall>p \<in> L. live_ok st1 p"
        "\<forall>p \<in> L. \<forall>q \<in> L. p \<noteq> q \<longrightarrow> live_range st1 p \<inter> live_range st1 q = {}"
        using inv t(5) live_range_cong [of st1 _ st] by (simp_all add: buddy_inv_def)
      note n = buddy_inv_new_header [OF liv _ _ rst(2) _ _ ok', where base = base and order = ?target,
          unfolded live1, OF t(1,4)]
      have "res_memory r \<noteq> 0" using live_ok_pointer [OF ok'] rst by simp
      moreover have "headers st' (header_from_pointer q) = headers st (header_from_pointer q)" if "q \<in> L" for q
        using that n(2) rst t(5) by auto
      moreover have "int (unat (requested_size (headers st' (header_from_pointer ?p)))) = sz"
        using size True by (simp add: rst)
      moreover have "alignment dvd int (unat ?p)"
        using ub(2) k by (metis al int_dvd_int_iff of_nat_numeral of_nat_power)
      moreover have "free_bytes st' \<union> live_range st' ?p = free_bytes st"
        using n(3) t(2) rst by simp
      ultimately show ?thesis using n(1,2) rst by simp
    qed
  qed
qed

text \<open>With a free block of the target order or above, the allocation succeeds and takes a block of that order.\<close>

lemma buddy_allocate_succeeds:
  assumes inv: "buddy_inv st L" and size: "0 < sz" "alignment = 2 ^ k" "sz + alignment + 32 \<le> 2 ^ target"
    and target: "order_for_block_size (next_block_size (word_of_int sz + word_of_int alignment + HEADER_SIZE)) = target"
    and free: "target \<le> order" "order \<le> 63" "free_lists st order \<noteq> []"
  shows "\<exists>p st'. buddy_allocate sz alignment st = (result p Error_NONE, st') \<and> p \<noteq> 0
    \<and> card (live_range st' p) = 2 ^ target"
proof -
  have t: "12 \<le> target" "target \<le> 31" using target_order_bounds(1,2) target by auto
  have pow: "(2::int) ^ target \<le> 2 ^ 31" using t(2) by (intro power_increasing) simp_all
  have al_pos: "1 \<le> alignment" using size(2) by simp
  have small: "sz < 2 ^ 31" "alignment < 2 ^ 31" using size(1,3) pow al_pos by linarith+
  then have k: "k < 31" using size(2) power_less_imp_less_exp [of "2::int" k 31] by simp
  let ?size = "word_of_int sz :: u64" and ?al = "word_of_int alignment :: u64"
  have uint: "uint ?size = sz" "uint ?al = alignment"
    using small size(1) al_pos by (simp_all add: uint_word_of_int_eq take_bit_int_eq_self)
  then have u: "unat ?size = nat sz" "unat ?al = nat alignment" by (simp_all add: unat_eq_nat_uint)
  have al: "?al = 2 ^ k" using size(2) by (simp add: word_of_int_2p)
  have nats: "nat sz + nat alignment + 32 \<le> 2 ^ target" "nat sz < 2 ^ 31" "nat alignment < 2 ^ 31"
  proof -
    have "int (nat sz + nat alignment + 32) \<le> int (2 ^ target)" using size(1,3) al_pos by simp
    then show "nat sz + nat alignment + 32 \<le> 2 ^ target" by linarith
    show "nat sz < 2 ^ 31" "nat alignment < 2 ^ 31" using small by (simp_all add: nat_less_iff)
  qed
  have req: "\<not> ?size + ?al + HEADER_SIZE < ?size"
  proof -
    have "unat (?size + ?al) = nat sz + nat alignment" using u nats by (subst unat_add_no_wrap) simp_all
    then have "unat (?size + ?al + HEADER_SIZE) = nat sz + nat alignment + 32"
      using nats by (subst unat_add_no_wrap) (simp_all add: HEADER_SIZE_def)
    then show ?thesis using u by (simp add: word_less_nat_alt)
  qed
  have heap: "heap_ok st (live_bytes st L)" using inv by (simp add: buddy_inv_def)
  have found: "find_order target st \<le> MAX_ORDER"
    using find_order_finds [OF free(1) _ free(3)] free(2) by (simp add: MAX_ORDER_def)
  obtain base st1 where take: "take_block target st = (base, st1)" by (rule prod.exhaust)
  have ok: "block_ok base target" by (rule take_block_ok(3) [OF heap t(1) found take])
  let ?p = "align_up (base + HEADER_SIZE) ?al"
  have base: "unat base + 2 ^ target \<le> 2 ^ 63" using ok by (simp add: block_ok_def)
  then have h: "unat (base + HEADER_SIZE) = unat base + 32"
    using nats by (subst unat_add_no_wrap) (simp_all add: HEADER_SIZE_def)
  have nk: "nat alignment = 2 ^ k" using size(2) by (simp add: nat_power_eq)
  have "unat (base + HEADER_SIZE) + 2 ^ k \<le> 2 ^ 64" using h base nats unfolding nk by simp
  from align_up_bounds [OF _ this] k al size(2) have up: "unat ?p < unat base + 32 + nat alignment" "unat base + 32 \<le> unat ?p"
    using h unfolding nk by simp_all
  have sum: "unat (?p + ?size) = unat ?p + nat sz" using up u base nats by (subst unat_add_no_wrap) simp_all
  have "unat (base + block_size_for_order target) = unat base + 2 ^ target"
    using base t(2) unat_block_size [of target] by (subst unat_add_no_wrap) simp_all
  then have good: "\<not> (?p + ?size < ?p \<or> base + block_size_for_order target < ?p + ?size)"
    using sum up nats by (simp add: word_less_nat_alt)
  have p2: "is_power_of_two alignment" using size(2) by (auto simp: is_power_of_two_iff)
  let ?st' = "st1\<lparr> headers := (headers st1)(header_from_pointer ?p :=
     \<lparr> block_base = base, header_order = target, header_state = LIVE, requested_size = ?size, requested_alignment = ?al \<rparr>) \<rparr>"
  have "buddy_allocate sz alignment st = (result ?p Error_NONE, ?st')"
    using req found good take unfolding buddy_allocate_unfold [OF size(1) p2] Let_def target by simp
  moreover have "?p \<noteq> 0" using up(2) by auto
  moreover have "card (live_range ?st' ?p) = 2 ^ target" by (simp add: live_range_def block_range_def)
  ultimately show ?thesis by blast
qed

lemma finite_free_bytes [simp]: "finite (free_bytes st)"
  by (simp add: free_bytes_def block_range_def)

text \<open>Whole pages of free memory. A request that fits a page with its header takes one.\<close>

definition spare_pages :: "buddy_state \<Rightarrow> nat" where
  "spare_pages st = card (free_bytes st) div 4096"

lemma page_request:
  assumes "0 < sz" "0 < alignment" "sz + alignment \<le> 4064"
  shows "order_for_block_size (next_block_size (word_of_int sz + word_of_int alignment + HEADER_SIZE)) = 12"
proof -
  let ?r = "word_of_int sz + word_of_int alignment + HEADER_SIZE :: u64"
  have "?r = word_of_int (sz + alignment + 32)" by (simp add: HEADER_SIZE_def)
  then have "uint ?r = sz + alignment + 32" using assms by (simp add: uint_word_of_int_eq take_bit_int_eq_self del: of_int_add)
  then have "\<not> PAGE_USIZE < ?r" using assms(3) by (simp add: word_less_def PAGE_USIZE_def)
  then have "next_block_size ?r = 2 ^ 12"
    unfolding next_block_size_def by (subst next_block_loop.simps) (simp add: PAGE_USIZE_def)
  then show ?thesis using order_for_pow2 [of 12] by simp
qed

lemma buddy_page_alloc:
  assumes inv: "buddy_inv st L" and size: "0 < sz" "is_power_of_two alignment" "sz + alignment \<le> 4064" and spare: "0 < spare_pages st"
  shows "\<exists>r st'. alloc buddy_proc sz alignment st = Inr (r, st') \<and> res_memory r \<noteq> 0 \<and> spare_pages st \<le> spare_pages st' + 1"
proof -
  obtain k where k: "alignment = 2 ^ k" using size(2) by (auto simp: is_power_of_two_iff)
  then have pos: "0 < alignment" by simp
  have "free_bytes st \<noteq> {}" using spare by (auto simp: spare_pages_def)
  then obtain order where "order \<le> 63" "set (free_lists st order) \<noteq> {}" by (auto simp: free_bytes_def)
  then obtain base where o: "order \<le> 63" "base \<in> set (free_lists st order)" by (meson ex_in_conv)
  then have "12 \<le> order" "free_lists st order \<noteq> []"
    using inv heap_okD(2) [of st "live_bytes st L"] by (auto simp: buddy_inv_def block_ok_def)
  moreover have "sz + alignment + 32 \<le> 2 ^ 12" using size(3) by simp
  ultimately obtain p st' where run: "buddy_allocate sz alignment st = (result p Error_NONE, st')" "p \<noteq> 0"
      "card (live_range st' p) = 2 ^ 12"
    using buddy_allocate_succeeds [OF inv size(1) k _ page_request [OF size(1) pos size(3)]] o(1) by blast
  have "sz < 2 ^ 63" "alignment < 2 ^ 63" using size(1,3) pos by simp_all
  from buddy_allocate_ok [OF inv run(1) this] run(2) have
    free: "free_bytes st' \<union> live_range st' p = free_bytes st" by (simp add: result_def)
  then have "card (free_bytes st) \<le> card (free_bytes st') + 4096"
    using card_Un_le [of "free_bytes st'" "live_range st' p"] run(3) by simp
  then have "spare_pages st \<le> spare_pages st' + 1" unfolding spare_pages_def by linarith
  then show ?thesis using run(1,2) size by (auto simp: alloc_def call_allocator_def buddy_proc_def result_def)
qed

subsection \<open>Freeing\<close>

lemma live_bytes_remove:
  assumes "buddy_inv st L" "p \<in> L"
  shows "live_bytes st L = live_bytes st (L - {p}) \<union> live_range st p"
    "live_range st p \<inter> live_bytes st (L - {p}) = {}"
proof -
  show "live_bytes st L = live_bytes st (L - {p}) \<union> live_range st p"
    using assms(2) by (auto simp: live_bytes_def)
  have "live_range st p \<inter> live_range st q = {}" if "q \<in> L - {p}" for q
    using assms that unfolding buddy_inv_def by blast
  then show "live_range st p \<inter> live_bytes st (L - {p}) = {}" by (auto simp: live_bytes_def)
qed

lemma buddy_free_ok:
  assumes inv: "buddy_inv st L" and p: "p \<in> L"
  shows "\<exists>st'. buddy_free p st = Inr (result 0 Error_NONE, st') \<and> buddy_inv st' (L - {p})
    \<and> free_bytes st' = free_bytes st \<union> live_range st p
    \<and> headers st' = (headers st)(header_from_pointer p :=
        (headers st (header_from_pointer p))\<lparr> header_state := FREED \<rparr>)"
proof -
  let ?a = "header_from_pointer p" and ?U = "live_bytes st (L - {p})"
  let ?h = "headers st ?a"
  let ?st = "st\<lparr> headers := (headers st)(?a := ?h\<lparr> header_state := FREED \<rparr>) \<rparr>"
  have ok: "live_ok st p" using inv p by (simp add: buddy_inv_def)
  have h: "header_state ?h = LIVE" "block_ok (block_base ?h) (header_order ?h)"
    using ok by (simp_all add: live_ok_def Let_def)
  have range: "live_range st p = block_range (block_base ?h) (header_order ?h)"
    by (simp add: live_range_def Let_def)
  note lb = live_bytes_remove [OF inv p, unfolded range]
  have heap: "heap_ok ?st (?U \<union> block_range (block_base ?h) (header_order ?h))"
    using inv lb(1) by (simp add: buddy_inv_def)
  obtain base order st1 where m: "merge_loop (block_base ?h) (header_order ?h) ?st = (base, order, st1)"
    by (metis prod_cases3)
  note mo = merge_loop_ok [OF m heap h(2) lb(2)]
  let ?st' = "push_free_block base order st1"
  have push: "heap_ok ?st' ?U" "free_bytes ?st' = free_bytes st1 \<union> block_range base order"
      "headers ?st' = headers st1"
    using push_heap_ok [of st1 ?U base order] mo by blast+
  have hd: "headers ?st' = (headers st)(?a := ?h\<lparr> header_state := FREED \<rparr>)" using push(3) mo by simp
  have run: "buddy_free p st = Inr (result 0 Error_NONE, ?st')"
    using live_ok_pointer [OF ok] h(1) m by (simp add: buddy_free_def Let_def)
  have same: "live_range ?st' q = live_range st q \<and> live_ok ?st' q = live_ok st q" if "q \<in> L - {p}" for q
    using that hd by (intro live_range_cong) auto
  then have "live_bytes ?st' (L - {p}) = ?U" by (simp add: live_bytes_def)
  then have "buddy_inv ?st' (L - {p})"
    using push(1) same inv unfolding buddy_inv_def by auto
  moreover have "free_bytes ?st' = free_bytes st \<union> live_range st p"
    using push(2) mo range by auto
  ultimately show ?thesis using run hd by blast
qed

subsection \<open>Regions\<close>

lemma shrink_result:
  assumes "12 \<le> t" "t < 64"
  shows "\<exists>j. 12 \<le> j \<and> j \<le> t \<and> shrink_to_alignment current (2 ^ t) = 2 ^ j
    \<and> (j = 12 \<or> 2 ^ j dvd unat current) \<and> (\<forall>k \<le> t. 2 ^ k dvd unat current \<longrightarrow> k \<le> j)"
  using assms
proof (induction t)
  case (Suc t)
  have p: "unat ((2::u64) ^ Suc t) = 2 ^ Suc t"
    using Suc.prems unat_pow2 [of "Suc t", where 'a = 64] by (simp del: power_Suc)
  have mask: "current AND ((2::u64) ^ Suc t - 1) = take_bit (Suc t) current"
    by (simp only: take_bit_eq_mask mask_eq_exp_minus_1)
  have dvd: "current AND ((2::u64) ^ Suc t - 1) = 0 \<longleftrightarrow> 2 ^ Suc t dvd unat current"
  proof -
    have "take_bit (Suc t) current = 0 \<longleftrightarrow> unat (take_bit (Suc t) current) = 0"
      by (rule unsigned_eq_0_iff [symmetric])
    then show ?thesis unfolding mask unat_take_bit dvd_eq_mod_eq_0 .
  qed
  have lt: "PAGE_USIZE < (2::u64) ^ Suc t \<longleftrightarrow> 12 < Suc t"
  proof -
    have "PAGE_USIZE < (2::u64) ^ Suc t \<longleftrightarrow> (2::nat) ^ 12 < 2 ^ Suc t"
      unfolding word_less_nat_alt p PAGE_USIZE_def by simp
    also have "\<dots> \<longleftrightarrow> 12 < Suc t" by (rule power_strict_increasing_iff) simp
    finally show ?thesis .
  qed
  show ?case
  proof (cases "12 < Suc t \<and> \<not> 2 ^ Suc t dvd unat current")
    case True
    have half: "drop_bit 1 ((2::u64) ^ Suc t) = 2 ^ t"
    proof -
      have "t < 64" using Suc.prems by simp
      then have "unat (drop_bit 1 ((2::u64) ^ Suc t)) = unat ((2::u64) ^ t)"
        unfolding unat_drop_bit p using unat_pow2 [of t, where 'a = 64] by simp
      then show ?thesis by (rule unsigned_word_eqI)
    qed
    have "shrink_to_alignment current (2 ^ Suc t) = shrink_to_alignment current (2 ^ t)"
      using True dvd lt half by (subst shrink_to_alignment.simps) (simp only: simp_thms if_True)
    moreover obtain j where "12 \<le> j" "j \<le> t" "shrink_to_alignment current (2 ^ t) = 2 ^ j"
        "j = 12 \<or> 2 ^ j dvd unat current" "\<forall>k \<le> t. 2 ^ k dvd unat current \<longrightarrow> k \<le> j"
      using Suc.IH True Suc.prems by auto
    moreover have "k \<le> t" if "k \<le> Suc t" "2 ^ k dvd unat current" for k
      using that True by (cases "k = Suc t") auto
    ultimately show ?thesis by (intro exI [of _ j]) simp
  next
    case False
    then have "shrink_to_alignment current (2 ^ Suc t) = 2 ^ Suc t"
      using dvd lt by (subst shrink_to_alignment.simps) (simp only: simp_thms if_False)
    then show ?thesis using False Suc.prems by (intro exI [of _ "Suc t"]) auto
  qed
qed simp

lemma region_block_result:
  assumes lt: "unat current < unat region_end" and al: "2 ^ 12 dvd unat current" "2 ^ 12 dvd unat region_end"
    and top: "unat region_end \<le> 2 ^ 63"
  obtains j where "12 \<le> j" "j \<le> 63" "region_block_size current region_end = 2 ^ j"
    "2 ^ j dvd unat current" "unat current + 2 ^ j \<le> unat region_end"
    "\<forall>k. 2 ^ k dvd unat current \<longrightarrow> unat current + 2 ^ k \<le> unat region_end \<longrightarrow> k \<le> j"
proof -
  have d: "unat (region_end - current) = unat region_end - unat current"
    using lt by (simp add: unat_sub word_le_nat_alt)
  have "2 ^ 12 dvd unat region_end - unat current" using al by simp
  then have big: "2 ^ 12 \<le> unat region_end - unat current" using lt by (intro dvd_imp_le) simp_all
  then have "region_end - current \<noteq> 0" using d by auto
  then obtain t where t: "t < 64" "floor_pow2 (region_end - current) = 2 ^ t"
      "2 ^ t \<le> unat (region_end - current)" "unat (region_end - current) < 2 ^ Suc t"
    by (rule floor_pow2_spec)
  have "(2::nat) ^ 12 < 2 ^ Suc t" using big d t(4) by linarith
  then have t12: "12 \<le> t" using power_less_imp_less_exp [of "2::nat" 12 "Suc t"] by simp
  have "(2::nat) ^ t \<le> 2 ^ 63" using t(3) d top by linarith
  then have t63: "t \<le> 63" using power_le_imp_le_exp [of "2::nat" t 63] by simp
  obtain j where j: "12 \<le> j" "j \<le> t" "shrink_to_alignment current (2 ^ t) = 2 ^ j"
      "j = 12 \<or> 2 ^ j dvd unat current" "\<forall>k \<le> t. 2 ^ k dvd unat current \<longrightarrow> k \<le> j"
    using shrink_result [OF t12 t(1), of current] by blast
  have "k \<le> t" if "unat current + 2 ^ k \<le> unat region_end" for k
  proof -
    have "(2::nat) ^ k < 2 ^ Suc t" using that d t(4) by linarith
    then show ?thesis using power_less_imp_less_exp [of "2::nat" k "Suc t"] by simp
  qed
  then have largest: "k \<le> j" if "2 ^ k dvd unat current" "unat current + 2 ^ k \<le> unat region_end" for k
    using that j(5) by blast
  have "unat ((2::u64) ^ j) = 2 ^ j" using j(2) t63 by (simp add: unat_pow2)
  moreover have "(2::nat) ^ 12 \<le> 2 ^ j" using j(1) by (intro power_increasing) simp_all
  ultimately have "\<not> (2::u64) ^ j < PAGE_USIZE" by (simp add: word_less_nat_alt PAGE_USIZE_def)
  then have "region_block_size current region_end = 2 ^ j"
    using j(3) t(2) by (simp add: region_block_size_def)
  moreover have "2 ^ j dvd unat current" using j(4) al(1) by auto
  moreover have "unat current + 2 ^ j \<le> unat region_end"
  proof -
    have "(2::nat) ^ j \<le> 2 ^ t" using j(2) by (intro power_increasing) simp_all
    then show ?thesis using t(3) d lt by linarith
  qed
  ultimately show ?thesis using that j t63 largest by auto
qed

text \<open>The loop only adds blocks, and one at least as big as any aligned block within its bounds.\<close>

lemma region_loop_large:
  assumes "region_loop current region_end st = Some st'" "unat current \<le> unat region_end"
    "2 ^ 12 dvd unat current" "2 ^ 12 dvd unat region_end" "unat region_end \<le> 2 ^ 63"
  shows "(\<forall>order. free_lists st order \<noteq> [] \<longrightarrow> free_lists st' order \<noteq> [])
    \<and> (\<forall>x k. unat current \<le> x \<longrightarrow> 2 ^ k dvd x \<longrightarrow> x + 2 ^ k \<le> unat region_end \<longrightarrow> k \<le> 31 \<longrightarrow>
         (\<exists>order. k \<le> order \<and> order \<le> 31 \<and> free_lists st' order \<noteq> []))"
  using assms
proof (induction "unat region_end - unat current" arbitrary: current st rule: less_induct)
  case less
  show ?case
  proof (cases "unat current < unat region_end")
    case False
    then have eq: "unat current = unat region_end" using less.prems(2) by simp
    then have "st' = st" using less.prems(1) by (subst (asm) region_loop.simps) (simp add: word_less_nat_alt)
    moreover have "\<not> x + 2 ^ k \<le> unat region_end" if "unat region_end \<le> x" for x k
    proof -
      have "0 < (2 :: nat) ^ k" by simp
      then show ?thesis using that by linarith
    qed
    ultimately show ?thesis using eq by auto
  next
    case True
    obtain j where j: "12 \<le> j" "j \<le> 63" "region_block_size current region_end = 2 ^ j"
        "2 ^ j dvd unat current" "unat current + 2 ^ j \<le> unat region_end"
        "\<forall>k. 2 ^ k dvd unat current \<longrightarrow> unat current + 2 ^ k \<le> unat region_end \<longrightarrow> k \<le> j"
      using region_block_result [OF True less.prems(3-5)] .
    let ?o = "min 31 j" and ?next = "current + 2 ^ j"
    let ?st = "push_free_block current ?o st"
    have p: "unat ((2::u64) ^ j) = 2 ^ j" using j(2) by (simp add: unat_pow2)
    have next': "unat ?next = unat current + 2 ^ j"
      using j(5) p less.prems(5) by (subst unat_add_no_wrap) simp_all
    have "order_for_block_size (2 ^ j) = ?o" using j(1,2) by (simp add: order_for_pow2)
    then have step: "region_loop ?next region_end ?st = Some st'"
      using less.prems(1) True j(3) by (subst (asm) region_loop.simps) (simp add: word_less_nat_alt Let_def)
    have "0 < (2::nat) ^ j" by simp
    then have smaller: "unat region_end - unat ?next < unat region_end - unat current"
      using True next' j(5) by linarith
    have "2 ^ 12 dvd unat ?next"
      using next' less.prems(3) le_imp_power_dvd [OF j(1), of "2::nat"] by simp
    with less.hyps [OF smaller step] next' j(5) less.prems(4,5) have
      keeps: "\<And>order. free_lists ?st order \<noteq> [] \<Longrightarrow> free_lists st' order \<noteq> []" and
      later: "\<And>x k. unat ?next \<le> x \<Longrightarrow> 2 ^ k dvd x \<Longrightarrow> x + 2 ^ k \<le> unat region_end \<Longrightarrow> k \<le> 31 \<Longrightarrow>
         (\<exists>order. k \<le> order \<and> order \<le> 31 \<and> free_lists st' order \<noteq> [])" by simp_all
    have own: "free_lists st' ?o \<noteq> []" by (rule keeps) (simp add: push_free_block_def)
    have "\<exists>order. k \<le> order \<and> order \<le> 31 \<and> free_lists st' order \<noteq> []"
      if x: "unat current \<le> x" "2 ^ k dvd x" "x + 2 ^ k \<le> unat region_end" "k \<le> 31" for x k
    proof (cases "unat ?next \<le> x")
      case False
      have "k \<le> j"
      proof (cases "x = unat current")
        case False
        have "\<not> j < k"
        proof
          assume "j < k"
          then have "2 ^ j dvd x" using x(2) le_imp_power_dvd [of j k "2::nat"] dvd_trans by simp
          then have "2 ^ j dvd x - unat current" using j(4) by simp
          moreover have "0 < x - unat current" "x - unat current < 2 ^ j"
            using x(1) False \<open>\<not> unat ?next \<le> x\<close> next' by simp_all
          ultimately show False by (meson nat_dvd_not_less)
        qed
        then show ?thesis by simp
      qed (use x j(6) in simp)
      then show ?thesis using own x(4) by (intro exI [of _ ?o]) simp
    qed (use x later in blast)
    moreover have "free_lists st' order \<noteq> []" if "free_lists st order \<noteq> []" for order
      using that by (intro keeps) (simp add: push_free_block_def)
    ultimately show ?thesis by blast
  qed
qed

lemma region_loop_ok:
  assumes "heap_ok st (U \<union> {unat current ..< unat region_end})" "{unat current ..< unat region_end} \<inter> U = {}"
    "unat current \<le> unat region_end" "2 ^ 12 dvd unat current" "2 ^ 12 dvd unat region_end"
    "unat region_end \<le> 2 ^ 63"
  shows "\<exists>st'. region_loop current region_end st = Some st' \<and> heap_ok st' U \<and> headers st' = headers st
    \<and> free_bytes st \<subseteq> free_bytes st'
    \<and> free_bytes st' \<subseteq> free_bytes st \<union> {unat current ..< unat region_end}
    \<and> (unat region_end - unat current < 2 ^ 32 \<longrightarrow>
         free_bytes st' = free_bytes st \<union> {unat current ..< unat region_end})"
  using assms
proof (induction "unat region_end - unat current" arbitrary: current st rule: less_induct)
  case less
  show ?case
  proof (cases "unat current < unat region_end")
    case False
    then have eq: "unat current = unat region_end" using less.prems(3) by simp
    then have "region_loop current region_end st = Some st"
      by (subst region_loop.simps) (simp add: word_less_nat_alt)
    then show ?thesis using less.prems(1) eq by simp
  next
    case True
    obtain j where j: "12 \<le> j" "j \<le> 63" "region_block_size current region_end = 2 ^ j"
        "2 ^ j dvd unat current" "unat current + 2 ^ j \<le> unat region_end"
      using region_block_result [OF True less.prems(4-6)] .
    let ?o = "min 31 j" and ?next = "current + 2 ^ j"
    let ?st = "push_free_block current ?o st"
    have p: "unat ((2::u64) ^ j) = 2 ^ j" using j(2) by (simp add: unat_pow2)
    have next': "unat ?next = unat current + 2 ^ j"
      using j(5) p less.prems(6) by (subst unat_add_no_wrap) simp_all
    have le: "(2::nat) ^ ?o \<le> 2 ^ j" by (intro power_increasing) simp_all
    have "order_for_block_size (2 ^ j) = ?o" using j(1,2) by (simp add: order_for_pow2)
    then have step: "region_loop current region_end st = region_loop ?next region_end ?st"
      using True j(3) by (subst region_loop.simps) (simp add: word_less_nat_alt Let_def)
    have bok: "block_ok current ?o"
    proof -
      have "2 ^ ?o dvd unat current" by (rule dvd_trans [OF le_imp_power_dvd j(4)]) simp
      moreover have "unat current + 2 ^ ?o \<le> 2 ^ 63" using le j(5) less.prems(6) by linarith
      ultimately show ?thesis using j(1) by (simp add: block_ok_def)
    qed
    let ?R = "block_range current ?o" and ?rest = "{unat ?next ..< unat region_end}"
    have R: "?R \<subseteq> {unat current ..< unat ?next}" using le next' by (auto simp: block_range_def)
    have sub: "U \<union> ?rest \<union> ?R \<subseteq> U \<union> {unat current ..< unat region_end}"
      using R next' j(5) by auto
    have disj: "?R \<inter> (U \<union> ?rest) = {}"
      using R less.prems(2) next' j(5) by fastforce
    note push = push_heap_ok [OF heap_ok_mono [OF less.prems(1) sub] bok disj]
    have "0 < (2::nat) ^ j" by simp
    then have smaller: "unat region_end - unat ?next < unat region_end - unat current"
      using True next' j(5) by linarith
    have "?rest \<subseteq> {unat current ..< unat region_end}" using next' by auto
    then have "?rest \<inter> U = {}" using less.prems(2) by blast
    moreover have "unat ?next \<le> unat region_end" using next' j(5) by simp
    moreover have "2 ^ 12 dvd unat ?next"
      using next' less.prems(4) le_imp_power_dvd [OF j(1), of "2::nat"] by simp
    ultimately obtain st' where st': "region_loop ?next region_end ?st = Some st'" "heap_ok st' U"
        "headers st' = headers ?st" "free_bytes ?st \<subseteq> free_bytes st'"
        "free_bytes st' \<subseteq> free_bytes ?st \<union> ?rest"
        "unat region_end - unat ?next < 2 ^ 32 \<longrightarrow> free_bytes st' = free_bytes ?st \<union> ?rest"
      using less.hyps [OF smaller push(1)] less.prems(5,6) by blast
    have "free_bytes st' = free_bytes st \<union> {unat current ..< unat region_end}"
      if small: "unat region_end - unat current < 2 ^ 32"
    proof -
      have "(2::nat) ^ j < 2 ^ 32" using small j(5) by linarith
      then have "j \<le> 31" using power_less_imp_less_exp [of "2::nat" j 32] by simp
      then have "?R = {unat current ..< unat ?next}" using next' by (auto simp: block_range_def)
      moreover have "{unat current ..< unat ?next} \<union> ?rest = {unat current ..< unat region_end}"
        using next' j(5) by auto
      ultimately show ?thesis using st'(6) small smaller push(2) by auto
    qed
    moreover have "free_bytes st' \<subseteq> free_bytes st \<union> {unat current ..< unat region_end}"
      using st'(5) push(2) R next' j(5) by fastforce
    ultimately show ?thesis using step st' push by auto
  qed
qed

subsection \<open>Resizing\<close>

lemma buddies_free_cong:
  "(\<And>k. order \<le> k \<Longrightarrow> free_lists st' k = free_lists st k) \<Longrightarrow>
   buddies_free n base order st' = buddies_free n base order st"
proof (induction n arbitrary: base order)
  case (Suc n)
  have "buddies_free n b (order + 1) st' = buddies_free n b (order + 1) st" for b
    using Suc.prems by (intro Suc.IH) simp
  then show ?case using Suc.prems [of order] by (simp add: is_free_block_def Let_def)
qed simp

lemma remove_buddies_ok:
  assumes "buddies_free n base order st" "heap_ok st (U \<union> block_range base order)"
    "block_ok base order" "block_range base order \<inter> U = {}" "order + n \<le> 63"
    "remove_buddies n base order st = (base', st')"
  shows "heap_ok st' (U \<union> block_range base' (order + n)) \<and> block_ok base' (order + n)
    \<and> block_range base' (order + n) \<inter> U = {} \<and> block_range base order \<subseteq> block_range base' (order + n)
    \<and> free_bytes st' \<union> block_range base' (order + n) = free_bytes st \<union> block_range base order
    \<and> headers st' = headers st"
  using assms
proof (induction n arbitrary: base order st)
  case (Suc n)
  let ?buddy = "base XOR block_size_for_order order"
  let ?low = "if ?buddy < base then ?buddy else base"
  let ?st = "snd (remove_free_block order ?buddy st)"
  have buddy: "?buddy \<in> set (free_lists st order)" and rest: "buddies_free n ?low (order + 1) st"
    using Suc.prems(1) by (auto simp: Let_def is_free_block_def)
  have o: "order < 63" using Suc.prems(5) by simp
  note r = remove_free_block_ok [OF Suc.prems(2) buddy]
  note m = merge_blocks [OF Suc.prems(3) o]
  have "buddies_free n ?low (order + 1) ?st = buddies_free n ?low (order + 1) st"
    by (rule buddies_free_cong) (simp add: remove_free_block_def)
  then have free: "buddies_free n ?low (order + 1) ?st" using rest by simp
  have heap: "heap_ok ?st (U \<union> block_range ?low (order + 1))" using r(2) m(2) by (simp add: Un_ac)
  have disj: "block_range ?low (order + 1) \<inter> U = {}" using m(2) Suc.prems(4) r(4) by auto
  have run: "remove_buddies n ?low (order + 1) ?st = (base', st')"
    using Suc.prems(6) by (simp add: Let_def)
  have ok: "block_ok ?low (order + 1)" using m(1) by simp
  have le: "(order + 1) + n \<le> 63" using Suc.prems(5) by simp
  note IH = Suc.IH [OF free heap ok disj le run]
  have eq: "(order + 1) + n = order + Suc n" by simp
  have range: "block_range ?low (order + 1) = block_range base order \<union> block_range ?buddy order"
    using m(2) by simp
  have "free_bytes ?st \<union> (block_range base order \<union> block_range ?buddy order)
      = free_bytes st \<union> block_range base order"
    using r(3) by auto
  then show ?case
    using IH r(6) unfolding eq range by simp
qed simp

text \<open>
  Growing a live allocation into its free buddies: when the data moves, the invariant holds with
  the new pointer in place of the old one. When the merged block starts where the old
  one did, the new header is the old header, and marking the old header as freed
  marks the new allocation.
\<close>

lemma buddy_resize_grow:
  assumes inv: "buddy_inv st L" and p: "p \<in> L"
    and run: "buddy_resize sz alignment old_size p st = ((r, copy), st')"
    and range: "sz < 2 ^ 63" "alignment < 2 ^ 63"
    and ok: "res_memory r \<noteq> 0"
    and grown: "header_order (headers st' (header_from_pointer (res_memory r)))
                \<noteq> header_order (headers st (header_from_pointer p))"
  shows "if res_memory r = p
     then header_state (headers st' (header_from_pointer p)) = FREED
     else res_error r = Error_NONE \<and> buddy_inv st' (insert (res_memory r) (L - {p}))
       \<and> alignment dvd int (unat (res_memory r))
       \<and> int (unat (requested_size (headers st' (header_from_pointer (res_memory r))))) = sz
       \<and> free_bytes st' \<union> live_range st' (res_memory r) = free_bytes st \<union> live_range st p
       \<and> copy = (if 0 < old_size then Some (res_memory r, p, min old_size sz) else None)"
proof -
  let ?a = "header_from_pointer p" and ?U = "live_bytes st (L - {p})"
  let ?h = "headers st ?a"
  let ?base = "block_base ?h" and ?order = "header_order ?h"
  let ?size = "word_of_int sz :: u64" and ?al = "word_of_int alignment :: u64"
  let ?target = "order_for_block_size (next_block_size (?size + ?al + HEADER_SIZE))"
  have lok: "live_ok st p" using inv p by (simp add: buddy_inv_def)
  have p0: "p \<noteq> 0" by (rule live_ok_pointer [OF lok])
  have bok: "block_ok ?base ?order" using lok by (simp add: live_ok_def Let_def)
  have lrange: "live_range st p = block_range ?base ?order" by (simp add: live_range_def Let_def)
  note lb = live_bytes_remove [OF inv p, unfolded lrange]
  obtain base st1 where rem: "remove_buddies (?target - ?order) ?base ?order st = (base, st1)"
    by (rule prod.exhaust)
  let ?new = "align_up (base + HEADER_SIZE) ?al"
  let ?nh = "\<lparr> block_base = base, header_order = ?target, header_state = LIVE,
              requested_size = ?size, requested_alignment = ?al \<rparr>"
  let ?st2 = "st1\<lparr> headers := (headers st1)(header_from_pointer ?new := ?nh) \<rparr>"
  let ?st3 = "?st2\<lparr> headers := (headers ?st2)(?a := (headers ?st2 ?a)\<lparr> header_state := FREED \<rparr>) \<rparr>"
  let ?copy = "if ?new \<noteq> p \<and> 0 < old_size
               then Some (?new, p, if old_size < sz then old_size else sz) else None"
  have facts: "0 < sz" "is_power_of_two alignment" "?order < ?target" "?target \<le> MAX_ORDER"
      "buddies_free (?target - ?order) ?base ?order st"
      "\<not> (?new + ?size < ?new \<or> base + block_size_for_order ?target < ?new + ?size)"
      "r = result ?new Error_NONE" "copy = ?copy" "st' = ?st3"
    using run ok grown p0 rem
    by (auto simp: buddy_resize_def Let_def result_def split: if_splits)
  obtain k where k: "alignment = 2 ^ k" using facts(2) by (auto simp: is_power_of_two_iff)
  have k63: "k < 63" using range(2) k power_less_imp_less_exp [of "2::int" k 63] by simp
  have al: "?al = 2 ^ k" using k by (simp add: word_of_int_2p)
  have size: "unat ?size = nat sz"
    using facts(1) range(1) by (simp add: unat_eq_nat_uint uint_word_of_int_eq take_bit_int_eq_self)
  have heap0: "heap_ok st (?U \<union> block_range ?base ?order)" using inv lb(1) by (simp add: buddy_inv_def)
  have le: "?order + (?target - ?order) \<le> 63" "?order + (?target - ?order) = ?target"
    using facts(3,4) by (simp_all add: MAX_ORDER_def)
  note rb = remove_buddies_ok [OF facts(5) heap0 bok lb(2) le(1) rem, unfolded le(2)]
  show ?thesis
  proof (cases "?new = p")
    case True
    then show ?thesis using facts(7,9) by simp
  next
    case False
    note ub = user_pointer_bounds [of base ?target k, folded al]
    have np: "unat (?new + ?size) = unat ?new + unat ?size"
      using facts(6) by (intro word_no_wrap) auto
    have "unat (base + block_size_for_order ?target) = unat base + 2 ^ ?target"
      using rb by (subst unat_add_no_wrap) (auto simp: block_ok_def unat_block_size)
    then have top: "unat ?new + unat ?size \<le> unat base + 2 ^ ?target"
      using facts(6) np by (simp add: word_less_nat_alt)
    let ?sta = "st1\<lparr> headers := (headers st1)(?a := (headers st1 ?a)\<lparr> header_state := FREED \<rparr>) \<rparr>"
    have comm: "st' = ?sta\<lparr> headers := (headers ?sta)(header_from_pointer ?new := ?nh) \<rparr>"
      using facts(9) False by (auto simp: fun_upd_twist)
    have ok': "live_ok st' ?new"
      unfolding live_ok_def comm using rb ub top size facts(1) k63
      by (auto simp: Let_def al intro!: exI [of _ k])
    have same: "live_range ?sta q = live_range st q \<and> live_ok ?sta q = live_ok st q" if "q \<in> L - {p}" for q
      using that rb by (intro live_range_cong) auto
    have liveb: "live_bytes ?sta (L - {p}) = ?U" using same by (simp add: live_bytes_def)
    have liv: "\<forall>q \<in> L - {p}. live_ok ?sta q"
      "\<forall>q \<in> L - {p}. \<forall>q' \<in> L - {p}. q \<noteq> q' \<longrightarrow> live_range ?sta q \<inter> live_range ?sta q' = {}"
      using inv same by (auto simp: buddy_inv_def)
    have heap: "heap_ok ?sta (?U \<union> block_range base ?target)" using rb by simp
    have disj: "block_range base ?target \<inter> ?U = {}" using rb by blast
    note n = buddy_inv_new_header [OF liv _ _ comm _ _ ok', where base = base and order = ?target,
        unfolded liveb, OF heap disj]
    have "free_bytes st' \<union> live_range st' ?new = free_bytes st \<union> live_range st p"
      using n(3) rb lrange by (simp add: comm)
    moreover have "alignment dvd int (unat ?new)"
      using ub(2) rb k63 k by (metis int_dvd_int_iff of_nat_numeral of_nat_power)
    moreover have "int (unat (requested_size (headers st' (header_from_pointer ?new)))) = sz"
      using size facts(1) by (simp add: comm)
    moreover have "copy = (if 0 < old_size then Some (?new, p, min old_size sz) else None)"
      using facts(8) False by (simp add: min_def)
    ultimately show ?thesis using False n(1) facts(7) by simp
  qed
qed

section \<open>The buddy heap is an allocator\<close>

text \<open>The invariant, together with the memory \<open>M\<close> the heap manages: free or live, never lost.\<close>

definition buddy_holds :: "nat set \<Rightarrow> buddy_state \<Rightarrow> u64 set \<Rightarrow> bool" where
  "buddy_holds M st L \<longleftrightarrow> buddy_inv st L \<and> free_bytes st \<union> live_bytes st L = M"

lemma buddy_inv_holds: "buddy_inv st L \<Longrightarrow> buddy_holds (free_bytes st \<union> live_bytes st L) st L"
  by (simp add: buddy_holds_def)

lemma buddy_allocate_holds:
  assumes holds: "buddy_holds M st L" and run: "buddy_allocate sz alignment st = (r, st')"
    and range: "sz < 2 ^ 63" "alignment < 2 ^ 63"
  shows "if res_memory r = 0 then buddy_holds M st' L
    else res_error r = Error_NONE \<and> res_memory r \<notin> L \<and> buddy_holds M st' (insert (res_memory r) L)
      \<and> alignment dvd int (unat (res_memory r))
      \<and> {unat (res_memory r) ..< unat (res_memory r) + nat sz} \<subseteq> live_range st' (res_memory r)"
    and "\<forall>p \<in> L. live_range st' p = live_range st p"
proof -
  have inv: "buddy_inv st L" using holds by (simp add: buddy_holds_def)
  note a = buddy_allocate_ok [OF inv run range]
  show same: "\<forall>p \<in> L. live_range st' p = live_range st p"
    using a by (auto simp: live_range_def)
  then have live: "live_bytes st' L = live_bytes st L" by (simp add: live_bytes_def)
  show "if res_memory r = 0 then buddy_holds M st' L
    else res_error r = Error_NONE \<and> res_memory r \<notin> L \<and> buddy_holds M st' (insert (res_memory r) L)
      \<and> alignment dvd int (unat (res_memory r))
      \<and> {unat (res_memory r) ..< unat (res_memory r) + nat sz} \<subseteq> live_range st' (res_memory r)"
  proof (cases "res_memory r = 0")
    case True
    then show ?thesis using a live holds by (simp add: buddy_holds_def)
  next
    case False
    then have "live_ok st' (res_memory r)"
        "int (unat (requested_size (headers st' (header_from_pointer (res_memory r))))) = sz"
      using a by (auto simp: buddy_inv_def)
    then have "{unat (res_memory r) ..< unat (res_memory r) + nat sz} \<subseteq> live_range st' (res_memory r)"
      using user_range_live [of st' "res_memory r"] by (auto simp: user_range_def)
    moreover have "live_bytes st' (insert (res_memory r) L) = live_range st' (res_memory r) \<union> live_bytes st L"
      using live by (auto simp: live_bytes_def)
    ultimately show ?thesis using a False holds by (auto simp: buddy_holds_def)
  qed
qed

lemma buddy_free_holds:
  assumes holds: "buddy_holds M st L" and p: "p \<in> L"
  shows "\<exists>st'. buddy_free p st = Inr (result 0 Error_NONE, st') \<and> buddy_holds M st' (L - {p})
    \<and> free_bytes st' = free_bytes st \<union> live_range st p
    \<and> header_state (headers st' (header_from_pointer p)) = FREED
    \<and> (\<forall>q \<in> L - {p}. live_range st' q = live_range st q)"
proof -
  have inv: "buddy_inv st L" using holds by (simp add: buddy_holds_def)
  obtain st' where st': "buddy_free p st = Inr (result 0 Error_NONE, st')" "buddy_inv st' (L - {p})"
      "free_bytes st' = free_bytes st \<union> live_range st p"
      "headers st' = (headers st)(header_from_pointer p :=
        (headers st (header_from_pointer p))\<lparr> header_state := FREED \<rparr>)"
    using buddy_free_ok [OF inv p] by blast
  have same: "\<forall>q \<in> L - {p}. live_range st' q = live_range st q"
    using st'(4) by (auto simp: live_range_def Let_def)
  then have "live_bytes st' (L - {p}) = live_bytes st (L - {p})" by (simp add: live_bytes_def)
  then have "buddy_holds M st' (L - {p})"
    using st'(2,3) live_bytes_remove(1) [OF inv p] holds by (auto simp: buddy_holds_def)
  then show ?thesis using st' same by auto
qed

interpretation buddy: sized_heap buddy_proc "buddy_holds M" live_range for M
proof unfold_locales
  fix st :: buddy_state and L p q and sz alignment old_size :: int and out
  assume holds: "buddy_holds M st L"
  show "live_range st p \<inter> live_range st q = {}" if "p \<in> L" "q \<in> L" "p \<noteq> q"
    using holds that by (simp add: buddy_inv_def buddy_holds_def)
  show "live_range st p \<subseteq> {..< 2 ^ 63}" if "p \<in> L"
    using holds that by (auto simp: buddy_holds_def buddy_inv_def live_ok_def Let_def live_range_def
        block_ok_def block_range_def)
  have free: "\<exists>st'. buddy_proc FREE 0 alignment old_size p out st = Inr (result 0 Error_NONE, out, st')
      \<and> buddy_holds M st' (L - {p}) \<and> (\<forall>q \<in> L - {p}. live_range st' q = live_range st q)"
    if "p \<in> L" for alignment old_size
    using buddy_free_holds [OF holds that] by (auto simp: buddy_proc_def)
  show "\<exists>st'. buddy_proc FREE 0 0 0 p out st = Inr (result 0 Error_NONE, out, st')
      \<and> buddy_holds M st' (L - {p}) \<and> (\<forall>q \<in> L - {p}. live_range st' q = live_range st q)" if "p \<in> L"
    by (rule free [OF that])
  show "\<exists>st'. buddy_proc FREE 0 alignment old_size p out st = Inr (result 0 Error_NONE, out, st')
      \<and> buddy_holds M st' (L - {p}) \<and> (\<forall>q \<in> L - {p}. live_range st' q = live_range st q)" if "p \<in> L"
    by (rule free [OF that])
  show "\<exists>r st'. buddy_proc ALLOCATE sz alignment 0 0 out st = Inr (r, out, st') \<and>
      (if res_memory r = 0 then buddy_holds M st' L
       else res_error r = Error_NONE \<and> res_memory r \<notin> L \<and> buddy_holds M st' (insert (res_memory r) L)
         \<and> alignment dvd int (unat (res_memory r))
         \<and> {unat (res_memory r) ..< unat (res_memory r) + nat sz} \<subseteq> live_range st' (res_memory r))
      \<and> (\<forall>p \<in> L. live_range st' p = live_range st p)"
    if b: "0 \<le> sz" "sz < 2 ^ 63" "alignment < 2 ^ 63" "is_power_of_two alignment"
  proof -
    obtain r st' where run: "buddy_allocate sz alignment st = (r, st')" by (rule prod.exhaust)
    show ?thesis using buddy_allocate_holds [OF holds run b(2,3)] run by (simp add: buddy_proc_def)
  qed
next
  fix st :: buddy_state
  have "has_flag Buddy_FEATURES [Feature_FREE]" by code_simp
  then show "\<exists>features. buddy_proc FEATURES 0 0 0 1 no_out st
      = Inr (result 0 Error_NONE, no_out\<lparr> out_features := features \<rparr>, st) \<and> has_flag features [Feature_FREE]"
    by (auto simp: buddy_proc_def)
qed

text \<open>
  A heap that serves a request from any page it has to spare, and only counts one page for it.
\<close>

locale paged_heap = sized_heap +
  fixes pages :: "'a \<Rightarrow> nat"
  assumes page_alloc: "inv s L \<Longrightarrow> 0 < sz \<Longrightarrow> is_power_of_two alignment \<Longrightarrow> sz + alignment \<le> 4064 \<Longrightarrow> 0 < pages s \<Longrightarrow>
      \<exists>r s'. alloc proc sz alignment s = Inr (r, s') \<and> res_memory r \<noteq> 0 \<and> pages s \<le> pages s' + 1"

interpretation buddy_pages: paged_heap buddy_proc "buddy_holds M" live_range spare_pages for M
  by unfold_locales (unfold buddy_holds_def, elim conjE, erule buddy_page_alloc)

section \<open>Properties\<close>

text \<open>
  Handing a memory region to the heap makes exactly its whole pages free: for any base and
  size (not wrapping, below \<open>2 ^ 63\<close>) whose whole pages are disjoint from the blocks the heap
  knows, \<open>add_region\<close> returns, keeps the invariant, never registers a byte outside
  \<open>[align_up base, align_down (base + size))\<close>, and for less than 4 GiB of whole pages registers
  every byte of them.
\<close>

theorem add_region_covers:
  assumes inv: "buddy_inv st L" and bound: "unat base + unat bytes \<le> 2 ^ 63"
    and first: "s = unat (align_up base PAGE_USIZE)"
    and last: "e = unat (align_down (base + bytes) PAGE_USIZE)"
    and new: "{s ..< e} \<inter> (live_bytes st L \<union> free_bytes st) = {}"
  shows "\<exists>st'. add_region base bytes st = Some st' \<and> buddy_inv st' L
    \<and> free_bytes st' \<subseteq> free_bytes st \<union> {s ..< e}
    \<and> (e - s < 2 ^ 32 \<longrightarrow> free_bytes st' = free_bytes st \<union> {s ..< e})"
proof -
  let ?start = "align_up base PAGE_USIZE" and ?stop = "align_down (base + bytes) PAGE_USIZE"
  have page: "PAGE_USIZE = 2 ^ 12" by (simp add: PAGE_USIZE_def)
  have sum: "unat (base + bytes) = unat base + unat bytes" using bound by (intro unat_add_no_wrap) simp
  have dvds: "2 ^ 12 dvd unat ?start" "2 ^ 12 dvd unat ?stop"
    using align_up_bounds(1) [of 12 base] align_down_bounds(1) [of 12] bound unfolding page by simp_all
  have top: "unat ?stop \<le> 2 ^ 63"
    using align_down_bounds(2) [of 12 "base + bytes"] sum bound unfolding page by simp
  have heap: "heap_ok st (live_bytes st L)" using inv by (simp add: buddy_inv_def)
  show ?thesis
  proof (cases "?stop \<le> ?start")
    case True
    then have "{s ..< e} = {}" using first last by (simp add: word_le_nat_alt)
    then show ?thesis using True inv by (simp add: add_region_def)
  next
    case False
    then have lt: "unat ?start < unat ?stop" by (simp add: word_le_nat_alt)
    have "heap_ok st (live_bytes st L \<union> {unat ?start ..< unat ?stop})"
      using new first last by (intro heap_ok_extend [OF heap]) blast
    moreover have "{unat ?start ..< unat ?stop} \<inter> live_bytes st L = {}" using new first last by blast
    ultimately obtain st' where st': "region_loop ?start ?stop st = Some st'" "heap_ok st' (live_bytes st L)"
        "headers st' = headers st" "free_bytes st' \<subseteq> free_bytes st \<union> {s ..< e}"
        "e - s < 2 ^ 32 \<longrightarrow> free_bytes st' = free_bytes st \<union> {s ..< e}"
      using region_loop_ok [of st "live_bytes st L" ?start ?stop] lt dvds top first last by auto
    have same: "live_range st' q = live_range st q \<and> live_ok st' q = live_ok st q" for q
      using st'(3) by (intro live_range_cong) simp
    then have "buddy_inv st' L" using inv st'(2) by (simp add: buddy_inv_def live_bytes_def)
    moreover have "add_region base bytes st = Some st'"
      using False st'(1) by (simp add: add_region_def Let_def)
    ultimately show ?thesis using st' by blast
  qed
qed

lemma empty_heap:
  assumes "\<And>order. free_lists st order = []"
  shows "buddy_inv st {}" "free_bytes st = {}"
  using assms by (simp_all add: buddy_inv_def heap_ok_def live_bytes_def free_bytes_def)

definition blank_header :: allocation_header where
  "blank_header = \<lparr> block_base = 0, header_order = 0, header_state = FREED,
     requested_size = 0, requested_alignment = 0 \<rparr>"

definition empty_buddy :: buddy_state where
  "empty_buddy = \<lparr> free_lists = \<lambda>order. [], headers = \<lambda>address. blank_header \<rparr>"

lemma empty_buddy_inv [simp]: "buddy_inv empty_buddy {}" "free_bytes empty_buddy = {}"
  "live_bytes empty_buddy {} = {}"
  using empty_heap [of empty_buddy] by (simp_all add: empty_buddy_def live_bytes_def)

theorem add_region_covers_witness:
  "\<exists>st. add_region 0x100010 0x5000 empty_buddy = Some st \<and> free_bytes st = {0x101000 ..< 0x105000}"
  using add_region_covers [OF empty_buddy_inv(1), of "0x100010" "0x5000", OF _ refl refl]
  by (force simp: align_up_def align_down_def PAGE_USIZE_def)

text \<open>A heap of one 8 KiB block at 1 MiB.\<close>

definition small_heap :: buddy_state where
  "small_heap = push_free_block 0x100000 13 empty_buddy"

lemma small_heap_inv:
  "buddy_inv small_heap {}" "free_bytes small_heap = {0x100000 ..< 0x102000}" "live_bytes small_heap {} = {}"
proof -
  have "heap_ok small_heap {} \<and> free_bytes small_heap = free_bytes empty_buddy \<union> block_range 0x100000 13"
    unfolding small_heap_def
    by (intro conjI push_heap_ok(1) push_heap_ok(2) [where U = "{}"])
      (simp_all add: empty_buddy_def heap_ok_def block_ok_def)
  then show "buddy_inv small_heap {}" "free_bytes small_heap = {0x100000 ..< 0x102000}"
      "live_bytes small_heap {} = {}"
    by (auto simp: buddy_inv_def live_bytes_def block_range_def)
qed

text \<open>
  C13: \<open>alloc\<close> on the buddy heap never fails an assertion and either returns null or a block that is
  aligned as asked, holds the requested bytes, is disjoint from every live block, leaves
  the live blocks where they were, and takes exactly its own block out of the free memory.
\<close>

theorem buddy_alloc_fresh_block:
  assumes "buddy_holds M st L" "sz < 2 ^ 63" "alignment < 2 ^ 63"
  shows "\<exists>r st'. alloc buddy_proc sz alignment st = Inr (r, st') \<and>
    (if res_memory r = 0 then buddy_holds M st' L
     else res_error r = Error_NONE \<and> res_memory r \<notin> L \<and> buddy_holds M st' (insert (res_memory r) L)
       \<and> alignment dvd int (unat (res_memory r))
       \<and> {unat (res_memory r) ..< unat (res_memory r) + nat sz} \<subseteq> live_range st' (res_memory r)
       \<and> (\<forall>p \<in> L. live_range st p \<inter> live_range st' (res_memory r) = {}))
    \<and> (\<forall>p \<in> L. live_range st' p = live_range st p)"
  by (rule buddy.alloc_spec [OF assms])

theorem buddy_alloc_fresh_block_witness:
  "\<exists>r st'. alloc buddy_proc 100 64 small_heap = Inr (r, st')
     \<and> buddy_holds {0x100000 ..< 0x102000} st' ({res_memory r} - {0})
     \<and> 64 dvd int (unat (res_memory r))"
  using buddy_alloc_fresh_block [of "{0x100000 ..< 0x102000}" small_heap "{}" 100 64] small_heap_inv
  by (fastforce simp: buddy_holds_def split: if_splits)

text \<open>
  Freeing a live pointer succeeds, gives its whole block back to the free memory and no more,
  and keeps every other allocation; freeing the same pointer again fails the
  double-free assertion.
\<close>

theorem buddy_free_and_double_free:
  assumes "buddy_holds M st L" "p \<in> L"
  shows "\<exists>st'. free_memory buddy_proc p 0 st = Inr (Error_NONE, st') \<and> buddy_holds M st' (L - {p})
    \<and> free_bytes st' = free_bytes st \<union> live_range st p
    \<and> (\<forall>q \<in> L - {p}. live_range st' q = live_range st q)
    \<and> free_memory buddy_proc p 0 st' = Inl ''Buddy allocator: double free''"
proof -
  obtain st' where st': "buddy_free p st = Inr (result 0 Error_NONE, st')" "buddy_holds M st' (L - {p})"
      "free_bytes st' = free_bytes st \<union> live_range st p"
      "header_state (headers st' (header_from_pointer p)) = FREED"
      "\<forall>q \<in> L - {p}. live_range st' q = live_range st q"
    using buddy_free_holds [OF assms] by blast
  have "p \<noteq> 0" using assms live_ok_pointer by (auto simp: buddy_inv_def buddy_holds_def)
  then have "buddy_free p st' = Inl ''Buddy allocator: double free''"
    using st'(4) by (simp add: buddy_free_def Let_def)
  then show ?thesis
    using st' by (auto simp: free_memory_def free_aligned_def call_allocator_def buddy_proc_def)
qed

lemma small_heap_alloc:
  obtains r st' where "alloc buddy_proc 4000 16 small_heap = Inr (r, st')" "res_memory r = 0x100020"
    "buddy_holds {0x100000 ..< 0x102000} st' {0x100020}"
proof -
  have "buddy_holds {0x100000 ..< 0x102000} small_heap {}"
    using small_heap_inv by (simp add: buddy_holds_def)
  then obtain r st' where r: "alloc buddy_proc 4000 16 small_heap = Inr (r, st')"
      "res_memory r \<noteq> 0 \<longrightarrow> buddy_holds {0x100000 ..< 0x102000} st' {res_memory r}"
    using buddy.alloc_spec [of "{0x100000 ..< 0x102000}" small_heap "{}" 4000 16]
    by (auto split: if_splits)
  have "map_sum id (res_memory \<circ> fst) (alloc buddy_proc 4000 16 small_heap) = Inr 0x100020"
    by code_simp
  then have "res_memory r = 0x100020" using r(1) by simp
  then show ?thesis using that r by simp
qed

theorem buddy_free_and_double_free_witness:
  "\<exists>r st st'. alloc buddy_proc 4000 16 small_heap = Inr (r, st) \<and> res_memory r = 0x100020
    \<and> free_memory buddy_proc (res_memory r) 0 st = Inr (Error_NONE, st')
    \<and> free_memory buddy_proc (res_memory r) 0 st' = Inl ''Buddy allocator: double free''"
proof -
  obtain r st where r: "alloc buddy_proc 4000 16 small_heap = Inr (r, st)" "res_memory r = 0x100020"
      "buddy_holds {0x100000 ..< 0x102000} st {0x100020}"
    by (rule small_heap_alloc)
  then show ?thesis using buddy_free_and_double_free [OF r(3)] by auto
qed

text \<open>
  C1: No program of \<open>alloc\<close> and \<open>free\<close> calls on pointers it holds makes the buddy heap fail an
  assertion, hand out a pointer twice, or lose memory: the bytes that are free or in a live
  block are the same \<open>M\<close> at the end as at the start, and the live blocks stay disjoint from
  each other and from the free ones.
\<close>

theorem heap_programs_conserve_memory:
  assumes "buddy_holds M st (set ps)" "distinct ps" "\<forall>op \<in> set ops. op_ok op"
  shows "\<exists>ps' st'. run_heap buddy_proc ops ps st = Inr (ps', st')
    \<and> buddy_holds M st' (set ps') \<and> distinct ps'"
  by (rule buddy.run_heap_ok [OF assms])

theorem heap_programs_conserve_memory_witness:
  "\<exists>ps' st'. run_heap buddy_proc [Alloc 100 8, Alloc 5000 8, Free_nth 0, Alloc 3000 64] [] small_heap
      = Inr (ps', st') \<and> buddy_holds {0x100000 ..< 0x102000} st' (set ps')"
  using heap_programs_conserve_memory [of "{0x100000 ..< 0x102000}" small_heap "[]"
      "[Alloc 100 8, Alloc 5000 8, Free_nth 0, Alloc 3000 64]"] small_heap_inv
  by (fastforce simp: buddy_holds_def)

text \<open>
  \<open>realloc\<close> to size zero, which releases the block on allocators without a native resize,
  leaves the buddy heap as it was: the call returns null without an error and the block stays live,
  so the memory can no longer be given back.
\<close>

theorem realloc_to_zero_keeps_block:
  assumes "buddy_holds M st L" "p \<in> L" "0 \<le> old_size" "is_power_of_two alignment"
  shows "realloc memcpy buddy_proc p old_size 0 alignment st = Inr (result 0 Error_NONE, st)
    \<and> live_range st p \<inter> free_bytes st = {} \<and> live_range st p \<noteq> {}"
proof -
  have inv: "buddy_inv st L" using assms(1) by (simp add: buddy_holds_def)
  then have "p \<noteq> 0" using assms(2) live_ok_pointer by (auto simp: buddy_inv_def)
  moreover have "0 \<le> alignment" using assms(4) by (simp add: is_power_of_two_def)
  moreover have "live_range st p \<inter> free_bytes st = {}"
    using inv free_bytes_disjoint [of st "live_bytes st L"] live_bytes_remove [OF inv assms(2)]
    by (auto simp: buddy_inv_def)
  ultimately show ?thesis using assms(3,4)
    by (simp add: realloc_def call_allocator_def buddy_proc_def buddy_resize_def live_range_def Let_def)
qed

text \<open>
  Growing a live allocation into its free buddies. When the data moves to a lower address, the
  new pointer replaces the old one in the invariant, is aligned, has the new size, takes
  exactly the buddies out of the free memory, and the copy of the payload is the
  smaller of the two sizes. When the merged block starts where the old one did and the pointer
  stays the same, the header just written is the old header, and retiring it leaves the new
  allocation marked as freed: the next \<open>free\<close> of the pointer fails the double-free assertion and
  \<open>is_this_yours\<close> denies it.
\<close>

theorem buddy_resize_moves_or_retires:
  assumes inv: "buddy_inv st L" and p: "p \<in> L"
    and run: "buddy_resize sz alignment old_size p st = ((r, copy), st')"
    and range: "sz < 2 ^ 63" "alignment < 2 ^ 63"
    and ok: "res_memory r \<noteq> 0"
    and grown: "header_order (headers st' (header_from_pointer (res_memory r)))
                \<noteq> header_order (headers st (header_from_pointer p))"
  shows "if res_memory r = p
     then free_memory buddy_proc p 0 st' = Inl ''Buddy allocator: double free''
       \<and> is_this_yours buddy_proc p st' = Inr ((False, Query_NONE), st')
     else res_error r = Error_NONE \<and> buddy_inv st' (insert (res_memory r) (L - {p}))
       \<and> alignment dvd int (unat (res_memory r))
       \<and> int (unat (requested_size (headers st' (header_from_pointer (res_memory r))))) = sz
       \<and> free_bytes st' \<union> live_range st' (res_memory r) = free_bytes st \<union> live_range st p
       \<and> copy = (if 0 < old_size then Some (res_memory r, p, min old_size sz) else None)"
proof (cases "res_memory r = p")
  case True
  then have freed: "header_state (headers st' (header_from_pointer p)) = FREED" and "p \<noteq> 0"
    using buddy_resize_grow [OF assms] ok by simp_all
  then have "buddy_free p st' = Inl ''Buddy allocator: double free''"
      "buddy_is_this_yours p st' = result 0 Error_NONE"
    by (simp_all add: buddy_free_def buddy_is_this_yours_def Let_def)
  then show ?thesis using True
    by (simp add: free_memory_def free_aligned_def call_allocator_def buddy_proc_def is_this_yours_def)
next
  case False
  then show ?thesis using buddy_resize_grow [OF assms] by simp
qed

text \<open>The heap above after \<open>alloc\<close> of 4000 bytes: one live block, its buddy free.\<close>

definition half_heap :: buddy_state where
  "half_heap = \<lparr> free_lists = (\<lambda>order. [])(12 := [0x101000]),
     headers = (\<lambda>address. blank_header)(0x100000 := \<lparr> block_base = 0x100000, header_order = 12,
       header_state = LIVE, requested_size = 4000, requested_alignment = 16 \<rparr>) \<rparr>"

lemma half_heap_live:
  "headers half_heap (header_from_pointer 0x100020) = \<lparr> block_base = 0x100000, header_order = 12,
       header_state = LIVE, requested_size = 4000, requested_alignment = 16 \<rparr>"
  by (simp add: half_heap_def header_from_pointer_def HEADER_SIZE_def)

lemma half_heap_inv: "buddy_inv half_heap {0x100020}"
proof -
  have "heap_ok half_heap (block_range 0x100000 12)"
    by (auto simp: half_heap_def heap_ok_def block_ok_def block_range_def)
  moreover have "live_ok half_heap 0x100020"
    unfolding live_ok_def half_heap_live
    by (auto simp: block_ok_def align_up_def HEADER_SIZE_def intro!: exI [of _ 4])
  ultimately show ?thesis
    by (simp add: buddy_inv_def live_bytes_def live_range_def half_heap_live)
qed

lemma half_heap_resize:
  obtains copy st' where "buddy_resize 8000 16 4000 0x100020 half_heap = ((result 0x100020 Error_NONE, copy), st')"
    "header_order (headers st' (header_from_pointer 0x100020)) = 13"
proof -
  have t: "order_for_block_size (next_block_size 8048) = 13"
      "block_size_for_order 12 = 4096" "block_size_for_order 13 = 8192"
    by code_simp+
  have free: "buddies_free (Suc 0) 0x100000 12 half_heap"
    by (simp add: t is_free_block_def half_heap_def)
  obtain st1 where rem: "remove_buddies (Suc 0) 0x100000 12 half_heap = (0x100000, st1)"
      "headers st1 = headers half_heap"
    by (simp add: t remove_free_block_def half_heap_def)
  have new: "align_up (0x100000 + HEADER_SIZE) 16 = 0x100020" by code_simp
  show ?thesis using that
    by (simp add: buddy_resize_def Let_def half_heap_live t is_power_of_two_def HEADER_SIZE_def
        MAX_ORDER_def free rem new [unfolded HEADER_SIZE_def, simplified]
        del: buddies_free.simps remove_buddies.simps)
qed

theorem buddy_resize_moves_or_retires_witness:
  "\<exists>copy st'. buddy_resize 8000 16 4000 0x100020 half_heap = ((result 0x100020 Error_NONE, copy), st')
    \<and> free_memory buddy_proc 0x100020 0 st' = Inl ''Buddy allocator: double free''"
proof -
  obtain copy st' where run: "buddy_resize 8000 16 4000 0x100020 half_heap
        = ((result 0x100020 Error_NONE, copy), st')"
      "header_order (headers st' (header_from_pointer 0x100020)) = 13"
    by (rule half_heap_resize)
  then show ?thesis
    using buddy_resize_moves_or_retires [OF half_heap_inv _ run(1)] by (simp add: half_heap_live)
qed

theorem realloc_to_zero_keeps_block_witness:
  "realloc (\<lambda>d p n st. st) buddy_proc 0x100020 4000 0 16 half_heap = Inr (result 0 Error_NONE, half_heap)
   \<and> live_range half_heap 0x100020 \<noteq> {}"
  using realloc_to_zero_keeps_block [OF buddy_inv_holds [OF half_heap_inv], of "0x100020" 4000 16]
  by (simp add: is_power_of_two_def)

text \<open>
  The heap loses memory when it is given a region of 4 GiB or more: \<open>order_for_block_size\<close>
  shifts an \<^verbatim>\<open>int\<close>, which turns negative at \<open>2 ^ 31\<close> and ends the loop, so every block of at
  least 2 GiB is filed under order 31. A block of 4 GiB is listed with half of its bytes, and the
  largest request the heap can ever serve is below 2 GiB.
\<close>

theorem add_region_loses_large_block:
  "(\<exists>st. add_region 0x100000000 0x100000000 empty_buddy = Some st
      \<and> free_bytes st = {0x100000000 ..< 0x180000000})
   \<and> (\<lambda>k. order_for_block_size (2 ^ k)) ` {31 ..< 64} = {31}
   \<and> (\<forall>required_size. order_for_block_size (next_block_size required_size) \<le> 31)"
proof (intro conjI allI)
  have o: "floor_pow2 (0x100000000 :: u64) = 0x100000000" "order_for_block_size 0x100000000 = 31"
    using order_for_pow2 [of 32] by (simp_all) code_simp
  then have "region_block_size 0x100000000 0x200000000 = 0x100000000"
    by (simp add: region_block_size_def shrink_to_alignment.simps [of "0x100000000" "0x100000000"] PAGE_USIZE_def)
  then have loop: "region_loop 0x100000000 0x200000000 empty_buddy
      = Some (push_free_block 0x100000000 31 empty_buddy)"
    using o by (simp add: region_loop.simps [of "0x100000000"] region_loop.simps [of "0x200000000"])
  have "free_bytes (push_free_block 0x100000000 31 empty_buddy) = free_bytes empty_buddy \<union> block_range 0x100000000 31"
    by (rule push_heap_ok(2) [where U = "{}"])
      (simp_all add: empty_buddy_def heap_ok_def block_ok_def)
  then show "\<exists>st. add_region 0x100000000 0x100000000 empty_buddy = Some st
      \<and> free_bytes st = {0x100000000 ..< 0x180000000}"
    using loop by (simp add: add_region_def align_up_def align_down_def PAGE_USIZE_def block_range_def)
  have "order_for_block_size (2 ^ k) = 31" if "k \<in> {31 ..< 64}" for k
    using that order_for_pow2 [of k] by auto
  then show "(\<lambda>k. order_for_block_size (2 ^ k)) ` {31 ..< 64} = {31}" by force
  show "order_for_block_size (next_block_size required_size) \<le> 31" for required_size
    by (rule target_order_bounds)
qed

end
