(* ===== verification/Regions.thy ===== *)
theory Regions
  imports Buddy "HOL-Library.Multiset"
begin

text \<open>
  The map of usable memory of \<^verbatim>\<open>gameos/memory.hh\<close>: a \<^verbatim>\<open>Bounded_Array\<close> of at most
  128 regions (\<^verbatim>\<open>kstd/array.hh\<close>), to which usable regions are added and out of which
  ranges are cut at page granularity. A bounded array is the list of its live elements; its
  capacity is an argument.
\<close>

section \<open>Bounded arrays\<close>

definition bounded_get :: "'a list \<Rightarrow> int \<Rightarrow> 'a outcome" where
  "bounded_get xs index =
     kstd_assert (0 \<le> index \<and> index < int (length xs)) ''index out of bounds'' (Inr (xs ! nat index))"

definition bounded_push_back :: "nat \<Rightarrow> 'a \<Rightarrow> 'a list \<Rightarrow> 'a list outcome" where
  "bounded_push_back max_size element xs =
     kstd_assert (length xs < max_size) ''push_back on full Bounded_Array'' (Inr (xs @ [element]))"

definition ensure_space_for :: "nat \<Rightarrow> int \<Rightarrow> 'a list \<Rightarrow> unit outcome" where
  "ensure_space_for max_size new_elements_count xs =
     kstd_assert (new_elements_count \<le> int max_size - int (length xs)) ''not enough space in Bounded_Array'' (Inr ())"

fun bounded_push_all :: "nat \<Rightarrow> 'a list \<Rightarrow> 'a list \<Rightarrow> 'a list outcome" where
  "bounded_push_all max_size [] xs = Inr xs"
| "bounded_push_all max_size (y # ys) xs = obind (bounded_push_back max_size y xs) (bounded_push_all max_size ys)"

definition bounded_extend :: "nat \<Rightarrow> 'a list \<Rightarrow> 'a list \<Rightarrow> 'a list outcome" where
  "bounded_extend max_size source xs =
     obind (ensure_space_for max_size (int (length source)) xs) (\<lambda>_. bounded_push_all max_size source xs)"

definition bounded_pop_back :: "'a list \<Rightarrow> ('a \<times> 'a list) outcome" where
  "bounded_pop_back xs =
     kstd_assert (xs \<noteq> []) ''pop_back on empty Bounded_Array'' (Inr (last xs, butlast xs))"

section \<open>Regions\<close>

definition MULTIBOOT_MMAP_USABLE :: u32 where "MULTIBOOT_MMAP_USABLE = 1"
definition MAX_MEMORY_REGIONS :: nat where "MAX_MEMORY_REGIONS = 128"

record memory_region =
  mr_base :: u64
  mr_size :: u64

definition region :: "u64 \<Rightarrow> u64 \<Rightarrow> memory_region" where
  "region base bytes = \<lparr> mr_base = base, mr_size = bytes \<rparr>"

definition region_limit :: "memory_region \<Rightarrow> u64" where
  "region_limit r = mr_base r + mr_size r"

definition add_usable_region :: "u64 \<Rightarrow> u64 \<Rightarrow> memory_region list \<Rightarrow> memory_region list outcome" where
  "add_usable_region base len regions = bounded_push_back MAX_MEMORY_REGIONS (region base len) regions"

text \<open>The four ways a region lies to the range, in the order the loop tests them.\<close>

definition apart :: "u64 \<Rightarrow> u64 \<Rightarrow> memory_region \<Rightarrow> bool" where
  "apart start stop r \<longleftrightarrow> stop \<le> mr_base r \<or> region_limit r \<le> start"

definition swallowed :: "u64 \<Rightarrow> u64 \<Rightarrow> memory_region \<Rightarrow> bool" where
  "swallowed start stop r \<longleftrightarrow> start \<le> mr_base r \<and> region_limit r \<le> stop"

definition splits :: "u64 \<Rightarrow> u64 \<Rightarrow> memory_region \<Rightarrow> bool" where
  "splits start stop r \<longleftrightarrow> \<not> apart start stop r \<and> mr_base r < start \<and> stop < region_limit r"

lemma tail_not_split: "splits start stop r \<Longrightarrow> \<not> splits start stop (region stop (region_limit r - stop))"
  by (simp add: splits_def apart_def region_def)

definition reserve_measure :: "u64 \<Rightarrow> u64 \<Rightarrow> nat \<Rightarrow> memory_region list \<Rightarrow> nat" where
  "reserve_measure start stop i regions = (\<Sum>r\<leftarrow>drop i regions. if splits start stop r then 2 else 1)"

lemma reserve_measure_next:
  assumes "i < length regions"
  shows "reserve_measure start stop (Suc i) (regions[i := r]) < reserve_measure start stop i regions"
    "reserve_measure start stop (Suc i) regions < reserve_measure start stop i regions"
  using assms by (simp_all add: reserve_measure_def Cons_nth_drop_Suc [symmetric])

lemma reserve_measure_split:
  assumes "i < length regions" "splits start stop (regions ! i)"
  shows "reserve_measure start stop (Suc i)
      ((regions @ [region stop (region_limit (regions ! i) - stop)])[i := r]) < reserve_measure start stop i regions"
proof -
  have d: "drop i regions = regions ! i # drop (Suc i) regions" using assms(1) by (simp add: Cons_nth_drop_Suc)
  show ?thesis using assms tail_not_split [OF assms(2)] by (simp add: reserve_measure_def d)
qed

lemma reserve_measure_remove:
  assumes "i < length regions"
  shows "reserve_measure start stop i (butlast (regions[i := last regions])) < reserve_measure start stop i regions"
proof -
  define xs where "xs = drop i regions"
  have ne: "xs \<noteq> []" using assms by (simp add: xs_def)
  then obtain x xs' where xs: "xs = x # xs'" by (cases xs) auto
  have l: "last regions = last xs" using assms by (simp add: xs_def)
  have "drop i (butlast (regions[i := last regions])) = butlast (last xs # xs')"
    using assms xs by (simp add: l drop_butlast drop_update_swap xs_def [symmetric])
  moreover have "sum_list (map f (butlast (last xs # xs'))) < sum_list (map f xs)" if "\<And>r. f r > (0 :: nat)" for f
  proof (cases xs' rule: rev_cases)
    case Nil
    then show ?thesis using that xs by simp
  next
    case (snoc ys y)
    then show ?thesis using that xs by simp
  qed
  ultimately show ?thesis by (simp add: reserve_measure_def xs_def [symmetric])
qed

text \<open>
  The loop of \<open>reserve_range\<close> from index \<open>i\<close> on. A full array stops the split by an assertion, so the
  two statements that follow it there are never reached.
\<close>

function reserve_loop :: "u64 \<Rightarrow> u64 \<Rightarrow> nat \<Rightarrow> memory_region list \<Rightarrow> memory_region list outcome" where
  "reserve_loop start stop i regions =
     (if length regions \<le> i then Inr regions
      else
        let r = regions ! i; region_start = mr_base r; region_end = region_limit r in
        if stop \<le> region_start \<or> region_end \<le> start then reserve_loop start stop (Suc i) regions
        else if start \<le> region_start \<and> region_end \<le> stop then
          reserve_loop start stop i (butlast (regions[i := last regions]))
        else if start \<le> region_start then
          reserve_loop start stop (Suc i) (regions[i := region stop (region_end - stop)])
        else if region_end \<le> stop then
          reserve_loop start stop (Suc i) (regions[i := r\<lparr> mr_size := start - region_start \<rparr>])
        else if length regions < MAX_MEMORY_REGIONS then
          reserve_loop start stop (Suc i)
            ((regions @ [region stop (region_end - stop)])[i := r\<lparr> mr_size := start - region_start \<rparr>])
        else Inl ''Memory_Regions overflow, increase MAX_MEMORY_REGIONS'')"
  by pat_completeness auto
termination
  by (relation "measure (\<lambda>(start, stop, i, regions). reserve_measure start stop i regions)")
    (auto intro!: reserve_measure_next reserve_measure_split reserve_measure_remove simp: splits_def apart_def not_le)

declare reserve_loop.simps [simp del]

definition reserve_range :: "u64 \<Rightarrow> u64 \<Rightarrow> memory_region list \<Rightarrow> memory_region list outcome" where
  "reserve_range start stop regions =
     (if stop \<le> start then Inr regions
      else reserve_loop (align_down start PAGE_USIZE) (align_up stop PAGE_USIZE) 0 regions)"

section \<open>What reserving does\<close>

text \<open>
  Regions end at or below \<open>2 ^ 63\<close>: physical addresses have at most 52 bits. \<open>coverage\<close> is how many regions
  hold a byte: at most one in a sound map.
\<close>

definition region_ok :: "memory_region \<Rightarrow> bool" where
  "region_ok r \<longleftrightarrow> unat (mr_base r) + unat (mr_size r) \<le> 2 ^ 63"

definition region_bytes :: "memory_region \<Rightarrow> nat set" where
  "region_bytes r = {unat (mr_base r) ..< unat (mr_base r) + unat (mr_size r)}"

definition coverage :: "memory_region list \<Rightarrow> nat \<Rightarrow> nat" where
  "coverage regions b = length (filter (\<lambda>r. b \<in> region_bytes r) regions)"

lemma coverage_simps [simp]:
  "coverage [] b = 0"
  "coverage (r # rs) b = (if b \<in> region_bytes r then 1 else 0) + coverage rs b"
  "coverage (rs @ rs') b = coverage rs b + coverage rs' b"
  by (simp_all add: coverage_def)

lemma coverage_zero: "coverage regions b = 0 \<longleftrightarrow> (\<forall>r \<in> set regions. b \<notin> region_bytes r)"
  by (auto simp: coverage_def filter_empty_conv)

lemma coverage_update:
  assumes "i < length regions"
  shows "coverage (regions[i := r]) b + (if b \<in> region_bytes (regions ! i) then 1 else 0)
    = coverage regions b + (if b \<in> region_bytes r then 1 else 0)"
  using length_filter_update [OF assms, of "\<lambda>r. b \<in> region_bytes r" r] by (simp add: coverage_def)

lemma mset_swap_remove:
  assumes "i < length xs"
  shows "mset (butlast (xs[i := last xs])) = mset xs - {#xs ! i#}"
proof -
  have ne: "xs \<noteq> []" using assms by auto
  then have last: "last (xs[i := last xs]) = last xs" by (simp add: last_list_update)
  have "mset (butlast ys @ [last ys]) = mset ys" if "ys \<noteq> []" for ys :: "'a list" using that by simp
  from this [of "xs[i := last xs]"] have "add_mset (last xs) (mset (butlast (xs[i := last xs]))) = mset (xs[i := last xs])"
    using ne last by simp
  also have "\<dots> = add_mset (last xs) (mset xs - {#xs ! i#})" using assms by (simp add: mset_update)
  finally show ?thesis by simp
qed

lemma coverage_mset: "coverage regions b = size (filter_mset (\<lambda>r. b \<in> region_bytes r) (mset regions))"
  by (metis coverage_def mset_filter size_mset)

lemma coverage_swap_remove:
  assumes "i < length regions"
  shows "coverage (butlast (regions[i := last regions])) b + (if b \<in> region_bytes (regions ! i) then 1 else 0)
    = coverage regions b"
proof -
  have m: "mset regions = add_mset (regions ! i) (mset (butlast (regions[i := last regions])))"
    using mset_swap_remove [OF assms] assms by simp
  show ?thesis unfolding coverage_mset m by simp
qed

lemma set_swap_remove: "i < length xs \<Longrightarrow> set (butlast (xs[i := last xs])) \<subseteq> set xs"
  by (metis mset_swap_remove in_diffD set_mset_mset subsetI)

lemma region_limit_ok: "region_ok r \<Longrightarrow> unat (region_limit r) = unat (mr_base r) + unat (mr_size r)"
  by (simp add: region_ok_def region_limit_def unat_word_ariths)

text \<open>The pieces of a region outside the range.\<close>

lemma piece_below:
  assumes "region_ok r" "mr_base r \<le> start" "start \<le> region_limit r"
  shows "region_ok (r\<lparr> mr_size := start - mr_base r \<rparr>)"
    "region_bytes (r\<lparr> mr_size := start - mr_base r \<rparr>) = region_bytes r \<inter> {..< unat start}"
proof -
  have "unat (start - mr_base r) = unat start - unat (mr_base r)" using assms(2) by (rule unat_sub)
  then show "region_ok (r\<lparr> mr_size := start - mr_base r \<rparr>)"
      "region_bytes (r\<lparr> mr_size := start - mr_base r \<rparr>) = region_bytes r \<inter> {..< unat start}"
    using assms region_limit_ok [OF assms(1)] by (auto simp: region_ok_def region_bytes_def word_le_nat_alt)
qed

lemma piece_above:
  assumes "region_ok r" "mr_base r \<le> stop" "stop \<le> region_limit r"
  shows "region_ok (region stop (region_limit r - stop))"
    "region_bytes (region stop (region_limit r - stop)) = region_bytes r \<inter> {unat stop ..}"
proof -
  have "unat (region_limit r - stop) = unat (region_limit r) - unat stop" using assms(3) by (rule unat_sub)
  then show "region_ok (region stop (region_limit r - stop))"
      "region_bytes (region stop (region_limit r - stop)) = region_bytes r \<inter> {unat stop ..}"
    using assms region_limit_ok [OF assms(1)] by (auto simp: region_ok_def region_bytes_def region_def word_le_nat_alt)
qed

text \<open>
  \<open>cut_out s e rs rs'\<close>: the sound regions \<open>rs'\<close> hold the bytes of \<open>rs\<close> outside \<open>[s, e)\<close>, as often as \<open>rs\<close> did.
\<close>

definition cut_out :: "u64 \<Rightarrow> u64 \<Rightarrow> memory_region list \<Rightarrow> memory_region list \<Rightarrow> bool" where
  "cut_out s e rs rs' \<longleftrightarrow>
     (\<forall>r \<in> set rs'. region_ok r) \<and> length rs' \<le> length rs + coverage rs (unat s) \<and>
     (\<forall>b. coverage rs' b = (if unat s \<le> b \<and> b < unat e then 0 else coverage rs b))"

definition untouched :: "u64 \<Rightarrow> u64 \<Rightarrow> memory_region \<Rightarrow> bool" where
  "untouched start stop r \<longleftrightarrow> region_bytes r \<inter> {unat start ..< unat stop} = {}"

text \<open>The loop's invariant at \<open>i\<close>, and one iteration's progress from \<open>(i, regions)\<close> to \<open>(j, rs2)\<close>.\<close>

definition loop_inv :: "u64 \<Rightarrow> u64 \<Rightarrow> nat \<Rightarrow> memory_region list \<Rightarrow> bool" where
  "loop_inv start stop i regions \<longleftrightarrow>
     (\<forall>r \<in> set regions. region_ok r) \<and> (\<forall>r \<in> set (take i regions). untouched start stop r)"

definition progress :: "u64 \<Rightarrow> u64 \<Rightarrow> memory_region list \<Rightarrow> nat \<Rightarrow> memory_region list \<Rightarrow> bool" where
  "progress start stop regions j rs2 \<longleftrightarrow>
     loop_inv start stop j rs2 \<and>
     length rs2 + coverage rs2 (unat start) \<le> length regions + coverage regions (unat start) \<and>
     (\<forall>b. b \<notin> {unat start ..< unat stop} \<longrightarrow> coverage rs2 b = coverage regions b)"

lemma progress_cut_out:
  assumes "progress start stop regions j rs2" "cut_out start stop rs2 rs'"
  shows "cut_out start stop regions rs'"
  using assms unfolding cut_out_def progress_def by (auto simp: not_le)

lemma untouched_cut_out: "loop_inv s e (length rs) rs \<Longrightarrow> cut_out s e rs rs"
  by (auto simp: loop_inv_def cut_out_def coverage_zero untouched_def disjoint_iff)

lemma set_take_Suc: "i < length xs \<Longrightarrow> set (take (Suc i) xs) = insert (xs ! i) (set (take i xs))"
  by (simp add: take_Suc_conv_app_nth)

lemma progress_skip:
  assumes "i < length regions" "loop_inv start stop i regions" "untouched start stop (regions ! i)"
  shows "progress start stop regions (Suc i) regions"
  using assms by (auto simp: progress_def loop_inv_def set_take_Suc)

lemma progress_remove:
  assumes i: "i < length regions" and inv: "loop_inv start stop i regions"
    and sub: "region_bytes (regions ! i) \<subseteq> {unat start ..< unat stop}"
  shows "progress start stop regions i (butlast (regions[i := last regions]))"
proof -
  let ?rs = "butlast (regions[i := last regions])"
  have "take i ?rs = take i regions" using i by (simp add: take_butlast)
  then have "loop_inv start stop i ?rs" using inv set_swap_remove [OF i] by (auto simp: loop_inv_def)
  moreover have "length ?rs + coverage ?rs (unat start) \<le> length regions + coverage regions (unat start)"
    using coverage_swap_remove [OF i, of "unat start"] by simp
  moreover have "coverage ?rs b = coverage regions b" if "b \<notin> {unat start ..< unat stop}" for b
  proof -
    have "b \<notin> region_bytes (regions ! i)" using that sub by blast
    then show ?thesis using coverage_swap_remove [OF i, of b] by simp
  qed
  ultimately show ?thesis by (simp add: progress_def)
qed

lemma progress_shrink:
  assumes i: "i < length regions" and inv: "loop_inv start stop i regions" and lt: "unat start < unat stop"
    and r: "region_ok r" "region_bytes r = region_bytes (regions ! i) - {unat start ..< unat stop}"
  shows "progress start stop regions (Suc i) (regions[i := r])"
proof -
  have "loop_inv start stop (Suc i) (regions[i := r])"
    using inv i r set_update_subset_insert [of regions i r] by (auto simp: loop_inv_def set_take_Suc untouched_def)
  moreover have "length (regions[i := r]) + coverage (regions[i := r]) (unat start)
      \<le> length regions + coverage regions (unat start)"
    using coverage_update [OF i, of r "unat start"] r(2) lt by (auto split: if_splits)
  moreover have "coverage (regions[i := r]) b = coverage regions b" if "b \<notin> {unat start ..< unat stop}" for b
    using coverage_update [OF i, of r b] that r(2) by (auto split: if_splits)
  ultimately show ?thesis by (simp add: progress_def)
qed

lemma progress_split:
  assumes i: "i < length regions" and inv: "loop_inv start stop i regions" and lt: "unat start < unat stop"
    and ok: "region_ok r" "region_ok r2" and start: "unat start \<in> region_bytes (regions ! i)"
    and bytes: "region_bytes r \<inter> region_bytes r2 = {}"
      "region_bytes r \<union> region_bytes r2 = region_bytes (regions ! i) - {unat start ..< unat stop}"
  shows "progress start stop regions (Suc i) ((regions @ [r2])[i := r])"
proof -
  let ?rs = "(regions @ [r2])[i := r]"
  have e: "?rs = regions[i := r] @ [r2]" using i by (simp add: list_update_append)
  have "loop_inv start stop (Suc i) ?rs"
  proof -
    have "untouched start stop r" using bytes(2) by (auto simp: untouched_def)
    then show ?thesis using inv i ok set_update_subset_insert [of regions i r]
      unfolding e by (auto simp: loop_inv_def set_take_Suc)
  qed
  moreover have out: "unat start \<notin> region_bytes r" "unat start \<notin> region_bytes r2" using bytes(2) lt by auto
  then have "length ?rs + coverage ?rs (unat start) \<le> length regions + coverage regions (unat start)"
    using coverage_update [OF i, of r "unat start"] start unfolding e by simp
  moreover have "coverage ?rs b = coverage regions b" if "b \<notin> {unat start ..< unat stop}" for b
    using coverage_update [OF i, of r b] that bytes unfolding e by (auto split: if_splits)
  ultimately show ?thesis by (simp add: progress_def)
qed

lemma reserve_loop_step:
  assumes i: "i < length regions" and inv: "loop_inv start stop i regions" and lt: "start < stop"
    and room: "length regions + coverage regions (unat start) \<le> MAX_MEMORY_REGIONS"
  shows "\<exists>j rs2. reserve_loop start stop i regions = reserve_loop start stop j rs2
    \<and> progress start stop regions j rs2 \<and> reserve_measure start stop j rs2 < reserve_measure start stop i regions"
proof -
  let ?r = "regions ! i"
  have ok: "region_ok ?r" using inv i by (simp add: loop_inv_def)
  note lim = region_limit_ok [OF ok]
  have lt': "unat start < unat stop" using lt by (simp add: word_less_nat_alt)
  note unfold = reserve_loop.simps [of start stop i regions, unfolded Let_def]
  have bytes: "region_bytes ?r = {unat (mr_base ?r) ..< unat (region_limit ?r)}" by (simp add: region_bytes_def lim)
  consider (apart) "stop \<le> mr_base ?r \<or> region_limit ?r \<le> start"
    | (inside) "\<not> (stop \<le> mr_base ?r \<or> region_limit ?r \<le> start)" "start \<le> mr_base ?r" "region_limit ?r \<le> stop"
    | (above) "\<not> (stop \<le> mr_base ?r \<or> region_limit ?r \<le> start)" "start \<le> mr_base ?r" "\<not> region_limit ?r \<le> stop"
    | (below) "\<not> (stop \<le> mr_base ?r \<or> region_limit ?r \<le> start)" "\<not> start \<le> mr_base ?r" "region_limit ?r \<le> stop"
    | (split) "\<not> (stop \<le> mr_base ?r \<or> region_limit ?r \<le> start)" "\<not> start \<le> mr_base ?r" "\<not> region_limit ?r \<le> stop"
    by blast
  then show ?thesis
  proof cases
    case apart
    then have "untouched start stop ?r" by (auto simp: untouched_def bytes word_le_nat_alt)
    from progress_skip [OF i inv this] show ?thesis
      using apart i reserve_measure_next(2) [OF i] by (intro exI [of _ "Suc i"] exI [of _ regions]) (simp add: unfold)
  next
    case inside
    then have "region_bytes ?r \<subseteq> {unat start ..< unat stop}" by (auto simp: bytes word_le_nat_alt)
    from progress_remove [OF i inv this] show ?thesis
      using inside i reserve_measure_remove [OF i]
      by (intro exI [of _ i] exI [of _ "butlast (regions[i := last regions])"]) (simp add: unfold)
  next
    case above
    let ?r' = "region stop (region_limit ?r - stop)"
    have "unat start \<le> unat (mr_base ?r)" using above by (simp add: word_le_nat_alt)
    then have "region_bytes ?r \<inter> {unat stop ..} = region_bytes ?r - {unat start ..< unat stop}"
      unfolding bytes by auto
    with piece_above [OF ok, of stop] above
    have "region_ok ?r'" "region_bytes ?r' = region_bytes ?r - {unat start ..< unat stop}" by (simp_all add: not_le less_imp_le)
    from progress_shrink [OF i inv lt' this] show ?thesis
      using above i reserve_measure_next(1) [OF i]
      by (intro exI [of _ "Suc i"] exI [of _ "regions[i := ?r']"]) (simp add: unfold)
  next
    case below
    let ?r' = "?r\<lparr> mr_size := start - mr_base ?r \<rparr>"
    have "unat (region_limit ?r) \<le> unat stop" using below by (simp add: word_le_nat_alt)
    then have "region_bytes ?r \<inter> {..< unat start} = region_bytes ?r - {unat start ..< unat stop}"
      unfolding bytes by auto
    with piece_below [OF ok, of start] below
    have "region_ok ?r'" "region_bytes ?r' = region_bytes ?r - {unat start ..< unat stop}" by (simp_all add: not_le less_imp_le)
    from progress_shrink [OF i inv lt' this] show ?thesis
      using below i reserve_measure_next(1) [OF i]
      by (intro exI [of _ "Suc i"] exI [of _ "regions[i := ?r']"]) (simp add: unfold)
  next
    case split
    let ?r' = "?r\<lparr> mr_size := start - mr_base ?r \<rparr>" and ?r2 = "region stop (region_limit ?r - stop)"
    note pieces = piece_below [OF ok, of start] piece_above [OF ok, of stop]
    have ok2: "region_ok ?r'" "region_ok ?r2" "region_bytes ?r' = region_bytes ?r \<inter> {..< unat start}"
        "region_bytes ?r2 = region_bytes ?r \<inter> {unat stop ..}"
      using pieces split lt by (simp_all add: not_le less_imp_le)
    have start: "unat start \<in> region_bytes ?r" using split by (auto simp: not_le bytes word_le_nat_alt word_less_nat_alt)
    have "0 < coverage regions (unat start)" using start i coverage_zero [of regions "unat start"] nth_mem [OF i] by blast
    then have full: "length regions < MAX_MEMORY_REGIONS" using room by simp
    have "region_bytes ?r' \<inter> region_bytes ?r2 = {}"
        "region_bytes ?r' \<union> region_bytes ?r2 = region_bytes ?r - {unat start ..< unat stop}"
      using lt' unfolding ok2 by auto
    note progress = progress_split [OF i inv lt' ok2(1,2) start this]
    have "reserve_loop start stop i regions = reserve_loop start stop (Suc i) ((regions @ [?r2])[i := ?r'])"
      using split i full by (simp add: unfold)
    moreover have "splits start stop ?r" using split by (simp add: splits_def apart_def not_le)
    ultimately show ?thesis using progress reserve_measure_split [OF i] by blast
  qed
qed

lemma reserve_loop_exact:
  assumes "loop_inv start stop i regions" "start < stop"
    and "length regions + coverage regions (unat start) \<le> MAX_MEMORY_REGIONS"
  shows "\<exists>regions'. reserve_loop start stop i regions = Inr regions' \<and> cut_out start stop regions regions'"
  using assms
proof (induction "reserve_measure start stop i regions" arbitrary: i regions rule: less_induct)
  case less
  show ?case
  proof (cases "i < length regions")
    case True
    from reserve_loop_step [OF True less.prems] obtain j rs2 where
      eq: "reserve_loop start stop i regions = reserve_loop start stop j rs2"
      and progress: "progress start stop regions j rs2"
      and smaller: "reserve_measure start stop j rs2 < reserve_measure start stop i regions" by blast
    have "loop_inv start stop j rs2" "length rs2 + coverage rs2 (unat start) \<le> MAX_MEMORY_REGIONS"
      using progress less.prems(3) by (auto simp: progress_def)
    from less.hyps [OF smaller this(1) less.prems(2) this(2)] show ?thesis
      using eq progress_cut_out [OF progress] by auto
  next
    case False
    then have "loop_inv start stop (length regions) regions" using less.prems(1) by (simp add: loop_inv_def)
    then show ?thesis using False by (auto simp: reserve_loop.simps [of _ _ i] intro: untouched_cut_out)
  qed
qed

definition separate :: "memory_region list \<Rightarrow> bool" where
  "separate regions \<longleftrightarrow> (\<forall>r \<in> set regions. region_ok r) \<and> (\<forall>b. coverage regions b \<le> 1)"

definition map_bytes :: "memory_region list \<Rightarrow> nat set" where
  "map_bytes regions = (\<Union>r \<in> set regions. region_bytes r)"

lemma map_bytes_coverage: "b \<in> map_bytes regions \<longleftrightarrow> 0 < coverage regions b"
  using coverage_zero [of regions b] by (auto simp: map_bytes_def)

text \<open>The pages the range \<open>[start, stop)\<close> touches.\<close>

definition page_span :: "u64 \<Rightarrow> u64 \<Rightarrow> nat set" where
  "page_span start stop = (if start < stop then {unat (align_down start PAGE_USIZE) ..< unat (align_up stop PAGE_USIZE)} else {})"

text \<open>
  Reserving a range cuts exactly the pages it touches out of the usable memory: with pairwise
  disjoint regions, a free slot in the table and a range that can be rounded up, \<open>reserve_range\<close> returns, never
  fails its assertion, leaves pairwise disjoint regions whose bytes are the old ones without
  the range's pages, and adds at most one region.
\<close>

theorem reserve_range_exact:
  assumes "separate regions" "length regions < MAX_MEMORY_REGIONS" "unat stop + 4096 \<le> 2 ^ 64"
  shows "\<exists>regions'. reserve_range start stop regions = Inr regions' \<and> separate regions'
    \<and> map_bytes regions' = map_bytes regions - page_span start stop \<and> length regions' \<le> length regions + 1"
proof (cases "start < stop")
  case False
  then show ?thesis using assms(1) by (simp add: reserve_range_def page_span_def not_less)
next
  case True
  have page: "PAGE_USIZE = 2 ^ 12" by (simp add: PAGE_USIZE_def)
  let ?s = "align_down start PAGE_USIZE" and ?e = "align_up stop PAGE_USIZE"
  have "unat ?s \<le> unat start" "unat stop \<le> unat ?e"
    using align_down_bounds(2) [of 12 start] align_up_bounds(2) [of 12 stop] assms(3) unfolding page by simp_all
  then have lt: "?s < ?e" using True by (simp add: word_less_nat_alt)
  have inv: "loop_inv ?s ?e 0 regions" using assms(1) by (simp add: loop_inv_def separate_def)
  have c: "coverage regions (unat ?s) \<le> 1" using assms(1) by (simp add: separate_def)
  then have room: "length regions + coverage regions (unat ?s) \<le> MAX_MEMORY_REGIONS" using assms(2) by linarith
  obtain regions' where r: "reserve_loop ?s ?e 0 regions = Inr regions'" "cut_out ?s ?e regions regions'"
    using reserve_loop_exact [OF inv lt room] by blast
  have "separate regions'" using r(2) assms(1) by (auto simp: separate_def cut_out_def)
  moreover have "map_bytes regions' = map_bytes regions - page_span start stop"
    using r(2) True unfolding set_eq_iff Diff_iff map_bytes_coverage cut_out_def page_span_def by auto
  moreover have "length regions' \<le> length regions + 1" using r(2) c unfolding cut_out_def by linarith
  ultimately show ?thesis using r(1) leD [of stop start] True by (auto simp: reserve_range_def)
qed

theorem reserve_range_exact_witness:
  "\<exists>rs. reserve_range 0x100010 0x101000 [region 0x100000 0x8000] = Inr rs \<and> separate rs
     \<and> map_bytes rs = {0x101000 ..< 0x108000}"
proof -
  have "separate [region 0x100000 0x8000]" "length [region 0x100000 0x8000] < MAX_MEMORY_REGIONS"
      "map_bytes [region 0x100000 0x8000] = {0x100000 ..< 0x108000}"
      "page_span 0x100010 0x101000 = {0x100000 ..< 0x101000}"
    by (simp_all add: separate_def region_ok_def region_def MAX_MEMORY_REGIONS_def map_bytes_def region_bytes_def
        page_span_def align_up_def align_down_def PAGE_USIZE_def)
  with reserve_range_exact [of "[region 0x100000 0x8000]" "0x101000" "0x100010"] show ?thesis by force
qed

end
