(* ===== verification/Memory.thy ===== *)
theory Memory
  imports Bits
begin

text \<open>
  Byte-addressed memory as the readers see it: a total function from 64-bit addresses to
  bytes, passed explicitly to every operation that dereferences a pointer. Pointer arithmetic
  is word arithmetic. Loads of packed struct fields are little-endian. \<open>view\<close> is the pair of
  a data pointer and a size that \<^verbatim>\<open>string\<close> (\<^verbatim>\<open>kstd/string.hh\<close>) and
  \<^verbatim>\<open>Array_View<const u8>\<close> (\<^verbatim>\<open>kstd/array.hh\<close>) both are.
\<close>

unbundle bit_operations_syntax

type_synonym memory = "u64 \<Rightarrow> u8"

definition load16 :: "memory \<Rightarrow> u64 \<Rightarrow> u16" where
  "load16 m a = foldl (\<lambda>acc i. acc OR push_bit (i * 8) (ucast (m (a + of_nat i)))) 0 [0..<2]"

definition load32 :: "memory \<Rightarrow> u64 \<Rightarrow> u32" where
  "load32 m a = foldl (\<lambda>acc i. acc OR push_bit (i * 8) (ucast (m (a + of_nat i)))) 0 [0..<4]"

definition load64 :: "memory \<Rightarrow> u64 \<Rightarrow> u64" where
  "load64 m a = foldl (\<lambda>acc i. acc OR push_bit (i * 8) (ucast (m (a + of_nat i)))) 0 [0..<8]"

text \<open>The bytes of a buffer, and the memory that holds one.\<close>

definition bytes_at :: "memory \<Rightarrow> u64 \<Rightarrow> u8 list \<Rightarrow> bool" where
  "bytes_at m a bs \<longleftrightarrow> (\<forall>i < length bs. m (a + of_nat i) = bs ! i)"

definition memory_of :: "u64 \<Rightarrow> u8 list \<Rightarrow> memory" where
  "memory_of base bs = (\<lambda>a. if unat (a - base) < length bs then bs ! unat (a - base) else 0)"

lemma bytes_at_Nil [simp]: "bytes_at m a []"
  by (simp add: bytes_at_def)

lemma bytes_at_Cons [simp]: "bytes_at m a (b # bs) \<longleftrightarrow> m a = b \<and> bytes_at m (a + 1) bs"
  by (simp add: bytes_at_def All_less_Suc2 ac_simps)

lemma bytes_at_append: "bytes_at m a (bs @ cs) \<longleftrightarrow> bytes_at m a bs \<and> bytes_at m (a + of_nat (length bs)) cs"
  by (induction bs arbitrary: a) (auto simp: algebra_simps)

lemma bytes_at_memory_of:
  assumes "length bs \<le> 2 ^ 64"
  shows "bytes_at (memory_of base bs) base bs"
  using assms unfolding bytes_at_def memory_of_def
  by (auto simp: unsigned_of_nat take_bit_nat_eq_self)

text \<open>The little-endian bytes of a word.\<close>

definition le_bytes :: "nat \<Rightarrow> 'a::len word \<Rightarrow> u8 list" where
  "le_bytes n w = map (\<lambda>i. ucast (drop_bit (8 * i) w)) [0..<n]"

lemma length_le_bytes [simp]: "length (le_bytes n w) = n"
  by (simp add: le_bytes_def)

lemma fold_le_bytes:
  fixes w :: "'a::len word"
  assumes "bytes_at m a (le_bytes n w)"
  shows "foldl (\<lambda>acc i. acc OR push_bit (i * 8) (ucast (m (a + of_nat i)))) 0 [0..<n] = take_bit (8 * n) w"
  using assms
proof (induction n)
  case 0
  show ?case by simp
next
  case (Suc n)
  have "bytes_at m a (le_bytes n w)" "m (a + of_nat n) = ucast (drop_bit (8 * n) w)"
    using Suc.prems by (auto simp: le_bytes_def bytes_at_append)
  with Suc.IH show ?case
    by (simp, intro bit_word_eqI)
      (auto simp: bit_simps linorder_not_less ac_simps dest: bit_imp_le_length)
qed

lemma load16_le: "bytes_at m a (le_bytes 2 w) \<Longrightarrow> load16 m a = w"
  using fold_le_bytes [of m a 2 w] by (simp add: load16_def take_bit_word_eq_self)

lemma load32_le: "bytes_at m a (le_bytes 4 w) \<Longrightarrow> load32 m a = w"
  using fold_le_bytes [of m a 4 w] by (simp add: load32_def take_bit_word_eq_self)

lemma load64_le: "bytes_at m a (le_bytes 8 w) \<Longrightarrow> load64 m a = w"
  using fold_le_bytes [of m a 8 w] by (simp add: load64_def take_bit_word_eq_self)

subsection \<open>Views and C strings\<close>

record view =
  view_data :: u64
  view_size :: int

definition view_bytes :: "memory \<Rightarrow> view \<Rightarrow> u8 list" where
  "view_bytes m v = map (\<lambda>i. m (view_data v + of_nat i)) [0..<nat (view_size v)]"

definition empty_view :: view where
  "empty_view = \<lparr>view_data = 0, view_size = 0\<rparr>"

text \<open>\<open>kstd_strlen\<close> runs until a zero byte: \<open>None\<close> when there is none.\<close>

partial_function (option) strlen_loop :: "memory \<Rightarrow> u64 \<Rightarrow> nat \<Rightarrow> nat option" where
  "strlen_loop m str len = (if m (str + of_nat len) \<noteq> 0 then strlen_loop m str (len + 1) else Some len)"

definition kstd_strlen :: "memory \<Rightarrow> u64 \<Rightarrow> nat option" where
  "kstd_strlen m str = strlen_loop m str 0"

lemma strlen_loop_returns:
  assumes "\<forall>i < n. len \<le> i \<longrightarrow> m (str + of_nat i) \<noteq> 0" "m (str + of_nat n) = 0" "len \<le> n"
  shows "strlen_loop m str len = Some n"
  using assms
proof (induction "n - len" arbitrary: len)
  case 0
  then show ?case by (simp add: strlen_loop.simps)
next
  case (Suc k)
  then have "len < n" by simp
  then have "strlen_loop m str len = strlen_loop m str (len + 1)"
    using Suc.prems(1) by (simp add: strlen_loop.simps [of m str len])
  also have "\<dots> = Some n" using Suc by (intro Suc.hyps(1)) auto
  finally show ?case .
qed

lemma kstd_strlen_returns:
  assumes "bytes_at m str (bs @ [0])" "0 \<notin> set bs"
  shows "kstd_strlen m str = Some (length bs)"
  unfolding kstd_strlen_def using assms
  by (intro strlen_loop_returns) (auto simp: bytes_at_append bytes_at_def in_set_conv_nth nth_append)

end
