(* ===== verification/Bump.thy ===== *)
theory Bump
  imports Allocator
begin

text \<open>
  The interface that the bump allocators of \<^verbatim>\<open>kstd/allocator.hh\<close> share (arena and temporary
  storage): nothing is ever given back, an allocation is taken from unused addresses, and the
  last block can grow in place. A client program of \<open>alloc\<close> and \<open>realloc\<close> calls keeps its
  blocks in numbered slots.
\<close>

section \<open>Pointer arithmetic of a bump\<close>

lemma unat_word_of_int: "0 \<le> i \<Longrightarrow> i < 2 ^ 64 \<Longrightarrow> unat (word_of_int i :: u64) = nat i"
  by (simp add: unat_eq_nat_uint uint_word_of_int_eq take_bit_int_eq_self)

lemma word_add_no_wrap_iff:
  fixes a b :: u64
  shows "\<not> a + b < a \<longleftrightarrow> unat a + unat b < 2 ^ 64"
proof
  assume n: "\<not> a + b < a"
  show "unat a + unat b < 2 ^ 64"
  proof (rule ccontr)
    assume "\<not> ?thesis"
    then have le: "2 ^ 64 \<le> unat a + unat b" by simp
    have lt: "unat a < 2 ^ 64" "unat b < 2 ^ 64" using unsigned_less [of a] unsigned_less [of b] by simp_all
    have "unat (a + b) = (unat a + unat b - 2 ^ 64) mod 2 ^ 64"
      using le by (simp add: unat_word_ariths le_mod_geq)
    also have "\<dots> = unat a + unat b - 2 ^ 64" using lt by (intro mod_less) linarith
    finally have "unat (a + b) < unat a" using lt le by linarith
    then show False using n by (simp add: word_less_nat_alt)
  qed
next
  assume "unat a + unat b < 2 ^ 64"
  then have "unat (a + b) = unat a + unat b" by (intro unat_add_no_wrap) simp
  then show "\<not> a + b < a" by (simp add: word_less_nat_alt)
qed

text \<open>
  The bump: \<open>current\<close> is rounded up to the alignment and the size added; the two tests the code makes
  (\<open>next\<close> does not wrap, \<open>next\<close> is within the limit) leave exactly the sound case.
\<close>

lemma bump_next:
  fixes current limit :: u64
  assumes bounds: "unat current \<le> 2 ^ 63" and sz: "0 \<le> sz" "sz < 2 ^ 61"
    and al: "is_power_of_two alignment" "alignment < 2 ^ 61"
  defines "aligned \<equiv> align_up current (word_of_int alignment)"
  defines "next_point \<equiv> aligned + word_of_int sz"
  shows "alignment dvd int (unat aligned)" "unat current \<le> unat aligned"
    "int (unat aligned) < int (unat current) + alignment"
    "unat next_point = unat aligned + nat sz"
    "\<not> next_point < aligned"
proof -
  obtain k where k: "alignment = 2 ^ k" using al(1) by (auto simp: is_power_of_two_iff)
  have k61: "k < 61" using al(2) k power_less_imp_less_exp [of "2::int" k 61] by simp
  have alw: "word_of_int alignment = (2::u64) ^ k" using k by (simp add: word_of_int_2p)
  have p: "(2::nat) ^ k \<le> 2 ^ 60" using k61 by (intro power_increasing) auto
  then have fits: "unat current + 2 ^ k \<le> 2 ^ 64" using bounds by simp
  have k64: "k < 64" using k61 by simp
  note a = align_up_bounds [OF k64 fits, folded alw, folded aligned_def]
  show "alignment dvd int (unat aligned)" using a(1) k by (metis int_dvd_int_iff of_nat_numeral of_nat_power)
  show "unat current \<le> unat aligned" by (rule a(2))
  show "int (unat aligned) < int (unat current) + alignment"
  proof -
    have "int (unat aligned) < int (unat current + 2 ^ k)" using a(3) by (simp only: of_nat_less_iff)
    then show ?thesis using k by (simp only: of_nat_add of_nat_power of_nat_numeral)
  qed
  have s: "unat (word_of_int sz :: u64) = nat sz" using sz by (intro unat_word_of_int) simp_all
  have "unat aligned + nat sz < 2 ^ 64"
    using a(3) bounds p sz by simp
  then show "unat next_point = unat aligned + nat sz" "\<not> next_point < aligned"
    unfolding next_point_def word_add_no_wrap_iff using s by (simp_all add: unat_add_no_wrap)
qed

section \<open>Client programs\<close>

datatype bump_op = Bump_alloc int int | Bump_realloc nat int int

type_synonym slot = "(u64 \<times> int) option"

definition slot_range :: "slot \<Rightarrow> nat set" where
  "slot_range b = (case b of None \<Rightarrow> {} | Some (p, n) \<Rightarrow> {unat p ..< unat p + nat n})"

lemma slot_range_simps [simp]:
  "slot_range None = {}" "slot_range (Some (p, n)) = {unat p ..< unat p + nat n}"
  by (simp_all add: slot_range_def)

text \<open>
  \<open>Bump_realloc i n a\<close> resizes the block in slot \<open>i\<close>: to size 0 it drops the block, on failure the
  old block stays. The copying of bytes does not touch the allocator's state.
\<close>

fun run_bump :: "'s allocator_proc \<Rightarrow> bump_op list \<Rightarrow> slot list \<Rightarrow> 's \<Rightarrow> (slot list \<times> 's) outcome" where
  "run_bump proc [] bs s = Inr (bs, s)"
| "run_bump proc (Bump_alloc sz alignment # ops) bs s =
     obind (alloc proc sz alignment s) (\<lambda>(r, s).
       run_bump proc ops (if res_memory r = 0 then bs else bs @ [Some (res_memory r, sz)]) s)"
| "run_bump proc (Bump_realloc i sz alignment # ops) bs s =
     (case if i < List.length bs then bs ! i else None of
        None \<Rightarrow> run_bump proc ops bs s
      | Some (p, n) \<Rightarrow>
          obind (realloc (\<lambda>d f k s. s) proc p n sz alignment s) (\<lambda>(r, s).
            run_bump proc ops
              (if sz = 0 then bs[i := None]
               else if res_memory r = 0 then bs else bs[i := Some (res_memory r, sz)]) s))"

fun bump_op_ok :: "bump_op \<Rightarrow> bool" where
  "bump_op_ok (Bump_alloc sz alignment) \<longleftrightarrow> sz < 2 ^ 61 \<and> alignment < 2 ^ 61"
| "bump_op_ok (Bump_realloc i sz alignment) \<longleftrightarrow> 0 \<le> sz \<and> sz < 2 ^ 61 \<and> is_power_of_two alignment \<and> alignment < 2 ^ 61"

text \<open>The blocks in the slots lie in the addresses \<open>U\<close> and are pairwise disjoint.\<close>

definition held :: "nat set \<Rightarrow> slot list \<Rightarrow> bool" where
  "held U bs \<longleftrightarrow> (\<forall>b \<in> set bs. slot_range b \<subseteq> U
       \<and> (\<forall>p n. b = Some (p, n) \<longrightarrow> p \<noteq> 0 \<and> 0 < n \<and> n < 2 ^ 61))
     \<and> (\<forall>i < List.length bs. \<forall>j < List.length bs. i \<noteq> j \<longrightarrow> slot_range (bs ! i) \<inter> slot_range (bs ! j) = {})"

lemma held_Nil [simp]: "held U []"
  by (simp add: held_def)

lemma held_mono:
  assumes "held U bs" "U \<subseteq> U'" shows "held U' bs"
  using assms unfolding held_def by (meson order_trans)

lemma held_append:
  assumes h: "held U bs" and u: "U \<subseteq> U'" and new: "slot_range (Some (p, n)) \<subseteq> U' - U"
    and b: "p \<noteq> 0" "0 < n" "n < 2 ^ 61"
  shows "held U' (bs @ [Some (p, n)])"
proof -
  have "slot_range (bs ! i) \<inter> slot_range (Some (p, n)) = {}" if "i < List.length bs" for i
    using h new that unfolding held_def by (meson Diff_disjoint disjoint_iff nth_mem subsetD DiffD2)
  then show ?thesis
    using held_mono [OF h u] b new unfolding held_def
    by (auto simp: nth_append less_Suc_eq Int_commute simp del: slot_range_simps)
qed

lemma held_update:
  assumes h: "held U bs" and u: "U \<subseteq> U'" and i: "i < List.length bs"
    and new: "slot_range b \<subseteq> slot_range (bs ! i) \<union> (U' - U)"
    and b: "\<forall>p n. b = Some (p, n) \<longrightarrow> p \<noteq> 0 \<and> 0 < n \<and> n < 2 ^ 61"
  shows "held U' (bs[i := b])"
proof -
  have sub: "slot_range (bs ! j) \<subseteq> U" if "j < List.length bs" for j
    using h that unfolding held_def by (meson nth_mem)
  have dis: "slot_range (bs ! j) \<inter> slot_range b = {}" if "j < List.length bs" "j \<noteq> i" for j
  proof -
    have "slot_range (bs ! j) \<inter> slot_range (bs ! i) = {}" using h that i unfolding held_def by blast
    then show ?thesis using new sub [OF that(1)] by blast
  qed
  have "slot_range b \<subseteq> U'" using new sub [OF i] u by blast
  then have "\<forall>c \<in> set (bs[i := b]). slot_range c \<subseteq> U'
      \<and> (\<forall>p n. c = Some (p, n) \<longrightarrow> p \<noteq> 0 \<and> 0 < n \<and> n < 2 ^ 61)"
  proof -
    have "set (bs[i := b]) \<subseteq> insert b (set bs)" by (rule set_update_subset_insert)
    then show ?thesis using held_mono [OF h u] b \<open>slot_range b \<subseteq> U'\<close> unfolding held_def by blast
  qed
  moreover have "slot_range (bs[i := b] ! j) \<inter> slot_range (bs[i := b] ! k) = {}"
    if "j < List.length bs" "k < List.length bs" "j \<noteq> k" for j k
  proof -
    have "j = i \<or> k = i \<or> slot_range (bs ! j) \<inter> slot_range (bs ! k) = {}"
      using h that unfolding held_def by blast
    then show ?thesis using dis [of j] dis [of k] that by (cases "j = i"; cases "k = i") (auto simp: Int_commute)
  qed
  ultimately show ?thesis unfolding held_def by simp
qed

section \<open>The interface\<close>

locale bump_allocator =
  fixes proc :: "'s allocator_proc"
    and inv :: "'s \<Rightarrow> bool"
    and used :: "'s \<Rightarrow> nat set"
  assumes bump: "inv s \<Longrightarrow> 0 \<le> sz \<Longrightarrow> sz < 2 ^ 61 \<Longrightarrow> alignment < 2 ^ 61 \<Longrightarrow> is_power_of_two alignment \<Longrightarrow>
      \<exists>r s'. proc ALLOCATE sz alignment 0 0 out s = Inr (r, out, s') \<and> inv s' \<and> used s \<subseteq> used s'
        \<and> (res_memory r \<noteq> 0 \<longrightarrow> res_error r = Error_NONE \<and> 0 < sz \<and> alignment dvd int (unat (res_memory r))
             \<and> {unat (res_memory r) ..< unat (res_memory r) + nat sz} \<subseteq> used s' - used s)"
    and grow: "inv s \<Longrightarrow> p \<noteq> 0 \<Longrightarrow> 0 < old_size \<Longrightarrow> old_size < 2 ^ 61 \<Longrightarrow>
      {unat p ..< unat p + nat old_size} \<subseteq> used s \<Longrightarrow>
      0 \<le> sz \<Longrightarrow> sz < 2 ^ 61 \<Longrightarrow> alignment < 2 ^ 61 \<Longrightarrow> is_power_of_two alignment \<Longrightarrow>
      \<exists>r s'. proc RESIZE sz alignment old_size p out s = Inr (r, out, s') \<and> inv s' \<and> used s \<subseteq> used s'
        \<and> (res_error r \<noteq> Error_NONE \<longrightarrow> s' = s \<and> res_memory r = 0)
        \<and> (res_error r = Error_NONE \<longrightarrow> res_memory r = (if sz = 0 then 0 else p)
             \<and> alignment dvd int (unat p)
             \<and> {unat p + nat old_size ..< unat p + nat sz} \<subseteq> used s' - used s)"
    and bump_features: "\<exists>features. proc FEATURES 0 0 0 1 no_out s
      = Inr (result 0 Error_NONE, no_out\<lparr> out_features := features \<rparr>, s)
        \<and> \<not> has_flag features [Feature_FREE]"
begin

text \<open>The helper \<open>alloc\<close>, with the checks it makes before it calls the allocator.\<close>

lemma alloc_bump:
  assumes inv: "inv s" and sz: "sz < 2 ^ 61" "alignment < 2 ^ 61"
  shows "\<exists>r s'. alloc proc sz alignment s = Inr (r, s') \<and> inv s' \<and> used s \<subseteq> used s'
     \<and> (res_memory r \<noteq> 0 \<longrightarrow> res_error r = Error_NONE \<and> 0 < sz \<and> alignment dvd int (unat (res_memory r))
          \<and> {unat (res_memory r) ..< unat (res_memory r) + nat sz} \<subseteq> used s' - used s)"
proof (cases "sz < 0 \<or> \<not> is_power_of_two alignment")
  case True
  then show ?thesis using inv by (auto simp: alloc_def)
next
  case False
  then show ?thesis using bump [OF inv _ sz, of no_out] by (fastforce simp: alloc_def call_allocator_def)
qed

text \<open>
  \<open>realloc\<close> on a block the client holds: the result is the same block, grown into unused addresses
  or cut, or a new block in unused addresses, or a failure that changes nothing the client holds.
\<close>

lemma realloc_bump:
  assumes inv: "inv s" and p: "p \<noteq> 0" "0 < n" "n < 2 ^ 61" "{unat p ..< unat p + nat n} \<subseteq> used s"
    and sz: "0 \<le> sz" "sz < 2 ^ 61" "alignment < 2 ^ 61" "is_power_of_two alignment"
  shows "\<exists>r s'. realloc (\<lambda>d f k s. s) proc p n sz alignment s = Inr (r, s') \<and> inv s' \<and> used s \<subseteq> used s'
     \<and> (res_memory r \<noteq> 0 \<longrightarrow> 0 < sz \<and>
          {unat (res_memory r) ..< unat (res_memory r) + nat sz}
            \<subseteq> {unat p ..< unat p + nat n} \<union> (used s' - used s))"
proof -
  obtain r s' where r: "proc RESIZE sz alignment n p no_out s = Inr (r, no_out, s')" "inv s'" "used s \<subseteq> used s'"
      "res_error r \<noteq> Error_NONE \<Longrightarrow> s' = s \<and> res_memory r = 0"
      "res_error r = Error_NONE \<Longrightarrow> res_memory r = (if sz = 0 then 0 else p)
          \<and> {unat p + nat n ..< unat p + nat sz} \<subseteq> used s' - used s"
    using grow [OF inv p sz, of no_out] by blast
  have al: "0 \<le> alignment" using sz(4) by (simp add: is_power_of_two_def)
  show ?thesis
  proof (cases "res_error r = MODE_NOT_IMPLEMENTED")
    case False
    then have run: "realloc (\<lambda>d f k s. s) proc p n sz alignment s = Inr (r, s')"
      using r(1) p sz al by (simp add: realloc_def call_allocator_def)
    have "{unat (res_memory r) ..< unat (res_memory r) + nat sz}
            \<subseteq> {unat p ..< unat p + nat n} \<union> (used s' - used s) \<and> 0 < sz" if "res_memory r \<noteq> 0"
    proof -
      have e: "res_error r = Error_NONE" using that r(4) by blast
      then have "res_memory r = p" "0 < sz" using r(5) that sz(1) by (auto split: if_splits)
      moreover have "{unat p ..< unat p + nat sz}
          \<subseteq> {unat p ..< unat p + nat n} \<union> {unat p + nat n ..< unat p + nat sz}" by auto
      ultimately show ?thesis using r(5) [OF e] by blast
    qed
    then show ?thesis using run r(2,3) by blast
  next
    case True
    then have s': "s' = s" using r(4) by simp
    obtain features where f: "get_features proc s = Inr (features, s)" "\<not> has_flag features [Feature_FREE]"
      using bump_features [of s] by (auto simp: get_features_def)
    obtain r2 s2 where a: "alloc proc sz alignment s = Inr (r2, s2)" "inv s2" "used s \<subseteq> used s2"
        "res_memory r2 \<noteq> 0 \<Longrightarrow> 0 < sz \<and> {unat (res_memory r2) ..< unat (res_memory r2) + nat sz} \<subseteq> used s2 - used s"
      using alloc_bump [OF inv sz(2,3)] by blast
    consider "sz = 0" | "0 < sz" "sz \<le> n" "has_flag features [Feature_RESIZE_SHRINK_NO_OP]"
      | "0 < sz" "\<not> (sz \<le> n \<and> has_flag features [Feature_RESIZE_SHRINK_NO_OP])"
      using sz(1) by linarith
    then show ?thesis
    proof cases
      case 1
      then show ?thesis
        using True r(1,4) s' p sz al f inv by (simp add: realloc_def call_allocator_def Let_def)
    next
      case 2
      then have "realloc (\<lambda>d f k s. s) proc p n sz alignment s = Inr (result p Error_NONE, s)"
        using True r(1) s' p sz al f by (simp add: realloc_def call_allocator_def Let_def)
      moreover have "{unat p ..< unat p + nat sz} \<subseteq> {unat p ..< unat p + nat n}" using 2 by auto
      ultimately show ?thesis using inv 2 by auto
    next
      case 3
      then have "realloc (\<lambda>d f k s. s) proc p n sz alignment s = Inr (r2, s2)"
        using True r(1) s' p sz al f a(1) by (auto simp: realloc_def call_allocator_def Let_def)
      then show ?thesis using a by blast
    qed
  qed
qed

lemma run_bump_ok:
  "inv s \<Longrightarrow> held (used s) bs \<Longrightarrow> \<forall>op \<in> set ops. bump_op_ok op \<Longrightarrow>
   \<exists>bs' s'. run_bump proc ops bs s = Inr (bs', s') \<and> inv s' \<and> used s \<subseteq> used s' \<and> held (used s') bs'"
proof (induction ops arbitrary: bs s)
  case (Cons op ops)
  have ops: "\<forall>op \<in> set ops. bump_op_ok op" using Cons.prems(3) by simp
  show ?case
  proof (cases op)
    case (Bump_alloc sz alignment)
    then have "sz < 2 ^ 61" "alignment < 2 ^ 61" using Cons.prems(3) by auto
    from alloc_bump [OF Cons.prems(1) this] obtain r s' where
      r: "alloc proc sz alignment s = Inr (r, s')" "inv s'" "used s \<subseteq> used s'"
      "res_memory r \<noteq> 0 \<Longrightarrow> 0 < sz \<and> {unat (res_memory r) ..< unat (res_memory r) + nat sz} \<subseteq> used s' - used s"
      by blast
    define bs1 where "bs1 = (if res_memory r = 0 then bs else bs @ [Some (res_memory r, sz)])"
    have "held (used s') bs1"
      using held_mono [OF Cons.prems(2) r(3)] held_append [OF Cons.prems(2) r(3), of "res_memory r" sz] r(4)
        \<open>sz < 2 ^ 61\<close> by (simp add: bs1_def)
    from Cons.IH [OF r(2) this ops] obtain bs' s2 where
      "run_bump proc ops bs1 s' = Inr (bs', s2)" "inv s2" "used s' \<subseteq> used s2" "held (used s2) bs'"
      by blast
    then show ?thesis using r(1,3) Bump_alloc by (auto simp: bs1_def)
  next
    case (Bump_realloc i sz alignment)
    then have ok: "0 \<le> sz" "sz < 2 ^ 61" "alignment < 2 ^ 61" "is_power_of_two alignment"
      using Cons.prems(3) by auto
    show ?thesis
    proof (cases "if i < List.length bs then bs ! i else None")
      case None
      then show ?thesis using Cons Bump_realloc by simp
    next
      case (Some b)
      obtain p n where b: "b = (p, n)" by (rule prod.exhaust)
      have i: "i < List.length bs" "bs ! i = Some (p, n)" using Some b by (simp_all split: if_splits)
      then have p: "p \<noteq> 0" "0 < n" "n < 2 ^ 61" "{unat p ..< unat p + nat n} \<subseteq> used s"
        using Cons.prems(2) unfolding held_def by (metis nth_mem slot_range_simps(2))+
      obtain r s' where r: "realloc (\<lambda>d f k s. s) proc p n sz alignment s = Inr (r, s')" "inv s'" "used s \<subseteq> used s'"
          "res_memory r \<noteq> 0 \<Longrightarrow> 0 < sz \<and> {unat (res_memory r) ..< unat (res_memory r) + nat sz}
              \<subseteq> {unat p ..< unat p + nat n} \<union> (used s' - used s)"
        using realloc_bump [OF Cons.prems(1) p ok] by blast
      define bs1 where "bs1 = (if sz = 0 then bs[i := None]
               else if res_memory r = 0 then bs else bs[i := Some (res_memory r, sz)])"
      have "held (used s') bs1"
        using held_mono [OF Cons.prems(2) r(3)] held_update [OF Cons.prems(2) r(3) i(1), of None]
          held_update [OF Cons.prems(2) r(3) i(1), of "Some (res_memory r, sz)"] r(4) ok i(2)
        by (simp add: bs1_def)
      from Cons.IH [OF r(2) this ops] obtain bs' s2 where
        "run_bump proc ops bs1 s' = Inr (bs', s2)" "inv s2" "used s' \<subseteq> used s2" "held (used s2) bs'"
        by blast
      then show ?thesis using r(1,3) Bump_realloc Some b i by (auto simp: bs1_def)
    qed
  qed
qed auto

end

end
