(* ===== verification/Arena.thy ===== *)
theory Arena
  imports Bump Buddy
begin

text \<open>
  The arena of \<^verbatim>\<open>kstd/allocator.hh\<close> (\<open>Arena_Allocator_State\<close>): a block of memory from a backing
  allocator (or a caller's buffer), handed out from the front. The backing allocator's \<open>proc\<close> is
  an argument of the operations that call it, \<open>None\<close> for an arena over a caller's buffer; its state
  is passed along. The byte memory matters only to \<open>reset\<close> of a debug arena.
\<close>

section \<open>State and operations\<close>

record arena =
  allocated :: int
  memory_base :: u64
  current_point :: u64
  address_limit :: u64

definition PAGE_SSIZE :: int where "PAGE_SSIZE = 4096"
definition DEFAULT_ARENA_RESERVE_SIZE :: int where "DEFAULT_ARENA_RESERVE_SIZE = 1 * 1024 * 1024"

definition Arena_FEATURES :: u32 where
  "Arena_FEATURES = Feature_RESIZE_SHRINK_NO_OP OR Feature_ACTUALLY_RESIZE
     OR Feature_FAST_BUMP_ALLOCATOR OR Feature_IS_THIS_YOURS"

definition arena_over :: "u64 \<Rightarrow> int \<Rightarrow> arena" where
  "arena_over base sz = \<lparr> allocated = sz, memory_base = base, current_point = base,
     address_limit = base + word_of_int sz \<rparr>"

definition arena_new :: "'b allocator_proc \<Rightarrow> int \<Rightarrow> 'b \<Rightarrow> (arena \<times> 'b) outcome" where
  "arena_new backing reserve b =
     (let sz = align_up_ssize reserve PAGE_SSIZE
      in obind (alloc backing sz MAX_ALIGN b) (\<lambda>(allocation, b).
         kstd_assert (res_memory allocation \<noteq> 0) []
        (kstd_assert (res_error allocation = Error_NONE) []
          (Inr (arena_over (res_memory allocation) sz, b)))))"

definition arena_on_buffer :: "u64 \<Rightarrow> int \<Rightarrow> arena outcome" where
  "arena_on_buffer memory sz =
     kstd_assert (memory \<noteq> 0) [] (kstd_assert (0 < sz) [] (Inr (arena_over memory sz)))"

definition memset :: "(u64 \<Rightarrow> u8) \<Rightarrow> u64 \<Rightarrow> u8 \<Rightarrow> int \<Rightarrow> u64 \<Rightarrow> u8" where
  "memset m dest value n = (\<lambda>a. if uint (a - dest) < n then value else m a)"

definition arena_reset :: "bool \<Rightarrow> (u64 \<Rightarrow> u8) \<Rightarrow> arena \<Rightarrow> (u64 \<Rightarrow> u8) \<times> arena" where
  "arena_reset DEBUG m st =
     (if DEBUG then memset m (memory_base st) 0xCC (sint (current_point st - memory_base st)) else m,
      st\<lparr> current_point := memory_base st \<rparr>)"

definition arena_destroy :: "'b allocator_proc option \<Rightarrow> bool \<Rightarrow> (u64 \<Rightarrow> u8) \<Rightarrow> arena \<Rightarrow> 'b \<Rightarrow> ((u64 \<Rightarrow> u8) \<times> 'b) outcome" where
  "arena_destroy backing DEBUG m st b =
     (let (m, st) = arena_reset DEBUG m st
      in case backing of
           None \<Rightarrow> Inr (m, b)
         | Some proc \<Rightarrow> obind (free_memory proc (memory_base st) (allocated st) b) (\<lambda>(error, b).
             kstd_assert (error = Error_NONE) [] (Inr (m, b))))"

text \<open>\<open>alloc\<close> and \<open>free\<close> resolve an invalid backing allocator to the context's.\<close>

definition resize_and_dont_copy_old_memory :: "'b allocator_proc \<Rightarrow> int \<Rightarrow> arena \<Rightarrow> 'b \<Rightarrow> (arena \<times> 'b) outcome" where
  "resize_and_dont_copy_old_memory backing reserve st b =
     (let sz = align_up_ssize reserve PAGE_SSIZE
      in obind (alloc backing sz MAX_ALIGN b) (\<lambda>(allocation, b).
         kstd_assert (res_memory allocation \<noteq> 0) []
        (obind (free_memory backing (memory_base st) (allocated st) b) (\<lambda>(error, b).
         kstd_assert (error = Error_NONE) []
          (Inr (arena_over (res_memory allocation) sz, b))))))"

definition arena_bytes_left :: "arena \<Rightarrow> int" where
  "arena_bytes_left st = sint (address_limit st - current_point st)"

definition arena_bytes_used :: "arena \<Rightarrow> int" where
  "arena_bytes_used st = sint (current_point st - memory_base st)"

definition arena_allocate :: "int \<Rightarrow> int \<Rightarrow> arena \<Rightarrow> allocator_result \<times> arena" where
  "arena_allocate sz alignment st =
     (if memory_base st = 0 then (result 0 USE_OF_UNINITIALIZED_ALLOCATOR, st)
      else if sz < 0 \<or> \<not> is_power_of_two alignment then (result 0 INVALID_ARGUMENT, st)
      else if sz = 0 then (result 0 Error_NONE, st)
      else
        let aligned = align_up (current_point st) (word_of_int alignment);
            next_point = aligned + word_of_int sz
        in if next_point < aligned \<or> address_limit st < next_point
           then (result 0 OUT_OF_MEMORY, st)
           else (result aligned Error_NONE, st\<lparr> current_point := next_point \<rparr>))"

definition arena_resize :: "int \<Rightarrow> int \<Rightarrow> int \<Rightarrow> u64 \<Rightarrow> arena \<Rightarrow> allocator_result \<times> arena" where
  "arena_resize sz alignment old_size old_memory st =
     (if sz < 0 \<or> \<not> is_power_of_two alignment then (result 0 INVALID_ARGUMENT, st)
      else if old_memory \<noteq> 0 \<and> unat old_memory mod nat alignment \<noteq> 0 then (result 0 MODE_NOT_IMPLEMENTED, st)
      else if sz = 0 \<or> sz \<le> old_size then (result (if sz = 0 then 0 else old_memory) Error_NONE, st)
      else
        let next_address = old_memory + word_of_int sz
        in if old_memory \<noteq> 0 \<and> old_memory \<le> current_point st
              \<and> old_memory + word_of_int old_size = current_point st
              \<and> old_memory \<le> next_address \<and> next_address \<le> address_limit st
           then (result old_memory Error_NONE, st\<lparr> current_point := next_address \<rparr>)
           else if old_memory = 0 then arena_allocate sz alignment st
           else (result 0 MODE_NOT_IMPLEMENTED, st))"

definition arena_proc :: "arena allocator_proc" where
  "arena_proc mode sz alignment old_size old_memory out st =
     (case mode of
        ALLOCATE \<Rightarrow> (let (r, st) = arena_allocate sz alignment st in Inr (r, out, st))
      | RESIZE \<Rightarrow> (let (r, st) = arena_resize sz alignment old_size old_memory st in Inr (r, out, st))
      | FEATURES \<Rightarrow>
          if old_memory \<noteq> 0
          then Inr (result 0 Error_NONE, out\<lparr> out_features := Arena_FEATURES \<rparr>, st)
          else Inr (result 0 INVALID_ARGUMENT, out, st)
      | IS_THIS_YOURS \<Rightarrow>
          Inr (result (if memory_base st \<le> old_memory \<and> old_memory < address_limit st
                       then old_memory else 0) Error_NONE, out, st)
      | _ \<Rightarrow> Inr (result 0 MODE_NOT_IMPLEMENTED, out, st))"

section \<open>The arena is a bump allocator\<close>

definition arena_inv :: "arena \<Rightarrow> bool" where
  "arena_inv st \<longleftrightarrow> memory_base st \<noteq> 0 \<and> memory_base st \<le> current_point st
     \<and> current_point st \<le> address_limit st \<and> unat (address_limit st) \<le> 2 ^ 63"

definition arena_used :: "arena \<Rightarrow> nat set" where
  "arena_used st = {unat (memory_base st) ..< unat (current_point st)}"

lemma arena_inv_bounds:
  assumes "arena_inv st"
  shows "0 < unat (memory_base st)" "unat (memory_base st) \<le> unat (current_point st)"
    "unat (current_point st) \<le> unat (address_limit st)" "unat (address_limit st) \<le> 2 ^ 63"
  using assms by (auto simp: arena_inv_def word_le_nat_alt unat_gt_0)

lemma arena_allocate_exact:
  assumes inv: "arena_inv st" and sz: "0 < sz" "sz < 2 ^ 61"
    and al: "is_power_of_two alignment" "alignment < 2 ^ 61"
  defines "start \<equiv> align_up (current_point st) (word_of_int alignment)"
  shows "arena_allocate sz alignment st =
      (if unat start + nat sz \<le> unat (address_limit st)
       then (result start Error_NONE, st\<lparr> current_point := start + word_of_int sz \<rparr>)
       else (result 0 OUT_OF_MEMORY, st))"
    and "alignment dvd int (unat start)" "unat (current_point st) \<le> unat start"
    and "unat (start + word_of_int sz) = unat start + nat sz"
proof -
  note b = arena_inv_bounds [OF inv]
  have cur: "unat (current_point st) \<le> 2 ^ 63" using b by simp
  note n = bump_next [OF cur less_imp_le [OF sz(1)] sz(2) al, folded start_def]
  show "alignment dvd int (unat start)" "unat (current_point st) \<le> unat start"
    "unat (start + word_of_int sz) = unat start + nat sz"
    using n by simp_all
  have "address_limit st < start + word_of_int sz \<longleftrightarrow> \<not> unat start + nat sz \<le> unat (address_limit st)"
    using n(4) by (simp add: word_less_nat_alt not_le)
  moreover have "memory_base st \<noteq> 0" using inv by (simp add: arena_inv_def)
  ultimately show "arena_allocate sz alignment st =
      (if unat start + nat sz \<le> unat (address_limit st)
       then (result start Error_NONE, st\<lparr> current_point := start + word_of_int sz \<rparr>)
       else (result 0 OUT_OF_MEMORY, st))"
    using n(5) sz(1) al(1) by (simp add: arena_allocate_def Let_def start_def)
qed

lemma arena_bump_law:
  assumes inv: "arena_inv st" and sz: "0 \<le> sz" "sz < 2 ^ 61" "alignment < 2 ^ 61" "is_power_of_two alignment"
    and run: "arena_allocate sz alignment st = (r, st')"
  shows "arena_inv st' \<and> arena_used st \<subseteq> arena_used st'
    \<and> (res_memory r \<noteq> 0 \<longrightarrow> res_error r = Error_NONE \<and> 0 < sz \<and> alignment dvd int (unat (res_memory r))
        \<and> {unat (res_memory r) ..< unat (res_memory r) + nat sz} \<subseteq> arena_used st' - arena_used st)"
proof (cases "sz = 0")
  case True
  then show ?thesis using run inv sz by (auto simp: arena_allocate_def result_def split: if_splits)
next
  case False
  then have pos: "0 < sz" using sz(1) by simp
  note e = arena_allocate_exact [OF inv pos sz(2,4,3)]
  note b = arena_inv_bounds [OF inv]
  show ?thesis using run e pos inv b unfolding e(1)
    by (auto simp: arena_inv_def arena_used_def word_le_nat_alt split: if_splits)
qed

lemma arena_grow_law:
  assumes inv: "arena_inv st" and p: "p \<noteq> 0" "0 < n" "n < 2 ^ 61"
    and used: "{unat p ..< unat p + nat n} \<subseteq> arena_used st"
    and sz: "0 \<le> sz" "sz < 2 ^ 61" "alignment < 2 ^ 61" "is_power_of_two alignment"
    and run: "arena_resize sz alignment n p st = (r, st')"
  shows "arena_inv st' \<and> arena_used st \<subseteq> arena_used st'
    \<and> (res_error r \<noteq> Error_NONE \<longrightarrow> st' = st \<and> res_memory r = 0)
    \<and> (res_error r = Error_NONE \<longrightarrow> res_memory r = (if sz = 0 then 0 else p) \<and> alignment dvd int (unat p)
         \<and> {unat p + nat n ..< unat p + nat sz} \<subseteq> arena_used st' - arena_used st)"
proof -
  note b = arena_inv_bounds [OF inv]
  have "unat p \<in> {unat p ..< unat p + nat n}" "unat p + nat n - 1 \<in> {unat p ..< unat p + nat n}"
    using p(2) by auto
  then have "unat p \<in> arena_used st" "unat p + nat n - 1 \<in> arena_used st" using used by blast+
  then have range: "unat (memory_base st) \<le> unat p" "unat p + nat n \<le> unat (current_point st)"
    using p(2) by (auto simp: arena_used_def)
  have words: "unat (p + word_of_int k) = unat p + nat k" if "0 \<le> k" "k < 2 ^ 61" for k
  proof -
    have "unat (word_of_int k :: u64) = nat k" using that by (intro unat_word_of_int) simp_all
    then show ?thesis using that range b by (subst unat_add_no_wrap) simp_all
  qed
  have dvd: "unat p mod nat alignment = 0 \<longleftrightarrow> alignment dvd int (unat p)"
    using sz(4) by (simp add: is_power_of_two_def nat_dvd_iff dvd_eq_mod_eq_0 [symmetric] flip: int_dvd_int_iff)
  show ?thesis
  proof (cases "unat p mod nat alignment \<noteq> 0 \<or> sz \<le> n")
    case True
    then show ?thesis using run p sz dvd inv by (auto simp: arena_resize_def result_def split: if_splits)
  next
    case False
    let ?next = "p + word_of_int sz"
    have next_point: "unat ?next = unat p + nat sz" "unat (p + word_of_int n) = unat p + nat n"
      using words sz p by auto
    have "arena_resize sz alignment n p st =
       (if p + word_of_int n = current_point st \<and> ?next \<le> address_limit st
        then (result p Error_NONE, st\<lparr> current_point := ?next \<rparr>) else (result 0 MODE_NOT_IMPLEMENTED, st))"
      using False sz p range next_point by (auto simp: arena_resize_def Let_def word_le_nat_alt)
    then show ?thesis
      using run False sz(1) p dvd inv b range next_point
      by (auto simp: arena_inv_def arena_used_def word_le_nat_alt word_unat_eq_iff split: if_splits)
  qed
qed

text \<open>The states an arena goes through: only the current point moves.\<close>

definition arena_from :: "arena \<Rightarrow> arena \<Rightarrow> bool" where
  "arena_from st0 st \<longleftrightarrow> arena_inv st \<and> st\<lparr> current_point := 0 \<rparr> = st0\<lparr> current_point := 0 \<rparr>"

lemma arena_fromD:
  assumes "arena_from st0 st"
  shows "arena_inv st" "memory_base st = memory_base st0" "address_limit st = address_limit st0"
    "allocated st = allocated st0"
  using assms by (cases st; cases st0; simp add: arena_from_def)+

lemma arena_steps_from:
  "arena_allocate sz alignment st = (r, st') \<Longrightarrow> st'\<lparr> current_point := 0 \<rparr> = st\<lparr> current_point := 0 \<rparr>"
  "arena_resize sz alignment n p st = (r, st') \<Longrightarrow> st'\<lparr> current_point := 0 \<rparr> = st\<lparr> current_point := 0 \<rparr>"
  by (auto simp: arena_allocate_def arena_resize_def Let_def split: if_splits)

interpretation arena: bump_allocator arena_proc "arena_from st0" arena_used for st0
proof unfold_locales
  fix st :: arena and sz alignment old_size :: int and p out
  assume start: "arena_from st0 st"
  then have inv: "arena_inv st" by (simp add: arena_from_def)
  show "\<exists>r s'. arena_proc ALLOCATE sz alignment 0 0 out st = Inr (r, out, s') \<and> arena_from st0 s' \<and> arena_used st \<subseteq> arena_used s'
        \<and> (res_memory r \<noteq> 0 \<longrightarrow> res_error r = Error_NONE \<and> 0 < sz \<and> alignment dvd int (unat (res_memory r))
             \<and> {unat (res_memory r) ..< unat (res_memory r) + nat sz} \<subseteq> arena_used s' - arena_used st)"
    if "0 \<le> sz" "sz < 2 ^ 61" "alignment < 2 ^ 61" "is_power_of_two alignment"
  proof -
    obtain r st' where run: "arena_allocate sz alignment st = (r, st')" by (rule prod.exhaust)
    then show ?thesis using arena_bump_law [OF inv that run] arena_steps_from(1) [OF run] start
      by (simp add: arena_proc_def arena_from_def)
  qed
  show "\<exists>r s'. arena_proc RESIZE sz alignment old_size p out st = Inr (r, out, s') \<and> arena_from st0 s'
        \<and> arena_used st \<subseteq> arena_used s'
        \<and> (res_error r \<noteq> Error_NONE \<longrightarrow> s' = st \<and> res_memory r = 0)
        \<and> (res_error r = Error_NONE \<longrightarrow> res_memory r = (if sz = 0 then 0 else p) \<and> alignment dvd int (unat p)
             \<and> {unat p + nat old_size ..< unat p + nat sz} \<subseteq> arena_used s' - arena_used st)"
    if "p \<noteq> 0" "0 < old_size" "old_size < 2 ^ 61" "{unat p ..< unat p + nat old_size} \<subseteq> arena_used st"
      "0 \<le> sz" "sz < 2 ^ 61" "alignment < 2 ^ 61" "is_power_of_two alignment"
  proof -
    obtain r st' where run: "arena_resize sz alignment old_size p st = (r, st')" by (rule prod.exhaust)
    then show ?thesis using arena_grow_law [OF inv that run] arena_steps_from(2) [OF run] start
      by (simp add: arena_proc_def arena_from_def)
  qed
next
  fix st :: arena
  have "\<not> has_flag Arena_FEATURES [Feature_FREE]" by code_simp
  then show "\<exists>features. arena_proc FEATURES 0 0 0 1 no_out st
      = Inr (result 0 Error_NONE, no_out\<lparr> out_features := features \<rparr>, st) \<and> \<not> has_flag features [Feature_FREE]"
    by (auto simp: arena_proc_def)
qed

section \<open>An arena over a heap\<close>

context sized_heap
begin

lemma arena_new_ok:
  assumes inv: "inv b L" and run: "arena_new proc reserve b = Inr (a, b')" and bound: "0 < reserve" "reserve < 2 ^ 60"
  shows "arena_from a a \<and> arena_used a = {} \<and> 0 \<le> allocated a \<and> memory_base a \<notin> L \<and> inv b' (insert (memory_base a) L)
    \<and> {unat (memory_base a) ..< unat (address_limit a)} \<subseteq> owned b' (memory_base a)
    \<and> int (unat (address_limit a)) = int (unat (memory_base a)) + allocated a
    \<and> reserve \<le> allocated a \<and> (\<forall>p \<in> L. owned b' p = owned b p)"
proof -
  let ?sz = "align_up_ssize reserve PAGE_SSIZE"
  have page: "PAGE_SSIZE = 2 ^ 12" by (simp add: PAGE_SSIZE_def)
  have sz: "reserve \<le> ?sz" "?sz < reserve + 2 ^ 12" using align_up_ssize_bounds [where k = 12 and v = reserve] by (simp_all add: page)
  have "?sz < 2 ^ 63" "MAX_ALIGN < 2 ^ 63" using sz bound by (simp_all add: MAX_ALIGN_def)
  from alloc_spec [OF inv this] obtain r s' where r: "alloc proc ?sz MAX_ALIGN b = Inr (r, s')"
     "if res_memory r = 0 then inv s' L
       else res_error r = Error_NONE \<and> res_memory r \<notin> L \<and> inv s' (insert (res_memory r) L)
       \<and> {unat (res_memory r) ..< unat (res_memory r) + nat ?sz} \<subseteq> owned s' (res_memory r)"
     "\<forall>p \<in> L. owned s' p = owned b p"
    by (auto split: if_splits)
  have a: "a = arena_over (res_memory r) ?sz" "b' = s'" and nz: "res_memory r \<noteq> 0"
    using run r(1) by (auto simp: arena_new_def Let_def dest!: kstd_assert_InrD)
  have pos: "0 \<le> ?sz"
    using r(1) nz by (auto simp: alloc_def split: if_splits)
  have own: "{unat (res_memory r) ..< unat (res_memory r) + nat ?sz} \<subseteq> owned s' (res_memory r)"
     "inv s' (insert (res_memory r) L)" "res_memory r \<notin> L"
    using r(2) nz by auto
  then have "{unat (res_memory r) ..< unat (res_memory r) + nat ?sz} \<subseteq> {..< 2 ^ 63}"
    using bounded [OF own(2), of "res_memory r"] by blast
  have top: "unat (res_memory r) + nat ?sz \<le> 2 ^ 63"
  proof -
    have "unat (res_memory r) + nat ?sz - 1 \<in> {unat (res_memory r) ..< unat (res_memory r) + nat ?sz}"
      using sz bound by auto
    then have "unat (res_memory r) + nat ?sz - 1 < 2 ^ 63"
      using \<open>_ \<subseteq> {..< 2 ^ 63}\<close> by blast
    then show ?thesis by simp
  qed
  have lim: "unat (res_memory r + word_of_int ?sz) = unat (res_memory r) + nat ?sz"
  proof -
    have "unat (word_of_int ?sz :: u64) = nat ?sz" using pos \<open>?sz < 2 ^ 63\<close> by (intro unat_word_of_int) simp_all
    then show ?thesis using top by (subst unat_add_no_wrap) simp_all
  qed
  have "arena_inv a" using a nz lim top by (simp add: arena_inv_def arena_over_def word_le_nat_alt)
  then show ?thesis
    using a own r(3) lim pos sz by (auto simp: arena_from_def arena_over_def arena_used_def)
qed

text \<open>A whole life of an arena: programs on it stay within the block it was given, and that block
  goes back, wherever the current point is.\<close>

lemma arena_destroy_ok:
  assumes inv: "inv b (insert (memory_base a) L)" and base: "memory_base a \<notin> L" "0 \<le> allocated a"
  shows "\<exists>m' b'. arena_destroy (Some proc) DEBUG m a b = Inr (m', b') \<and> inv b' L
    \<and> (\<forall>p \<in> L. owned b' p = owned b p)"
proof -
  have eq: "insert (memory_base a) L - {memory_base a} = L" using base by blast
  obtain b' where "free_aligned proc (memory_base a) (allocated a) 0 b = Inr (Error_NONE, b')" "inv b' L"
      "\<forall>p \<in> L. owned b' p = owned b p"
    using free_sized_spec [OF inv, of "memory_base a" "allocated a" 0] base unfolding eq by auto
  then show ?thesis by (simp add: arena_destroy_def arena_reset_def free_memory_def)
qed

lemma arena_life_ok:
  assumes inv: "inv b L" and run: "arena_new proc reserve b = Inr (a, b1)"
    and bound: "0 < reserve" "reserve < 2 ^ 60" and ops: "\<forall>op \<in> set ops. bump_op_ok op"
  shows "\<exists>bs a'. run_bump arena_proc ops [] a = Inr (bs, a') \<and> held (arena_used a') bs
    \<and> arena_used a' \<subseteq> owned b1 (memory_base a) \<and> inv b1 (insert (memory_base a) L)
    \<and> (\<exists>m' b2. arena_destroy (Some proc) DEBUG m a' b1 = Inr (m', b2) \<and> inv b2 L
         \<and> (\<forall>p \<in> L. owned b2 p = owned b p))"
proof -
  note new = arena_new_ok [OF inv run bound]
  obtain bs a' where r: "run_bump arena_proc ops [] a = Inr (bs, a')" "arena_from a a'" "held (arena_used a') bs"
    using arena.run_bump_ok [of a a "[]" ops] new ops by auto
  note shape = arena_fromD [OF r(2)]
  have "arena_used a' \<subseteq> {unat (memory_base a) ..< unat (address_limit a)}"
    using arena_inv_bounds [OF shape(1)] shape(2,3) by (auto simp: arena_used_def)
  then have used: "arena_used a' \<subseteq> owned b1 (memory_base a)" using new by blast
  have "inv b1 (insert (memory_base a') L)" "memory_base a' \<notin> L" "0 \<le> allocated a'"
    using new shape by simp_all
  from arena_destroy_ok [OF this, of DEBUG m] obtain m' b2 where
    "arena_destroy (Some proc) DEBUG m a' b1 = Inr (m', b2)" "inv b2 L" "\<forall>p \<in> L. owned b2 p = owned b1 p"
    by blast
  then show ?thesis using r used new by auto
qed

lemma arena_replace_ok:
  assumes inv: "inv b (insert (memory_base a) L)" and base: "memory_base a \<notin> L" "0 \<le> allocated a"
    and run: "resize_and_dont_copy_old_memory proc reserve a b = Inr (a', b')"
    and bound: "0 < reserve" "reserve < 2 ^ 60"
  shows "arena_from a' a' \<and> arena_used a' = {} \<and> memory_base a' \<notin> L \<and> inv b' (insert (memory_base a') L)
    \<and> {unat (memory_base a') ..< unat (address_limit a')} \<subseteq> owned b' (memory_base a')
    \<and> reserve \<le> allocated a' \<and> (\<forall>p \<in> L. owned b' p = owned b p)"
proof -
  let ?sz = "align_up_ssize reserve PAGE_SSIZE" and ?LL = "insert (memory_base a) L"
  have "?sz < reserve + 2 ^ 12" using align_up_ssize_bounds(3) [where k = 12 and v = reserve]
    by (simp add: PAGE_SSIZE_def)
  then have "?sz < 2 ^ 63" "MAX_ALIGN < 2 ^ 63" using bound by (simp_all add: MAX_ALIGN_def)
  from alloc_spec [OF inv this] obtain r b1 where r: "alloc proc ?sz MAX_ALIGN b = Inr (r, b1)"
     "res_memory r \<noteq> 0 \<Longrightarrow> res_error r = Error_NONE"
    by (auto split: if_splits)
  have nz: "res_memory r \<noteq> 0"
    using run r(1) by (auto simp: resize_and_dont_copy_old_memory_def Let_def dest!: kstd_assert_InrD)
  define a1 where "a1 = arena_over (res_memory r) ?sz"
  have new: "arena_new proc reserve b = Inr (a1, b1)" using r nz by (simp add: arena_new_def a1_def Let_def)
  note n = arena_new_ok [OF inv new bound]
  let ?L1 = "insert (memory_base a1) ?LL"
  have eq: "?L1 - {memory_base a} = insert (memory_base a1) L" using n base by auto
  obtain b2 where f: "free_aligned proc (memory_base a) (allocated a) 0 b1 = Inr (Error_NONE, b2)"
      "inv b2 (insert (memory_base a1) L)" "\<forall>p \<in> insert (memory_base a1) L. owned b2 p = owned b1 p"
    using free_sized_spec [of b1 ?L1 "memory_base a" "allocated a" 0] n base unfolding eq by auto
  have "a' = a1" "b' = b2"
    using run r nz f(1)
    by (simp_all add: resize_and_dont_copy_old_memory_def Let_def free_memory_def a1_def)
  then show ?thesis using n f by auto
qed

end

section \<open>Properties\<close>

text \<open>
  An arena allocation is the first aligned address at or after the current point; it succeeds
  exactly when the block ends within the limit, then the current point is the end of the
  block, and otherwise the arena is unchanged and the error is \<open>OUT_OF_MEMORY\<close>. A reset makes
  the whole arena available again.
\<close>

theorem arena_alloc_exact:
  assumes inv: "arena_inv st" and sz: "0 < sz" "sz < 2 ^ 61"
    and al: "is_power_of_two alignment" "alignment < 2 ^ 61"
    and start: "start = align_up (current_point st) (word_of_int alignment)"
  shows "alloc arena_proc sz alignment st = Inr
      (if unat start + nat sz \<le> unat (address_limit st)
       then (result start Error_NONE, st\<lparr> current_point := start + word_of_int sz \<rparr>)
       else (result 0 OUT_OF_MEMORY, st))
    \<and> alignment dvd int (unat start)
    \<and> unat (current_point st) \<le> unat start
    \<and> int (unat start) < int (unat (current_point st)) + alignment
    \<and> arena_bytes_used (snd (arena_reset DEBUG m st)) = 0
    \<and> current_point (snd (arena_reset DEBUG m st)) = memory_base st"
proof -
  have cur: "unat (current_point st) \<le> 2 ^ 63" using arena_inv_bounds [OF inv] by simp
  note e = arena_allocate_exact [OF inv sz al, folded start]
  show ?thesis
    using e bump_next(3) [OF cur less_imp_le [OF sz(1)] sz(2) al, folded start] sz al
    by (simp add: alloc_def call_allocator_def arena_proc_def arena_reset_def arena_bytes_used_def)
qed

definition small_arena :: arena where
  "small_arena = arena_over 0x1000 64"

lemma small_arena_inv: "arena_inv small_arena" "arena_from small_arena small_arena" "arena_used small_arena = {}"
  by (simp_all add: small_arena_def arena_over_def arena_inv_def arena_from_def arena_used_def)

theorem arena_alloc_exact_witness:
  "alloc arena_proc 40 8 small_arena = Inr (result 0x1000 Error_NONE, small_arena\<lparr> current_point := 0x1028 \<rparr>)
   \<and> alloc arena_proc 65 8 small_arena = Inr (result 0 OUT_OF_MEMORY, small_arena)"
proof -
  have "align_up (current_point small_arena) (word_of_int 8) = 0x1000" by code_simp
  then show ?thesis
    using arena_alloc_exact [OF small_arena_inv(1) _ _ _ _ refl, of 40 8]
      arena_alloc_exact [OF small_arena_inv(1) _ _ _ _ refl, of 65 8]
    by (simp add: is_power_of_two_def small_arena_def arena_over_def)
qed

text \<open>
  C38: Any program of \<open>alloc\<close> and \<open>realloc\<close> calls on an arena runs without a failed assertion, and the
  blocks it ends up holding are pairwise disjoint and lie between the base and the current
  point, whatever was grown in place, moved, cut or refused on the way.
\<close>

theorem arena_programs_hold_disjoint_blocks:
  assumes "arena_from st0 st" "\<forall>op \<in> set ops. bump_op_ok op"
  shows "\<exists>bs st'. run_bump arena_proc ops [] st = Inr (bs, st') \<and> arena_from st0 st'
    \<and> held {unat (memory_base st') ..< unat (current_point st')} bs"
  using arena.run_bump_ok [OF assms(1) held_Nil assms(2)] by (auto simp: arena_used_def)

theorem arena_programs_hold_disjoint_blocks_witness:
  "\<exists>bs st'. run_bump arena_proc [Bump_alloc 10 4, Bump_alloc 8 16, Bump_realloc 0 12 4, Bump_realloc 1 12 1]
      [] small_arena = Inr (bs, st')
    \<and> held {unat (memory_base st') ..< unat (current_point st')} bs"
  using arena_programs_hold_disjoint_blocks [OF small_arena_inv(2),
      of "[Bump_alloc 10 4, Bump_alloc 8 16, Bump_realloc 0 12 4, Bump_realloc 1 12 1]"]
  by (fastforce simp: is_power_of_two_def)

text \<open>
  C10: An arena on the buddy heap leaks nothing: whatever program runs on it, its blocks lie inside
  the one heap block the constructor took, and the destructor gives exactly that block back, so
  the heap holds the same live pointers over the same memory as before the construction.
\<close>

theorem arena_on_heap_leaks_nothing:
  assumes "buddy_holds M b L" "arena_new buddy_proc reserve b = Inr (a, b1)"
    "0 < reserve" "reserve < 2 ^ 60" "\<forall>op \<in> set ops. bump_op_ok op"
  shows "\<exists>bs a'. run_bump arena_proc ops [] a = Inr (bs, a') \<and> held (arena_used a') bs
    \<and> arena_used a' \<subseteq> live_range b1 (memory_base a) \<and> buddy_holds M b1 (insert (memory_base a) L)
    \<and> (\<exists>m' b2. arena_destroy (Some buddy_proc) DEBUG m a' b1 = Inr (m', b2) \<and> buddy_holds M b2 L
         \<and> (\<forall>p \<in> L. live_range b2 p = live_range b p))"
  by (rule buddy.arena_life_ok [OF assms])

theorem arena_on_heap_leaks_nothing_witness:
  "\<exists>a b1 bs a' m' b2. arena_new buddy_proc 4000 small_heap = Inr (a, b1)
    \<and> run_bump arena_proc [Bump_alloc 100 16] [] a = Inr (bs, a')
    \<and> arena_destroy (Some buddy_proc) False (\<lambda>_. 0) a' b1 = Inr (m', b2)
    \<and> buddy_holds {0x100000 ..< 0x102000} b2 {}"
proof -
  have holds: "buddy_holds {0x100000 ..< 0x102000} small_heap {}"
    using small_heap_inv by (simp add: buddy_holds_def)
  have "map_sum id (res_memory \<circ> fst) (alloc buddy_proc 4096 16 small_heap) = Inr 0x100020"
    by code_simp
  moreover obtain r b1 where r: "alloc buddy_proc 4096 16 small_heap = Inr (r, b1)"
      "res_memory r \<noteq> 0 \<longrightarrow> res_error r = Error_NONE"
    using buddy.alloc_spec [OF holds, of 4096 16] by (auto split: if_splits)
  ultimately have "res_memory r = 0x100020" "res_error r = Error_NONE" by simp_all
  moreover have "align_up_ssize 4000 PAGE_SSIZE = 4096" by code_simp
  ultimately have "arena_new buddy_proc 4000 small_heap = Inr (arena_over (res_memory r) 4096, b1)"
    using r(1) by (simp add: arena_new_def MAX_ALIGN_def Let_def)
  then show ?thesis
    using arena_on_heap_leaks_nothing [OF holds, of 4000 _ b1 "[Bump_alloc 100 16]" False "\<lambda>_. 0"]
    by fastforce
qed

end
