(* ===== verification/Temporary.thy ===== *)
theory Temporary
  imports Arena
begin

text \<open>
  Temporary storage of \<^verbatim>\<open>kstd/allocator.hh\<close> (\<open>Temporary_Allocator_State\<close>): a bump allocator that, when it
  has a backing allocator, continues in overflow pages, and that can be rewound to a mark.
  A page is its address and the \<open>size\<close> in its header; \<open>overflow_pages\<close> is the linked list from the
  newest page. The state of the backing allocator is passed along; \<open>backing\<close> is \<open>None\<close> for storage
  over a caller's buffer. Sizes are \<open>ssize\<close> values, kept in range by the bounds of the theorems.
\<close>

section \<open>State and operations\<close>

record temporary_state =
  original_data :: u64
  original_size :: int
  page_data :: u64
  page_size :: int
  current_page_bytes_occupied :: int
  total_bytes_occupied :: int
  high_water_mark :: int
  overflow_pages :: "(u64 \<times> int) list"

record temporary_mark =
  top_overflow_page :: u64
  mark_current_page_bytes_occupied :: int
  mark_total_bytes_occupied :: int

definition TEMPORARY_STORAGE_SIZE :: int where "TEMPORARY_STORAGE_SIZE = 16 * 1024"

definition OVERFLOW_PAGE_HEADER_SIZE :: int where
  "OVERFLOW_PAGE_HEADER_SIZE = align_up_ssize 16 MAX_ALIGN"

definition Temporary_FEATURES :: u32 where
  "Temporary_FEATURES = Feature_RESIZE_SHRINK_NO_OP OR Feature_ACTUALLY_RESIZE
     OR Feature_FAST_BUMP_ALLOCATOR OR Feature_PER_FRAME_TEMPORARY_STORAGE"

definition page_payload :: "u64 \<Rightarrow> u64" where
  "page_payload page = page + word_of_int OVERFLOW_PAGE_HEADER_SIZE"

definition top_page :: "(u64 \<times> int) list \<Rightarrow> u64" where
  "top_page pages = (case pages of [] \<Rightarrow> 0 | (page, n) # rest \<Rightarrow> page)"

definition temporary_over :: "u64 \<Rightarrow> int \<Rightarrow> temporary_state" where
  "temporary_over memory sz = \<lparr> original_data = memory, original_size = sz, page_data = memory, page_size = sz,
     current_page_bytes_occupied = 0, total_bytes_occupied = 0, high_water_mark = 0, overflow_pages = [] \<rparr>"

definition temporary_on_buffer :: "u64 \<Rightarrow> int \<Rightarrow> temporary_state outcome" where
  "temporary_on_buffer memory sz =
     kstd_assert (memory \<noteq> 0) [] (kstd_assert (0 < sz) [] (Inr (temporary_over memory sz)))"

definition temporary_new :: "'b allocator_proc \<Rightarrow> int \<Rightarrow> 'b \<Rightarrow> (temporary_state \<times> 'b) outcome" where
  "temporary_new backing sz b =
     kstd_assert (0 < sz) []
       (obind (alloc backing sz MAX_ALIGN b) (\<lambda>(allocation, b).
          kstd_assert (res_memory allocation \<noteq> 0) []
         (kstd_assert (res_error allocation = Error_NONE) []
           (Inr (temporary_over (res_memory allocation) sz, b)))))"

text \<open>
  Pages exist only with a backing allocator, so the allocator that \<open>free\<close> would take in its
  place is never asked.
\<close>

fun free_pages_loop :: "'b allocator_proc option \<Rightarrow> u64 \<Rightarrow> (u64 \<times> int) list \<Rightarrow> 'b \<Rightarrow> ((u64 \<times> int) list \<times> 'b) outcome" where
  "free_pages_loop backing target [] b =
     (if target = 0 then Inr ([], b)
      else Inl ''Temporary allocator mark belongs to another allocator.'')"
| "free_pages_loop backing target ((page, n) # rest) b =
     (if page = target then Inr ((page, n) # rest, b)
      else obind (free_memory (resolve_allocator backing None null_proc) page (OVERFLOW_PAGE_HEADER_SIZE + n) b)
             (\<lambda>(error, b). kstd_assert (error = Error_NONE) [] (free_pages_loop backing target rest b)))"

definition free_overflow_pages ::
  "'b allocator_proc option \<Rightarrow> u64 \<Rightarrow> temporary_state \<Rightarrow> 'b \<Rightarrow> (temporary_state \<times> 'b) outcome" where
  "free_overflow_pages backing target st b =
     obind (free_pages_loop backing target (overflow_pages st) b) (\<lambda>(pages, b).
       Inr (case pages of
              [] \<Rightarrow> st\<lparr> overflow_pages := pages, page_data := original_data st, page_size := original_size st \<rparr>
            | (page, n) # rest \<Rightarrow> st\<lparr> overflow_pages := pages, page_data := page_payload page, page_size := n \<rparr>, b))"

definition temporary_destroy :: "'b allocator_proc option \<Rightarrow> temporary_state \<Rightarrow> 'b \<Rightarrow> 'b outcome" where
  "temporary_destroy backing st b =
     obind (free_overflow_pages backing 0 st b) (\<lambda>(st, b).
       case backing of
         None \<Rightarrow> Inr b
       | Some proc \<Rightarrow>
           if original_data st \<noteq> 0
           then obind (free_memory proc (original_data st) (original_size st) b) (\<lambda>(error, b).
                  kstd_assert (error = Error_NONE) [] (Inr b))
           else Inr b)"

definition temporary_reset :: "'b allocator_proc option \<Rightarrow> temporary_state \<Rightarrow> 'b \<Rightarrow> (temporary_state \<times> 'b) outcome" where
  "temporary_reset backing st b =
     obind (free_overflow_pages backing 0 st b) (\<lambda>(st, b).
       Inr (st\<lparr> page_data := original_data st, page_size := original_size st,
                current_page_bytes_occupied := 0, total_bytes_occupied := 0, high_water_mark := 0 \<rparr>, b))"

definition temporary_bytes_used :: "temporary_state \<Rightarrow> int" where
  "temporary_bytes_used st = total_bytes_occupied st"

definition temporary_bytes_left :: "temporary_state \<Rightarrow> int" where
  "temporary_bytes_left st = page_size st - current_page_bytes_occupied st"

definition temporary_get_mark :: "temporary_state \<Rightarrow> temporary_mark" where
  "temporary_get_mark st = \<lparr> top_overflow_page = top_page (overflow_pages st),
     mark_current_page_bytes_occupied = current_page_bytes_occupied st,
     mark_total_bytes_occupied = total_bytes_occupied st \<rparr>"

definition temporary_rewind ::
  "'b allocator_proc option \<Rightarrow> temporary_mark \<Rightarrow> temporary_state \<Rightarrow> 'b \<Rightarrow> (temporary_state \<times> 'b) outcome" where
  "temporary_rewind backing mark_point st b =
     obind (free_overflow_pages backing (top_overflow_page mark_point) st b) (\<lambda>(st, b).
       Inr (st\<lparr> current_page_bytes_occupied := mark_current_page_bytes_occupied mark_point,
                total_bytes_occupied := mark_total_bytes_occupied mark_point \<rparr>, b))"

definition add_new_overflow_page ::
  "'b allocator_proc \<Rightarrow> int \<Rightarrow> int \<Rightarrow> temporary_state \<Rightarrow> 'b \<Rightarrow> (allocator_result \<times> temporary_state \<times> 'b) outcome" where
  "add_new_overflow_page backing minimum_size alignment st b =
     (let default_page_size =
            (if OVERFLOW_PAGE_HEADER_SIZE < original_size st then original_size st - OVERFLOW_PAGE_HEADER_SIZE else 0);
          new_size = (if minimum_size + alignment < default_page_size then default_page_size
                      else minimum_size + alignment);
          page_bytes = align_up_ssize (OVERFLOW_PAGE_HEADER_SIZE + new_size) MAX_ALIGN
      in obind (alloc backing page_bytes MAX_ALIGN b) (\<lambda>(allocation, b).
         if res_memory allocation = 0 then Inr (allocation, st, b)
         else
           let page = res_memory allocation
           in Inr (result page Error_NONE,
                   st\<lparr> overflow_pages := (page, new_size) # overflow_pages st,
                       page_data := page_payload page, page_size := new_size,
                       current_page_bytes_occupied := 0 \<rparr>, b)))"

definition update_high_water_mark :: "temporary_state \<Rightarrow> temporary_state" where
  "update_high_water_mark st =
     (if high_water_mark st < total_bytes_occupied st
      then st\<lparr> high_water_mark := total_bytes_occupied st \<rparr> else st)"

definition allocate_from_current_page :: "int \<Rightarrow> int \<Rightarrow> temporary_state \<Rightarrow> allocator_result \<times> temporary_state" where
  "allocate_from_current_page sz alignment st =
     (let current = page_data st + word_of_int (current_page_bytes_occupied st);
          aligned = align_up current (word_of_int alignment);
          next_point = aligned + word_of_int sz
      in if next_point < aligned \<or> page_data st + word_of_int (page_size st) < next_point
         then (result 0 OUT_OF_MEMORY, st)
         else (result aligned Error_NONE,
               update_high_water_mark (st\<lparr>
                 total_bytes_occupied := total_bytes_occupied st + sint (next_point - current),
                 current_page_bytes_occupied := sint (next_point - page_data st) \<rparr>)))"

definition temporary_allocate ::
  "'b allocator_proc option \<Rightarrow> int \<Rightarrow> int \<Rightarrow> temporary_state \<Rightarrow> 'b \<Rightarrow> (allocator_result \<times> temporary_state \<times> 'b) outcome" where
  "temporary_allocate backing sz alignment st b =
     (if page_data st = 0 then Inr (result 0 USE_OF_UNINITIALIZED_ALLOCATOR, st, b)
      else if sz < 0 \<or> \<not> is_power_of_two alignment then Inr (result 0 INVALID_ARGUMENT, st, b)
      else if sz = 0 then Inr (result 0 Error_NONE, st, b)
      else
        let (allocation, st) = allocate_from_current_page sz alignment st
        in if res_memory allocation \<noteq> 0 then Inr (allocation, st, b)
           else case backing of
             None \<Rightarrow> Inr (allocation, st, b)
           | Some proc \<Rightarrow>
               obind (add_new_overflow_page proc sz alignment st b) (\<lambda>(page_allocation, st, b).
                 if res_memory page_allocation = 0 then Inr (page_allocation, st, b)
                 else let (allocation, st) = allocate_from_current_page sz alignment st
                      in Inr (allocation, st, b)))"

definition temporary_resize ::
  "'b allocator_proc option \<Rightarrow> int \<Rightarrow> int \<Rightarrow> int \<Rightarrow> u64 \<Rightarrow> temporary_state \<Rightarrow> 'b \<Rightarrow>
   (allocator_result \<times> temporary_state \<times> 'b) outcome" where
  "temporary_resize backing sz alignment old_size old_memory st b =
     (if sz < 0 \<or> \<not> is_power_of_two alignment then Inr (result 0 INVALID_ARGUMENT, st, b)
      else if old_memory \<noteq> 0 \<and> unat old_memory mod nat alignment \<noteq> 0
      then Inr (result 0 MODE_NOT_IMPLEMENTED, st, b)
      else if sz = 0 \<or> sz \<le> old_size
      then Inr (result (if sz = 0 then 0 else old_memory) Error_NONE, st, b)
      else
        let current_address = page_data st + word_of_int (current_page_bytes_occupied st);
            next_address = old_memory + word_of_int sz;
            limit_address = page_data st + word_of_int (page_size st)
        in if old_memory \<noteq> 0 \<and> old_memory \<le> current_address
              \<and> old_memory + word_of_int old_size = current_address
              \<and> old_memory \<le> next_address \<and> next_address \<le> limit_address
           then Inr (result old_memory Error_NONE,
                     update_high_water_mark (st\<lparr>
                       total_bytes_occupied := total_bytes_occupied st + (sz - old_size),
                       current_page_bytes_occupied := sint (next_address - page_data st) \<rparr>), b)
           else if old_memory = 0 then temporary_allocate backing sz alignment st b
           else Inr (result 0 MODE_NOT_IMPLEMENTED, st, b))"

definition temporary_is_this_yours :: "u64 \<Rightarrow> temporary_state \<Rightarrow> bool" where
  "temporary_is_this_yours address st \<longleftrightarrow>
     (original_data st \<le> address \<and> address < original_data st + word_of_int (original_size st))
     \<or> list_ex (\<lambda>(page, n). page_payload page \<le> address \<and> address < page_payload page + word_of_int n)
         (overflow_pages st)"

definition temporary_proc :: "'b allocator_proc option \<Rightarrow> (temporary_state \<times> 'b) allocator_proc" where
  "temporary_proc backing mode sz alignment old_size old_memory out st =
     (case mode of
        ALLOCATE \<Rightarrow> obind (temporary_allocate backing sz alignment (fst st) (snd st)) (\<lambda>(r, st). Inr (r, out, st))
      | RESIZE \<Rightarrow> obind (temporary_resize backing sz alignment old_size old_memory (fst st) (snd st))
                    (\<lambda>(r, st). Inr (r, out, st))
      | FEATURES \<Rightarrow>
          if old_memory \<noteq> 0
          then Inr (result 0 Error_NONE, out\<lparr> out_features := Temporary_FEATURES \<rparr>, st)
          else Inr (result 0 INVALID_ARGUMENT, out, st)
      | IS_THIS_YOURS \<Rightarrow>
          Inr (result (if temporary_is_this_yours old_memory (fst st) then old_memory else 0) Error_NONE, out, st)
      | _ \<Rightarrow> Inr (result 0 MODE_NOT_IMPLEMENTED, out, st))"

definition talloc :: "'b allocator_proc option \<Rightarrow> int \<Rightarrow> int \<Rightarrow> temporary_state \<times> 'b \<Rightarrow> (u64 \<times> temporary_state \<times> 'b) outcome" where
  "talloc backing sz alignment st =
     obind (alloc (temporary_proc backing) sz alignment st) (\<lambda>(allocation, st).
       kstd_assert (res_memory allocation \<noteq> 0) ''Temporary allocator exhausted.''
         (Inr (res_memory allocation, st)))"

section \<open>The current page\<close>

lemma header_size [simp]: "OVERFLOW_PAGE_HEADER_SIZE = 16"
  using align_up_ssize_eq [of 16 4] by (simp add: OVERFLOW_PAGE_HEADER_SIZE_def MAX_ALIGN_def)

text \<open>A state whose counters fit its current page.\<close>

definition page_ok :: "temporary_state \<Rightarrow> bool" where
  "page_ok st \<longleftrightarrow> page_data st \<noteq> 0 \<and> 0 \<le> current_page_bytes_occupied st
     \<and> current_page_bytes_occupied st \<le> page_size st
     \<and> unat (page_data st) + nat (page_size st) \<le> 2 ^ 63"

definition page_used :: "temporary_state \<Rightarrow> nat set" where
  "page_used st = {unat (page_data st) ..< unat (page_data st) + nat (current_page_bytes_occupied st)}"

definition page_range :: "temporary_state \<Rightarrow> nat set" where
  "page_range st = {unat (page_data st) ..< unat (page_data st) + nat (page_size st)}"

lemma unat_page_offset:
  assumes "page_ok st" "0 \<le> i" "i \<le> page_size st"
  shows "unat (page_data st + word_of_int i) = unat (page_data st) + nat i"
proof -
  have "nat i \<le> nat (page_size st)" using assms(3) by simp
  then have le: "unat (page_data st) + nat i \<le> 2 ^ 63" using assms(1) by (simp add: page_ok_def)
  then have "i < 2 ^ 64" by simp
  then show ?thesis using assms(2) le by (subst unat_add_no_wrap) (simp_all add: unat_word_of_int)
qed

lemma sint_diff:
  fixes a b :: u64
  assumes "unat b \<le> unat a" "unat a - unat b < 2 ^ 63"
  shows "sint (a - b) = int (unat a - unat b)"
proof -
  have "unat (a - b) = unat a - unat b" using assms(1) by (simp add: unat_sub word_le_nat_alt)
  then have u: "uint (a - b) = int (unat a - unat b)" by (simp only: uint_nat)
  have "int (unat a - unat b) < int (2 ^ 63)" using assms(2) by (simp only: of_nat_less_iff)
  then have "uint (a - b) < 2 ^ 63" unfolding u by simp
  then have "signed_take_bit (LENGTH(64) - 1) (uint (a - b)) = uint (a - b)"
    using order_trans [OF _ uint_ge_0 [of "a - b"], of "- (2 ^ 63)"]
    by (intro signed_take_bit_int_eq_self) simp_all
  then show ?thesis using u by (simp only: sint_uint One_nat_def)
qed

lemma high_water_fields [simp]:
  "original_data (update_high_water_mark st) = original_data st"
  "original_size (update_high_water_mark st) = original_size st"
  "page_data (update_high_water_mark st) = page_data st"
  "page_size (update_high_water_mark st) = page_size st"
  "current_page_bytes_occupied (update_high_water_mark st) = current_page_bytes_occupied st"
  "total_bytes_occupied (update_high_water_mark st) = total_bytes_occupied st"
  "overflow_pages (update_high_water_mark st) = overflow_pages st"
  by (simp_all add: update_high_water_mark_def)

lemma page_full:
  fixes d a :: nat and cur psize sz alignment :: int
  assumes "d + nat psize < a + nat sz" "int a < int (d + nat cur) + alignment" "0 \<le> cur" "0 < sz"
  shows "psize < cur + sz + alignment"
  using assms by linarith

lemma allocate_from_current_page_ok:
  assumes ok: "page_ok st" and sz: "0 < sz" "sz < 2 ^ 61" "alignment < 2 ^ 61" "is_power_of_two alignment"
    and run: "allocate_from_current_page sz alignment st = (r, st')"
  shows "if res_memory r = 0 then st' = st \<and> page_size st < current_page_bytes_occupied st + sz + alignment
     else res_error r = Error_NONE \<and> alignment dvd int (unat (res_memory r)) \<and> page_ok st'
       \<and> {unat (res_memory r) ..< unat (res_memory r) + nat sz} \<subseteq> page_used st' - page_used st
       \<and> page_used st \<subseteq> page_used st' \<and> page_range st' = page_range st
       \<and> original_data st' = original_data st \<and> original_size st' = original_size st
       \<and> page_data st' = page_data st \<and> page_size st' = page_size st \<and> overflow_pages st' = overflow_pages st"
proof -
  let ?cur = "page_data st + word_of_int (current_page_bytes_occupied st)"
  let ?start = "align_up ?cur (word_of_int alignment)"
  let ?next = "?start + word_of_int sz"
  let ?limit = "page_data st + word_of_int (page_size st)"
  have cur: "unat ?cur = unat (page_data st) + nat (current_page_bytes_occupied st)"
      "unat ?limit = unat (page_data st) + nat (page_size st)"
    using ok by (auto intro!: unat_page_offset [OF ok] simp: page_ok_def)
  have "nat (current_page_bytes_occupied st) \<le> nat (page_size st)" using ok by (auto simp: page_ok_def)
  then have bound: "unat ?cur \<le> 2 ^ 63" using cur(1) ok by (simp add: page_ok_def)
  note n = bump_next [OF bound less_imp_le [OF sz(1)] sz(2,4,3)]
  have pos: "0 < unat (page_data st)" "0 \<le> current_page_bytes_occupied st" using ok by (simp_all add: page_ok_def unat_gt_0)
  have fits: "?limit < ?next \<longleftrightarrow> unat (page_data st) + nat (page_size st) < unat ?start + nat sz"
    using n(4) cur(2) by (simp add: word_less_nat_alt)
  show ?thesis
  proof (cases "?limit < ?next")
    case True
    then have "r = result 0 OUT_OF_MEMORY" "st' = st" using run by (simp_all add: allocate_from_current_page_def Let_def)
    moreover have "page_size st < current_page_bytes_occupied st + sz + alignment"
      using True n(3) pos(2) sz(1) unfolding fits cur(1) by (rule page_full)
    ultimately show ?thesis by simp
  next
    case False
    have start: "unat (page_data st) \<le> unat ?start" using n(2) cur(1) by simp
    have top: "unat ?start + nat sz \<le> unat (page_data st) + nat (page_size st)" using False fits by simp
    have occ: "sint (?next - page_data st) = int (unat ?start + nat sz - unat (page_data st))"
      using start top n(4) pos ok by (subst sint_diff) (auto simp: page_ok_def)
    have r: "r = result ?start Error_NONE" "current_page_bytes_occupied st' = sint (?next - page_data st)"
        "original_data st' = original_data st" "original_size st' = original_size st"
        "page_data st' = page_data st" "page_size st' = page_size st" "overflow_pages st' = overflow_pages st"
      using run False n(5) by (auto simp: allocate_from_current_page_def Let_def)
    have "unat ?start + nat sz - unat (page_data st) \<le> nat (page_size st)" using top by simp
    then have "page_ok st'" using ok r(2,5,6) occ by (auto simp: page_ok_def le_nat_iff)
    moreover have "nat (current_page_bytes_occupied st') = unat ?start + nat sz - unat (page_data st)"
      unfolding r(2) occ by (rule nat_int)
    then have "page_used st' = {unat (page_data st) ..< unat ?start + nat sz}"
      using r(5) start by (simp add: page_used_def)
    moreover have "unat ?start \<noteq> 0" using start pos by simp
    then have "?start \<noteq> 0" by (metis unsigned_0)
    ultimately show ?thesis using r n(1,2) cur(1) by (auto simp: page_used_def page_range_def)
  qed
qed

text \<open>Growing a block that ends at the current point.\<close>

lemma temporary_resize_ok:
  assumes ok: "page_ok st" and p: "p \<noteq> 0" "0 < n" "n < 2 ^ 61" "unat p + nat n \<le> 2 ^ 63"
    and tail: "unat p + nat n = unat (page_data st) + nat (current_page_bytes_occupied st) \<Longrightarrow>
        unat (page_data st) \<le> unat p"
    and sz: "0 \<le> sz" "sz < 2 ^ 61" "alignment < 2 ^ 61" "is_power_of_two alignment"
  shows "\<exists>r st'. temporary_resize backing sz alignment n p st b = Inr (r, st', b)
    \<and> (res_error r \<noteq> Error_NONE \<longrightarrow> st' = st \<and> res_memory r = 0)
    \<and> (res_error r = Error_NONE \<longrightarrow> res_memory r = (if sz = 0 then 0 else p) \<and> alignment dvd int (unat p)
         \<and> {unat p + nat n ..< unat p + nat sz} \<subseteq> page_used st' - page_used st)
    \<and> page_ok st' \<and> page_used st \<subseteq> page_used st'
    \<and> original_data st' = original_data st \<and> original_size st' = original_size st
    \<and> page_data st' = page_data st \<and> page_size st' = page_size st \<and> overflow_pages st' = overflow_pages st"
proof -
  have dvd: "unat p mod nat alignment = 0 \<longleftrightarrow> alignment dvd int (unat p)"
    using sz(4) by (simp add: is_power_of_two_def nat_dvd_iff dvd_eq_mod_eq_0 [symmetric] flip: int_dvd_int_iff)
  note dvdI = dvd [THEN iffD1]
  show ?thesis
  proof (cases "unat p mod nat alignment \<noteq> 0 \<or> sz \<le> n")
    case True
    then show ?thesis using p(1) sz(1,4) ok dvdI by (auto simp: temporary_resize_def)
  next
    case False
    have al: "alignment dvd int (unat p)" using False by (intro dvdI) simp
    let ?cur = "page_data st + word_of_int (current_page_bytes_occupied st)"
    let ?next = "p + word_of_int sz" and ?limit = "page_data st + word_of_int (page_size st)"
    let ?st1 = "st\<lparr> total_bytes_occupied := total_bytes_occupied st + (sz - n),
                    current_page_bytes_occupied := sint (?next - page_data st) \<rparr>"
    have cur: "unat ?cur = unat (page_data st) + nat (current_page_bytes_occupied st)"
        "unat ?limit = unat (page_data st) + nat (page_size st)"
      using ok by (auto intro!: unat_page_offset [OF ok] simp: page_ok_def)
    have words: "unat (p + word_of_int k) = unat p + nat k" if "0 \<le> k" "k < 2 ^ 61" for k
    proof -
      have "unat (word_of_int k :: u64) = nat k" using that by (intro unat_word_of_int) simp_all
      moreover have "unat p \<le> 2 ^ 63" using p(4) by simp
      ultimately show ?thesis using that by (subst unat_add_no_wrap) simp_all
    qed
    have np: "unat ?next = unat p + nat sz" "unat (p + word_of_int n) = unat p + nat n"
      using words sz p by auto
    have run: "temporary_resize backing sz alignment n p st b =
       (if p + word_of_int n = ?cur \<and> ?next \<le> ?limit
        then Inr (result p Error_NONE, update_high_water_mark ?st1, b)
        else Inr (result 0 MODE_NOT_IMPLEMENTED, st, b))"
    proof -
      have "p \<le> ?cur" if "p + word_of_int n = ?cur"
        using that np(2) by (metis le_add1 word_le_nat_alt)
      moreover have "p \<le> ?next" using np(1) by (simp add: word_le_nat_alt)
      ultimately show ?thesis using False sz p by (auto simp: temporary_resize_def Let_def)
    qed
    show ?thesis
    proof (cases "p + word_of_int n = ?cur \<and> ?next \<le> ?limit")
      case False
      then show ?thesis using run ok by auto
    next
      case True
      then have at: "unat p + nat n = unat (page_data st) + nat (current_page_bytes_occupied st)"
        using np(2) cur(1) by metis
      then have low: "unat (page_data st) \<le> unat p" by (rule tail)
      have top: "unat p + nat sz \<le> unat (page_data st) + nat (page_size st)"
        using True np(1) cur(2) by (simp add: word_le_nat_alt)
      have "0 < unat (page_data st)" using ok by (simp add: page_ok_def unat_gt_0)
      then have occ: "sint (?next - page_data st) = int (unat p + nat sz - unat (page_data st))"
        using low top np(1) ok by (subst sint_diff) (auto simp: page_ok_def)
      have "nat (sint (?next - page_data st)) = unat p + nat sz - unat (page_data st)"
        unfolding occ by (rule nat_int)
      then have used: "page_used (update_high_water_mark ?st1) = {unat (page_data st) ..< unat p + nat sz}"
        using low by (simp add: page_used_def)
      have "unat p + nat sz - unat (page_data st) \<le> nat (page_size st)" using top by simp
      then have ok': "page_ok (update_high_water_mark ?st1)"
        using ok occ by (auto simp: page_ok_def le_nat_iff)
      have "page_used st = {unat (page_data st) ..< unat p + nat n}" using at by (simp add: page_used_def)
      then show ?thesis using run True used ok' \<open>\<not> (unat p mod nat alignment \<noteq> 0 \<or> sz \<le> n)\<close> al low p(2) sz(1)
        by auto
    qed
  qed
qed

section \<open>Storage over a heap\<close>

text \<open>The payload bytes of the original block and of a page; everything but the current page is full.\<close>

definition page_bytes :: "u64 \<times> int \<Rightarrow> nat set" where
  "page_bytes pg = {unat (fst pg) + 16 ..< unat (fst pg) + 16 + nat (snd pg)}"

definition original_bytes :: "temporary_state \<Rightarrow> nat set" where
  "original_bytes st = {unat (original_data st) ..< unat (original_data st) + nat (original_size st)}"

definition full_bytes :: "temporary_state \<Rightarrow> nat set" where
  "full_bytes st = (case overflow_pages st of [] \<Rightarrow> {}
     | pg # rest \<Rightarrow> original_bytes st \<union> (\<Union>pg \<in> set rest. page_bytes pg))"

definition temporary_used :: "temporary_state \<Rightarrow> nat set" where
  "temporary_used st = page_used st \<union> full_bytes st"

definition storage_pointers :: "temporary_state \<Rightarrow> u64 set" where
  "storage_pointers st = insert (original_data st) (fst ` set (overflow_pages st))"

definition temporary_layout :: "(u64 \<Rightarrow> nat set) \<Rightarrow> temporary_state \<Rightarrow> bool" where
  "temporary_layout own st \<longleftrightarrow>
     distinct (original_data st # map fst (overflow_pages st)) \<and> 0 \<notin> storage_pointers st
   \<and> 0 < original_size st \<and> original_size st < 2 ^ 61
   \<and> original_bytes st \<subseteq> own (original_data st)
   \<and> (\<forall>pg \<in> set (overflow_pages st). 0 < snd pg
        \<and> {unat (fst pg) ..< unat (fst pg) + 16 + nat (snd pg)} \<subseteq> own (fst pg))
   \<and> page_data st = (case overflow_pages st of [] \<Rightarrow> original_data st | pg # rest \<Rightarrow> page_payload (fst pg))
   \<and> page_size st = (case overflow_pages st of [] \<Rightarrow> original_size st | pg # rest \<Rightarrow> snd pg)
   \<and> 0 \<le> current_page_bytes_occupied st \<and> current_page_bytes_occupied st \<le> page_size st"

text \<open>
  The states reached from \<open>(st0, b0)\<close>: the heap holds the storage's blocks and the pointers \<open>F\<close> of
  others, whose blocks are where they were; the pages of \<open>st0\<close> are still there, below newer ones.
\<close>

definition temporary_from :: "('b \<Rightarrow> u64 set \<Rightarrow> bool) \<Rightarrow> ('b \<Rightarrow> u64 \<Rightarrow> nat set) \<Rightarrow> u64 set \<Rightarrow>
    temporary_state \<times> 'b \<Rightarrow> temporary_state \<times> 'b \<Rightarrow> bool" where
  "temporary_from heap own F s0 s \<longleftrightarrow>
     heap (snd s) (F \<union> storage_pointers (fst s)) \<and> F \<inter> storage_pointers (fst s) = {}
   \<and> temporary_layout (own (snd s)) (fst s)
   \<and> original_data (fst s) = original_data (fst s0) \<and> original_size (fst s) = original_size (fst s0)
   \<and> (\<exists>newer. overflow_pages (fst s) = newer @ overflow_pages (fst s0))
   \<and> (\<forall>q \<in> F \<union> storage_pointers (fst s0). own (snd s) q = own (snd s0) q)"

lemma unat_payload:
  assumes "unat page + 16 \<le> 2 ^ 63" shows "unat (page_payload page) = unat page + 16"
  using assms by (simp add: page_payload_def unat_add_no_wrap)

lemma page_bytes_owned:
  assumes "temporary_layout own st" "q \<in> set (overflow_pages st)"
  shows "page_bytes q \<subseteq> own (fst q)"
proof -
  have "page_bytes q \<subseteq> {unat (fst q) ..< unat (fst q) + 16 + nat (snd q)}" by (auto simp: page_bytes_def)
  also have "\<dots> \<subseteq> own (fst q)" using assms by (simp add: temporary_layout_def)
  finally show ?thesis .
qed

lemma layout_high_water:
  "temporary_layout own st \<Longrightarrow> \<forall>q \<in> storage_pointers st. own' q = own q \<Longrightarrow>
   temporary_layout own' (st\<lparr> high_water_mark := h \<rparr>)"
  by (auto simp: temporary_layout_def storage_pointers_def original_bytes_def cong: list.case_cong)

text \<open>Steps that only move the counters of the current page.\<close>

definition same_pages :: "temporary_state \<Rightarrow> temporary_state \<Rightarrow> bool" where
  "same_pages st st' \<longleftrightarrow> original_data st' = original_data st \<and> original_size st' = original_size st
     \<and> page_data st' = page_data st \<and> page_size st' = page_size st \<and> overflow_pages st' = overflow_pages st"

lemma same_pages_facts:
  assumes "same_pages st st'"
  shows "storage_pointers st' = storage_pointers st" "full_bytes st' = full_bytes st"
    "original_bytes st' = original_bytes st" "page_range st' = page_range st"
    "temporary_layout own st \<Longrightarrow> page_ok st' \<Longrightarrow> temporary_layout own st'"
  using assms by (auto simp: same_pages_def storage_pointers_def full_bytes_def original_bytes_def
      page_range_def page_ok_def temporary_layout_def cong: list.case_cong)

lemma temporary_from_same_pages:
  "temporary_from heap own F s0 (st, b) \<Longrightarrow> same_pages st st' \<Longrightarrow> page_ok st' \<Longrightarrow>
   temporary_from heap own F s0 (st', b)"
  using same_pages_facts(1,5) [of st st'] by (auto simp: temporary_from_def same_pages_def)

lemma page_used_range: "page_ok st \<Longrightarrow> page_used st \<subseteq> page_range st"
  by (auto simp: page_used_def page_range_def page_ok_def)

context sized_heap
begin

lemma storage_page_ok:
  assumes inv: "inv b (F \<union> storage_pointers st)" and lay: "temporary_layout (owned b) st"
  shows "page_ok st" "page_range st \<inter> full_bytes st = {}"
    "overflow_pages st = [] \<Longrightarrow> page_range st = original_bytes st"
    "overflow_pages st = pg # rest \<Longrightarrow> page_range st = page_bytes pg
       \<and> unat (page_data st) = unat (fst pg) + 16 \<and> unat (fst pg) + 15 \<notin> temporary_used st"
proof -
  have "original_data st \<in> F \<union> storage_pointers st" by (simp add: storage_pointers_def)
  from bounded [OF inv this] have ob: "original_bytes st \<subseteq> {..< 2 ^ 63}"
    using lay by (auto simp: temporary_layout_def)
  have len: "0 < nat (original_size st)" using lay by (simp add: temporary_layout_def)
  then have "unat (original_data st) + nat (original_size st) - 1 \<in> original_bytes st"
    by (auto simp: original_bytes_def)
  then have otop: "unat (original_data st) + nat (original_size st) \<le> 2 ^ 63" using ob len by auto
  have page: "unat (fst q) + 16 + nat (snd q) \<le> 2 ^ 63 \<and> 0 < snd q
      \<and> {unat (fst q) ..< unat (fst q) + 16 + nat (snd q)} \<subseteq> owned b (fst q)"
    if "q \<in> set (overflow_pages st)" for q
  proof -
    have own: "{unat (fst q) ..< unat (fst q) + 16 + nat (snd q)} \<subseteq> owned b (fst q)" "0 < snd q"
      using lay that by (auto simp: temporary_layout_def)
    have "fst q \<in> F \<union> storage_pointers st" using that by (auto simp: storage_pointers_def)
    from bounded [OF inv this] own(1) have "{unat (fst q) ..< unat (fst q) + 16 + nat (snd q)} \<subseteq> {..< 2 ^ 63}"
      by blast
    moreover have "unat (fst q) + 16 + nat (snd q) - 1 \<in> {unat (fst q) ..< unat (fst q) + 16 + nat (snd q)}"
      by auto
    ultimately have "unat (fst q) + 16 + nat (snd q) - 1 < 2 ^ 63" by blast
    then show ?thesis using own by simp
  qed
  have sep: "owned b x \<inter> owned b y = {}"
    if "x \<in> storage_pointers st" "y \<in> storage_pointers st" "x \<noteq> y" for x y
    using disjoint [OF inv, of x y] that by blast
  have "page_ok st \<and> page_range st \<inter> full_bytes st = {}
    \<and> (overflow_pages st = [] \<longrightarrow> page_range st = original_bytes st)
    \<and> (overflow_pages st = pg # rest \<longrightarrow> page_range st = page_bytes pg
       \<and> unat (page_data st) = unat (fst pg) + 16 \<and> unat (fst pg) + 15 \<notin> temporary_used st)" for pg rest
  proof (cases "overflow_pages st")
    case Nil
    then have "page_data st = original_data st" "page_size st = original_size st" "original_data st \<noteq> 0"
      using lay by (auto simp: temporary_layout_def storage_pointers_def)
    then show ?thesis using Nil otop lay
      by (simp add: page_ok_def page_range_def full_bytes_def original_bytes_def temporary_layout_def)
  next
    case (Cons q qs)
    then have pd: "page_data st = page_payload (fst q)" "page_size st = snd q"
      using lay by (auto simp: temporary_layout_def)
    have q: "unat (fst q) + 16 + nat (snd q) \<le> 2 ^ 63" "0 < snd q"
      "{unat (fst q) ..< unat (fst q) + 16 + nat (snd q)} \<subseteq> owned b (fst q)"
      using page [of q] Cons by auto
    have pay: "unat (page_data st) = unat (fst q) + 16" using q pd by (simp add: unat_payload)
    then have "page_data st \<noteq> 0" by (metis add_is_0 numeral_neq_zero unsigned_0)
    then have ok: "page_ok st" using pay q pd lay by (simp add: page_ok_def temporary_layout_def)
    have range: "page_range st = page_bytes q" using pay pd by (simp add: page_range_def page_bytes_def)
    have "page_bytes q \<subseteq> owned b (fst q)" using q(3) by (auto simp: page_bytes_def)
    moreover have "owned b (fst q) \<inter> full_bytes st = {}"
    proof -
      have o: "fst q \<noteq> original_data st" "\<forall>q' \<in> set qs. fst q \<noteq> fst q'"
        using lay Cons by (auto simp: temporary_layout_def)
      have "owned b (fst q) \<inter> owned b (original_data st) = {}"
        using o Cons by (intro sep) (auto simp: storage_pointers_def)
      moreover have "owned b (fst q) \<inter> page_bytes q' = {}" if "q' \<in> set qs" for q'
      proof -
        have "owned b (fst q) \<inter> owned b (fst q') = {}"
          using o that Cons by (intro sep) (auto simp: storage_pointers_def)
        moreover have "page_bytes q' \<subseteq> owned b (fst q')"
          using page [of q'] that Cons by (auto simp: page_bytes_def)
        ultimately show ?thesis by blast
      qed
      moreover have "original_bytes st \<subseteq> owned b (original_data st)" using lay by (simp add: temporary_layout_def)
      ultimately show ?thesis using Cons by (auto simp: full_bytes_def)
    qed
    moreover have "unat (fst q) + 15 \<in> owned b (fst q)" using q by auto
    moreover have "unat (fst q) + 15 \<notin> page_used st" using pay by (simp add: page_used_def)
    ultimately show ?thesis using ok range pay Cons by (auto simp: temporary_used_def)
  qed
  then show "page_ok st" "page_range st \<inter> full_bytes st = {}"
    "overflow_pages st = [] \<Longrightarrow> page_range st = original_bytes st"
    "overflow_pages st = pg # rest \<Longrightarrow> page_range st = page_bytes pg
       \<and> unat (page_data st) = unat (fst pg) + 16 \<and> unat (fst pg) + 15 \<notin> temporary_used st"
    by blast+
qed

lemma new_page_ok:
  assumes start: "temporary_from inv owned F s0 (st, b)"
    and sz: "0 < sz" "sz < 2 ^ 61" "0 < alignment" "alignment < 2 ^ 61"
  shows "\<exists>r st' b'. add_new_overflow_page proc sz alignment st b = Inr (r, st', b')
    \<and> temporary_from inv owned F s0 (st', b')
    \<and> (if res_memory r = 0 then st' = st
       else sz + alignment \<le> page_size st' \<and> current_page_bytes_occupied st' = 0
         \<and> temporary_used st \<subseteq> temporary_used st' \<and> page_range st' \<inter> temporary_used st = {})"
proof -
  let ?L = "F \<union> storage_pointers st"
  have inv: "inv b ?L" and lay: "temporary_layout (owned b) st" and F: "F \<inter> storage_pointers st = {}"
    using start by (auto simp: temporary_from_def)
  note pg = storage_page_ok [OF inv lay]
  define new_size where "new_size = (if sz + alignment < (if 16 < original_size st then original_size st - 16 else 0)
      then (if 16 < original_size st then original_size st - 16 else 0) else sz + alignment)"
  let ?bytes = "align_up_ssize (16 + new_size) MAX_ALIGN"
  have eq: "add_new_overflow_page proc sz alignment st b =
      obind (alloc proc ?bytes MAX_ALIGN b) (\<lambda>(allocation, b).
         if res_memory allocation = 0 then Inr (allocation, st, b)
         else Inr (result (res_memory allocation) Error_NONE,
                   st\<lparr> overflow_pages := (res_memory allocation, new_size) # overflow_pages st,
                       page_data := page_payload (res_memory allocation), page_size := new_size,
                       current_page_bytes_occupied := 0 \<rparr>, b))"
    by (simp only: add_new_overflow_page_def Let_def header_size new_size_def)
  have ns: "0 < new_size" "sz + alignment \<le> new_size" "new_size < 2 ^ 62"
    using sz lay by (auto simp: new_size_def temporary_layout_def)
  have bytes: "16 + new_size \<le> ?bytes" "?bytes < 16 + new_size + 16"
    using align_up_ssize_bounds(2,3) [where k = 4 and v = "16 + new_size"] by (simp_all add: MAX_ALIGN_def)
  then have "?bytes < 2 ^ 63" "MAX_ALIGN < 2 ^ 63" using ns by (simp_all add: MAX_ALIGN_def)
  from alloc_spec [OF inv this] obtain r b' where r: "alloc proc ?bytes MAX_ALIGN b = Inr (r, b')"
    "if res_memory r = 0 then inv b' ?L
     else res_memory r \<notin> ?L \<and> inv b' (insert (res_memory r) ?L)
       \<and> {unat (res_memory r) ..< unat (res_memory r) + nat ?bytes} \<subseteq> owned b' (res_memory r)"
    "\<forall>p \<in> ?L. owned b' p = owned b p"
    by (auto split: if_splits)
  have lay': "temporary_layout (owned b') st"
    using lay r(3) by (auto simp: temporary_layout_def storage_pointers_def)
  have keep: "\<forall>q \<in> F \<union> storage_pointers (fst s0). owned b' q = owned (snd s0) q"
  proof -
    have "storage_pointers (fst s0) \<subseteq> storage_pointers st"
      using start by (auto simp: temporary_from_def storage_pointers_def)
    then show ?thesis using r(3) start by (auto simp: temporary_from_def)
  qed
  show ?thesis
  proof (cases "res_memory r = 0")
    case True
    have "add_new_overflow_page proc sz alignment st b = Inr (r, st, b')"
      using r(1) True by (simp add: eq)
    moreover have "temporary_from inv owned F s0 (st, b')"
      using start lay' r(2) True keep by (simp add: temporary_from_def)
    ultimately show ?thesis using True by auto
  next
    case False
    let ?p = "res_memory r"
    let ?st = "st\<lparr> overflow_pages := (?p, new_size) # overflow_pages st, page_data := page_payload ?p,
        page_size := new_size, current_page_bytes_occupied := 0 \<rparr>"
    have own: "?p \<notin> ?L" "inv b' (insert ?p ?L)"
        "{unat ?p ..< unat ?p + nat ?bytes} \<subseteq> owned b' ?p" using r(2) False by auto
    have run: "add_new_overflow_page proc sz alignment st b = Inr (result ?p Error_NONE, ?st, b')"
      using r(1) False by (simp add: eq)
    have ptrs: "storage_pointers ?st = insert ?p (storage_pointers st)" by (auto simp: storage_pointers_def)
    have "{unat ?p ..< unat ?p + 16 + nat new_size} \<subseteq> {unat ?p ..< unat ?p + nat ?bytes}"
      using bytes ns by auto
    then have "temporary_layout (owned b') ?st"
      using lay' own False ns unfolding temporary_layout_def ptrs
      by (auto simp: storage_pointers_def original_bytes_def)
    moreover have "insert ?p ?L = F \<union> storage_pointers ?st" using ptrs by blast
    ultimately have start': "temporary_from inv owned F s0 (?st, b')"
      using start own F keep ptrs by (auto simp: temporary_from_def)
    then have inv': "inv b' (F \<union> storage_pointers ?st)" "temporary_layout (owned b') ?st"
      by (simp_all add: temporary_from_def)
    have full: "full_bytes ?st = full_bytes st \<union> page_range st"
    proof (cases "overflow_pages st")
      case Nil
      then show ?thesis using pg(3) by (simp add: full_bytes_def original_bytes_def)
    next
      case (Cons q qs)
      then show ?thesis using pg(4) [OF Cons] by (auto simp: full_bytes_def original_bytes_def)
    qed
    have "page_used st \<subseteq> page_range st" using pg(1) by (rule page_used_range)
    then have sub: "temporary_used st \<subseteq> full_bytes ?st" using full by (auto simp: temporary_used_def)
    moreover have "page_range ?st \<inter> full_bytes ?st = {}" by (rule storage_page_ok(2) [OF inv'])
    ultimately have "page_range ?st \<inter> temporary_used st = {}" "temporary_used st \<subseteq> temporary_used ?st"
      by (auto simp: temporary_used_def)
    then show ?thesis using run start' ns False by auto
  qed
qed

lemma temporary_bump_law:
  assumes start: "temporary_from inv owned F s0 (st, b)"
    and sz: "0 \<le> sz" "sz < 2 ^ 61" "alignment < 2 ^ 61" "is_power_of_two alignment"
  shows "\<exists>r st' b'. temporary_allocate (Some proc) sz alignment st b = Inr (r, st', b')
    \<and> temporary_from inv owned F s0 (st', b') \<and> temporary_used st \<subseteq> temporary_used st'
    \<and> (res_memory r \<noteq> 0 \<longrightarrow> res_error r = Error_NONE \<and> 0 < sz \<and> alignment dvd int (unat (res_memory r))
        \<and> {unat (res_memory r) ..< unat (res_memory r) + nat sz} \<subseteq> temporary_used st' - temporary_used st)"
proof -
  have inv: "inv b (F \<union> storage_pointers st)" and lay: "temporary_layout (owned b) st"
    using start by (auto simp: temporary_from_def)
  note pg = storage_page_ok [OF inv lay]
  have pd: "page_data st \<noteq> 0" using pg(1) by (simp add: page_ok_def)
  have al: "0 < alignment" using sz(4) by (simp add: is_power_of_two_def)
  show ?thesis
  proof (cases "sz = 0")
    case True
    then show ?thesis using start pd sz by (simp add: temporary_allocate_def)
  next
    case False
    then have pos: "0 < sz" using sz(1) by simp
    obtain r st1 where one: "allocate_from_current_page sz alignment st = (r, st1)" by (rule prod.exhaust)
    note fit = allocate_from_current_page_ok [OF pg(1) pos sz(2,3,4) one]
    show ?thesis
    proof (cases "res_memory r = 0")
      case False
      then have same: "same_pages st st1" using fit by (simp add: same_pages_def)
      have "temporary_from inv owned F s0 (st1, b)"
        using temporary_from_same_pages [OF start same] fit False by simp
      moreover have "page_used st1 \<inter> full_bytes st = {}"
        using page_used_range [of st1] fit False pg(2) by auto
      ultimately show ?thesis
        using one pd sz \<open>sz \<noteq> 0\<close> False fit same_pages_facts(2) [OF same]
        by (auto simp: temporary_allocate_def temporary_used_def)
    next
      case True
      then have st1: "st1 = st" using fit by simp
      obtain r2 st2 b2 where new: "add_new_overflow_page proc sz alignment st b = Inr (r2, st2, b2)"
        "temporary_from inv owned F s0 (st2, b2)"
        "if res_memory r2 = 0 then st2 = st
         else sz + alignment \<le> page_size st2 \<and> current_page_bytes_occupied st2 = 0
           \<and> temporary_used st \<subseteq> temporary_used st2 \<and> page_range st2 \<inter> temporary_used st = {}"
        using new_page_ok [OF start pos sz(2) al sz(3)] by blast
      show ?thesis
      proof (cases "res_memory r2 = 0")
        case True
        then show ?thesis using new one st1 \<open>res_memory r = 0\<close> pd sz \<open>sz \<noteq> 0\<close>
          by (simp add: temporary_allocate_def)
      next
        case False
        have n: "sz + alignment \<le> page_size st2" "current_page_bytes_occupied st2 = 0"
           "temporary_used st \<subseteq> temporary_used st2" "page_range st2 \<inter> temporary_used st = {}"
          using new(3) False by simp_all
        have inv2: "inv b2 (F \<union> storage_pointers st2)" and lay2: "temporary_layout (owned b2) st2"
          using new(2) by (auto simp: temporary_from_def)
        note pg2 = storage_page_ok [OF inv2 lay2]
        obtain r3 st3 where two: "allocate_from_current_page sz alignment st2 = (r3, st3)" by (rule prod.exhaust)
        note fit3 = allocate_from_current_page_ok [OF pg2(1) pos sz(2,3,4) two]
        have nz: "res_memory r3 \<noteq> 0" using fit3 n(1,2) by (auto split: if_splits)
        then have same: "same_pages st2 st3" using fit3 by (simp add: same_pages_def)
        have "temporary_from inv owned F s0 (st3, b2)"
          using temporary_from_same_pages [OF new(2) same] fit3 nz by simp
        moreover have "temporary_used st2 \<subseteq> temporary_used st3"
          using fit3 nz same_pages_facts(2) [OF same] by (auto simp: temporary_used_def)
        moreover have "page_used st3 \<subseteq> page_range st2" using page_used_range [of st3] fit3 nz by simp
        then have "{unat (res_memory r3) ..< unat (res_memory r3) + nat sz} \<subseteq> temporary_used st3 - temporary_used st"
          using fit3 nz n(4) by (auto simp: temporary_used_def)
        ultimately show ?thesis
          using new(1) one st1 \<open>res_memory r = 0\<close> False two pd sz \<open>sz \<noteq> 0\<close> nz fit3 pos n(3)
          by (simp add: temporary_allocate_def)
      qed
    qed
  qed
qed

lemma temporary_grow_law:
  assumes start: "temporary_from inv owned F s0 (st, b)"
    and p: "p \<noteq> 0" "0 < n" "n < 2 ^ 61" and used: "{unat p ..< unat p + nat n} \<subseteq> temporary_used st"
    and sz: "0 \<le> sz" "sz < 2 ^ 61" "alignment < 2 ^ 61" "is_power_of_two alignment"
  shows "\<exists>r st'. temporary_resize (Some proc) sz alignment n p st b = Inr (r, st', b)
    \<and> temporary_from inv owned F s0 (st', b) \<and> temporary_used st \<subseteq> temporary_used st'
    \<and> (res_error r \<noteq> Error_NONE \<longrightarrow> st' = st \<and> res_memory r = 0)
    \<and> (res_error r = Error_NONE \<longrightarrow> res_memory r = (if sz = 0 then 0 else p) \<and> alignment dvd int (unat p)
         \<and> {unat p + nat n ..< unat p + nat sz} \<subseteq> temporary_used st' - temporary_used st)"
proof -
  have inv: "inv b (F \<union> storage_pointers st)" and lay: "temporary_layout (owned b) st"
    using start by (auto simp: temporary_from_def)
  note pg = storage_page_ok [OF inv lay]
  have in_used: "x \<in> temporary_used st" if "unat p \<le> x" "x < unat p + nat n" for x using used that by auto
  have bounded_used: "temporary_used st \<subseteq> {..< 2 ^ 63}"
  proof -
    have own: "owned b q \<subseteq> {..< 2 ^ 63}" if "q \<in> storage_pointers st" for q using bounded [OF inv, of q] that by blast
    have "original_bytes st \<subseteq> owned b (original_data st)" using lay by (simp add: temporary_layout_def)
    also have "\<dots> \<subseteq> {..< 2 ^ 63}" by (rule own) (simp add: storage_pointers_def)
    finally have "original_bytes st \<subseteq> {..< 2 ^ 63}" .
    moreover have "page_bytes q \<subseteq> {..< 2 ^ 63}" if "q \<in> set (overflow_pages st)" for q
    proof -
      have "page_bytes q \<subseteq> owned b (fst q)" by (rule page_bytes_owned [OF lay that])
      also have "\<dots> \<subseteq> {..< 2 ^ 63}" by (rule own) (simp add: storage_pointers_def that)
      finally show ?thesis .
    qed
    ultimately have "full_bytes st \<subseteq> {..< 2 ^ 63}"
      by (cases "overflow_pages st") (simp_all add: full_bytes_def UN_subset_iff)
    moreover have "page_used st \<subseteq> {..< 2 ^ 63}"
      using page_used_range [OF pg(1)] pg(1) by (auto simp: page_range_def page_ok_def)
    ultimately show ?thesis by (simp add: temporary_used_def)
  qed
  have "unat p + nat n - 1 \<in> temporary_used st" using p(2) by (intro in_used) auto
  then have "unat p + nat n - 1 < 2 ^ 63" using bounded_used by blast
  then have top: "unat p + nat n \<le> 2 ^ 63" by simp
  have tail: "unat (page_data st) \<le> unat p"
    if at: "unat p + nat n = unat (page_data st) + nat (current_page_bytes_occupied st)"
  proof (cases "overflow_pages st")
    case Nil
    then have "temporary_used st = page_used st" by (simp add: temporary_used_def full_bytes_def)
    then show ?thesis using in_used [of "unat p"] p(2) by (auto simp: page_used_def)
  next
    case (Cons q qs)
    show ?thesis
    proof (rule ccontr)
      assume "\<not> ?thesis"
      then have "unat (fst q) + 15 \<in> temporary_used st" using pg(4) [OF Cons] at by (intro in_used) auto
      then show False using pg(4) [OF Cons] by blast
    qed
  qed
  obtain r st' where r: "temporary_resize (Some proc) sz alignment n p st b = Inr (r, st', b)"
    "res_error r \<noteq> Error_NONE \<longrightarrow> st' = st \<and> res_memory r = 0"
    "res_error r = Error_NONE \<longrightarrow> res_memory r = (if sz = 0 then 0 else p) \<and> alignment dvd int (unat p)
         \<and> {unat p + nat n ..< unat p + nat sz} \<subseteq> page_used st' - page_used st"
    "page_ok st'" "page_used st \<subseteq> page_used st'" "same_pages st st'"
    using temporary_resize_ok [OF pg(1) p top tail sz, of "Some proc" b] unfolding same_pages_def by blast
  have "page_used st' \<inter> full_bytes st = {}"
    using page_used_range [OF r(4)] same_pages_facts(4) [OF r(6)] pg(2) by blast
  then show ?thesis
    using r temporary_from_same_pages [OF start r(6,4)] same_pages_facts(2) [OF r(6)]
    by (auto simp: temporary_used_def)
qed

lemma free_pages_loop_ok:
  assumes "inv b (X \<union> fst ` set newer)" "distinct (map fst (newer @ rest))" "0 \<notin> fst ` set (newer @ rest)"
    "X \<inter> fst ` set newer = {}" "\<forall>pg \<in> set newer. 0 < snd pg"
  shows "\<exists>b'. free_pages_loop (Some proc) (top_page rest) (newer @ rest) b = Inr (rest, b')
    \<and> inv b' X \<and> (\<forall>q \<in> X. owned b' q = owned b q)"
  using assms
proof (induction newer arbitrary: b)
  case Nil
  then show ?case by (cases rest) (auto simp: top_page_def)
next
  case (Cons pg newer)
  obtain p n where pg: "pg = (p, n)" by (rule prod.exhaust)
  have ne: "p \<noteq> top_page rest" using Cons.prems(2,3) pg by (auto simp: top_page_def split: list.splits)
  have eq: "X \<union> fst ` set (pg # newer) - {p} = X \<union> fst ` set newer" using Cons.prems(2,4) pg by auto
  have "p \<in> X \<union> fst ` set (pg # newer)" "0 \<le> 16 + n" using pg Cons.prems(5) by auto
  from free_sized_spec [OF Cons.prems(1) this, of 0] obtain b1 where b1:
    "free_aligned proc p (16 + n) 0 b = Inr (Error_NONE, b1)" "inv b1 (X \<union> fst ` set newer)"
    "\<forall>q \<in> X \<union> fst ` set newer. owned b1 q = owned b q"
    unfolding eq by auto
  obtain b' where "free_pages_loop (Some proc) (top_page rest) (newer @ rest) b1 = Inr (rest, b')"
      "inv b' X" "\<forall>q \<in> X. owned b' q = owned b1 q"
    using Cons.IH [OF b1(2)] Cons.prems by auto
  then show ?case using b1 ne pg by (auto simp: resolve_allocator_def free_memory_def)
qed

lemma temporary_rewind_ok:
  assumes start: "temporary_from inv owned F (st0, b0) (st, b)"
    and zero: "temporary_from inv owned F (st0, b0) (st0, b0)"
  shows "\<exists>b'. temporary_rewind (Some proc) (temporary_get_mark st0) st b
      = Inr (st0\<lparr> high_water_mark := high_water_mark st \<rparr>, b')
    \<and> inv b' (F \<union> storage_pointers st0)
    \<and> (\<forall>q \<in> F \<union> storage_pointers st0. owned b' q = owned b0 q)"
proof -
  obtain newer where newer: "overflow_pages st = newer @ overflow_pages st0"
      "original_data st = original_data st0" "original_size st = original_size st0"
    using start by (auto simp: temporary_from_def)
  have lay: "temporary_layout (owned b) st" "temporary_layout (owned b0) st0"
    using start zero by (auto simp: temporary_from_def)
  have ptrs: "F \<union> storage_pointers st = (F \<union> storage_pointers st0) \<union> fst ` set newer"
    using newer by (auto simp: storage_pointers_def)
  have "inv b ((F \<union> storage_pointers st0) \<union> fst ` set newer)" using start ptrs by (simp add: temporary_from_def)
  moreover have "distinct (map fst (newer @ overflow_pages st0))" "0 \<notin> fst ` set (newer @ overflow_pages st0)"
      "\<forall>pg \<in> set newer. 0 < snd pg"
    using lay newer by (auto simp: temporary_layout_def storage_pointers_def)
  moreover have "(F \<union> storage_pointers st0) \<inter> fst ` set newer = {}"
  proof -
    have "original_data st0 \<notin> fst ` set newer" "fst ` set newer \<inter> fst ` set (overflow_pages st0) = {}"
      using lay(1) newer by (auto simp: temporary_layout_def)
    moreover have "F \<inter> fst ` set newer = {}"
      using start newer(1) by (auto simp: temporary_from_def storage_pointers_def)
    ultimately show ?thesis by (auto simp: storage_pointers_def)
  qed
  ultimately obtain b' where b': "free_pages_loop (Some proc) (top_page (overflow_pages st0)) (overflow_pages st) b
      = Inr (overflow_pages st0, b')" "inv b' (F \<union> storage_pointers st0)"
      "\<forall>q \<in> F \<union> storage_pointers st0. owned b' q = owned b q"
    using free_pages_loop_ok [of b "F \<union> storage_pointers st0" newer "overflow_pages st0"] newer(1) by auto
  have "page_data st0 = (case overflow_pages st0 of [] \<Rightarrow> original_data st0 | pg # rest \<Rightarrow> page_payload (fst pg))"
      "page_size st0 = (case overflow_pages st0 of [] \<Rightarrow> original_size st0 | pg # rest \<Rightarrow> snd pg)"
    using lay(2) by (simp_all add: temporary_layout_def)
  then have "free_overflow_pages (Some proc) (top_page (overflow_pages st0)) st b
      = Inr (st\<lparr> overflow_pages := overflow_pages st0, page_data := page_data st0, page_size := page_size st0 \<rparr>, b')"
    using b'(1) newer(2,3) by (cases "overflow_pages st0") (auto simp: free_overflow_pages_def)
  then have "temporary_rewind (Some proc) (temporary_get_mark st0) st b
      = Inr (st0\<lparr> high_water_mark := high_water_mark st \<rparr>, b')"
    using newer(2,3) by (simp add: temporary_rewind_def temporary_get_mark_def)
  moreover have "\<forall>q \<in> F \<union> storage_pointers st0. owned b' q = owned b0 q"
    using b'(3) start by (auto simp: temporary_from_def)
  ultimately show ?thesis using b'(2) by blast
qed

lemma temporary_destroy_ok:
  assumes inv: "inv b (F \<union> storage_pointers st)" and F: "F \<inter> storage_pointers st = {}"
    and lay: "temporary_layout (owned b) st"
  shows "\<exists>b'. temporary_destroy (Some proc) st b = Inr b' \<and> inv b' F \<and> (\<forall>q \<in> F. owned b' q = owned b q)"
proof -
  let ?X = "insert (original_data st) F"
  have ptrs: "F \<union> storage_pointers st = ?X \<union> fst ` set (overflow_pages st)" by (auto simp: storage_pointers_def)
  have l: "distinct (map fst (overflow_pages st @ []))" "0 \<notin> fst ` set (overflow_pages st @ [])"
      "?X \<inter> fst ` set (overflow_pages st) = {}" "\<forall>pg \<in> set (overflow_pages st). 0 < snd pg"
      "original_data st \<noteq> 0" "0 \<le> original_size st" "original_data st \<notin> F"
    using lay F by (auto simp: temporary_layout_def storage_pointers_def)
  obtain b1 where b1: "free_pages_loop (Some proc) 0 (overflow_pages st) b = Inr ([], b1)" "inv b1 ?X"
      "\<forall>q \<in> ?X. owned b1 q = owned b q"
    using free_pages_loop_ok [OF inv [unfolded ptrs] l(1,2,3,4)] by (auto simp: top_page_def)
  have eq: "?X - {original_data st} = F" using l(7) by blast
  obtain b2 where b2: "free_aligned proc (original_data st) (original_size st) 0 b1 = Inr (Error_NONE, b2)" "inv b2 F"
      "\<forall>q \<in> F. owned b2 q = owned b1 q"
    using free_sized_spec [OF b1(2), of "original_data st" "original_size st" 0] l(6) unfolding eq by auto
  then show ?thesis using b1 l(5)
    by (auto simp: temporary_destroy_def free_overflow_pages_def free_memory_def)
qed

lemma temporary_new_ok:
  assumes inv: "inv b F" and run: "temporary_new proc sz b = Inr (st, b')" and bound: "sz < 2 ^ 61"
  shows "temporary_from inv owned F (st, b') (st, b') \<and> temporary_used st = {} \<and> (\<forall>q \<in> F. owned b' q = owned b q)"
proof -
  have pos: "0 < sz" using run by (auto simp: temporary_new_def dest!: kstd_assert_InrD)
  have "sz < 2 ^ 63" "MAX_ALIGN < 2 ^ 63" using bound by (simp_all add: MAX_ALIGN_def)
  from alloc_spec [OF inv this] obtain r s' where r: "alloc proc sz MAX_ALIGN b = Inr (r, s')"
     "if res_memory r = 0 then inv s' F
       else res_memory r \<notin> F \<and> inv s' (insert (res_memory r) F)
       \<and> {unat (res_memory r) ..< unat (res_memory r) + nat sz} \<subseteq> owned s' (res_memory r)"
     "\<forall>p \<in> F. owned s' p = owned b p"
    by (auto split: if_splits)
  have st: "st = temporary_over (res_memory r) sz" "b' = s'" and nz: "res_memory r \<noteq> 0"
    using run r(1) by (auto simp: temporary_new_def dest!: kstd_assert_InrD)
  have "F \<union> storage_pointers st = insert (res_memory r) F"
    by (auto simp: storage_pointers_def st temporary_over_def)
  then show ?thesis using r(2,3) nz pos bound
    by (simp add: temporary_from_def st temporary_over_def temporary_layout_def storage_pointers_def
        original_bytes_def temporary_used_def page_used_def full_bytes_def)
qed

end

sublocale sized_heap \<subseteq> temporary: bump_allocator "temporary_proc (Some proc)"
  "temporary_from inv owned F s0" "\<lambda>s. temporary_used (fst s)" for F s0
proof unfold_locales
  fix s :: "temporary_state \<times> 'a" and sz alignment old_size :: int and p out
  obtain st b where s: "s = (st, b)" by (rule prod.exhaust)
  assume "temporary_from inv owned F s0 s"
  then have start: "temporary_from inv owned F s0 (st, b)" by (simp add: s)
  show "\<exists>r s'. temporary_proc (Some proc) ALLOCATE sz alignment 0 0 out s = Inr (r, out, s')
        \<and> temporary_from inv owned F s0 s' \<and> temporary_used (fst s) \<subseteq> temporary_used (fst s')
        \<and> (res_memory r \<noteq> 0 \<longrightarrow> res_error r = Error_NONE \<and> 0 < sz \<and> alignment dvd int (unat (res_memory r))
             \<and> {unat (res_memory r) ..< unat (res_memory r) + nat sz} \<subseteq> temporary_used (fst s') - temporary_used (fst s))"
    if range: "0 \<le> sz" "sz < 2 ^ 61" "alignment < 2 ^ 61" "is_power_of_two alignment"
  proof -
    obtain r st' b' where "temporary_allocate (Some proc) sz alignment st b = Inr (r, st', b')"
      "temporary_from inv owned F s0 (st', b')" "temporary_used st \<subseteq> temporary_used st'"
      "res_memory r \<noteq> 0 \<longrightarrow> res_error r = Error_NONE \<and> 0 < sz \<and> alignment dvd int (unat (res_memory r))
        \<and> {unat (res_memory r) ..< unat (res_memory r) + nat sz} \<subseteq> temporary_used st' - temporary_used st"
      using temporary_bump_law [OF start range] by blast
    then show ?thesis by (simp add: temporary_proc_def s)
  qed
  show "\<exists>r s'. temporary_proc (Some proc) RESIZE sz alignment old_size p out s = Inr (r, out, s')
        \<and> temporary_from inv owned F s0 s' \<and> temporary_used (fst s) \<subseteq> temporary_used (fst s')
        \<and> (res_error r \<noteq> Error_NONE \<longrightarrow> s' = s \<and> res_memory r = 0)
        \<and> (res_error r = Error_NONE \<longrightarrow> res_memory r = (if sz = 0 then 0 else p) \<and> alignment dvd int (unat p)
             \<and> {unat p + nat old_size ..< unat p + nat sz} \<subseteq> temporary_used (fst s') - temporary_used (fst s))"
    if range: "p \<noteq> 0" "0 < old_size" "old_size < 2 ^ 61" "{unat p ..< unat p + nat old_size} \<subseteq> temporary_used (fst s)"
      "0 \<le> sz" "sz < 2 ^ 61" "alignment < 2 ^ 61" "is_power_of_two alignment"
  proof -
    obtain r st' where "temporary_resize (Some proc) sz alignment old_size p st b = Inr (r, st', b)"
      "temporary_from inv owned F s0 (st', b)" "temporary_used st \<subseteq> temporary_used st'"
      "res_error r \<noteq> Error_NONE \<longrightarrow> st' = st \<and> res_memory r = 0"
      "res_error r = Error_NONE \<longrightarrow> res_memory r = (if sz = 0 then 0 else p) \<and> alignment dvd int (unat p)
         \<and> {unat p + nat old_size ..< unat p + nat sz} \<subseteq> temporary_used st' - temporary_used st"
      using temporary_grow_law [OF start range(1,2,3) range(4) [unfolded s fst_conv] range(5-8)] by blast
    then show ?thesis by (simp add: temporary_proc_def s)
  qed
next
  fix s :: "temporary_state \<times> 'a"
  have "\<not> has_flag Temporary_FEATURES [Feature_FREE]" by code_simp
  then show "\<exists>features. temporary_proc (Some proc) FEATURES 0 0 0 1 no_out s
      = Inr (result 0 Error_NONE, no_out\<lparr> out_features := features \<rparr>, s) \<and> \<not> has_flag features [Feature_FREE]"
    by (auto simp: temporary_proc_def)
qed

section \<open>Properties\<close>

text \<open>
  C7: Any program of \<open>alloc\<close> and \<open>realloc\<close> calls on temporary storage over the buddy heap runs
  without a failed assertion; its blocks are pairwise disjoint and lie in the used bytes of the
  original block or of an overflow page, each of which is a live block of the heap.
\<close>

theorem temporary_programs_hold_disjoint_blocks:
  assumes "temporary_from (buddy_holds M) live_range F s0 (st, b)" "\<forall>op \<in> set ops. bump_op_ok op"
  shows "\<exists>bs st' b'. run_bump (temporary_proc (Some buddy_proc)) ops [] (st, b) = Inr (bs, st', b')
    \<and> temporary_from (buddy_holds M) live_range F s0 (st', b')
    \<and> held (temporary_used st') bs \<and> buddy_holds M b' (F \<union> storage_pointers st')"
proof -
  obtain bs s' where "run_bump (temporary_proc (Some buddy_proc)) ops [] (st, b) = Inr (bs, s')"
    "temporary_from (buddy_holds M) live_range F s0 s'" "held (temporary_used (fst s')) bs"
    using buddy.temporary.run_bump_ok [OF assms(1) held_Nil assms(2)] by blast
  then show ?thesis by (cases s') (auto simp: temporary_from_def)
qed

lemma small_temporary:
  obtains st b where "temporary_new buddy_proc 64 small_heap = Inr (st, b)"
    "temporary_from (buddy_holds {0x100000 ..< 0x102000}) live_range {} (st, b) (st, b)"
proof -
  have holds: "buddy_holds {0x100000 ..< 0x102000} small_heap {}"
    using small_heap_inv by (simp add: buddy_holds_def)
  have "map_sum id (res_memory \<circ> fst) (alloc buddy_proc 64 16 small_heap) = Inr 0x100020"
    by code_simp
  moreover obtain r b where r: "alloc buddy_proc 64 16 small_heap = Inr (r, b)"
      "res_memory r \<noteq> 0 \<longrightarrow> res_error r = Error_NONE"
    using buddy.alloc_spec [OF holds, of 64 16] by (auto split: if_splits)
  ultimately have "res_memory r = 0x100020" "res_error r = Error_NONE" by simp_all
  then have new: "temporary_new buddy_proc 64 small_heap = Inr (temporary_over (res_memory r) 64, b)"
    using r(1) by (simp add: temporary_new_def MAX_ALIGN_def)
  show ?thesis by (rule that [OF new]) (use buddy.temporary_new_ok [OF holds new] in simp)
qed

theorem temporary_programs_hold_disjoint_blocks_witness:
  "\<exists>st b bs st' b'. temporary_new buddy_proc 64 small_heap = Inr (st, b)
    \<and> run_bump (temporary_proc (Some buddy_proc)) [Bump_alloc 40 8, Bump_alloc 100 16, Bump_realloc 1 200 16] [] (st, b)
      = Inr (bs, st', b') \<and> held (temporary_used st') bs"
proof -
  obtain st b where "temporary_new buddy_proc 64 small_heap = Inr (st, b)"
    "temporary_from (buddy_holds {0x100000 ..< 0x102000}) live_range {} (st, b) (st, b)"
    by (rule small_temporary)
  then show ?thesis
    using temporary_programs_hold_disjoint_blocks [of "{0x100000 ..< 0x102000}" "{}" "(st, b)" st b
        "[Bump_alloc 40 8, Bump_alloc 100 16, Bump_realloc 1 200 16]"]
    by (fastforce simp: is_power_of_two_def)
qed

text \<open>
  C14: Rewinding to a mark undoes any program run since it was taken: the storage is exactly what it was
  except for the high-water mark, every overflow page added since is back in the heap, the other
  live blocks have not moved; and destroying the storage then leaves the heap with the
  pointers \<open>F\<close> of the others only.
\<close>

theorem temporary_rewind_restores:
  assumes start: "temporary_from (buddy_holds M) live_range F (st, b) (st, b)"
    and ops: "\<forall>op \<in> set ops. bump_op_ok op"
    and run: "run_bump (temporary_proc (Some buddy_proc)) ops [] (st, b) = Inr (bs, st1, b1)"
  shows "\<exists>st2 b2. temporary_rewind (Some buddy_proc) (temporary_get_mark st) st1 b1 = Inr (st2, b2)
    \<and> st2 = st\<lparr> high_water_mark := high_water_mark st1 \<rparr>
    \<and> buddy_holds M b2 (F \<union> storage_pointers st)
    \<and> (\<forall>q \<in> F \<union> storage_pointers st. live_range b2 q = live_range b q)
    \<and> (\<exists>b3. temporary_destroy (Some buddy_proc) st2 b2 = Inr b3 \<and> buddy_holds M b3 F)"
proof -
  have after: "temporary_from (buddy_holds M) live_range F (st, b) (st1, b1)"
    using buddy.temporary.run_bump_ok [OF start held_Nil ops] run by auto
  let ?st2 = "st\<lparr> high_water_mark := high_water_mark st1 \<rparr>"
  obtain b2 where b2: "temporary_rewind (Some buddy_proc) (temporary_get_mark st) st1 b1 = Inr (?st2, b2)"
    "buddy_holds M b2 (F \<union> storage_pointers st)"
    "\<forall>q \<in> F \<union> storage_pointers st. live_range b2 q = live_range b q"
    using buddy.temporary_rewind_ok [OF after start] by blast
  have same: "storage_pointers ?st2 = storage_pointers st" by (simp add: storage_pointers_def)
  have "temporary_layout (live_range b) st" "F \<inter> storage_pointers st = {}"
    using start by (auto simp: temporary_from_def)
  then have "temporary_layout (live_range b2) ?st2" "F \<inter> storage_pointers ?st2 = {}"
    using b2(3) same layout_high_water [of "live_range b" st "live_range b2"] by auto
  then obtain b3 where "temporary_destroy (Some buddy_proc) ?st2 b2 = Inr b3" "buddy_holds M b3 F"
    using buddy.temporary_destroy_ok [of M b2 F ?st2] b2(2) unfolding same by blast
  then show ?thesis using b2 by blast
qed

theorem temporary_rewind_restores_witness:
  "\<exists>st b bs st1 b1 st2 b2. temporary_new buddy_proc 64 small_heap = Inr (st, b)
    \<and> run_bump (temporary_proc (Some buddy_proc)) [Bump_alloc 40 8, Bump_alloc 100 16] [] (st, b) = Inr (bs, st1, b1)
    \<and> temporary_rewind (Some buddy_proc) (temporary_get_mark st) st1 b1 = Inr (st2, b2)
    \<and> current_page_bytes_occupied st2 = current_page_bytes_occupied st"
proof -
  let ?ops = "[Bump_alloc 40 8, Bump_alloc 100 16]"
  obtain st b where new: "temporary_new buddy_proc 64 small_heap = Inr (st, b)"
    and start: "temporary_from (buddy_holds {0x100000 ..< 0x102000}) live_range {} (st, b) (st, b)"
    by (rule small_temporary)
  have ops: "\<forall>op \<in> set ?ops. bump_op_ok op" by simp
  obtain bs st1 b1 where run: "run_bump (temporary_proc (Some buddy_proc)) ?ops [] (st, b) = Inr (bs, st1, b1)"
    using buddy.temporary.run_bump_ok [OF start held_Nil ops] by auto
  obtain st2 b2 where "temporary_rewind (Some buddy_proc) (temporary_get_mark st) st1 b1 = Inr (st2, b2)"
    "st2 = st\<lparr> high_water_mark := high_water_mark st1 \<rparr>"
    using temporary_rewind_restores [OF start ops run] by blast
  then show ?thesis using new run by auto
qed

end
