(* ===== verification/Multiboot.thy ===== *)
theory Multiboot
  imports Regions Memory Temporary
begin

text \<open>
  \<^verbatim>\<open>gameos/multiboot2.hh\<close> and the rest of \<^verbatim>\<open>gameos/memory.hh\<close>: the walk over the boot
  loader's tags in memory, the collection of the usable regions, the reservation of what is in use, and
  the start of the heap and of the temporary storage on what is left. A loop over tags is a partial function: a
  tag of size 0 keeps it going for ever.
\<close>

unbundle bit_operations_syntax

section \<open>Tags\<close>

definition Tag_CMDLINE :: u16 where "Tag_CMDLINE = 1"
definition Tag_BOOT_LOADER_NAME :: u16 where "Tag_BOOT_LOADER_NAME = 2"
definition Tag_MODULE :: u16 where "Tag_MODULE = 3"
definition Tag_MEMORY_MAP :: u16 where "Tag_MEMORY_MAP = 6"

lemmas tag_types = Tag_CMDLINE_def Tag_BOOT_LOADER_NAME_def Tag_MODULE_def Tag_MEMORY_MAP_def

definition tag_type :: "memory \<Rightarrow> u64 \<Rightarrow> u16" where "tag_type m tag = load16 m tag"
definition tag_size :: "memory \<Rightarrow> u64 \<Rightarrow> u32" where "tag_size m tag = load32 m (tag + 4)"
definition tag_payload :: "u64 \<Rightarrow> u64" where "tag_payload tag = tag + 8"

definition next_tag :: "memory \<Rightarrow> u64 \<Rightarrow> u64" where
  "next_tag m tag = tag + ucast ((tag_size m tag + 7) AND NOT 7)"

definition first_tag :: "u64 \<Rightarrow> u64" where "first_tag mbi = mbi + 8"

definition info_total_size :: "memory \<Rightarrow> u64 \<Rightarrow> u32" where "info_total_size m mbi = load32 m mbi"

definition end_tag :: "memory \<Rightarrow> u64 \<Rightarrow> u64" where "end_tag m mbi = mbi + ucast (info_total_size m mbi)"

partial_function (option) find_tag_loop :: "memory \<Rightarrow> u16 \<Rightarrow> u64 \<Rightarrow> u64 \<Rightarrow> u64 option" where
  "find_tag_loop m wanted stop tag =
     (if tag < stop then
        if tag_type m tag = wanted then Some tag else find_tag_loop m wanted stop (next_tag m tag)
      else Some 0)"

definition find_multiboot2_tag :: "memory \<Rightarrow> u16 \<Rightarrow> u64 \<Rightarrow> u64 option" where
  "find_multiboot2_tag m wanted mbi = find_tag_loop m wanted (end_tag m mbi) (first_tag mbi)"

section \<open>The memory map\<close>

definition map_entry_size :: "memory \<Rightarrow> u64 \<Rightarrow> u32" where "map_entry_size m tag = load32 m (tag + 8)"
definition first_entry :: "u64 \<Rightarrow> u64" where "first_entry tag = tag + 16"
definition end_entry :: "memory \<Rightarrow> u64 \<Rightarrow> u64" where "end_entry m tag = tag + ucast (tag_size m tag)"
definition entry_addr :: "memory \<Rightarrow> u64 \<Rightarrow> u64" where "entry_addr m entry = load64 m entry"
definition entry_len :: "memory \<Rightarrow> u64 \<Rightarrow> u64" where "entry_len m entry = load64 m (entry + 8)"
definition entry_type :: "memory \<Rightarrow> u64 \<Rightarrow> u32" where "entry_type m entry = load32 m (entry + 16)"

partial_function (option) entry_loop ::
  "memory \<Rightarrow> u32 \<Rightarrow> u64 \<Rightarrow> u64 \<Rightarrow> memory_region list \<Rightarrow> memory_region list run" where
  "entry_loop m entry_size tag_end entry regions =
     (if entry < tag_end then
        rbind (Some (if entry_type m entry = MULTIBOOT_MMAP_USABLE
                     then add_usable_region (entry_addr m entry) (entry_len m entry) regions else Inr regions))
          (entry_loop m entry_size tag_end (entry + ucast entry_size))
      else Some (Inr regions))"

partial_function (option) parse_loop ::
  "memory \<Rightarrow> u64 \<Rightarrow> u64 \<Rightarrow> memory_region list \<Rightarrow> memory_region list run" where
  "parse_loop m stop tag regions =
     (if tag < stop then
        rbind (if tag_type m tag = Tag_MEMORY_MAP
               then entry_loop m (map_entry_size m tag) (end_entry m tag) (first_entry tag) regions
               else Some (Inr regions))
          (parse_loop m stop (next_tag m tag))
      else Some (Inr regions))"

definition parse_multiboot2_memory_map :: "memory \<Rightarrow> u64 \<Rightarrow> memory_region list \<Rightarrow> memory_region list run" where
  "parse_multiboot2_memory_map m mbi regions = parse_loop m (end_tag m mbi) (first_tag mbi) regions"

section \<open>Reservations\<close>

definition module_start :: "memory \<Rightarrow> u64 \<Rightarrow> u32" where "module_start m tag = load32 m (tag + 8)"
definition module_end :: "memory \<Rightarrow> u64 \<Rightarrow> u32" where "module_end m tag = load32 m (tag + 12)"
definition module_string :: "memory \<Rightarrow> u64 \<Rightarrow> u32" where "module_string m tag = load32 m (tag + 16)"

text \<open>The range of a zero-terminated text, the terminator included.\<close>

definition reserve_text :: "memory \<Rightarrow> u64 \<Rightarrow> memory_region list \<Rightarrow> memory_region list run" where
  "reserve_text m text regions =
     Option.bind (kstd_strlen m text) (\<lambda>len. Some (reserve_range text (text + of_nat len + 1) regions))"

definition reserve_tag :: "memory \<Rightarrow> u64 \<Rightarrow> memory_region list \<Rightarrow> memory_region list run" where
  "reserve_tag m tag regions =
     (if tag_type m tag = Tag_CMDLINE \<or> tag_type m tag = Tag_BOOT_LOADER_NAME
      then reserve_text m (tag_payload tag) regions
      else if tag_type m tag = Tag_MODULE then
        rbind (Some (reserve_range (ucast (module_start m tag)) (ucast (module_end m tag)) regions)) (\<lambda>regions.
          if module_string m tag \<noteq> 0 then reserve_text m (ucast (module_string m tag)) regions
          else Some (Inr regions))
      else Some (Inr regions))"

partial_function (option) reserve_tags_loop ::
  "memory \<Rightarrow> u64 \<Rightarrow> u64 \<Rightarrow> memory_region list \<Rightarrow> memory_region list run" where
  "reserve_tags_loop m stop tag regions =
     (if tag < stop then rbind (reserve_tag m tag regions) (reserve_tags_loop m stop (next_tag m tag))
      else Some (Inr regions))"

text \<open>\<open>kernel_start\<close> and \<open>kernel_end\<close> are the addresses the linker script defines.\<close>

definition reserve_multiboot2_data ::
  "u64 \<Rightarrow> u64 \<Rightarrow> memory \<Rightarrow> u64 \<Rightarrow> memory_region list \<Rightarrow> memory_region list run" where
  "reserve_multiboot2_data kernel_start kernel_end m mbi regions =
     rbind (Some (reserve_range 0 0x100000 regions)) (\<lambda>regions.
     rbind (Some (reserve_range mbi (mbi + ucast (info_total_size m mbi)) regions)) (\<lambda>regions.
     rbind (Some (reserve_range kernel_start kernel_end regions)) (\<lambda>regions.
       reserve_tags_loop m (end_tag m mbi) (first_tag mbi) regions)))"

section \<open>Starting the heap\<close>

fun add_regions :: "memory_region list \<Rightarrow> buddy_state \<Rightarrow> buddy_state option" where
  "add_regions [] st = Some st"
| "add_regions (r # rs) st = Option.bind (add_region (mr_base r) (mr_size r) st) (add_regions rs)"

text \<open>
  \<open>initialize\<close>: the regions start out empty, the heap's free lists are cleared, and 1 MiB of the heap
  becomes the temporary storage.
\<close>

definition TEMPORARY_ALLOCATOR_SIZE :: int where "TEMPORARY_ALLOCATOR_SIZE = 1 * 1024 * 1024"

definition memory_initialize ::
  "u64 \<Rightarrow> u64 \<Rightarrow> memory \<Rightarrow> u64 \<Rightarrow> buddy_state \<Rightarrow> (buddy_state \<times> temporary_state) run" where
  "memory_initialize kernel_start kernel_end m mbi buddy =
     rbind (parse_multiboot2_memory_map m mbi []) (\<lambda>regions.
     rbind (reserve_multiboot2_data kernel_start kernel_end m mbi regions) (\<lambda>regions.
       Option.bind (add_regions regions (buddy_clear buddy)) (\<lambda>buddy.
         Some (obind (alloc buddy_proc TEMPORARY_ALLOCATOR_SIZE MAX_ALIGN buddy) (\<lambda>(allocation, buddy).
           kstd_assert (res_memory allocation \<noteq> 0) ''Failed to allocate temporary allocator backing memory.''
             (obind (temporary_on_buffer (res_memory allocation) TEMPORARY_ALLOCATOR_SIZE) (\<lambda>temporary.
               Inr (buddy, temporary))))))))"

section \<open>Boot information as bytes\<close>

text \<open>
  The tags as the structures of \<^verbatim>\<open>multiboot2.hh\<close> lay them out. A memory map entry carries the bytes
  beyond its first 20, as many as the entry size leaves.
\<close>

datatype boot_tag =
    Text_Tag u16 "u8 list"
  | Module_Tag u32 u32 u32 u32
  | Map_Tag u32 "(u64 \<times> u64 \<times> u32 \<times> u8 list) list"
  | Other_Tag u16 "u8 list"

definition entry_bytes :: "u64 \<times> u64 \<times> u32 \<times> u8 list \<Rightarrow> u8 list" where
  "entry_bytes e = (case e of (addr, len, type, rest) \<Rightarrow> le_bytes 8 addr @ le_bytes 8 len @ le_bytes 4 type @ rest)"

fun boot_type :: "boot_tag \<Rightarrow> u16" where
  "boot_type (Text_Tag type text) = type"
| "boot_type (Module_Tag start stop str reserved) = Tag_MODULE"
| "boot_type (Map_Tag entry_sz entries) = Tag_MEMORY_MAP"
| "boot_type (Other_Tag type payload) = type"

fun boot_payload :: "boot_tag \<Rightarrow> u8 list" where
  "boot_payload (Text_Tag type text) = text @ [0]"
| "boot_payload (Module_Tag start stop str reserved) =
     le_bytes 4 start @ le_bytes 4 stop @ le_bytes 4 str @ le_bytes 4 reserved"
| "boot_payload (Map_Tag entry_sz entries) =
     le_bytes 4 entry_sz @ le_bytes 4 (0 :: u32) @ concat (map entry_bytes entries)"
| "boot_payload (Other_Tag type payload) = payload"

definition boot_size :: "boot_tag \<Rightarrow> nat" where "boot_size t = 8 + length (boot_payload t)"

definition boot_bytes :: "boot_tag \<Rightarrow> u8 list" where
  "boot_bytes t = le_bytes 2 (boot_type t) @ le_bytes 2 (0 :: u16) @ le_bytes 4 (of_nat (boot_size t) :: u32)
     @ boot_payload t @ replicate ((8 - boot_size t mod 8) mod 8) 0"

fun boot_tag_ok :: "boot_tag \<Rightarrow> bool" where
  "boot_tag_ok (Text_Tag type text) \<longleftrightarrow> type \<in> {Tag_CMDLINE, Tag_BOOT_LOADER_NAME} \<and> 0 \<notin> set text"
| "boot_tag_ok (Map_Tag entry_sz entries) \<longleftrightarrow>
     20 \<le> unat entry_sz \<and> (\<forall>(addr, len, type, rest) \<in> set entries. length rest + 20 = unat entry_sz)"
| "boot_tag_ok (Module_Tag start stop str reserved) \<longleftrightarrow> True"
| "boot_tag_ok (Other_Tag type payload) \<longleftrightarrow>
     type \<notin> {Tag_CMDLINE, Tag_BOOT_LOADER_NAME, Tag_MODULE, Tag_MEMORY_MAP}"

definition tags_bytes :: "boot_tag list \<Rightarrow> u8 list" where "tags_bytes tags = concat (map boot_bytes tags)"

definition info_bytes :: "boot_tag list \<Rightarrow> u8 list" where
  "info_bytes tags = le_bytes 4 (of_nat (8 + length (tags_bytes tags)) :: u32) @ le_bytes 4 (0 :: u32) @ tags_bytes tags"

text \<open>The boot information of \<open>tags\<close> lies at \<open>mbi\<close>; the tags at \<open>a\<close> end at \<open>stop\<close>.\<close>

definition tags_at :: "memory \<Rightarrow> u64 \<Rightarrow> u64 \<Rightarrow> boot_tag list \<Rightarrow> bool" where
  "tags_at m a stop tags \<longleftrightarrow> bytes_at m a (tags_bytes tags)
     \<and> (\<forall>t \<in> set tags. boot_tag_ok t \<and> boot_size t < 2 ^ 32 - 7)
     \<and> unat a + length (tags_bytes tags) = unat stop"

definition boot_info :: "memory \<Rightarrow> u64 \<Rightarrow> boot_tag list \<Rightarrow> bool" where
  "boot_info m mbi tags \<longleftrightarrow> bytes_at m mbi (info_bytes tags) \<and> (\<forall>t \<in> set tags. boot_tag_ok t)
     \<and> length (info_bytes tags) < 2 ^ 32 \<and> unat mbi + length (info_bytes tags) < 2 ^ 64"

lemma unat_of_nat_id: "n < 2 ^ LENGTH('a) \<Longrightarrow> unat (of_nat n :: 'a::len word) = n"
  by (simp add: unsigned_of_nat take_bit_nat_eq_self)

lemma round_up_8_nat: "(x + 7) - (x + 7) mod 8 = x + (8 - x mod 8) mod (8 :: nat)"
proof -
  define q r where "q = x div 8" and "r = x mod 8"
  have x: "x = 8 * q + r" and r: "r \<in> {0, 1, 2, 3, 4, 5, 6, 7}" by (auto simp: q_def r_def)
  have "(8 * q + r + 7) mod 8 = (r + 7) mod 8" "(8 * q + r) mod 8 = r mod 8" by (simp_all add: add.assoc)
  then show ?thesis unfolding x using r by auto
qed

lemma length_boot_bytes: "length (boot_bytes t) = boot_size t + (8 - boot_size t mod 8) mod 8"
  by (simp add: boot_bytes_def boot_size_def)

lemma round_up_8:
  fixes n :: u32
  assumes "unat n < 2 ^ 32 - 7"
  shows "unat ((n + 7) AND NOT 7) = unat n + (8 - unat n mod 8) mod 8"
proof -
  have "(n + 7) AND NOT 7 = (n + 7) AND NOT (mask 3)" by (simp add: mask_eq_exp_minus_1)
  then have "unat ((n + 7) AND NOT 7) = unat (n + 7) - unat (n + 7) mod 8"
    using unat_and_not_mask [of "n + 7" 3] by simp
  moreover have "unat (n + 7) = unat n + 7" using assms by (simp add: unat_word_ariths)
  ultimately show ?thesis by (simp only: round_up_8_nat)
qed

lemma tag_reads:
  assumes "bytes_at m a (boot_bytes t)" "boot_size t < 2 ^ 32 - 7"
  shows "tag_type m a = boot_type t" "unat (tag_size m a) = boot_size t"
    "next_tag m a = a + of_nat (length (boot_bytes t))" "bytes_at m (a + 8) (boot_payload t)"
proof -
  have b: "bytes_at m a (le_bytes 2 (boot_type t))" "bytes_at m (a + 4) (le_bytes 4 (of_nat (boot_size t) :: u32))"
      "bytes_at m (a + 8) (boot_payload t)"
    using assms(1) by (simp_all add: boot_bytes_def bytes_at_append add.assoc)
  show "tag_type m a = boot_type t" using load16_le [OF b(1)] by (simp add: tag_type_def)
  have "tag_size m a = of_nat (boot_size t)" using load32_le [OF b(2)] by (simp add: tag_size_def)
  then show sz: "unat (tag_size m a) = boot_size t" using assms(2) by (simp add: unat_of_nat_id)
  show "bytes_at m (a + 8) (boot_payload t)" by (rule b(3))
  have "unat ((tag_size m a + 7) AND NOT 7) = length (boot_bytes t)"
    using round_up_8 [of "tag_size m a"] sz assms(2) by (simp add: length_boot_bytes)
  then have "ucast ((tag_size m a + 7) AND NOT 7) = (of_nat (length (boot_bytes t)) :: u64)"
    by (metis of_nat_unat)
  then show "next_tag m a = a + of_nat (length (boot_bytes t))" by (simp add: next_tag_def)
qed

lemma tags_at_Nil: "tags_at m a stop [] \<Longrightarrow> \<not> a < stop"
  by (simp add: tags_at_def tags_bytes_def word_less_nat_alt)

lemma tags_at_Cons:
  assumes "tags_at m a stop (t # ts)"
  shows "a < stop" "bytes_at m a (boot_bytes t)" "boot_size t < 2 ^ 32 - 7" "boot_tag_ok t"
    "tags_at m (next_tag m a) stop ts"
proof -
  have b: "bytes_at m a (boot_bytes t)" "bytes_at m (a + of_nat (length (boot_bytes t))) (tags_bytes ts)"
      "unat a + length (boot_bytes t) + length (tags_bytes ts) = unat stop"
    using assms by (simp_all add: tags_at_def tags_bytes_def bytes_at_append add.assoc)
  show "boot_size t < 2 ^ 32 - 7" "boot_tag_ok t" "bytes_at m a (boot_bytes t)"
    using assms b(1) by (simp_all add: tags_at_def)
  then have n: "next_tag m a = a + of_nat (length (boot_bytes t))" by (intro tag_reads(3))
  have "unat stop < 2 ^ 64" by simp
  then have top: "unat a + length (boot_bytes t) < 2 ^ 64" using b(3) by linarith
  then have "unat (of_nat (length (boot_bytes t)) :: u64) = length (boot_bytes t)"
    by (intro unat_of_nat_id) simp
  then have "unat (a + of_nat (length (boot_bytes t))) = unat a + length (boot_bytes t)"
    using top by (subst unat_add_no_wrap) simp_all
  then show "tags_at m (next_tag m a) stop ts" using b assms by (simp add: n tags_at_def)
  show "a < stop" using b(3) length_boot_bytes [of t] by (simp add: word_less_nat_alt boot_size_def)
qed

lemma boot_infoD:
  assumes "boot_info m mbi tags"
  shows "unat (end_tag m mbi) = unat mbi + length (info_bytes tags)" "tags_at m (first_tag mbi) (end_tag m mbi) tags"
    "unat (info_total_size m mbi) = length (info_bytes tags)"
proof -
  let ?n = "8 + length (tags_bytes tags)"
  have len: "length (info_bytes tags) = ?n" by (simp add: info_bytes_def)
  have b: "bytes_at m mbi (le_bytes 4 (of_nat ?n :: u32))" "bytes_at m (mbi + 8) (tags_bytes tags)"
    using assms by (simp_all add: boot_info_def info_bytes_def bytes_at_append add.assoc)
  have bounds: "?n < 2 ^ 32" "unat mbi + ?n < 2 ^ 64" using assms len by (simp_all add: boot_info_def)
  have "info_total_size m mbi = of_nat ?n" using load32_le [OF b(1)] by (simp add: info_total_size_def)
  then show sz: "unat (info_total_size m mbi) = length (info_bytes tags)"
    using unat_of_nat_id [where 'a = 32, of ?n] bounds(1) len by (simp del: of_nat_add)
  then have "unat (ucast (info_total_size m mbi) :: u64) = ?n" using len bounds(1) by (simp add: unsigned_ucast_eq take_bit_nat_eq_self_iff)
  then show e: "unat (end_tag m mbi) = unat mbi + length (info_bytes tags)"
    using bounds(2) len unfolding end_tag_def by (subst unat_add_no_wrap) simp_all
  have f: "unat (first_tag mbi) = unat mbi + 8" using bounds(2) unfolding first_tag_def by (subst unat_add_no_wrap) simp_all
  have "boot_size t < 2 ^ 32 - 7" if "t \<in> set tags" for t
  proof -
    have "length (boot_bytes t) \<le> length (tags_bytes tags)"
      using that by (auto simp: tags_bytes_def length_concat intro: member_le_sum_list)
    then show ?thesis using bounds(1) length_boot_bytes [of t] by simp
  qed
  then show "tags_at m (first_tag mbi) (end_tag m mbi) tags"
    using assms b(2) e f len by (simp add: tags_at_def boot_info_def first_tag_def)
qed

end
