(* ===== verification/Boot_Memory.thy ===== *)
theory Boot_Memory
  imports Multiboot
begin

text \<open>
  What the start of memory management promises: the boot loader's tags are read as what they encode, the
  heap gets the usable memory and nothing else, and none of the memory that is in use when it starts.
\<close>

section \<open>Reading the memory map\<close>

definition usable_entries :: "(u64 \<times> u64 \<times> u32 \<times> u8 list) list \<Rightarrow> memory_region list" where
  "usable_entries entries =
     map (\<lambda>(addr, len, type, rest). region addr len)
       (filter (\<lambda>(addr, len, type, rest). type = MULTIBOOT_MMAP_USABLE) entries)"

fun tag_usable :: "boot_tag \<Rightarrow> memory_region list" where
  "tag_usable (Map_Tag entry_sz entries) = usable_entries entries"
| "tag_usable _ = []"

definition usable_regions :: "boot_tag list \<Rightarrow> memory_region list" where
  "usable_regions tags = concat (map tag_usable tags)"

lemma bounded_push_all_append: "bounded_push_all n (xs @ ys) zs = obind (bounded_push_all n xs zs) (bounded_push_all n ys)"
proof (induction xs arbitrary: zs)
  case (Cons x xs)
  then show ?case by (cases "bounded_push_back n x zs") simp_all
qed simp

lemma bounded_push_all_fits: "length zs + length xs \<le> n \<Longrightarrow> bounded_push_all n xs zs = Inr (zs @ xs)"
  by (induction xs arbitrary: zs) (simp_all add: bounded_push_back_def)

lemma rbind_Some: "rbind (Some r) (\<lambda>x. Some (f x)) = Some (obind r f)"
  by (cases r) simp_all

lemma entry_reads:
  assumes "bytes_at m a (entry_bytes (addr, len, type, rest))"
  shows "entry_addr m a = addr" "entry_len m a = len" "entry_type m a = type"
  using assms load64_le [of m a addr] load64_le [of m "a + 8" len] load32_le [of m "a + 16" type]
  by (simp_all add: entry_bytes_def bytes_at_append entry_addr_def entry_len_def entry_type_def add.assoc)

lemma rbind_Some_fun: "(\<And>x. g x = Some (f x)) \<Longrightarrow> rbind (Some r) g = Some (obind r f)"
  by (cases r) simp_all

lemma below_top: "n + k = unat (w :: u64) \<Longrightarrow> n < 2 ^ 64"
  proof -
  assume "n + k = unat w"
  moreover have "unat w < 2 ^ 64" by simp
  ultimately show ?thesis by linarith
qed

lemma entry_loop_reads:
  assumes "bytes_at m a (concat (map entry_bytes entries))" "unat a + length (concat (map entry_bytes entries)) = unat stop"
    and "\<forall>(addr, len, type, rest) \<in> set entries. length rest + 20 = unat sz"
  shows "entry_loop m sz stop a regions = Some (bounded_push_all MAX_MEMORY_REGIONS (usable_entries entries) regions)"
  using assms
proof (induction entries arbitrary: a regions)
  case Nil
  then show ?case by (simp add: entry_loop.simps [of _ _ _ a] word_less_nat_alt usable_entries_def)
next
  case (Cons e entries)
  obtain addr len type rest where e: "e = (addr, len, type, rest)" by (cases e)
  have n: "length (entry_bytes e) = unat sz" "0 < unat sz" using Cons.prems(3) by (auto simp: e entry_bytes_def)
  note reads = entry_reads [of m a addr len type rest]
  have top: "unat a + unat sz < 2 ^ 64"
    using Cons.prems(2) n(1) by (intro below_top [of _ "length (concat (map entry_bytes entries))" stop]) simp
  have u: "unat (ucast sz :: u64) = unat sz" by (simp add: unsigned_ucast_eq take_bit_nat_eq_self_iff)
      (use unat_lt_pow32 [of sz] in linarith)
  have next_a: "unat (a + ucast sz) = unat a + unat sz" using top u by (subst unat_add_no_wrap) simp_all
  have "entry_loop m sz stop (a + ucast sz) r = Some (bounded_push_all MAX_MEMORY_REGIONS (usable_entries entries) r)" for r
    using Cons.prems n next_a by (intro Cons.IH) (simp_all add: bytes_at_append)
  then have tail: "rbind (Some r) (entry_loop m sz stop (a + ucast sz))
      = Some (obind r (bounded_push_all MAX_MEMORY_REGIONS (usable_entries entries)))" for r
    by (rule rbind_Some_fun)
  have lt: "a < stop" using Cons.prems(2) n by (simp add: word_less_nat_alt)
  have "entry_loop m sz stop a regions =
      Some (obind (if entry_type m a = MULTIBOOT_MMAP_USABLE
        then add_usable_region (entry_addr m a) (entry_len m a) regions else Inr regions)
        (bounded_push_all MAX_MEMORY_REGIONS (usable_entries entries)))"
    using lt tail by (simp add: entry_loop.simps [of _ _ _ a] del: rbind.simps)
  then show ?case using reads Cons.prems(1)
    by (simp add: e bytes_at_append usable_entries_def add_usable_region_def)
qed

lemma parse_loop_reads:
  assumes "tags_at m a stop tags"
  shows "parse_loop m stop a regions = Some (bounded_push_all MAX_MEMORY_REGIONS (usable_regions tags) regions)"
  using assms
proof (induction tags arbitrary: a regions)
  case Nil
  then show ?case using tags_at_Nil [OF Nil] by (simp add: parse_loop.simps [of _ _ a] usable_regions_def)
next
  case (Cons t tags)
  note c = tags_at_Cons [OF Cons.prems]
  note reads = tag_reads [OF c(2,3)]
  have "(if tag_type m a = Tag_MEMORY_MAP
      then entry_loop m (map_entry_size m a) (end_entry m a) (first_entry a) regions else Some (Inr regions))
    = Some (bounded_push_all MAX_MEMORY_REGIONS (tag_usable t) regions)"
  proof (cases t)
    case (Map_Tag sz entries)
    let ?es = "concat (map entry_bytes entries)"
    have p: "bytes_at m (a + 8) (le_bytes 4 sz)" "bytes_at m (first_entry a) ?es"
      using reads(4) by (simp_all add: Map_Tag bytes_at_append first_entry_def add.assoc)
    have "map_entry_size m a = sz" using load32_le [OF p(1)] by (simp add: map_entry_size_def)
    moreover have n: "boot_size t = 16 + length ?es" by (simp add: Map_Tag boot_size_def)
    have top: "unat a + boot_size t < 2 ^ 64"
      using Cons.prems length_boot_bytes [of t]
      by (intro below_top [of _ "(8 - boot_size t mod 8) mod 8 + length (tags_bytes tags)" stop])
        (simp add: tags_at_def tags_bytes_def)
    have "unat (end_entry m a) = unat a + boot_size t"
      using top reads(2) unfolding end_entry_def
      by (subst unat_add_no_wrap) (simp_all add: unsigned_ucast_eq take_bit_nat_eq_self)
    moreover have "unat (first_entry a) = unat a + 16"
      using top n unfolding first_entry_def by (subst unat_add_no_wrap) simp_all
    ultimately show ?thesis
      using entry_loop_reads [OF p(2), of "end_entry m a" sz regions] n reads(1) c(4) by (simp add: Map_Tag)
  qed (use reads(1) c(4) in \<open>auto simp: tag_types\<close>)
  then show ?case
    using c(1) rbind_Some_fun [OF Cons.IH [OF c(5)]]
    by (simp add: parse_loop.simps [of _ _ a] usable_regions_def bounded_push_all_append del: rbind.simps)
qed

section \<open>Reservations\<close>

fun reserve_all :: "(u64 \<times> u64) list \<Rightarrow> memory_region list \<Rightarrow> memory_region list outcome" where
  "reserve_all [] regions = Inr regions"
| "reserve_all ((start, stop) # ranges) regions = obind (reserve_range start stop regions) (reserve_all ranges)"

text \<open>The addresses a tag at \<open>a\<close> asks to reserve.\<close>

definition text_range :: "memory \<Rightarrow> u64 \<Rightarrow> u64 \<times> u64" where
  "text_range m text = (text, text + of_nat (the (kstd_strlen m text)) + 1)"

fun tag_ranges :: "memory \<Rightarrow> u64 \<Rightarrow> boot_tag \<Rightarrow> (u64 \<times> u64) list" where
  "tag_ranges m a (Text_Tag type text) = [text_range m (a + 8)]"
| "tag_ranges m a (Module_Tag start stop str reserved) =
     (ucast start, ucast stop) # (if str = 0 then [] else [text_range m (ucast str)])"
| "tag_ranges m a _ = []"

fun tags_ranges :: "memory \<Rightarrow> u64 \<Rightarrow> boot_tag list \<Rightarrow> (u64 \<times> u64) list" where
  "tags_ranges m a [] = []"
| "tags_ranges m a (t # ts) = tag_ranges m a t @ tags_ranges m (a + of_nat (length (boot_bytes t))) ts"

definition boot_reserved :: "u64 \<Rightarrow> u64 \<Rightarrow> memory \<Rightarrow> u64 \<Rightarrow> boot_tag list \<Rightarrow> (u64 \<times> u64) list" where
  "boot_reserved kernel_start kernel_end m mbi tags =
     (0, 0x100000) # (mbi, mbi + of_nat (length (info_bytes tags))) # (kernel_start, kernel_end)
     # tags_ranges m (first_tag mbi) tags"

text \<open>A module's text is terminated.\<close>

fun texts_end :: "memory \<Rightarrow> boot_tag \<Rightarrow> bool" where
  "texts_end m (Module_Tag start stop str reserved) \<longleftrightarrow> str = 0 \<or> kstd_strlen m (ucast str) \<noteq> None"
| "texts_end m _ \<longleftrightarrow> True"

lemma reserve_all_append: "reserve_all (xs @ ys) regions = obind (reserve_all xs regions) (reserve_all ys)"
proof (induction xs regions rule: reserve_all.induct)
  case (2 start stop ranges regions)
  then show ?case by (cases "reserve_range start stop regions") simp_all
qed simp

lemma reserve_none [simp]: "reserve_all [] = Inr"
  by (rule ext) simp

lemma reserve_all_Cons: "reserve_all ((start, stop) # ranges) = (\<lambda>regions. obind (reserve_range start stop regions) (reserve_all ranges))"
  by (rule ext) simp

lemma reserve_text_range:
  "kstd_strlen m text \<noteq> None \<Longrightarrow> reserve_text m text regions = Some (reserve_all [text_range m text] regions)"
  by (cases "reserve_range text (text + of_nat (the (kstd_strlen m text)) + 1) regions")
    (auto simp: reserve_text_def text_range_def)

lemma reserve_tag_reads:
  assumes "bytes_at m a (boot_bytes t)" "boot_size t < 2 ^ 32 - 7" "boot_tag_ok t" "texts_end m t"
  shows "reserve_tag m a regions = Some (reserve_all (tag_ranges m a t) regions)"
proof (cases t)
  case (Text_Tag ty chars)
  then have "kstd_strlen m (a + 8) = Some (length chars)"
    using tag_reads(4) [OF assms(1,2)] assms(3) by (intro kstd_strlen_returns) simp_all
  then show ?thesis using tag_reads(1) [OF assms(1,2)] assms(3) Text_Tag reserve_text_range [of m "a + 8" regions]
    by (auto simp: reserve_tag_def tag_payload_def)
next
  case (Module_Tag start stop str reserved)
  then have p: "bytes_at m (a + 8) (le_bytes 4 start)" "bytes_at m (a + 12) (le_bytes 4 stop)"
      "bytes_at m (a + 16) (le_bytes 4 str)"
    using tag_reads(4) [OF assms(1,2)] by (simp_all add: bytes_at_append add.assoc)
  have f: "module_start m a = start" "module_end m a = stop" "module_string m a = str"
    using p [THEN load32_le] by (simp_all add: module_start_def module_end_def module_string_def)
  have ty: "tag_type m a = Tag_MODULE" using tag_reads(1) [OF assms(1,2)] by (simp add: Module_Tag)
  have "reserve_text m (ucast str) = (\<lambda>regions. Some (reserve_all [text_range m (ucast str)] regions))" if "str \<noteq> 0"
    using that assms(4) by (intro ext reserve_text_range) (auto simp: Module_Tag)
  then show ?thesis
    by (cases "str = 0") (simp_all add: reserve_tag_def ty f tag_types Module_Tag rbind_Some del: rbind.simps)
qed (use tag_reads(1) [OF assms(1,2)] assms(3) in \<open>auto simp: reserve_tag_def tag_types\<close>)

lemma reserve_tags_loop_reads:
  assumes "tags_at m a stop tags" "\<forall>t \<in> set tags. texts_end m t"
  shows "reserve_tags_loop m stop a regions = Some (reserve_all (tags_ranges m a tags) regions)"
  using assms
proof (induction tags arbitrary: a regions)
  case Nil
  then show ?case using tags_at_Nil [OF Nil(1)] by (simp add: reserve_tags_loop.simps [of _ _ a])
next
  case (Cons t tags)
  note c = tags_at_Cons [OF Cons.prems(1)]
  note reads = tag_reads [OF c(2,3)]
  have "reserve_tag m a regions = Some (reserve_all (tag_ranges m a t) regions)"
    using Cons.prems(2) c by (intro reserve_tag_reads) simp_all
  then show ?case
    using c(1) rbind_Some_fun [OF Cons.IH [OF c(5)]] Cons.prems(2) reads(3)
    by (simp add: reserve_tags_loop.simps [of _ _ a] reserve_all_append del: rbind.simps)
qed

lemma reserve_multiboot2_data_reads:
  assumes "boot_info m mbi tags" "\<forall>t \<in> set tags. texts_end m t"
  shows "reserve_multiboot2_data kernel_start kernel_end m mbi regions
    = Some (reserve_all (boot_reserved kernel_start kernel_end m mbi tags) regions)"
proof -
  note info = boot_infoD [OF assms(1)]
  have "(ucast (info_total_size m mbi) :: u64) = of_nat (length (info_bytes tags))"
    using info(3) by (metis of_nat_unat)
  moreover have "reserve_tags_loop m (end_tag m mbi) (first_tag mbi)
      = (\<lambda>regions. Some (reserve_all (tags_ranges m (first_tag mbi) tags) regions))"
    by (rule ext) (rule reserve_tags_loop_reads [OF info(2) assms(2)])
  ultimately show ?thesis
    by (simp only: reserve_multiboot2_data_def boot_reserved_def rbind_Some reserve_all_Cons)
qed

definition reserved_bytes :: "(u64 \<times> u64) list \<Rightarrow> nat set" where
  "reserved_bytes ranges = (\<Union>(start, stop) \<in> set ranges. page_span start stop)"

lemma reserve_all_exact:
  assumes "separate regions" "length regions + length ranges \<le> MAX_MEMORY_REGIONS"
    and "\<forall>(start, stop) \<in> set ranges. unat stop + 4096 \<le> 2 ^ 64"
  shows "\<exists>regions'. reserve_all ranges regions = Inr regions' \<and> separate regions'
    \<and> map_bytes regions' = map_bytes regions - reserved_bytes ranges"
  using assms
proof (induction ranges regions rule: reserve_all.induct)
  case (2 start stop ranges regions)
  have "length regions < MAX_MEMORY_REGIONS" "unat stop + 4096 \<le> 2 ^ 64" using "2.prems"(2,3) by auto
  from reserve_range_exact [OF "2.prems"(1) this, of start] obtain r1 where r1:
      "reserve_range start stop regions = Inr r1" "separate r1"
      "map_bytes r1 = map_bytes regions - page_span start stop" "length r1 \<le> length regions + 1" by blast
  have "\<exists>regions'. reserve_all ranges r1 = Inr regions' \<and> separate regions'
      \<and> map_bytes regions' = map_bytes r1 - reserved_bytes ranges"
    using "2.prems" r1 by (intro "2.IH") auto
  then show ?case using r1 by (auto simp: reserved_bytes_def)
qed (simp add: reserved_bytes_def)

text \<open>The memory map that the boot information gives, and what it must satisfy.\<close>

definition boot_map_ok :: "u64 \<Rightarrow> u64 \<Rightarrow> memory \<Rightarrow> u64 \<Rightarrow> boot_tag list \<Rightarrow> bool" where
  "boot_map_ok kernel_start kernel_end m mbi tags \<longleftrightarrow>
     boot_info m mbi tags \<and> (\<forall>t \<in> set tags. texts_end m t) \<and> separate (usable_regions tags) \<and>
     length (usable_regions tags) + length (boot_reserved kernel_start kernel_end m mbi tags) \<le> MAX_MEMORY_REGIONS \<and>
     (\<forall>(start, stop) \<in> set (boot_reserved kernel_start kernel_end m mbi tags). unat stop + 4096 \<le> 2 ^ 64)"

lemma boot_map_reads:
  assumes "boot_map_ok ks ke m mbi tags"
  shows "\<exists>regions. parse_multiboot2_memory_map m mbi [] = Some (Inr (usable_regions tags))
    \<and> reserve_multiboot2_data ks ke m mbi (usable_regions tags) = Some (Inr regions)
    \<and> separate regions \<and> map_bytes regions = map_bytes (usable_regions tags) - reserved_bytes (boot_reserved ks ke m mbi tags)"
proof -
  have a: "boot_info m mbi tags" "\<forall>t \<in> set tags. texts_end m t" "separate (usable_regions tags)"
      "length (usable_regions tags) + length (boot_reserved ks ke m mbi tags) \<le> MAX_MEMORY_REGIONS"
      "\<forall>(start, stop) \<in> set (boot_reserved ks ke m mbi tags). unat stop + 4096 \<le> 2 ^ 64"
    using assms by (auto simp: boot_map_ok_def)
  have "bounded_push_all MAX_MEMORY_REGIONS (usable_regions tags) [] = Inr (usable_regions tags)"
    using a(4) by (subst bounded_push_all_fits) simp_all
  then have "parse_multiboot2_memory_map m mbi [] = Some (Inr (usable_regions tags))"
    by (simp add: parse_multiboot2_memory_map_def parse_loop_reads [OF boot_infoD(2) [OF a(1)]])
  then show ?thesis using reserve_all_exact [OF a(3-5)] reserve_multiboot2_data_reads [OF a(1,2)] by force
qed

section \<open>Filling the heap\<close>

definition whole_pages :: "memory_region \<Rightarrow> nat set" where
  "whole_pages r = {unat (align_up (mr_base r) PAGE_USIZE) ..< unat (align_down (mr_base r + mr_size r) PAGE_USIZE)}"

lemma whole_pages_subset:
  assumes "unat (mr_base r) + unat (mr_size r) \<le> 2 ^ 63"
  shows "whole_pages r \<subseteq> region_bytes r"
proof -
  have sum: "unat (mr_base r + mr_size r) = unat (mr_base r) + unat (mr_size r)"
    using assms by (intro unat_add_no_wrap) simp
  have "unat (mr_base r) \<le> unat (align_up (mr_base r) (2 ^ 12))" using assms by (intro align_up_bounds(2)) simp_all
  moreover have "unat (align_down (mr_base r + mr_size r) (2 ^ 12)) \<le> unat (mr_base r) + unat (mr_size r)"
    using align_down_bounds(2) [of 12 "mr_base r + mr_size r"] sum by simp
  ultimately show ?thesis by (auto simp: whole_pages_def region_bytes_def PAGE_USIZE_def)
qed

lemma separate_Cons:
  "separate (r # rs) \<Longrightarrow> region_ok r \<and> separate rs \<and> region_bytes r \<inter> map_bytes rs = {}"
proof -
  assume sep: "separate (r # rs)"
  have "coverage rs b \<le> 1" for b using sep by (auto simp: separate_def dest: spec [of _ b] split: if_splits)
  moreover have "b \<notin> map_bytes rs" if "b \<in> region_bytes r" for b
    using sep that by (auto simp: separate_def map_bytes_coverage dest: spec [of _ b])
  ultimately show ?thesis using sep by (auto simp: separate_def)
qed

lemma add_regions_covers:
  assumes "separate rs"
    and "buddy_inv st {}" "free_bytes st \<inter> map_bytes rs = {}"
  shows "\<exists>st'. add_regions rs st = Some st' \<and> buddy_inv st' {}
    \<and> free_bytes st' \<subseteq> free_bytes st \<union> (\<Union>r \<in> set rs. whole_pages r)
    \<and> ((\<forall>r \<in> set rs. unat (mr_size r) < 2 ^ 32) \<longrightarrow> free_bytes st' = free_bytes st \<union> (\<Union>r \<in> set rs. whole_pages r))"
  using assms
proof (induction rs arbitrary: st)
  case (Cons r rs)
  note sep = separate_Cons [OF Cons.prems(1)]
  have bound: "unat (mr_base r) + unat (mr_size r) \<le> 2 ^ 63" using sep by (simp add: region_ok_def)
  note sub = whole_pages_subset [OF bound]
  have live: "live_bytes st {} = {}" by (simp add: live_bytes_def)
  have new: "whole_pages r \<inter> (live_bytes st {} \<union> free_bytes st) = {}"
    using Cons.prems(3) sub unfolding live by (auto simp: map_bytes_def)
  from add_region_covers [OF Cons.prems(2) bound refl refl new [unfolded whole_pages_def]]
  obtain st1 where st1: "add_region (mr_base r) (mr_size r) st = Some st1" "buddy_inv st1 {}"
      "free_bytes st1 \<subseteq> free_bytes st \<union> whole_pages r"
      "unat (align_down (mr_base r + mr_size r) PAGE_USIZE) - unat (align_up (mr_base r) PAGE_USIZE) < 2 ^ 32
        \<longrightarrow> free_bytes st1 = free_bytes st \<union> whole_pages r"
    by (auto simp: whole_pages_def)
  have "free_bytes st1 \<inter> map_bytes rs = {}" using st1(3) sub sep Cons.prems(3) by (fastforce simp: map_bytes_def)
  with Cons.IH [of st1] sep st1(2) obtain st' where st': "add_regions rs st1 = Some st'" "buddy_inv st' {}"
      "free_bytes st' \<subseteq> free_bytes st1 \<union> (\<Union>r \<in> set rs. whole_pages r)"
      "(\<forall>r \<in> set rs. unat (mr_size r) < 2 ^ 32) \<longrightarrow> free_bytes st' = free_bytes st1 \<union> (\<Union>r \<in> set rs. whole_pages r)"
    by auto
  have "free_bytes st1 = free_bytes st \<union> whole_pages r" if "unat (mr_size r) < 2 ^ 32"
  proof -
    have "card (whole_pages r) \<le> card (region_bytes r)" using sub by (intro card_mono) (auto simp: region_bytes_def)
    then show ?thesis using st1(4) that by (simp add: whole_pages_def region_bytes_def)
  qed
  then show ?case using st1(1,3) st' by auto
qed simp

lemma buddy_clear_inv: "buddy_inv (buddy_clear st) {}" "free_bytes (buddy_clear st) = {}"
  using empty_heap [of "buddy_clear st"] by (simp_all add: buddy_clear_def)

section \<open>The first allocation\<close>

text \<open>An aligned block of \<open>2 ^ k\<close> bytes among the whole pages of a region.\<close>

definition holds_block :: "nat \<Rightarrow> memory_region \<Rightarrow> bool" where
  "holds_block k r \<longleftrightarrow> (\<exists>x. 2 ^ k dvd x \<and> {x ..< x + 2 ^ k} \<subseteq> whole_pages r)"

lemma add_region_large:
  assumes "add_region (mr_base r) (mr_size r) st = Some st'" "unat (mr_base r) + unat (mr_size r) \<le> 2 ^ 63"
  shows "(\<forall>order. free_lists st order \<noteq> [] \<longrightarrow> free_lists st' order \<noteq> [])
    \<and> (holds_block k r \<longrightarrow> k \<le> 31 \<longrightarrow> (\<exists>order. k \<le> order \<and> order \<le> 31 \<and> free_lists st' order \<noteq> []))"
proof -
  let ?start = "align_up (mr_base r) PAGE_USIZE" and ?stop = "align_down (mr_base r + mr_size r) PAGE_USIZE"
  have page: "PAGE_USIZE = 2 ^ 12" by (simp add: PAGE_USIZE_def)
  have sum: "unat (mr_base r + mr_size r) = unat (mr_base r) + unat (mr_size r)" using assms(2) by (intro unat_add_no_wrap) simp
  have dvds: "2 ^ 12 dvd unat ?start" "2 ^ 12 dvd unat ?stop"
    using align_up_bounds(1) [of 12 "mr_base r"] align_down_bounds(1) [of 12] assms(2) unfolding page by simp_all
  have top: "unat ?stop \<le> 2 ^ 63"
    using align_down_bounds(2) [of 12 "mr_base r + mr_size r"] sum assms(2) unfolding page by simp
  have bounds: "unat ?start \<le> x \<and> x + 2 ^ k \<le> unat ?stop" if "{x ..< x + 2 ^ k} \<subseteq> whole_pages r" for x
  proof -
    have pos: "(0::nat) < 2 ^ k" by simp
    have "x \<in> {x ..< x + n} \<and> x + n - 1 \<in> {x ..< x + n}" if "0 < n" for n using that by auto
    from this [OF pos] that have "x \<in> whole_pages r" "x + 2 ^ k - 1 \<in> whole_pages r" by blast+
    then show ?thesis by (auto simp: whole_pages_def)
  qed
  show ?thesis
  proof (cases "?stop \<le> ?start")
    case True
    have "\<not> holds_block k r"
    proof
      assume "holds_block k r"
      then obtain x where "unat ?start \<le> x" "x + 2 ^ k \<le> unat ?stop" using bounds by (auto simp: holds_block_def)
      moreover have "(0::nat) < 2 ^ k" by simp
      ultimately show False using True unfolding word_le_nat_alt by linarith
    qed
    then show ?thesis using assms(1) True by (auto simp: add_region_def)
  next
    case False
    then have run: "region_loop ?start ?stop st = Some st'" and le: "unat ?start \<le> unat ?stop"
      using assms(1) by (simp_all add: add_region_def Let_def word_le_nat_alt)
    from region_loop_large [OF run le dvds top] bounds show ?thesis unfolding holds_block_def by blast
  qed
qed

lemma add_regions_large:
  assumes "add_regions rs st = Some st'" "\<forall>r \<in> set rs. unat (mr_base r) + unat (mr_size r) \<le> 2 ^ 63"
  shows "(\<forall>order. free_lists st order \<noteq> [] \<longrightarrow> free_lists st' order \<noteq> [])
    \<and> ((\<exists>r \<in> set rs. holds_block k r) \<longrightarrow> k \<le> 31 \<longrightarrow> (\<exists>order. k \<le> order \<and> order \<le> 31 \<and> free_lists st' order \<noteq> []))"
  using assms
proof (induction rs arbitrary: st)
  case (Cons r rs)
  then obtain st1 where st1: "add_region (mr_base r) (mr_size r) st = Some st1" "add_regions rs st1 = Some st'"
    by (auto simp: Option.bind_eq_Some_conv)
  have "unat (mr_base r) + unat (mr_size r) \<le> 2 ^ 63" using Cons.prems(2) by simp
  note one = add_region_large [OF st1(1) this, of k] and rest = Cons.IH [OF st1(2)]
  have keeps: "free_lists st1 order \<noteq> [] \<Longrightarrow> free_lists st' order \<noteq> []" for order using rest Cons.prems(2) by simp
  show ?case
  proof (intro conjI allI impI)
    fix order assume "free_lists st order \<noteq> []"
    then show "free_lists st' order \<noteq> []" using one keeps by blast
  next
    assume block: "\<exists>r \<in> set (r # rs). holds_block k r" and k: "k \<le> 31"
    show "\<exists>order. k \<le> order \<and> order \<le> 31 \<and> free_lists st' order \<noteq> []"
    proof (cases "holds_block k r")
      case True
      with one k obtain order where "k \<le> order" "order \<le> 31" "free_lists st1 order \<noteq> []" by blast
      then show ?thesis using keeps by blast
    next
      case False
      with block k rest Cons.prems(2) show ?thesis by simp
    qed
  qed
qed simp

text \<open>The temporary storage with its header and alignment takes a block of 2 MiB.\<close>

lemma temporary_block:
  "order_for_block_size (next_block_size (0x100000 + 16 + HEADER_SIZE)) = 21"
  by code_simp

lemma first_alloc_succeeds:
  assumes "buddy_inv st {}" "21 \<le> order" "order \<le> 31" "free_lists st order \<noteq> []"
  shows "\<exists>r st'. alloc buddy_proc TEMPORARY_ALLOCATOR_SIZE MAX_ALIGN st = Inr (r, st') \<and> res_memory r \<noteq> 0"
proof -
  have target: "order_for_block_size (next_block_size (word_of_int 0x100000 + word_of_int 16 + HEADER_SIZE)) = 21"
    using temporary_block by simp
  have "order \<le> 63" using assms(3) by simp
  from buddy_allocate_succeeds [OF assms(1) _ _ _ target assms(2) this assms(4), of 4] obtain p st' where
    "buddy_allocate 0x100000 16 st = (result p Error_NONE, st')" "p \<noteq> 0" by auto
  moreover have "is_power_of_two 16" by code_simp
  ultimately show ?thesis
    by (simp add: alloc_def call_allocator_def TEMPORARY_ALLOCATOR_SIZE_def MAX_ALIGN_def buddy_proc_def result_def)
qed

section \<open>Properties\<close>

text \<open>
  C4: From any boot information whose usable entries are disjoint and fit the table with what is reserved,
  the parser collects exactly the usable entries in their order, and what remains
  after the reservations is their memory without the pages of low memory, of the boot
  information, of the kernel, and of the command line, loader name and modules.
\<close>

theorem memory_map_exact:
  assumes "boot_map_ok ks ke m mbi tags"
  shows "\<exists>regions. parse_multiboot2_memory_map m mbi [] = Some (Inr (usable_regions tags))
    \<and> reserve_multiboot2_data ks ke m mbi (usable_regions tags) = Some (Inr regions) \<and> separate regions
    \<and> map_bytes regions = map_bytes (usable_regions tags) - reserved_bytes (boot_reserved ks ke m mbi tags)"
  by (rule boot_map_reads [OF assms])

text \<open>
  C3: \<open>initialize\<close> returns. It fails only when no region that is left after the reservations holds, among its whole pages,
  an aligned block of 2 MiB, which is what the 1 MiB of the temporary storage takes with its header.
  Otherwise the heap manages whole pages of usable memory that was not reserved (all of them when no
  region reaches 4 GiB), its invariant holds with the temporary storage as the only live
  block, and that block lies in it.
\<close>

theorem heap_gets_unreserved_memory:
  assumes "boot_map_ok ks ke m mbi tags"
  shows "\<exists>regions. reserve_multiboot2_data ks ke m mbi (usable_regions tags) = Some (Inr regions)
    \<and> map_bytes regions = map_bytes (usable_regions tags) - reserved_bytes (boot_reserved ks ke m mbi tags)
    \<and> (case memory_initialize ks ke m mbi buddy of
         None \<Rightarrow> False
       | Some (Inl e) \<Rightarrow> e = ''Failed to allocate temporary allocator backing memory.'' \<and> \<not> list_ex (holds_block 21) regions
       | Some (Inr (heap, t)) \<Rightarrow> \<exists>M. M \<subseteq> (\<Union>r \<in> set regions. whole_pages r) \<and> M \<subseteq> map_bytes regions
           \<and> (list_all (\<lambda>r. unat (mr_size r) < 2 ^ 32) regions \<longrightarrow> M = (\<Union>r \<in> set regions. whole_pages r))
           \<and> buddy_holds M heap {original_data t} \<and> original_size t = 0x100000
           \<and> {unat (original_data t) ..< unat (original_data t) + 0x100000} \<subseteq> M)"
proof -
  obtain regions where r: "parse_multiboot2_memory_map m mbi [] = Some (Inr (usable_regions tags))"
      "reserve_multiboot2_data ks ke m mbi (usable_regions tags) = Some (Inr regions)" "separate regions"
      "map_bytes regions = map_bytes (usable_regions tags) - reserved_bytes (boot_reserved ks ke m mbi tags)"
    using boot_map_reads [OF assms] by blast
  obtain heap where heap: "add_regions regions (buddy_clear buddy) = Some heap" "buddy_inv heap {}"
      "free_bytes heap \<subseteq> (\<Union>r \<in> set regions. whole_pages r)"
      "(\<forall>r \<in> set regions. unat (mr_size r) < 2 ^ 32) \<longrightarrow> free_bytes heap = (\<Union>r \<in> set regions. whole_pages r)"
    using add_regions_covers [OF r(3) buddy_clear_inv(1), of buddy] by (auto simp: buddy_clear_inv(2))
  have bound: "\<forall>x \<in> set regions. unat (mr_base x) + unat (mr_size x) \<le> 2 ^ 63"
    using r(3) by (auto simp: separate_def region_ok_def)
  then have "whole_pages x \<subseteq> region_bytes x" if "x \<in> set regions" for x
    using that by (intro whole_pages_subset) blast
  then have sub: "free_bytes heap \<subseteq> map_bytes regions" using heap(3) by (fastforce simp: map_bytes_def)
  have holds: "buddy_holds (free_bytes heap) heap {}" using buddy_inv_holds [OF heap(2)] by (simp add: live_bytes_def)
  obtain a heap' where a: "alloc buddy_proc TEMPORARY_ALLOCATOR_SIZE MAX_ALIGN heap = Inr (a, heap')"
      "if res_memory a = 0 then True
       else buddy_holds (free_bytes heap) heap' {res_memory a}
         \<and> {unat (res_memory a) ..< unat (res_memory a) + 0x100000} \<subseteq> live_range heap' (res_memory a)"
    using buddy.alloc_spec [OF holds, of TEMPORARY_ALLOCATOR_SIZE MAX_ALIGN]
    by (auto simp: TEMPORARY_ALLOCATOR_SIZE_def MAX_ALIGN_def split: if_splits)
  show ?thesis
  proof (cases "res_memory a = 0")
    case True
    have none: "\<not> list_ex (holds_block 21) regions"
    proof
      assume "list_ex (holds_block 21) regions"
      then obtain order where "21 \<le> order" "order \<le> 31" "free_lists heap order \<noteq> []"
        using add_regions_large [OF heap(1) bound, of 21] by (auto simp: list_ex_iff)
      from first_alloc_succeeds [OF heap(2) this] a(1) True show False by auto
    qed
    have "memory_initialize ks ke m mbi buddy = Some (Inl ''Failed to allocate temporary allocator backing memory.'')"
      using r(1,2) heap(1) a(1) True by (simp add: memory_initialize_def)
    then show ?thesis using none r(2,4) by simp
  next
    case False
    then have in_M: "{unat (res_memory a) ..< unat (res_memory a) + 0x100000} \<subseteq> free_bytes heap"
      using a(2) by (fastforce simp: buddy_holds_def live_bytes_def)
    from False obtain t where t: "memory_initialize ks ke m mbi buddy = Some (Inr (heap', t))" "original_data t = res_memory a"
        "original_size t = 0x100000"
      using r(1,2) heap(1) a(1)
      by (auto simp: memory_initialize_def temporary_on_buffer_def temporary_over_def TEMPORARY_ALLOCATOR_SIZE_def)
    have "\<exists>M. M \<subseteq> (\<Union>r \<in> set regions. whole_pages r) \<and> M \<subseteq> map_bytes regions
           \<and> (list_all (\<lambda>r. unat (mr_size r) < 2 ^ 32) regions \<longrightarrow> M = (\<Union>r \<in> set regions. whole_pages r))
           \<and> buddy_holds M heap' {original_data t} \<and> original_size t = 0x100000
           \<and> {unat (original_data t) ..< unat (original_data t) + 0x100000} \<subseteq> M"
      using heap(3,4) sub a(2) False in_M t(2,3) by (intro exI [of _ "free_bytes heap"]) (simp add: list_all_iff)
    then show ?thesis using r(2,4) t(1) by simp
  qed
qed

text \<open>
  C40: The text of a module is taken for a pointer. The Multiboot2 specification puts a module's
  command line into the tag, after \<^verbatim>\<open>mod_end\<close>; the structure here has a 32-bit address there, as
  Multiboot 1 does. So a non-empty command line makes the code measure a text at the address its first
  four characters spell, and reserve that.
\<close>

theorem inline_module_text_is_dereferenced:
  assumes "bytes_at m tag (le_bytes 2 Tag_MODULE @ le_bytes 2 (0 :: u16) @ le_bytes 4 (sz :: u32) @ le_bytes 4 (start :: u32)
      @ le_bytes 4 (stop :: u32) @ chars)"
    and "4 \<le> length chars" "hd chars \<noteq> 0" "take 4 chars = le_bytes 4 (address :: u32)"
  shows "reserve_tag m tag regions =
    rbind (Some (reserve_range (ucast start) (ucast stop) regions)) (reserve_text m (ucast address))"
proof -
  have "chars = le_bytes 4 address @ drop 4 chars" using assms(4) by (metis append_take_drop_id)
  then have "bytes_at m tag (le_bytes 2 Tag_MODULE @ le_bytes 2 (0 :: u16) @ le_bytes 4 sz @ le_bytes 4 start
      @ le_bytes 4 stop @ le_bytes 4 address @ drop 4 chars)" using assms(1) by metis
  then have p: "bytes_at m tag (le_bytes 2 Tag_MODULE)" "bytes_at m (tag + 8) (le_bytes 4 start)"
      "bytes_at m (tag + 12) (le_bytes 4 stop)" "bytes_at m (tag + 16) (le_bytes 4 address)"
    by (simp_all add: bytes_at_append add.assoc)
  have "address \<noteq> 0"
  proof
    assume "address = 0"
    then have "hd (take 4 chars) = 0" unfolding assms(4) by (simp add: le_bytes_def upt_rec)
    then show False using assms(2,3) by (cases chars) auto
  qed
  moreover have "tag_type m tag = Tag_MODULE" using load16_le [OF p(1)] by (simp add: tag_type_def)
  moreover have "module_start m tag = start" "module_end m tag = stop" "module_string m tag = address"
    using p(2-4) [THEN load32_le] by (simp_all add: module_start_def module_end_def module_string_def)
  ultimately show ?thesis by (simp add: reserve_tag_def tag_types)
qed

section \<open>Examples\<close>

text \<open>A boot with 8 MiB of memory, a module without text, and the kernel at 2 MiB.\<close>

definition sample_tags :: "boot_tag list" where
  "sample_tags = [Module_Tag 0x300000 0x300800 0 0,
     Map_Tag 24 [(0, 0x9fc00, 1, [0, 0, 0, 0]), (0x9fc00, 0x400, 2, [0, 0, 0, 0]), (0x100000, 0x700000, 1, [0, 0, 0, 0])],
     Other_Tag 0 []]"

definition sample_boot_memory :: memory where
  "sample_boot_memory = memory_of 0x280000 (info_bytes sample_tags)"

lemma sample_info_length: "length (info_bytes sample_tags) = 128"
  by (simp add: info_bytes_def tags_bytes_def sample_tags_def length_boot_bytes boot_size_def entry_bytes_def)

lemma sample_ranges:
  "boot_reserved 0x200000 0x280000 sample_boot_memory 0x280000 sample_tags =
     [(0, 0x100000), (0x280000, 0x280080), (0x200000, 0x280000), (0x300000, 0x300800)]"
  unfolding boot_reserved_def sample_info_length by (simp add: sample_tags_def)

lemma sample_usable: "usable_regions sample_tags = [region 0 0x9fc00, region 0x100000 0x700000]"
  by (simp add: usable_regions_def sample_tags_def usable_entries_def MULTIBOOT_MMAP_USABLE_def)

lemma sample_boot_ok: "boot_map_ok 0x200000 0x280000 sample_boot_memory 0x280000 sample_tags"
proof -
  have "boot_info sample_boot_memory 0x280000 sample_tags"
    unfolding boot_info_def sample_boot_memory_def sample_info_length
    using bytes_at_memory_of [of "info_bytes sample_tags" "0x280000"] sample_info_length
    by (simp add: sample_tags_def tag_types)
  moreover have "separate (usable_regions sample_tags)"
    by (simp add: sample_usable separate_def region_ok_def region_def region_bytes_def)
  ultimately show ?thesis
    by (simp add: boot_map_ok_def sample_ranges sample_usable MAX_MEMORY_REGIONS_def) (simp add: sample_tags_def)
qed

lemma memory_map_exact_witness:
  "\<exists>regions. reserve_multiboot2_data 0x200000 0x280000 sample_boot_memory 0x280000
       [region 0 0x9fc00, region 0x100000 0x700000] = Some (Inr regions)
     \<and> 0x300fff \<notin> map_bytes regions \<and> 0x301000 \<in> map_bytes regions"
proof -
  obtain regions where r: "reserve_multiboot2_data 0x200000 0x280000 sample_boot_memory 0x280000 (usable_regions sample_tags)
      = Some (Inr regions)"
    "map_bytes regions = map_bytes (usable_regions sample_tags)
       - reserved_bytes (boot_reserved 0x200000 0x280000 sample_boot_memory 0x280000 sample_tags)"
    using memory_map_exact [OF sample_boot_ok] by blast
  have "0x300fff \<notin> map_bytes regions" "0x301000 \<in> map_bytes regions"
    unfolding r(2) sample_ranges sample_usable
    by (simp_all add: reserved_bytes_def page_span_def align_up_def align_down_def PAGE_USIZE_def map_bytes_def
        region_bytes_def region_def)
  then show ?thesis using r(1) unfolding sample_usable by blast
qed

lemma heap_gets_unreserved_memory_witness:
  "\<exists>heap t M. memory_initialize 0x200000 0x280000 sample_boot_memory 0x280000 empty_buddy = Some (Inr (heap, t))
     \<and> buddy_holds M heap {original_data t} \<and> 0x250000 \<notin> M"
proof -
  note exact = heap_gets_unreserved_memory [OF sample_boot_ok, of empty_buddy]
  have "reserve_all [(0, 0x100000), (0x280000, 0x280080), (0x200000, 0x280000), (0x300000, 0x300800)]
      [region 0 0x9fc00, region 0x100000 0x700000]
      = Inr [region 0x100000 0x100000, region 0x281000 0x7f000, region 0x301000 0x4ff000]" by code_simp
  then have reserve: "reserve_multiboot2_data 0x200000 0x280000 sample_boot_memory 0x280000 (usable_regions sample_tags)
      = Some (Inr [region 0x100000 0x100000, region 0x281000 0x7f000, region 0x301000 0x4ff000])"
    using reserve_multiboot2_data_reads [of sample_boot_memory "0x280000" sample_tags "0x200000" "0x280000"] sample_boot_ok
    by (simp add: sample_ranges sample_usable boot_map_ok_def)
  have "whole_pages (region 0x301000 0x4ff000) = {0x301000 ..< 0x800000}"
    by (simp add: whole_pages_def region_def align_up_def align_down_def PAGE_USIZE_def)
  then have "holds_block 21 (region 0x301000 0x4ff000)"
    unfolding holds_block_def by (intro exI [of _ "0x400000"]) auto
  moreover have "0x250000 \<in> reserved_bytes (boot_reserved 0x200000 0x280000 sample_boot_memory 0x280000 sample_tags)"
    by (simp add: sample_ranges reserved_bytes_def page_span_def align_up_def align_down_def PAGE_USIZE_def)
  moreover have "mr_size (region base n) = n" for base n by (simp add: region_def)
  ultimately show ?thesis using exact unfolding reserve by (fastforce split: option.splits sum.splits)
qed

text \<open>A module tag as the specification lays it out, with the command line \<^verbatim>\<open>init\<close>.\<close>

definition module_example :: memory where
  "module_example = memory_of 0x1000 (le_bytes 2 Tag_MODULE @ le_bytes 2 (0 :: u16) @ le_bytes 4 (21 :: u32)
     @ le_bytes 4 (0x300000 :: u32) @ le_bytes 4 (0x301000 :: u32) @ [0x69, 0x6e, 0x69, 0x74, 0])"

lemma inline_module_text_is_dereferenced_witness:
  "reserve_tag module_example 0x1000 [] = reserve_text module_example 0x74696e69 []"
proof -
  have "bytes_at module_example 0x1000 (le_bytes 2 Tag_MODULE @ le_bytes 2 (0 :: u16) @ le_bytes 4 (21 :: u32)
     @ le_bytes 4 (0x300000 :: u32) @ le_bytes 4 (0x301000 :: u32) @ [0x69, 0x6e, 0x69, 0x74, 0])"
    unfolding module_example_def by (rule bytes_at_memory_of) simp
  moreover have "take 4 [0x69, 0x6e, 0x69, 0x74, 0] = le_bytes 4 (0x74696e69 :: u32)" by code_simp
  moreover have "reserve_range 0x300000 0x301000 [] = Inr []" by code_simp
  ultimately show ?thesis
    using inline_module_text_is_dereferenced [of module_example "0x1000" 21 "0x300000" "0x301000"
        "[0x69, 0x6e, 0x69, 0x74, 0]" "0x74696e69" "[]"] by simp
qed

end
