(* ===== verification/Debug.thy ===== *)
theory Debug
  imports Temporary
begin

text \<open>
  The leak-checking wrapper of \<^verbatim>\<open>kstd/allocator.hh\<close> (\<open>Debug_Allocator_State\<close>) over a backing allocator,
  whose \<open>proc\<close> is an argument and whose state is passed along. The records are the linked
  list from \<open>live_head\<close>; \<open>record_at\<close> is the address of a record, itself a block of the backing
  allocator. Calls do not overlap: an unsynchronized wrapper asserts that its guard is free, a
  synchronized one waits for it, so its call is the step taken once it has the guard.
\<close>

section \<open>State and operations\<close>

record allocation_record =
  record_at :: u64
  record_pointer :: u64
  record_size :: int
  record_alignment :: int

record debug_state =
  guard_held :: bool
  synchronized :: bool
  live_records :: "allocation_record list"
  live_count :: int

definition RECORD_SIZE :: int where "RECORD_SIZE = 32"
definition RECORD_ALIGN :: int where "RECORD_ALIGN = 8"

definition Debug_FEATURES :: u32 where
  "Debug_FEATURES = Feature_IS_THIS_YOURS OR Feature_INFO OR Feature_DEBUG_ALLOCATOR"

definition debug_new :: "'b allocator_proc \<Rightarrow> 'b \<Rightarrow> (debug_state \<times> 'b) outcome" where
  "debug_new backing b =
     obind (get_features backing b) (\<lambda>(features, b).
       Inr (\<lparr> guard_held = False, synchronized = has_flag features [Feature_THREADSAFE],
              live_records = [], live_count = 0 \<rparr>, b))"

definition debug_destroy :: "debug_state \<Rightarrow> unit outcome" where
  "debug_destroy st =
     kstd_assert (live_count st = 0) ''Debug_Allocator_State: Leaked allocations.''
    (kstd_assert (live_records st = []) ''Debug_Allocator_State: Leaked allocations.'' (Inr ()))"

definition push_record :: "u64 \<Rightarrow> u64 \<Rightarrow> int \<Rightarrow> int \<Rightarrow> debug_state \<Rightarrow> debug_state" where
  "push_record at pointer sz alignment st =
     st\<lparr> live_records := \<lparr> record_at = at, record_pointer = pointer, record_size = sz,
                          record_alignment = alignment \<rparr> # live_records st,
         live_count := live_count st + 1 \<rparr>"

fun find_record :: "u64 \<Rightarrow> allocation_record list \<Rightarrow> allocation_record option" where
  "find_record pointer [] = None"
| "find_record pointer (rec # rest) =
     (if record_pointer rec = pointer then Some rec else find_record pointer rest)"

text \<open>Unlinking: the first record for which the search stopped.\<close>

fun remove_record :: "u64 \<Rightarrow> allocation_record list \<Rightarrow> allocation_record list" where
  "remove_record pointer [] = []"
| "remove_record pointer (rec # rest) =
     (if record_pointer rec = pointer then rest else rec # remove_record pointer rest)"

fun update_record :: "u64 \<Rightarrow> (allocation_record \<Rightarrow> allocation_record) \<Rightarrow> allocation_record list \<Rightarrow> allocation_record list" where
  "update_record pointer f [] = []"
| "update_record pointer f (rec # rest) =
     (if record_pointer rec = pointer then f rec # rest else rec # update_record pointer f rest)"

type_synonym 'b debug_result = "(allocator_result \<times> debug_state \<times> 'b) outcome"

definition debug_allocate :: "'b allocator_proc \<Rightarrow> int \<Rightarrow> int \<Rightarrow> int \<Rightarrow> u64 \<Rightarrow> debug_state \<Rightarrow> 'b \<Rightarrow> 'b debug_result" where
  "debug_allocate backing sz alignment old_size old_memory st b =
     obind (call_allocator backing ALLOCATE sz alignment old_size old_memory b) (\<lambda>(allocation, b).
       if res_error allocation \<noteq> Error_NONE \<or> res_memory allocation = 0 then Inr (allocation, st, b)
       else
         obind (alloc backing RECORD_SIZE RECORD_ALIGN b) (\<lambda>(record_allocation, b).
           if res_memory record_allocation = 0
           then obind (free_aligned backing (res_memory allocation) sz alignment b) (\<lambda>(error, b).
                  Inr (result 0 OUT_OF_MEMORY, st, b))
           else Inr (allocation,
                  push_record (res_memory record_allocation) (res_memory allocation) sz alignment st, b)))"

definition debug_resize ::
  "(u64 \<Rightarrow> u64 \<Rightarrow> int \<Rightarrow> 'b \<Rightarrow> 'b) \<Rightarrow> 'b allocator_proc \<Rightarrow> int \<Rightarrow> int \<Rightarrow> int \<Rightarrow> u64 \<Rightarrow> debug_state \<Rightarrow> 'b \<Rightarrow> 'b debug_result"
  where
  "debug_resize memcpy backing sz alignment old_size old_memory st b =
     obind (realloc memcpy backing old_memory old_size sz alignment b) (\<lambda>(allocation, b).
       if res_error allocation \<noteq> Error_NONE then Inr (allocation, st, b)
       else if old_memory = 0 then
         if res_memory allocation = 0 then Inr (allocation, st, b)
         else
           obind (alloc backing RECORD_SIZE RECORD_ALIGN b) (\<lambda>(record_allocation, b).
             if res_memory record_allocation = 0 then Inr (result 0 OUT_OF_MEMORY, st, b)
             else Inr (allocation,
                    push_record (res_memory record_allocation) (res_memory allocation) sz alignment st, b))
       else
         case find_record old_memory (live_records st) of
           None \<Rightarrow> Inl ''Debug_Allocator_State: Resize of unknown pointer.''
         | Some rec \<Rightarrow>
             if sz = 0 then
               let st = st\<lparr> live_records := remove_record old_memory (live_records st),
                            live_count := live_count st - 1 \<rparr>
               in obind (free_aligned backing (record_at rec) RECORD_SIZE RECORD_ALIGN b) (\<lambda>(error, b).
                    Inr (allocation, st, b))
             else Inr (allocation,
                    st\<lparr> live_records := update_record old_memory (\<lambda>rec. rec\<lparr> record_pointer := res_memory allocation,
                          record_size := sz, record_alignment := alignment \<rparr>) (live_records st) \<rparr>, b))"

definition debug_free :: "'b allocator_proc \<Rightarrow> int \<Rightarrow> u64 \<Rightarrow> debug_state \<Rightarrow> 'b \<Rightarrow> 'b debug_result" where
  "debug_free backing old_size old_memory st b =
     (if old_memory = 0 then Inr (result 0 Error_NONE, st, b)
      else
        case find_record old_memory (live_records st) of
          None \<Rightarrow> Inl ''Debug_Allocator_State: Double free.''
        | Some rec \<Rightarrow>
            kstd_assert (old_size = 0 \<or> record_size rec = old_size) ''Debug allocator free size mismatch''
              (let st = st\<lparr> live_records := remove_record old_memory (live_records st),
                            live_count := live_count st - 1 \<rparr>
               in obind (free_aligned backing (record_pointer rec) (record_size rec) (record_alignment rec) b)
                    (\<lambda>(free_result, b).
                  obind (free_aligned backing (record_at rec) RECORD_SIZE RECORD_ALIGN b)
                    (\<lambda>(record_free_result, b). Inr (result 0 free_result, st, b)))))"

definition debug_is_this_yours :: "u64 \<Rightarrow> debug_state \<Rightarrow> allocator_result" where
  "debug_is_this_yours old_memory st =
     (case find_record old_memory (live_records st) of
        Some rec \<Rightarrow> result old_memory Error_NONE | None \<Rightarrow> result 0 Error_NONE)"

definition debug_info :: "u64 \<Rightarrow> out_cell \<Rightarrow> debug_state \<Rightarrow> allocator_result \<times> out_cell" where
  "debug_info old_memory out st =
     (if old_memory = 0 then (result 0 INVALID_ARGUMENT, out)
      else
        case find_record (info_pointer (out_info out)) (live_records st) of
          Some rec \<Rightarrow> (result 0 Error_NONE, out\<lparr> out_info := (out_info out)\<lparr>
              info_requested_size := record_size rec, info_requested_alignment := record_alignment rec \<rparr> \<rparr>)
        | None \<Rightarrow> (result 0 INVALID_POINTER, out))"

definition with_out :: "out_cell \<Rightarrow> 'b debug_result \<Rightarrow> (allocator_result \<times> out_cell \<times> debug_state \<times> 'b) outcome" where
  "with_out out m = obind m (\<lambda>(r, st, b). Inr (r, out, st, b))"

definition debug_dispatch ::
  "(u64 \<Rightarrow> u64 \<Rightarrow> int \<Rightarrow> 'b \<Rightarrow> 'b) \<Rightarrow> 'b allocator_proc \<Rightarrow> (debug_state \<times> 'b) allocator_proc" where
  "debug_dispatch memcpy backing mode sz alignment old_size old_memory out s =
     (let (st, b) = s
      in case mode of
           ALLOCATE \<Rightarrow> with_out out (debug_allocate backing sz alignment old_size old_memory st b)
         | RESIZE \<Rightarrow> with_out out (debug_resize memcpy backing sz alignment old_size old_memory st b)
         | FREE \<Rightarrow> with_out out (debug_free backing old_size old_memory st b)
         | IS_THIS_YOURS \<Rightarrow> Inr (debug_is_this_yours old_memory st, out, st, b)
         | INFO \<Rightarrow> (let (r, out) = debug_info old_memory out st in Inr (r, out, st, b))
         | FEATURES \<Rightarrow> Inl ''unreachable'')"

definition debug_proc ::
  "(u64 \<Rightarrow> u64 \<Rightarrow> int \<Rightarrow> 'b \<Rightarrow> 'b) \<Rightarrow> 'b allocator_proc \<Rightarrow> (debug_state \<times> 'b) allocator_proc" where
  "debug_proc memcpy backing mode sz alignment old_size old_memory out s =
     (let (st, b) = s
      in if mode = FEATURES then
           if old_memory = 0 then Inr (result 0 INVALID_ARGUMENT, out, st, b)
           else obind (get_features backing b) (\<lambda>(features, b).
                  Inr (result 0 Error_NONE,
                       out\<lparr> out_features := out_features out OR features OR Debug_FEATURES \<rparr>, st, b))
         else if synchronized st then debug_dispatch memcpy backing mode sz alignment old_size old_memory out (st, b)
         else kstd_assert (\<not> guard_held st)
                ''Debug_Allocator_State: concurrent access on non-threadsafe backing''
                (debug_dispatch memcpy backing mode sz alignment old_size old_memory out (st, b)))"

section \<open>The records of a list\<close>

lemma find_record_Some:
  "find_record p rs = Some rec \<Longrightarrow> rec \<in> set rs \<and> record_pointer rec = p"
  by (induction rs) (auto split: if_splits)

lemma find_record_None: "find_record p rs = None \<longleftrightarrow> p \<notin> record_pointer ` set rs"
  by (induction rs) auto

lemma remove_record_pointers:
  "distinct (map record_pointer rs) \<Longrightarrow>
   record_pointer ` set (remove_record p rs) = record_pointer ` set rs - {p}"
  by (induction rs) (auto simp: image_iff)

lemma remove_record_length:
  "find_record p rs = Some rec \<Longrightarrow> Suc (List.length (remove_record p rs)) = List.length rs"
  by (induction rs) (auto split: if_splits)

lemma remove_record_at:
  "distinct (map record_at rs) \<Longrightarrow> find_record p rs = Some rec \<Longrightarrow>
   record_at ` set (remove_record p rs) = record_at ` set rs - {record_at rec}"
proof (induction rs)
  case (Cons r rs)
  show ?case
  proof (cases "record_pointer r = p")
    case True
    then show ?thesis using Cons.prems by auto
  next
    case False
    then have f: "find_record p rs = Some rec" using Cons.prems(2) by simp
    then have "record_at r \<noteq> record_at rec" using Cons.prems(1) find_record_Some [OF f] by auto
    then show ?thesis using Cons.IH [OF _ f] Cons.prems(1) False by auto
  qed
qed simp

lemma remove_record_subset: "set (remove_record p rs) \<subseteq> set rs"
  by (induction rs) auto

lemma remove_record_distinct:
  "distinct (map f rs) \<Longrightarrow> distinct (map f (remove_record p rs))"
  using remove_record_subset by (induction rs) fastforce+

section \<open>The wrapper over a heap\<close>

text \<open>
  \<open>L\<close> is the set of the clients' pointers, one record each; the heap holds those and the records.
\<close>

definition debug_holds :: "('b \<Rightarrow> u64 set \<Rightarrow> bool) \<Rightarrow> debug_state \<times> 'b \<Rightarrow> u64 set \<Rightarrow> bool" where
  "debug_holds heap s L \<longleftrightarrow>
     (let rs = live_records (fst s)
      in heap (snd s) (L \<union> record_at ` set rs) \<and> L \<inter> record_at ` set rs = {}
       \<and> distinct (map record_pointer rs) \<and> distinct (map record_at rs) \<and> record_pointer ` set rs = L
       \<and> 0 \<notin> L \<and> (\<forall>r \<in> set rs. 0 \<le> record_size r \<and> 0 \<le> record_alignment r)
       \<and> live_count (fst s) = int (List.length rs) \<and> \<not> guard_held (fst s))"

lemma debug_holdsD:
  assumes "debug_holds heap (st, b) L"
  shows "heap b (L \<union> record_at ` set (live_records st))" "L \<inter> record_at ` set (live_records st) = {}"
    "distinct (map record_pointer (live_records st))" "distinct (map record_at (live_records st))"
    "record_pointer ` set (live_records st) = L" "0 \<notin> L"
    "\<forall>r \<in> set (live_records st). 0 \<le> record_size r \<and> 0 \<le> record_alignment r"
    "live_count st = int (List.length (live_records st))" "\<not> guard_held st"
  using assms by (simp_all add: debug_holds_def Let_def)

lemma debug_holds_push:
  assumes "debug_holds heap (st, b) L" "heap b' (insert at (insert p (L \<union> record_at ` set (live_records st))))"
    "p \<noteq> 0" "p \<notin> L \<union> record_at ` set (live_records st)" "at \<notin> insert p (L \<union> record_at ` set (live_records st))"
    "0 \<le> sz" "0 \<le> alignment"
  shows "debug_holds heap (push_record at p sz alignment st, b') (insert p L)"
proof -
  have "heap b' (insert p (insert at (L \<union> record_at ` set (live_records st))))"
    using assms(2) by (subst insert_commute)
  then show ?thesis using assms(3-) debug_holdsD [OF assms(1)]
    by (auto simp: debug_holds_def Let_def push_record_def)
qed

context sized_heap
begin

lemma debug_allocate_law:
  assumes holds: "debug_holds inv (st, b) L"
    and sz: "0 \<le> sz" "sz < 2 ^ 63" "alignment < 2 ^ 63" "is_power_of_two alignment"
  shows "\<exists>r st' b'. debug_allocate proc sz alignment 0 0 st b = Inr (r, st', b')
    \<and> (if res_memory r = 0 then debug_holds inv (st', b') L
       else res_error r = Error_NONE \<and> res_memory r \<notin> L \<and> debug_holds inv (st', b') (insert (res_memory r) L)
         \<and> alignment dvd int (unat (res_memory r))
         \<and> {unat (res_memory r) ..< unat (res_memory r) + nat sz} \<subseteq> owned b' (res_memory r))
    \<and> (\<forall>p \<in> L. owned b' p = owned b p)"
proof -
  let ?R = "L \<union> record_at ` set (live_records st)"
  note h = debug_holdsD [OF holds]
  obtain r b1 where r: "proc ALLOCATE sz alignment 0 0 no_out b = Inr (r, no_out, b1)"
    "if res_memory r = 0 then inv b1 ?R
     else res_error r = Error_NONE \<and> res_memory r \<notin> ?R \<and> inv b1 (insert (res_memory r) ?R)
       \<and> alignment dvd int (unat (res_memory r))
       \<and> {unat (res_memory r) ..< unat (res_memory r) + nat sz} \<subseteq> owned b1 (res_memory r)"
    "\<forall>p \<in> ?R. owned b1 p = owned b p"
    using allocate [OF h(1) sz, of no_out] by blast
  have call: "call_allocator proc ALLOCATE sz alignment 0 0 b = Inr (r, b1)"
    using r(1) by (simp add: call_allocator_def)
  show ?thesis
  proof (cases "res_memory r = 0")
    case True
    then have "debug_holds inv (st, b1) L" using holds r(2) by (simp add: debug_holds_def Let_def)
    then show ?thesis using call r(3) True by (auto simp: debug_allocate_def)
  next
    case False
    let ?p = "res_memory r"
    have p: "res_error r = Error_NONE" "?p \<notin> ?R" "inv b1 (insert ?p ?R)" "alignment dvd int (unat ?p)"
      "{unat ?p ..< unat ?p + nat sz} \<subseteq> owned b1 ?p" using r(2) False by auto
    have "RECORD_SIZE < 2 ^ 63" "RECORD_ALIGN < 2 ^ 63" by (simp_all add: RECORD_SIZE_def RECORD_ALIGN_def)
    from alloc_spec [OF p(3) this] obtain r2 b2 where r2: "alloc proc RECORD_SIZE RECORD_ALIGN b1 = Inr (r2, b2)"
      "if res_memory r2 = 0 then inv b2 (insert ?p ?R)
       else res_memory r2 \<notin> insert ?p ?R \<and> inv b2 (insert (res_memory r2) (insert ?p ?R))"
      "\<forall>q \<in> insert ?p ?R. owned b2 q = owned b1 q"
      by (auto split: if_splits)
    show ?thesis
    proof (cases "res_memory r2 = 0")
      case True
      have al: "0 \<le> alignment" using sz(4) by (simp add: is_power_of_two_def)
      have eq: "insert ?p ?R - {?p} = ?R" using p(2) by blast
      have "inv b2 (insert ?p ?R)" using r2(2) True by simp
      from free_sized_spec [OF this, of ?p sz alignment] sz(1) al obtain b3 where
        "free_aligned proc ?p sz alignment b2 = Inr (Error_NONE, b3)" "inv b3 ?R"
        "\<forall>q \<in> ?R. owned b3 q = owned b2 q"
        unfolding eq by auto
      moreover from this have "debug_holds inv (st, b3) L" using holds by (simp add: debug_holds_def Let_def)
      ultimately show ?thesis using call False p(1) r2 True r(3) by (auto simp: debug_allocate_def)
    next
      case rec: False
      have "0 \<le> alignment" using sz(4) by (simp add: is_power_of_two_def)
      then have "debug_holds inv (push_record (res_memory r2) ?p sz alignment st, b2) (insert ?p L)"
        using r2(2) rec p(2) False sz(1) by (intro debug_holds_push [OF holds]) simp_all
      then show ?thesis using call False p r2 rec r(3) by (auto simp: debug_allocate_def)
    qed
  qed
qed

lemma debug_free_law:
  assumes holds: "debug_holds inv (st, b) L" and p: "p \<in> L"
    and size: "old_size = 0 \<or> (\<exists>rec \<in> set (live_records st). record_pointer rec = p \<and> record_size rec = old_size)"
  shows "\<exists>st' b'. debug_free proc old_size p st b = Inr (result 0 Error_NONE, st', b')
    \<and> debug_holds inv (st', b') (L - {p}) \<and> find_record p (live_records st') = None
    \<and> (\<forall>q \<in> L - {p}. owned b' q = owned b q)"
proof -
  let ?rs = "live_records st"
  let ?R = "L \<union> record_at ` set ?rs"
  note h = debug_holdsD [OF holds]
  obtain rec where rec: "find_record p ?rs = Some rec" using p h(5) find_record_None [of p ?rs] by (cases "find_record p ?rs") auto
  have mem: "rec \<in> set ?rs" "record_pointer rec = p" using find_record_Some [OF rec] by simp_all
  have uniq: "r = rec" if "r \<in> set ?rs" "record_pointer r = p" for r
    using h(3) that mem by (auto simp: distinct_map dest: inj_onD)
  then have size_ok: "old_size = 0 \<or> record_size rec = old_size" using size by auto
  have sizes: "0 \<le> record_size rec" "0 \<le> record_alignment rec" using h(7) mem by auto
  let ?st = "st\<lparr> live_records := remove_record p ?rs, live_count := live_count st - 1 \<rparr>"
  have "p \<in> ?R" using p by blast
  from free_sized_spec [OF h(1) this sizes] obtain b1 where b1:
    "free_aligned proc p (record_size rec) (record_alignment rec) b = Inr (Error_NONE, b1)"
    "inv b1 (?R - {p})" "\<forall>q \<in> ?R - {p}. owned b1 q = owned b q"
    by blast
  have "record_at rec \<in> record_at ` set ?rs" using mem by blast
  then have ne: "record_at rec \<noteq> p" "record_at rec \<notin> L" using h(2) p by blast+
  then have "record_at rec \<in> ?R - {p}" using mem by blast
  from free_sized_spec [OF b1(2) this, of RECORD_SIZE RECORD_ALIGN] obtain b2 where b2:
    "free_aligned proc (record_at rec) RECORD_SIZE RECORD_ALIGN b1 = Inr (Error_NONE, b2)"
    "inv b2 (?R - {p} - {record_at rec})" "\<forall>q \<in> ?R - {p} - {record_at rec}. owned b2 q = owned b1 q"
    by (auto simp: RECORD_SIZE_def RECORD_ALIGN_def)
  have run: "debug_free proc old_size p st b = Inr (result 0 Error_NONE, ?st, b2)"
    using rec size_ok mem b1(1) b2(1) p h(6) by (auto simp: debug_free_def)
  have at: "record_at ` set (remove_record p ?rs) = record_at ` set ?rs - {record_at rec}"
    by (rule remove_record_at [OF h(4) rec])
  have pointers: "record_pointer ` set (remove_record p ?rs) = L - {p}"
    using remove_record_pointers [OF h(3)] h(5) by simp
  have eq: "?R - {p} - {record_at rec} = (L - {p}) \<union> record_at ` set (remove_record p ?rs)"
    unfolding at using ne h(2) p by blast
  have "debug_holds inv (?st, b2) (L - {p})"
    using h b2(2) pointers at remove_record_distinct [OF h(3)] remove_record_distinct [OF h(4)]
      remove_record_length [OF rec] remove_record_subset [of p ?rs] unfolding eq
    by (auto simp: debug_holds_def Let_def)
  moreover have "find_record p (live_records ?st) = None" using pointers by (simp add: find_record_None)
  moreover have "\<forall>q \<in> L - {p}. owned b2 q = owned b q" using b1(3) b2(3) ne by auto
  ultimately show ?thesis using run by blast
qed

end

sublocale sized_heap \<subseteq> debug: freeing_allocator "debug_proc memcpy proc" "debug_holds inv" "\<lambda>s. owned (snd s)"
  for memcpy
proof unfold_locales
  fix s :: "debug_state \<times> 'a" and L p q and sz alignment old_size :: int and out
  obtain st b where s: "s = (st, b)" by (rule prod.exhaust)
  assume "debug_holds inv s L"
  then have holds: "debug_holds inv (st, b) L" by (simp add: s)
  note h = debug_holdsD [OF holds]
  show "owned (snd s) p \<inter> owned (snd s) q = {}" if "p \<in> L" "q \<in> L" "p \<noteq> q"
    using disjoint [OF h(1), of p q] that by (simp add: s)
  show "owned (snd s) p \<subseteq> {..< 2 ^ 63}" if "p \<in> L" using bounded [OF h(1), of p] that by (simp add: s)
  show "\<exists>s'. debug_proc memcpy proc FREE 0 0 0 p out s = Inr (result 0 Error_NONE, out, s')
      \<and> debug_holds inv s' (L - {p}) \<and> (\<forall>q \<in> L - {p}. owned (snd s') q = owned (snd s) q)" if "p \<in> L"
  proof -
    obtain st' b' where "debug_free proc 0 p st b = Inr (result 0 Error_NONE, st', b')"
      "debug_holds inv (st', b') (L - {p})" "\<forall>q \<in> L - {p}. owned b' q = owned b q"
      using debug_free_law [OF holds \<open>p \<in> L\<close>, of 0] by blast
    then show ?thesis using h(9) by (simp add: debug_proc_def debug_dispatch_def with_out_def s)
  qed
  show "\<exists>r s'. debug_proc memcpy proc ALLOCATE sz alignment 0 0 out s = Inr (r, out, s') \<and>
      (if res_memory r = 0 then debug_holds inv s' L
       else res_error r = Error_NONE \<and> res_memory r \<notin> L \<and> debug_holds inv s' (insert (res_memory r) L)
         \<and> alignment dvd int (unat (res_memory r))
         \<and> {unat (res_memory r) ..< unat (res_memory r) + nat sz} \<subseteq> owned (snd s') (res_memory r))
      \<and> (\<forall>p \<in> L. owned (snd s') p = owned (snd s) p)"
    if range: "0 \<le> sz" "sz < 2 ^ 63" "alignment < 2 ^ 63" "is_power_of_two alignment"
  proof -
    obtain r st' b' where "debug_allocate proc sz alignment 0 0 st b = Inr (r, st', b')"
      "if res_memory r = 0 then debug_holds inv (st', b') L
       else res_error r = Error_NONE \<and> res_memory r \<notin> L \<and> debug_holds inv (st', b') (insert (res_memory r) L)
         \<and> alignment dvd int (unat (res_memory r))
         \<and> {unat (res_memory r) ..< unat (res_memory r) + nat sz} \<subseteq> owned b' (res_memory r)"
      "\<forall>p \<in> L. owned b' p = owned b p"
      using debug_allocate_law [OF holds range] by blast
    then show ?thesis using h(9)
      by (cases "res_memory r = 0") (simp_all add: debug_proc_def debug_dispatch_def with_out_def s)
  qed
qed

section \<open>Properties\<close>

text \<open>
  C11: A program of \<open>alloc\<close> and \<open>free\<close> calls on the debug allocator over the buddy heap never fails
  an assertion; at its end there is one record for each pointer still held and \<open>live_count\<close> counts
  them, so the destructor succeeds exactly when nothing is held, and otherwise reports the leak.
\<close>

theorem debug_programs_track_leaks:
  assumes "debug_holds (buddy_holds M) s (set ps)" "distinct ps" "\<forall>op \<in> set ops. op_ok op"
  shows "\<exists>ps' st' b'. run_heap (debug_proc memcpy buddy_proc) ops ps s = Inr (ps', st', b')
    \<and> debug_holds (buddy_holds M) (st', b') (set ps') \<and> live_count st' = int (List.length ps')
    \<and> debug_destroy st' = (if ps' = [] then Inr () else Inl ''Debug_Allocator_State: Leaked allocations.'')"
proof -
  obtain ps' s' where run: "run_heap (debug_proc memcpy buddy_proc) ops ps s = Inr (ps', s')"
    "debug_holds (buddy_holds M) s' (set ps')" "distinct ps'"
    using buddy.debug.run_heap_ok [OF assms] by blast
  obtain st' b' where s': "s' = (st', b')" by (rule prod.exhaust)
  note h = debug_holdsD [OF run(2) [unfolded s']]
  have "card (set ps') = List.length (live_records st')"
    using h(3,5) by (metis card_image distinct_card distinct_map length_map list.set_map)
  then have "List.length (live_records st') = List.length ps'" using run(3) by (simp add: distinct_card)
  then show ?thesis using run(1,2) s' h(8) by (auto simp: debug_destroy_def)
qed

lemma debug_over_small_heap:
  "debug_new buddy_proc small_heap
     = Inr (\<lparr> guard_held = False, synchronized = True, live_records = [], live_count = 0 \<rparr>, small_heap)"
proof -
  have "has_flag Buddy_FEATURES [Feature_THREADSAFE]" by code_simp
  then show ?thesis by (simp add: debug_new_def get_features_def buddy_proc_def)
qed

lemma debug_new_holds:
  "buddy_holds M b {} \<Longrightarrow> debug_holds (buddy_holds M)
     (\<lparr> guard_held = False, synchronized = y, live_records = [], live_count = 0 \<rparr>, b) {}"
  by (simp add: debug_holds_def)

theorem debug_programs_track_leaks_witness:
  "\<exists>st ps' st' b'. debug_new buddy_proc small_heap = Inr (st, small_heap)
    \<and> run_heap (debug_proc (\<lambda>d f k b. b) buddy_proc) [Alloc 100 8, Alloc 50 8, Free_nth 0] [] (st, small_heap)
      = Inr (ps', st', b') \<and> live_count st' = int (List.length ps')"
proof -
  let ?st = "\<lparr> guard_held = False, synchronized = True, live_records = [], live_count = 0 \<rparr>"
  have "buddy_holds {0x100000 ..< 0x102000} small_heap {}"
    using small_heap_inv by (simp add: buddy_holds_def)
  from debug_new_holds [OF this, of True] show ?thesis
    using debug_programs_track_leaks [of "{0x100000 ..< 0x102000}" "(?st, small_heap)" "[]"
        "[Alloc 100 8, Alloc 50 8, Free_nth 0]" "\<lambda>d f k b. b"] debug_over_small_heap
    by fastforce
qed

text \<open>
  The debug allocator catches every misuse of \<open>free\<close>: a pointer it does not hold (also one already
  freed) fails the double-free assertion, and a size other than the one recorded at the
  allocation (0 means unknown) fails the size assertion; in both cases nothing was freed.
\<close>

theorem debug_free_detects_misuse:
  assumes "debug_holds (buddy_holds M) (st, b) L" "p \<noteq> 0" "0 \<le> old_size"
  shows "if p \<notin> L
     then free_memory (debug_proc memcpy buddy_proc) p old_size (st, b) = Inl ''Debug_Allocator_State: Double free.''
     else if old_size \<noteq> 0 \<and> map_option record_size (find_record p (live_records st)) \<noteq> Some old_size
     then free_memory (debug_proc memcpy buddy_proc) p old_size (st, b) = Inl ''Debug allocator free size mismatch''
     else \<exists>st' b'. free_memory (debug_proc memcpy buddy_proc) p old_size (st, b) = Inr (Error_NONE, st', b')
       \<and> debug_holds (buddy_holds M) (st', b') (L - {p})
       \<and> free_memory (debug_proc memcpy buddy_proc) p 0 (st', b') = Inl ''Debug_Allocator_State: Double free.''"
proof -
  note h = debug_holdsD [OF assms(1)]
  have run: "free_memory (debug_proc memcpy buddy_proc) p n (st, b)
     = obind (debug_free buddy_proc n p st b) (\<lambda>(r, st, b). Inr (res_error r, st, b))"
    if "0 \<le> n" "\<not> guard_held st" for n st b
    using that by (cases "debug_free buddy_proc n p st b")
      (auto simp: free_memory_def free_aligned_def call_allocator_def debug_proc_def debug_dispatch_def with_out_def)
  show ?thesis
  proof (cases "p \<in> L")
    case False
    then have "find_record p (live_records st) = None" using h(5) by (simp add: find_record_None)
    then show ?thesis using False run [OF assms(3) h(9)] assms(2) by (simp add: debug_free_def)
  next
    case True
    then obtain rec where rec: "find_record p (live_records st) = Some rec"
      using h(5) find_record_None [of p "live_records st"] by (cases "find_record p (live_records st)") auto
    show ?thesis
    proof (cases "old_size \<noteq> 0 \<and> record_size rec \<noteq> old_size")
      case mismatch: True
      then show ?thesis using True rec run [OF assms(3) h(9)] assms(2) by (simp add: debug_free_def)
    next
      case False
      then have "old_size = 0 \<or> (\<exists>rec \<in> set (live_records st). record_pointer rec = p \<and> record_size rec = old_size)"
        using find_record_Some [OF rec] by auto
      from buddy.debug_free_law [OF assms(1) True this] obtain st' b' where f:
        "debug_free buddy_proc old_size p st b = Inr (result 0 Error_NONE, st', b')"
        "debug_holds (buddy_holds M) (st', b') (L - {p})" "find_record p (live_records st') = None"
        by blast
      have "debug_free buddy_proc 0 p st' b' = Inl ''Debug_Allocator_State: Double free.''"
        using f(3) assms(2) by (simp add: debug_free_def)
      then show ?thesis using True False rec f run [OF assms(3) h(9)] run [OF _ debug_holdsD(9) [OF f(2)], of 0]
        by auto
    qed
  qed
qed

theorem debug_free_detects_misuse_witness:
  "free_memory (debug_proc (\<lambda>d f k b. b) buddy_proc) 0x5000 8
     (\<lparr> guard_held = False, synchronized = True, live_records = [], live_count = 0 \<rparr>, small_heap)
   = Inl ''Debug_Allocator_State: Double free.''"
proof -
  have "buddy_holds {0x100000 ..< 0x102000} small_heap {}"
    using small_heap_inv by (simp add: buddy_holds_def)
  from debug_free_detects_misuse [OF debug_new_holds [OF this, of True], of "0x5000" 8] show ?thesis by simp
qed

lemma debug_allocate_record:
  assumes run: "debug_allocate proc sz alignment 0 0 st b = Inr (r, st', b')"
    and ok: "res_memory r \<noteq> 0" "res_error r = Error_NONE"
  shows "\<exists>at. st' = push_record at (res_memory r) sz alignment st"
proof -
  obtain a b1 where a: "call_allocator proc ALLOCATE sz alignment 0 0 b = Inr (a, b1)"
    using run obind_InrD unfolding debug_allocate_def by (metis (no_types, lifting) surj_pair)
  show ?thesis
  proof (cases "res_error a \<noteq> Error_NONE \<or> res_memory a = 0")
    case True
    then show ?thesis using run a ok by (auto simp: debug_allocate_def)
  next
    case False
    then have "obind (alloc proc RECORD_SIZE RECORD_ALIGN b1) (\<lambda>(record_allocation, b).
           if res_memory record_allocation = 0
           then obind (free_aligned proc (res_memory a) sz alignment b) (\<lambda>(error, b).
                  Inr (result 0 OUT_OF_MEMORY, st, b))
           else Inr (a, push_record (res_memory record_allocation) (res_memory a) sz alignment st, b))
       = Inr (r, st', b')"
      using run a by (simp add: debug_allocate_def)
    from obind_InrD [OF this] obtain q b2 where q: "alloc proc RECORD_SIZE RECORD_ALIGN b1 = Inr (q, b2)"
      by auto
    have "res_memory q \<noteq> 0"
    proof
      assume "res_memory q = 0"
      then show False using run a q False ok(1)
        by (auto simp: debug_allocate_def dest!: obind_InrD)
    qed
    then show ?thesis using run a q False by (auto simp: debug_allocate_def)
  qed
qed

text \<open>
  Temporary storage over a debug allocator stops at its own book-keeping: an overflow page is
  allocated with its size rounded up to 16 but freed with the size in its header, so when
  that size is not a multiple of 16 the debug allocator's size assertion fails at the next
  reset, although every pointer was used correctly.
\<close>

theorem temporary_over_debug_size_mismatch:
  assumes holds: "debug_holds (buddy_holds M) (dst, b) L"
    and page: "add_new_overflow_page (debug_proc memcpy buddy_proc) sz alignment st (dst, b) = Inr (r, st', dst', b')"
    and range: "sz + alignment < 2 ^ 62" "original_size st < 2 ^ 62"
    and ok: "res_memory r \<noteq> 0" and odd: "page_size st' mod 16 \<noteq> 0"
  shows "temporary_reset (Some (debug_proc memcpy buddy_proc)) st' (dst', b')
     = Inl ''Debug allocator free size mismatch''"
proof -
  let ?proc = "debug_proc memcpy buddy_proc"
  define n where "n = (if sz + alignment < (if 16 < original_size st then original_size st - 16 else 0)
      then (if 16 < original_size st then original_size st - 16 else 0) else sz + alignment)"
  let ?bytes = "align_up_ssize (16 + n) MAX_ALIGN"
  have n: "0 \<le> n" "n < 2 ^ 62" using range by (auto simp: n_def)
  have bytes: "16 dvd ?bytes" "16 + n \<le> ?bytes" "?bytes < 16 + n + 16"
    using align_up_ssize_bounds [where k = 4 and v = "16 + n"] by (simp_all add: MAX_ALIGN_def)
  have eq: "add_new_overflow_page ?proc sz alignment st (dst, b) =
      obind (alloc ?proc ?bytes MAX_ALIGN (dst, b)) (\<lambda>(allocation, b).
         if res_memory allocation = 0 then Inr (allocation, st, b)
         else Inr (result (res_memory allocation) Error_NONE,
                   st\<lparr> overflow_pages := (res_memory allocation, n) # overflow_pages st,
                       page_data := page_payload (res_memory allocation), page_size := n,
                       current_page_bytes_occupied := 0 \<rparr>, b))"
    by (simp only: add_new_overflow_page_def Let_def header_size n_def)
  have sz: "0 \<le> ?bytes" "?bytes < 2 ^ 63" "MAX_ALIGN < 2 ^ 63" "is_power_of_two MAX_ALIGN"
    using n bytes by (simp_all add: MAX_ALIGN_def is_power_of_two_def)
  obtain a dst1 b1 where a: "debug_allocate buddy_proc ?bytes MAX_ALIGN 0 0 dst b = Inr (a, dst1, b1)"
    "res_memory a \<noteq> 0 \<longrightarrow> res_error a = Error_NONE \<and> debug_holds (buddy_holds M) (dst1, b1) (insert (res_memory a) L)"
    using buddy.debug_allocate_law [OF holds sz] by (auto split: if_splits)
  have alloc: "alloc ?proc ?bytes MAX_ALIGN (dst, b) = Inr (a, dst1, b1)"
    using a(1) sz debug_holdsD(9) [OF holds]
    by (simp add: alloc_def call_allocator_def debug_proc_def debug_dispatch_def with_out_def)
  have new: "res_memory a \<noteq> 0" "dst' = dst1" "b' = b1" "page_size st' = n"
      "overflow_pages st' = (res_memory a, n) # overflow_pages st"
    using page ok unfolding eq alloc by (auto split: if_splits)
  then have after: "debug_holds (buddy_holds M) (dst', b') (insert (res_memory a) L)" using a(2) by simp
  obtain at where "dst' = push_record at (res_memory a) ?bytes MAX_ALIGN dst"
    using debug_allocate_record [OF a(1) new(1)] a(2) new by blast
  then have rec: "find_record (res_memory a) (live_records dst')
      = Some \<lparr> record_at = at, record_pointer = res_memory a, record_size = ?bytes, record_alignment = MAX_ALIGN \<rparr>"
    by (simp add: push_record_def)
  have "?bytes \<noteq> 16 + n" using bytes(1) odd new(4) by (metis dvd_add_right_iff dvd_refl dvd_eq_mod_eq_0)
  then have "free_memory ?proc (res_memory a) (16 + n) (dst', b') = Inl ''Debug allocator free size mismatch''"
    using debug_free_detects_misuse [OF after new(1), of "16 + n" memcpy] n(1) rec by simp
  then show ?thesis using new
    by (simp add: temporary_reset_def free_overflow_pages_def resolve_allocator_def)
qed

lemma small_debug_page:
  "map_sum id (res_memory \<circ> fst) (debug_allocate buddy_proc 128 16 0 0
     \<lparr> guard_held = False, synchronized = True, live_records = [], live_count = 0 \<rparr> small_heap) = Inr 0x100020"
  by code_simp

theorem temporary_over_debug_size_mismatch_witness:
  "\<exists>r st' dst' b'. add_new_overflow_page (debug_proc (\<lambda>d f k b. b) buddy_proc) 100 8 (temporary_over 0x5000 64)
      (\<lparr> guard_held = False, synchronized = True, live_records = [], live_count = 0 \<rparr>, small_heap)
      = Inr (r, st', dst', b') \<and> page_size st' = 108
    \<and> temporary_reset (Some (debug_proc (\<lambda>d f k b. b) buddy_proc)) st' (dst', b')
      = Inl ''Debug allocator free size mismatch''"
proof -
  let ?dst = "\<lparr> guard_held = False, synchronized = True, live_records = [], live_count = 0 \<rparr>"
  let ?proc = "debug_proc (\<lambda>d f k b. b) buddy_proc"
  have holds: "debug_holds (buddy_holds {0x100000 ..< 0x102000}) (?dst, small_heap) {}"
    using small_heap_inv by (intro debug_new_holds) (simp add: buddy_holds_def)
  obtain a dst1 b1 where a: "debug_allocate buddy_proc 128 16 0 0 ?dst small_heap = Inr (a, dst1, b1)"
    using small_debug_page by (cases "debug_allocate buddy_proc 128 16 0 0 ?dst small_heap") auto
  then have mem: "res_memory a = 0x100020" using small_debug_page by simp
  have bytes: "align_up_ssize 124 MAX_ALIGN = 128" by code_simp
  have "alloc ?proc 128 16 (?dst, small_heap) = Inr (a, dst1, b1)"
    using a by (simp add: alloc_def call_allocator_def debug_proc_def debug_dispatch_def with_out_def is_power_of_two_def)
  then obtain r st' where page: "add_new_overflow_page ?proc 100 8 (temporary_over 0x5000 64) (?dst, small_heap)
      = Inr (r, st', dst1, b1)" "res_memory r \<noteq> 0" "page_size st' = 108"
    using mem bytes by (simp add: add_new_overflow_page_def temporary_over_def MAX_ALIGN_def Let_def)
  then show ?thesis
    using temporary_over_debug_size_mismatch [OF holds page(1)] by (simp add: temporary_over_def)
qed

end
