(* ===== verification/Byte_Reader.thy ===== *)
theory Byte_Reader
  imports Memory
begin

text \<open>
  \<^verbatim>\<open>kstd/byte_reader.hh\<close>: a cursor over a byte buffer. Every \<open>read_*\<close> returns the
  code's \<open>Read_Result {result, ok}\<close> together with the reader after the call; a failed read
  leaves the value-initialised result, \<open>ok = False\<close> and the reader as it was.
\<close>

unbundle bit_operations_syntax

record byte_reader =
  br_source :: u64
  br_size :: int
  br_offset :: int

type_synonym 'a read_result = "'a \<times> bool"

definition byte_reader_of :: "u64 \<Rightarrow> int \<Rightarrow> byte_reader" where
  "byte_reader_of source sz = \<lparr>br_source = source, br_size = sz, br_offset = 0\<rparr>"

definition byte_reader_of_view :: "view \<Rightarrow> byte_reader" where
  "byte_reader_of_view v = \<lparr>br_source = view_data v, br_size = view_size v, br_offset = 0\<rparr>"

definition remaining :: "byte_reader \<Rightarrow> int" where
  "remaining r = br_size r - br_offset r"

text \<open>The address of \<open>source[current_offset + i]\<close>, and the cursor advanced by \<open>n\<close>.\<close>

definition cursor :: "byte_reader \<Rightarrow> nat \<Rightarrow> u64" where
  "cursor r i = br_source r + of_int (br_offset r) + of_nat i"

definition advance :: "byte_reader \<Rightarrow> int \<Rightarrow> byte_reader" where
  "advance r n = r\<lparr>br_offset := br_offset r + n\<rparr>"

subsection \<open>Fixed-width reads\<close>

definition read_u8 :: "memory \<Rightarrow> byte_reader \<Rightarrow> u8 read_result \<times> byte_reader" where
  "read_u8 m r =
     (if br_size r - br_offset r < 1 then ((0, False), r)
      else ((m (cursor r 0), True), advance r 1))"

definition read_bool :: "memory \<Rightarrow> byte_reader \<Rightarrow> bool read_result \<times> byte_reader" where
  "read_bool m r = (let ((v, ok), r') = read_u8 m r in ((v \<noteq> 0, ok), r'))"

text \<open>An \<open>s8\<close> is the byte with its bits reinterpreted; \<open>sint\<close> reads it.\<close>

definition read_s8 :: "memory \<Rightarrow> byte_reader \<Rightarrow> int read_result \<times> byte_reader" where
  "read_s8 m r = (let ((v, ok), r') = read_u8 m r in ((sint v, ok), r'))"

definition read_u16 :: "memory \<Rightarrow> byte_reader \<Rightarrow> u16 read_result \<times> byte_reader" where
  "read_u16 m r =
     (if br_size r - br_offset r < 2 then ((0, False), r)
      else ((foldl (\<lambda>result i. result OR push_bit (i * 8) (ucast (m (cursor r i)))) 0 [0..<2], True),
            advance r 2))"

definition read_u32 :: "memory \<Rightarrow> byte_reader \<Rightarrow> u32 read_result \<times> byte_reader" where
  "read_u32 m r =
     (if br_size r - br_offset r < 4 then ((0, False), r)
      else ((foldl (\<lambda>result i. result OR push_bit (i * 8) (ucast (m (cursor r i)))) 0 [0..<4], True),
            advance r 4))"

definition read_u64 :: "memory \<Rightarrow> byte_reader \<Rightarrow> u64 read_result \<times> byte_reader" where
  "read_u64 m r =
     (if br_size r - br_offset r < 8 then ((0, False), r)
      else ((foldl (\<lambda>result i. result OR push_bit (i * 8) (ucast (m (cursor r i)))) 0 [0..<8], True),
            advance r 8))"

subsection \<open>LEB128\<close>

definition LEB_VALUE_BIT_COUNT :: nat where "LEB_VALUE_BIT_COUNT = 7"
definition LEB_VALUE_MASK :: u8 where "LEB_VALUE_MASK = 0b01111111"
definition LEB_CONTINUE_MASK :: u8 where "LEB_CONTINUE_MASK = 0b10000000"
definition LEB_SIGN_MASK :: u8 where "LEB_SIGN_MASK = 0b01000000"

lemmas leb_consts = LEB_VALUE_BIT_COUNT_def LEB_VALUE_MASK_def LEB_CONTINUE_MASK_def LEB_SIGN_MASK_def

text \<open>
  The common \<open>for (;;)\<close> of \<open>read_uleb128\<close> and \<open>read_sleb128\<close>: \<open>None\<close> for the two failing
  returns, otherwise the accumulated \<open>result\<close>, the \<open>byte_shift\<close> at the \<open>break\<close> and the last
  \<open>byte\<close>.
\<close>

function leb128_loop :: "memory \<Rightarrow> byte_reader \<Rightarrow> u64 \<Rightarrow> nat \<Rightarrow> (u64 \<times> nat \<times> u8) option" where
  "leb128_loop m r result byte_shift =
     (if br_size r - br_offset r \<le> int byte_shift then None
      else if byte_shift \<ge> 10 then None
      else
        let byte = m (cursor r byte_shift);
            result = result OR
              push_bit (byte_shift * LEB_VALUE_BIT_COUNT) (ucast (byte AND LEB_VALUE_MASK))
        in if byte AND LEB_CONTINUE_MASK = 0 then Some (result, byte_shift, byte)
           else leb128_loop m r result (byte_shift + 1))"
  by pat_completeness auto
termination
  by (relation "measure (\<lambda>(m, r, result, byte_shift). 10 - byte_shift)") auto

declare leb128_loop.simps [simp del]

definition read_uleb128 :: "memory \<Rightarrow> byte_reader \<Rightarrow> u64 read_result \<times> byte_reader" where
  "read_uleb128 m r =
     (case leb128_loop m r 0 0 of
        None \<Rightarrow> ((0, False), r)
      | Some (result, byte_shift, _) \<Rightarrow> ((result, True), advance r (int byte_shift + 1)))"

text \<open>The \<open>s64\<close> result is the final bit pattern read by \<open>sint\<close>.\<close>

definition read_sleb128 :: "memory \<Rightarrow> byte_reader \<Rightarrow> int read_result \<times> byte_reader" where
  "read_sleb128 m r =
     (case leb128_loop m r 0 0 of
        None \<Rightarrow> ((0, False), r)
      | Some (result, byte_shift, byte) \<Rightarrow>
          let value_bit_count = (byte_shift + 1) * LEB_VALUE_BIT_COUNT;
              result = (if value_bit_count < 64 \<and> byte AND LEB_SIGN_MASK \<noteq> 0
                        then result OR push_bit value_bit_count (NOT 0) else result)
          in ((sint result, True), advance r (int byte_shift + 1)))"

subsection \<open>Byte runs, strings and skipping\<close>

text \<open>\<open>count\<close> is an \<open>ssize\<close>: a negative one passes the bounds check.\<close>

definition read_bytes :: "memory \<Rightarrow> byte_reader \<Rightarrow> int \<Rightarrow> view read_result \<times> byte_reader" where
  "read_bytes m r count =
     (if br_size r - br_offset r < count then ((empty_view, False), r)
      else ((\<lparr>view_data = cursor r 0, view_size = count\<rparr>, True), advance r count))"

function cstring_loop :: "memory \<Rightarrow> byte_reader \<Rightarrow> nat \<Rightarrow> nat option" where
  "cstring_loop m r string_size =
     (if br_size r - br_offset r \<le> int string_size then None
      else if m (cursor r string_size) = 0 then Some string_size
      else cstring_loop m r (string_size + 1))"
  by pat_completeness auto
termination
  by (relation "measure (\<lambda>(m, r, n). nat (br_size r - br_offset r) - n)") auto

declare cstring_loop.simps [simp del]

definition read_cstring :: "memory \<Rightarrow> byte_reader \<Rightarrow> view read_result \<times> byte_reader" where
  "read_cstring m r =
     (case cstring_loop m r 0 of
        None \<Rightarrow> ((empty_view, False), r)
      | Some string_size \<Rightarrow>
          ((\<lparr>view_data = cursor r 0, view_size = int string_size\<rparr>, True),
           advance r (int string_size + 1)))"

definition skip :: "byte_reader \<Rightarrow> int \<Rightarrow> bool \<times> byte_reader" where
  "skip r count =
     (if br_size r - br_offset r < count then (False, r) else (True, advance r count))"

subsection \<open>What every field read promises\<close>

text \<open>
  \<open>checked\<close> is the idiom \<^verbatim>\<open>auto [value, ok] = reader.read_x(); kstd_assert(ok);\<close>:
  \<open>None\<close> when the assertion fails.
\<close>

fun checked :: "'a read_result \<times> byte_reader \<Rightarrow> ('a \<times> byte_reader) option" where
  "checked ((v, ok), r) = (if ok then Some (v, r) else None)"

definition br_wf :: "byte_reader \<Rightarrow> bool" where
  "br_wf r \<longleftrightarrow> 0 \<le> br_offset r \<and> br_offset r \<le> br_size r"

text \<open>
  The interface the parsers rely on: a failed read changes nothing, a successful one consumes
  at least one byte and stays inside the buffer.
\<close>

locale field_reader =
  fixes rd :: "memory \<Rightarrow> byte_reader \<Rightarrow> 'a read_result \<times> byte_reader"
  assumes fails: "rd m r = ((v, False), r') \<Longrightarrow> r' = r"
    and succeeds: "rd m r = ((v, True), r') \<Longrightarrow> \<exists>n > 0. r' = advance r n \<and> n \<le> remaining r"
begin

lemma checked_Some: "checked (rd m r) = Some (v, r') \<Longrightarrow> rd m r = ((v, True), r')"
  by (cases "rd m r" rule: prod.exhaust, rename_tac q r'', case_tac q) (auto split: if_splits)

lemma checked_consumes:
  assumes "checked (rd m r) = Some (v, r')"
  shows "remaining r' < remaining r" "0 \<le> remaining r'" "br_source r' = br_source r"
    "br_size r' = br_size r" "br_offset r < br_offset r'"
  using succeeds [OF checked_Some [OF assms]]
  by (auto simp: advance_def remaining_def)

lemma keeps_wf:
  assumes "br_wf r"
  shows "br_wf (snd (rd m r))"
proof (cases "rd m r" rule: prod.exhaust)
  case (Pair q r')
  obtain v ok where q: "q = (v, ok)" by (cases q)
  show ?thesis
  proof (cases ok)
    case True
    then obtain n where "n > 0" "r' = advance r n" "n \<le> remaining r"
      using succeeds [of m r v r'] Pair q by auto
    with assms Pair show ?thesis by (auto simp: br_wf_def advance_def remaining_def)
  next
    case False
    with assms Pair q fails [of m r v r'] show ?thesis by simp
  qed
qed

lemma failure_iff_checked: "checked (rd m r) = None \<longleftrightarrow> \<not> snd (fst (rd m r))"
  by (cases "rd m r" rule: prod.exhaust, rename_tac q r'', case_tac q) auto

end

lemma leb128_loop_in_range:
  "leb128_loop m r res k = Some (v, n, b) \<Longrightarrow> k \<le> n \<and> n < 10 \<and> int n < remaining r"
proof (induction m r res k rule: leb128_loop.induct)
  case (1 m r res k)
  note IH = 1(1) [OF _ _ refl refl]
  show ?case
    using 1(2) IH unfolding leb128_loop.simps [of m r res k]
    by (auto simp: Let_def remaining_def split: if_splits)
qed

lemma cstring_loop_in_range:
  "cstring_loop m r k = Some n \<Longrightarrow> k \<le> n \<and> int n < remaining r \<and> m (cursor r n) = 0"
proof (induction m r k rule: cstring_loop.induct)
  case (1 m r k)
  show ?case
    using 1 unfolding cstring_loop.simps [of m r k]
    by (auto simp: remaining_def split: if_splits)
qed

interpretation u8_reader: field_reader read_u8
  by unfold_locales (auto simp: read_u8_def remaining_def split: if_splits intro: exI [of _ 1])

interpretation bool_reader: field_reader read_bool
  by unfold_locales (auto simp: read_bool_def read_u8_def remaining_def split: if_splits intro: exI [of _ 1])

interpretation s8_reader: field_reader read_s8
  by unfold_locales (auto simp: read_s8_def read_u8_def remaining_def split: if_splits intro: exI [of _ 1])

interpretation u16_reader: field_reader read_u16
  by unfold_locales (auto simp: read_u16_def remaining_def split: if_splits intro: exI [of _ 2])

interpretation u32_reader: field_reader read_u32
  by unfold_locales (auto simp: read_u32_def remaining_def split: if_splits intro: exI [of _ 4])

interpretation u64_reader: field_reader read_u64
  by unfold_locales (auto simp: read_u64_def remaining_def split: if_splits intro: exI [of _ 8])

interpretation uleb128_reader: field_reader read_uleb128
proof unfold_locales
  show "r' = r" if "read_uleb128 m r = ((v, False), r')" for m r v r'
    using that by (auto simp: read_uleb128_def split: option.splits)
  show "\<exists>n > 0. r' = advance r n \<and> n \<le> remaining r"
    if "read_uleb128 m r = ((v, True), r')" for m r v r'
    using that leb128_loop_in_range [of m r 0 0]
    by (force simp: read_uleb128_def split: option.splits)
qed

interpretation sleb128_reader: field_reader read_sleb128
proof unfold_locales
  show "r' = r" if "read_sleb128 m r = ((v, False), r')" for m r v r'
    using that by (auto simp: read_sleb128_def Let_def split: option.splits)
  show "\<exists>n > 0. r' = advance r n \<and> n \<le> remaining r"
    if "read_sleb128 m r = ((v, True), r')" for m r v r'
    using that leb128_loop_in_range [of m r 0 0]
    by (force simp: read_sleb128_def Let_def split: option.splits)
qed

interpretation cstring_reader: field_reader read_cstring
proof unfold_locales
  show "r' = r" if "read_cstring m r = ((v, False), r')" for m r v r'
    using that by (auto simp: read_cstring_def split: option.splits)
  show "\<exists>n > 0. r' = advance r n \<and> n \<le> remaining r"
    if "read_cstring m r = ((v, True), r')" for m r v r'
    using that cstring_loop_in_range [of m r 0]
    by (force simp: read_cstring_def split: option.splits)
qed

subsection \<open>Encoders, and reading back what they wrote\<close>

text \<open>
  The encodings are those of the DWARF standard: little-endian words, and LEB128 numbers whose
  bytes carry seven bits each, least significant first, with the top bit set on all but the last.
\<close>

function uleb_encode :: "u64 \<Rightarrow> u8 list" where
  "uleb_encode v =
     (if v < 128 then [ucast v]
      else (ucast (take_bit 7 v) OR 128) # uleb_encode (drop_bit 7 v))"
  by pat_completeness auto
termination
  by (relation "measure unat") (auto simp: unat_simps word_less_nat_alt)

declare uleb_encode.simps [simp del]

function sleb_encode :: "int \<Rightarrow> u8 list" where
  "sleb_encode v =
     (if -64 \<le> v \<and> v < 64 then [word_of_int (take_bit 7 v)]
      else (word_of_int (take_bit 7 v) OR 128) # sleb_encode (drop_bit 7 v))"
  by pat_completeness auto
termination
proof (relation "measure (\<lambda>v. nat \<bar>v\<bar>)")
  show "wf (measure (\<lambda>v. nat \<bar>v\<bar>))" by simp
  fix v :: int
  assume "\<not> (-64 \<le> v \<and> v < 64)"
  then have "\<bar>v div 128\<bar> < \<bar>v\<bar>" by auto
  then show "(drop_bit 7 v, v) \<in> measure (\<lambda>v. nat \<bar>v\<bar>)" by (simp add: drop_bit_eq_div)
qed

declare sleb_encode.simps [simp del]

lemma cursor_add: "cursor r i = cursor r 0 + of_nat i"
  by (simp add: cursor_def)

text \<open>Bits below \<open>7 (k + 1)\<close> of a number are those below \<open>7 k\<close> and the next group of seven.\<close>

lemma take_bit_next_group:
  fixes v :: "'a::semiring_bit_operations"
  shows "take_bit (7 * k) v OR push_bit (k * 7) (take_bit 7 (drop_bit (7 * k) v)) = take_bit (7 * Suc k) v"
  by (rule bit_eqI) (auto simp: bit_simps ac_simps)

lemma take_bit_or_drop_bit: "take_bit (7 * k) v OR push_bit (k * 7) (drop_bit (7 * k) v) = v"
proof (rule bit_eqI)
  fix n assume "possible_bit TYPE('a) n"
  then show "bit (take_bit (7 * k) v OR push_bit (k * 7) (drop_bit (7 * k) v)) n \<longleftrightarrow> bit v n"
    for v :: "'a::semiring_bit_operations"
    by (cases "n < 7 * k") (auto simp: bit_simps ac_simps)
qed

lemma bit_leb_masks:
  "bit (128 :: int) n \<longleftrightarrow> n = 7" "bit (127 :: int) n \<longleftrightarrow> n < 7" "bit (64 :: int) n \<longleftrightarrow> n = 6"
proof -
  have "(128 :: int) = 2 ^ 7" "(127 :: int) = mask 7" "(64 :: int) = 2 ^ 6"
    by (simp_all add: mask_eq_exp_minus_1)
  then show "bit (128 :: int) n \<longleftrightarrow> n = 7" "bit (127 :: int) n \<longleftrightarrow> n < 7" "bit (64 :: int) n \<longleftrightarrow> n = 6"
    by (auto simp only: bit_exp_iff bit_mask_iff possible_bit_int)
qed

lemma uleb_byte_small:
  fixes x :: u64
  assumes "x < 128"
  shows "(ucast x :: u8) AND LEB_CONTINUE_MASK = 0"
    "ucast ((ucast x :: u8) AND LEB_VALUE_MASK) = x"
proof -
  have t: "take_bit 7 x = x"
    using assms by (simp add: word_less_nat_alt word_unat_eq_iff unat_simps)
  then have hi: "bit x i \<Longrightarrow> i < 7" for i by (metis bit_take_bit_iff)
  show "(ucast x :: u8) AND LEB_CONTINUE_MASK = 0"
    by (intro bit_word_eqI) (auto simp: bit_simps leb_consts bit_leb_masks dest: hi)
  show "ucast ((ucast x :: u8) AND LEB_VALUE_MASK) = x"
    by (intro bit_word_eqI) (auto simp: bit_simps leb_consts bit_leb_masks dest: hi)
qed

lemma leb_byte_more:
  fixes y :: "'a::len word"
  shows "(ucast (take_bit 7 y) OR 128 :: u8) AND LEB_CONTINUE_MASK \<noteq> 0"
    "ucast ((ucast (take_bit 7 x) OR 128 :: u8) AND LEB_VALUE_MASK) = (take_bit 7 x :: u64)"
proof -
  have "bit ((ucast (take_bit 7 y) OR 128 :: u8) AND LEB_CONTINUE_MASK) 7"
    by (simp add: bit_simps leb_consts bit_leb_masks)
  then show "(ucast (take_bit 7 y) OR 128 :: u8) AND LEB_CONTINUE_MASK \<noteq> 0" by auto
  show "ucast ((ucast (take_bit 7 x) OR 128 :: u8) AND LEB_VALUE_MASK) = (take_bit 7 x :: u64)"
    by (intro bit_word_eqI) (auto simp: bit_simps leb_consts bit_leb_masks)
qed

lemma uleb_loop_reads:
  assumes "bytes_at m (cursor r k) (uleb_encode (drop_bit (7 * k) v))"
    and "int k + int (length (uleb_encode (drop_bit (7 * k) v))) \<le> remaining r"
    and "k = 0 \<or> drop_bit (7 * k) v \<noteq> 0"
  shows "\<exists>b. leb128_loop m r (take_bit (7 * k) v) k =
    Some (v, k + length (uleb_encode (drop_bit (7 * k) v)) - 1, b)"
  using assms
proof (induction "10 - k" arbitrary: k rule: less_induct)
  case less
  let ?x = "drop_bit (7 * k) v"
  have "k < 10"
  proof (rule ccontr)
    assume "\<not> k < 10"
    then have "?x = 0" by (intro bit_word_eqI) (auto simp: bit_drop_bit_eq dest: bit_imp_le_length)
    with less.prems(3) \<open>\<not> k < 10\<close> show False by simp
  qed
  have room: "\<not> br_size r - br_offset r \<le> int k"
    using less.prems(2) by (subst (asm) uleb_encode.simps) (auto simp: remaining_def split: if_splits)
  show ?case
  proof (cases "?x < 128")
    case True
    have "m (cursor r k) = ucast ?x"
      using less.prems(1) True by (subst (asm) uleb_encode.simps) simp
    moreover have "take_bit (7 * k) v OR push_bit (k * 7) ?x = v"
      by (rule take_bit_or_drop_bit)
    ultimately show ?thesis
      using True room \<open>k < 10\<close> uleb_byte_small [OF True]
      by (subst leb128_loop.simps) (simp add: Let_def LEB_VALUE_BIT_COUNT_def uleb_encode.simps [of ?x])
  next
    case False
    let ?b = "ucast (take_bit 7 ?x) OR 128 :: u8"
    have enc: "uleb_encode ?x = ?b # uleb_encode (drop_bit 7 ?x)"
      using False by (subst uleb_encode.simps) simp
    have next_x: "drop_bit 7 ?x = drop_bit (7 * (k + 1)) v" by (simp add: algebra_simps)
    have byte: "m (cursor r k) = ?b" and rest: "bytes_at m (cursor r (k + 1)) (uleb_encode (drop_bit (7 * (k + 1)) v))"
      using less.prems(1) unfolding enc next_x [symmetric] by (auto simp: cursor_def ac_simps)
    have "drop_bit 7 ?x \<noteq> 0"
    proof
      assume "drop_bit 7 ?x = 0"
      then have "unat (drop_bit 7 ?x) = 0" by (simp only: unat_0)
      then have "unat ?x div 128 = 0" by (simp only: unat_drop_bit) simp
      with False show False by (simp add: word_less_nat_alt)
    qed
    moreover have "10 - (k + 1) < 10 - k" using \<open>k < 10\<close> by simp
    ultimately obtain b where ih: "leb128_loop m r (take_bit (7 * (k + 1)) v) (k + 1) =
      Some (v, k + 1 + length (uleb_encode (drop_bit (7 * (k + 1)) v)) - 1, b)"
      using less.hyps [OF _ rest] less.prems(2) unfolding enc next_x by auto
    have "leb128_loop m r (take_bit (7 * k) v) k = leb128_loop m r (take_bit (7 * (k + 1)) v) (k + 1)"
      using room \<open>k < 10\<close> byte leb_byte_more [of ?x] take_bit_next_group [of k v]
      by (subst leb128_loop.simps) (simp add: Let_def LEB_VALUE_BIT_COUNT_def)
    with ih show ?thesis unfolding enc next_x by simp
  qed
qed

lemma uleb_encode_nonempty: "uleb_encode v \<noteq> []"
  by (subst uleb_encode.simps) simp

lemma read_uleb128_encoded:
  assumes "bytes_at m (cursor r 0) (uleb_encode v)" "int (length (uleb_encode v)) \<le> remaining r"
  shows "read_uleb128 m r = ((v, True), advance r (int (length (uleb_encode v))))"
proof -
  obtain b where "leb128_loop m r 0 0 = Some (v, length (uleb_encode v) - 1, b)"
    using uleb_loop_reads [of m r 0 v] assms by auto
  moreover have "int (length (uleb_encode v) - 1) + 1 = int (length (uleb_encode v))"
    using uleb_encode_nonempty [of v] by (cases "uleb_encode v") auto
  ultimately show ?thesis by (simp add: read_uleb128_def)
qed

text \<open>The same for \<open>sleb128\<close>; the last byte's sign bit is copied upwards.\<close>

lemma sleb_byte_small:
  fixes x :: int
  assumes "-64 \<le> x" "x < 64"
  shows "(word_of_int (take_bit 7 x) :: u8) AND LEB_CONTINUE_MASK = 0"
    "ucast ((word_of_int (take_bit 7 x) :: u8) AND LEB_VALUE_MASK) = (word_of_int (take_bit 7 x) :: u64)"
    "(word_of_int (take_bit 7 x) :: u8) AND LEB_SIGN_MASK \<noteq> 0 \<longleftrightarrow> x < 0"
    "6 \<le> i \<Longrightarrow> bit x i \<longleftrightarrow> x < 0"
proof -
  have sign: "bit x i \<longleftrightarrow> x < 0" if "6 \<le> i" for i
  proof -
    have "(2::int) ^ 6 \<le> 2 ^ i" using that by (intro power_increasing) simp_all
    then have p: "64 \<le> (2::int) ^ i" by simp
    show ?thesis
    proof (cases "x < 0")
      case True
      then have "x div 2 ^ i = -1" using assms p by (intro int_div_pos_eq [of _ _ _ "x + 2 ^ i"]) auto
      with True show ?thesis by (simp add: bit_iff_odd)
    next
      case False
      then have "x div 2 ^ i = 0" using assms p by (intro div_pos_pos_trivial) auto
      with False show ?thesis by (simp add: bit_iff_odd)
    qed
  qed
  show "6 \<le> i \<Longrightarrow> bit x i \<longleftrightarrow> x < 0" by (rule sign)
  show "(word_of_int (take_bit 7 x) :: u8) AND LEB_CONTINUE_MASK = 0"
    by (intro bit_word_eqI) (auto simp: bit_simps leb_consts bit_leb_masks)
  show "ucast ((word_of_int (take_bit 7 x) :: u8) AND LEB_VALUE_MASK) = (word_of_int (take_bit 7 x) :: u64)"
    by (intro bit_word_eqI) (auto simp: bit_simps leb_consts bit_leb_masks)
  have "(word_of_int (take_bit 7 x) :: u8) AND LEB_SIGN_MASK = (if bit x 6 then 64 else 0)"
    by (intro bit_word_eqI) (auto simp: bit_simps leb_consts bit_leb_masks)
  with sign [of 6] show "(word_of_int (take_bit 7 x) :: u8) AND LEB_SIGN_MASK \<noteq> 0 \<longleftrightarrow> x < 0"
    by simp
qed

lemma sleb_byte_more:
  "(word_of_int (take_bit 7 x) OR 128 :: u8) AND LEB_CONTINUE_MASK \<noteq> 0"
  "ucast ((word_of_int (take_bit 7 x) OR 128 :: u8) AND LEB_VALUE_MASK) = (word_of_int (take_bit 7 x) :: u64)"
proof -
  have "bit ((word_of_int (take_bit 7 x) OR 128 :: u8) AND LEB_CONTINUE_MASK) 7"
    by (simp add: bit_simps leb_consts bit_leb_masks)
  then show "(word_of_int (take_bit 7 x) OR 128 :: u8) AND LEB_CONTINUE_MASK \<noteq> 0" by auto
  show "ucast ((word_of_int (take_bit 7 x) OR 128 :: u8) AND LEB_VALUE_MASK) = (word_of_int (take_bit 7 x) :: u64)"
    by (intro bit_word_eqI) (auto simp: bit_simps leb_consts bit_leb_masks)
qed

lemma sleb_step_word:
  "(word_of_int (take_bit (7 * k) v) :: u64) OR push_bit (k * 7) (word_of_int (take_bit 7 (drop_bit (7 * k) v)))
     = word_of_int (take_bit (7 * (k + 1)) v)"
  by (intro bit_word_eqI) (auto simp: bit_simps ac_simps)

lemma sleb_loop_reads:
  assumes "bytes_at m (cursor r k) (sleb_encode (drop_bit (7 * k) v))"
    and "int k + int (length (sleb_encode (drop_bit (7 * k) v))) \<le> remaining r"
    and "k < 10" "-(2 ^ 63) \<le> v" "v < 2 ^ 63"
  shows "\<exists>n b. leb128_loop m r (word_of_int (take_bit (7 * k) v)) k =
      Some (word_of_int (take_bit (7 * (n + 1)) v), n, b) \<and>
    n + 1 = k + length (sleb_encode (drop_bit (7 * k) v)) \<and>
    (b AND LEB_SIGN_MASK \<noteq> 0 \<longleftrightarrow> v < 0) \<and> (\<forall>i \<ge> 7 * (n + 1) - 1. bit v i \<longleftrightarrow> v < 0)"
  using assms
proof (induction "10 - k" arbitrary: k rule: less_induct)
  case less
  let ?x = "drop_bit (7 * k) v"
  have room: "\<not> br_size r - br_offset r \<le> int k"
    using less.prems(2) by (subst (asm) sleb_encode.simps) (auto simp: remaining_def split: if_splits)
  have sgn: "?x < 0 \<longleftrightarrow> v < 0" by simp
  show ?case
  proof (cases "-64 \<le> ?x \<and> ?x < 64")
    case True
    then have enc: "sleb_encode ?x = [word_of_int (take_bit 7 ?x)]" by (simp add: sleb_encode.simps)
    have byte: "m (cursor r k) = word_of_int (take_bit 7 ?x)" using less.prems(1) unfolding enc by simp
    have "leb128_loop m r (word_of_int (take_bit (7 * k) v)) k =
      Some (word_of_int (take_bit (7 * (k + 1)) v), k, word_of_int (take_bit 7 ?x))"
      using room \<open>k < 10\<close> byte True sleb_byte_small(1,2) [of ?x] sleb_step_word [of k v]
      by (subst leb128_loop.simps) (simp add: Let_def LEB_VALUE_BIT_COUNT_def)
    moreover have "\<forall>i \<ge> 7 * (k + 1) - 1. bit v i \<longleftrightarrow> v < 0"
    proof (intro allI impI)
      fix i assume "7 * (k + 1) - 1 \<le> i"
      then have "6 \<le> i - 7 * k" "7 * k + (i - 7 * k) = i" by auto
      then show "bit v i \<longleftrightarrow> v < 0"
        using sleb_byte_small(4) [of ?x "i - 7 * k"] True sgn by (simp add: bit_drop_bit_eq)
    qed
    ultimately show ?thesis
      using sleb_byte_small(3) [of ?x] True sgn unfolding enc by auto
  next
    case False
    let ?b = "word_of_int (take_bit 7 ?x) OR 128 :: u8"
    have enc: "sleb_encode ?x = ?b # sleb_encode (drop_bit 7 ?x)"
      by (subst sleb_encode.simps) (simp only: False if_False)
    have next_x: "drop_bit 7 ?x = drop_bit (7 * (k + 1)) v" by (simp add: algebra_simps)
    have byte: "m (cursor r k) = ?b" and rest: "bytes_at m (cursor r (k + 1)) (sleb_encode (drop_bit (7 * (k + 1)) v))"
      using less.prems(1) unfolding enc next_x [symmetric] by (auto simp: cursor_def ac_simps)
    have "k + 1 < 10"
    proof (rule ccontr)
      assume "\<not> k + 1 < 10"
      then have "k = 9" using less.prems(3) by simp
      moreover have "v div 9223372036854775808 = 0 \<or> v div 9223372036854775808 = -1"
      proof (cases "v < 0")
        case True
        then have "v div 9223372036854775808 = -1"
          using less.prems(4) by (intro int_div_pos_eq [of _ _ _ "v + 9223372036854775808"]) simp_all
        then show ?thesis ..
      qed (use less.prems(5) in simp)
      ultimately show False using False by (auto simp: drop_bit_eq_div)
    qed
    moreover have "10 - (k + 1) < 10 - k" using \<open>k < 10\<close> by simp
    ultimately obtain n b where ih: "leb128_loop m r (word_of_int (take_bit (7 * (k + 1)) v)) (k + 1) =
        Some (word_of_int (take_bit (7 * (n + 1)) v), n, b)"
      "n + 1 = k + 1 + length (sleb_encode (drop_bit (7 * (k + 1)) v))"
      "b AND LEB_SIGN_MASK \<noteq> 0 \<longleftrightarrow> v < 0" "\<forall>i \<ge> 7 * (n + 1) - 1. bit v i \<longleftrightarrow> v < 0"
      using less.hyps [OF _ rest] less.prems(2,4,5) unfolding enc next_x by auto
    have "leb128_loop m r (word_of_int (take_bit (7 * k) v)) k =
      leb128_loop m r (word_of_int (take_bit (7 * (k + 1)) v)) (k + 1)"
      using room \<open>k < 10\<close> byte sleb_byte_more [of ?x] sleb_step_word [of k v]
      by (subst leb128_loop.simps) (simp add: Let_def LEB_VALUE_BIT_COUNT_def)
    with ih show ?thesis unfolding enc next_x by auto
  qed
qed

lemma sleb_encode_nonempty: "sleb_encode v \<noteq> []"
  by (subst sleb_encode.simps) simp

lemma sleb_extend:
  assumes "\<forall>i \<ge> w - 1. bit v i \<longleftrightarrow> v < 0" "0 < w"
  shows "(if w < 64 \<and> v < 0 then word_of_int (take_bit w v) OR push_bit w (NOT 0)
          else word_of_int (take_bit w v)) = (word_of_int v :: u64)"
proof (rule bit_word_eqI)
  fix i assume i: "i < LENGTH(64)"
  show "bit (if w < 64 \<and> v < 0 then word_of_int (take_bit w v) OR push_bit w (NOT 0)
      else word_of_int (take_bit w v) :: u64) i \<longleftrightarrow> bit (word_of_int v :: u64) i"
  proof (cases "i < w")
    case True
    with i show ?thesis by (auto simp: bit_simps)
  next
    case False
    with i assms(1) [rule_format, of i] show ?thesis by (auto simp: bit_simps)
  qed
qed

lemma read_sleb128_encoded:
  assumes "bytes_at m (cursor r 0) (sleb_encode v)" "int (length (sleb_encode v)) \<le> remaining r"
    and "-(2 ^ 63) \<le> v" "v < 2 ^ 63"
  shows "read_sleb128 m r = ((v, True), advance r (int (length (sleb_encode v))))"
proof -
  have "\<exists>n b. leb128_loop m r 0 0 = Some (word_of_int (take_bit (7 * (n + 1)) v), n, b) \<and>
      n + 1 = length (sleb_encode v) \<and> (b AND LEB_SIGN_MASK \<noteq> 0 \<longleftrightarrow> v < 0) \<and>
      (\<forall>i \<ge> 7 * (n + 1) - 1. bit v i \<longleftrightarrow> v < 0)"
    using sleb_loop_reads [of m r 0 v] assms by simp
  then obtain n b where l: "leb128_loop m r 0 0 = Some (word_of_int (take_bit (7 * (n + 1)) v), n, b)"
    "n + 1 = length (sleb_encode v)" "b AND LEB_SIGN_MASK \<noteq> 0 \<longleftrightarrow> v < 0"
    "\<forall>i \<ge> 7 * (n + 1) - 1. bit v i \<longleftrightarrow> v < 0"
    by blast
  have "sint (word_of_int v :: u64) = v"
    using assms(3,4) by (simp add: signed_of_int signed_take_bit_int_eq_self)
  moreover have "int n + 1 = int (length (sleb_encode v))" using l(2) by linarith
  ultimately show ?thesis
    using l(1,3) sleb_extend [OF l(4)]
    by (simp add: read_sleb128_def Let_def LEB_VALUE_BIT_COUNT_def ac_simps cong: if_cong)
qed

subsection \<open>Codecs\<close>

text \<open>
  A codec is a field reader with the encoder it inverts on a domain. Whatever the encoding, it
  is then prefix-free on that domain, and a run of encoded values is read back in order.
\<close>

fun read_list :: "(memory \<Rightarrow> byte_reader \<Rightarrow> 'a read_result \<times> byte_reader) \<Rightarrow> memory \<Rightarrow> nat \<Rightarrow> byte_reader \<Rightarrow>
    ('a list \<times> byte_reader) option" where
  "read_list rd m 0 r = Some ([], r)"
| "read_list rd m (Suc n) r =
     do { (v, r) \<leftarrow> checked (rd m r); (vs, r) \<leftarrow> read_list rd m n r; Some (v # vs, r) }"

lemma advance_advance [simp]: "advance (advance r a) b = advance r (a + b)"
  by (simp add: advance_def)

lemma cursor_advance: "cursor (advance r (int n)) i = cursor r (n + i)"
  by (simp add: cursor_def advance_def)

lemma remaining_advance [simp]: "remaining (advance r n) = remaining r - n"
  by (simp add: remaining_def advance_def)

locale codec = field_reader rd
  for rd :: "memory \<Rightarrow> byte_reader \<Rightarrow> 'a read_result \<times> byte_reader" +
  fixes enc :: "'a \<Rightarrow> u8 list" and valid :: "'a \<Rightarrow> bool"
  assumes roundtrip: "valid v \<Longrightarrow> bytes_at m (cursor r 0) (enc v) \<Longrightarrow>
      int (length (enc v)) \<le> remaining r \<Longrightarrow>
      rd m r = ((v, True), advance r (int (length (enc v))))"
begin

lemma prefix_free:
  assumes "valid v" "valid w" "enc v @ xs = enc w @ ys" "length (enc v @ xs) \<le> 2 ^ 63"
  shows "v = w \<and> xs = ys"
proof -
  let ?bs = "enc v @ xs"
  let ?m = "memory_of 0 ?bs" and ?r = "byte_reader_of 0 (int (length ?bs))"
  have at: "bytes_at ?m 0 ?bs" using assms(4) by (intro bytes_at_memory_of) simp
  have c: "cursor ?r 0 = 0" "remaining ?r = int (length ?bs)"
    by (simp_all add: cursor_def byte_reader_of_def remaining_def)
  have "rd ?m ?r = ((v, True), advance ?r (int (length (enc v))))"
    using assms(1) at c by (intro roundtrip) (simp_all add: bytes_at_append)
  moreover have "rd ?m ?r = ((w, True), advance ?r (int (length (enc w))))"
    using assms(2) at c unfolding assms(3) by (intro roundtrip) (simp_all add: bytes_at_append)
  ultimately show ?thesis using assms(3) by simp
qed

lemma read_list_encoded:
  assumes "\<forall>v \<in> set vs. valid v" "bytes_at m (cursor r 0) (concat (map enc vs))"
    "int (length (concat (map enc vs))) \<le> remaining r"
  shows "read_list rd m (length vs) r = Some (vs, advance r (int (length (concat (map enc vs)))))"
  using assms
proof (induction vs arbitrary: r)
  case Nil
  then show ?case by (simp add: advance_def)
next
  case (Cons v vs)
  let ?r = "advance r (int (length (enc v)))"
  have "checked (rd m r) = Some (v, ?r)"
    using Cons.prems by (subst roundtrip) (auto simp: bytes_at_append)
  moreover have "read_list rd m (length vs) ?r =
      Some (vs, advance ?r (int (length (concat (map enc vs)))))"
    using Cons.prems
    by (intro Cons.IH) (simp_all add: bytes_at_append cursor_advance cursor_add [of r "length _"])
  ultimately show ?case by simp
qed

end

lemma le_bytes_read:
  fixes w :: "'a::len word"
  assumes "bytes_at m (cursor r 0) (le_bytes n w)" "8 * n = LENGTH('a)"
  shows "foldl (\<lambda>acc i. acc OR push_bit (i * 8) (ucast (m (cursor r i)))) 0 [0..<n] = w"
  using fold_le_bytes [OF assms(1)] assms(2) by (simp add: take_bit_word_eq_self flip: cursor_add)

interpretation u8_codec: codec read_u8 "\<lambda>w. [w]" "\<lambda>_. True"
  by unfold_locales (simp add: read_u8_def remaining_def)

interpretation u16_codec: codec read_u16 "le_bytes 2" "\<lambda>_. True"
  by unfold_locales (auto simp: read_u16_def remaining_def le_bytes_read)

interpretation u32_codec: codec read_u32 "le_bytes 4" "\<lambda>_. True"
  by unfold_locales (auto simp: read_u32_def remaining_def le_bytes_read)

interpretation u64_codec: codec read_u64 "le_bytes 8" "\<lambda>_. True"
  by unfold_locales (auto simp: read_u64_def remaining_def le_bytes_read)

interpretation uleb128_codec: codec read_uleb128 uleb_encode "\<lambda>_. True"
  by unfold_locales (rule read_uleb128_encoded)

interpretation sleb128_codec: codec read_sleb128 sleb_encode "\<lambda>v. -(2 ^ 63) \<le> v \<and> v < 2 ^ 63"
  by unfold_locales (auto intro: read_sleb128_encoded)

text \<open>A string and its terminator.\<close>

lemma cstring_loop_reads:
  assumes "bytes_at m (cursor r 0) (s @ [0])" "0 \<notin> set s" "int (length s) < remaining r" "k \<le> length s"
  shows "cstring_loop m r k = Some (length s)"
  using assms(4)
proof (induction "length s - k" arbitrary: k)
  case 0
  then show ?case
    using assms by (subst cstring_loop.simps)
      (auto simp: remaining_def bytes_at_append cursor_add [of r "length s"])
next
  case (Suc d)
  then have "k < length s" by simp
  then have "m (cursor r k) = s ! k" using assms(1)
    by (simp add: bytes_at_append bytes_at_def cursor_add [of r k] nth_append)
  moreover have "s ! k \<noteq> 0" using assms(2) nth_mem [OF \<open>k < length s\<close>] by metis
  ultimately have "m (cursor r k) \<noteq> 0" by simp
  then have "cstring_loop m r k = cstring_loop m r (k + 1)"
    using \<open>k < length s\<close> assms(2,3) by (subst cstring_loop.simps) (auto simp: remaining_def)
  with Suc show ?case by simp
qed

lemma read_cstring_encoded:
  assumes "bytes_at m (cursor r 0) (s @ [0])" "0 \<notin> set s" "int (length s) < remaining r"
  shows "read_cstring m r =
    ((\<lparr>view_data = cursor r 0, view_size = int (length s)\<rparr>, True), advance r (int (length s) + 1))"
  using cstring_loop_reads [OF assms] by (simp add: read_cstring_def)

subsection \<open>Properties\<close>

text \<open>A buffer with \<open>300\<close> as uleb128, \<open>-624485\<close> as sleb128, \<open>7\<close> as a byte and the string \<open>fo\<close>.\<close>

definition sample_memory :: memory where
  "sample_memory = memory_of 4096 [0xac, 0x02, 0x9b, 0xf1, 0x59, 0x07, 0x66, 0x6f, 0x00]"

definition sample_reader :: "int \<Rightarrow> byte_reader" where
  "sample_reader offset = \<lparr>br_source = 4096, br_size = 9, br_offset = offset\<rparr>"

lemmas sample_defs = sample_memory_def sample_reader_def memory_of_def cursor_def remaining_def
  advance_def

text \<open>
  LEB128 round trip, unsigned. Reading the LEB128 encoding of any \<open>u64\<close> from a buffer that
  holds it returns the number and moves the cursor exactly behind the encoding, whatever follows.
\<close>

theorem uleb128_roundtrip:
  assumes "bytes_at m (cursor r 0) (uleb_encode v)"
    and "int (length (uleb_encode v)) \<le> remaining r"
  shows "read_uleb128 m r = ((v, True), advance r (int (length (uleb_encode v))))"
  using assms by (rule read_uleb128_encoded)

theorem uleb128_roundtrip_witness:
  "read_uleb128 sample_memory (sample_reader 0) = ((300, True), sample_reader 2)"
proof -
  have e: "uleb_encode 300 = [0xac, 0x02]" by (simp add: uleb_encode.simps)
  have "bytes_at sample_memory (cursor (sample_reader 0) 0) (uleb_encode 300)"
    "int (length (uleb_encode 300)) \<le> remaining (sample_reader 0)"
    unfolding e by (simp_all add: sample_defs)
  from uleb128_roundtrip [OF this] show ?thesis unfolding e by (simp add: sample_defs)
qed

text \<open>
  LEB128 round trip, signed. The same for \<open>read_sleb128\<close> and every \<open>s64\<close>: the sign bit of
  the last byte is extended, so negative numbers come back unchanged.
\<close>

theorem sleb128_roundtrip:
  assumes "bytes_at m (cursor r 0) (sleb_encode v)"
    and "int (length (sleb_encode v)) \<le> remaining r"
    and "-(2 ^ 63) \<le> v" and "v < 2 ^ 63"
  shows "read_sleb128 m r = ((v, True), advance r (int (length (sleb_encode v))))"
  using assms by (rule read_sleb128_encoded)

theorem sleb128_roundtrip_witness:
  "read_sleb128 sample_memory (sample_reader 2) = ((-624485, True), sample_reader 5)"
proof -
  have e: "sleb_encode (-624485) = [0x9b, 0xf1, 0x59]" by code_simp
  have "bytes_at sample_memory (cursor (sample_reader 2) 0) (sleb_encode (-624485))"
    "int (length (sleb_encode (-624485))) \<le> remaining (sample_reader 2)"
    unfolding e by (simp_all add: sample_defs)
  from sleb128_roundtrip [OF this] show ?thesis unfolding e by (simp add: sample_defs)
qed



text \<open>
  A negative count is accepted. \<open>read_bytes\<close> compares the remaining size with a signed
  count only, so a length of at least \<open>2 ^ 63\<close> converted to \<open>ssize\<close> succeeds, returns a view of
  negative size and moves the cursor backwards: the bounds check does not cover it.
\<close>

theorem read_bytes_negative_count:
  assumes "br_wf r" "count < 0"
  shows "snd (fst (read_bytes m r count)) \<and> view_size (fst (fst (read_bytes m r count))) < 0 \<and>
    br_offset (snd (read_bytes m r count)) = br_offset r + count"
  using assms by (auto simp: read_bytes_def br_wf_def advance_def)

theorem read_bytes_negative_count_witness:
  "br_offset (snd (read_bytes sample_memory (sample_reader 2) (sint (0xfffffffffffffffd :: u64)))) = -1"
  using read_bytes_negative_count [of "sample_reader 2" "-3" sample_memory]
  by (simp add: br_wf_def sample_reader_def)

end
