(* ===== verification/Hash_Table.thy ===== *)
theory Hash_Table
  imports Bits
begin

text \<open>
  \<^verbatim>\<open>kstd/hash.hh\<close> and \<^verbatim>\<open>kstd/hash_table.hh\<close>: the hash functions and the open-addressing table
  with triangular probing. The table is modelled with the default template arguments (load
  factor 70, tombstones reused), the only ones the program instantiates. \<open>compute\<close> is
  \<^verbatim>\<open>hash::compute\<close> on the key type of the instantiation and \<open>blank\<close> the value-initialised
  \<^verbatim>\<open>Entry{}\<close> (all of whose fields are zero). The allocator's failure is not part of the model:
  \<open>_resize_entries\<close> gets its array.
\<close>

section \<open>Hash functions\<close>

definition HASH_INIT :: u32 where "HASH_INIT = 0"
definition FNV_64_PRIME :: u64 where "FNV_64_PRIME = 0x100000001b3"
definition FNV_64_OFFSET_BIAS :: u64 where "FNV_64_OFFSET_BIAS = 0xcbf29ce484222325"

fun sdbm_hash :: "u8 list \<Rightarrow> u32 \<Rightarrow> u32" where
  "sdbm_hash [] h = h"
| "sdbm_hash (b # bytes) h = sdbm_hash bytes (push_bit 16 h + push_bit 6 h - h + ucast b)"

definition fnv1a_hash_value :: "u64 \<Rightarrow> u64 \<Rightarrow> u64" where
  "fnv1a_hash_value v h = (h XOR v) * FNV_64_PRIME"

fun fnv1a_hash :: "u8 list \<Rightarrow> u64 \<Rightarrow> u64" where
  "fnv1a_hash [] h = h"
| "fnv1a_hash (b # bytes) h = fnv1a_hash bytes (fnv1a_hash_value (ucast b) h)"

definition knuth_hash :: "u64 \<Rightarrow> u64" where
  "knuth_hash v = 0x9E3779B97F4A7C15 * v"

definition compute_integral :: "u64 \<Rightarrow> u32" where
  "compute_integral v = ucast (drop_bit 32 (knuth_hash v))"

definition compute_string :: "u8 list \<Rightarrow> u32" where
  "compute_string bytes =
     (let hash_value = fnv1a_hash bytes FNV_64_OFFSET_BIAS
      in ucast (hash_value XOR drop_bit 32 hash_value))"

section \<open>The table\<close>

record ('k, 'v) entry =
  entry_hash :: u32
  entry_key :: 'k
  entry_value :: 'v

record ('k, 'v) hash_table =
  ht_count :: int
  slots_filled :: int
  entries :: "('k, 'v) entry list"

definition MIN_SIZE :: int where "MIN_SIZE = 32"
definition LOAD_FACTOR_PERCENT :: int where "LOAD_FACTOR_PERCENT = 70"
definition EMPTY_HASH :: u32 where "EMPTY_HASH = 0"
definition TOMBSTONE_HASH :: u32 where "TOMBSTONE_HASH = 1"
definition FIRST_VALID_HASH :: u32 where "FIRST_VALID_HASH = 2"

definition entries_size :: "('k, 'v) hash_table \<Rightarrow> int" where
  "entries_size t = int (List.length (entries t))"

definition index_mask :: "('k, 'v) hash_table \<Rightarrow> u32" where
  "index_mask t = word_of_int (entries_size t - 1)"

definition valid_hash :: "('k \<Rightarrow> u32) \<Rightarrow> 'k \<Rightarrow> u32" where
  "valid_hash compute key =
     (let h = compute key in if h < FIRST_VALID_HASH then h + FIRST_VALID_HASH else h)"

text \<open>
  The probing \<^verbatim>\<open>while\<close> loop: it leaves at the first slot whose entry satisfies \<open>stop\<close>, and
  \<open>Array_View::operator[]\<close> asserts the index. It need not end, so it is partial.
\<close>

partial_function (option) probe_loop ::
  "(('k, 'v) entry \<Rightarrow> bool) \<Rightarrow> ('k, 'v) entry list \<Rightarrow> u32 \<Rightarrow> nat \<Rightarrow> u32 \<Rightarrow> nat run" where
  "probe_loop stop es slot_mask index probe_increment =
     (if \<not> index < List.length es then Some (Inl ''index out of bounds'')
      else if stop (es ! index) then Some (Inr index)
      else probe_loop stop es slot_mask
             ((index + unat probe_increment) AND unat slot_mask) (probe_increment + 1))"

definition find_entry :: "('k \<Rightarrow> u32) \<Rightarrow> ('k, 'v) hash_table \<Rightarrow> 'k \<Rightarrow> nat option run" where
  "find_entry compute t key =
     (let mask = index_mask t; h = valid_hash compute key
      in rbind (probe_loop (\<lambda>e. entry_hash e = EMPTY_HASH \<or> entry_hash e = h \<and> entry_key e = key)
                  (entries t) mask (unat (h AND mask)) 1) (\<lambda>index.
           Some (Inr (if entry_hash (entries t ! index) = EMPTY_HASH then None else Some index))))"

definition ht_find :: "('k \<Rightarrow> u32) \<Rightarrow> ('k, 'v) hash_table \<Rightarrow> 'k \<Rightarrow> 'v option run" where
  "ht_find compute t key =
     rbind (find_entry compute t key) (\<lambda>entry.
       Some (Inr (map_option (\<lambda>index. entry_value (entries t ! index)) entry)))"

text \<open>\<open>_resize_entries\<close>: the new table and the entries it replaced.\<close>

definition resize_entries ::
  "('k, 'v) entry \<Rightarrow> int \<Rightarrow> ('k, 'v) hash_table \<Rightarrow> (('k, 'v) entry list \<times> ('k, 'v) hash_table) outcome"
  where
  "resize_entries blank new_slot_count t =
     (let slot_count = (if new_slot_count < MIN_SIZE then MIN_SIZE else new_slot_count)
      in obind (next_power_of_two slot_count) (\<lambda>slot_count.
           Inr (entries t, t\<lparr> entries := replicate (nat slot_count) blank \<rparr>)))"

definition hash_table_new :: "('k, 'v) entry \<Rightarrow> int \<Rightarrow> ('k, 'v) hash_table outcome" where
  "hash_table_new blank initial_size =
     obind (resize_entries blank initial_size \<lparr> ht_count = 0, slots_filled = 0, entries = [] \<rparr>)
       (\<lambda>(old, t). Inr t)"

text \<open>The loop of \<open>expand\<close> over the old entries; \<open>add\<close> is the method it calls.\<close>

fun reinsert ::
  "(('k, 'v) hash_table \<Rightarrow> 'k \<Rightarrow> 'v \<Rightarrow> (nat \<times> ('k, 'v) hash_table) run) \<Rightarrow>
   ('k, 'v) entry list \<Rightarrow> ('k, 'v) hash_table \<Rightarrow> ('k, 'v) hash_table run" where
  "reinsert add [] t = Some (Inr t)"
| "reinsert add (e # es) t =
     (if FIRST_VALID_HASH \<le> entry_hash e
      then rbind (add t (entry_key e) (entry_value e)) (\<lambda>(index, t). reinsert add es t)
      else reinsert add es t)"

definition expand_to ::
  "(('k, 'v) hash_table \<Rightarrow> 'k \<Rightarrow> 'v \<Rightarrow> (nat \<times> ('k, 'v) hash_table) run) \<Rightarrow>
   ('k, 'v) entry \<Rightarrow> int \<Rightarrow> ('k, 'v) hash_table \<Rightarrow> ('k, 'v) hash_table run" where
  "expand_to add blank new_slot_count t =
     run_assert (is_power_of_two new_slot_count)
       ''If you pass in a value yourself it must be a power of 2.''
       (let to_allocate = (if new_slot_count < MIN_SIZE then MIN_SIZE else new_slot_count)
        in rbind (Some (resize_entries blank to_allocate t)) (\<lambda>(old_entries, t).
             reinsert add old_entries (t\<lparr> ht_count := 0, slots_filled := 0 \<rparr>)))"

definition expand ::
  "(('k, 'v) hash_table \<Rightarrow> 'k \<Rightarrow> 'v \<Rightarrow> (nat \<times> ('k, 'v) hash_table) run) \<Rightarrow>
   ('k, 'v) entry \<Rightarrow> ('k, 'v) hash_table \<Rightarrow> ('k, 'v) hash_table run" where
  "expand add blank t =
     (let to_allocate =
        (if (ht_count t * 2 + 1) * 100 < entries_size t * LOAD_FACTOR_PERCENT
         then entries_size t else entries_size t * 2)
      in expand_to add blank to_allocate t)"

text \<open>
  The part of \<open>add\<close> after the load check, and \<open>add\<close> itself. \<open>add\<close> and \<open>expand\<close> call each
  other; \<open>fuel\<close> bounds the depth of that recursion (\<open>add_fuel\<close> is enough, see below).
\<close>

definition insert_entry ::
  "('k \<Rightarrow> u32) \<Rightarrow> ('k, 'v) hash_table \<Rightarrow> 'k \<Rightarrow> 'v \<Rightarrow> (nat \<times> ('k, 'v) hash_table) run" where
  "insert_entry compute t key v =
     run_assert (slots_filled t < entries_size t) ''slots_filled < entries.size''
       (let mask = index_mask t; h = valid_hash compute key
        in rbind (probe_loop (\<lambda>e. entry_hash e = EMPTY_HASH \<or> entry_hash e = TOMBSTONE_HASH)
                    (entries t) mask (unat (h AND mask)) 1) (\<lambda>index.
           let filled = (if entry_hash (entries t ! index) = TOMBSTONE_HASH
                         then slots_filled t - 1 else slots_filled t)
           in Some (Inr (index,
                t\<lparr> ht_count := ht_count t + 1, slots_filled := filled + 1,
                   entries := (entries t)[index :=
                     (entries t ! index)\<lparr> entry_hash := h, entry_key := key, entry_value := v \<rparr>] \<rparr>))))"

fun ht_add ::
  "nat \<Rightarrow> ('k \<Rightarrow> u32) \<Rightarrow> ('k, 'v) entry \<Rightarrow> ('k, 'v) hash_table \<Rightarrow> 'k \<Rightarrow> 'v \<Rightarrow>
   (nat \<times> ('k, 'v) hash_table) run" where
  "ht_add 0 compute blank t key v = None"
| "ht_add (Suc fuel) compute blank t key v =
     rbind (if entries_size t * LOAD_FACTOR_PERCENT \<le> (slots_filled t + 1) * 100
            then expand (ht_add fuel compute blank) blank t else Some (Inr t))
       (\<lambda>t. insert_entry compute t key v)"

definition add_fuel :: nat where "add_fuel = 2"

definition ht_set ::
  "nat \<Rightarrow> ('k \<Rightarrow> u32) \<Rightarrow> ('k, 'v) entry \<Rightarrow> ('k, 'v) hash_table \<Rightarrow> 'k \<Rightarrow> 'v \<Rightarrow>
   (nat \<times> ('k, 'v) hash_table) run" where
  "ht_set fuel compute blank t key v =
     rbind (find_entry compute t key) (\<lambda>existing.
       case existing of
         Some index \<Rightarrow> Some (Inr (index, t\<lparr> entries := (entries t)[index :=
           (entries t ! index)\<lparr> entry_value := v \<rparr>] \<rparr>))
       | None \<Rightarrow> ht_add fuel compute blank t key v)"

text \<open>\<open>Remove_Result\<close> is \<open>None\<close> where \<open>success\<close> is false.\<close>

definition ht_remove ::
  "('k \<Rightarrow> u32) \<Rightarrow> ('k, 'v) hash_table \<Rightarrow> 'k \<Rightarrow> ('v option \<times> ('k, 'v) hash_table) run" where
  "ht_remove compute t key =
     (if entries_size t = 0 then Some (Inr (None, t))
      else rbind (find_entry compute t key) (\<lambda>entry.
        case entry of
          None \<Rightarrow> Some (Inr (None, t))
        | Some index \<Rightarrow>
            Some (Inr (Some (entry_value (entries t ! index)),
              t\<lparr> entries := (entries t)[index := (entries t ! index)\<lparr> entry_hash := TOMBSTONE_HASH \<rparr>],
                 ht_count := ht_count t - 1 \<rparr>))))"

definition ht_contains :: "('k \<Rightarrow> u32) \<Rightarrow> ('k, 'v) hash_table \<Rightarrow> 'k \<Rightarrow> bool run" where
  "ht_contains compute t key =
     rbind (ht_find compute t key) (\<lambda>r. Some (Inr (r \<noteq> None)))"

definition ht_reset :: "('k, 'v) hash_table \<Rightarrow> ('k, 'v) hash_table" where
  "ht_reset t = t\<lparr> ht_count := 0, slots_filled := 0,
     entries := map (\<lambda>e. e\<lparr> entry_hash := 0 \<rparr>) (entries t) \<rparr>"

definition ensure_has_space_for ::
  "nat \<Rightarrow> ('k \<Rightarrow> u32) \<Rightarrow> ('k, 'v) entry \<Rightarrow> int \<Rightarrow> ('k, 'v) hash_table \<Rightarrow> ('k, 'v) hash_table run" where
  "ensure_has_space_for fuel compute blank item_count t =
     (if (slots_filled t + item_count) * 100 < entries_size t * LOAD_FACTOR_PERCENT
      then Some (Inr t)
      else rbind (Some (next_power_of_two (((ht_count t + item_count) * 100) div LOAD_FACTOR_PERCENT)))
             (\<lambda>new_slot_count. expand_to (ht_add fuel compute blank) blank new_slot_count t))"

section \<open>Triangular probing visits every slot\<close>

definition probe_at :: "nat \<Rightarrow> nat \<Rightarrow> nat \<Rightarrow> nat" where
  "probe_at m h j = (h + j * (j + 1) div 2) mod 2 ^ m"

lemma probe_at_less [simp]: "probe_at m h j < 2 ^ m"
  by (simp add: probe_at_def)

lemma triangular_Suc: "Suc j * (Suc j + 1) div 2 = j * (j + 1) div 2 + Suc j"
proof -
  have "Suc j * (Suc j + 1) = j * (j + 1) + 2 * Suc j" by (simp add: algebra_simps)
  then show ?thesis by simp
qed

lemma probe_at_Suc: "probe_at m h (Suc j) = (probe_at m h j + Suc j) mod 2 ^ m"
  unfolding probe_at_def triangular_Suc by (simp only: mod_add_left_eq add.assoc)

lemma probe_at_0 [simp]: "probe_at m h 0 = h mod 2 ^ m"
  by (simp add: probe_at_def)

text \<open>
  Two triangular numbers below \<open>2 ^ m\<close> steps differ modulo \<open>2 ^ m\<close>: twice their difference is
  \<open>(j - i) (j + i + 1)\<close>, one factor is odd, so \<open>2 ^ (m + 1)\<close> would have to divide the other, and
  both are smaller.
\<close>

lemma triangular_inj:
  assumes ij: "i < j" "j < 2 ^ m" and eq: "probe_at m h i = probe_at m h j"
  shows False
proof -
  let ?T = "\<lambda>j::nat. j * (j + 1) div 2"
  have two: "2 * ?T k = k * (k + 1)" for k by simp
  have le: "?T i \<le> ?T j" using ij by (intro div_le_mono mult_le_mono) auto
  have "2 ^ m dvd (h + ?T j) - (h + ?T i)"
    using eq le unfolding probe_at_def by (intro mod_eq_dvd_iff_nat[THEN iffD1]) auto
  then have "2 ^ m dvd ?T j - ?T i" by simp
  then have "2 * 2 ^ m dvd 2 * (?T j - ?T i)" by (rule mult_dvd_mono [OF dvd_refl])
  moreover have "2 * (?T j - ?T i) = j * (j + 1) - i * (i + 1)"
    by (metis diff_mult_distrib2 two)
  moreover have "j * (j + 1) - i * (i + 1) = (j - i) * (j + i + 1)"
  proof -
    obtain d where "j = i + d" using ij(1) less_imp_add_positive by blast
    then show ?thesis by (simp add: algebra_simps)
  qed
  ultimately have d: "2 ^ Suc m dvd (j - i) * (j + i + 1)" by (simp only: power_Suc)
  have bounds: "0 < j - i" "j - i < 2 ^ Suc m" "0 < j + i + 1" "j + i + 1 < 2 ^ Suc m"
    using ij by auto
  show False
  proof (cases "even (j - i)")
    case True
    then have "odd (j + i + 1)" using ij(1) by presburger
    then have "coprime (2 ^ Suc m) (j + i + 1)" by simp
    then have "2 ^ Suc m dvd j - i" using d by (simp only: coprime_dvd_mult_left_iff)
    then show False using bounds(1,2) by (auto dest: dvd_imp_le)
  next
    case False
    then have "coprime (2 ^ Suc m) (j - i)" by simp
    then have "2 ^ Suc m dvd j + i + 1" using d by (simp only: coprime_dvd_mult_right_iff)
    then show False using bounds(3,4) by (auto dest: dvd_imp_le)
  qed
qed

lemma probe_at_visits: "i < 2 ^ m \<Longrightarrow> \<exists>j < 2 ^ m. probe_at m h j = i"
proof -
  assume i: "i < 2 ^ m"
  have "inj_on (probe_at m h) {..<2 ^ m}"
  proof (rule inj_onI)
    fix a b assume "a \<in> {..<2 ^ m}" "b \<in> {..<2 ^ m}" "probe_at m h a = probe_at m h b"
    then show "a = b" using triangular_inj [of a b m h] triangular_inj [of b a m h]
      by (metis lessThan_iff linorder_neqE_nat)
  qed
  moreover have "probe_at m h ` {..<2 ^ m} \<subseteq> {..<2 ^ m}" by auto
  ultimately have "probe_at m h ` {..<2 ^ m} = {..<2 ^ m}"
    by (simp add: card_image card_subset_eq)
  then show ?thesis using i by (metis imageE lessThan_iff)
qed

text \<open>
  The loop follows \<open>probe_at\<close>; it stops at the first slot on that path that satisfies \<open>stop\<close>.
\<close>

lemma and_index_mask:
  assumes "m \<le> 32"
  shows "x AND unat (word_of_int (2 ^ m - 1) :: u32) = x mod 2 ^ m"
proof -
  have "uint (word_of_int (2 ^ m - 1) :: u32) = 2 ^ m - 1"
  proof -
    have "(2::int) ^ m \<le> 2 ^ 32" using assms by (intro power_increasing) auto
    then show ?thesis by (subst uint_word_of_int_eq) (simp add: take_bit_int_eq_self)
  qed
  then have "unat (word_of_int (2 ^ m - 1) :: u32) = nat (2 ^ m - 1)"
    by (metis nat_uint_eq)
  also have "\<dots> = mask m" by (simp add: mask_eq_exp_minus_1 nat_diff_distrib nat_power_eq)
  finally show ?thesis by (simp add: take_bit_eq_mod flip: take_bit_eq_mask)
qed

lemma probe_loop_stops:
  assumes len: "List.length es = 2 ^ m" and m: "m \<le> 31"
    and stop: "stop (es ! probe_at m h n)" and first: "\<forall>j < n. \<not> stop (es ! probe_at m h j)"
    and n: "n < 2 ^ m"
  shows "i \<le> n \<Longrightarrow>
    probe_loop stop es (word_of_int (2 ^ m - 1)) (probe_at m h i) (of_nat (Suc i))
    = Some (Inr (probe_at m h n))"
proof (induction "n - i" arbitrary: i)
  case 0
  then have "i = n" by simp
  then show ?case using stop len by (subst probe_loop.simps) simp
next
  case (Suc d)
  then have i: "i < n" by simp
  have small: "Suc i < 2 ^ 32"
  proof -
    have "(2::nat) ^ m \<le> 2 ^ 31" using m by (intro power_increasing) auto
    then show ?thesis using i n by simp
  qed
  have inc: "unat (of_nat (Suc i) :: u32) = Suc i"
    using small by (simp add: unat_of_nat take_bit_nat_eq_self del: of_nat_Suc)
  have "(probe_at m h i + unat (of_nat (Suc i) :: u32)) AND unat (word_of_int (2 ^ m - 1) :: u32)
      = probe_at m h (Suc i)"
    unfolding inc using m and_index_mask [of m "probe_at m h i + Suc i"]
    by (simp only: probe_at_Suc)
  moreover have "of_nat (Suc i) + 1 = (of_nat (Suc (Suc i)) :: u32)" by simp
  ultimately show ?case
    using Suc.hyps(1) [of "Suc i"] Suc.hyps(2) i first len
    by (subst probe_loop.simps) (simp del: of_nat_Suc)
qed

section \<open>The table invariant\<close>

definition filled :: "('k, 'v) entry \<Rightarrow> bool" where
  "filled e \<longleftrightarrow> entry_hash e \<noteq> EMPTY_HASH"

definition valid :: "('k, 'v) entry \<Rightarrow> bool" where
  "valid e \<longleftrightarrow> FIRST_VALID_HASH \<le> entry_hash e"

lemmas hash_consts = EMPTY_HASH_def TOMBSTONE_HASH_def FIRST_VALID_HASH_def

lemma hash_cases: "entry_hash e = EMPTY_HASH \<or> entry_hash e = TOMBSTONE_HASH \<or> valid e"
proof (cases "unat (entry_hash e) < 2")
  case True
  then have "unat (entry_hash e) = 0 \<or> unat (entry_hash e) = 1" by auto
  then have "entry_hash e = 0 \<or> entry_hash e = 1"
    by (metis unsigned_0 unsigned_1 unsigned_word_eqI)
  then show ?thesis by (auto simp: hash_consts)
qed (simp add: valid_def hash_consts word_le_nat_alt)

lemma valid_filled: "valid e \<Longrightarrow> filled e"
  by (auto simp: valid_def filled_def hash_consts)

lemma valid_not_tombstone: "valid e \<Longrightarrow> entry_hash e \<noteq> TOMBSTONE_HASH"
  by (auto simp: valid_def hash_consts word_le_nat_alt)

lemma valid_hash_ge: "FIRST_VALID_HASH \<le> valid_hash compute k"
proof (cases "compute k < FIRST_VALID_HASH")
  case True
  then have "unat (compute k) < 2" by (simp add: word_less_nat_alt hash_consts)
  then have "unat (compute k + 2) = unat (compute k) + 2" by (subst unat_add_no_wrap) simp_all
  then show ?thesis using True
    by (simp add: valid_hash_def Let_def hash_consts word_le_nat_alt)
qed (simp add: valid_hash_def Let_def)

text \<open>
  Slot \<open>i\<close> is on the probe path of its own key, and no empty slot comes before it there.
\<close>

definition reachable :: "('k \<Rightarrow> u32) \<Rightarrow> nat \<Rightarrow> ('k, 'v) entry list \<Rightarrow> nat \<Rightarrow> bool" where
  "reachable compute m es i \<longleftrightarrow>
     entry_hash (es ! i) = valid_hash compute (entry_key (es ! i)) \<and>
     (\<exists>n < 2 ^ m. probe_at m (unat (entry_hash (es ! i))) n = i \<and>
        (\<forall>j < n. filled (es ! probe_at m (unat (entry_hash (es ! i))) j)))"

definition slots_ok :: "('k \<Rightarrow> u32) \<Rightarrow> nat \<Rightarrow> ('k, 'v) entry list \<Rightarrow> bool" where
  "slots_ok compute m es \<longleftrightarrow> List.length es = 2 ^ m \<and>
     (\<forall>i < 2 ^ m. valid (es ! i) \<longrightarrow> reachable compute m es i) \<and>
     (\<forall>i < 2 ^ m. \<forall>i' < 2 ^ m. valid (es ! i) \<longrightarrow> valid (es ! i') \<longrightarrow>
        entry_key (es ! i) = entry_key (es ! i') \<longrightarrow> i = i')"

definition ht_inv_at :: "('k \<Rightarrow> u32) \<Rightarrow> nat \<Rightarrow> ('k, 'v) hash_table \<Rightarrow> bool" where
  "ht_inv_at compute m t \<longleftrightarrow> 5 \<le> m \<and> m \<le> 31 \<and> slots_ok compute m (entries t)
     \<and> slots_filled t = int (List.length (filter filled (entries t)))
     \<and> ht_count t = int (List.length (filter valid (entries t)))
     \<and> slots_filled t * 100 < 2 ^ m * LOAD_FACTOR_PERCENT"

definition ht_inv :: "('k \<Rightarrow> u32) \<Rightarrow> ('k, 'v) hash_table \<Rightarrow> bool" where
  "ht_inv compute t \<longleftrightarrow> (\<exists>m. ht_inv_at compute m t)"

text \<open>The abstract value: the finite map of the valid entries.\<close>

definition map_of_entries :: "('k, 'v) entry list \<Rightarrow> 'k \<rightharpoonup> 'v" where
  "map_of_entries es = map_of (map (\<lambda>e. (entry_key e, entry_value e)) (filter valid es))"

definition ht_map :: "('k, 'v) hash_table \<Rightarrow> 'k \<rightharpoonup> 'v" where
  "ht_map t = map_of_entries (entries t)"

lemma map_of_entries_None:
  "map_of_entries es k = None \<longleftrightarrow> (\<forall>i < List.length es. valid (es ! i) \<longrightarrow> entry_key (es ! i) \<noteq> k)"
  by (auto simp: map_of_entries_def map_of_eq_None_iff image_iff in_set_conv_nth)

lemma slots_ok_length [simp]: "slots_ok compute m es \<Longrightarrow> List.length es = 2 ^ m"
  by (simp add: slots_ok_def)

lemma distinct_keys:
  assumes "\<forall>i < List.length es. \<forall>i' < List.length es. valid (es ! i) \<longrightarrow> valid (es ! i') \<longrightarrow>
        entry_key (es ! i) = entry_key (es ! i') \<longrightarrow> i = i'"
  shows "distinct (map entry_key (filter valid es))"
  using assms
proof (induction es)
  case (Cons e es)
  note same = Cons.prems [rule_format]
  have "i = i'" if "i < List.length es" "i' < List.length es" "valid (es ! i)" "valid (es ! i')"
      "entry_key (es ! i) = entry_key (es ! i')" for i i'
    using same [of "Suc i" "Suc i'"] that by simp
  then have "distinct (map entry_key (filter valid es))" using Cons.IH by blast
  moreover have "entry_key e \<notin> entry_key ` set (filter valid es)" if "valid e"
  proof
    assume "entry_key e \<in> entry_key ` set (filter valid es)"
    then obtain i where "i < List.length es" "valid (es ! i)" "entry_key (es ! i) = entry_key e"
      by (auto simp: in_set_conv_nth)
    then show False using same [of 0 "Suc i"] that by simp
  qed
  ultimately show ?case by simp
qed simp

lemma map_of_entries_Some:
  assumes "slots_ok compute m es"
  shows "map_of_entries es k = Some v \<longleftrightarrow>
    (\<exists>i < 2 ^ m. valid (es ! i) \<and> entry_key (es ! i) = k \<and> entry_value (es ! i) = v)"
proof -
  have "distinct (map entry_key (filter valid es))"
    using assms unfolding slots_ok_def by (intro distinct_keys) metis
  then have "distinct (map fst (map (\<lambda>e. (entry_key e, entry_value e)) (filter valid es)))"
    by (simp add: comp_def)
  then have "map_of_entries es k = Some v \<longleftrightarrow>
      (k, v) \<in> set (map (\<lambda>e. (entry_key e, entry_value e)) (filter valid es))"
    unfolding map_of_entries_def by (rule map_of_eq_Some_iff)
  also have "\<dots> \<longleftrightarrow> (\<exists>e \<in> set es. valid e \<and> entry_key e = k \<and> entry_value e = v)"
    unfolding set_map set_filter image_iff by (simp add: Bex_def) blast
  also have "\<dots> \<longleftrightarrow> (\<exists>i < List.length es. valid (es ! i) \<and> entry_key (es ! i) = k
      \<and> entry_value (es ! i) = v)"
    by (metis in_set_conv_nth)
  finally show ?thesis unfolding slots_ok_length [OF assms] .
qed

subsection \<open>Changing one slot\<close>

lemma slots_okD:
  assumes "slots_ok compute m es" "i < 2 ^ m" "valid (es ! i)"
  shows "reachable compute m es i"
    and "i' < 2 ^ m \<Longrightarrow> valid (es ! i') \<Longrightarrow> entry_key (es ! i) = entry_key (es ! i') \<Longrightarrow> i' = i"
  using assms unfolding slots_ok_def by blast+

lemma reachable_update:
  assumes len: "List.length es = 2 ^ m" and r: "reachable compute m es i'"
    and ne: "i' \<noteq> i" and keep: "filled (es ! i) \<Longrightarrow> filled e"
  shows "reachable compute m (es[i := e]) i'"
proof -
  have f: "filled (es[i := e] ! j)" if "filled (es ! j)" for j
    using that keep by (cases "j = i"; cases "i < List.length es") (auto simp: list_update_beyond)
  have same: "es[i := e] ! i' = es ! i'" using ne by simp
  show ?thesis using r f unfolding reachable_def same by blast
qed

lemma slots_ok_update:
  assumes ok: "slots_ok compute m es" and i: "i < 2 ^ m"
    and keep: "filled (es ! i) \<Longrightarrow> filled e"
    and path: "valid e \<Longrightarrow> reachable compute m (es[i := e]) i"
    and fresh: "\<And>i'. valid e \<Longrightarrow> i' < 2 ^ m \<Longrightarrow> i' \<noteq> i \<Longrightarrow> valid (es ! i') \<Longrightarrow> entry_key (es ! i') \<noteq> entry_key e"
  shows "slots_ok compute m (es[i := e])"
proof -
  note len = slots_ok_length [OF ok]
  have at: "es[i := e] ! j = (if j = i then e else es ! j)" if "j < 2 ^ m" for j
    using that len i by simp
  have "reachable compute m (es[i := e]) j" if "j < 2 ^ m" "valid (es[i := e] ! j)" for j
    using that at [OF that(1)] path slots_okD(1) [OF ok that(1)]
      reachable_update [where i = i, OF len _ _ keep]
    by (cases "j = i") auto
  moreover have "j = j'" if "j < 2 ^ m" "j' < 2 ^ m" "valid (es[i := e] ! j)" "valid (es[i := e] ! j')"
      "entry_key (es[i := e] ! j) = entry_key (es[i := e] ! j')" for j j'
    using that at [OF that(1)] at [OF that(2)] fresh [of j] fresh [of j']
      slots_okD(2) [OF ok that(1), of j']
    by (cases "j = i"; cases "j' = i") auto
  ultimately show ?thesis unfolding slots_ok_def using len by (simp only: length_list_update) blast
qed

lemma map_update_valid:
  assumes ok: "slots_ok compute m es" and ok': "slots_ok compute m (es[i := e])"
    and i: "i < 2 ^ m" and e: "valid e" "entry_key e = k" "entry_value e = v"
    and old: "valid (es ! i) \<Longrightarrow> entry_key (es ! i) = k"
  shows "map_of_entries (es[i := e]) = (map_of_entries es)(k \<mapsto> v)"
proof
  fix k'
  note len = slots_ok_length [OF ok]
  show "map_of_entries (es[i := e]) k' = ((map_of_entries es)(k \<mapsto> v)) k'"
  proof (cases "k' = k")
    case True
    have "map_of_entries (es[i := e]) k = Some v"
      unfolding map_of_entries_Some [OF ok'] using i e len by (auto intro!: exI [of _ i])
    then show ?thesis using True by simp
  next
    case False
    have "map_of_entries (es[i := e]) k' = Some w \<longleftrightarrow> map_of_entries es k' = Some w" for w
    proof -
      have "(valid (es[i := e] ! j) \<and> entry_key (es[i := e] ! j) = k' \<and> entry_value (es[i := e] ! j) = w)
          = (valid (es ! j) \<and> entry_key (es ! j) = k' \<and> entry_value (es ! j) = w)" if "j < 2 ^ m" for j
        using False e old len that i by (cases "j = i") auto
      then show ?thesis
        unfolding map_of_entries_Some [OF ok'] map_of_entries_Some [OF ok] by blast
    qed
    then show ?thesis using False
      by (metis fun_upd_other not_None_eq)
  qed
qed

lemma map_update_invalid:
  assumes ok: "slots_ok compute m es" and ok': "slots_ok compute m (es[i := e])"
    and i: "i < 2 ^ m" and e: "\<not> valid e" and old: "valid (es ! i)" "entry_key (es ! i) = k"
  shows "map_of_entries (es[i := e]) = (map_of_entries es)(k := None)"
proof
  fix k'
  note len = slots_ok_length [OF ok]
  have "map_of_entries (es[i := e]) k' = Some w \<longleftrightarrow> k' \<noteq> k \<and> map_of_entries es k' = Some w" for w
  proof -
    have "(valid (es[i := e] ! j) \<and> entry_key (es[i := e] ! j) = k' \<and> entry_value (es[i := e] ! j) = w)
        = (k' \<noteq> k \<and> valid (es ! j) \<and> entry_key (es ! j) = k' \<and> entry_value (es ! j) = w)"
      if "j < 2 ^ m" for j
      using e old len that i slots_okD(2) [OF ok i old(1) that] by (cases "j = i") auto
    then show ?thesis
      unfolding map_of_entries_Some [OF ok'] map_of_entries_Some [OF ok] by blast
  qed
  then show "map_of_entries (es[i := e]) k' = ((map_of_entries es)(k := None)) k'"
    by (metis fun_upd_apply not_None_eq)
qed

subsection \<open>Finding a slot\<close>

lemma start_index:
  assumes "m \<le> 32" "List.length (entries t) = 2 ^ m"
  shows "unat (h AND index_mask t) = probe_at m (unat h) 0"
    and "index_mask t = word_of_int (2 ^ m - 1)"
proof -
  show im: "index_mask t = word_of_int (2 ^ m - 1)"
    using assms(2) by (simp add: index_mask_def entries_size_def)
  show "unat (h AND index_mask t) = probe_at m (unat h) 0"
    unfolding im unsigned_and_eq using and_index_mask [OF assms(1)] by simp
qed

lemma has_empty_slot:
  assumes inv: "ht_inv_at compute m t"
  shows "\<exists>i < 2 ^ m. \<not> filled (entries t ! i)"
proof -
  have "int (List.length (filter filled (entries t))) * 100 < 2 ^ m * 70"
    using inv by (simp add: ht_inv_at_def LOAD_FACTOR_PERCENT_def)
  also have "\<dots> \<le> 2 ^ m * 100" by simp
  finally have "int (List.length (filter filled (entries t))) < 2 ^ m" by simp
  moreover have len: "List.length (entries t) = 2 ^ m"
    using inv by (auto simp: ht_inv_at_def)
  ultimately have "List.length (filter filled (entries t)) < List.length (entries t)" by simp
  then show ?thesis using filter_length_less_ex len by metis
qed

text \<open>Any probe whose stop condition holds on empty slots returns the first stopping slot.\<close>

lemma probe_returns:
  assumes inv: "ht_inv_at compute m t" and empty: "\<And>e. \<not> filled e \<Longrightarrow> stop e"
  shows "\<exists>n < 2 ^ m. probe_loop stop (entries t) (index_mask t) (unat (h AND index_mask t)) 1
      = Some (Inr (probe_at m (unat h) n)) \<and> stop (entries t ! probe_at m (unat h) n)
      \<and> (\<forall>j < n. \<not> stop (entries t ! probe_at m (unat h) j))"
proof -
  have len: "List.length (entries t) = 2 ^ m" and m: "m \<le> 31"
    using inv by (auto simp: ht_inv_at_def)
  let ?S = "\<lambda>n. stop (entries t ! probe_at m (unat h) n)"
  obtain i where "i < 2 ^ m" "\<not> filled (entries t ! i)" using has_empty_slot [OF inv] by blast
  then obtain j where j: "j < 2 ^ m" "?S j" using probe_at_visits [of i m "unat h"] empty by metis
  define n where "n = (LEAST n. ?S n)"
  have n: "?S n" "n \<le> j" unfolding n_def using j(2) by (auto intro: LeastI Least_le)
  have first: "\<forall>j < n. \<not> ?S j" unfolding n_def using not_less_Least by blast
  have "n < 2 ^ m" using n(2) j(1) by simp
  moreover have "probe_loop stop (entries t) (index_mask t) (unat (h AND index_mask t)) 1
      = Some (Inr (probe_at m (unat h) n))"
    using probe_loop_stops [OF len m n(1) first \<open>n < 2 ^ m\<close>, of 0] start_index(1) [OF _ len, of h]
      start_index(2) [OF _ len] m
    by simp
  ultimately show ?thesis using n(1) first by blast
qed

lemma find_entry_spec:
  assumes inv: "ht_inv_at compute m t"
  shows "(ht_map t k = None \<longrightarrow> find_entry compute t k = Some (Inr None)) \<and>
    (ht_map t k \<noteq> None \<longrightarrow> (\<exists>i < 2 ^ m. find_entry compute t k = Some (Inr (Some i))
       \<and> valid (entries t ! i) \<and> entry_key (entries t ! i) = k
       \<and> ht_map t k = Some (entry_value (entries t ! i))))"
proof -
  let ?h = "valid_hash compute k" and ?es = "entries t"
  let ?at = "probe_at m (unat ?h)"
  let ?stop = "\<lambda>e. entry_hash e = EMPTY_HASH \<or> entry_hash e = ?h \<and> entry_key e = k"
  have ok: "slots_ok compute m ?es" using inv by (simp add: ht_inv_at_def)
  obtain n where n: "n < 2 ^ m" "probe_loop ?stop ?es (index_mask t) (unat (?h AND index_mask t)) 1
      = Some (Inr (?at n))" "?stop (?es ! ?at n)" "\<forall>j < n. \<not> ?stop (?es ! ?at j)"
    using probe_returns [OF inv, of ?stop ?h] by (auto simp: filled_def)
  have result: "find_entry compute t k = Some (Inr (if entry_hash (?es ! ?at n) = EMPTY_HASH
      then None else Some (?at n)))"
    by (simp add: find_entry_def Let_def n(2))
  show ?thesis
  proof (cases "ht_map t k")
    case None
    have "entry_hash (?es ! ?at n) = EMPTY_HASH"
    proof (rule ccontr)
      assume "\<not> ?thesis"
      then have "entry_hash (?es ! ?at n) = ?h" "entry_key (?es ! ?at n) = k" using n(3) by auto
      then have "valid (?es ! ?at n)" using valid_hash_ge [of compute k] by (simp add: valid_def)
      then show False
        using None \<open>entry_key (?es ! ?at n) = k\<close> slots_ok_length [OF ok]
        unfolding ht_map_def map_of_entries_None by simp
    qed
    then show ?thesis using None result by simp
  next
    case (Some v)
    then obtain i where i: "i < 2 ^ m" "valid (?es ! i)" "entry_key (?es ! i) = k"
        "entry_value (?es ! i) = v"
      unfolding ht_map_def map_of_entries_Some [OF ok] by blast
    obtain d where d: "?at d = i" "\<forall>j < d. filled (?es ! ?at j)" "entry_hash (?es ! i) = ?h"
      using slots_okD(1) [OF ok i(1,2)] i(3) unfolding reachable_def by metis
    have "n \<le> d"
    proof (rule ccontr)
      assume "\<not> n \<le> d"
      then have "\<not> ?stop (?es ! ?at d)" using n(4) by simp
      then show False using d i by simp
    qed
    have "entry_hash (?es ! ?at n) \<noteq> EMPTY_HASH"
    proof (cases "n = d")
      case True
      then show ?thesis using valid_filled [OF i(2)] d by (simp add: filled_def)
    next
      case False
      then show ?thesis using d(2) \<open>n \<le> d\<close> by (simp add: filled_def)
    qed
    then have "entry_hash (?es ! ?at n) = ?h" "entry_key (?es ! ?at n) = k" using n(3) by auto
    then have "valid (?es ! ?at n)" using valid_hash_ge [of compute k] by (simp add: valid_def)
    then have "?at n = i"
      using slots_okD(2) [OF ok i(1,2), of "?at n"] i(3) \<open>entry_key (?es ! ?at n) = k\<close> by simp
    then show ?thesis using result Some i \<open>entry_hash (?es ! ?at n) \<noteq> EMPTY_HASH\<close> by simp
  qed
qed

subsection \<open>Inserting without growing\<close>

lemma count_update:
  "i < List.length es \<Longrightarrow> int (List.length (filter P (es[i := e])))
    = int (List.length (filter P es)) - (if P (es ! i) then 1 else 0) + (if P e then 1 else 0)"
  using length_filter_update [of i es P e] by (auto split: if_splits)

lemma insert_entry_spec:
  assumes inv: "ht_inv_at compute m t" and new: "ht_map t k = None"
    and room: "(slots_filled t + 1) * 100 < 2 ^ m * LOAD_FACTOR_PERCENT"
  shows "\<exists>i t'. insert_entry compute t k v = Some (Inr (i, t')) \<and> ht_inv_at compute m t'
    \<and> ht_map t' = (ht_map t)(k \<mapsto> v) \<and> ht_count t' = ht_count t + 1
    \<and> slots_filled t' \<le> slots_filled t + 1
    \<and> i < 2 ^ m \<and> entry_key (entries t' ! i) = k \<and> entry_value (entries t' ! i) = v"
proof -
  let ?h = "valid_hash compute k" and ?es = "entries t"
  let ?at = "probe_at m (unat ?h)"
  let ?stop = "\<lambda>e. entry_hash e = EMPTY_HASH \<or> entry_hash e = TOMBSTONE_HASH"
  have ok: "slots_ok compute m ?es" using inv by (simp add: ht_inv_at_def)
  note len = slots_ok_length [OF ok]
  obtain n where n: "n < 2 ^ m" "probe_loop ?stop ?es (index_mask t) (unat (?h AND index_mask t)) 1
      = Some (Inr (?at n))" "?stop (?es ! ?at n)" "\<forall>j < n. \<not> ?stop (?es ! ?at j)"
    using probe_returns [OF inv, of ?stop ?h] by (auto simp: filled_def)
  define e where "e = (?es ! ?at n)\<lparr> entry_hash := ?h, entry_key := k, entry_value := v \<rparr>"
  have i: "?at n < 2 ^ m" by simp
  have e: "valid e" "entry_key e = k" "entry_value e = v" "entry_hash e = ?h"
    using valid_hash_ge [of compute k] by (simp_all add: e_def valid_def)
  have before: "filled (?es ! ?at j)" if "j < n" for j using n(4) that by (auto simp: filled_def)
  have notvalid: "\<not> valid (?es ! ?at n)"
    using n(3) by (auto simp: valid_def hash_consts word_le_nat_alt)
  have absent: "entry_key (?es ! j) \<noteq> k" if "j < 2 ^ m" "valid (?es ! j)" for j
    using new that len unfolding ht_map_def map_of_entries_None by auto
  have ok': "slots_ok compute m (?es[?at n := e])"
  proof (rule slots_ok_update [OF ok i])
    show "filled e" by (rule valid_filled [OF e(1)])
    have "filled (?es[?at n := e] ! ?at j)" if "j < n" for j
      using before [OF that] valid_filled [OF e(1)] len i by (cases "?at j = ?at n") auto
    then show "reachable compute m (?es[?at n := e]) (?at n)"
      unfolding reachable_def using e len i n(1) by (auto intro!: exI [of _ n])
    show "entry_key (?es ! j) \<noteq> entry_key e" if "j < 2 ^ m" "valid (?es ! j)" for j
      using absent [OF that] e by simp
  qed
  define t' where "t' = t\<lparr> ht_count := ht_count t + 1,
      slots_filled := (if entry_hash (?es ! ?at n) = TOMBSTONE_HASH then slots_filled t - 1
        else slots_filled t) + 1, entries := ?es[?at n := e] \<rparr>"
  have run: "insert_entry compute t k v = Some (Inr (?at n, t'))"
  proof -
    have "slots_filled t * 100 < 2 ^ m * 70" "(0::int) \<le> 2 ^ m"
      using inv by (auto simp: ht_inv_at_def LOAD_FACTOR_PERCENT_def)
    then have "slots_filled t < 2 ^ m" by linarith
    then have "slots_filled t < entries_size t" using len by (simp add: entries_size_def)
    then show ?thesis by (simp add: insert_entry_def Let_def n(2) t'_def e_def)
  qed
  have "filled (?es ! ?at n) \<longleftrightarrow> entry_hash (?es ! ?at n) = TOMBSTONE_HASH"
    using n(3) by (auto simp: filled_def hash_consts)
  then have "slots_filled t' = int (List.length (filter filled (entries t')))"
    using inv len i valid_filled [OF e(1)]
    by (simp add: t'_def count_update ht_inv_at_def)
  moreover have "ht_count t' = int (List.length (filter valid (entries t')))"
    using inv len i e(1) notvalid by (simp add: t'_def count_update ht_inv_at_def)
  moreover have "slots_filled t' \<le> slots_filled t + 1" by (simp add: t'_def)
  ultimately have "ht_inv_at compute m t'"
    using inv ok' room unfolding ht_inv_at_def by (simp add: t'_def split: if_splits)
  moreover have "ht_map t' = (ht_map t)(k \<mapsto> v)"
    unfolding ht_map_def using map_update_valid [OF ok ok' i e(1-3)] notvalid by (simp add: t'_def)
  ultimately show ?thesis
    using run \<open>slots_filled t' \<le> slots_filled t + 1\<close> e len i by (auto simp: t'_def)
qed

subsection \<open>Growing\<close>

lemma count_le_filled: "ht_inv_at compute m t \<Longrightarrow> ht_count t \<le> slots_filled t"
proof -
  have "List.length (filter valid es) \<le> List.length (filter filled es)"
    for es :: "('a, 'b) entry list"
    by (induction es) (auto dest: valid_filled)
  then show "ht_inv_at compute m t \<Longrightarrow> ?thesis" by (simp add: ht_inv_at_def)
qed

lemma inv_size: "ht_inv_at compute m t \<Longrightarrow> entries_size t = 2 ^ m"
  unfolding ht_inv_at_def entries_size_def using slots_ok_length by fastforce

lemma add_without_growing:
  assumes inv: "ht_inv_at compute m t"
    and room: "(slots_filled t + 1) * 100 < 2 ^ m * LOAD_FACTOR_PERCENT"
  shows "ht_add (Suc fuel) compute blank t k v = insert_entry compute t k v"
  using inv_size [OF inv] room by simp

lemma map_of_entries_Cons:
  "map_of_entries (e # es) =
     (if valid e then (map_of_entries es)(entry_key e \<mapsto> entry_value e) else map_of_entries es)"
  by (simp add: map_of_entries_def)

lemma reinsert_spec:
  assumes "ht_inv_at compute m t" "slots_filled t = ht_count t"
    and "distinct (map entry_key (filter valid es))"
    and "\<forall>e \<in> set es. valid e \<longrightarrow> ht_map t (entry_key e) = None"
    and "(ht_count t + int (List.length (filter valid es))) * 100 < 2 ^ m * LOAD_FACTOR_PERCENT"
  shows "\<exists>t'. reinsert (ht_add (Suc fuel) compute blank) es t = Some (Inr t') \<and> ht_inv_at compute m t'
    \<and> ht_map t' = ht_map t ++ map_of_entries es
    \<and> ht_count t' = ht_count t + int (List.length (filter valid es)) \<and> slots_filled t' = ht_count t'"
  using assms
proof (induction es arbitrary: t)
  case Nil
  then show ?case by (simp add: map_of_entries_def)
next
  case (Cons e es)
  show ?case
  proof (cases "valid e")
    case False
    then show ?thesis
      using Cons.IH [OF Cons.prems(1,2)] Cons.prems(3-5)
      by (simp add: map_of_entries_Cons valid_def [symmetric])
  next
    case True
    have room: "(slots_filled t + 1) * 100 < 2 ^ m * LOAD_FACTOR_PERCENT"
      using Cons.prems(2,5) True by simp
    have new: "ht_map t (entry_key e) = None" using Cons.prems(4) True by simp
    obtain i t1 where t1: "insert_entry compute t (entry_key e) (entry_value e) = Some (Inr (i, t1))"
        "ht_inv_at compute m t1" "ht_map t1 = (ht_map t)(entry_key e \<mapsto> entry_value e)"
        "ht_count t1 = ht_count t + 1" "slots_filled t1 \<le> slots_filled t + 1"
      using insert_entry_spec [OF Cons.prems(1) new room, of "entry_value e"] by blast
    have step: "ht_add (Suc fuel) compute blank t (entry_key e) (entry_value e) = Some (Inr (i, t1))"
      using add_without_growing [OF Cons.prems(1) room] t1(1) by simp
    have eq: "slots_filled t1 = ht_count t1"
      using count_le_filled [OF t1(2)] t1(4,5) Cons.prems(2) by simp
    have "entry_key e \<notin> entry_key ` {x \<in> set es. valid x}" using Cons.prems(3) True by simp
    then have fresh: "\<forall>x \<in> set es. valid x \<longrightarrow> ht_map t1 (entry_key x) = None"
      using Cons.prems(4) t1(3) by (auto simp: image_iff)
    have dist: "distinct (map entry_key (filter valid es))" using Cons.prems(3) by (auto split: if_splits)
    have bound: "(ht_count t1 + int (List.length (filter valid es))) * 100 < 2 ^ m * LOAD_FACTOR_PERCENT"
      using Cons.prems(5) True t1(4) by (simp add: algebra_simps)
    obtain t' where t': "reinsert (ht_add (Suc fuel) compute blank) es t1 = Some (Inr t')"
        "ht_inv_at compute m t'" "ht_map t' = ht_map t1 ++ map_of_entries es"
        "ht_count t' = ht_count t1 + int (List.length (filter valid es))" "slots_filled t' = ht_count t'"
      using Cons.IH [OF t1(2) eq dist fresh bound] by blast
    have "map_of_entries es (entry_key e) = None"
    proof -
      have "entry_key e \<notin> fst ` set (map (\<lambda>e. (entry_key e, entry_value e)) (filter valid es))"
        using Cons.prems(3) True by (simp add: image_image)
      then show ?thesis unfolding map_of_entries_def map_of_eq_None_iff by simp
    qed
    then have "ht_map t1 ++ map_of_entries es = ht_map t ++ map_of_entries (e # es)"
      using True t1(3) by (auto simp: map_of_entries_Cons map_add_def fun_eq_iff split: option.split)
    then show ?thesis
      using t' t1(4) True step by (simp add: valid_def [symmetric] del: ht_add.simps)
  qed
qed

lemma next_power_of_two_exact: "next_power_of_two (2 ^ m) = Inr (2 ^ m)"
proof -
  obtain k where k: "next_power_of_two (2 ^ m) = Inr (2 ^ k)" "(2::int) ^ m \<le> 2 ^ k"
      "(2::int) ^ k < 2 * 2 ^ m"
    using next_power_of_two_spec [of "2 ^ m"] by (metis zero_less_numeral zero_less_power)
  have "m \<le> k" using k(2) by (metis numeral_le_one_iff power_increasing_iff one_less_numeral_iff semiring_norm(69,76))
  moreover have "k < Suc m"
    using k(3) by (intro power_less_imp_less_exp [of "2::int"]) simp_all
  ultimately show ?thesis using k(1) by simp
qed

definition blank_ok :: "('k, 'v) entry \<Rightarrow> bool" where
  "blank_ok blank \<longleftrightarrow> entry_hash blank = 0"

lemma blank_table:
  assumes "blank_ok blank" "5 \<le> m" "m \<le> 31"
  shows "ht_inv_at compute m \<lparr> ht_count = 0, slots_filled = 0, entries = replicate (2 ^ m) blank \<rparr>"
    and "ht_map \<lparr> ht_count = 0, slots_filled = 0, entries = replicate (2 ^ m) blank \<rparr> = Map.empty"
proof -
  have b: "\<not> filled blank" "\<not> valid blank"
    using assms(1) by (auto simp: blank_ok_def filled_def valid_def hash_consts)
  then show "ht_inv_at compute m
      \<lparr> ht_count = 0, slots_filled = 0, entries = replicate (2 ^ m) blank \<rparr>"
    using assms by (simp add: ht_inv_at_def slots_ok_def LOAD_FACTOR_PERCENT_def)
  show "ht_map \<lparr> ht_count = 0, slots_filled = 0, entries = replicate (2 ^ m) blank \<rparr> = Map.empty"
    using b by (simp add: ht_map_def map_of_entries_def)
qed

lemma expand_to_spec:
  assumes inv: "ht_inv_at compute m0 t" and blank: "blank_ok blank"
    and m: "(if 2 ^ j < MIN_SIZE then MIN_SIZE else 2 ^ j) = 2 ^ m" "5 \<le> m" "m \<le> 31"
    and load: "ht_count t * 100 < 2 ^ m * LOAD_FACTOR_PERCENT"
  shows "\<exists>t'. expand_to (ht_add (Suc fuel) compute blank) blank (2 ^ j) t = Some (Inr t')
    \<and> ht_inv_at compute m t' \<and> ht_map t' = ht_map t \<and> ht_count t' = ht_count t
    \<and> slots_filled t' = ht_count t'"
proof -
  let ?t = "\<lparr> ht_count = 0, slots_filled = 0, entries = replicate (2 ^ m) blank \<rparr>"
  have "(32::int) \<le> 2 ^ m" using power_increasing [OF m(2), of "2::int"] by simp
  then have resize: "resize_entries blank (if 2 ^ j < MIN_SIZE then MIN_SIZE else 2 ^ j) t
      = Inr (entries t, t\<lparr> entries := replicate (2 ^ m) blank \<rparr>)"
    unfolding m(1) resize_entries_def
    by (simp add: Let_def MIN_SIZE_def next_power_of_two_exact nat_power_eq)
  have fresh: "t\<lparr> entries := replicate (2 ^ m) blank, ht_count := 0, slots_filled := 0 \<rparr> = ?t" by simp
  have ok: "slots_ok compute m0 (entries t)" using inv by (simp add: ht_inv_at_def)
  have dist: "distinct (map entry_key (filter valid (entries t)))"
    using ok unfolding slots_ok_def by (intro distinct_keys) metis
  have cnt: "ht_count t = int (List.length (filter valid (entries t)))"
    using inv by (simp add: ht_inv_at_def)
  obtain t' where "reinsert (ht_add (Suc fuel) compute blank) (entries t) ?t = Some (Inr t')"
      "ht_inv_at compute m t'" "ht_map t' = ht_map ?t ++ map_of_entries (entries t)"
      "ht_count t' = ht_count t" "slots_filled t' = ht_count t'"
    using reinsert_spec [OF blank_table(1) [OF blank m(2,3), where compute = compute] _ dist,
        where fuel = fuel and blank = blank]
      blank_table(2) [OF blank m(2,3)] cnt load by auto
  moreover have "is_power_of_two (2 ^ j)" by (auto simp: is_power_of_two_iff)
  moreover from this have "expand_to (ht_add (Suc fuel) compute blank) blank (2 ^ j) t
      = reinsert (ht_add (Suc fuel) compute blank) (entries t) ?t"
    unfolding expand_to_def Let_def resize by (simp only: run_assert_simps rbind.simps prod.case fresh)
  ultimately show ?thesis
    using blank_table(2) [OF blank m(2,3)] by (simp add: ht_map_def [of t] del: ht_add.simps)
qed

subsection \<open>The operations on the map\<close>

text \<open>
  \<open>add\<close> on a key that is not in the table. The recursion \<open>add\<close>, \<open>expand\<close>, \<open>add\<close> is at most two
  deep: the grown table has room for all entries and the new one, so \<open>add_fuel\<close> is enough.
  The bound on the count keeps the slot count within the 32-bit mask.
\<close>

definition ht_limit :: int where "ht_limit = 2 ^ 29"

lemma ht_add_spec:
  assumes inv: "ht_inv compute t" and blank: "blank_ok blank"
    and new: "ht_map t k = None" and limit: "ht_count t < ht_limit"
  shows "\<exists>i t'. ht_add add_fuel compute blank t k v = Some (Inr (i, t')) \<and> ht_inv compute t'
    \<and> ht_map t' = (ht_map t)(k \<mapsto> v) \<and> ht_count t' = ht_count t + 1
    \<and> entry_value (entries t' ! i) = v"
proof -
  obtain m where m: "ht_inv_at compute m t" using inv by (auto simp: ht_inv_def)
  have bounds: "5 \<le> m" "m \<le> 31" "0 \<le> ht_count t" using m by (auto simp: ht_inv_at_def)
  have size: "entries_size t = 2 ^ m" by (rule inv_size [OF m])
  have big: "(32::int) \<le> 2 ^ m" using power_increasing [OF bounds(1), of "2::int"] by simp
  show ?thesis
  proof (cases "(slots_filled t + 1) * 100 < 2 ^ m * LOAD_FACTOR_PERCENT")
    case True
    then show ?thesis
      using insert_entry_spec [OF m new True, of v] add_without_growing [OF m True, of 1 blank k v]
      unfolding add_fuel_def numeral_2_eq_2 by (auto simp: ht_inv_def)
  next
    case False
    have c: "ht_count t * 100 < 2 ^ m * 70"
      using m count_le_filled [OF m] by (simp add: ht_inv_at_def LOAD_FACTOR_PERCENT_def)
    obtain m' where m': "(if (ht_count t * 2 + 1) * 100 < 2 ^ m * 70 then (2::int) ^ m else 2 ^ m * 2)
          = 2 ^ m'" "5 \<le> m'" "m' \<le> 31" "(ht_count t + 1) * 100 < 2 ^ m' * 70"
    proof (cases "(ht_count t * 2 + 1) * 100 < 2 ^ m * 70")
      case True
      then show ?thesis using that [of m] bounds by simp
    next
      case grow: False
      have "m \<le> 30"
      proof (rule ccontr)
        assume "\<not> m \<le> 30"
        then have "m = 31" using bounds(2) by simp
        then show False using grow limit by (simp add: ht_limit_def)
      qed
      then show ?thesis using that [of "Suc m"] grow bounds(1) c big by simp
    qed
    have "(if 2 ^ m' < MIN_SIZE then MIN_SIZE else 2 ^ m') = 2 ^ m'"
      using power_increasing [OF m'(2), of "2::int"] by (simp add: MIN_SIZE_def)
    moreover have "ht_count t * 100 < 2 ^ m' * LOAD_FACTOR_PERCENT"
      using m'(4) by (simp add: LOAD_FACTOR_PERCENT_def)
    ultimately obtain t1 where t1: "expand_to (ht_add (Suc 0) compute blank) blank (2 ^ m') t = Some (Inr t1)"
        "ht_inv_at compute m' t1" "ht_map t1 = ht_map t" "ht_count t1 = ht_count t"
        "slots_filled t1 = ht_count t1"
      using expand_to_spec [OF m blank, of m' m' 0] m'(2,3) by blast
    have "expand (ht_add (Suc 0) compute blank) blank t = Some (Inr t1)"
      unfolding expand_def Let_def LOAD_FACTOR_PERCENT_def size using t1(1) m'(1)
      by (simp only:)
    then have run: "ht_add add_fuel compute blank t k v = insert_entry compute t1 k v"
      using False size unfolding add_fuel_def numeral_2_eq_2 by (subst ht_add.simps) (simp del: ht_add.simps)
    have "(slots_filled t1 + 1) * 100 < 2 ^ m' * LOAD_FACTOR_PERCENT"
      using t1(4,5) m'(4) by (simp add: LOAD_FACTOR_PERCENT_def)
    then show ?thesis
      using insert_entry_spec [OF t1(2), of k v] new t1(3,4) run by (auto simp: ht_inv_def)
  qed
qed

lemma ht_find_spec:
  assumes "ht_inv compute t"
  shows "ht_find compute t k = Some (Inr (ht_map t k))"
proof -
  obtain m where m: "ht_inv_at compute m t" using assms by (auto simp: ht_inv_def)
  show ?thesis
    using find_entry_spec [OF m, of k] by (cases "ht_map t k") (auto simp: ht_find_def)
qed

lemma ht_set_spec:
  assumes inv: "ht_inv compute t" and blank: "blank_ok blank" and limit: "ht_count t < ht_limit"
  shows "\<exists>i t'. ht_set add_fuel compute blank t k v = Some (Inr (i, t')) \<and> ht_inv compute t'
    \<and> ht_map t' = (ht_map t)(k \<mapsto> v) \<and> entry_value (entries t' ! i) = v
    \<and> ht_count t' = (if ht_map t k = None then ht_count t + 1 else ht_count t)"
proof -
  obtain m where m: "ht_inv_at compute m t" using inv by (auto simp: ht_inv_def)
  show ?thesis
  proof (cases "ht_map t k")
    case None
    then show ?thesis
      using ht_add_spec [OF inv blank None limit, of v] find_entry_spec [OF m, of k]
      by (auto simp: ht_set_def)
  next
    case (Some w)
    then obtain i where i: "i < 2 ^ m" "find_entry compute t k = Some (Inr (Some i))"
        "valid (entries t ! i)" "entry_key (entries t ! i) = k"
      using find_entry_spec [OF m, of k] by auto
    let ?es = "entries t"
    define e where "e = (?es ! i)\<lparr> entry_value := v \<rparr>"
    have e: "valid e" "entry_key e = k" "entry_value e = v" "entry_hash e = entry_hash (?es ! i)"
      using i by (simp_all add: e_def valid_def)
    have ok: "slots_ok compute m ?es" using m by (simp add: ht_inv_at_def)
    note len = slots_ok_length [OF ok]
    have ok': "slots_ok compute m (?es[i := e])"
    proof (rule slots_ok_update [OF ok i(1)])
      show "filled e" by (rule valid_filled [OF e(1)])
      have "filled (?es[i := e] ! j) \<longleftrightarrow> filled (?es ! j)" for j
        using e(4) len i(1) by (cases "j = i") (simp_all add: filled_def)
      then show "reachable compute m (?es[i := e]) i"
        using slots_okD(1) [OF ok i(1,3)] e i len unfolding reachable_def by (metis nth_list_update_eq)
      show "entry_key (?es ! j) \<noteq> entry_key e" if "j < 2 ^ m" "j \<noteq> i" "valid (?es ! j)" for j
        using slots_okD(2) [OF ok i(1,3) that(1,3)] that(2) e i by auto
    qed
    define t' where "t' = t\<lparr> entries := ?es[i := e] \<rparr>"
    have "filled e = filled (?es ! i)" using e(4) by (simp add: filled_def)
    then have "ht_inv_at compute m t'"
      using m ok' len i e(1) unfolding ht_inv_at_def by (simp add: t'_def count_update)
    moreover have "ht_map t' = (ht_map t)(k \<mapsto> v)"
      unfolding ht_map_def using map_update_valid [OF ok ok' i(1) e(1-3)] i(4) by (simp add: t'_def)
    moreover have "ht_set add_fuel compute blank t k v = Some (Inr (i, t'))"
      by (simp add: ht_set_def i(2) t'_def e_def)
    ultimately show ?thesis using Some i(1) len e(3) by (auto simp: ht_inv_def t'_def)
  qed
qed

lemma ht_remove_spec:
  assumes inv: "ht_inv compute t"
  shows "\<exists>t'. ht_remove compute t k = Some (Inr (ht_map t k, t')) \<and> ht_inv compute t'
    \<and> ht_map t' = (ht_map t)(k := None)
    \<and> ht_count t' = (if ht_map t k = None then ht_count t else ht_count t - 1)"
proof -
  obtain m where m: "ht_inv_at compute m t" using inv by (auto simp: ht_inv_def)
  have nz: "entries_size t \<noteq> 0" using inv_size [OF m] by simp
  show ?thesis
  proof (cases "ht_map t k")
    case None
    then show ?thesis using inv nz find_entry_spec [OF m, of k] by (auto simp: ht_remove_def)
  next
    case (Some w)
    then obtain i where i: "i < 2 ^ m" "find_entry compute t k = Some (Inr (Some i))"
        "valid (entries t ! i)" "entry_key (entries t ! i) = k" "entry_value (entries t ! i) = w"
      using find_entry_spec [OF m, of k] by auto
    let ?es = "entries t"
    define e where "e = (?es ! i)\<lparr> entry_hash := TOMBSTONE_HASH \<rparr>"
    have e: "\<not> valid e" "filled e"
      by (simp_all add: e_def valid_def filled_def hash_consts word_le_nat_alt)
    have ok: "slots_ok compute m ?es" using m by (simp add: ht_inv_at_def)
    note len = slots_ok_length [OF ok]
    have ok': "slots_ok compute m (?es[i := e])"
      by (rule slots_ok_update [OF ok i(1)]) (use e in auto)
    define t' where "t' = t\<lparr> entries := ?es[i := e], ht_count := ht_count t - 1 \<rparr>"
    have "ht_inv_at compute m t'"
      using m ok' len i e valid_filled [OF i(3)] unfolding ht_inv_at_def
      by (simp add: t'_def count_update)
    moreover have "ht_map t' = (ht_map t)(k := None)"
      unfolding ht_map_def using map_update_invalid [OF ok ok' i(1) e(1) i(3,4)] by (simp add: t'_def)
    moreover have "ht_remove compute t k = Some (Inr (Some w, t'))"
      using nz by (simp add: ht_remove_def i(2,5) t'_def e_def)
    ultimately show ?thesis using Some by (auto simp: ht_inv_def t'_def)
  qed
qed

lemma ht_reset_spec:
  assumes "ht_inv compute t"
  shows "ht_inv compute (ht_reset t)" "ht_map (ht_reset t) = Map.empty" "ht_count (ht_reset t) = 0"
proof -
  obtain m where m: "ht_inv_at compute m t" using assms by (auto simp: ht_inv_def)
  have b: "\<not> filled (e\<lparr> entry_hash := 0 \<rparr>)" "\<not> valid (e\<lparr> entry_hash := 0 \<rparr>)" for e :: "('a, 'b) entry"
    by (auto simp: filled_def valid_def hash_consts)
  have f: "filter filled (entries (ht_reset t)) = []" "filter valid (entries (ht_reset t)) = []"
    using b by (auto simp: ht_reset_def filter_empty_conv)
  have len: "List.length (entries t) = 2 ^ m" using m by (auto simp: ht_inv_at_def)
  have "\<not> valid (entries (ht_reset t) ! j)" if "j < 2 ^ m" for j
    using len b that by (simp add: ht_reset_def)
  moreover have "List.length (entries (ht_reset t)) = 2 ^ m" using len by (simp add: ht_reset_def)
  ultimately have "slots_ok compute m (entries (ht_reset t))" unfolding slots_ok_def by blast
  then have "ht_inv_at compute m (ht_reset t)"
    using m f unfolding ht_inv_at_def by (simp add: ht_reset_def LOAD_FACTOR_PERCENT_def)
  then show "ht_inv compute (ht_reset t)" by (auto simp: ht_inv_def)
  show "ht_map (ht_reset t) = Map.empty" using f by (simp add: ht_map_def map_of_entries_def)
  show "ht_count (ht_reset t) = 0" by (simp add: ht_reset_def)
qed

lemma hash_table_new_spec:
  assumes blank: "blank_ok blank" and size: "initial_size \<le> 2 ^ 31"
  shows "\<exists>t. hash_table_new blank initial_size = Inr t \<and> ht_inv compute t \<and> ht_map t = Map.empty
    \<and> ht_count t = 0 \<and> initial_size \<le> entries_size t"
proof -
  let ?n = "if initial_size < MIN_SIZE then MIN_SIZE else initial_size"
  have n: "32 \<le> ?n" "?n \<le> 2 ^ 31" using size by (auto simp: MIN_SIZE_def)
  then have "0 < ?n" by linarith
  then obtain m where m: "next_power_of_two ?n = Inr (2 ^ m)" "?n \<le> 2 ^ m" "2 ^ m < 2 * ?n"
    by (rule next_power_of_two_spec)
  have "(2::int) ^ 5 \<le> 2 ^ m" using n(1) m(2) by simp
  then have m5: "5 \<le> m" by (simp only: power_increasing_iff)
  have "(2::int) ^ m < 2 ^ 32" using n(2) m(3) by simp
  then have m31: "m \<le> 31" using power_less_imp_less_exp [of "2::int" m 32] by simp
  let ?t = "\<lparr> ht_count = 0, slots_filled = 0, entries = replicate (2 ^ m) blank \<rparr>"
  have "hash_table_new blank initial_size = Inr ?t"
    using m(1) by (simp add: hash_table_new_def resize_entries_def Let_def nat_power_eq)
  moreover have "initial_size \<le> entries_size ?t" using m(2) by (simp add: entries_size_def split: if_splits)
  ultimately show ?thesis
    using blank_table(1) [OF blank m5 m31, where compute = compute] blank_table(2) [OF blank m5 m31]
    by (auto simp: ht_inv_def)
qed

lemma ensure_has_space_for_spec:
  assumes inv: "ht_inv compute t" and blank: "blank_ok blank"
    and n: "0 < n" and limit: "ht_count t + n < ht_limit"
  shows "\<exists>t'. ensure_has_space_for add_fuel compute blank n t = Some (Inr t') \<and> ht_inv compute t'
    \<and> ht_map t' = ht_map t \<and> ht_count t' = ht_count t"
proof -
  obtain m where m: "ht_inv_at compute m t" using inv by (auto simp: ht_inv_def)
  have c0: "0 \<le> ht_count t" using m by (simp add: ht_inv_at_def)
  show ?thesis
  proof (cases "(slots_filled t + n) * 100 < entries_size t * LOAD_FACTOR_PERCENT")
    case True
    then show ?thesis using inv by (simp add: ensure_has_space_for_def)
  next
    case False
    define w where "w = ((ht_count t + n) * 100) div LOAD_FACTOR_PERCENT"
    have w: "w * 70 \<le> (ht_count t + n) * 100" "(ht_count t + n) * 100 < w * 70 + 70"
      unfolding w_def LOAD_FACTOR_PERCENT_def by linarith+
    have "1 \<le> ht_count t + n" using c0 n by linarith
    then have "100 \<le> (ht_count t + n) * 100" by simp
    then have wpos: "0 < w" using w(2) by linarith
    obtain j where j: "next_power_of_two w = Inr (2 ^ j)" "w \<le> 2 ^ j" "2 ^ j < 2 * w"
      using next_power_of_two_spec [OF wpos] .
    define m' where "m' = max 5 j"
    have jp: "(2::int) ^ m' = (if 2 ^ j < MIN_SIZE then MIN_SIZE else 2 ^ j)"
    proof (cases "j < 5")
      case True
      then have "(2::int) ^ j < 2 ^ 5" by (intro power_strict_increasing) simp_all
      then show ?thesis using True by (simp add: m'_def MIN_SIZE_def)
    next
      case False
      then have "(2::int) ^ 5 \<le> 2 ^ j" by (intro power_increasing) simp_all
      then show ?thesis using False by (simp add: m'_def MIN_SIZE_def max_def)
    qed
    have "(2::int) ^ j < 2 ^ 31" using j(3) w(1) limit by (simp add: ht_limit_def)
    then have "j < 31" by (rule power_less_imp_less_exp [rotated]) simp
    then have m31: "5 \<le> m'" "m' \<le> 31" by (simp_all add: m'_def)
    have "w \<le> 2 ^ m'" using j(2) by (simp add: jp)
    then have load: "ht_count t * 100 < 2 ^ m' * LOAD_FACTOR_PERCENT"
    proof -
      have "(ht_count t + n) * 100 = ht_count t * 100 + n * 100" by (rule distrib_right)
      then show ?thesis
        using \<open>w \<le> 2 ^ m'\<close> w(2) n unfolding LOAD_FACTOR_PERCENT_def by linarith
    qed
    obtain t' where t': "expand_to (ht_add (Suc 1) compute blank) blank (2 ^ j) t = Some (Inr t')"
        "ht_inv_at compute m' t'" "ht_map t' = ht_map t" "ht_count t' = ht_count t"
      using expand_to_spec [OF m blank jp [symmetric] m31 load, where fuel = 1] by blast
    then show ?thesis
      using False j(1) unfolding ensure_has_space_for_def w_def add_fuel_def numeral_2_eq_2
      by (auto simp: ht_inv_def simp del: ht_add.simps)
  qed
qed

section \<open>The interface of a map\<close>

datatype ('k, 'v) map_op = Lookup 'k | Store 'k 'v | Delete 'k | Wipe

fun run_map_ops ::
  "('s \<Rightarrow> 'k \<Rightarrow> 'v option run) \<Rightarrow> ('s \<Rightarrow> 'k \<Rightarrow> 'v \<Rightarrow> (nat \<times> 's) run) \<Rightarrow>
   ('s \<Rightarrow> 'k \<Rightarrow> ('v option \<times> 's) run) \<Rightarrow> ('s \<Rightarrow> 's) \<Rightarrow>
   ('k, 'v) map_op list \<Rightarrow> 's \<Rightarrow> ('v option list \<times> 's) run" where
  "run_map_ops lookup store delete wipe [] s = Some (Inr ([], s))"
| "run_map_ops lookup store delete wipe (Lookup k # ops) s =
     rbind (lookup s k) (\<lambda>r.
     rbind (run_map_ops lookup store delete wipe ops s) (\<lambda>(rs, s'). Some (Inr (r # rs, s'))))"
| "run_map_ops lookup store delete wipe (Store k v # ops) s =
     rbind (store s k v) (\<lambda>(i, s'). run_map_ops lookup store delete wipe ops s')"
| "run_map_ops lookup store delete wipe (Delete k # ops) s =
     rbind (delete s k) (\<lambda>(r, s').
     rbind (run_map_ops lookup store delete wipe ops s') (\<lambda>(rs, s''). Some (Inr (r # rs, s''))))"
| "run_map_ops lookup store delete wipe (Wipe # ops) s =
     run_map_ops lookup store delete wipe ops (wipe s)"

text \<open>The same program on a plain map.\<close>

fun map_run :: "('k, 'v) map_op list \<Rightarrow> ('k \<rightharpoonup> 'v) \<Rightarrow> 'v option list \<times> ('k \<rightharpoonup> 'v)" where
  "map_run [] m = ([], m)"
| "map_run (Lookup k # ops) m = (let (rs, m') = map_run ops m in (m k # rs, m'))"
| "map_run (Store k v # ops) m = map_run ops (m(k \<mapsto> v))"
| "map_run (Delete k # ops) m = (let (rs, m') = map_run ops (m(k := None)) in (m k # rs, m'))"
| "map_run (Wipe # ops) m = map_run ops Map.empty"

locale map_store =
  fixes lookup :: "'s \<Rightarrow> 'k \<Rightarrow> 'v option run"
    and store :: "'s \<Rightarrow> 'k \<Rightarrow> 'v \<Rightarrow> (nat \<times> 's) run"
    and delete :: "'s \<Rightarrow> 'k \<Rightarrow> ('v option \<times> 's) run"
    and wipe :: "'s \<Rightarrow> 's"
    and content :: "'s \<Rightarrow> 'k \<rightharpoonup> 'v"
    and used :: "'s \<Rightarrow> int"
    and limit :: int
    and ok :: "'s \<Rightarrow> bool"
  assumes lookup_content: "ok s \<Longrightarrow> lookup s k = Some (Inr (content s k))"
    and store_content: "ok s \<Longrightarrow> used s < limit \<Longrightarrow> \<exists>i s'. store s k v = Some (Inr (i, s')) \<and> ok s'
          \<and> content s' = (content s)(k \<mapsto> v) \<and> used s' \<le> used s + 1"
    and delete_content: "ok s \<Longrightarrow> \<exists>s'. delete s k = Some (Inr (content s k, s')) \<and> ok s'
          \<and> content s' = (content s)(k := None) \<and> used s' \<le> used s"
    and wipe_content: "ok s \<Longrightarrow> ok (wipe s) \<and> content (wipe s) = Map.empty \<and> used (wipe s) \<le> used s"
begin

abbreviation run_ops where "run_ops \<equiv> run_map_ops lookup store delete wipe"

lemma run_ops_refines:
  "ok s \<Longrightarrow> used s + int (List.length ops) \<le> limit \<Longrightarrow>
   \<exists>s'. run_ops ops s = Some (Inr (fst (map_run ops (content s)), s')) \<and> ok s'
        \<and> content s' = snd (map_run ops (content s))"
proof (induction ops arbitrary: s)
  case (Cons op ops)
  note ok = Cons.prems(1) and room = Cons.prems(2)
  show ?case
  proof (cases op)
    case (Lookup k)
    then show ?thesis
      using Cons.IH [OF ok] room lookup_content [OF ok, of k] by (auto split: prod.split)
  next
    case (Store k v)
    obtain i s' where s': "store s k v = Some (Inr (i, s'))" "ok s'"
        "content s' = (content s)(k \<mapsto> v)" "used s' \<le> used s + 1"
      using store_content [OF ok, of k v] room by auto
    have "used s' + int (List.length ops) \<le> limit" using s'(4) room by simp
    then obtain s'' where "run_ops ops s' = Some (Inr (fst (map_run ops (content s')), s''))" "ok s''"
        "content s'' = snd (map_run ops (content s'))"
      using Cons.IH [OF s'(2)] by blast
    then show ?thesis unfolding Store s'(3) using s'(1) by simp
  next
    case (Delete k)
    obtain s' where s': "delete s k = Some (Inr (content s k, s'))" "ok s'"
        "content s' = (content s)(k := None)" "used s' \<le> used s"
      using delete_content [OF ok, of k] by blast
    have "used s' + int (List.length ops) \<le> limit" using s'(4) room by simp
    then obtain s'' where "run_ops ops s' = Some (Inr (fst (map_run ops (content s')), s''))" "ok s''"
        "content s'' = snd (map_run ops (content s'))"
      using Cons.IH [OF s'(2)] by blast
    then show ?thesis unfolding Delete s'(3) using s'(1) by (simp split: prod.split)
  next
    case Wipe
    then show ?thesis using Cons.IH [of "wipe s"] wipe_content [OF ok] room by auto
  qed
qed simp

end

text \<open>The instance: a hash table for one hash function, with entries of one type.\<close>

definition default_entry :: "('k :: zero, 'v :: zero) entry" where
  "default_entry = \<lparr> entry_hash = 0, entry_key = 0, entry_value = 0 \<rparr>"

lemma blank_default [simp]: "blank_ok default_entry"
  by (simp add: blank_ok_def default_entry_def)

interpretation ht: map_store "ht_find compute" "ht_set add_fuel compute default_entry"
    "ht_remove compute" ht_reset ht_map ht_count ht_limit "ht_inv compute"
  for compute :: "('k :: zero) \<Rightarrow> u32"
proof
  fix t :: "('k, 'v :: zero) hash_table" and k v
  assume inv: "ht_inv compute t"
  show "ht_find compute t k = Some (Inr (ht_map t k))" by (rule ht_find_spec [OF inv])
  show "ht_count t < ht_limit \<Longrightarrow> \<exists>i t'. ht_set add_fuel compute default_entry t k v = Some (Inr (i, t'))
      \<and> ht_inv compute t' \<and> ht_map t' = (ht_map t)(k \<mapsto> v) \<and> ht_count t' \<le> ht_count t + 1"
    using ht_set_spec [OF inv blank_default, of k v] by (auto split: if_splits)
  show "\<exists>t'. ht_remove compute t k = Some (Inr (ht_map t k, t')) \<and> ht_inv compute t'
      \<and> ht_map t' = (ht_map t)(k := None) \<and> ht_count t' \<le> ht_count t"
    using ht_remove_spec [OF inv, of k] by (auto split: if_splits)
  show "ht_inv compute (ht_reset t) \<and> ht_map (ht_reset t) = Map.empty
      \<and> ht_count (ht_reset t) \<le> ht_count t"
    using ht_reset_spec [OF inv] inv by (auto simp: ht_inv_def ht_inv_at_def)
qed

section \<open>Properties\<close>

text \<open>
  C21: Triangular probing finds what there is to find: in any table of \<open>2 ^ m\<close> slots, if some slot
  satisfies the loop's stop condition, the probing loop started at any hash returns, within the
  array bounds, with a slot that satisfies it. So a lookup or an insertion cannot loop
  forever while one slot is empty.
\<close>

theorem probing_reaches_every_slot:
  assumes "List.length es = 2 ^ m" "m \<le> 31" "i < 2 ^ m" "stop (es ! i)"
  shows "\<exists>n < 2 ^ m. probe_loop stop es (word_of_int (2 ^ m - 1)) (hash mod 2 ^ m) 1 = Some (Inr n)
    \<and> stop (es ! n)"
proof -
  let ?S = "\<lambda>n. stop (es ! probe_at m hash n)"
  obtain j where j: "j < 2 ^ m" "?S j" using probe_at_visits [OF assms(3), of hash] assms(4) by auto
  define n where "n = (LEAST n. ?S n)"
  have n: "?S n" "n \<le> j" unfolding n_def using j(2) by (auto intro: LeastI Least_le)
  have "\<forall>j < n. \<not> ?S j" unfolding n_def using not_less_Least by blast
  then have "probe_loop stop es (word_of_int (2 ^ m - 1)) (probe_at m hash 0) (of_nat (Suc 0))
      = Some (Inr (probe_at m hash n))"
    using n j(1) by (intro probe_loop_stops [OF assms(1,2)]) auto
  then show ?thesis using n(1) by (intro exI [of _ "probe_at m hash n"]) simp
qed

theorem probing_reaches_every_slot_witness:
  "\<exists>n < 4. probe_loop (\<lambda>e. entry_value e = (7::u32))
     (map (\<lambda>v. \<lparr> entry_hash = 2, entry_key = v, entry_value = v \<rparr>) [4, 5, 6, 7 :: u32])
     (word_of_int (2 ^ 2 - 1)) (5 mod 2 ^ 2) 1 = Some (Inr n)"
  using probing_reaches_every_slot [of "map (\<lambda>v. \<lparr> entry_hash = 2, entry_key = v, entry_value = v \<rparr>)
      [4, 5, 6, 7 :: u32]" 2 3 "\<lambda>e. entry_value e = (7::u32)" 5]
  by (force simp: numeral_3_eq_3)

text \<open>
  C2: The hash table refines a finite map. Whatever program of lookups, \<open>set\<close>s, \<open>remove\<close>s and
  \<open>reset\<close>s runs on a well-formed table, for every hash function (all keys colliding
  included), it returns, without a failed assertion, the values the program returns on the map
  of the table's entries, and the final table, which may have grown and dropped
  tombstones on the way, holds the final map and is well-formed again.
\<close>

theorem hash_table_refines_map:
  assumes "ht_inv compute t" "ht_count t + int (List.length ops) \<le> 2 ^ 29"
  shows "\<exists>t'. run_map_ops (ht_find compute) (ht_set add_fuel compute default_entry)
        (ht_remove compute) ht_reset ops t
      = Some (Inr (fst (map_run ops (ht_map t)), t'))
    \<and> ht_inv compute t' \<and> ht_map t' = snd (map_run ops (ht_map t))"
  using ht.run_ops_refines [OF assms(1), of ops] assms(2) by (simp add: ht_limit_def)

theorem hash_table_refines_map_witness:
  "\<exists>t t'. hash_table_new default_entry 32 = Inr t
    \<and> run_map_ops (ht_find (\<lambda>_. 5)) (ht_set add_fuel (\<lambda>_. 5) default_entry)
        (ht_remove (\<lambda>_. 5)) ht_reset
        [Store 1 (10::u64), Store 2 20, Delete (1::u64), Lookup 2, Lookup 1] t
      = Some (Inr ([Some 10, Some 20, None], t'))"
proof -
  obtain t :: "(u64, u64) hash_table" where t: "hash_table_new default_entry 32 = Inr t"
      "ht_inv (\<lambda>_. 5) t" "ht_map t = Map.empty" "ht_count t = 0"
    using hash_table_new_spec [OF blank_default, of 32 "\<lambda>_. 5"] by auto
  let ?ops = "[Store 1 (10::u64), Store 2 20, Delete (1::u64), Lookup 2, Lookup 1]"
  have "fst (map_run ?ops Map.empty) = [Some 10, Some 20, None]" by (simp add: Let_def)
  then show ?thesis using t hash_table_refines_map [OF t(2), of ?ops] by auto
qed

text \<open>
  Growing keeps the contents: \<open>ensure_has_space_for\<close> with a positive number of items always
  returns, and leaves a well-formed table with the same entries and the same count.
\<close>

theorem ensure_has_space_keeps_map:
  assumes "ht_inv compute t" "blank_ok blank" "0 < n" "ht_count t + n < 2 ^ 29"
  shows "\<exists>t'. ensure_has_space_for add_fuel compute blank n t = Some (Inr t') \<and> ht_inv compute t'
    \<and> ht_map t' = ht_map t \<and> ht_count t' = ht_count t"
  using ensure_has_space_for_spec [OF assms(1-3)] assms(4) by (simp add: ht_limit_def)

theorem ensure_has_space_keeps_map_witness:
  "\<exists>t t'. hash_table_new (default_entry :: (u64, u64) entry) 32 = Inr t
    \<and> ensure_has_space_for add_fuel compute_integral default_entry 1000 t = Some (Inr t')
    \<and> ht_map t' = Map.empty"
proof -
  obtain t :: "(u64, u64) hash_table" where t: "hash_table_new default_entry 32 = Inr t"
      "ht_inv compute_integral t" "ht_map t = Map.empty" "ht_count t = 0"
    using hash_table_new_spec [OF blank_default, of 32 compute_integral] by auto
  then show ?thesis
    using ensure_has_space_keeps_map [OF t(2) blank_default, of 1000] by auto
qed

text \<open>
  \<open>ensure_has_space_for\<close> does not always make enough space: it rounds the slot count down,
  so for 45 items a new table gets 64 slots, although the load check of the 45th \<open>add\<close> asks for
  more than that and grows the table again.
\<close>

theorem ensure_has_space_rounds_down:
  "\<exists>t t'. hash_table_new (default_entry :: (u64, u64) entry) 32 = Inr t
    \<and> ensure_has_space_for add_fuel compute_integral default_entry 45 t = Some (Inr t')
    \<and> entries_size t' = 64 \<and> entries_size t' * LOAD_FACTOR_PERCENT \<le> (44 + 1) * 100"
proof -
  let ?b = "default_entry :: (u64, u64) entry"
  let ?t = "\<lambda>n. \<lparr> ht_count = 0, slots_filled = 0, entries = replicate n ?b \<rparr>"
  have p5: "next_power_of_two 32 = Inr 32" using next_power_of_two_exact [of 5] by simp
  have p6: "next_power_of_two 64 = Inr 64" using next_power_of_two_exact [of 6] by simp
  have new: "hash_table_new ?b 32 = Inr (?t 32)"
    by (simp add: hash_table_new_def resize_entries_def MIN_SIZE_def p5)
  have inv: "ht_inv_at compute_integral 5 (?t (2 ^ 5))" by (rule blank_table) simp_all
  have "\<exists>t'. expand_to (ht_add (Suc 1) compute_integral ?b) ?b (2 ^ 6) (?t (2 ^ 5)) = Some (Inr t')
      \<and> ht_inv_at compute_integral 6 t'"
    using expand_to_spec [OF inv blank_default, where j = 6 and m = 6 and fuel = 1]
    by (force simp: MIN_SIZE_def LOAD_FACTOR_PERCENT_def)
  moreover have "Suc 1 = 2" "(2::int) ^ 6 = 64" "(2::nat) ^ 5 = 32" by simp_all
  ultimately obtain t' where
      t': "expand_to (ht_add 2 compute_integral ?b) ?b 64 (?t 32) = Some (Inr t')"
      "ht_inv_at compute_integral 6 t'"
    by metis
  have "ensure_has_space_for add_fuel compute_integral ?b 45 (?t 32) = Some (Inr t')"
    using t'(1) by (simp add: ensure_has_space_for_def entries_size_def LOAD_FACTOR_PERCENT_def
        p6 add_fuel_def del: ht_add.simps)
  then show ?thesis
    using new inv_size [OF t'(2)] by (intro exI [of _ "?t 32"] exI [of _ t'])
      (simp add: LOAD_FACTOR_PERCENT_def)
qed

end
