(* ===== verification/Dwarf_Info.thy ===== *)
theory Dwarf_Info
  imports Byte_Reader Hash_Table
begin

text \<open>
  \<^verbatim>\<open>kstd/dwarf.hh\<close>, the half that reads \<^verbatim>\<open>.debug_abbrev\<close> and \<^verbatim>\<open>.debug_info\<close>: the abbreviation
  tables, the compilation unit headers, the attribute values of every form, and the walk over
  the debugging information entries that collects the subprograms.

  The sections lie in the explicit byte memory of the readers. A \<^verbatim>\<open>string\<close> is the list of the
  bytes it shows (the parsers compare and copy contents only), a \<open>v_block\<close> the view itself. An
  enumeration is a datatype with the source's constructors and one more for the values the
  cast lets through. Arrays are lists; the hash tables are those of \<^verbatim>\<open>Hash_Table\<close>.
\<close>

unbundle bit_operations_syntax

text \<open>
  The idiom \<^verbatim>\<open>auto [value, ok] = reader.read_x(); kstd_assert(ok, message);\<close>, where no message is
  the empty one, and the same for \<^verbatim>\<open>skip\<close>.
\<close>

fun asserted :: "string \<Rightarrow> 'a read_result \<times> byte_reader \<Rightarrow> ('a \<times> byte_reader) outcome" where
  "asserted message ((v, ok), r) = kstd_assert ok message (Inr (v, r))"

definition skip_asserted :: "string \<Rightarrow> byte_reader \<Rightarrow> int \<Rightarrow> byte_reader outcome" where
  "skip_asserted message r count = (case skip r count of (ok, r) \<Rightarrow> kstd_assert ok message (Inr r))"

section \<open>Sections, tags, attributes and forms\<close>

record sections =
  debug_info_bytes :: view
  debug_abbrev_bytes :: view
  debug_line_bytes :: view
  debug_str_bytes :: view
  debug_line_str_bytes :: view
  debug_str_offsets_bytes :: view
  debug_addr_bytes :: view
  debug_str_offsets_base :: u64
  debug_addr_base :: u64

datatype tag = Tag_COMPILE_UNIT | Tag_SUBPROGRAM | Tag_other u64

definition tag_of :: "u64 \<Rightarrow> tag" where
  "tag_of v =
     (if v = 0x11 then Tag_COMPILE_UNIT else if v = 0x2e then Tag_SUBPROGRAM else Tag_other v)"

datatype attribute_type =
    Attr_NAME
  | Attr_STMT_LIST
  | Attr_LOW_PC
  | Attr_HIGH_PC
  | Attr_SPECIFICATION
  | Attr_STR_OFFSETS_BASE
  | Attr_ADDR_BASE
  | Attr_other u64

definition attribute_type_of :: "u64 \<Rightarrow> attribute_type" where
  "attribute_type_of v =
     (if v = 0x03 then Attr_NAME
      else if v = 0x10 then Attr_STMT_LIST
      else if v = 0x11 then Attr_LOW_PC
      else if v = 0x12 then Attr_HIGH_PC
      else if v = 0x47 then Attr_SPECIFICATION
      else if v = 0x72 then Attr_STR_OFFSETS_BASE
      else if v = 0x73 then Attr_ADDR_BASE
      else Attr_other v)"

datatype form =
    Form_ADDR | Form_BLOCK2 | Form_BLOCK4 | Form_DATA2 | Form_DATA4 | Form_DATA8 | Form_STRING
  | Form_BLOCK | Form_BLOCK1 | Form_DATA1 | Form_FLAG | Form_SDATA | Form_STRP | Form_UDATA
  | Form_REF_ADDR | Form_REF1 | Form_REF2 | Form_REF4 | Form_REF8 | Form_REF_UDATA | Form_INDIRECT
  | Form_SEC_OFFSET | Form_EXPRLOC | Form_FLAG_PRESENT | Form_STRX | Form_ADDRX | Form_REF_SUP4
  | Form_STRP_SUP | Form_DATA16 | Form_LINE_STRP | Form_REF_SIG8 | Form_IMPLICIT_CONST
  | Form_LOCLISTX | Form_RNGLISTX | Form_REF_SUP8 | Form_STRX1 | Form_STRX2 | Form_STRX3
  | Form_STRX4 | Form_ADDRX1 | Form_ADDRX2 | Form_ADDRX3 | Form_ADDRX4
  | Form_other u64

definition form_codes :: "(u64 \<times> form) list" where
  "form_codes =
     [(0x01, Form_ADDR), (0x03, Form_BLOCK2), (0x04, Form_BLOCK4), (0x05, Form_DATA2),
      (0x06, Form_DATA4), (0x07, Form_DATA8), (0x08, Form_STRING), (0x09, Form_BLOCK),
      (0x0a, Form_BLOCK1), (0x0b, Form_DATA1), (0x0c, Form_FLAG), (0x0d, Form_SDATA),
      (0x0e, Form_STRP), (0x0f, Form_UDATA), (0x10, Form_REF_ADDR), (0x11, Form_REF1),
      (0x12, Form_REF2), (0x13, Form_REF4), (0x14, Form_REF8), (0x15, Form_REF_UDATA),
      (0x16, Form_INDIRECT), (0x17, Form_SEC_OFFSET), (0x18, Form_EXPRLOC),
      (0x19, Form_FLAG_PRESENT), (0x1a, Form_STRX), (0x1b, Form_ADDRX), (0x1c, Form_REF_SUP4),
      (0x1d, Form_STRP_SUP), (0x1e, Form_DATA16), (0x1f, Form_LINE_STRP), (0x20, Form_REF_SIG8),
      (0x21, Form_IMPLICIT_CONST), (0x22, Form_LOCLISTX), (0x23, Form_RNGLISTX),
      (0x24, Form_REF_SUP8), (0x25, Form_STRX1), (0x26, Form_STRX2), (0x27, Form_STRX3),
      (0x28, Form_STRX4), (0x29, Form_ADDRX1), (0x2a, Form_ADDRX2), (0x2b, Form_ADDRX3),
      (0x2c, Form_ADDRX4)]"

definition form_of :: "u64 \<Rightarrow> form" where
  "form_of v = (case map_of form_codes v of Some f \<Rightarrow> f | None \<Rightarrow> Form_other v)"

section \<open>Abbreviations\<close>

record attribute_spec =
  spec_attribute_type :: attribute_type
  spec_form :: form
  spec_implicit_const :: int

record abbrev =
  ab_tag :: tag
  ab_has_children :: bool
  ab_attribute_specs :: "attribute_spec list"

lemma asserted_Inr [simp]:
  "asserted msg x = Inr (v, r') \<longleftrightarrow> x = ((v, True), r')"
  by (cases x rule: prod.exhaust, rename_tac q r'', case_tac q) (auto simp: kstd_assert_def)

text \<open>The loop of \<open>parse_attribute_specs\<close>; \<open>specs\<close> is the array it fills.\<close>

function attribute_specs_loop ::
  "memory \<Rightarrow> byte_reader \<Rightarrow> attribute_spec list \<Rightarrow> (attribute_spec list \<times> byte_reader) outcome" where
  "attribute_specs_loop m debug_abbrev specs =
     obind (asserted [] (read_uleb128 m debug_abbrev)) (\<lambda>(attribute_type_value, debug_abbrev).
     obind (asserted [] (read_uleb128 m debug_abbrev)) (\<lambda>(form_value, debug_abbrev).
       if attribute_type_value = 0 \<and> form_value = 0 then Inr (specs, debug_abbrev)
       else
         obind (if form_of form_value = Form_IMPLICIT_CONST
                then asserted [] (read_sleb128 m debug_abbrev) else Inr (0, debug_abbrev))
           (\<lambda>(implicit_const, debug_abbrev).
              attribute_specs_loop m debug_abbrev
                (specs @ [\<lparr> spec_attribute_type = attribute_type_of attribute_type_value,
                           spec_form = form_of form_value,
                           spec_implicit_const = implicit_const \<rparr>]))))"
  by pat_completeness auto
termination
proof (relation "measure (\<lambda>(m, r, specs). nat (remaining r))", goal_cases)
  case (2 m r specs p v r1 p' fv r2 p'' ic r3)
  then have "remaining r1 < remaining r" "remaining r2 < remaining r1" "remaining r3 \<le> remaining r2"
    "0 \<le> remaining r1"
    using uleb128_reader.checked_consumes [of m r v r1] uleb128_reader.checked_consumes [of m r1 fv r2]
      sleb128_reader.checked_consumes [of m r2 ic r3]
    by (auto split: if_splits)
  then show ?case by simp
qed simp

declare attribute_specs_loop.simps [simp del]

definition parse_attribute_specs ::
  "memory \<Rightarrow> byte_reader \<Rightarrow> (attribute_spec list \<times> byte_reader) outcome" where
  "parse_attribute_specs m debug_abbrev = attribute_specs_loop m debug_abbrev []"

definition STOP_ABBREVIATION_CODE :: u64 where "STOP_ABBREVIATION_CODE = 0"

type_synonym abbreviations = "(u64, abbrev) hash_table"

definition blank_abbreviation :: "(u64, abbrev) entry" where
  "blank_abbreviation = \<lparr> entry_hash = 0, entry_key = 0,
     entry_value = \<lparr> ab_tag = tag_of 0, ab_has_children = False, ab_attribute_specs = [] \<rparr> \<rparr>"

partial_function (option) abbreviations_loop ::
  "memory \<Rightarrow> byte_reader \<Rightarrow> abbreviations \<Rightarrow> (abbreviations \<times> byte_reader) run" where
  "abbreviations_loop m debug_abbrev table =
     rbind (Some (asserted [] (read_uleb128 m debug_abbrev))) (\<lambda>(abbreviation_code, debug_abbrev).
       if abbreviation_code = STOP_ABBREVIATION_CODE then Some (Inr (table, debug_abbrev))
       else
         rbind (Some (asserted [] (read_uleb128 m debug_abbrev))) (\<lambda>(tag_value, debug_abbrev).
         rbind (Some (asserted [] (read_bool m debug_abbrev))) (\<lambda>(has_children, debug_abbrev).
         rbind (Some (parse_attribute_specs m debug_abbrev)) (\<lambda>(attribute_specs, debug_abbrev).
         rbind (ht_set add_fuel compute_integral blank_abbreviation table abbreviation_code
                  \<lparr> ab_tag = tag_of tag_value, ab_has_children = has_children,
                    ab_attribute_specs = attribute_specs \<rparr>) (\<lambda>(index, table).
           abbreviations_loop m debug_abbrev table)))))"

definition parse_abbreviations ::
  "memory \<Rightarrow> byte_reader \<Rightarrow> int \<Rightarrow> (abbreviations \<times> byte_reader) run" where
  "parse_abbreviations m debug_abbrev preallocate_abbreviation_count =
     rbind (Some (hash_table_new blank_abbreviation preallocate_abbreviation_count))
       (abbreviations_loop m debug_abbrev)"

section \<open>Compilation unit headers\<close>

record compilation_unit_header =
  cu_length :: u64
  cu_version :: u16
  cu_type :: u8
  cu_address_size :: u8
  cu_abbreviation_offset :: u64

definition DWARF_VERSION :: u16 where "DWARF_VERSION = 5"
definition LENGTH_FOR_64_BIT_DWARF :: u32 where "LENGTH_FOR_64_BIT_DWARF = 0xffffffff"

definition parse_compilation_unit_header ::
  "memory \<Rightarrow> byte_reader \<Rightarrow> (compilation_unit_header \<times> byte_reader) outcome" where
  "parse_compilation_unit_header m debug_info =
     obind (asserted [] (read_u32 m debug_info)) (\<lambda>(unit_length, debug_info).
     kstd_assert (unit_length \<noteq> LENGTH_FOR_64_BIT_DWARF) ''dwarf: 64-bit DWARF format unsupported''
    (obind (asserted [] (read_u16 m debug_info)) (\<lambda>(version, debug_info).
     kstd_assert (version = DWARF_VERSION) ''We only support DWARF5.''
    (obind (asserted [] (read_u8 m debug_info)) (\<lambda>(type_value, debug_info).
     obind (asserted [] (read_u8 m debug_info)) (\<lambda>(address_size, debug_info).
     obind (asserted [] (read_u32 m debug_info)) (\<lambda>(abbreviation_offset, debug_info).
       Inr (\<lparr> cu_length = ucast unit_length, cu_version = version, cu_type = type_value,
              cu_address_size = address_size, cu_abbreviation_offset = ucast abbreviation_offset \<rparr>,
            debug_info))))))))"

section \<open>Attribute values\<close>

text \<open>The tagged union: a kind with the member of the union it selects.\<close>

datatype attribute_value =
    No_Value u64
  | Unsigned u64
  | Signed int
  | String "u8 list"
  | Block view
  | Flag u64

text \<open>
  A raw offset beyond the section is taken for an address inside it. The comparison with the
  size is unsigned, as \<open>offset\<close> is a \<^verbatim>\<open>psize\<close>.
\<close>

definition normalize_section_offset :: "view \<Rightarrow> u32 \<Rightarrow> int outcome" where
  "normalize_section_offset section raw_offset =
     (if uint raw_offset \<le> view_size section then Inr (uint raw_offset)
      else
        let section_address = view_data section
        in kstd_assert (section_address \<le> ucast raw_offset) ''dwarf: section offset out of range''
          (let offset = ucast raw_offset - section_address
           in kstd_assert (offset \<le> word_of_int (view_size section))
                ''dwarf: section offset out of range'' (Inr (sint offset))))"

definition read_section_string :: "memory \<Rightarrow> view \<Rightarrow> u32 \<Rightarrow> u8 list outcome" where
  "read_section_string m section offset =
     obind (normalize_section_offset section offset) (\<lambda>section_offset.
       let reader = byte_reader_of (view_data section + word_of_int section_offset)
                      (view_size section - section_offset)
       in obind (asserted ''dwarf: unterminated string in .debug_str/.debug_line_str''
                  (read_cstring m reader)) (\<lambda>(str, reader). Inr (view_bytes m str)))"

text \<open>The position is computed in unsigned 64-bit arithmetic and passed on as an \<open>ssize\<close>.\<close>

definition resolve_strx :: "memory \<Rightarrow> view \<Rightarrow> view \<Rightarrow> u64 \<Rightarrow> u64 \<Rightarrow> u8 list outcome" where
  "resolve_strx m str_offsets_bytes str_bytes str_offsets_base index =
     obind (normalize_section_offset str_offsets_bytes (ucast str_offsets_base)) (\<lambda>section_offset.
     obind (skip_asserted ''dwarf: strx index out of range''
             (byte_reader_of_view str_offsets_bytes)
             (sint (word_of_int section_offset + index * 4 :: u64))) (\<lambda>reader.
     obind (asserted [] (read_u32 m reader)) (\<lambda>(str_offset, reader).
       read_section_string m str_bytes str_offset)))"

definition resolve_addrx :: "memory \<Rightarrow> view \<Rightarrow> u8 \<Rightarrow> u64 \<Rightarrow> u64 \<Rightarrow> u64 outcome" where
  "resolve_addrx m addr_bytes address_size addr_base index =
     obind (normalize_section_offset addr_bytes (ucast addr_base)) (\<lambda>section_offset.
     obind (skip_asserted ''dwarf: addrx index out of range''
             (byte_reader_of_view addr_bytes)
             (sint (word_of_int section_offset + index * ucast address_size :: u64))) (\<lambda>reader.
       if address_size = 8
       then obind (asserted [] (read_u64 m reader)) (\<lambda>(address, reader). Inr address)
       else obind (asserted [] (read_u32 m reader)) (\<lambda>(address, reader). Inr (ucast address))))"

text \<open>The two resolutions as \<open>read_attribute_value\<close> calls them.\<close>

abbreviation strx_value where
  "strx_value m sections index r \<equiv>
     obind (resolve_strx m (debug_str_offsets_bytes sections) (debug_str_bytes sections)
              (debug_str_offsets_base sections) index) (\<lambda>s. Inr (String s, r))"

abbreviation addrx_value where
  "addrx_value m address_size sections index r \<equiv>
     obind (resolve_addrx m (debug_addr_bytes sections) address_size (debug_addr_base sections)
              index) (\<lambda>address. Inr (Unsigned address, r))"

text \<open>Three bytes of a view, least significant first.\<close>

definition three_bytes :: "memory \<Rightarrow> view \<Rightarrow> u32" where
  "three_bytes m v = ucast (m (view_data v)) OR push_bit 8 (ucast (m (view_data v + 1)))
     OR push_bit 16 (ucast (m (view_data v + 2)))"

function read_attribute_value ::
  "memory \<Rightarrow> byte_reader \<Rightarrow> form \<Rightarrow> u8 \<Rightarrow> int \<Rightarrow> sections \<Rightarrow> (attribute_value \<times> byte_reader) outcome"
  where
  "read_attribute_value m r form address_size implicit_const sections =
     (if form = Form_ADDR then
        if address_size = 8
        then obind (asserted [] (read_u64 m r)) (\<lambda>(address, r). Inr (Unsigned address, r))
        else obind (asserted [] (read_u32 m r)) (\<lambda>(address, r). Inr (Unsigned (ucast address), r))
      else if form \<in> {Form_DATA1, Form_REF1} then
        obind (asserted [] (read_u8 m r)) (\<lambda>(v, r). Inr (Unsigned (ucast v), r))
      else if form \<in> {Form_DATA2, Form_REF2} then
        obind (asserted [] (read_u16 m r)) (\<lambda>(v, r). Inr (Unsigned (ucast v), r))
      else if form \<in> {Form_DATA4, Form_REF_ADDR, Form_REF4, Form_SEC_OFFSET} then
        obind (asserted [] (read_u32 m r)) (\<lambda>(v, r). Inr (Unsigned (ucast v), r))
      else if form \<in> {Form_DATA8, Form_REF8, Form_REF_SIG8} then
        obind (asserted [] (read_u64 m r)) (\<lambda>(v, r). Inr (Unsigned v, r))
      else if form = Form_DATA16 then
        obind (asserted [] (read_bytes m r 16)) (\<lambda>(bytes, r). Inr (Block bytes, r))
      else if form = Form_BLOCK1 then
        obind (asserted [] (read_u8 m r)) (\<lambda>(size, r).
        obind (asserted [] (read_bytes m r (uint size))) (\<lambda>(bytes, r). Inr (Block bytes, r)))
      else if form = Form_BLOCK2 then
        obind (asserted [] (read_u16 m r)) (\<lambda>(size, r).
        obind (asserted [] (read_bytes m r (uint size))) (\<lambda>(bytes, r). Inr (Block bytes, r)))
      else if form = Form_BLOCK4 then
        obind (asserted [] (read_u32 m r)) (\<lambda>(size, r).
        obind (asserted [] (read_bytes m r (uint size))) (\<lambda>(bytes, r). Inr (Block bytes, r)))
      else if form \<in> {Form_BLOCK, Form_EXPRLOC} then
        obind (asserted [] (read_uleb128 m r)) (\<lambda>(size, r).
        obind (asserted [] (read_bytes m r (sint size))) (\<lambda>(bytes, r). Inr (Block bytes, r)))
      else if form = Form_STRING then
        obind (asserted [] (read_cstring m r)) (\<lambda>(v, r). Inr (String (view_bytes m v), r))
      else if form \<in> {Form_STRP, Form_LINE_STRP} then
        obind (asserted [] (read_u32 m r)) (\<lambda>(offset, r).
          let section = (if form = Form_STRP then debug_str_bytes sections
                         else debug_line_str_bytes sections)
          in obind (normalize_section_offset section offset) (\<lambda>normalized_offset.
             obind (read_section_string m section (word_of_int normalized_offset)) (\<lambda>v.
               Inr (String v, r))))
      else if form = Form_SDATA then
        obind (asserted [] (read_sleb128 m r)) (\<lambda>(v, r). Inr (Signed v, r))
      else if form \<in> {Form_UDATA, Form_REF_UDATA} then
        obind (asserted [] (read_uleb128 m r)) (\<lambda>(v, r). Inr (Unsigned v, r))
      else if form = Form_FLAG then
        obind (asserted [] (read_u8 m r)) (\<lambda>(v, r). Inr (Flag (ucast v), r))
      else if form = Form_FLAG_PRESENT then Inr (Flag 1, r)
      else if form = Form_IMPLICIT_CONST then Inr (Signed implicit_const, r)
      else if form = Form_STRX then
        obind (asserted [] (read_uleb128 m r)) (\<lambda>(index, r). strx_value m sections index r)
      else if form = Form_ADDRX then
        obind (asserted [] (read_uleb128 m r)) (\<lambda>(index, r). addrx_value m address_size sections index r)
      else if form \<in> {Form_LOCLISTX, Form_RNGLISTX} then
        obind (asserted [] (read_uleb128 m r)) (\<lambda>(index, r). Inr (No_Value 0, r))
      else if form = Form_STRX1 then
        obind (asserted [] (read_u8 m r)) (\<lambda>(index, r). strx_value m sections (ucast index) r)
      else if form = Form_STRX2 then
        obind (asserted [] (read_u16 m r)) (\<lambda>(index, r). strx_value m sections (ucast index) r)
      else if form = Form_STRX3 then
        obind (asserted [] (read_bytes m r 3)) (\<lambda>(bytes, r).
          strx_value m sections (ucast (three_bytes m bytes)) r)
      else if form = Form_STRX4 then
        obind (asserted [] (read_u32 m r)) (\<lambda>(index, r). strx_value m sections (ucast index) r)
      else if form = Form_ADDRX1 then
        obind (asserted [] (read_u8 m r)) (\<lambda>(index, r). addrx_value m address_size sections (ucast index) r)
      else if form = Form_ADDRX2 then
        obind (asserted [] (read_u16 m r)) (\<lambda>(index, r). addrx_value m address_size sections (ucast index) r)
      else if form = Form_ADDRX3 then
        obind (asserted [] (read_bytes m r 3)) (\<lambda>(bytes, r).
          addrx_value m address_size sections (ucast (three_bytes m bytes)) r)
      else if form = Form_ADDRX4 then
        obind (asserted [] (read_u32 m r)) (\<lambda>(index, r). addrx_value m address_size sections (ucast index) r)
      else if form \<in> {Form_REF_SUP4, Form_STRP_SUP} then
        obind (asserted [] (read_u32 m r)) (\<lambda>(v, r). Inr (No_Value 0, r))
      else if form = Form_REF_SUP8 then
        obind (asserted [] (read_u64 m r)) (\<lambda>(v, r). Inr (No_Value 0, r))
      else if form = Form_INDIRECT then
        obind (asserted [] (read_uleb128 m r)) (\<lambda>(actual_form, r).
          read_attribute_value m r (form_of actual_form) address_size implicit_const sections)
      else Inl ''Unhandled read_attribute_value'')"
  by pat_completeness auto
termination
proof (relation "measure (\<lambda>(m, r, form, address_size, implicit_const, sections). nat (remaining r))",
    goal_cases)
  case (2 m r form address_size implicit_const sections p actual_form r')
  then show ?case using uleb128_reader.checked_consumes [of m r actual_form r'] by auto
qed simp

declare read_attribute_value.simps [simp del]


section \<open>The entries of a compilation unit\<close>

record subprogram_info =
  info_name :: "u8 list"
  info_low_pc :: u64
  info_high_pc :: u64

record pending_subprogram =
  pending_specification_offset :: u64
  pending_name :: "u8 list"
  pending_low_pc :: u64
  pending_high_pc :: u64
  pending_has_name :: bool
  pending_high_pc_is_offset :: bool

record unit_result =
  result_infos :: "subprogram_info list"
  result_debug_line_offset :: u32
  result_has_debug_line_offset :: bool

type_synonym names = "(u64, u8 list) hash_table"

definition blank_name :: "(u64, u8 list) entry" where
  "blank_name = \<lparr> entry_hash = 0, entry_key = 0, entry_value = [] \<rparr>"

text \<open>
  The local variables of the loop over the entries: the reader, the sections whose bases the
  unit sets, the names of the entries met so far by their offset, the subprograms whose name
  is not resolved yet, the line offset, the three \<open>has_\<close> flags, and the open scopes.
\<close>

record unit_state =
  us_reader :: byte_reader
  us_sections :: sections
  us_names :: names
  us_pending :: "pending_subprogram list"
  us_debug_line_offset :: u32
  us_has_debug_line_offset :: bool
  us_has_debug_str_offsets_base :: bool
  us_has_debug_addr_base :: bool
  us_scope_stack :: "bool list"

text \<open>The local variables of one entry.\<close>

record entry_locals =
  el_has_name :: bool
  el_has_low_pc :: bool
  el_has_high_pc :: bool
  el_name :: "u8 list"
  el_low_pc :: u64
  el_high_pc_raw :: u64
  el_specification_offset :: u64
  el_high_pc_is_offset :: bool

definition entry_locals_init :: entry_locals where
  "entry_locals_init = \<lparr> el_has_name = False, el_has_low_pc = False, el_has_high_pc = False,
     el_name = [], el_low_pc = 0, el_high_pc_raw = 0, el_specification_offset = 0,
     el_high_pc_is_offset = False \<rparr>"

text \<open>\<^verbatim>\<open>kstd_assert(value.kind == STRING)\<close> and \<^verbatim>\<open>kstd_assert(value.kind == UNSIGNED)\<close>, with the member.\<close>

fun string_value :: "attribute_value \<Rightarrow> u8 list outcome" where
  "string_value (String s) = Inr s"
| "string_value v = Inl []"

fun unsigned_value :: "attribute_value \<Rightarrow> u64 outcome" where
  "unsigned_value (Unsigned w) = Inr w"
| "unsigned_value v = Inl []"

text \<open>The \<^verbatim>\<open>switch\<close> on the attribute type of a subprogram.\<close>

definition subprogram_attribute ::
  "u64 \<Rightarrow> attribute_spec \<Rightarrow> attribute_value \<Rightarrow> entry_locals \<Rightarrow> entry_locals outcome" where
  "subprogram_attribute compilation_unit_start spec v locals =
     (case spec_attribute_type spec of
        Attr_NAME \<Rightarrow> obind (string_value v) (\<lambda>s.
          Inr (locals\<lparr> el_name := s, el_has_name := True \<rparr>))
      | Attr_LOW_PC \<Rightarrow> obind (unsigned_value v) (\<lambda>w.
          Inr (locals\<lparr> el_low_pc := w, el_has_low_pc := True \<rparr>))
      | Attr_HIGH_PC \<Rightarrow> obind (unsigned_value v) (\<lambda>w.
          Inr (locals\<lparr> el_high_pc_raw := w, el_high_pc_is_offset := spec_form spec \<noteq> Form_ADDR,
                       el_has_high_pc := True \<rparr>))
      | Attr_SPECIFICATION \<Rightarrow> obind (unsigned_value v) (\<lambda>w.
          Inr (locals\<lparr> el_specification_offset := compilation_unit_start + w \<rparr>))
      | _ \<Rightarrow> Inr locals)"

text \<open>The three attributes of the unit itself.\<close>

definition unit_attribute ::
  "abbrev \<Rightarrow> attribute_spec \<Rightarrow> attribute_value \<Rightarrow> unit_state \<Rightarrow> unit_state outcome" where
  "unit_attribute declaration spec v st =
     (case spec_attribute_type spec of
        Attr_STMT_LIST \<Rightarrow>
          kstd_assert (ab_tag declaration = Tag_COMPILE_UNIT) []
          (kstd_assert (\<not> us_has_debug_line_offset st) ''Should only have one per compilation unit.''
          (obind (unsigned_value v) (\<lambda>w.
            Inr (st\<lparr> us_debug_line_offset := ucast w, us_has_debug_line_offset := True \<rparr>))))
      | Attr_STR_OFFSETS_BASE \<Rightarrow>
          kstd_assert (ab_tag declaration = Tag_COMPILE_UNIT) []
          (kstd_assert (\<not> us_has_debug_str_offsets_base st) ''Should only have one per compilation unit.''
          (obind (unsigned_value v) (\<lambda>w.
            Inr (st\<lparr> us_sections := (us_sections st)\<lparr> debug_str_offsets_base := w \<rparr>,
                     us_has_debug_str_offsets_base := True \<rparr>))))
      | Attr_ADDR_BASE \<Rightarrow>
          kstd_assert (ab_tag declaration = Tag_COMPILE_UNIT) []
          (kstd_assert (\<not> us_has_debug_addr_base st) ''Should only have one per compilation unit.''
          (obind (unsigned_value v) (\<lambda>w.
            Inr (st\<lparr> us_sections := (us_sections st)\<lparr> debug_addr_base := w \<rparr>,
                     us_has_debug_addr_base := True \<rparr>))))
      | _ \<Rightarrow> Inr st)"

text \<open>The loop over the attribute specifications of one entry.\<close>

fun entry_attributes ::
  "memory \<Rightarrow> u64 \<Rightarrow> u8 \<Rightarrow> abbrev \<Rightarrow> attribute_spec list \<Rightarrow> entry_locals \<Rightarrow> unit_state \<Rightarrow>
   (entry_locals \<times> unit_state) outcome" where
  "entry_attributes m compilation_unit_start address_size declaration [] locals st = Inr (locals, st)"
| "entry_attributes m compilation_unit_start address_size declaration (spec # specs) locals st =
     obind (read_attribute_value m (us_reader st) (spec_form spec) address_size
              (spec_implicit_const spec) (us_sections st)) (\<lambda>(v, debug_info).
     obind (if ab_tag declaration = Tag_SUBPROGRAM
            then subprogram_attribute compilation_unit_start spec v locals else Inr locals) (\<lambda>locals.
     obind (unit_attribute declaration spec v (st\<lparr> us_reader := debug_info \<rparr>)) (\<lambda>st.
       entry_attributes m compilation_unit_start address_size declaration specs locals st)))"

text \<open>What the entry leaves behind: its name, its address range, and an open scope.\<close>

definition record_entry :: "u64 \<Rightarrow> abbrev \<Rightarrow> entry_locals \<Rightarrow> unit_state \<Rightarrow> unit_state run" where
  "record_entry entry_offset declaration locals st =
     rbind
       (if ab_tag declaration = Tag_SUBPROGRAM \<and> el_has_name locals
        then rbind (ht_set add_fuel compute_integral blank_name (us_names st) entry_offset (el_name locals))
               (\<lambda>(index, names). Some (Inr (st\<lparr> us_names := names \<rparr>)))
        else Some (Inr st)) (\<lambda>st.
     let st = (if ab_tag declaration = Tag_SUBPROGRAM \<and> el_has_low_pc locals \<and> el_has_high_pc locals
               then st\<lparr> us_pending := us_pending st @
                      [\<lparr> pending_specification_offset = el_specification_offset locals,
                         pending_name = el_name locals,
                         pending_low_pc = el_low_pc locals,
                         pending_high_pc = el_high_pc_raw locals,
                         pending_has_name = el_has_name locals,
                         pending_high_pc_is_offset = el_high_pc_is_offset locals \<rparr>] \<rparr>
               else st)
     in Some (Inr (if ab_has_children declaration
                   then st\<lparr> us_scope_stack := us_scope_stack st @ [True] \<rparr> else st)))"

text \<open>
  The loop. The cursor is compared with the end of the unit as an unsigned number. A block of
  negative size moves the cursor back, so it need not end.
\<close>

partial_function (option) entries_loop ::
  "memory \<Rightarrow> u64 \<Rightarrow> u64 \<Rightarrow> abbreviations \<Rightarrow> u8 \<Rightarrow> unit_state \<Rightarrow> unit_state run" where
  "entries_loop m compilation_unit_start compilation_unit_end abbreviations address_size st =
     (if compilation_unit_end \<le> word_of_int (br_offset (us_reader st)) then Some (Inr st)
      else
        let entry_offset = word_of_int (br_offset (us_reader st))
        in rbind (Some (asserted [] (read_uleb128 m (us_reader st)))) (\<lambda>(abbreviation_code, debug_info).
             let st = st\<lparr> us_reader := debug_info \<rparr>
             in if abbreviation_code = STOP_ABBREVIATION_CODE
                then if us_scope_stack st = [] then Some (Inr st)
                     else entries_loop m compilation_unit_start compilation_unit_end abbreviations
                            address_size (st\<lparr> us_scope_stack := butlast (us_scope_stack st) \<rparr>)
                else
                  rbind (ht_find compute_integral abbreviations abbreviation_code) (\<lambda>declaration.
                  case declaration of
                    None \<Rightarrow> Some (Inl ''Shouldn't be possible for it to not exist if it's referenced. Compiler error?'')
                  | Some declaration \<Rightarrow>
                      rbind (Some (entry_attributes m compilation_unit_start address_size declaration
                               (ab_attribute_specs declaration) entry_locals_init st)) (\<lambda>(locals, st).
                      rbind (record_entry entry_offset declaration locals st)
                        (entries_loop m compilation_unit_start compilation_unit_end abbreviations
                           address_size)))))"

text \<open>The second loop: the name of a subprogram is its own or that of its specification.\<close>

fun resolve_pending ::
  "names \<Rightarrow> pending_subprogram list \<Rightarrow> subprogram_info list \<Rightarrow> subprogram_info list run" where
  "resolve_pending names [] infos = Some (Inr infos)"
| "resolve_pending names (p # ps) infos =
     rbind (if \<not> pending_has_name p \<and> pending_specification_offset p \<noteq> 0
            then ht_find compute_integral names (pending_specification_offset p)
            else Some (Inr (Some (pending_name p)))) (\<lambda>name.
       case name of
         None \<Rightarrow> resolve_pending names ps infos
       | Some name \<Rightarrow>
           if name = [] then resolve_pending names ps infos
           else
             let high_pc = (if pending_high_pc_is_offset p
                            then pending_low_pc p + pending_high_pc p else pending_high_pc p)
             in resolve_pending names ps
                  (infos @ [\<lparr> info_name = name, info_low_pc = pending_low_pc p, info_high_pc = high_pc \<rparr>]))"

definition parse_unit_entries ::
  "memory \<Rightarrow> byte_reader \<Rightarrow> u64 \<Rightarrow> u64 \<Rightarrow> abbreviations \<Rightarrow> u8 \<Rightarrow> sections \<Rightarrow>
   (unit_result \<times> byte_reader \<times> sections) run" where
  "parse_unit_entries m debug_info compilation_unit_start compilation_unit_end abbreviations
     address_size sections =
     rbind (Some (hash_table_new blank_name MIN_SIZE)) (\<lambda>names.
     rbind (entries_loop m compilation_unit_start compilation_unit_end abbreviations address_size
              \<lparr> us_reader = debug_info, us_sections = sections, us_names = names, us_pending = [],
                us_debug_line_offset = 0, us_has_debug_line_offset = False,
                us_has_debug_str_offsets_base = False, us_has_debug_addr_base = False,
                us_scope_stack = [] \<rparr>) (\<lambda>st.
     rbind (resolve_pending (us_names st) (us_pending st) []) (\<lambda>infos.
       Some (Inr (\<lparr> result_infos = infos, result_debug_line_offset = us_debug_line_offset st,
                    result_has_debug_line_offset = us_has_debug_line_offset st \<rparr>,
                  us_reader st, us_sections st)))))"

section \<open>All compilation units\<close>

definition parse_subprograms_unit ::
  "memory \<Rightarrow> byte_reader \<Rightarrow> sections \<Rightarrow> unit_result \<Rightarrow> (byte_reader \<times> sections \<times> unit_result) run" where
  "parse_subprograms_unit m debug_info sections acc =
     (let compilation_unit_start = word_of_int (br_offset debug_info)
      in rbind (Some (parse_compilation_unit_header m debug_info)) (\<lambda>(header, debug_info).
         let compilation_unit_end = compilation_unit_start + 4 + cu_length header
         in rbind (Some (normalize_section_offset (debug_abbrev_bytes sections)
                     (ucast (cu_abbreviation_offset header)))) (\<lambda>abbreviation_offset.
            let abbreviation_reader =
                  byte_reader_of (view_data (debug_abbrev_bytes sections) + word_of_int abbreviation_offset)
                    (view_size (debug_abbrev_bytes sections) - abbreviation_offset)
            in rbind (parse_abbreviations m abbreviation_reader 400) (\<lambda>(abbreviations, abbreviation_reader).
               rbind (parse_unit_entries m debug_info compilation_unit_start compilation_unit_end
                        abbreviations (cu_address_size header) sections) (\<lambda>(result, debug_info, sections).
               let acc = acc\<lparr> result_infos := result_infos acc @ result_infos result \<rparr>;
                   acc = (if \<not> result_has_debug_line_offset acc \<and> result_has_debug_line_offset result
                          then acc\<lparr> result_debug_line_offset := result_debug_line_offset result,
                                    result_has_debug_line_offset := True \<rparr>
                          else acc)
               in Some (Inr (debug_info\<lparr> br_offset := sint compilation_unit_end \<rparr>, sections, acc)))))))"

partial_function (option) subprograms_loop ::
  "memory \<Rightarrow> byte_reader \<Rightarrow> sections \<Rightarrow> unit_result \<Rightarrow> (unit_result \<times> byte_reader \<times> sections) run" where
  "subprograms_loop m debug_info sections acc =
     (if 0 < remaining debug_info
      then rbind (parse_subprograms_unit m debug_info sections acc)
             (\<lambda>(debug_info, sections, acc). subprograms_loop m debug_info sections acc)
      else Some (Inr (acc, debug_info, sections)))"

definition parse_subprograms ::
  "memory \<Rightarrow> byte_reader \<Rightarrow> sections \<Rightarrow> (unit_result \<times> byte_reader \<times> sections) run" where
  "parse_subprograms m debug_info sections =
     subprograms_loop m debug_info sections
       \<lparr> result_infos = [], result_debug_line_offset = 0, result_has_debug_line_offset = False \<rparr>"

definition unknown_name :: string where "unknown_name = ''<unknown>''"

text \<open>The loop returns from inside at the first hit.\<close>

fun function_name_for_address :: "subprogram_info list \<Rightarrow> u64 \<Rightarrow> u8 list" where
  "function_name_for_address [] address = map (\<lambda>c. of_char c) unknown_name"
| "function_name_for_address (info # infos) address =
     (if info_low_pc info \<le> address \<and> address < info_high_pc info then info_name info
      else function_name_for_address infos address)"

end
