(* ===== verification/Dwarf_Values.thy ===== *)
theory Dwarf_Values
  imports Dwarf_Info
begin

text \<open>
  What the readers of \<^verbatim>\<open>Dwarf_Info\<close> return on well-formed input: attribute values of every form,
  abbreviation tables and compilation unit headers, read back from their encodings.
\<close>

section \<open>Attribute values\<close>

text \<open>
  The encodings of the DWARF standard, as a relation: \<open>form_encodes m sections address_size ic a f bs v\<close>
  says that the bytes \<open>bs\<close> at address \<open>a\<close> are an attribute value of form \<open>f\<close> with the meaning \<open>v\<close>.
  The forms that refer to another section give the string or address found there.
\<close>

definition index_encodes :: "form \<Rightarrow> (form \<times> nat) list \<Rightarrow> form \<Rightarrow> u8 list \<Rightarrow> u64 \<Rightarrow> bool" where
  "index_encodes leb fixed f bs w \<longleftrightarrow>
     f = leb \<and> bs = uleb_encode w
     \<or> (\<exists>n. (f, n) \<in> set fixed \<and> bs = le_bytes n w \<and> unat w < 256 ^ n)"

abbreviation "strx_encodes \<equiv>
  index_encodes Form_STRX [(Form_STRX1, 1), (Form_STRX2, 2), (Form_STRX3, 3), (Form_STRX4, 4)]"
abbreviation "addrx_encodes \<equiv>
  index_encodes Form_ADDRX [(Form_ADDRX1, 1), (Form_ADDRX2, 2), (Form_ADDRX3, 3), (Form_ADDRX4, 4)]"

text \<open>Entry \<open>w\<close> of the table of \<open>n\<close>-byte entries that starts at offset \<open>base\<close> of a section.\<close>

definition entry_encodes :: "memory \<Rightarrow> view \<Rightarrow> u64 \<Rightarrow> nat \<Rightarrow> u64 \<Rightarrow> u8 list \<Rightarrow> bool" where
  "entry_encodes m section base n w bs \<longleftrightarrow> uint base < 2 ^ 32
     \<and> uint base + int n * uint w + int n \<le> view_size section \<and> view_size section < 2 ^ 63
     \<and> bytes_at m (view_data section + base + of_nat n * w) bs"

inductive form_encodes :: "memory \<Rightarrow> sections \<Rightarrow> u8 \<Rightarrow> int \<Rightarrow> u64 \<Rightarrow> form \<Rightarrow> u8 list \<Rightarrow> attribute_value \<Rightarrow> bool"
  for m sections address_size ic where
  addr8: "address_size = 8 \<Longrightarrow>
    form_encodes m sections address_size ic a Form_ADDR (le_bytes 8 (w :: u64)) (Unsigned w)"
| addr4: "address_size \<noteq> 8 \<Longrightarrow>
    form_encodes m sections address_size ic a Form_ADDR (le_bytes 4 (w4 :: u32)) (Unsigned (ucast w4))"
| fixed1: "f \<in> {Form_DATA1, Form_REF1} \<Longrightarrow>
    form_encodes m sections address_size ic a f [b] (Unsigned (ucast b))"
| fixed2: "f \<in> {Form_DATA2, Form_REF2} \<Longrightarrow>
    form_encodes m sections address_size ic a f (le_bytes 2 (w2 :: u16)) (Unsigned (ucast w2))"
| fixed4: "f \<in> {Form_DATA4, Form_REF_ADDR, Form_REF4, Form_SEC_OFFSET} \<Longrightarrow>
    form_encodes m sections address_size ic a f (le_bytes 4 (w4 :: u32)) (Unsigned (ucast w4))"
| fixed8: "f \<in> {Form_DATA8, Form_REF8, Form_REF_SIG8} \<Longrightarrow>
    form_encodes m sections address_size ic a f (le_bytes 8 (w :: u64)) (Unsigned w)"
| data16: "List.length bs = 16 \<Longrightarrow>
    form_encodes m sections address_size ic a Form_DATA16 bs (Block \<lparr> view_data = a, view_size = 16 \<rparr>)"
| block1: "unat b = List.length bs \<Longrightarrow>
    form_encodes m sections address_size ic a Form_BLOCK1 (b # bs)
      (Block \<lparr> view_data = a + 1, view_size = int (List.length bs) \<rparr>)"
| block2: "unat w2 = List.length bs \<Longrightarrow>
    form_encodes m sections address_size ic a Form_BLOCK2 (le_bytes 2 (w2 :: u16) @ bs)
      (Block \<lparr> view_data = a + 2, view_size = int (List.length bs) \<rparr>)"
| block4: "unat w4 = List.length bs \<Longrightarrow>
    form_encodes m sections address_size ic a Form_BLOCK4 (le_bytes 4 (w4 :: u32) @ bs)
      (Block \<lparr> view_data = a + 4, view_size = int (List.length bs) \<rparr>)"
| block: "f \<in> {Form_BLOCK, Form_EXPRLOC} \<Longrightarrow> sint w = int (List.length bs) \<Longrightarrow>
    form_encodes m sections address_size ic a f (uleb_encode w @ bs)
      (Block \<lparr> view_data = a + of_nat (List.length (uleb_encode w)), view_size = int (List.length bs) \<rparr>)"
| string: "0 \<notin> set s \<Longrightarrow>
    form_encodes m sections address_size ic a Form_STRING (s @ [0]) (String s)"
| strp: "f = Form_STRP \<and> sec = debug_str_bytes sections
      \<or> f = Form_LINE_STRP \<and> sec = debug_line_str_bytes sections \<Longrightarrow>
    uint w4 + int (List.length s) < view_size sec \<Longrightarrow>
    bytes_at m (view_data sec + ucast w4) (s @ [0]) \<Longrightarrow> 0 \<notin> set s \<Longrightarrow>
    form_encodes m sections address_size ic a f (le_bytes 4 (w4 :: u32)) (String s)"
| sdata: "-(2 ^ 63) \<le> i \<Longrightarrow> i < 2 ^ 63 \<Longrightarrow>
    form_encodes m sections address_size ic a Form_SDATA (sleb_encode i) (Signed i)"
| udata: "f \<in> {Form_UDATA, Form_REF_UDATA} \<Longrightarrow>
    form_encodes m sections address_size ic a f (uleb_encode w) (Unsigned w)"
| flag: "form_encodes m sections address_size ic a Form_FLAG [b] (Flag (ucast b))"
| flag_present: "form_encodes m sections address_size ic a Form_FLAG_PRESENT [] (Flag 1)"
| implicit_const: "form_encodes m sections address_size ic a Form_IMPLICIT_CONST [] (Signed ic)"
| strx: "strx_encodes f bs w \<Longrightarrow>
    entry_encodes m (debug_str_offsets_bytes sections) (debug_str_offsets_base sections) 4 w (le_bytes 4 (w4 :: u32)) \<Longrightarrow>
    uint w4 + int (List.length s) < view_size (debug_str_bytes sections) \<Longrightarrow>
    bytes_at m (view_data (debug_str_bytes sections) + ucast w4) (s @ [0]) \<Longrightarrow> 0 \<notin> set s \<Longrightarrow>
    form_encodes m sections address_size ic a f bs (String s)"
| addrx8: "addrx_encodes f bs w \<Longrightarrow> address_size = 8 \<Longrightarrow>
    entry_encodes m (debug_addr_bytes sections) (debug_addr_base sections) 8 w (le_bytes 8 (x :: u64)) \<Longrightarrow>
    form_encodes m sections address_size ic a f bs (Unsigned x)"
| addrx4: "addrx_encodes f bs w \<Longrightarrow> address_size = 4 \<Longrightarrow>
    entry_encodes m (debug_addr_bytes sections) (debug_addr_base sections) 4 w (le_bytes 4 (x4 :: u32)) \<Longrightarrow>
    form_encodes m sections address_size ic a f bs (Unsigned (ucast x4))"
| listx: "f \<in> {Form_LOCLISTX, Form_RNGLISTX} \<Longrightarrow>
    form_encodes m sections address_size ic a f (uleb_encode w) (No_Value 0)"
| sup4: "f \<in> {Form_REF_SUP4, Form_STRP_SUP} \<Longrightarrow>
    form_encodes m sections address_size ic a f (le_bytes 4 (w4 :: u32)) (No_Value 0)"
| sup8: "form_encodes m sections address_size ic a Form_REF_SUP8 (le_bytes 8 (w :: u64)) (No_Value 0)"
| indirect: "form_encodes m sections address_size ic (a + of_nat (List.length (uleb_encode w))) (form_of w) bs v \<Longrightarrow>
    form_encodes m sections address_size ic a Form_INDIRECT (uleb_encode w @ bs) v"

lemma le_bytes_ucast:
  assumes "8 * n \<le> LENGTH('b)"
  shows "le_bytes n (ucast (w :: 'a::len word) :: 'b::len word) = le_bytes n w"
  unfolding le_bytes_def using assms
  by (intro map_cong refl bit_word_eqI) (auto simp: bit_simps)

lemma ucast_ucast_small:
  assumes "unat (w :: u64) < 2 ^ LENGTH('b)"
  shows "ucast (ucast w :: 'b::len word) = w"
proof -
  have "unat (take_bit LENGTH('b) w) = unat w" using assms by (simp add: unat_simps)
  then have "take_bit LENGTH('b) w = w" by (simp only: word_unat_eq_iff)
  then show ?thesis by (simp add: unsigned_ucast_eq)
qed

lemma three_bytes_le:
  assumes "bytes_at m (view_data v) (le_bytes 3 (w :: u64))"
  shows "three_bytes m v = ucast (take_bit 24 w)"
proof -
  have "le_bytes 3 w = [ucast w, ucast (drop_bit 8 w), ucast (drop_bit 16 w)]"
    by (simp add: le_bytes_def upt_rec numeral_eq_Suc)
  with assms have "m (view_data v) = ucast w" "m (view_data v + 1) = ucast (drop_bit 8 w)"
    "m (view_data v + 2) = ucast (drop_bit 16 w)" by (simp_all add: ac_simps)
  then have t: "three_bytes m v = ucast (ucast w :: u8) OR push_bit 8 (ucast (ucast (drop_bit 8 w) :: u8))
      OR push_bit 16 (ucast (ucast (drop_bit 16 w) :: u8))"
    by (simp only: three_bytes_def)
  show ?thesis unfolding t
  proof (rule bit_word_eqI)
    fix n assume "n < LENGTH(32)"
    then show "bit (ucast (ucast w :: u8) OR push_bit 8 (ucast (ucast (drop_bit 8 w) :: u8))
        OR push_bit 16 (ucast (ucast (drop_bit 16 w) :: u8)) :: u32) n
      \<longleftrightarrow> bit (ucast (take_bit 24 w) :: u32) n"
      by (cases "n < 8"; cases "n < 16") (auto simp: bit_simps)
  qed
qed

lemma view_bytes_at:
  "bytes_at m a s \<Longrightarrow> view_bytes m \<lparr> view_data = a, view_size = int (List.length s) \<rparr> = s"
  by (rule nth_equalityI) (simp_all add: view_bytes_def bytes_at_def)

text \<open>Reading any of the fixed-size indices gives the index.\<close>

lemma read_index_bytes:
  assumes "bytes_at m (cursor r 0) (le_bytes n (w :: u64))" "int n \<le> remaining r" "unat w < 256 ^ n"
  shows "n = 1 \<Longrightarrow> read_u8 m r = ((ucast w, True), advance r 1) \<and> ucast (ucast w :: u8) = w"
    and "n = 2 \<Longrightarrow> read_u16 m r = ((ucast w, True), advance r 2) \<and> ucast (ucast w :: u16) = w"
    and "n = 4 \<Longrightarrow> read_u32 m r = ((ucast w, True), advance r 4) \<and> ucast (ucast w :: u32) = w"
    and "n = 3 \<Longrightarrow> read_bytes m r 3 = ((\<lparr> view_data = cursor r 0, view_size = 3 \<rparr>, True), advance r 3)
      \<and> ucast (three_bytes m \<lparr> view_data = cursor r 0, view_size = 3 \<rparr>) = w"
proof -
  show "read_u8 m r = ((ucast w, True), advance r 1) \<and> ucast (ucast w :: u8) = w" if "n = 1"
    using assms that u8_codec.roundtrip [of m r "ucast w"] ucast_ucast_small [of w, where 'b = 8]
    by (simp add: le_bytes_def)
  show "read_u16 m r = ((ucast w, True), advance r 2) \<and> ucast (ucast w :: u16) = w" if "n = 2"
    using assms that u16_codec.roundtrip [of m r "ucast w"] ucast_ucast_small [of w, where 'b = 16]
    by (simp add: le_bytes_ucast)
  show "read_u32 m r = ((ucast w, True), advance r 4) \<and> ucast (ucast w :: u32) = w" if "n = 4"
    using assms that u32_codec.roundtrip [of m r "ucast w"] ucast_ucast_small [of w, where 'b = 32]
    by (simp add: le_bytes_ucast)
  show "read_bytes m r 3 = ((\<lparr> view_data = cursor r 0, view_size = 3 \<rparr>, True), advance r 3)
      \<and> ucast (three_bytes m \<lparr> view_data = cursor r 0, view_size = 3 \<rparr>) = w" if "n = 3"
  proof -
    have "unat (take_bit 24 w) = unat w" using assms(3) that by (simp add: unat_simps)
    then have t: "take_bit 24 w = w" by (simp only: word_unat_eq_iff)
    then have "ucast (ucast w :: u32) = w"
      using ucast_ucast_small [of w, where 'b = 32] assms(3) that by simp
    with t show ?thesis using assms that three_bytes_le [of m "\<lparr> view_data = cursor r 0, view_size = 3 \<rparr>" w]
      by (simp add: read_bytes_def remaining_def)
  qed
qed

lemma section_string_at:
  assumes "uint w4 + int (List.length s) < view_size section"
    "bytes_at m (view_data section + ucast w4) (s @ [0])" "0 \<notin> set s"
  shows "normalize_section_offset section w4 = Inr (uint w4)"
    "read_section_string m section w4 = Inr s"
proof -
  show n: "normalize_section_offset section w4 = Inr (uint w4)"
    using assms(1) by (simp add: normalize_section_offset_def)
  let ?r = "byte_reader_of (view_data section + word_of_int (uint w4)) (view_size section - uint w4)"
  have c: "cursor ?r 0 = view_data section + ucast w4"
    by (simp add: cursor_def byte_reader_of_def flip: ucast_eq)
  have "int (List.length s) < remaining ?r"
    using assms(1) by (simp add: byte_reader_of_def remaining_def)
  then have "read_cstring m ?r = ((\<lparr> view_data = cursor ?r 0, view_size = int (List.length s) \<rparr>, True),
      advance ?r (int (List.length s) + 1))"
    using assms(2,3) unfolding c [symmetric] by (intro read_cstring_encoded)
  moreover have "view_bytes m \<lparr> view_data = cursor ?r 0, view_size = int (List.length s) \<rparr> = s"
    using assms(2) unfolding c by (simp add: view_bytes_at bytes_at_append)
  ultimately show "read_section_string m section w4 = Inr s"
    by (simp add: read_section_string_def n Let_def)
qed

text \<open>The reader that \<open>resolve_strx\<close> and \<open>resolve_addrx\<close> move to an entry stands there.\<close>

lemma entry_reader:
  assumes e: "entry_encodes m section base n w bs" and k: "unat k = n" "0 < n"
  shows "normalize_section_offset section (ucast base) = Inr (uint base)"
    "\<exists>r. skip_asserted msg (byte_reader_of_view section) (sint (word_of_int (uint base) + w * k :: u64)) = Inr r
       \<and> bytes_at m (cursor r 0) bs \<and> int n \<le> remaining r"
proof -
  note [simp] = byte_reader_of_view_def byte_reader_of_def
  have b: "uint base < 2 ^ 32" "uint base + int n * uint w + int n \<le> view_size section" "view_size section < 2 ^ 63"
      "bytes_at m (view_data section + base + of_nat n * w) bs" using e by (simp_all add: entry_encodes_def)
  have "0 \<le> int n * uint w" by simp
  have "uint (ucast base :: u32) = uint base"
    using b(1) by (simp add: unsigned_ucast_eq take_bit_int_eq_self)
  moreover have "uint base \<le> view_size section" using b(2) \<open>0 \<le> int n * uint w\<close> by linarith
  ultimately show "normalize_section_offset section (ucast base) = Inr (uint base)"
    by (simp add: normalize_section_offset_def)
  have kn: "k = of_nat n" using k(1) by (metis of_nat_unat ucast_id)
  let ?p = "base + of_nat n * w"
  have pos: "uint base + int n * uint w < 2 ^ 63" using b(2,3) by linarith
  have p: "(word_of_int (uint base) + w * k :: u64) = word_of_int (uint base + int n * uint w)"
    by (simp add: kn mult.commute)
  have raw: "sint (word_of_int (uint base + int n * uint w) :: u64) = signed_take_bit 63 (uint base + int n * uint w)"
    by (subst sint_sbintrunc') simp
  have sp: "sint (word_of_int (uint base + int n * uint w) :: u64) = uint base + int n * uint w"
  proof -
    have "- (2 ^ 63) \<le> uint base + int n * uint w" proof -
      have "0 \<le> uint base" "0 \<le> int n * uint w" "- (2 ^ 63) \<le> (0 :: int)" by simp_all
      then show ?thesis by linarith
    qed
    then have "signed_take_bit 63 (uint base + int n * uint w) = uint base + int n * uint w"
      using pos by (intro signed_take_bit_int_eq_self) simp_all
    with raw show ?thesis by (simp only:)
  qed
  have "(word_of_int (uint base + int n * uint w) :: u64) = ?p" by simp
  moreover have "\<not> view_size section < uint base + int n * uint w" using b(2) by linarith
  ultimately show "\<exists>r. skip_asserted msg (byte_reader_of_view section) (sint (word_of_int (uint base) + w * k :: u64)) = Inr r
       \<and> bytes_at m (cursor r 0) bs \<and> int n \<le> remaining r"
    unfolding p sp using b(2,4)
    by (simp add: skip_asserted_def skip_def cursor_def advance_def remaining_def add.assoc)
qed

text \<open>The position after the bytes of a value, and the bytes behind a prefix.\<close>

lemma encoded_prefix:
  assumes "bytes_at m (cursor r 0) (bs @ cs)" "int (List.length (bs @ cs)) \<le> remaining r"
  shows "bytes_at m (cursor r 0) bs" "int (List.length bs) \<le> remaining r"
    "bytes_at m (cursor (advance r (int (List.length bs))) 0) cs"
    "int (List.length cs) \<le> remaining (advance r (int (List.length bs)))"
    "cursor (advance r (int (List.length bs))) 0 = cursor r 0 + of_nat (List.length bs)"
  using assms by (auto simp: bytes_at_append cursor_advance cursor_add [of r "List.length bs"])

lemma read_bytes_encoded:
  "int (List.length bs) \<le> remaining r \<Longrightarrow> read_bytes m r (int (List.length bs)) =
    ((\<lparr> view_data = cursor r 0, view_size = int (List.length bs) \<rparr>, True), advance r (int (List.length bs)))"
  by (simp add: read_bytes_def remaining_def)

lemma uint_of_unat: "unat w = n \<Longrightarrow> uint w = int n"
  by (simp only: uint_nat)

lemma index_cases:
  assumes "index_encodes leb fixed f bs w"
  obtains (leb) "f = leb" "bs = uleb_encode w"
    | (fixed) n where "(f, n) \<in> set fixed" "bs = le_bytes n w" "unat w < 256 ^ n"
  using assms by (auto simp: index_encodes_def)

lemma read_addrx_encoded:
  assumes "addrx_encodes f bs w"
    and "resolve_addrx m (debug_addr_bytes sections) address_size (debug_addr_base sections) w = Inr x"
    and "bytes_at m (cursor r 0) bs" "int (List.length bs) \<le> remaining r"
  shows "read_attribute_value m r f address_size ic sections = Inr (Unsigned x, advance r (int (List.length bs)))"
  using assms(1)
proof (cases rule: index_cases)
  case leb
  then show ?thesis using assms uleb128_codec.roundtrip [of m r w]
    by (subst read_attribute_value.simps) simp
next
  case (fixed n)
  then show ?thesis using assms read_index_bytes [of m r n w]
    by (subst read_attribute_value.simps) auto
qed

lemma read_attribute_value_encoded:
  assumes "form_encodes m sections address_size ic a f bs v" "a = cursor r 0"
    "bytes_at m (cursor r 0) bs" "int (List.length bs) \<le> remaining r"
  shows "read_attribute_value m r f address_size ic sections = Inr (v, advance r (int (List.length bs)))"
  using assms
proof (induction arbitrary: r rule: form_encodes.induct)
  case (addr8 a w)
  then show ?case using u64_codec.roundtrip [of m r w]
    by (subst read_attribute_value.simps) simp
next
  case (addr4 a w)
  then show ?case using u32_codec.roundtrip [of m r w]
    by (subst read_attribute_value.simps) simp
next
  case (fixed1 f a b)
  then show ?case using u8_codec.roundtrip [of m r b]
    by (subst read_attribute_value.simps) auto
next
  case (fixed2 f a w)
  then show ?case using u16_codec.roundtrip [of m r w]
    by (subst read_attribute_value.simps) auto
next
  case (fixed4 f a w)
  then show ?case using u32_codec.roundtrip [of m r w]
    by (subst read_attribute_value.simps) auto
next
  case (fixed8 f a w)
  then show ?case using u64_codec.roundtrip [of m r w]
    by (subst read_attribute_value.simps) auto
next
  case (data16 bs a)
  then show ?case using read_bytes_encoded [of bs r m]
    by (subst read_attribute_value.simps) simp
next
  case (block1 b bs a)
  then show ?case
    using uint_of_unat [OF block1(1)] u8_codec.roundtrip [of m r b] read_bytes_encoded [of bs "advance r 1" m]
      encoded_prefix [of m r "[b]" bs]
    by (subst read_attribute_value.simps) simp
next
  case (block2 w bs a)
  then show ?case
    using uint_of_unat [OF block2(1)] u16_codec.roundtrip [of m r w]
      read_bytes_encoded [of bs "advance r 2" m] encoded_prefix [of m r "le_bytes 2 w" bs]
    by (subst read_attribute_value.simps) simp
next
  case (block4 w bs a)
  then show ?case
    using uint_of_unat [OF block4(1)] u32_codec.roundtrip [of m r w]
      read_bytes_encoded [of bs "advance r 4" m] encoded_prefix [of m r "le_bytes 4 w" bs]
    by (subst read_attribute_value.simps) simp
next
  case (block f w bs a)
  then show ?case
    using uleb128_codec.roundtrip [of m r w]
      read_bytes_encoded [of bs "advance r (int (List.length (uleb_encode w)))" m]
      encoded_prefix [of m r "uleb_encode w" bs]
    by (subst read_attribute_value.simps) auto
next
  case (string s a)
  then show ?case using read_cstring_encoded [of m r s] view_bytes_at [of m "cursor r 0" s]
    by (subst read_attribute_value.simps) (auto simp: bytes_at_append ac_simps)
next
  case (strp f sec w s a)
  then show ?case
    using u32_codec.roundtrip [of m r w] section_string_at [of w s sec m]
    by (subst read_attribute_value.simps) auto
next
  case (sdata i a)
  then show ?case using sleb128_codec.roundtrip [of i m r]
    by (subst read_attribute_value.simps) simp
next
  case (udata f a w)
  then show ?case using uleb128_codec.roundtrip [of m r w]
    by (subst read_attribute_value.simps) auto
next
  case (flag a b)
  then show ?case using u8_codec.roundtrip [of m r b]
    by (subst read_attribute_value.simps) simp
next
  case (flag_present a)
  then show ?case by (subst read_attribute_value.simps) (simp add: advance_def)
next
  case (implicit_const a)
  then show ?case by (subst read_attribute_value.simps) (simp add: advance_def)
next
  case (strx f bs w w4 s a)
  have res: "resolve_strx m (debug_str_offsets_bytes sections) (debug_str_bytes sections)
      (debug_str_offsets_base sections) w = Inr s"
  proof -
    from entry_reader(2) [OF strx(2), where k = 4 and msg = "''dwarf: strx index out of range''"] obtain r' where
      r': "skip_asserted ''dwarf: strx index out of range'' (byte_reader_of_view (debug_str_offsets_bytes sections))
          (sint (word_of_int (uint (debug_str_offsets_base sections)) + w * 4 :: u64)) = Inr r'"
        "bytes_at m (cursor r' 0) (le_bytes 4 w4)" "4 \<le> remaining r'" by auto
    then have "read_u32 m r' = ((w4, True), advance r' 4)" using u32_codec.roundtrip [of m r' w4] by simp
    then show ?thesis
      using entry_reader(1) [OF strx(2), where k = 4] r'(1) section_string_at(2) [OF strx(3-5)] by (simp add: resolve_strx_def)
  qed
  from strx(1) show ?case
  proof (cases rule: index_cases)
    case leb
    then show ?thesis using strx res uleb128_codec.roundtrip [of m r w]
      by (subst read_attribute_value.simps) simp
  next
    case (fixed n)
    then show ?thesis using strx res read_index_bytes [of m r n w]
      by (subst read_attribute_value.simps) auto
  qed
next
  case (addrx8 f bs w x a)
  have "resolve_addrx m (debug_addr_bytes sections) address_size (debug_addr_base sections) w = Inr x"
  proof -
    from entry_reader(2) [OF addrx8(3), where k = 8 and msg = "''dwarf: addrx index out of range''"] obtain r' where
      r': "skip_asserted ''dwarf: addrx index out of range'' (byte_reader_of_view (debug_addr_bytes sections))
          (sint (word_of_int (uint (debug_addr_base sections)) + w * 8 :: u64)) = Inr r'"
        "bytes_at m (cursor r' 0) (le_bytes 8 x)" "8 \<le> remaining r'" by auto
    then have "read_u64 m r' = ((x, True), advance r' 8)" using u64_codec.roundtrip [of m r' x] by simp
    then show ?thesis
      using entry_reader(1) [OF addrx8(3), where k = 8] r'(1) addrx8(2) by (simp add: resolve_addrx_def)
  qed
  then show ?case by (rule read_addrx_encoded [OF addrx8(1) _ addrx8(5,6)])
next
  case (addrx4 f bs w x4 a)
  have "resolve_addrx m (debug_addr_bytes sections) address_size (debug_addr_base sections) w = Inr (ucast x4)"
  proof -
    from entry_reader(2) [OF addrx4(3), where k = 4 and msg = "''dwarf: addrx index out of range''"] obtain r' where
      r': "skip_asserted ''dwarf: addrx index out of range'' (byte_reader_of_view (debug_addr_bytes sections))
          (sint (word_of_int (uint (debug_addr_base sections)) + w * 4 :: u64)) = Inr r'"
        "bytes_at m (cursor r' 0) (le_bytes 4 x4)" "4 \<le> remaining r'" by auto
    then have "read_u32 m r' = ((x4, True), advance r' 4)" using u32_codec.roundtrip [of m r' x4] by simp
    then show ?thesis
      using entry_reader(1) [OF addrx4(3), where k = 4] r'(1) addrx4(2) by (simp add: resolve_addrx_def)
  qed
  then show ?case by (rule read_addrx_encoded [OF addrx4(1) _ addrx4(5,6)])
next
  case (listx f a w)
  then show ?case using uleb128_codec.roundtrip [of m r w]
    by (subst read_attribute_value.simps) auto
next
  case (sup4 f a w)
  then show ?case using u32_codec.roundtrip [of m r w]
    by (subst read_attribute_value.simps) auto
next
  case (sup8 a w)
  then show ?case using u64_codec.roundtrip [of m r w]
    by (subst read_attribute_value.simps) simp
next
  case (indirect a w bs v)
  let ?r = "advance r (int (List.length (uleb_encode w)))"
  note p = encoded_prefix [OF indirect.prems(2,3)]
  have "read_attribute_value m ?r (form_of w) address_size ic sections
      = Inr (v, advance ?r (int (List.length bs)))"
    using indirect.IH [of ?r] indirect.prems(1) p by simp
  then show ?case using uleb128_codec.roundtrip [of m r w] p
    by (subst read_attribute_value.simps) simp
qed

text \<open>
  Where a reader can be after a value: in the same buffer, and inside it unless the value is a
  block whose size is negative.
\<close>

definition moved_within :: "byte_reader \<Rightarrow> byte_reader \<Rightarrow> bool" where
  "moved_within r r' \<longleftrightarrow> br_source r' = br_source r \<and> br_size r' = br_size r \<and>
     (br_wf r \<longrightarrow> br_wf r' \<and> br_offset r \<le> br_offset r')"

lemma moved_within_refl [simp]: "moved_within r r"
  by (simp add: moved_within_def)

lemma moved_within_trans: "moved_within r r' \<Longrightarrow> moved_within r' r'' \<Longrightarrow> moved_within r r''"
  by (auto simp: moved_within_def)

lemma moved_within_advance: "0 \<le> n \<Longrightarrow> n \<le> remaining r \<Longrightarrow> moved_within r (advance r n)"
  by (auto simp: moved_within_def advance_def br_wf_def remaining_def)

context field_reader
begin

lemma moves_within:
  assumes "rd m r = ((v, True), r')"
  shows "moved_within r r'"
proof -
  obtain n where "n > 0" "r' = advance r n" "n \<le> remaining r" using succeeds [OF assms] by blast
  then show ?thesis using moved_within_advance [of n r] by simp
qed

end

lemmas reads_move_within =
  u8_reader.moves_within u16_reader.moves_within u32_reader.moves_within u64_reader.moves_within
  bool_reader.moves_within uleb128_reader.moves_within sleb128_reader.moves_within
  cstring_reader.moves_within

lemma read_bytes_moves':
  "read_bytes m r n = ((v, True), r') \<Longrightarrow> view_size v = n \<and> (0 \<le> n \<longrightarrow> moved_within r r')"
  by (auto simp: read_bytes_def remaining_def split: if_splits intro!: moved_within_advance)

declare kstd_assert_Inr_iff [simp]

definition negative_block :: "attribute_value \<Rightarrow> bool" where
  "negative_block v = (case v of Block b \<Rightarrow> view_size b < 0 | _ \<Rightarrow> False)"

lemma read_attribute_value_moves:
  assumes "read_attribute_value m r form address_size ic sections = Inr (v, r')" "\<not> negative_block v"
  shows "moved_within r r'"
  using assms
proof (induction m r form address_size ic sections rule: read_attribute_value.induct)
  case (1 m r form address_size ic sections)
  note IH = 1(1)
  show ?case
  proof (cases "form = Form_INDIRECT")
    case True
    then obtain actual_form r1 where r1: "read_uleb128 m r = ((actual_form, True), r1)"
      "read_attribute_value m r1 (form_of actual_form) address_size ic sections = Inr (v, r')"
      using 1(2) by (subst (asm) read_attribute_value.simps) (auto simp: obind_Inr_iff)
    have "moved_within r1 r'" by (rule IH) (use 1(3) True r1 in simp_all)
    with r1(1) show ?thesis using moved_within_trans reads_move_within(6) by blast
  next
    case False
    then show ?thesis using 1(2,3)
      by (subst (asm) read_attribute_value.simps)
        (auto simp: obind_Inr_iff Let_def negative_block_def split: if_splits
          dest!: reads_move_within read_bytes_moves' intro: moved_within_trans)
  qed
qed

section \<open>Abbreviation tables\<close>

text \<open>
  Declarations as a compiler writes them: a code, a tag, the children flag, and attribute
  specifications of an attribute, a form and (for \<open>DW_FORM_implicit_const\<close>) a constant.
\<close>

type_synonym raw_spec = "u64 \<times> u64 \<times> int"

record decl =
  decl_code :: u64
  decl_tag :: u64
  decl_has_children :: bool
  decl_specs :: "raw_spec list"

fun encode_spec :: "raw_spec \<Rightarrow> u8 list" where
  "encode_spec (attr, fm, ic) =
     uleb_encode attr @ uleb_encode fm @ (if form_of fm = Form_IMPLICIT_CONST then sleb_encode ic else [])"

fun spec_valid :: "raw_spec \<Rightarrow> bool" where
  "spec_valid (attr, fm, ic) \<longleftrightarrow> \<not> (attr = 0 \<and> fm = 0) \<and> -(2 ^ 63) \<le> ic \<and> ic < 2 ^ 63"

fun spec_of :: "raw_spec \<Rightarrow> attribute_spec" where
  "spec_of (attr, fm, ic) = \<lparr> spec_attribute_type = attribute_type_of attr, spec_form = form_of fm,
     spec_implicit_const = (if form_of fm = Form_IMPLICIT_CONST then ic else 0) \<rparr>"

definition encode_specs :: "raw_spec list \<Rightarrow> u8 list" where
  "encode_specs specs = concat (map encode_spec specs) @ [0, 0]"

definition encode_declaration :: "decl \<Rightarrow> u8 list" where
  "encode_declaration d = uleb_encode (decl_code d) @ uleb_encode (decl_tag d)
     @ [if decl_has_children d then 1 else 0] @ encode_specs (decl_specs d)"

definition declaration_valid :: "decl \<Rightarrow> bool" where
  "declaration_valid d \<longleftrightarrow> decl_code d \<noteq> 0 \<and> (\<forall>s \<in> set (decl_specs d). spec_valid s)"

definition abbrev_of :: "decl \<Rightarrow> abbrev" where
  "abbrev_of d = \<lparr> ab_tag = tag_of (decl_tag d), ab_has_children = decl_has_children d,
     ab_attribute_specs = map spec_of (decl_specs d) \<rparr>"

definition encode_abbreviations :: "decl list \<Rightarrow> u8 list" where
  "encode_abbreviations ds = concat (map encode_declaration ds) @ [0]"

text \<open>What the table means: the last declaration of a code counts.\<close>

definition abbreviation_map :: "decl list \<Rightarrow> u64 \<rightharpoonup> abbrev" where
  "abbreviation_map ds = map_of (rev (map (\<lambda>d. (decl_code d, abbrev_of d)) ds))"

lemma uleb_encode_zero [simp]: "uleb_encode 0 = [0]"
  by (simp add: uleb_encode.simps)

lemma uleb_read:
  assumes "bytes_at m (cursor r 0) (uleb_encode w @ bs)" "int (List.length (uleb_encode w @ bs)) \<le> remaining r"
  shows "read_uleb128 m r = ((w, True), advance r (int (List.length (uleb_encode w))))"
  using assms uleb128_codec.roundtrip [of m r w] by (simp add: bytes_at_append)

lemma sleb_read:
  assumes "bytes_at m (cursor r 0) (sleb_encode i @ bs)" "int (List.length (sleb_encode i @ bs)) \<le> remaining r"
    "-(2 ^ 63) \<le> i" "i < 2 ^ 63"
  shows "read_sleb128 m r = ((i, True), advance r (int (List.length (sleb_encode i))))"
  using assms sleb128_codec.roundtrip [of i m r] by (simp add: bytes_at_append)

lemma attribute_specs_encoded:
  assumes "\<forall>s \<in> set specs. spec_valid s" "bytes_at m (cursor r 0) (encode_specs specs)"
    "int (List.length (encode_specs specs)) \<le> remaining r"
  shows "attribute_specs_loop m r acc =
    Inr (acc @ map spec_of specs, advance r (int (List.length (encode_specs specs))))"
  using assms
proof (induction specs arbitrary: r acc)
  case Nil
  then show ?case
    using uleb_read [of m r 0 "[0]"] uleb_read [of m "advance r 1" 0 "[]"] encoded_prefix [of m r "[0]" "[0]"]
    by (subst attribute_specs_loop.simps) (simp add: encode_specs_def)
next
  case (Cons s specs)
  obtain attr fm ic where s: "s = (attr, fm, ic)" by (cases s)
  let ?ic = "if form_of fm = Form_IMPLICIT_CONST then sleb_encode ic else []"
  let ?tail = "encode_specs specs"
  let ?r1 = "advance r (int (List.length (uleb_encode attr)))"
  let ?r2 = "advance ?r1 (int (List.length (uleb_encode fm)))"
  let ?r3 = "advance ?r2 (int (List.length ?ic))"
  have enc: "encode_specs (s # specs) = uleb_encode attr @ uleb_encode fm @ ?ic @ ?tail"
    by (simp add: encode_specs_def s)
  note p0 = Cons.prems(2,3) [unfolded enc]
  note p1 = encoded_prefix [OF p0]
  note p2 = encoded_prefix [OF p1(3,4)]
  note p3 = encoded_prefix [OF p2(3,4)]
  have neq: "\<not> (attr = 0 \<and> fm = 0)" using Cons.prems(1) by (simp add: s)
  have ic: "(if form_of fm = Form_IMPLICIT_CONST then asserted [] (read_sleb128 m ?r2) else Inr (0, ?r2))
      = Inr (if form_of fm = Form_IMPLICIT_CONST then ic else 0, ?r3)"
  proof (cases "form_of fm = Form_IMPLICIT_CONST")
    case True
    then show ?thesis using sleb_read [of m ?r2 ic ?tail] p2(3,4) Cons.prems(1) by (simp add: s)
  qed (simp add: advance_def)
  have "attribute_specs_loop m r acc = attribute_specs_loop m ?r3 (acc @ [spec_of s])"
    using uleb_read [OF p0] uleb_read [OF p1(3,4)]
    by (subst attribute_specs_loop.simps) (simp add: neq ic s del: advance_advance split del: if_split)
  also have "\<dots> = Inr ((acc @ [spec_of s]) @ map spec_of specs, advance ?r3 (int (List.length ?tail)))"
    using Cons.prems(1) p3 by (intro Cons.IH) simp_all
  finally show ?case unfolding enc by (simp add: add.assoc)
qed

lemma abbreviations_encoded:
  assumes "\<forall>d \<in> set ds. declaration_valid d" "bytes_at m (cursor r 0) (encode_abbreviations ds)"
    "int (List.length (encode_abbreviations ds)) \<le> remaining r"
    "ht_inv compute_integral t" "ht_count t + int (List.length ds) \<le> ht_limit"
  shows "\<exists>t'. abbreviations_loop m r t =
      Some (Inr (t', advance r (int (List.length (encode_abbreviations ds)))))
    \<and> ht_inv compute_integral t' \<and> ht_map t' = ht_map t ++ abbreviation_map ds"
  using assms
proof (induction ds arbitrary: r t)
  case Nil
  then show ?case
    using uleb_read [of m r 0 "[]"]
    by (subst abbreviations_loop.simps)
      (simp add: encode_abbreviations_def STOP_ABBREVIATION_CODE_def abbreviation_map_def)
next
  case (Cons d ds)
  let ?r1 = "advance r (int (List.length (uleb_encode (decl_code d))))"
  let ?r2 = "advance ?r1 (int (List.length (uleb_encode (decl_tag d))))"
  let ?flag = "[if decl_has_children d then 1 else 0 :: u8]"
  let ?r3 = "advance ?r2 (int (List.length ?flag))"
  let ?r4 = "advance ?r3 (int (List.length (encode_specs (decl_specs d))))"
  have enc: "encode_abbreviations (d # ds) = uleb_encode (decl_code d) @ uleb_encode (decl_tag d)
      @ [if decl_has_children d then 1 else 0] @ encode_specs (decl_specs d) @ encode_abbreviations ds"
    by (simp add: encode_abbreviations_def encode_declaration_def)
  note p0 = Cons.prems(2,3) [unfolded enc]
  note p1 = encoded_prefix [OF p0]
  note p2 = encoded_prefix [OF p1(3,4)]
  note p3 = encoded_prefix [OF p2(3,4)]
  note p4 = encoded_prefix [OF p3(3,4)]
  have b: "read_bool m ?r2 = ((decl_has_children d, True), ?r3)"
    using p3(1,2) by (simp add: read_bool_def read_u8_def remaining_def)
  have sp: "parse_attribute_specs m ?r3 = Inr (map spec_of (decl_specs d), ?r4)"
    using attribute_specs_encoded [of "decl_specs d" m ?r3 "[]"] p4(1,2) Cons.prems(1)
    by (simp add: parse_attribute_specs_def declaration_valid_def)
  have "blank_ok blank_abbreviation" by (simp add: blank_ok_def blank_abbreviation_def)
  then obtain i t1 where t1: "ht_set add_fuel compute_integral blank_abbreviation t (decl_code d) (abbrev_of d)
        = Some (Inr (i, t1))" "ht_inv compute_integral t1" "ht_map t1 = (ht_map t)(decl_code d \<mapsto> abbrev_of d)"
      "ht_count t1 \<le> ht_count t + 1"
    using ht_set_spec [OF Cons.prems(4), of blank_abbreviation "decl_code d" "abbrev_of d"] Cons.prems(5)
    by (auto split: if_splits)
  have "decl_code d \<noteq> STOP_ABBREVIATION_CODE"
    using Cons.prems(1) by (simp add: declaration_valid_def STOP_ABBREVIATION_CODE_def)
  then have "abbreviations_loop m r t = abbreviations_loop m ?r4 t1"
    using uleb_read [OF p0] uleb_read [OF p1(3,4)] b sp t1(1)
    by (subst abbreviations_loop.simps) (simp add: abbrev_of_def)
  moreover obtain t2 where t2: "abbreviations_loop m ?r4 t1 =
        Some (Inr (t2, advance ?r4 (int (List.length (encode_abbreviations ds)))))"
      "ht_inv compute_integral t2" "ht_map t2 = ht_map t1 ++ abbreviation_map ds"
    using Cons.IH [OF _ p4(3,4) t1(2)] Cons.prems(1,5) t1(4) by auto
  ultimately have "abbreviations_loop m r t =
      Some (Inr (t2, advance r (int (List.length (encode_abbreviations (d # ds))))))"
    unfolding enc by (simp add: ac_simps)
  moreover have "ht_map t2 = ht_map t ++ abbreviation_map (d # ds)"
    unfolding t2(3) t1(3) by (rule ext) (simp add: abbreviation_map_def map_add_def split: option.split)
  ultimately show ?case using t2(2) by blast
qed

lemma parse_abbreviations_encoded:
  assumes "\<forall>d \<in> set ds. declaration_valid d" "bytes_at m (cursor r 0) (encode_abbreviations ds)"
    "int (List.length (encode_abbreviations ds)) \<le> remaining r"
    "int (List.length ds) \<le> ht_limit" "count \<le> 2 ^ 31"
  shows "\<exists>t. parse_abbreviations m r count =
      Some (Inr (t, advance r (int (List.length (encode_abbreviations ds)))))
    \<and> ht_inv compute_integral t \<and> ht_map t = abbreviation_map ds"
proof -
  have "blank_ok blank_abbreviation" by (simp add: blank_ok_def blank_abbreviation_def)
  then obtain t0 where t0: "hash_table_new blank_abbreviation count = Inr t0" "ht_inv compute_integral t0"
      "ht_map t0 = Map.empty" "ht_count t0 = 0"
    using hash_table_new_spec [of blank_abbreviation count compute_integral] assms(5) by blast
  then show ?thesis
    using abbreviations_encoded [OF assms(1-3) t0(2)] assms(4) by (auto simp: parse_abbreviations_def)
qed

section \<open>Headers\<close>

definition encode_header :: "u32 \<Rightarrow> u16 \<Rightarrow> u8 \<Rightarrow> u8 \<Rightarrow> u32 \<Rightarrow> u8 list" where
  "encode_header unit_length version unit_type address_size abbreviation_offset =
     le_bytes 4 unit_length @ le_bytes 2 version @ [unit_type] @ [address_size] @ le_bytes 4 abbreviation_offset"

lemma header_encoded:
  assumes "bytes_at m (cursor r 0) (encode_header l v ty asz off)" "12 \<le> remaining r"
  shows "parse_compilation_unit_header m r =
    (if l = LENGTH_FOR_64_BIT_DWARF then Inl ''dwarf: 64-bit DWARF format unsupported''
     else if v \<noteq> DWARF_VERSION then Inl ''We only support DWARF5.''
     else Inr (\<lparr> cu_length = ucast l, cu_version = v, cu_type = ty, cu_address_size = asz,
       cu_abbreviation_offset = ucast off \<rparr>, advance r 12))"
proof -
  note p0 = assms(1) [unfolded encode_header_def]
  have "int (List.length (le_bytes 4 l @ le_bytes 2 v @ [ty] @ [asz] @ le_bytes 4 off)) \<le> remaining r"
    using assms(2) by simp
  note p1 = encoded_prefix [OF p0 this]
  note p2 = encoded_prefix [OF p1(3,4)]
  note p3 = encoded_prefix [OF p2(3,4)]
  note p4 = encoded_prefix [OF p3(3,4)]
  have "read_u32 m r = ((l, True), advance r 4)" "read_u16 m (advance r 4) = ((v, True), advance r 6)"
    "read_u8 m (advance r 6) = ((ty, True), advance r 7)" "read_u8 m (advance r 7) = ((asz, True), advance r 8)"
    "read_u32 m (advance r 8) = ((off, True), advance r 12)"
    using u32_codec.roundtrip [OF _ p1(1,2)] u16_codec.roundtrip [OF _ p2(1,2)]
      u8_codec.roundtrip [OF _ p3(1,2)] u8_codec.roundtrip [OF _ p4(1,2)] u32_codec.roundtrip [OF _ p4(3,4)]
    by simp_all
  then show ?thesis by (auto simp: parse_compilation_unit_header_def)
qed

section \<open>Properties\<close>

text \<open>A buffer for the examples: a string section at \<open>0x1000\<close>, values at \<open>0x2000\<close>.\<close>

definition example_sections :: sections where
  "example_sections = \<lparr> debug_info_bytes = empty_view, debug_abbrev_bytes = empty_view,
     debug_line_bytes = empty_view, debug_str_bytes = \<lparr> view_data = 0x1000, view_size = 8 \<rparr>,
     debug_line_str_bytes = empty_view, debug_str_offsets_bytes = empty_view,
     debug_addr_bytes = empty_view, debug_str_offsets_base = 0, debug_addr_base = 0 \<rparr>"

definition example_memory :: memory where
  "example_memory = (\<lambda>a. if a < 0x2000 then memory_of 0x1000 [0, 0x6d, 0x61, 0x69, 0x6e, 0, 0, 0] a
     else memory_of 0x2000 [0x16, 0x0e, 1, 0, 0, 0, 42] a)"

definition example_reader :: byte_reader where
  "example_reader = \<lparr> br_source = 0x2000, br_size = 7, br_offset = 0 \<rparr>"

text \<open>
  C8: Reading an attribute value of any form (fixed-size data and references, blocks, LEB128
  numbers, inline strings, strings and addresses in other sections, indices into the offset
  and address tables, supplementary and indirect forms) from bytes that encode it by the DWARF
  standard returns the value and moves the reader exactly behind those bytes, as the comment on
  \<open>read_attribute_value\<close> promises.
\<close>

theorem attribute_value_roundtrip:
  assumes "form_encodes m sections address_size ic (cursor r 0) f bs v"
    and "bytes_at m (cursor r 0) bs" and "int (List.length bs) \<le> remaining r"
  shows "read_attribute_value m r f address_size ic sections = Inr (v, advance r (int (List.length bs)))"
  using assms by (intro read_attribute_value_encoded [OF _ refl])

theorem attribute_value_roundtrip_witness:
  "read_attribute_value example_memory example_reader Form_INDIRECT 8 0 example_sections
   = Inr (String [0x6d, 0x61, 0x69, 0x6e], advance example_reader 6)"
proof -
  have i: "uleb_encode 0x16 = [0x16]" "uleb_encode 0x0e = [0x0e]" by (simp_all add: uleb_encode.simps)
  have f: "form_of 0x16 = Form_INDIRECT" "form_of 0x0e = Form_STRP" by (simp_all add: form_of_def form_codes_def)
  have b: "le_bytes 4 (1 :: u32) = [1, 0, 0, 0]" by code_simp
  have "form_encodes example_memory example_sections 8 0 0x2002 (form_of 0x0e) (le_bytes 4 (1 :: u32))
      (String [0x6d, 0x61, 0x69, 0x6e])"
    unfolding f by (rule form_encodes.strp [where sec = "debug_str_bytes example_sections"])
      (simp_all add: example_sections_def example_memory_def memory_of_def)
  then have "form_encodes example_memory example_sections 8 0 0x2001 Form_INDIRECT
      (uleb_encode 0x0e @ le_bytes 4 (1 :: u32)) (String [0x6d, 0x61, 0x69, 0x6e])"
    by (intro form_encodes.indirect) (simp add: i)
  then have "form_encodes example_memory example_sections 8 0 (cursor example_reader 0) Form_INDIRECT
      (uleb_encode 0x16 @ uleb_encode 0x0e @ le_bytes 4 (1 :: u32)) (String [0x6d, 0x61, 0x69, 0x6e])"
    by (intro form_encodes.indirect) (simp add: i f cursor_def example_reader_def)
  from attribute_value_roundtrip [OF this] show ?thesis
    by (simp add: i b example_memory_def memory_of_def example_reader_def cursor_def remaining_def)
qed

text \<open>
  A value never takes the reader out of its section. From a cursor inside the buffer, every
  value that is read, whatever the bytes, leaves the reader in the same buffer, inside it and not
  before where it was, unless the value is a block whose LEB128 length exceeds the \<open>ssize\<close> range.
\<close>

theorem attribute_values_stay_in_section:
  assumes "read_attribute_value m r form address_size ic sections = Inr (v, r')"
    and "br_wf r" and "\<not> negative_block v"
  shows "br_source r' = br_source r \<and> br_size r' = br_size r \<and> br_wf r' \<and> br_offset r \<le> br_offset r'"
  using read_attribute_value_moves [OF assms(1,3)] assms(2) by (simp add: moved_within_def)

theorem attribute_values_stay_in_section_witness:
  "br_wf (advance example_reader 1)"
proof -
  have "read_attribute_value example_memory example_reader Form_FLAG 8 0 example_sections
      = Inr (Flag 0x16, advance example_reader 1)"
    by (subst read_attribute_value.simps)
      (simp add: read_u8_def example_memory_def memory_of_def example_reader_def cursor_def)
  from attribute_values_stay_in_section [OF this] show ?thesis
    by (simp add: negative_block_def br_wf_def example_reader_def)
qed

text \<open>
  C12: Abbreviation tables round trip. Parsing the encoding of any list of declarations stops
  exactly behind the terminator with a well-formed hash table that maps every code to the tag,
  children flag and attribute specifications of its last declaration and no other code to
  anything, for any preallocation up to \<open>2 ^ 31\<close> slots. So the entries of a unit find
  precisely the declarations the compiler wrote.
\<close>

theorem abbreviations_roundtrip:
  assumes "\<forall>d \<in> set ds. declaration_valid d" and "bytes_at m (cursor r 0) (encode_abbreviations ds)"
    and "int (List.length (encode_abbreviations ds)) \<le> remaining r"
    and "int (List.length ds) \<le> ht_limit" and "count \<le> 2 ^ 31"
  shows "\<exists>t. parse_abbreviations m r count =
      Some (Inr (t, advance r (int (List.length (encode_abbreviations ds)))))
    \<and> (\<forall>code. ht_find compute_integral t code = Some (Inr (abbreviation_map ds code)))"
  using parse_abbreviations_encoded [OF assms] ht_find_spec [of compute_integral] by metis

definition example_declarations :: "decl list" where
  "example_declarations =
     [\<lparr> decl_code = 1, decl_tag = 0x11, decl_has_children = True, decl_specs = [(0x10, 0x17, 0)] \<rparr>,
      \<lparr> decl_code = 2, decl_tag = 0x2e, decl_has_children = False,
        decl_specs = [(0x03, 0x0e, 0), (0x49, 0x21, -2)] \<rparr>]"

theorem abbreviations_roundtrip_witness:
  "\<exists>t. parse_abbreviations (memory_of 0 (encode_abbreviations example_declarations))
        (byte_reader_of 0 (int (List.length (encode_abbreviations example_declarations)))) 400
      = Some (Inr (t, byte_reader.make 0 (int (List.length (encode_abbreviations example_declarations)))
                         (int (List.length (encode_abbreviations example_declarations)))))
    \<and> ht_find compute_integral t 2 = Some (Inr (Some
        \<lparr> ab_tag = Tag_SUBPROGRAM, ab_has_children = False, ab_attribute_specs =
          [\<lparr> spec_attribute_type = Attr_NAME, spec_form = Form_STRP, spec_implicit_const = 0 \<rparr>,
           \<lparr> spec_attribute_type = Attr_other 0x49, spec_form = Form_IMPLICIT_CONST,
             spec_implicit_const = -2 \<rparr>] \<rparr>))"
proof -
  let ?bs = "encode_abbreviations example_declarations"
  let ?r = "byte_reader_of 0 (int (List.length ?bs))"
  have l: "List.length ?bs = 18" by code_simp
  have a: "abbreviation_map example_declarations 2 = Some
      \<lparr> ab_tag = Tag_SUBPROGRAM, ab_has_children = False, ab_attribute_specs =
        [\<lparr> spec_attribute_type = Attr_NAME, spec_form = Form_STRP, spec_implicit_const = 0 \<rparr>,
         \<lparr> spec_attribute_type = Attr_other 0x49, spec_form = Form_IMPLICIT_CONST,
           spec_implicit_const = -2 \<rparr>] \<rparr>"
    by code_simp
  have "\<forall>d \<in> set example_declarations. declaration_valid d"
    by (simp add: example_declarations_def declaration_valid_def)
  moreover have "bytes_at (memory_of 0 ?bs) (cursor ?r 0) ?bs"
    using bytes_at_memory_of [of ?bs 0] l by (simp add: cursor_def byte_reader_of_def)
  moreover have "int (List.length example_declarations) \<le> ht_limit"
    by (simp add: example_declarations_def ht_limit_def)
  ultimately obtain t where
    "parse_abbreviations (memory_of 0 ?bs) ?r 400 = Some (Inr (t, advance ?r (int (List.length ?bs))))"
    "\<forall>code. ht_find compute_integral t code = Some (Inr (abbreviation_map example_declarations code))"
    using abbreviations_roundtrip [of example_declarations "memory_of 0 ?bs" ?r 400]
    by (auto simp: remaining_def byte_reader_of_def)
  then show ?thesis by (auto simp: a advance_def byte_reader_of_def byte_reader.make_def)
qed

text \<open>
  C0: The unit header is read back field by field; a 64-bit unit (length \<open>0xffffffff\<close>) and a
  version other than 5 stop the parser with the code's messages before anything else is read.
\<close>

theorem compilation_unit_header_roundtrip:
  assumes "bytes_at m (cursor r 0) (encode_header unit_length version unit_type address_size offset)"
    and "12 \<le> remaining r"
  shows "parse_compilation_unit_header m r =
    (if unit_length = LENGTH_FOR_64_BIT_DWARF then Inl ''dwarf: 64-bit DWARF format unsupported''
     else if version \<noteq> DWARF_VERSION then Inl ''We only support DWARF5.''
     else Inr (\<lparr> cu_length = ucast unit_length, cu_version = version, cu_type = unit_type,
       cu_address_size = address_size, cu_abbreviation_offset = ucast offset \<rparr>, advance r 12))"
  using assms by (rule header_encoded)

theorem compilation_unit_header_roundtrip_witness:
  "parse_compilation_unit_header (memory_of 0 [20, 0, 0, 0, 4, 0, 1, 8, 0, 0, 0, 0]) (byte_reader_of 0 12)
   = Inl ''We only support DWARF5.''"
proof -
  have e: "encode_header 20 4 1 8 0 = [20, 0, 0, 0, 4, 0, 1, 8, 0, 0, 0, 0]" by code_simp
  show ?thesis
    using compilation_unit_header_roundtrip [of "memory_of 0 [20, 0, 0, 0, 4, 0, 1, 8, 0, 0, 0, 0]"
        "byte_reader_of 0 12" 20 4 1 8 0] bytes_at_memory_of [of "encode_header 20 4 1 8 0" 0]
    unfolding e by (simp add: cursor_def byte_reader_of_def remaining_def LENGTH_FOR_64_BIT_DWARF_def DWARF_VERSION_def)
qed

end
