(* ===== verification/Dwarf_Line.thy ===== *)
theory Dwarf_Line
  imports Dwarf_Values
begin

text \<open>
  \<^verbatim>\<open>kstd/dwarf.hh\<close>, the half that reads \<^verbatim>\<open>.debug_line\<close>: the header of a line table with its
  directories and files, the line-number state machine, and the two lookups; and the stack
  traces of \<^verbatim>\<open>gameos/stack_trace.hh\<close> that use them. \<^verbatim>\<open>path::join\<close> (\<^verbatim>\<open>kstd/path.hh\<close>) is here too.
\<close>

unbundle bit_operations_syntax

section \<open>Paths\<close>

definition SEPARATOR :: u8 where "SEPARATOR = 0x2f"

text \<open>The strings \<open>join\<close> copies and prints are their contents; the allocation is not modelled.\<close>

definition path_join :: "u8 list \<Rightarrow> u8 list \<Rightarrow> u8 list" where
  "path_join part1 part2 =
     (if part2 = [] then part1
      else if part1 = [] then part2
      else if hd part2 = SEPARATOR then part2
      else if last part1 = SEPARATOR then part1 @ part2
      else part1 @ [SEPARATOR] @ part2)"

section \<open>The header of a line table\<close>

datatype line_content_type = Content_PATH | Content_DIRECTORY_INDEX | Content_other u64

definition line_content_type_of :: "u64 \<Rightarrow> line_content_type" where
  "line_content_type_of v =
     (if v = 0x01 then Content_PATH else if v = 0x02 then Content_DIRECTORY_INDEX else Content_other v)"

record entry_format =
  ef_type :: line_content_type
  ef_form :: form

fun entry_formats_loop ::
  "memory \<Rightarrow> nat \<Rightarrow> byte_reader \<Rightarrow> entry_format list \<Rightarrow> (entry_format list \<times> byte_reader) outcome" where
  "entry_formats_loop m 0 debug_line entry_formats = Inr (entry_formats, debug_line)"
| "entry_formats_loop m (Suc n) debug_line entry_formats =
     (let ((line_content_type_value, line_content_type_ok), debug_line) = read_uleb128 m debug_line;
          ((form_value, form_ok), debug_line) = read_uleb128 m debug_line
      in kstd_assert line_content_type_ok []
        (kstd_assert form_ok []
          (entry_formats_loop m n debug_line (entry_formats @
             [\<lparr> ef_type = line_content_type_of line_content_type_value, ef_form = form_of form_value \<rparr>]))))"

definition parse_entry_formats :: "memory \<Rightarrow> byte_reader \<Rightarrow> (entry_format list \<times> byte_reader) outcome" where
  "parse_entry_formats m debug_line =
     obind (asserted [] (read_u8 m debug_line)) (\<lambda>(entry_format_count, debug_line).
       entry_formats_loop m (unat entry_format_count) debug_line [])"

text \<open>The locals of one entry: \<open>path\<close>, \<open>has_path\<close> and \<open>directory_index\<close>, which starts at \<open>-1\<close>.\<close>

fun path_entry ::
  "memory \<Rightarrow> u8 \<Rightarrow> sections \<Rightarrow> entry_format list \<Rightarrow> byte_reader \<Rightarrow> u8 list \<times> bool \<times> int \<Rightarrow>
   ((u8 list \<times> bool \<times> int) \<times> byte_reader) outcome" where
  "path_entry m address_size sections [] debug_line locals = Inr (locals, debug_line)"
| "path_entry m address_size sections (ef # efs) debug_line (path, has_path, directory_index) =
     obind (read_attribute_value m debug_line (ef_form ef) address_size 0 sections) (\<lambda>(v, debug_line).
     case ef_type ef of
       Content_PATH \<Rightarrow>
         kstd_assert (\<not> has_path) []
           (obind (string_value v) (\<lambda>s.
              path_entry m address_size sections efs debug_line (s, True, directory_index)))
     | Content_DIRECTORY_INDEX \<Rightarrow>
         obind (unsigned_value v) (\<lambda>w.
           kstd_assert (w \<le> 0xffffffff) []
             (path_entry m address_size sections efs debug_line (path, has_path, sint w)))
     | Content_other _ \<Rightarrow>
         path_entry m address_size sections efs debug_line (path, has_path, directory_index))"

fun paths_loop ::
  "memory \<Rightarrow> u8 \<Rightarrow> sections \<Rightarrow> entry_format list \<Rightarrow> nat \<Rightarrow> byte_reader \<Rightarrow> u8 list list \<Rightarrow> u32 list \<Rightarrow>
   ((u8 list list \<times> u32 list) \<times> byte_reader) outcome" where
  "paths_loop m address_size sections efs 0 debug_line paths indices = Inr ((paths, indices), debug_line)"
| "paths_loop m address_size sections efs (Suc n) debug_line paths indices =
     obind (path_entry m address_size sections efs debug_line ([], False, -1))
       (\<lambda>((path, has_path, directory_index), debug_line).
          kstd_assert has_path []
            (paths_loop m address_size sections efs n debug_line (paths @ [path])
              (if directory_index \<noteq> -1 then indices @ [word_of_int directory_index] else indices)))"

definition parse_directories_or_file_names ::
  "memory \<Rightarrow> byte_reader \<Rightarrow> u8 \<Rightarrow> entry_format list \<Rightarrow> sections \<Rightarrow>
   ((u8 list list \<times> u32 list) \<times> byte_reader) outcome" where
  "parse_directories_or_file_names m debug_line address_size entry_formats sections =
     obind (asserted [] (read_uleb128 m debug_line)) (\<lambda>(count, debug_line).
       paths_loop m address_size sections entry_formats (unat count) debug_line [] [])"

record debug_line_header =
  dl_unit_length :: u64
  dl_version :: u16
  dl_address_size :: u8
  dl_segment_selector_size :: u8
  dl_header_length :: u64
  dl_minimum_instruction_length :: u8
  dl_maximum_operations_per_instruction :: u8
  dl_default_is_stmt :: bool
  dl_line_base :: int
  dl_line_range :: u8
  dl_opcode_base :: u8
  dl_standard_opcode_lengths :: view
  dl_directory_entry_formats :: "entry_format list"
  dl_directories :: "u8 list list"
  dl_file_name_entry_formats :: "entry_format list"
  dl_file_names :: "u8 list list"

text \<open>\<open>operator[]\<close> of an array of a \<open>u32\<close> index.\<close>

definition array_get :: "'a list \<Rightarrow> nat \<Rightarrow> 'a outcome" where
  "array_get xs i = kstd_assert (i < List.length xs) ''index out of bounds'' (Inr (xs ! i))"

text \<open>The loop that prefixes the file names with their directories.\<close>

fun join_file_names ::
  "u8 list list \<Rightarrow> u32 list \<Rightarrow> nat \<Rightarrow> u8 list list \<Rightarrow> u8 list list outcome" where
  "join_file_names directories indices i [] = Inr []"
| "join_file_names directories indices i (f # fs) =
     obind (array_get indices i) (\<lambda>directory_index.
     obind (if f = [] \<or> hd f = SEPARATOR then Inr f
            else obind (array_get directories (unat directory_index)) (\<lambda>d. Inr (path_join d f))) (\<lambda>f.
     obind (join_file_names directories indices (i + 1) fs) (\<lambda>fs. Inr (f # fs))))"

definition parse_debug_line_header ::
  "memory \<Rightarrow> byte_reader \<Rightarrow> sections \<Rightarrow> (debug_line_header \<times> byte_reader) outcome" where
  "parse_debug_line_header m debug_line sections =
     (let ((unit_length, unit_length_ok), debug_line) = read_u32 m debug_line;
          ((version, version_ok), debug_line) = read_u16 m debug_line;
          ((address_size, address_size_ok), debug_line) = read_u8 m debug_line;
          ((segment_selector_size, segment_selector_size_ok), debug_line) = read_u8 m debug_line;
          ((header_length, header_length_ok), debug_line) = read_u32 m debug_line;
          ((minimum_instruction_length, minimum_ok), debug_line) = read_u8 m debug_line;
          ((maximum_operations, maximum_ok), debug_line) = read_u8 m debug_line;
          ((default_is_stmt, default_is_stmt_ok), debug_line) = read_bool m debug_line;
          ((line_base, line_base_ok), debug_line) = read_s8 m debug_line;
          ((line_range, line_range_ok), debug_line) = read_u8 m debug_line;
          ((opcode_base, opcode_base_ok), debug_line) = read_u8 m debug_line
      in kstd_assert unit_length_ok []
        (kstd_assert version_ok []
        (kstd_assert (version = DWARF_VERSION) []
        (kstd_assert address_size_ok []
        (kstd_assert segment_selector_size_ok []
        (kstd_assert header_length_ok []
        (kstd_assert minimum_ok []
        (kstd_assert maximum_ok []
        (kstd_assert default_is_stmt_ok []
        (kstd_assert line_base_ok []
        (kstd_assert line_range_ok []
        (kstd_assert opcode_base_ok []
        (obind (asserted [] (read_bytes m debug_line (uint opcode_base - 1))) (\<lambda>(lengths, debug_line).
         obind (parse_entry_formats m debug_line) (\<lambda>(directory_entry_formats, debug_line).
         obind (parse_directories_or_file_names m debug_line address_size directory_entry_formats sections)
           (\<lambda>((directories, _), debug_line).
         obind (parse_entry_formats m debug_line) (\<lambda>(file_name_entry_formats, debug_line).
         obind (parse_directories_or_file_names m debug_line address_size file_name_entry_formats sections)
           (\<lambda>((file_names, file_directory_indices), debug_line).
         obind (join_file_names directories file_directory_indices 0 file_names) (\<lambda>file_names.
           Inr (\<lparr> dl_unit_length = ucast unit_length, dl_version = version,
                  dl_address_size = address_size,
                  dl_segment_selector_size = segment_selector_size,
                  dl_header_length = ucast header_length,
                  dl_minimum_instruction_length = minimum_instruction_length,
                  dl_maximum_operations_per_instruction = maximum_operations,
                  dl_default_is_stmt = default_is_stmt,
                  dl_line_base = line_base, dl_line_range = line_range,
                  dl_opcode_base = opcode_base, dl_standard_opcode_lengths = lengths,
                  dl_directory_entry_formats = directory_entry_formats,
                  dl_directories = directories,
                  dl_file_name_entry_formats = file_name_entry_formats,
                  dl_file_names = file_names \<rparr>, debug_line))))))))))))))))))))"

section \<open>The line-number program\<close>

datatype standard_opcode =
    LNS_COPY | LNS_ADVANCE_PC | LNS_ADVANCE_LINE | LNS_SET_FILE | LNS_SET_COLUMN | LNS_NEGATE_STMT
  | LNS_SET_BASIC_BLOCK | LNS_CONST_ADD_PC | LNS_FIXED_ADVANCE_PC | LNS_SET_PROLOGUE_END
  | LNS_SET_EPILOGUE_BEGIN | LNS_SET_ISA | LNS_other u8

definition standard_opcode_of :: "u8 \<Rightarrow> standard_opcode" where
  "standard_opcode_of v =
     (case map_of
        [(0x01, LNS_COPY), (0x02, LNS_ADVANCE_PC), (0x03, LNS_ADVANCE_LINE), (0x04, LNS_SET_FILE),
         (0x05, LNS_SET_COLUMN), (0x06, LNS_NEGATE_STMT), (0x07, LNS_SET_BASIC_BLOCK),
         (0x08, LNS_CONST_ADD_PC), (0x09, LNS_FIXED_ADVANCE_PC), (0x0a, LNS_SET_PROLOGUE_END),
         (0x0b, LNS_SET_EPILOGUE_BEGIN), (0x0c, LNS_SET_ISA)] v of
        Some opcode \<Rightarrow> opcode | None \<Rightarrow> LNS_other v)"

definition EXTENDED_OPCODE_MARKER :: u8 where "EXTENDED_OPCODE_MARKER = 0"

datatype extended_opcode = LNE_END_SEQUENCE | LNE_SET_ADDRESS | LNE_other u8

definition extended_opcode_of :: "u8 \<Rightarrow> extended_opcode" where
  "extended_opcode_of v =
     (if v = 0x01 then LNE_END_SEQUENCE else if v = 0x02 then LNE_SET_ADDRESS else LNE_other v)"

text \<open>\<open>line\<close> is an \<open>s32\<close>: the word, read by \<open>sint\<close>.\<close>

record source_row =
  row_address :: u64
  row_file_name :: "u8 list"
  row_line :: u32
  row_is_end_of_sequence :: bool

record debug_line_state =
  ls_address :: u64
  ls_op_index :: u64
  ls_file_index :: u32
  ls_line :: u32
  ls_column :: u32
  ls_is_stmt :: bool
  ls_basic_block :: bool
  ls_end_sequence :: bool
  ls_prologue_end :: bool
  ls_epilogue_begin :: bool
  ls_isa :: u32
  ls_discriminator :: u32

definition debug_line_state_init :: "bool \<Rightarrow> debug_line_state" where
  "debug_line_state_init default_is_stmt = \<lparr> ls_address = 0, ls_op_index = 0, ls_file_index = 1,
     ls_line = 1, ls_column = 0, ls_is_stmt = default_is_stmt, ls_basic_block = False,
     ls_end_sequence = False, ls_prologue_end = False, ls_epilogue_begin = False, ls_isa = 0,
     ls_discriminator = 0 \<rparr>"

text \<open>
  \<^verbatim>\<open>rows.push_back({ state.address, header.file_names[state.file_index], state.line, ... })\<close>.
\<close>

definition push_row ::
  "debug_line_header \<Rightarrow> debug_line_state \<Rightarrow> bool \<Rightarrow> source_row list \<Rightarrow> source_row list outcome" where
  "push_row header st is_end rows =
     obind (array_get (dl_file_names header) (unat (ls_file_index st))) (\<lambda>file_name.
       Inr (rows @ [\<lparr> row_address = ls_address st, row_file_name = file_name,
                      row_line = ls_line st, row_is_end_of_sequence = is_end \<rparr>]))"

text \<open>A division by zero raises the processor's divide error, which the kernel does not survive.\<close>

definition divide_guard :: "u8 \<Rightarrow> 'a outcome \<Rightarrow> 'a outcome" where
  "divide_guard divisor rest = kstd_assert (divisor \<noteq> 0) ''divide error'' rest"

type_synonym line_machine = "byte_reader \<times> debug_line_state \<times> source_row list"

text \<open>
  The extended opcodes. The payload left over is \<open>length - 1\<close> (less the address for
  \<open>SET_ADDRESS\<close>), computed without sign and passed to \<open>skip\<close> as an \<open>ssize\<close>.
\<close>

definition extended_step ::
  "memory \<Rightarrow> debug_line_header \<Rightarrow> byte_reader \<Rightarrow> debug_line_state \<Rightarrow> source_row list \<Rightarrow> line_machine outcome"
  where
  "extended_step m header debug_line st rows =
     (let ((size, length_ok), debug_line) = read_uleb128 m debug_line;
          ((extended_opcode, extended_opcode_ok), debug_line) = read_u8 m debug_line
      in kstd_assert length_ok []
        (kstd_assert extended_opcode_ok []
          (case extended_opcode_of extended_opcode of
             LNE_END_SEQUENCE \<Rightarrow>
               kstd_assert (size = 1) []
                 (let st = st\<lparr> ls_end_sequence := True \<rparr>
                  in obind (push_row header st (ls_end_sequence st) rows) (\<lambda>rows.
                       Inr (debug_line, debug_line_state_init (dl_default_is_stmt header), rows)))
           | LNE_SET_ADDRESS \<Rightarrow>
               obind (if dl_address_size header = 4
                      then obind (asserted [] (read_u32 m debug_line)) (\<lambda>(a, r). Inr (ucast a, r))
                      else if dl_address_size header = 8
                      then asserted [] (read_u64 m debug_line)
                      else Inl ''unreachable'') (\<lambda>(new_address, debug_line).
               obind (skip_asserted [] debug_line (sint (size - ucast (dl_address_size header) - 1)))
                 (\<lambda>debug_line.
                    Inr (debug_line, st\<lparr> ls_address := new_address, ls_op_index := 0 \<rparr>, rows)))
           | LNE_other _ \<Rightarrow>
               obind (skip_asserted [] debug_line (sint (size - 1))) (\<lambda>debug_line.
                 Inr (debug_line, st, rows)))))"

fun skip_operands :: "memory \<Rightarrow> nat \<Rightarrow> byte_reader \<Rightarrow> byte_reader outcome" where
  "skip_operands m 0 debug_line = Inr debug_line"
| "skip_operands m (Suc n) debug_line =
     obind (asserted [] (read_uleb128 m debug_line)) (\<lambda>(_, debug_line). skip_operands m n debug_line)"

definition standard_step ::
  "memory \<Rightarrow> debug_line_header \<Rightarrow> u8 \<Rightarrow> byte_reader \<Rightarrow> debug_line_state \<Rightarrow> source_row list \<Rightarrow>
   line_machine outcome" where
  "standard_step m header opcode debug_line st rows =
     (case standard_opcode_of opcode of
        LNS_COPY \<Rightarrow>
          (let st = st\<lparr> ls_basic_block := False, ls_prologue_end := False,
                        ls_epilogue_begin := False, ls_discriminator := 0 \<rparr>
           in obind (push_row header st False rows) (\<lambda>rows. Inr (debug_line, st, rows)))
      | LNS_ADVANCE_PC \<Rightarrow>
          obind (asserted [] (read_uleb128 m debug_line)) (\<lambda>(op_advance, debug_line).
          divide_guard (dl_maximum_operations_per_instruction header)
            (let maximum = ucast (dl_maximum_operations_per_instruction header)
             in Inr (debug_line,
                  st\<lparr> ls_address := ls_address st + ucast (dl_minimum_instruction_length header) *
                        ((ls_op_index st + op_advance) div maximum),
                      ls_op_index := (ls_op_index st + op_advance) mod maximum \<rparr>, rows)))
      | LNS_ADVANCE_LINE \<Rightarrow>
          obind (asserted [] (read_sleb128 m debug_line)) (\<lambda>(line_advance, debug_line).
            Inr (debug_line, st\<lparr> ls_line := ls_line st + word_of_int line_advance \<rparr>, rows))
      | LNS_SET_FILE \<Rightarrow>
          obind (asserted [] (read_uleb128 m debug_line)) (\<lambda>(new_file_index, debug_line).
            Inr (debug_line, st\<lparr> ls_file_index := ucast new_file_index \<rparr>, rows))
      | LNS_SET_COLUMN \<Rightarrow>
          obind (asserted [] (read_uleb128 m debug_line)) (\<lambda>(new_column, debug_line).
            Inr (debug_line, st\<lparr> ls_column := ucast new_column \<rparr>, rows))
      | LNS_NEGATE_STMT \<Rightarrow> Inr (debug_line, st\<lparr> ls_is_stmt := \<not> ls_is_stmt st \<rparr>, rows)
      | LNS_SET_BASIC_BLOCK \<Rightarrow> Inr (debug_line, st\<lparr> ls_basic_block := True \<rparr>, rows)
      | LNS_CONST_ADD_PC \<Rightarrow>
          divide_guard (dl_line_range header)
            (let adjusted_opcode = 255 - uint (dl_opcode_base header);
                 op_advance = adjusted_opcode div uint (dl_line_range header)
             in Inr (debug_line,
                  st\<lparr> ls_address := ls_address st +
                        word_of_int (op_advance * uint (dl_minimum_instruction_length header)) \<rparr>, rows))
      | LNS_FIXED_ADVANCE_PC \<Rightarrow>
          obind (asserted [] (read_u16 m debug_line)) (\<lambda>(op_advance, debug_line).
            Inr (debug_line,
              st\<lparr> ls_address := ls_address st + ucast op_advance, ls_op_index := 0 \<rparr>, rows))
      | LNS_SET_PROLOGUE_END \<Rightarrow> Inr (debug_line, st\<lparr> ls_prologue_end := True \<rparr>, rows)
      | LNS_SET_EPILOGUE_BEGIN \<Rightarrow> Inr (debug_line, st\<lparr> ls_epilogue_begin := True \<rparr>, rows)
      | LNS_SET_ISA \<Rightarrow>
          obind (asserted [] (read_uleb128 m debug_line)) (\<lambda>(new_isa, debug_line).
            Inr (debug_line, st\<lparr> ls_isa := ucast new_isa \<rparr>, rows))
      | LNS_other _ \<Rightarrow>
          kstd_assert (uint opcode - 1 < view_size (dl_standard_opcode_lengths header)) ''index out of bounds''
            (let operand_count = m (view_data (dl_standard_opcode_lengths header) + (ucast opcode - 1))
             in obind (skip_operands m (unat operand_count) debug_line) (\<lambda>debug_line.
                  Inr (debug_line, st, rows))))"

definition special_step ::
  "debug_line_header \<Rightarrow> u8 \<Rightarrow> byte_reader \<Rightarrow> debug_line_state \<Rightarrow> source_row list \<Rightarrow> line_machine outcome"
  where
  "special_step header opcode debug_line st rows =
     divide_guard (dl_line_range header)
       (let adjusted_opcode = uint opcode - uint (dl_opcode_base header);
            op_advance = adjusted_opcode div uint (dl_line_range header);
            line_advance = dl_line_base header + adjusted_opcode mod uint (dl_line_range header);
            st = st\<lparr> ls_address := ls_address st +
                       word_of_int (op_advance * uint (dl_minimum_instruction_length header)),
                     ls_line := ls_line st + word_of_int line_advance \<rparr>
        in divide_guard (dl_maximum_operations_per_instruction header)
          (let st = st\<lparr> ls_op_index := (ls_op_index st + word_of_int op_advance) mod
                         ucast (dl_maximum_operations_per_instruction header) \<rparr>
           in obind (push_row header st False rows) (\<lambda>rows. Inr (debug_line, st, rows))))"

definition line_step ::
  "memory \<Rightarrow> debug_line_header \<Rightarrow> byte_reader \<Rightarrow> debug_line_state \<Rightarrow> source_row list \<Rightarrow> line_machine outcome"
  where
  "line_step m header debug_line st rows =
     obind (asserted [] (read_u8 m debug_line)) (\<lambda>(opcode, debug_line).
       if opcode = EXTENDED_OPCODE_MARKER then extended_step m header debug_line st rows
       else if opcode < dl_opcode_base header then standard_step m header opcode debug_line st rows
       else special_step header opcode debug_line st rows)"

text \<open>The cursor and the end of the unit are compared as unsigned numbers.\<close>

partial_function (option) line_loop ::
  "memory \<Rightarrow> debug_line_header \<Rightarrow> u64 \<Rightarrow> byte_reader \<Rightarrow> debug_line_state \<Rightarrow> source_row list \<Rightarrow>
   (byte_reader \<times> source_row list) run" where
  "line_loop m header unit_end debug_line st rows =
     (if word_of_int (br_offset debug_line) < unit_end
      then rbind (Some (line_step m header debug_line st rows))
             (\<lambda>(debug_line, st, rows). line_loop m header unit_end debug_line st rows)
      else Some (Inr (debug_line, rows)))"

definition parse_line_table :: "memory \<Rightarrow> sections \<Rightarrow> u32 \<Rightarrow> source_row list run" where
  "parse_line_table m sections debug_line_offset =
     (let debug_line = byte_reader_of_view (debug_line_bytes sections)
      in rbind (Some (normalize_section_offset (debug_line_bytes sections) debug_line_offset))
           (\<lambda>normalized_offset.
         rbind (Some (skip_asserted [] debug_line normalized_offset)) (\<lambda>debug_line.
         let unit_start = br_offset debug_line
         in rbind (Some (parse_debug_line_header m debug_line sections)) (\<lambda>(header, debug_line).
            let payload_start = unit_start + 4
            in run_assert (payload_start \<le> br_size debug_line) []
              (run_assert (dl_unit_length header \<le> word_of_int (br_size debug_line - payload_start)) []
                (let unit_end = word_of_int payload_start + dl_unit_length header
                 in rbind (line_loop m header unit_end debug_line
                            (debug_line_state_init (dl_default_is_stmt header)) [])
                      (\<lambda>(debug_line, rows).
                         run_assert (word_of_int (br_offset debug_line) = unit_end) []
                           (Some (Inr rows)))))))))"

section \<open>Looking up an address\<close>

record source_lookup =
  lk_result :: source_row
  lk_found :: bool
  lk_sequence_result :: source_row
  lk_sequence_found :: bool
  lk_in_sequence :: bool

definition blank_row :: source_row where
  "blank_row = \<lparr> row_address = 0, row_file_name = [], row_line = 0, row_is_end_of_sequence = False \<rparr>"

definition lookup_row :: "u64 \<Rightarrow> source_row \<Rightarrow> source_lookup \<Rightarrow> source_lookup" where
  "lookup_row address row lk =
     (if row_is_end_of_sequence row then
        (let lk = (if lk_in_sequence lk \<and> lk_sequence_found lk \<and> address < row_address row
                   then lk\<lparr> lk_result := lk_sequence_result lk, lk_found := True \<rparr> else lk)
         in lk\<lparr> lk_in_sequence := False, lk_sequence_found := False \<rparr>)
      else
        (let lk = (if \<not> lk_in_sequence lk
                   then lk\<lparr> lk_in_sequence := True, lk_sequence_found := False \<rparr> else lk)
         in if row_address row \<le> address \<and>
               (\<not> lk_sequence_found lk \<or> row_address (lk_sequence_result lk) < row_address row)
            then lk\<lparr> lk_sequence_result := row, lk_sequence_found := True \<rparr> else lk))"

definition source_for_address :: "source_row list \<Rightarrow> u64 \<Rightarrow> source_row \<times> bool" where
  "source_for_address rows address =
     (let lk = fold (lookup_row address) rows
                 \<lparr> lk_result = blank_row, lk_found = False, lk_sequence_result = blank_row,
                   lk_sequence_found = False, lk_in_sequence = False \<rparr>
      in if lk_in_sequence lk \<and> lk_sequence_found lk then (lk_sequence_result lk, True)
         else (lk_result lk, lk_found lk))"

section \<open>Stack traces\<close>

record trace =
  tr_function_address :: u64
  tr_function_name :: "u8 list"
  tr_file_name :: "u8 list"
  tr_line_number :: u32

definition SKIP_FRAME_COUNT :: nat where "SKIP_FRAME_COUNT = 3"
definition DEFAULT_FRAME_COUNT :: nat where "DEFAULT_FRAME_COUNT = 10"

text \<open>
  The loop over the frames: \<open>left\<close> is \<open>max_frame_count - frame_index\<close>. A \<^verbatim>\<open>Stack_Frame\<close> is the
  saved frame pointer followed by the return address.
\<close>

fun stack_trace_loop ::
  "memory \<Rightarrow> subprogram_info list \<Rightarrow> source_row list \<Rightarrow> nat \<Rightarrow> nat \<Rightarrow> nat \<Rightarrow> u64 \<Rightarrow> trace list \<Rightarrow> trace list"
  where
  "stack_trace_loop m infos rows skip_frame_count 0 frame_index frame traces = traces"
| "stack_trace_loop m infos rows skip_frame_count (Suc left) frame_index frame traces =
     (if frame = 0 then traces
      else
        let rip = load64 m (frame + 8)
        in if rip = 0 then traces
           else stack_trace_loop m infos rows skip_frame_count left (frame_index + 1) (load64 m frame)
             (if skip_frame_count \<le> frame_index
              then let row = fst (source_for_address rows rip)
                   in traces @ [\<lparr> tr_function_address = rip,
                        tr_function_name = function_name_for_address infos rip,
                        tr_file_name = row_file_name row, tr_line_number = row_line row \<rparr>]
              else traces))"

definition get_stack_trace_from ::
  "memory \<Rightarrow> subprogram_info list \<Rightarrow> source_row list \<Rightarrow> u64 \<Rightarrow> u32 \<Rightarrow> u32 \<Rightarrow> trace list" where
  "get_stack_trace_from m infos rows start_frame max_frame_count skip_frame_count =
     stack_trace_loop m infos rows (unat skip_frame_count) (unat max_frame_count) 0 start_frame []"

end
