(* ===== verification/Dwarf_Rows.thy ===== *)
theory Dwarf_Rows
  imports Dwarf_Line
begin

text \<open>
  The line table against the DWARF standard: the rows of a line-number program, the lookup of
  an address in them, and the stack traces built on it.
\<close>

unbundle bit_operations_syntax

section \<open>The lookup by sequences\<close>

text \<open>
  A row array is a list of sequences, each ended by an end-of-sequence row whose address is the
  first one behind it; the last may lack its end. The nearest row of an address in a sequence
  is the first of those with the greatest address not above it.
\<close>

fun row_sequences :: "source_row list \<Rightarrow> (source_row list \<times> u64 option) list" where
  "row_sequences [] = [([], None)]"
| "row_sequences (row # rows) =
     (if row_is_end_of_sequence row then ([], Some (row_address row)) # row_sequences rows
      else case row_sequences rows of
             [] \<Rightarrow> []
           | (s, e) # rest \<Rightarrow> (row # s, e) # rest)"

fun nearest_row :: "u64 \<Rightarrow> source_row list \<Rightarrow> source_row option" where
  "nearest_row a [] = None"
| "nearest_row a (row # rows) =
     (if row_address row \<le> a
      then case nearest_row a rows of
             None \<Rightarrow> Some row
           | Some r \<Rightarrow> Some (if row_address r \<le> row_address row then row else r)
      else nearest_row a rows)"

definition covering_row :: "u64 \<Rightarrow> source_row list \<times> u64 option \<Rightarrow> source_row option" where
  "covering_row a s =
     (case snd s of
        None \<Rightarrow> nearest_row a (fst s)
      | Some end_address \<Rightarrow> if a < end_address then nearest_row a (fst s) else None)"

definition covering_rows :: "source_row list \<Rightarrow> u64 \<Rightarrow> source_row list" where
  "covering_rows rows a = List.map_filter (covering_row a) (row_sequences rows)"

lemma nearest_row_None: "nearest_row a rows = None \<longleftrightarrow> (\<forall>r \<in> set rows. a < row_address r)"
  by (induction rows) (auto split: option.splits simp: not_le)

lemma nearest_row_Some:
  "nearest_row a rows = Some row \<Longrightarrow> row \<in> set rows \<and> row_address row \<le> a
     \<and> (\<forall>r \<in> set rows. row_address r \<le> a \<longrightarrow> row_address r \<le> row_address row)"
proof (induction rows arbitrary: row)
  case (Cons q rows)
  show ?case
  proof (cases "nearest_row a rows")
    case None
    then show ?thesis using Cons.prems nearest_row_None [of a rows] by (auto split: if_splits)
  next
    case (Some r)
    then show ?thesis using Cons.prems Cons.IH [OF Some] by (auto split: if_splits intro: order_trans)
  qed
qed simp

lemma nearest_row_snoc:
  "nearest_row a (rows @ [row]) =
     (if row_address row \<le> a \<and> (case nearest_row a rows of None \<Rightarrow> True | Some q \<Rightarrow> row_address q < row_address row)
      then Some row else nearest_row a rows)"
  by (induction rows) (auto split: option.splits if_splits)

definition lookup_rep :: "u64 \<Rightarrow> source_row list \<Rightarrow> source_row option \<Rightarrow> source_lookup \<Rightarrow> bool" where
  "lookup_rep a s res lk \<longleftrightarrow>
     (lk_in_sequence lk \<longleftrightarrow> s \<noteq> []) \<and>
     (lk_in_sequence lk \<longrightarrow> (lk_sequence_found lk \<longleftrightarrow> nearest_row a s \<noteq> None) \<and>
        (\<forall>r. nearest_row a s = Some r \<longrightarrow> lk_sequence_result lk = r)) \<and>
     (lk_found lk \<longleftrightarrow> res \<noteq> None) \<and> lk_result lk = (case res of None \<Rightarrow> blank_row | Some r \<Rightarrow> r)"

lemma lookup_row_rep:
  assumes "lookup_rep a s res lk"
  shows "row_is_end_of_sequence row \<Longrightarrow>
      lookup_rep a [] (case covering_row a (s, Some (row_address row)) of None \<Rightarrow> res | Some r \<Rightarrow> Some r)
        (lookup_row a row lk)"
    and "\<not> row_is_end_of_sequence row \<Longrightarrow> lookup_rep a (s @ [row]) res (lookup_row a row lk)"
proof -
  show "lookup_rep a [] (case covering_row a (s, Some (row_address row)) of None \<Rightarrow> res | Some r \<Rightarrow> Some r)
      (lookup_row a row lk)" if "row_is_end_of_sequence row"
    using that assms
    by (cases "nearest_row a s"; cases "s = []")
      (auto simp: lookup_rep_def lookup_row_def covering_row_def)
  show "lookup_rep a (s @ [row]) res (lookup_row a row lk)" if "\<not> row_is_end_of_sequence row"
    using that assms
    by (cases "nearest_row a s"; cases "s = []")
      (auto simp: lookup_rep_def lookup_row_def nearest_row_snoc)
qed

lemma row_sequences_nonempty: "row_sequences rows \<noteq> []"
  by (induction rows) (auto split: list.split)

text \<open>The rest of the rows, with the rows of the open sequence in front.\<close>

fun prefixed :: "'a list \<Rightarrow> ('a list \<times> 'b) list \<Rightarrow> ('a list \<times> 'b) list" where
  "prefixed s [] = []"
| "prefixed s ((t, e) # rest) = (s @ t, e) # rest"

lemma fold_lookup:
  assumes "lookup_rep a s res lk"
  shows "\<exists>lk'. fold (lookup_row a) rows lk = lk' \<and>
    (if lk_in_sequence lk' \<and> lk_sequence_found lk' then (lk_sequence_result lk', True)
     else (lk_result lk', lk_found lk')) =
    (case rev (List.map_filter (covering_row a) (prefixed s (row_sequences rows))) of
       r # _ \<Rightarrow> (r, True)
     | [] \<Rightarrow> (case res of None \<Rightarrow> (blank_row, False) | Some r \<Rightarrow> (r, True)))"
  using assms
proof (induction rows arbitrary: s res lk)
  case Nil
  then show ?case
    by (cases "nearest_row a s"; cases "s = []"; cases res)
      (auto simp: lookup_rep_def covering_row_def List.map_filter_simps)
next
  case (Cons row rows)
  obtain t e rest where seq: "row_sequences rows = (t, e) # rest"
    using row_sequences_nonempty [of rows] by (metis list.exhaust surj_pair)
  show ?case
  proof (cases "row_is_end_of_sequence row")
    case True
    show ?thesis
      using Cons.IH [OF lookup_row_rep(1) [OF Cons.prems True]] True
      by (cases "covering_row a (s, Some (row_address row))")
        (auto simp: seq List.map_filter_simps split: list.splits)
  next
    case False
    show ?thesis using Cons.IH [OF lookup_row_rep(2) [OF Cons.prems False]] False by (simp add: seq)
  qed
qed

lemma source_for_address_sequences:
  "source_for_address rows a =
     (case rev (covering_rows rows a) of r # _ \<Rightarrow> (r, True) | [] \<Rightarrow> (blank_row, False))"
proof -
  have "prefixed [] ss = ss" for ss :: "(source_row list \<times> u64 option) list"
    by (cases ss) auto
  then show ?thesis
    using fold_lookup [of a "[]" None "\<lparr> lk_result = blank_row, lk_found = False,
        lk_sequence_result = blank_row, lk_sequence_found = False, lk_in_sequence = False \<rparr>" rows]
    by (simp add: lookup_rep_def source_for_address_def Let_def covering_rows_def cong: list.case_cong)
qed

section \<open>Stack traces\<close>

definition trace_of :: "memory \<Rightarrow> subprogram_info list \<Rightarrow> source_row list \<Rightarrow> u64 \<Rightarrow> trace" where
  "trace_of m infos rows frame =
     (let rip = load64 m (frame + 8); row = fst (source_for_address rows rip)
      in \<lparr> tr_function_address = rip, tr_function_name = function_name_for_address infos rip,
           tr_file_name = row_file_name row, tr_line_number = row_line row \<rparr>)"

text \<open>The frames of the chain that starts at a frame, up to a count.\<close>

definition frame_chain :: "memory \<Rightarrow> u64 \<Rightarrow> nat \<Rightarrow> u64 list" where
  "frame_chain m start count =
     takeWhile (\<lambda>f. f \<noteq> 0 \<and> load64 m (f + 8) \<noteq> 0) (map (\<lambda>i. (load64 m ^^ i) start) [0..<count])"

lemma frame_chain_Suc:
  "frame_chain m start (Suc n) =
     (if start \<noteq> 0 \<and> load64 m (start + 8) \<noteq> 0 then start # frame_chain m (load64 m start) n else [])"
proof -
  have "map (\<lambda>i. (load64 m ^^ i) start) [0..<Suc n] = start # map (\<lambda>i. (load64 m ^^ i) (load64 m start)) [0..<n]"
    by (simp add: map_upt_Suc funpow_swap1 del: upt_Suc)
  then show ?thesis by (simp add: frame_chain_def del: upt_Suc)
qed

lemma stack_trace_loop_frames:
  "stack_trace_loop m infos rows skip_count left i frame traces =
     traces @ map (trace_of m infos rows) (drop (skip_count - i) (frame_chain m frame left))"
proof (induction left arbitrary: i frame traces)
  case 0
  show ?case by (simp add: frame_chain_def)
next
  case (Suc n)
  show ?case
  proof (cases "skip_count \<le> i")
    case True
    then show ?thesis by (simp add: Suc.IH frame_chain_Suc trace_of_def Let_def)
  next
    case False
    then have "skip_count - i = Suc (skip_count - (i + 1))" by simp
    with False show ?thesis by (simp add: Suc.IH frame_chain_Suc Let_def)
  qed
qed

section \<open>The line-number program\<close>

text \<open>
  Instructions, their encoding and their meaning by the DWARF standard (section 6.2), whose
  operation advance moves the address by the minimum instruction length times the quotient of
  \<open>op_index + advance\<close> by the operations per instruction.
\<close>

datatype line_instruction =
    Special u8
  | Copy
  | Advance_Pc u64
  | Advance_Line int
  | Set_File u64
  | Set_Column u64
  | Negate_Stmt
  | Set_Basic_Block
  | Const_Add_Pc
  | Fixed_Advance_Pc u16
  | Set_Prologue_End
  | Set_Epilogue_Begin
  | Set_Isa u64
  | Unknown_Standard u8 "u64 list"
  | End_Sequence
  | Set_Address u64
  | Unknown_Extended u8 "u8 list"

fun encode_instruction :: "debug_line_header \<Rightarrow> line_instruction \<Rightarrow> u8 list" where
  "encode_instruction h (Special opcode) = [opcode]"
| "encode_instruction h Copy = [1]"
| "encode_instruction h (Advance_Pc n) = [2] @ uleb_encode n"
| "encode_instruction h (Advance_Line d) = [3] @ sleb_encode d"
| "encode_instruction h (Set_File n) = [4] @ uleb_encode n"
| "encode_instruction h (Set_Column n) = [5] @ uleb_encode n"
| "encode_instruction h Negate_Stmt = [6]"
| "encode_instruction h Set_Basic_Block = [7]"
| "encode_instruction h Const_Add_Pc = [8]"
| "encode_instruction h (Fixed_Advance_Pc n) = [9] @ le_bytes 2 n"
| "encode_instruction h Set_Prologue_End = [10]"
| "encode_instruction h Set_Epilogue_Begin = [11]"
| "encode_instruction h (Set_Isa n) = [12] @ uleb_encode n"
| "encode_instruction h (Unknown_Standard opcode args) = [opcode] @ concat (map uleb_encode args)"
| "encode_instruction h End_Sequence = [0] @ uleb_encode 1 @ [1]"
| "encode_instruction h (Set_Address a) = [0] @ uleb_encode (ucast (dl_address_size h) + 1) @ [2]
     @ (if dl_address_size h = 8 then le_bytes 8 a else le_bytes 4 a)"
| "encode_instruction h (Unknown_Extended opcode payload) =
     [0] @ uleb_encode (of_nat (List.length payload + 1)) @ [opcode] @ payload"

record line_registers =
  rg_address :: u64
  rg_op_index :: u64
  rg_file :: nat
  rg_line :: u32

definition registers_init :: line_registers where
  "registers_init = \<lparr> rg_address = 0, rg_op_index = 0, rg_file = 1, rg_line = 1 \<rparr>"

definition operation_advance :: "debug_line_header \<Rightarrow> u64 \<Rightarrow> line_registers \<Rightarrow> line_registers" where
  "operation_advance h n g =
     (let maximum = ucast (dl_maximum_operations_per_instruction h)
      in g\<lparr> rg_address := rg_address g + ucast (dl_minimum_instruction_length h) * ((rg_op_index g + n) div maximum),
            rg_op_index := (rg_op_index g + n) mod maximum \<rparr>)"

definition row_of :: "debug_line_header \<Rightarrow> bool \<Rightarrow> line_registers \<Rightarrow> source_row" where
  "row_of h is_end g = \<lparr> row_address = rg_address g, row_file_name = dl_file_names h ! rg_file g,
     row_line = rg_line g, row_is_end_of_sequence = is_end \<rparr>"

definition special_advance :: "debug_line_header \<Rightarrow> u8 \<Rightarrow> u64" where
  "special_advance h opcode =
     word_of_int ((uint opcode - uint (dl_opcode_base h)) div uint (dl_line_range h))"

definition special_line :: "debug_line_header \<Rightarrow> u8 \<Rightarrow> u32" where
  "special_line h opcode =
     word_of_int (dl_line_base h + (uint opcode - uint (dl_opcode_base h)) mod uint (dl_line_range h))"

text \<open>One instruction of the standard: the registers after it and the rows it appends.\<close>

fun standard_meaning ::
  "debug_line_header \<Rightarrow> line_instruction \<Rightarrow> line_registers \<Rightarrow> line_registers \<times> source_row list" where
  "standard_meaning h (Special opcode) g =
     (let g = operation_advance h (special_advance h opcode) g;
          g = g\<lparr> rg_line := rg_line g + special_line h opcode \<rparr>
      in (g, [row_of h False g]))"
| "standard_meaning h Copy g = (g, [row_of h False g])"
| "standard_meaning h (Advance_Pc n) g = (operation_advance h n g, [])"
| "standard_meaning h (Advance_Line d) g = (g\<lparr> rg_line := rg_line g + word_of_int d \<rparr>, [])"
| "standard_meaning h (Set_File n) g = (g\<lparr> rg_file := unat n \<rparr>, [])"
| "standard_meaning h Const_Add_Pc g = (operation_advance h (special_advance h 255) g, [])"
| "standard_meaning h (Fixed_Advance_Pc n) g =
     (g\<lparr> rg_address := rg_address g + ucast n, rg_op_index := 0 \<rparr>, [])"
| "standard_meaning h End_Sequence g = (registers_init, [row_of h True g])"
| "standard_meaning h (Set_Address a) g = (g\<lparr> rg_address := a, rg_op_index := 0 \<rparr>, [])"
| "standard_meaning h _ g = (g, [])"

fun standard_rows :: "debug_line_header \<Rightarrow> line_instruction list \<Rightarrow> line_registers \<Rightarrow> source_row list" where
  "standard_rows h [] g = []"
| "standard_rows h (i # is) g = (let (g, rows) = standard_meaning h i g in rows @ standard_rows h is g)"

text \<open>What a program must satisfy: known opcodes below \<open>opcode_base\<close>, file numbers in the table.\<close>

definition unknown_standard_valid :: "memory \<Rightarrow> debug_line_header \<Rightarrow> u8 \<Rightarrow> u64 list \<Rightarrow> bool" where
  "unknown_standard_valid m h opcode args \<longleftrightarrow>
     12 < opcode \<and> opcode < dl_opcode_base h \<and>
     uint opcode - 1 < view_size (dl_standard_opcode_lengths h) \<and>
     unat (m (view_data (dl_standard_opcode_lengths h) + (ucast opcode - 1))) = List.length args"

fun instruction_valid :: "memory \<Rightarrow> debug_line_header \<Rightarrow> line_instruction \<Rightarrow> bool" where
  "instruction_valid m h (Special opcode) = (opcode \<noteq> 0 \<and> dl_opcode_base h \<le> opcode)"
| "instruction_valid m h (Advance_Line d) = (-(2 ^ 63) \<le> d \<and> d < 2 ^ 63)"
| "instruction_valid m h (Set_File n) = (unat n < List.length (dl_file_names h))"
| "instruction_valid m h (Unknown_Standard opcode args) = unknown_standard_valid m h opcode args"
| "instruction_valid m h (Set_Address a) =
     (dl_address_size h = 8 \<or> dl_address_size h = 4 \<and> unat a < 2 ^ 32)"
| "instruction_valid m h (Unknown_Extended opcode payload) =
     (opcode \<notin> {1, 2} \<and> List.length payload < 2 ^ 62)"
| "instruction_valid m h _ = True"

definition line_header_ok :: "debug_line_header \<Rightarrow> bool" where
  "line_header_ok h \<longleftrightarrow> dl_line_range h \<noteq> 0 \<and> dl_maximum_operations_per_instruction h = 1 \<and>
     12 < dl_opcode_base h \<and> 1 < List.length (dl_file_names h) \<and> List.length (dl_file_names h) \<le> 2 ^ 32"

text \<open>The state of the code stands for registers of the standard.\<close>

definition stands_for :: "debug_line_header \<Rightarrow> debug_line_state \<Rightarrow> line_registers \<Rightarrow> bool" where
  "stands_for h st g \<longleftrightarrow> ls_address st = rg_address g \<and> ls_op_index st = 0 \<and> rg_op_index g = 0 \<and>
     unat (ls_file_index st) = rg_file g \<and> ls_line st = rg_line g \<and> rg_file g < List.length (dl_file_names h)"

lemma standard_opcode_codes [simp]:
  "standard_opcode_of 1 = LNS_COPY" "standard_opcode_of 2 = LNS_ADVANCE_PC"
  "standard_opcode_of 3 = LNS_ADVANCE_LINE" "standard_opcode_of 4 = LNS_SET_FILE"
  "standard_opcode_of 5 = LNS_SET_COLUMN" "standard_opcode_of 6 = LNS_NEGATE_STMT"
  "standard_opcode_of 7 = LNS_SET_BASIC_BLOCK" "standard_opcode_of 8 = LNS_CONST_ADD_PC"
  "standard_opcode_of 9 = LNS_FIXED_ADVANCE_PC" "standard_opcode_of 10 = LNS_SET_PROLOGUE_END"
  "standard_opcode_of 11 = LNS_SET_EPILOGUE_BEGIN" "standard_opcode_of 12 = LNS_SET_ISA"
  by (simp_all add: standard_opcode_of_def)

lemma standard_opcode_other: "12 < v \<Longrightarrow> standard_opcode_of v = LNS_other v"
proof -
  assume "12 < v"
  then have "v \<notin> {1, 2, 3, 4, 5, 6, 7, 8, 9, 10, 11, 12}" by auto
  then show ?thesis by (simp add: standard_opcode_of_def)
qed

lemma push_row_stands:
  "stands_for h st g \<Longrightarrow> push_row h st b rows = Inr (rows @ [row_of h b g])"
  by (simp add: stands_for_def push_row_def array_get_def row_of_def)

text \<open>With one operation per instruction the operation advance is a multiple of the length.\<close>

lemma operation_advance_one:
  "dl_maximum_operations_per_instruction h = 1 \<Longrightarrow> rg_op_index g = 0 \<Longrightarrow>
   operation_advance h n g = g\<lparr> rg_address := rg_address g + ucast (dl_minimum_instruction_length h) * n,
     rg_op_index := 0 \<rparr>"
  by (simp add: operation_advance_def)

lemma special_advance_word:
  "word_of_int ((uint opcode - uint (dl_opcode_base h)) div uint (dl_line_range h)
      * uint (dl_minimum_instruction_length h)) = ucast (dl_minimum_instruction_length h) * special_advance h opcode"
  unfolding special_advance_def ucast_eq [of "dl_minimum_instruction_length h"] of_int_mult
  by (rule mult.commute)

lemma skip_operands_encoded:
  assumes "bytes_at m (cursor r 0) (concat (map uleb_encode args))"
    "int (List.length (concat (map uleb_encode args))) \<le> remaining r"
  shows "skip_operands m (List.length args) r = Inr (advance r (int (List.length (concat (map uleb_encode args)))))"
  using assms
proof (induction args arbitrary: r)
  case Nil
  then show ?case by (simp add: advance_def)
next
  case (Cons w args)
  have enc: "concat (map uleb_encode (w # args)) = uleb_encode w @ concat (map uleb_encode args)" by simp
  note p = encoded_prefix [OF Cons.prems [unfolded enc]]
  show ?case using uleb128_codec.roundtrip [OF _ p(1,2)] Cons.IH [OF p(3,4)] by simp
qed

text \<open>The first byte of an instruction, and the branch it selects.\<close>

lemma read_opcode:
  assumes "bytes_at m (cursor r 0) ([opcode] @ bs)" "int (List.length ([opcode] @ bs)) \<le> remaining r"
  shows "line_step m h r st rows =
    (if opcode = EXTENDED_OPCODE_MARKER then extended_step m h (advance r 1) st rows
     else if opcode < dl_opcode_base h then standard_step m h opcode (advance r 1) st rows
     else special_step h opcode (advance r 1) st rows)"
    "bytes_at m (cursor (advance r 1) 0) bs" "int (List.length bs) \<le> remaining (advance r 1)"
proof -
  note p = encoded_prefix [OF assms]
  show "line_step m h r st rows =
    (if opcode = EXTENDED_OPCODE_MARKER then extended_step m h (advance r 1) st rows
     else if opcode < dl_opcode_base h then standard_step m h opcode (advance r 1) st rows
     else special_step h opcode (advance r 1) st rows)"
    using u8_codec.roundtrip [OF _ p(1,2)] by (simp add: line_step_def)
  show "bytes_at m (cursor (advance r 1) 0) bs" "int (List.length bs) \<le> remaining (advance r 1)"
    using p(3,4) by simp_all
qed

lemma standard_step_correct:
  assumes "line_header_ok h" "stands_for h st g" "instruction_valid m h i"
    "encode_instruction h i = [opcode] @ bs" "opcode \<noteq> 0" "opcode < dl_opcode_base h"
    "\<forall>op. i \<noteq> Special op"
    "bytes_at m (cursor r 0) bs" "int (List.length bs) \<le> remaining r"
  shows "\<exists>st'. standard_step m h opcode r st rows =
      Inr (advance r (int (List.length bs)), st', rows @ snd (standard_meaning h i g))
    \<and> stands_for h st' (fst (standard_meaning h i g))"
proof (cases i)
  case Copy
  then show ?thesis using assms push_row_stands [of h _ g False rows]
    by (auto simp: standard_step_def stands_for_def advance_def Let_def)
next
  case (Advance_Pc n)
  then show ?thesis
    using assms uleb128_codec.roundtrip [of m r n]
    by (auto simp: standard_step_def line_header_ok_def divide_guard_def stands_for_def operation_advance_def)
next
  case (Advance_Line d)
  then show ?thesis
    using assms sleb128_codec.roundtrip [of d m r] by (auto simp: standard_step_def stands_for_def)
next
  case (Set_File n)
  have "unat (ucast n :: u32) = unat n" if "unat n < List.length (dl_file_names h)"
    using that assms(1) by (simp add: line_header_ok_def unsigned_ucast_eq unat_simps take_bit_nat_eq_self)
  with Set_File show ?thesis
    using assms uleb128_codec.roundtrip [of m r n] by (auto simp: standard_step_def stands_for_def)
next
  case (Set_Column n)
  then show ?thesis
    using assms uleb128_codec.roundtrip [of m r n] by (auto simp: standard_step_def stands_for_def)
next
  case Const_Add_Pc
  then show ?thesis using assms
    by (auto simp: standard_step_def line_header_ok_def divide_guard_def stands_for_def
        operation_advance_def advance_def special_advance_def mult.commute)
next
  case (Fixed_Advance_Pc n)
  then show ?thesis
    using assms u16_codec.roundtrip [of m r n] by (auto simp: standard_step_def stands_for_def)
next
  case (Set_Isa n)
  then show ?thesis
    using assms uleb128_codec.roundtrip [of m r n] by (auto simp: standard_step_def stands_for_def)
next
  case (Unknown_Standard opcode' args)
  then show ?thesis
    using assms skip_operands_encoded [of m r args] standard_opcode_other [of opcode]
    by (auto simp: standard_step_def unknown_standard_valid_def stands_for_def)
qed (use assms in \<open>auto simp: standard_step_def stands_for_def advance_def\<close>)

lemma special_step_correct:
  assumes "line_header_ok h" "stands_for h st g"
  shows "\<exists>st'. special_step h opcode r st rows =
      Inr (r, st', rows @ snd (standard_meaning h (Special opcode) g))
    \<and> stands_for h st' (fst (standard_meaning h (Special opcode) g))"
proof -
  let ?st = "st\<lparr> ls_address := rg_address g + ucast (dl_minimum_instruction_length h) * special_advance h opcode,
    ls_line := rg_line g + special_line h opcode, ls_op_index := 0 \<rparr>"
  have m: "fst (standard_meaning h (Special opcode) g) =
      g\<lparr> rg_address := rg_address g + ucast (dl_minimum_instruction_length h) * special_advance h opcode,
         rg_op_index := 0, rg_line := rg_line g + special_line h opcode \<rparr>"
    using assms by (simp add: operation_advance_one line_header_ok_def stands_for_def Let_def)
  then have "stands_for h ?st (fst (standard_meaning h (Special opcode) g))"
    using assms(2) by (simp add: stands_for_def)
  moreover have "special_step h opcode r st rows =
      obind (push_row h ?st False rows) (\<lambda>rows. Inr (r, ?st, rows))"
    using assms
    by (simp add: special_step_def line_header_ok_def divide_guard_def stands_for_def
        special_line_def special_advance_def Let_def mult.commute)
  ultimately have "special_step h opcode r st rows =
      Inr (r, ?st, rows @ [row_of h False (fst (standard_meaning h (Special opcode) g))])"
    using push_row_stands by simp
  with \<open>stands_for h ?st _\<close> show ?thesis by (auto simp: Let_def)
qed

lemma extended_payload:
  assumes "bytes_at m (cursor r 0) (uleb_encode w @ [opcode] @ payload)"
    "int (List.length (uleb_encode w @ [opcode] @ payload)) \<le> remaining r"
  defines "r' \<equiv> advance r (int (List.length (uleb_encode w)) + 1)"
  shows "extended_step m h r st rows =
      (case extended_opcode_of opcode of
         LNE_END_SEQUENCE \<Rightarrow> kstd_assert (w = 1) []
           (obind (push_row h (st\<lparr> ls_end_sequence := True \<rparr>) True rows) (\<lambda>rows.
              Inr (r', debug_line_state_init (dl_default_is_stmt h), rows)))
       | LNE_SET_ADDRESS \<Rightarrow>
           obind (if dl_address_size h = 4
                  then obind (asserted [] (read_u32 m r')) (\<lambda>(a, r). Inr (ucast a, r))
                  else if dl_address_size h = 8 then asserted [] (read_u64 m r')
                  else Inl ''unreachable'') (\<lambda>(a, r).
           obind (skip_asserted [] r (sint (w - ucast (dl_address_size h) - 1))) (\<lambda>r.
             Inr (r, st\<lparr> ls_address := a, ls_op_index := 0 \<rparr>, rows)))
       | LNE_other _ \<Rightarrow> obind (skip_asserted [] r' (sint (w - 1))) (\<lambda>r. Inr (r, st, rows)))"
    "bytes_at m (cursor r' 0) payload" "int (List.length payload) \<le> remaining r'"
proof -
  note p1 = encoded_prefix [OF assms(1,2)]
  note p2 = encoded_prefix [OF p1(3,4)]
  show "bytes_at m (cursor r' 0) payload" "int (List.length payload) \<le> remaining r'"
    using p2(3,4) unfolding r'_def by simp_all
  have "read_u8 m (advance r (int (List.length (uleb_encode w)))) = ((opcode, True), r')"
    using u8_codec.roundtrip [OF _ p2(1,2)] by (simp add: r'_def)
  then show "extended_step m h r st rows =
      (case extended_opcode_of opcode of
         LNE_END_SEQUENCE \<Rightarrow> kstd_assert (w = 1) []
           (obind (push_row h (st\<lparr> ls_end_sequence := True \<rparr>) True rows) (\<lambda>rows.
              Inr (r', debug_line_state_init (dl_default_is_stmt h), rows)))
       | LNE_SET_ADDRESS \<Rightarrow>
           obind (if dl_address_size h = 4
                  then obind (asserted [] (read_u32 m r')) (\<lambda>(a, r). Inr (ucast a, r))
                  else if dl_address_size h = 8 then asserted [] (read_u64 m r')
                  else Inl ''unreachable'') (\<lambda>(a, r).
           obind (skip_asserted [] r (sint (w - ucast (dl_address_size h) - 1))) (\<lambda>r.
             Inr (r, st\<lparr> ls_address := a, ls_op_index := 0 \<rparr>, rows)))
       | LNE_other _ \<Rightarrow> obind (skip_asserted [] r' (sint (w - 1))) (\<lambda>r. Inr (r, st, rows)))"
    using uleb128_codec.roundtrip [OF _ p1(1,2)]
    by (simp add: extended_step_def Let_def split: extended_opcode.split)
qed

lemma skip_asserted_ok: "0 \<le> n \<Longrightarrow> n \<le> remaining r \<Longrightarrow> skip_asserted msg r n = Inr (advance r n)"
  by (simp add: skip_asserted_def skip_def remaining_def)

lemma end_sequence_correct:
  assumes "line_header_ok h" "stands_for h st g"
    "bytes_at m (cursor r 0) (uleb_encode 1 @ [1])" "int (List.length (uleb_encode 1 @ [1 :: u8])) \<le> remaining r"
  shows "\<exists>st'. extended_step m h r st rows = Inr (advance r 2, st', rows @ [row_of h True g])
    \<and> stands_for h st' registers_init"
proof -
  have "stands_for h (st\<lparr> ls_end_sequence := True \<rparr>) g" using assms(2) by (simp add: stands_for_def)
  moreover have "stands_for h (debug_line_state_init (dl_default_is_stmt h)) registers_init"
    using assms(1) by (simp add: stands_for_def line_header_ok_def debug_line_state_init_def registers_init_def)
  moreover have "uleb_encode 1 = [1]" by (simp add: uleb_encode.simps)
  ultimately show ?thesis
    using extended_payload(1) [of m r 1 1 "[]" h st rows] assms(3,4)
    by (simp add: push_row_stands extended_opcode_of_def)
qed

lemma set_address_correct:
  assumes "stands_for h st g" "dl_address_size h = 8 \<or> dl_address_size h = 4 \<and> unat a < 2 ^ 32"
    "encode_instruction h (Set_Address a) = [0] @ bs"
    "bytes_at m (cursor r 0) bs" "int (List.length bs) \<le> remaining r"
  shows "\<exists>st'. extended_step m h r st rows = Inr (advance r (int (List.length bs)), st', rows)
    \<and> stands_for h st' (g\<lparr> rg_address := a, rg_op_index := 0 \<rparr>)"
proof -
  let ?w = "ucast (dl_address_size h) + 1 :: u64"
  let ?p = "if dl_address_size h = 8 then le_bytes 8 a else le_bytes 4 a"
  have bs: "bs = uleb_encode ?w @ [2] @ ?p" using assms(3) by simp
  note e = extended_payload [OF assms(4,5) [unfolded bs]]
  let ?r = "advance r (int (List.length (uleb_encode ?w)) + 1)"
  have "0 \<le> remaining (advance ?r (int (List.length ?p)))" using e(3) by simp
  then have sk: "skip_asserted [] (advance ?r (int (List.length ?p))) 0 = Inr (advance ?r (int (List.length ?p)))"
    by (subst skip_asserted_ok) (simp_all add: advance_def)
  have rd: "(if dl_address_size h = 4 then obind (asserted [] (read_u32 m ?r)) (\<lambda>(a, r). Inr (ucast a, r))
      else if dl_address_size h = 8 then asserted [] (read_u64 m ?r) else Inl ''unreachable'')
      = Inr (a, advance ?r (int (List.length ?p)))"
  proof (cases "dl_address_size h = 8")
    case True
    then show ?thesis using e(2,3) u64_codec.roundtrip [of m ?r a] by simp
  next
    case False
    then have "dl_address_size h = 4" "unat a < 2 ^ 32" using assms(2) by auto
    moreover from this have "ucast (ucast a :: u32) = a" by (intro ucast_ucast_small) simp
    ultimately show ?thesis
      using e(2,3) u32_codec.roundtrip [of m ?r "ucast a"] by (simp add: le_bytes_ucast)
  qed
  have "extended_step m h r st rows =
      Inr (advance ?r (int (List.length ?p)), st\<lparr> ls_address := a, ls_op_index := 0 \<rparr>, rows)"
    unfolding e(1) by (simp add: extended_opcode_of_def rd sk del: advance_advance split del: if_split)
  moreover have "advance ?r (int (List.length ?p)) = advance r (int (List.length bs))"
    unfolding bs by (simp add: ac_simps)
  ultimately show ?thesis using assms(1) by (auto simp: stands_for_def)
qed

lemma unknown_extended_correct:
  assumes "stands_for h st g" "opcode \<notin> {1, 2}" "List.length payload < 2 ^ 62"
    "encode_instruction h (Unknown_Extended opcode payload) = [0] @ bs"
    "bytes_at m (cursor r 0) bs" "int (List.length bs) \<le> remaining r"
  shows "extended_step m h r st rows = Inr (advance r (int (List.length bs)), st, rows)"
proof -
  let ?w = "of_nat (List.length payload + 1) :: u64"
  have bs: "bs = uleb_encode ?w @ [opcode] @ payload" using assms(4) by simp
  note e = extended_payload [OF assms(5,6) [unfolded bs]]
  have "?w - 1 = of_nat (List.length payload)" by simp
  then have "sint (?w - 1) = int (List.length payload)"
    using assms(3) by (simp add: signed_of_nat signed_take_bit_int_eq_self)
  then show ?thesis
    unfolding e(1) using assms(2) e(3)
    by (simp add: extended_opcode_of_def skip_asserted_ok bs ac_simps)
qed

lemma encode_instruction_nonempty: "encode_instruction h i \<noteq> []"
  by (cases i) auto

text \<open>One instruction: the code's step is the standard's.\<close>

lemma line_step_correct:
  assumes ok: "line_header_ok h" and st: "stands_for h st g" and valid: "instruction_valid m h i"
    and bytes: "bytes_at m (cursor r 0) (encode_instruction h i)"
    and room: "int (List.length (encode_instruction h i)) \<le> remaining r"
  shows "\<exists>st'. line_step m h r st rows =
      Inr (advance r (int (List.length (encode_instruction h i))), st', rows @ snd (standard_meaning h i g))
    \<and> stands_for h st' (fst (standard_meaning h i g))"
proof -
  have step: ?thesis if "encode_instruction h i = [opcode] @ bs"
    "\<exists>st'. (if opcode = EXTENDED_OPCODE_MARKER then extended_step m h (advance r 1) st rows
       else if opcode < dl_opcode_base h then standard_step m h opcode (advance r 1) st rows
       else special_step h opcode (advance r 1) st rows) =
       Inr (advance (advance r 1) (int (List.length bs)), st', rows @ snd (standard_meaning h i g))
     \<and> stands_for h st' (fst (standard_meaning h i g))" for opcode bs
    using that(2) read_opcode(1) [OF bytes [unfolded that(1)] room [unfolded that(1)], of h st rows]
    unfolding that(1) by simp
  have after: "bytes_at m (cursor (advance r 1) 0) bs" "int (List.length bs) \<le> remaining (advance r 1)"
    if "encode_instruction h i = [opcode] @ bs" for opcode bs
    using read_opcode(2,3) [OF bytes [unfolded that(1)] room [unfolded that(1)]] by blast+
  have standard: ?thesis if "encode_instruction h i = [opcode] @ bs" "opcode \<noteq> 0"
    "opcode < dl_opcode_base h" "\<forall>op. i \<noteq> Special op" for opcode bs
    using standard_step_correct [OF ok st valid that after [OF that(1)], of rows] that
    by (intro step [OF that(1)]) (simp add: EXTENDED_OPCODE_MARKER_def)
  have extended: ?thesis if "encode_instruction h i = [0] @ bs"
    "\<exists>st'. extended_step m h (advance r 1) st rows =
       Inr (advance (advance r 1) (int (List.length bs)), st', rows @ snd (standard_meaning h i g))
     \<and> stands_for h st' (fst (standard_meaning h i g))" for bs
    using that(2) by (intro step [OF that(1)]) (simp add: EXTENDED_OPCODE_MARKER_def)
  have base: "12 < dl_opcode_base h" using ok by (simp add: line_header_ok_def)
  have std: ?thesis if "hd (encode_instruction h i) \<noteq> 0" "hd (encode_instruction h i) \<le> 12" "\<forall>op. i \<noteq> Special op"
    using that base encode_instruction_nonempty [of h i]
    by (intro standard [of "hd (encode_instruction h i)" "tl (encode_instruction h i)"]) simp_all
  show ?thesis
  proof (cases i)
    case (Special opcode)
    have e: "encode_instruction h i = [opcode] @ []" by (simp add: Special)
    show ?thesis
      using valid special_step_correct [OF ok st, of opcode "advance r 1" rows]
      by (intro step [OF e]) (simp add: Special EXTENDED_OPCODE_MARKER_def advance_def not_less [symmetric])
  next
    case End_Sequence
    have e: "encode_instruction h i = [0] @ uleb_encode 1 @ [1]" by (simp add: End_Sequence)
    have "uleb_encode 1 = [1]" by (simp add: uleb_encode.simps)
    then show ?thesis
      using end_sequence_correct [OF ok st after [OF e], of rows]
      by (intro extended [OF e]) (simp add: End_Sequence)
  next
    case (Set_Address a)
    have e: "encode_instruction h i = [0] @ tl (encode_instruction h i)" by (simp add: Set_Address)
    show ?thesis
      using set_address_correct [OF st _ _ after [OF e], of a rows] valid
      by (intro extended [OF e]) (simp add: Set_Address)
  next
    case (Unknown_Extended opcode payload)
    have e: "encode_instruction h i = [0] @ tl (encode_instruction h i)" by (simp add: Unknown_Extended)
    show ?thesis
      using unknown_extended_correct [OF st _ _ _ after [OF e], of opcode payload rows] valid st
      by (intro extended [OF e]) (simp add: Unknown_Extended)
  next
    case (Unknown_Standard opcode args)
    moreover from this have "opcode \<noteq> 0" using valid by (auto simp: unknown_standard_valid_def)
    ultimately show ?thesis using valid standard [of opcode] by (auto simp: unknown_standard_valid_def)
  qed (rule std; simp)+
qed

definition encode_program :: "debug_line_header \<Rightarrow> line_instruction list \<Rightarrow> u8 list" where
  "encode_program h is = concat (map (encode_instruction h) is)"

lemma word_of_int_less:
  "0 \<le> a \<Longrightarrow> a < b \<Longrightarrow> b < 2 ^ 63 \<Longrightarrow> (word_of_int a :: u64) < word_of_int b"
  by (simp add: word_less_def uint_word_of_int_eq take_bit_int_eq_self)

lemma line_loop_correct:
  assumes "line_header_ok h" "stands_for h st g" "\<forall>i \<in> set is. instruction_valid m h i"
    "bytes_at m (cursor r 0) (encode_program h is)" "int (List.length (encode_program h is)) \<le> remaining r"
    "0 \<le> br_offset r" "br_size r < 2 ^ 63"
    "unit_end = word_of_int (br_offset r + int (List.length (encode_program h is)))"
  shows "line_loop m h unit_end r st rows =
    Some (Inr (advance r (int (List.length (encode_program h is))), rows @ standard_rows h is g))"
  using assms
proof (induction "is" arbitrary: r st g rows)
  case Nil
  then show ?case by (subst line_loop.simps) (simp add: encode_program_def advance_def)
next
  case (Cons i is_tail)
  let ?e = "encode_instruction h i" and ?p = "encode_program h is_tail"
  let ?r = "advance r (int (List.length ?e))"
  have enc: "encode_program h (i # is_tail) = ?e @ ?p" by (simp add: encode_program_def)
  note p = encoded_prefix [OF Cons.prems(4,5) [unfolded enc]]
  obtain st' where st': "line_step m h r st rows = Inr (?r, st', rows @ snd (standard_meaning h i g))"
    "stands_for h st' (fst (standard_meaning h i g))"
    using line_step_correct [OF Cons.prems(1,2) _ p(1,2), of rows] Cons.prems(3) by auto
  have "0 < int (List.length ?e)" using encode_instruction_nonempty [of h i] by simp
  then have "0 < int (List.length (?e @ ?p))" unfolding length_append of_nat_add by linarith
  then have "word_of_int (br_offset r) < unit_end"
    unfolding Cons.prems(8) enc using Cons.prems(5-7) unfolding enc remaining_def
    by (intro word_of_int_less) linarith+
  then have "line_loop m h unit_end r st rows =
      line_loop m h unit_end ?r st' (rows @ snd (standard_meaning h i g))"
    using st'(1) by (subst line_loop.simps) simp
  also have "\<dots> = Some (Inr (advance ?r (int (List.length ?p)),
      (rows @ snd (standard_meaning h i g)) @ standard_rows h is_tail (fst (standard_meaning h i g))))"
  proof (rule Cons.IH [OF Cons.prems(1) st'(2) _ p(3,4)])
    show "\<forall>i \<in> set is_tail. instruction_valid m h i" using Cons.prems(3) by simp
    show "0 \<le> br_offset ?r" "br_size ?r < 2 ^ 63" using Cons.prems(6,7) by (simp_all add: advance_def)
    show "unit_end = word_of_int (br_offset ?r + int (List.length ?p))"
      unfolding Cons.prems(8) enc by (simp add: advance_def ac_simps)
  qed
  finally show ?case by (simp add: enc split_beta)
qed

text \<open>A step that changes nothing: the loop has no result.\<close>

lemma line_loop_stuck:
  assumes "line_step m h r st rows = Inr (r, st, rows)" "word_of_int (br_offset r) < unit_end"
  shows "line_loop m h unit_end r st rows = None"
proof -
  have "\<not> (m' = m \<and> h' = h \<and> e' = unit_end \<and> r' = r \<and> st' = st \<and> rows' = rows)"
    if "line_loop m' h' e' r' st' rows' = Some y" for m' h' e' r' st' rows' y
    using _ that
  proof (rule line_loop.raw_induct [where P = "\<lambda>m' h' e' r' st' rows' y.
      \<not> (m' = m \<and> h' = h \<and> e' = unit_end \<and> r' = r \<and> st' = st \<and> rows' = rows)"], goal_cases)
    case (1 loop m' h' e' r' st' rows' y)
    then show ?case using 1(1) [of m h unit_end r st rows y] assms by auto
  qed
  then show ?thesis by (metis not_Some_eq)
qed

text \<open>An unknown extended opcode whose length is \<open>2 ^ 64 - 11\<close>: twelve bytes, skipping \<open>-12\<close>.\<close>

definition backward_instruction :: "u8 list" where
  "backward_instruction = [0, 0xf5, 0xff, 0xff, 0xff, 0xff, 0xff, 0xff, 0xff, 0xff, 0x01, 0x80]"

lemma backward_step:
  assumes "bytes_at m (cursor r 0) backward_instruction" "12 \<le> remaining r"
  shows "line_step m h r st rows = Inr (r, st, rows)"
proof -
  let ?w = "0xfffffffffffffff5 :: u64"
  have w: "uleb_encode ?w = [0xf5, 0xff, 0xff, 0xff, 0xff, 0xff, 0xff, 0xff, 0xff, 0x01]" by code_simp
  have b: "backward_instruction = [0] @ uleb_encode ?w @ [0x80] @ []"
    by (simp add: backward_instruction_def w)
  have "int (List.length ([0] @ uleb_encode ?w @ [0x80 :: u8] @ [])) \<le> remaining r"
    using assms(2) by (simp add: w)
  note o = read_opcode [OF assms(1) [unfolded b] this]
  have go_back: "skip q (-12) = (True, advance q (-12))" if "0 \<le> remaining q" for q
    using that by (simp add: skip_def remaining_def)
  have "sint (?w - 1) = -12" by simp
  then show ?thesis
    unfolding o(1) EXTENDED_OPCODE_MARKER_def using extended_payload(1) [OF o(2,3), of h st rows] assms(2)
    by (simp add: extended_opcode_of_def w skip_asserted_def go_back advance_def [of r 0])
qed

section \<open>Properties\<close>

text \<open>A line table header with two files, and a small program for it.\<close>

definition example_header :: debug_line_header where
  "example_header = \<lparr> dl_unit_length = 40, dl_version = 5, dl_address_size = 8, dl_segment_selector_size = 0,
     dl_header_length = 20, dl_minimum_instruction_length = 1, dl_maximum_operations_per_instruction = 1,
     dl_default_is_stmt = True, dl_line_base = -5, dl_line_range = 14, dl_opcode_base = 13,
     dl_standard_opcode_lengths = empty_view, dl_directory_entry_formats = [], dl_directories = [[0x64]],
     dl_file_name_entry_formats = [], dl_file_names = [[0x61], [0x62]] \<rparr>"

definition example_program :: "line_instruction list" where
  "example_program = [Set_Address 0x4000, Special 20, Advance_Line 300, Const_Add_Pc, Copy,
     Unknown_Extended 3 [7, 7], End_Sequence]"

text \<open>
  C22: The address lookup finds the right row. Scanning the rows once, \<open>source_for_address\<close> returns
  what a search over the sequences returns: in every sequence that covers the address (its
  end row lies behind it, or it has no end row) the nearest row is the first of those with the
  greatest address not above it; the last covered sequence counts, and nothing is found
  exactly when no sequence covers the address.
\<close>

theorem source_lookup_by_sequences:
  "source_for_address rows a =
     (case rev (covering_rows rows a) of row # _ \<Rightarrow> (row, True) | [] \<Rightarrow> (blank_row, False))"
  by (rule source_for_address_sequences)

text \<open>
  C5: The line-number machine implements the DWARF standard where one instruction holds one
  operation (as on x86-64). For every program of valid instructions, of all standard, extended,
  unknown and special opcodes, the loop ends at the end of the unit and has appended exactly the
  rows the standard defines, with their addresses, files, lines and end-of-sequence marks.
\<close>

theorem line_program_follows_standard:
  assumes "line_header_ok h" and "\<forall>i \<in> set is. instruction_valid m h i"
    and "bytes_at m (cursor r 0) (encode_program h is)"
    and "int (List.length (encode_program h is)) \<le> remaining r"
    and "0 \<le> br_offset r" and "br_size r < 2 ^ 63"
  shows "line_loop m h (word_of_int (br_offset r + int (List.length (encode_program h is)))) r
      (debug_line_state_init (dl_default_is_stmt h)) [] =
    Some (Inr (advance r (int (List.length (encode_program h is))), standard_rows h is registers_init))"
proof -
  have "stands_for h (debug_line_state_init (dl_default_is_stmt h)) registers_init"
    using assms(1) by (simp add: stands_for_def line_header_ok_def debug_line_state_init_def registers_init_def)
  then show ?thesis using line_loop_correct [OF assms(1) _ assms(2-6) refl, of _ registers_init "[]"] by simp
qed

theorem line_program_follows_standard_witness:
  "line_loop (memory_of 0 (encode_program example_header example_program)) example_header 25
     (byte_reader_of 0 25) (debug_line_state_init True) [] =
   Some (Inr (advance (byte_reader_of 0 25) 25,
     [\<lparr> row_address = 0x4000, row_file_name = [0x62], row_line = 3, row_is_end_of_sequence = False \<rparr>,
      \<lparr> row_address = 0x4011, row_file_name = [0x62], row_line = 303, row_is_end_of_sequence = False \<rparr>,
      \<lparr> row_address = 0x4011, row_file_name = [0x62], row_line = 303, row_is_end_of_sequence = True \<rparr>]))"
proof -
  let ?bs = "encode_program example_header example_program"
  have l: "List.length ?bs = 25" by code_simp
  have d: "dl_default_is_stmt example_header" by (simp add: example_header_def)
  have r: "standard_rows example_header example_program registers_init =
     [\<lparr> row_address = 0x4000, row_file_name = [0x62], row_line = 3, row_is_end_of_sequence = False \<rparr>,
      \<lparr> row_address = 0x4011, row_file_name = [0x62], row_line = 303, row_is_end_of_sequence = False \<rparr>,
      \<lparr> row_address = 0x4011, row_file_name = [0x62], row_line = 303, row_is_end_of_sequence = True \<rparr>]"
    by code_simp
  have "bytes_at (memory_of 0 ?bs) (cursor (byte_reader_of 0 25) 0) ?bs"
    using bytes_at_memory_of [of ?bs 0] l by (simp add: cursor_def byte_reader_of_def)
  moreover have "line_header_ok example_header" by (simp add: line_header_ok_def example_header_def)
  moreover have "\<forall>i \<in> set example_program. instruction_valid (memory_of 0 ?bs) example_header i"
    by (simp add: example_program_def example_header_def)
  ultimately show ?thesis
    using line_program_follows_standard [of example_header example_program "memory_of 0 ?bs" "byte_reader_of 0 25"]
    by (simp add: l r d byte_reader_of_def remaining_def)
qed

text \<open>
  C35: A line program can hang the kernel. The length of an extended opcode is trusted: with the
  length \<open>2 ^ 64 - 11\<close> on an unknown extended opcode, \<open>skip(length - 1)\<close> gets \<open>-12\<close>, passes its
  bounds check and puts the cursor back to the start of the same instruction. From there the loop
  of \<open>parse_line_table\<close> never returns, whatever the header, the registers and the rows so far.
\<close>

theorem line_program_can_hang:
  assumes "bytes_at m (cursor r 0) backward_instruction" and "12 \<le> remaining r"
    and "word_of_int (br_offset r) < unit_end"
  shows "line_loop m header unit_end r st rows = None"
  by (rule line_loop_stuck [OF backward_step [OF assms(1,2)] assms(3)])

theorem line_program_can_hang_witness:
  "line_loop (memory_of 0x1000 backward_instruction) example_header 12 (byte_reader_of 0x1000 12)
     (debug_line_state_init True) [] = None"
  by (rule line_program_can_hang)
    (simp_all add: backward_instruction_def memory_of_def cursor_def byte_reader_of_def remaining_def)

text \<open>
  Special opcodes ignore the operation index. The parser keeps \<open>op_index\<close> and divides by the
  operations per instruction in \<open>ADVANCE_PC\<close>, but a special opcode adds its full operation
  advance to the address: with four operations per instruction, one operation further is still
  the same address by the standard, while the code's row is one instruction off.
\<close>

theorem special_opcode_ignores_operations:
  "let h = example_header\<lparr> dl_maximum_operations_per_instruction := 4 \<rparr>
   in map row_address (snd (standard_meaning h (Special 32) registers_init)) = [0]
    \<and> map_sum id (\<lambda>(r, st, rows). map row_address rows)
        (special_step h 32 (byte_reader_of 0 0) (debug_line_state_init True) []) = Inr [1]"
  by code_simp

text \<open>
  A stack trace is the chain of frames. Whatever the memory holds, also a cyclic chain, the walk
  ends and returns one entry, with the function, file and line of its return address, for each
  frame of the chain after the skipped ones, up to the first frame that is null or has a null
  return address and never beyond the \<open>max_frame_count\<close>-th frame.
\<close>

theorem stack_trace_follows_frames:
  "get_stack_trace_from m infos rows start_frame max_frame_count skip_frame_count =
     map (trace_of m infos rows)
       (drop (unat skip_frame_count) (frame_chain m start_frame (unat max_frame_count)))"
  by (simp add: get_stack_trace_from_def stack_trace_loop_frames)

end
