(* ===== verification/Pp_Lexer.thy ===== *)
theory Pp_Lexer
  imports Prelude
begin

text \<open>
  \<^verbatim>\<open>tools/preprocessor.cc\<close>, its first half: the lexer that cuts C++ source text into tokens, and the scan
  for a matching bracket built on it. A \<^verbatim>\<open>std::string_view\<close> is a \<open>string\<close>, a position a \<open>nat\<close>,
  \<^verbatim>\<open>npos\<close> is \<open>None\<close>; the character classes of \<^verbatim>\<open><cctype>\<close> are those of the C locale.

  The lemmas show that a token covers the text from its \<open>tok_begin\<close> to its \<open>tok_end\<close>, that only white space lies
  between two tokens, and that every token is longer than nothing, which is the measure of all loops over tokens.
\<close>

section \<open>Characters and views\<close>

definition isspace :: "char \<Rightarrow> bool" where
  "isspace c \<longleftrightarrow> c = CHR '' '' \<or> (9 \<le> (of_char c :: nat) \<and> (of_char c :: nat) \<le> 13)"

definition isdigit :: "char \<Rightarrow> bool" where
  "isdigit c \<longleftrightarrow> 48 \<le> (of_char c :: nat) \<and> (of_char c :: nat) \<le> 57"

definition isalpha :: "char \<Rightarrow> bool" where
  "isalpha c \<longleftrightarrow> 65 \<le> (of_char c :: nat) \<and> (of_char c :: nat) \<le> 90 \<or> 97 \<le> (of_char c :: nat) \<and> (of_char c :: nat) \<le> 122"

definition isalnum :: "char \<Rightarrow> bool" where
  "isalnum c \<longleftrightarrow> isalpha c \<or> isdigit c"

definition substr :: "string \<Rightarrow> nat \<Rightarrow> nat \<Rightarrow> string" where
  "substr s p n = take n (drop p s)"

text \<open>\<^verbatim>\<open>while (i < s.size() && p(s[i])) i++\<close>, a loop that several routines contain.\<close>

function scan_while :: "(char \<Rightarrow> bool) \<Rightarrow> string \<Rightarrow> nat \<Rightarrow> nat" where
  "scan_while p s i = (if i < length s \<and> p (s ! i) then scan_while p s (Suc i) else i)"
  by pat_completeness auto
termination by (relation "measure (\<lambda>(p, s, i). length s - i)") auto

declare scan_while.simps [simp del]

text \<open>\<^verbatim>\<open>s.find(c, i)\<close> for a character.\<close>

definition find_char :: "string \<Rightarrow> char \<Rightarrow> nat \<Rightarrow> nat option" where
  "find_char s c i = (let j = scan_while (\<lambda>d. d \<noteq> c) s i in if j < length s then Some j else None)"

section \<open>The lexer\<close>

datatype token_kind = END | IDENTIFIER | NUMBER | LITERAL | COMMENT | PUNCTUATION

record token =
  kind :: token_kind
  tok_begin :: nat
  tok_end :: nat

record lexer =
  lex_input :: string
  position :: nat

definition mk_lexer :: "string \<Rightarrow> nat \<Rightarrow> lexer" where
  "mk_lexer s p = \<lparr>lex_input = s, position = p\<rparr>"

definition mk_token :: "token_kind \<Rightarrow> nat \<Rightarrow> nat \<Rightarrow> token" where
  "mk_token k b e = \<lparr>kind = k, tok_begin = b, tok_end = e\<rparr>"

definition is_identifier_start :: "char \<Rightarrow> bool" where
  "is_identifier_start c \<longleftrightarrow> isalpha c \<or> c = CHR ''_''"

definition is_identifier_part :: "char \<Rightarrow> bool" where
  "is_identifier_part c \<longleftrightarrow> isalnum c \<or> c = CHR ''_''"

definition is_number_part :: "char \<Rightarrow> bool" where
  "is_number_part c \<longleftrightarrow> isalnum c \<or> c = CHR ''.'' \<or> c = CHR 0x27"

definition token_text :: "string \<Rightarrow> token \<Rightarrow> string" where
  "token_text s t = substr s (tok_begin t) (tok_end t - tok_begin t)"

text \<open>A literal's prefixes, in the order in which they are tried.\<close>

definition literal_prefixes :: "string list" where
  "literal_prefixes = [''u8R'', ''uR'', ''UR'', ''LR'', ''u8'', ''u'', ''U'', ''L'', ''R'']"

definition quote_after :: "string \<Rightarrow> nat \<Rightarrow> string \<Rightarrow> bool" where
  "quote_after s p prefix \<longleftrightarrow> substr s p (length prefix) = prefix \<and> p + length prefix < length s
     \<and> s ! (p + length prefix) = CHR 0x22"

definition prefixed_quote_position :: "string \<Rightarrow> nat \<Rightarrow> nat option" where
  "prefixed_quote_position s p =
    (if s ! p = CHR 0x22 then Some p
     else map_option (\<lambda>prefix. p + length prefix) (find (quote_after s p) literal_prefixes))"

function quoted_loop :: "string \<Rightarrow> char \<Rightarrow> nat \<Rightarrow> nat" where
  "quoted_loop s q i =
    (if i < length s
     then let c = s ! i in
       if c = CHR 0x5C \<and> i + 1 < length s then quoted_loop s q (i + 2)
       else if c = q then i + 1
       else quoted_loop s q (i + 1)
     else i)"
  by pat_completeness auto
termination by (relation "measure (\<lambda>(s, q, i). length s - i)") auto

declare quoted_loop.simps [simp del]

definition scan_quoted :: "string \<Rightarrow> nat \<Rightarrow> nat" where
  "scan_quoted s quote = quoted_loop s (s ! quote) (quote + 1)"

function raw_loop :: "string \<Rightarrow> string \<Rightarrow> nat \<Rightarrow> nat" where
  "raw_loop s delimiter i =
    (if i < length s
     then if s ! i = CHR '')'' \<and> substr s (i + 1) (length delimiter) = delimiter
            \<and> i + length delimiter + 1 < length s \<and> s ! (i + length delimiter + 1) = CHR 0x22
          then i + (length delimiter + 2)
          else raw_loop s delimiter (i + 1)
     else i)"
  by pat_completeness auto
termination by (relation "measure (\<lambda>(s, d, i). length s - i)") auto

declare raw_loop.simps [simp del]

definition scan_raw_literal :: "string \<Rightarrow> nat \<Rightarrow> nat" where
  "scan_raw_literal s quote =
    (case find_char s CHR ''('' (quote + 1) of
       None \<Rightarrow> scan_quoted s quote
     | Some open_at \<Rightarrow> raw_loop s (substr s (quote + 1) (open_at - quote - 1)) (open_at + 1))"

function block_comment_loop :: "string \<Rightarrow> nat \<Rightarrow> nat" where
  "block_comment_loop s i =
    (if i + 1 < length s \<and> substr s i 2 \<noteq> ''*/'' then block_comment_loop s (i + 1) else i)"
  by pat_completeness auto
termination by (relation "measure (\<lambda>(s, i). length s - i)") auto

declare block_comment_loop.simps [simp del]

definition punctuations :: "string list" where
  "punctuations =
    [''->*'', ''<<='', ''>>='', ''...'', ''::'', ''->'', ''<='', ''>='', ''=='', ''!='', ''++'', ''--'',
     ''&&'', ''||'', ''+='', ''-='', ''*='', ''/='', ''%='', ''<<'', ''>>'', ''&='', ''|='', ''^='']"

text \<open>The token that starts at the first character that is no white space.\<close>

definition token_at :: "string \<Rightarrow> nat \<Rightarrow> token" where
  "token_at s p =
    (if substr s p 2 = ''//'' then mk_token COMMENT p (scan_while (\<lambda>c. c \<noteq> CHR 0x0A) s (p + 2))
     else if substr s p 2 = ''/*'' then
       let e = block_comment_loop s (p + 2) in mk_token COMMENT p (if e + 1 < length s then e + 2 else length s)
     else case prefixed_quote_position s p of
       Some quote \<Rightarrow>
         mk_token LITERAL p
           (if p < quote \<and> (s ! (quote - 1) = CHR ''R'' \<or> 2 \<le> quote \<and> s ! (quote - 2) = CHR ''R'')
            then scan_raw_literal s quote else scan_quoted s quote)
     | None \<Rightarrow>
         if s ! p = CHR 0x22 \<or> s ! p = CHR 0x27 then mk_token LITERAL p (scan_quoted s p)
         else if is_identifier_start (s ! p) then mk_token IDENTIFIER p (scan_while is_identifier_part s (p + 1))
         else if isdigit (s ! p) then mk_token NUMBER p (scan_while is_number_part s (p + 1))
         else case find (\<lambda>punctuation. substr s p (length punctuation) = punctuation) punctuations of
           Some punctuation \<Rightarrow> mk_token PUNCTUATION p (p + length punctuation)
         | None \<Rightarrow> mk_token PUNCTUATION p (p + 1))"

definition next_token :: "lexer \<Rightarrow> token \<times> lexer" where
  "next_token lx =
    (let s = lex_input lx; p = scan_while isspace s (position lx) in
     if p \<ge> length s then (mk_token END (length s) (length s), lx\<lparr>position := p\<rparr>)
     else let t = token_at s p in (t, lx\<lparr>position := tok_end t\<rparr>))"

section \<open>Progress and bounds\<close>

lemma scan_while_closed: "scan_while p s i = i + length (takeWhile p (drop i s))"
proof (induction p s i rule: scan_while.induct)
  case (1 p s i)
  show ?case
  proof (cases "i < length s")
    case True
    with 1 show ?thesis by (subst scan_while.simps) (simp add: Cons_nth_drop_Suc [symmetric])
  qed (simp add: scan_while.simps [of p s i])
qed

lemma scan_while_ge [simp]: "i \<le> scan_while p s i"
  by (simp add: scan_while_closed)

lemma scan_while_le [simp]: "i \<le> length s \<Longrightarrow> scan_while p s i \<le> length s"
  using length_takeWhile_le [of p "drop i s"] by (simp add: scan_while_closed)

lemma scan_while_stop: "scan_while p s i < length s \<Longrightarrow> \<not> p (s ! scan_while p s i)"
  by (induction p s i rule: scan_while.induct) (subst (asm) (2) scan_while.simps, subst scan_while.simps, auto)

lemma scan_while_all: "i \<le> j \<Longrightarrow> j < scan_while p s i \<Longrightarrow> p (s ! j)"
proof (induction p s i rule: scan_while.induct)
  case (1 p s i)
  then have i: "i < length s \<and> p (s ! i)"
    by (subst (asm) scan_while.simps) (auto split: if_splits)
  with "1.prems" have "j < scan_while p s (Suc i)" by (simp add: scan_while.simps [of p s i])
  with i "1.IH" "1.prems"(1) show ?case by (cases "i = j") auto
qed

lemma quoted_loop_bounds: "i \<le> length s \<Longrightarrow> i \<le> quoted_loop s q i \<and> quoted_loop s q i \<le> length s"
proof (induction s q i rule: quoted_loop.induct)
  case (1 s q i)
  then show ?case by (subst (1 2) quoted_loop.simps) (auto simp: Let_def Suc_le_eq)
qed

lemma scan_quoted_bounds: "quote < length s \<Longrightarrow> quote < scan_quoted s quote \<and> scan_quoted s quote \<le> length s"
  using quoted_loop_bounds [of "quote + 1" s "s ! quote"] by (simp add: scan_quoted_def)

lemma raw_loop_bounds: "i \<le> length s \<Longrightarrow> i \<le> raw_loop s d i \<and> raw_loop s d i \<le> length s"
proof (induction s d i rule: raw_loop.induct)
  case (1 s d i)
  then show ?case by (subst (1 2) raw_loop.simps) (auto simp: Suc_le_eq)
qed

lemma find_char_Some: "find_char s c i = Some k \<Longrightarrow> i \<le> k \<and> k < length s \<and> s ! k = c"
  by (auto simp: find_char_def Let_def split: if_splits dest: scan_while_stop)

lemma scan_raw_literal_bounds:
  assumes "quote < length s"
  shows "quote < scan_raw_literal s quote \<and> scan_raw_literal s quote \<le> length s"
proof (cases "find_char s CHR ''('' (quote + 1)")
  case (Some k)
  with find_char_Some [OF Some] raw_loop_bounds [of "k + 1" s "substr s (quote + 1) (k - quote - 1)"]
  show ?thesis by (auto simp: scan_raw_literal_def)
qed (use scan_quoted_bounds [OF assms] in \<open>simp add: scan_raw_literal_def\<close>)

lemma block_comment_loop_bounds: "i \<le> length s \<Longrightarrow> i \<le> block_comment_loop s i \<and> block_comment_loop s i \<le> length s"
proof (induction s i rule: block_comment_loop.induct)
  case (1 s i)
  then show ?case by (subst (1 2) block_comment_loop.simps) auto
qed

lemma substr_length:
  assumes "substr s p n = w" "n = length w" "p < length s"
  shows "p + length w \<le> length s"
proof -
  have "length w = min n (length s - p)" using assms(1) by (auto simp: substr_def)
  with assms(2,3) show ?thesis by auto
qed

lemma prefixed_quote_in_text:
  "p < length s \<Longrightarrow> prefixed_quote_position s p = Some quote \<Longrightarrow> p \<le> quote \<and> quote < length s \<and> s ! quote = CHR 0x22"
  by (auto simp: prefixed_quote_position_def quote_after_def find_Some_iff split: if_splits)

lemma token_at_bounds:
  assumes "p < length s"
  shows "tok_begin (token_at s p) = p" "p < tok_end (token_at s p)" "tok_end (token_at s p) \<le> length s" "kind (token_at s p) \<noteq> END"
proof -
  have two: "substr s p 2 = [a, b] \<Longrightarrow> p + 2 \<le> length s" for a b
    using substr_length [of s p 2 "[a, b]", OF _ _ assms] by (simp add: numeral_2_eq_2)
  have ne: "list_all (\<lambda>w. w \<noteq> []) punctuations" by (simp add: punctuations_def)
  have punct: "find P punctuations = Some w \<Longrightarrow> w \<noteq> [] \<and> P w" for P w
    using ne by (auto simp: find_Some_iff list_all_length)
  have *: "tok_begin (token_at s p) = p \<and> p < tok_end (token_at s p) \<and> tok_end (token_at s p) \<le> length s \<and> kind (token_at s p) \<noteq> END"
  proof (cases "prefixed_quote_position s p")
    case (Some quote)
    note q = prefixed_quote_in_text [OF assms Some]
    show ?thesis
      using Some q scan_quoted_bounds [of quote s] scan_raw_literal_bounds [of quote s] block_comment_loop_bounds [of "p + 2" s]
      by (auto simp: token_at_def mk_token_def Let_def dest!: two intro: Suc_le_lessD [OF order_trans [OF _ scan_while_ge]])
  next
    case None
    show ?thesis
      using None scan_quoted_bounds [OF assms] block_comment_loop_bounds [of "p + 2" s] assms
      by (auto simp: token_at_def mk_token_def Let_def split: option.splits
        dest!: two punct substr_length [OF _ refl assms] intro: Suc_le_lessD [OF order_trans [OF _ scan_while_ge]])
  qed
  then show "tok_begin (token_at s p) = p" "p < tok_end (token_at s p)" "tok_end (token_at s p) \<le> length s" "kind (token_at s p) \<noteq> END"
    by auto
qed

lemma next_token_END:
  "kind (fst (next_token lx)) = END \<longleftrightarrow> length (lex_input lx) \<le> scan_while isspace (lex_input lx) (position lx)"
  using token_at_bounds(4) [of "scan_while isspace (lex_input lx) (position lx)" "lex_input lx"]
  by (auto simp: next_token_def Let_def mk_token_def)

lemma next_token_input [simp]: "lex_input (snd (next_token lx)) = lex_input lx"
  by (simp add: next_token_def Let_def)

lemma next_token_cases:
  assumes "next_token lx = (t, lx')" "kind t \<noteq> END"
  shows "tok_begin t = scan_while isspace (lex_input lx) (position lx)" "tok_begin t < tok_end t"
    "tok_end t \<le> length (lex_input lx)" "position lx' = tok_end t" "lex_input lx' = lex_input lx"
    "t = token_at (lex_input lx) (tok_begin t)"
  using assms token_at_bounds [of "scan_while isspace (lex_input lx) (position lx)" "lex_input lx"]
  by (auto simp: next_token_def Let_def mk_token_def split: if_splits)

text \<open>The measure of every loop over tokens.\<close>

definition unread :: "lexer \<Rightarrow> nat" where
  "unread lx = length (lex_input lx) - position lx"

lemma next_token_progress:
  "next_token lx = (t, lx') \<Longrightarrow> kind t \<noteq> END \<Longrightarrow> unread lx' < unread lx"
  using next_token_cases [of lx t lx'] scan_while_ge [of "position lx" isspace "lex_input lx"]
  by (auto simp: unread_def simp del: scan_while_ge)

lemma next_token_smaller [termination_simp]:
  "(t, lx') = next_token lx \<Longrightarrow> kind t \<noteq> END \<Longrightarrow> unread lx' < unread lx"
  by (rule next_token_progress) simp_all

lemma next_token_unread_le: "next_token lx = (t, lx') \<Longrightarrow> unread lx' \<le> unread lx"
  using next_token_progress [of lx t lx'] next_token_END [of lx]
  by (cases "kind t = END") (auto simp: less_imp_le unread_def next_token_def Let_def split: if_splits)

function tokens :: "lexer \<Rightarrow> token list" where
  "tokens lx = (case next_token lx of (t, lx') \<Rightarrow> if kind t = END then [] else t # tokens lx')"
  by pat_completeness auto
termination by (relation "measure unread") (auto simp: next_token_smaller)

declare tokens.simps [simp del]

lemma tokens_END: "next_token lx = (t, lx') \<Longrightarrow> kind t = END \<Longrightarrow> tokens lx = []"
  by (simp add: tokens.simps [of lx])

lemma tokens_Cons: "next_token lx = (t, lx') \<Longrightarrow> kind t \<noteq> END \<Longrightarrow> tokens lx = t # tokens lx'"
  by (simp add: tokens.simps [of lx])

text \<open>Where the tokens of a text lie: between them, before and after, there is only white space.\<close>

fun laid_out :: "string \<Rightarrow> nat \<Rightarrow> token list \<Rightarrow> bool" where
  "laid_out s p [] \<longleftrightarrow> list_all isspace (drop p s)"
| "laid_out s p (t # ts) \<longleftrightarrow> p \<le> tok_begin t \<and> tok_begin t < tok_end t \<and> tok_end t \<le> length s
     \<and> list_all isspace (substr s p (tok_begin t - p)) \<and> laid_out s (tok_end t) ts"

lemma skipped_is_space:
  "list_all isspace (substr s p (scan_while isspace s p - p))"
proof -
  have "substr s p (scan_while isspace s p - p) = takeWhile isspace (drop p s)"
    by (simp add: substr_def scan_while_closed takeWhile_eq_take [symmetric])
  then show ?thesis by (auto simp: list_all_iff dest: set_takeWhileD)
qed

lemma tokens_laid_out: "laid_out (lex_input lx) (position lx) (tokens lx)"
proof (induction lx rule: tokens.induct)
  case (1 lx)
  obtain t lx' where n: "next_token lx = (t, lx')" by (cases "next_token lx")
  let ?s = "lex_input lx" and ?p = "position lx"
  show ?case
  proof (cases "kind t = END")
    case True
    with n next_token_END [of lx] have "length ?s \<le> scan_while isspace ?s ?p" by simp
    then have "drop ?p ?s = substr ?s ?p (scan_while isspace ?s ?p - ?p)" by (simp add: substr_def)
    with skipped_is_space [of ?s ?p] tokens_END [OF n True] show ?thesis by simp
  next
    case False
    with 1 n next_token_cases [OF n False] skipped_is_space [of ?s ?p] show ?thesis by (simp add: tokens_Cons)
  qed
qed

lemma tokens_mk_lexer: "laid_out s p (tokens (mk_lexer s p))"
  using tokens_laid_out [of "mk_lexer s p"] by (simp add: mk_lexer_def)

section \<open>What a token's text looks like\<close>

definition token_ok :: "string \<Rightarrow> token \<Rightarrow> bool" where
  "token_ok s t = (case kind t of
      END \<Rightarrow> False
    | IDENTIFIER \<Rightarrow> is_identifier_start (s ! tok_begin t) \<and> list_all is_identifier_part (token_text s t)
        \<and> (tok_end t = length s \<or> \<not> is_identifier_part (s ! tok_end t))
    | NUMBER \<Rightarrow> isdigit (s ! tok_begin t) \<and> list_all is_number_part (token_text s t)
        \<and> (tok_end t = length s \<or> \<not> is_number_part (s ! tok_end t))
    | LITERAL \<Rightarrow> list_ex (\<lambda>c. c = CHR 0x22 \<or> c = CHR 0x27) (token_text s t)
    | COMMENT \<Rightarrow> take 2 (token_text s t) \<in> {''//'', ''/*''}
    | PUNCTUATION \<Rightarrow> (tok_end t = tok_begin t + 1 \<or> token_text s t \<in> set punctuations)
        \<and> \<not> is_identifier_part (s ! tok_begin t) \<and> s ! tok_begin t \<notin> {CHR 0x22, CHR 0x27})"

lemma scan_while_run:
  assumes "i < length s" "P (s ! i)" "e = scan_while P s (i + 1)"
  shows "list_all P (substr s i (e - i)) \<and> (e = length s \<or> \<not> P (s ! e))"
proof -
  have le: "e \<le> length s" "i < e"
    using assms(1) scan_while_le [of "i + 1" s P] scan_while_ge [of "i + 1" P s]
    unfolding assms(3) by linarith+
  have "P (s ! k)" if "i \<le> k" "k < e" for k
    using that assms scan_while_all [of "i + 1" k P s] by (cases "k = i") auto
  then have "list_all P (substr s i (e - i))"
    using le by (auto simp: list_all_length substr_def)
  moreover have "e = length s \<or> \<not> P (s ! e)"
    using le(1) scan_while_stop [of P s "i + 1"] unfolding assms(3) by (metis le_neq_implies_less)
  ultimately show ?thesis by simp
qed

lemma list_ex_substr:
  assumes "P (s ! k)" "b \<le> k" "k < e" "e \<le> length s"
  shows "list_ex P (substr s b (e - b))"
proof -
  from assms have "substr s b (e - b) ! (k - b) = s ! k" "k - b < length (substr s b (e - b))"
    by (auto simp: substr_def)
  with assms(1) show ?thesis by (metis list_ex_length)
qed

lemma substr_prefix: "n \<le> m \<Longrightarrow> take n (substr s p m) = substr s p n"
  by (simp add: substr_def)

lemma token_at_ok:
  assumes p: "p < length s"
  shows "token_ok s (token_at s p)"
proof -
  note bounds = token_at_bounds [OF p]
  consider "substr s p 2 = ''//'' \<or> substr s p 2 = ''/*''"
    | quote where "substr s p 2 \<noteq> ''//''" "substr s p 2 \<noteq> ''/*''" "prefixed_quote_position s p = Some quote"
    | "substr s p 2 \<noteq> ''//''" "substr s p 2 \<noteq> ''/*''" "prefixed_quote_position s p = None"
    by (cases "prefixed_quote_position s p") auto
  then show ?thesis
  proof cases
    case 1
    then have "p + 2 \<le> length s" using substr_length [of s p 2 "substr s p 2", OF _ _ p] by auto
    then have "p + 2 \<le> tok_end (token_at s p)" and k: "kind (token_at s p) = COMMENT"
      using 1 block_comment_loop_bounds [of "p + 2" s] by (auto simp: token_at_def mk_token_def Let_def)
    then have "take 2 (token_text s (token_at s p)) = substr s p 2"
      using bounds by (simp add: token_text_def substr_prefix)
    with 1 k show ?thesis by (auto simp: token_ok_def)
  next
    case 2
    note q = prefixed_quote_in_text [OF p 2(3)]
    then have k: "kind (token_at s p) = LITERAL" and "quote < tok_end (token_at s p)"
      using 2 scan_quoted_bounds [of quote s] scan_raw_literal_bounds [of quote s]
      by (auto simp: token_at_def mk_token_def)
    with q bounds show ?thesis
      by (auto simp: token_ok_def token_text_def intro!: list_ex_substr [where k = quote])
  next
    case 3
    have punct: "find P punctuations = Some w \<Longrightarrow> w \<in> set punctuations \<and> P w" for P w
      by (auto simp: find_Some_iff)
    note run = scan_while_run [OF p _ refl]
    show ?thesis
    proof (cases "s ! p = CHR 0x22 \<or> s ! p = CHR 0x27")
      case True
      with 3 have "kind (token_at s p) = LITERAL" by (auto simp: token_at_def mk_token_def)
      with True bounds show ?thesis
        by (auto simp: token_ok_def token_text_def intro!: list_ex_substr [where k = p])
    next
      case False
      show ?thesis
        using 3 False run [of is_identifier_part] run [of is_number_part]
        by (auto simp: token_ok_def token_text_def token_at_def mk_token_def is_identifier_start_def is_identifier_part_def
            is_number_part_def isalnum_def split: option.splits dest!: punct)
    qed
  qed
qed

lemma tokens_ok: "list_all (token_ok (lex_input lx)) (tokens lx)"
proof (induction lx rule: tokens.induct)
  case (1 lx)
  obtain t lx' where n: "next_token lx = (t, lx')" by (cases "next_token lx")
  show ?case
  proof (cases "kind t = END")
    case False
    note t = next_token_cases [OF n False]
    then have "token_ok (lex_input lx) t"
      using token_at_ok [of "tok_begin t" "lex_input lx"] by simp
    with 1 n t False show ?thesis by (simp add: tokens_Cons)
  qed (simp add: tokens_END [OF n])
qed

section \<open>Matching brackets\<close>

record balanced_range =
  complete :: bool
  close_at :: nat

function balanced_loop :: "char \<Rightarrow> char \<Rightarrow> lexer \<Rightarrow> int \<Rightarrow> balanced_range" where
  "balanced_loop op cl lexer depth =
    (case next_token lexer of (token, lexer') \<Rightarrow>
      if kind token = END then \<lparr>complete = False, close_at = length (lex_input lexer)\<rparr>
      else let txt = token_text (lex_input lexer) token in
        if tok_end token = tok_begin token + 1 \<and> txt ! 0 = op then balanced_loop op cl lexer' (depth + 1)
        else if tok_end token = tok_begin token + 1 \<and> txt ! 0 = cl
        then if depth - 1 = 0 then \<lparr>complete = True, close_at = tok_begin token\<rparr>
          else balanced_loop op cl lexer' (depth - 1)
        else balanced_loop op cl lexer' depth)"
  by pat_completeness auto
termination by (relation "measure (\<lambda>(op, cl, lx, d). unread lx)") (auto simp: next_token_smaller)

declare balanced_loop.simps [simp del]

definition scan_balanced :: "string \<Rightarrow> nat \<Rightarrow> char \<Rightarrow> char \<Rightarrow> balanced_range" where
  "scan_balanced source body_start op cl = balanced_loop op cl (mk_lexer source body_start) 1"

text \<open>
  The specification: the depth after a list of tokens, and the first token that closes more than was opened.
\<close>

definition weight :: "string \<Rightarrow> char \<Rightarrow> char \<Rightarrow> token \<Rightarrow> int" where
  "weight s op cl t = (if token_text s t = [op] then 1 else if token_text s t = [cl] then - 1 else 0)"

fun first_unmatched :: "string \<Rightarrow> char \<Rightarrow> char \<Rightarrow> int \<Rightarrow> token list \<Rightarrow> token option" where
  "first_unmatched s op cl d [] = None"
| "first_unmatched s op cl d (t # ts) =
    (if d + weight s op cl t < 0 then Some t else first_unmatched s op cl (d + weight s op cl t) ts)"

lemma one_char_token:
  assumes "tok_begin t < tok_end t" "tok_end t \<le> length s"
  shows "token_text s t = [c] \<longleftrightarrow> tok_end t = tok_begin t + 1 \<and> token_text s t ! 0 = c"
proof -
  have "length (token_text s t) = tok_end t - tok_begin t" using assms by (auto simp: token_text_def substr_def)
  then show ?thesis using assms(1) by (auto simp: list_eq_iff_nth_eq)
qed

lemma balanced_loop_first_unmatched:
  assumes "0 < depth"
  shows "balanced_loop op cl lx depth =
    (case first_unmatched (lex_input lx) op cl (depth - 1) (tokens lx) of
       None \<Rightarrow> \<lparr>complete = False, close_at = length (lex_input lx)\<rparr>
     | Some t \<Rightarrow> \<lparr>complete = True, close_at = tok_begin t\<rparr>)"
  using assms
proof (induction op cl lx depth rule: balanced_loop.induct)
  case (1 op cl lx depth)
  obtain t lx' where n: "next_token lx = (t, lx')" by (cases "next_token lx")
  show ?case
  proof (cases "kind t = END")
    case True
    with n show ?thesis by (simp add: balanced_loop.simps [of op cl lx] tokens_END)
  next
    case False
    note t = next_token_cases [OF n False]
    note one = one_char_token [OF t(2,3)]
    note IH = "1.IH" [OF n [symmetric] False refl]
    show ?thesis
      using n False t(5) IH "1.prems"
      by (auto simp: balanced_loop.simps [of op cl lx] tokens_Cons weight_def one Let_def cong: option.case_cong)
  qed
qed

lemma first_unmatched_spec:
  assumes "first_unmatched s op cl d ts = Some t" "0 \<le> d"
  shows "\<exists>us vs. ts = us @ t # vs \<and> token_text s t = [cl] \<and> d + (\<Sum>u\<leftarrow>us. weight s op cl u) = 0
    \<and> (\<forall>k \<le> length us. 0 \<le> d + (\<Sum>u\<leftarrow>take k us. weight s op cl u))"
  using assms
proof (induction ts arbitrary: d)
  case (Cons u ts)
  show ?case
  proof (cases "d + weight s op cl u < 0")
    case True
    with Cons.prems show ?thesis
      by (intro exI [of _ "[]"] exI [of _ ts]) (auto simp: weight_def split: if_splits)
  next
    case False
    with Cons.prems Cons.IH [of "d + weight s op cl u"] obtain us vs where
      *: "ts = us @ t # vs" "token_text s t = [cl]" "d + weight s op cl u + (\<Sum>u\<leftarrow>us. weight s op cl u) = 0"
        "\<forall>k \<le> length us. 0 \<le> d + weight s op cl u + (\<Sum>u\<leftarrow>take k us. weight s op cl u)"
      by auto
    have "0 \<le> d + (\<Sum>u\<leftarrow>take k (u # us). weight s op cl u)" if "k \<le> length (u # us)" for k
      using that * Cons.prems(2) by (cases k) (auto simp: add.assoc)
    with * show ?thesis by (intro exI [of _ "u # us"] exI [of _ vs]) (auto simp: add.assoc)
  qed
qed simp

lemma first_unmatched_None:
  "first_unmatched s op cl d ts = None \<Longrightarrow> 0 \<le> d \<Longrightarrow>
   \<forall>k \<le> length ts. 0 \<le> d + (\<Sum>u\<leftarrow>take k ts. weight s op cl u)"
proof (induction ts arbitrary: d)
  case (Cons u ts)
  then have ge: "0 \<le> d + weight s op cl u" by (auto split: if_splits)
  with Cons have *: "\<forall>k \<le> length ts. 0 \<le> d + weight s op cl u + (\<Sum>u\<leftarrow>take k ts. weight s op cl u)"
    by (auto split: if_splits)
  show ?case
  proof (intro allI impI)
    fix k assume "k \<le> length (u # ts)"
    with * Cons.prems(2) show "0 \<le> d + (\<Sum>u\<leftarrow>take k (u # ts). weight s op cl u)"
      by (cases k) (auto simp: add.assoc)
  qed
qed simp

lemmas scan_balanced_first_unmatched =
  balanced_loop_first_unmatched [of 1, simplified, folded scan_balanced_def]

lemma scan_balanced_bounds:
  assumes "scan_balanced s p op cl = r" "complete r" "p \<le> length s"
  shows "p \<le> close_at r" "close_at r < length s" "s ! close_at r = cl"
proof -
  have lo: "laid_out s p ts \<Longrightarrow> t \<in> set ts \<Longrightarrow> p \<le> tok_begin t \<and> tok_begin t < tok_end t \<and> tok_end t \<le> length s" for t ts p
  proof (induction ts arbitrary: p)
    case (Cons u us)
    then have "tok_end u \<le> tok_begin t \<and> tok_begin t < tok_end t \<and> tok_end t \<le> length s" if "t \<noteq> u" using that by auto
    with Cons.prems show ?case by force
  qed simp
  from assms(1,2) obtain t where t: "first_unmatched s op cl 0 (tokens (mk_lexer s p)) = Some t" "close_at r = tok_begin t"
    by (auto simp: scan_balanced_def balanced_loop_first_unmatched mk_lexer_def split: option.splits)
  from first_unmatched_spec [OF t(1)] have tt: "t \<in> set (tokens (mk_lexer s p))" "token_text s t = [cl]" by auto
  from lo [OF tokens_mk_lexer tt(1)] have b: "p \<le> tok_begin t" "tok_begin t < tok_end t" "tok_end t \<le> length s" by auto
  with t(2) show "p \<le> close_at r" "close_at r < length s" by auto
  from tt(2) b one_char_token [OF b(2,3), of cl] show "s ! close_at r = cl"
    by (simp add: t(2) token_text_def substr_def) (metis Suc_le_lessD nth_via_drop take_Suc_Cons take_0 Cons_nth_drop_Suc list.inject)
qed

end
