(* ===== verification/Preprocessor.thy ===== *)
theory Preprocessor
  imports Pp_Lexer
begin

text \<open>
  \<^verbatim>\<open>tools/preprocessor.cc\<close>, its second half: the directives \<open>@embed\<close>, \<open>@enum_values\<close>, \<open>@enum_to_string\<close>,
  \<open>@T\<close> and \<open>@for\<close>, the scans for constants and enumerations that come before them, and the state machine of
  \<open>run\<close>. An \<^verbatim>\<open>assert\<close> of the tool (it is built with assertions) is a \<open>kstd_assert\<close>, reading a view past its end
  and signed overflow, which C++ leaves undefined, are errors as well.

  Reading and decoding the embedded file is an argument, \<open>get_data\<close>. Line counters and positions are \<open>nat\<close>,
  \<^verbatim>\<open>s64\<close> values \<open>int\<close> whose range is checked where the code computes.
\<close>

section \<open>Library functions on strings\<close>

text \<open>\<^verbatim>\<open>s.find(pattern, i)\<close>, and the last position of a character in a set.\<close>

function find_from :: "string \<Rightarrow> string \<Rightarrow> nat \<Rightarrow> nat option" where
  "find_from s pattern i =
    (if i \<le> length s \<and> substr s i (length pattern) = pattern then Some i
     else if i < length s then find_from s pattern (i + 1)
     else None)"
  by pat_completeness auto
termination by (relation "measure (\<lambda>(s, w, i). length s - i)") auto

declare find_from.simps [simp del]

definition find_last_of :: "string \<Rightarrow> (char \<Rightarrow> bool) \<Rightarrow> nat option" where
  "find_last_of s P = (let r = dropWhile (\<lambda>c. \<not> P c) (rev s) in if r = [] then None else Some (length r - 1))"

definition is_blank :: "char \<Rightarrow> bool" where
  "is_blank c \<longleftrightarrow> c = CHR '' '' \<or> c = CHR 0x09"

definition is_trimmed :: "char \<Rightarrow> bool" where
  "is_trimmed c \<longleftrightarrow> c \<in> {CHR '' '', CHR 0x09, CHR 0x0D, CHR 0x0A}"

definition trim :: "string \<Rightarrow> string" where
  "trim v = rev (dropWhile is_trimmed (rev (dropWhile is_trimmed v)))"

text \<open>\<^verbatim>\<open>std::to_string\<close> of an integer.\<close>

definition digit_of :: "nat \<Rightarrow> char" where
  "digit_of d = char_of (48 + d)"

fun digits_of :: "nat \<Rightarrow> string" where
  "digits_of n = (if n < 10 then [digit_of n] else digits_of (n div 10) @ [digit_of (n mod 10)])"

declare digits_of.simps [simp del]

definition to_string :: "int \<Rightarrow> string" where
  "to_string v = (if v < 0 then CHR ''-'' # digits_of (nat (- v)) else digits_of (nat v))"

text \<open>
  \<^verbatim>\<open>std::stoll(s, &end, 0)\<close>: white space, a sign, a prefix that gives the base, digits; the value and the number of
  characters read, or an exception (\<open>None\<close>) when there are no digits or the value is out of range.
\<close>

definition S64_MIN :: int where "S64_MIN = - 9223372036854775808"
definition S64_MAX :: int where "S64_MAX = 9223372036854775807"

definition digit_value :: "char \<Rightarrow> nat" where
  "digit_value c =
    (let n = of_char c :: nat in
     if isdigit c then n - 48 else if 97 \<le> n \<and> n \<le> 122 then n - 87 else if 65 \<le> n \<and> n \<le> 90 then n - 55 else 36)"

definition stoll :: "string \<Rightarrow> (int \<times> nat) option" where
  "stoll s =
    (let spaces = takeWhile isspace s;
         r1 = drop (length spaces) s;
         signed = r1 \<noteq> [] \<and> hd r1 \<in> {CHR ''-'', CHR ''+''};
         negative = r1 \<noteq> [] \<and> hd r1 = CHR ''-'';
         r2 = (if signed then tl r1 else r1);
         hex = length r2 > 2 \<and> hd r2 = CHR ''0'' \<and> r2 ! 1 \<in> {CHR ''x'', CHR ''X''} \<and> digit_value (r2 ! 2) < 16;
         radix = (if hex then 16 else if r2 \<noteq> [] \<and> hd r2 = CHR ''0'' then 8 else 10 :: nat);
         r3 = (if hex then drop 2 r2 else r2);
         ds = takeWhile (\<lambda>c. digit_value c < radix) r3;
         magnitude = foldl (\<lambda>v c. v * int radix + int (digit_value c)) 0 ds;
         number = (if negative then - magnitude else magnitude)
     in if ds = [] \<or> number < S64_MIN \<or> S64_MAX < number then None
        else Some (number, length s - length r3 + length ds))"

text \<open>\<^verbatim>\<open>std::filesystem\<close>: joining, the last component, equality component by component.\<close>

definition path_join :: "string \<Rightarrow> string \<Rightarrow> string" where
  "path_join a p =
    (if p \<noteq> [] \<and> hd p = CHR ''/'' then p
     else if a = [] \<or> last a = CHR ''/'' then a @ p
     else a @ ''/'' @ p)"

definition filename :: "string \<Rightarrow> string" where
  "filename p = rev (takeWhile (\<lambda>c. c \<noteq> CHR ''/'') (rev p))"

fun path_parts :: "string \<Rightarrow> string \<Rightarrow> string list" where
  "path_parts acc [] = [acc]"
| "path_parts acc (c # cs) = (if c = CHR ''/'' then acc # path_parts [] cs else path_parts (acc @ [c]) cs)"

definition path_key :: "string \<Rightarrow> bool \<times> bool \<times> string list" where
  "path_key p = (p \<noteq> [] \<and> hd p = CHR ''/'', p \<noteq> [] \<and> last p = CHR ''/'', filter (\<lambda>w. w \<noteq> []) (path_parts [] p))"

section \<open>Resources\<close>

record resource =
  res_path :: string
  res_name :: string
  res_data :: "u8 list"
  res_size :: "u32 \<times> u32"

type_synonym loader = "string \<Rightarrow> (u8 list \<times> (u32 \<times> u32)) outcome"

definition embed_identifier :: "string \<Rightarrow> string" where
  "embed_identifier path = ''__embedded__'' @ map (\<lambda>c. if isalnum c then c else CHR ''_'') (filename path)"

definition find_or_create ::
  "loader \<Rightarrow> string \<Rightarrow> string \<Rightarrow> resource list \<Rightarrow> (resource \<times> resource list) outcome" where
  "find_or_create get_data asset_path name resources =
    (case find (\<lambda>r. path_key (res_path r) = path_key asset_path) resources of
       Some r \<Rightarrow> Inr (r, resources)
     | None \<Rightarrow> obind (get_data asset_path) (\<lambda>(data, sz).
         let r = \<lparr>res_path = asset_path, res_name = name, res_data = data, res_size = sz\<rparr>
         in Inr (r, resources @ [r])))"

section \<open>The preprocessor's state\<close>

datatype pp_mode = NORMAL | STRING | CHAR_LITERAL | LINE_COMMENT | BLOCK_COMMENT

record pp =
  pp_assets :: string
  pp_pool :: "resource list"
  pp_mode :: pp_mode
  pp_input :: string
  pp_pos :: nat
  pp_line :: nat
  pp_output :: string
  has_embed :: bool
  enum_map :: "string \<Rightarrow> string list option"
  constants :: "string \<Rightarrow> int option"

definition emit :: "string \<Rightarrow> pp \<Rightarrow> pp" where
  "emit w p = p\<lparr>pp_output := pp_output p @ w\<rparr>"

definition peek :: "pp \<Rightarrow> char" where
  "peek p = (if pp_pos p \<ge> length (pp_input p) then CHR 0x00 else pp_input p ! pp_pos p)"

definition get :: "pp \<Rightarrow> (char \<times> pp) outcome" where
  "get p =
    kstd_assert (pp_pos p < length (pp_input p)) ''read past the end of the input''
     (let c = pp_input p ! pp_pos p in
      Inr (c, p\<lparr>pp_pos := pp_pos p + 1, pp_line := (if c = CHR 0x0A then pp_line p + 1 else pp_line p)\<rparr>))"

lemma get_InrD:
  "get p = Inr (c, p') \<Longrightarrow> pp_pos p < length (pp_input p) \<and> c = pp_input p ! pp_pos p
     \<and> p' = p\<lparr>pp_pos := pp_pos p + 1, pp_line := (if c = CHR 0x0A then pp_line p + 1 else pp_line p)\<rparr>"
  by (auto simp: get_def Let_def kstd_assert_Inr_iff)

definition match :: "string \<Rightarrow> pp \<Rightarrow> pp option" where
  "match w p = (if substr (pp_input p) (pp_pos p) (length w) = w then Some (p\<lparr>pp_pos := pp_pos p + length w\<rparr>) else None)"

definition to_read :: "pp \<Rightarrow> nat" where
  "to_read p = length (pp_input p) - pp_pos p"

lemma get_reads [termination_simp]: "get p = Inr (c, p') \<Longrightarrow> to_read p' < to_read p"
  by (auto dest!: get_InrD simp: to_read_def)

function consume_to :: "nat \<Rightarrow> pp \<Rightarrow> pp outcome" where
  "consume_to target p = (if pp_pos p < target then obind (get p) (\<lambda>(c, p'). consume_to target p') else Inr p)"
  by pat_completeness auto
termination by (relation "measure (\<lambda>(n, p). to_read p)") (auto simp: get_reads)

text \<open>\<^verbatim>\<open>while (std::isspace(peek())) get()\<close>, and reading up to a character or the end.\<close>

function skip_spaces :: "pp \<Rightarrow> pp outcome" where
  "skip_spaces p = (if isspace (peek p) then obind (get p) (\<lambda>(c, p'). skip_spaces p') else Inr p)"
  by pat_completeness auto
termination by (relation "measure to_read") (auto simp: get_reads)

function read_until :: "char \<Rightarrow> string \<Rightarrow> pp \<Rightarrow> (string \<times> pp) outcome" where
  "read_until stop acc p =
    (if peek p \<noteq> stop \<and> peek p \<noteq> CHR 0x00 then obind (get p) (\<lambda>(c, p'). read_until stop (acc @ [c]) p')
     else Inr (acc, p))"
  by pat_completeness auto
termination by (relation "measure (\<lambda>(c, a, p). to_read p)") (auto simp: get_reads)

declare consume_to.simps [simp del] skip_spaces.simps [simp del] read_until.simps [simp del]

definition expect :: "char \<Rightarrow> string \<Rightarrow> pp \<Rightarrow> pp outcome" where
  "expect c msg p = obind (get p) (\<lambda>(d, p'). kstd_assert (d = c) msg (Inr p'))"

section \<open>Directives\<close>

definition embed_state :: "loader \<Rightarrow> pp \<Rightarrow> pp outcome" where
  "embed_state get_data p =
    obind (skip_spaces p) (\<lambda>p.
    obind (expect CHR 0x22 ''@embed expects string'' p) (\<lambda>p.
    obind (read_until CHR 0x22 [] p) (\<lambda>(path, p).
    obind (expect CHR 0x22 ''Unterminated @embed'' p) (\<lambda>p.
    obind (skip_spaces p) (\<lambda>p.
    obind (expect CHR '')'' ''Expected )'' p) (\<lambda>p.
    obind (find_or_create get_data (path_join (pp_assets p) path) (embed_identifier path) (pp_pool p)) (\<lambda>(r, pool).
      Inr (emit (res_name r) (p\<lparr>has_embed := True, pp_pool := pool\<rparr>)))))))))"

definition typename_state :: "pp \<Rightarrow> pp outcome" where
  "typename_state p =
    (let range = scan_balanced (pp_input p) (pp_pos p) CHR ''('' CHR '')'' in
     kstd_assert (complete range) ''Unterminated @T''
      (let expr = substr (pp_input p) (pp_pos p) (close_at range - pp_pos p) in
       obind (consume_to (close_at range + 1) p) (\<lambda>p. Inr (emit (''typename '' @ expr) p))))"

definition constant_value :: "(string \<Rightarrow> int option) \<Rightarrow> string \<Rightarrow> int outcome" where
  "constant_value consts expr0 =
    (let expr = trim expr0 in
     case consts expr of
       Some v \<Rightarrow> Inr v
     | None \<Rightarrow> (case stoll expr of
         None \<Rightarrow> Inl ''@for expects an integer expression''
       | Some (v, e) \<Rightarrow> kstd_assert (e = length expr) ''@for expects an integer expression'' (Inr v)))"

text \<open>The constants a line defines: by \<^verbatim>\<open>#define\<close>, and by \<^verbatim>\<open>constexpr\<close>.\<close>

definition whole_number :: "string \<Rightarrow> int option" where
  "whole_number v = (case stoll v of Some (n, e) \<Rightarrow> if e = length v then Some n else None | None \<Rightarrow> None)"

definition scan_define :: "string \<Rightarrow> (string \<Rightarrow> int option) \<Rightarrow> string \<Rightarrow> int option" where
  "scan_define line consts =
    (if substr line 0 8 = ''#define '' then
       let def = trim (drop 8 line); split = scan_while (\<lambda>c. \<not> is_blank c) def 0 in
       if split < length def then
         let name = take split def; v = trim (drop (split + 1) def) in
         if name \<noteq> [] \<and> v \<noteq> [] then
           case whole_number v of Some n \<Rightarrow> consts(name \<mapsto> n) | None \<Rightarrow> consts
         else consts
       else consts
     else consts)"

definition scan_constexpr :: "string \<Rightarrow> (string \<Rightarrow> int option) \<Rightarrow> string \<Rightarrow> int option" where
  "scan_constexpr line consts =
    (case find_from line ''constexpr '' 0 of
       None \<Rightarrow> consts
     | Some at \<Rightarrow> (case find_char line CHR ''='' (at + 10) of
         None \<Rightarrow> consts
       | Some equals \<Rightarrow>
           let decl = trim (substr line (at + 10) (equals - at - 10));
               name = (case find_last_of decl is_blank of None \<Rightarrow> decl | Some space \<Rightarrow> drop (space + 1) decl);
               v = trim (drop (equals + 1) line);
               v = (if v \<noteq> [] \<and> last v = CHR '';'' then butlast v else v)
           in if name \<noteq> [] then
                case whole_number (trim v) of Some n \<Rightarrow> consts(name \<mapsto> n) | None \<Rightarrow> consts
              else consts))"

function prescan_constants :: "string \<Rightarrow> nat \<Rightarrow> (string \<Rightarrow> int option) \<Rightarrow> string \<Rightarrow> int option" where
  "prescan_constants s i consts =
    (if i < length s then
       let line_end = scan_while (\<lambda>c. c \<noteq> CHR 0x0A) s i;
           line = trim (substr s i (line_end - i));
           consts = scan_constexpr line (scan_define line consts)
       in prescan_constants s (if line_end = length s then length s else line_end + 1) consts
     else consts)"
  by pat_completeness auto
termination
  by (relation "measure (\<lambda>(s, i, c). length s - i)") (auto intro: diff_less_mono2 order_less_le_trans [OF _ scan_while_ge] simp: less_Suc_eq_le)

declare prescan_constants.simps [simp del]

function replace_loop :: "string \<Rightarrow> int \<Rightarrow> lexer \<Rightarrow> nat \<Rightarrow> string \<Rightarrow> string" where
  "replace_loop variable v lexer copied result =
    (let body = lex_input lexer in
     case next_token lexer of (token, lexer') \<Rightarrow>
       if kind token = END then result @ drop copied body
       else replace_loop variable v lexer' (tok_end token)
         (result @ substr body copied (tok_begin token - copied)
          @ (if kind token = IDENTIFIER \<and> token_text body token = variable then to_string v
             else substr body (tok_begin token) (tok_end token - tok_begin token))))"
  by pat_completeness auto
termination by (relation "measure (\<lambda>(w, v, lx, c, r). unread lx)") (auto simp: next_token_smaller)

declare replace_loop.simps [simp del]

definition replace_for_variable :: "string \<Rightarrow> string \<Rightarrow> int \<Rightarrow> string" where
  "replace_for_variable body variable v = replace_loop variable v (mk_lexer body 0) 0 []"

subsection \<open>Unrolled loops\<close>

text \<open>The two semicolons of a header.\<close>

function semicolons :: "lexer \<Rightarrow> nat option \<Rightarrow> nat option \<times> nat option" where
  "semicolons lexer first =
    (case next_token lexer of (token, lexer') \<Rightarrow>
      if kind token = END then (first, None)
      else if token_text (lex_input lexer) token \<noteq> '';'' then semicolons lexer' first
      else case first of None \<Rightarrow> semicolons lexer' (Some (tok_begin token)) | Some k \<Rightarrow> (first, Some (tok_begin token)))"
  by pat_completeness auto
termination by (relation "measure (\<lambda>(lx, f). unread lx)") (auto simp: next_token_smaller)

declare semicolons.simps [simp del]

datatype comparator = LESS | LESS_EQUAL | GREATER | GREATER_EQUAL

definition comparator_text :: "comparator \<Rightarrow> string" where
  "comparator_text c = (case c of LESS \<Rightarrow> ''<'' | LESS_EQUAL \<Rightarrow> ''<='' | GREATER \<Rightarrow> ''>'' | GREATER_EQUAL \<Rightarrow> ''>='')"

text \<open>The first comparator that occurs, in the order of the code, with what follows it.\<close>

definition find_comparator :: "string \<Rightarrow> (comparator \<times> string) option" where
  "find_comparator condition =
    (case find (\<lambda>c. find_from condition (comparator_text c) 0 \<noteq> None) [LESS_EQUAL, GREATER_EQUAL, LESS, GREATER] of
       None \<Rightarrow> None
     | Some c \<Rightarrow> Some (c, trim (drop (the (find_from condition (comparator_text c) 0) + length (comparator_text c)) condition)))"

fun condition_holds :: "comparator \<Rightarrow> int \<Rightarrow> int \<Rightarrow> bool" where
  "condition_holds LESS limit v = (v < limit)"
| "condition_holds LESS_EQUAL limit v = (v \<le> limit)"
| "condition_holds GREATER limit v = (v > limit)"
| "condition_holds GREATER_EQUAL limit v = (v \<ge> limit)"

fun ascending :: "comparator \<Rightarrow> bool" where
  "ascending LESS = True"
| "ascending LESS_EQUAL = True"
| "ascending GREATER = False"
| "ascending GREATER_EQUAL = False"

definition loop_step :: "string \<Rightarrow> int" where
  "loop_step increment =
    (if find_from increment ''++'' 0 \<noteq> None then 1 else if find_from increment ''--'' 0 \<noteq> None then - 1 else 0)"

text \<open>One copy of the body.\<close>

definition for_copy :: "nat \<Rightarrow> string \<Rightarrow> string \<Rightarrow> string \<Rightarrow> int \<Rightarrow> string" where
  "for_copy body_line indent body variable v =
    ''#line '' @ to_string (int body_line) @ [CHR 0x0A] @ indent @ ''{''
    @ (let expanded_body = replace_for_variable body variable v in
       expanded_body @ (if expanded_body \<noteq> [] \<and> last expanded_body = CHR 0x0A then indent else []))
    @ ''}'' @ [CHR 0x0A]"

text \<open>
  The unrolling. The step is 1 or -1, \<open>up\<close> says which; the code has checked that it moves towards the limit.
  A step out of the range of \<^verbatim>\<open>s64\<close> is the undefined overflow of \<^verbatim>\<open>value += step\<close>.
\<close>

function for_loop :: "(int \<Rightarrow> string) \<Rightarrow> comparator \<Rightarrow> int \<Rightarrow> bool \<Rightarrow> int \<Rightarrow> string \<Rightarrow> string outcome" where
  "for_loop copy c limit up v out =
    (if condition_holds c limit v then
       let next_value = (if up then v + 1 else v - 1) in
       kstd_assert (S64_MIN \<le> next_value \<and> next_value \<le> S64_MAX) ''signed overflow''
        (for_loop copy c limit up next_value (out @ copy v))
     else Inr out)"
  by pat_completeness auto

termination
  by (relation "measure (\<lambda>(f, c, l, up, v, out). if up then nat (S64_MAX - v) else nat (v - S64_MIN))") (auto split: if_splits)

declare for_loop.simps [simp del]

definition indent_at :: "string \<Rightarrow> nat \<Rightarrow> string" where
  "indent_at s directive_pos =
    (let line_start = (case find_last_of (take (directive_pos + 1) s) (\<lambda>c. c = CHR 0x0A) of None \<Rightarrow> 0 | Some k \<Rightarrow> k + 1);
         indent_end = (scan_while is_blank (take directive_pos s) line_start)
     in substr s line_start (indent_end - line_start))"

record for_header =
  variable :: string
  comparator :: comparator
  start_text :: string
  limit_text :: string
  increment_text :: string

definition parse_header :: "string \<Rightarrow> for_header outcome" where
  "parse_header header =
    (case semicolons (mk_lexer header 0) None of
       (Some first, Some second) \<Rightarrow>
         let init = trim (take first header);
             condition = trim (substr header (first + 1) (second - first - 1));
             increment = trim (drop (second + 1) header)
         in (case find_char init CHR ''='' 0 of
           None \<Rightarrow> Inl ''@for init expects variable = value''
         | Some equals \<Rightarrow>
           let declared = trim (take equals init);
               name = (case find_last_of declared is_blank of None \<Rightarrow> declared | Some space \<Rightarrow> drop (space + 1) declared)
           in (case find_comparator condition of
             None \<Rightarrow> Inl ''@for condition expects <, <=, >, or >=''
           | Some (c, limit) \<Rightarrow>
             Inr \<lparr>variable = name, comparator = c, start_text = drop (equals + 1) init, limit_text = limit,
               increment_text = increment\<rparr>))
     | _ \<Rightarrow> Inl ''@for expects init; condition; increment'')"

definition for_body :: "nat \<Rightarrow> for_header \<Rightarrow> pp \<Rightarrow> pp outcome" where
  "for_body directive_pos h p =
    obind (constant_value (constants p) (start_text h)) (\<lambda>start.
    obind (constant_value (constants p) (limit_text h)) (\<lambda>limit.
    let step = loop_step (increment_text h) in
    kstd_assert (step \<noteq> 0) ''@for increment expects ++variable or --variable''
   (obind (skip_spaces p) (\<lambda>p.
    obind (expect CHR ''{'' ''@for expects a braced body'' p) (\<lambda>p.
    let body_line = pp_line p;
        body_start = pp_pos p;
        body_range = scan_balanced (pp_input p) body_start CHR ''{'' CHR ''}''
    in kstd_assert (complete body_range) ''Unterminated @for body''
   (let body = substr (pp_input p) body_start (close_at body_range - body_start) in
    obind (consume_to (close_at body_range + 1) p) (\<lambda>p.
    let after_line = pp_line p; indent = indent_at (pp_input p) directive_pos in
    kstd_assert ((step > 0) = ascending (comparator h)) ''@for increment moves away from loop condition''
   (obind (for_loop (for_copy body_line indent body (variable h)) (comparator h) limit (step > 0) start (pp_output p)) (\<lambda>out.
    Inr (p\<lparr>pp_output := out @ ''#line '' @ to_string (int after_line) @ [CHR 0x0A]\<rparr>))))))))))"

definition for_state :: "nat \<Rightarrow> pp \<Rightarrow> pp outcome" where
  "for_state directive_pos p =
    (let header_range = scan_balanced (pp_input p) (pp_pos p) CHR ''('' CHR '')'' in
     kstd_assert (complete header_range) ''Unterminated @for header''
    (let header = substr (pp_input p) (pp_pos p) (close_at header_range - pp_pos p) in
     obind (consume_to (close_at header_range + 1) p) (\<lambda>p.
     obind (parse_header header) (\<lambda>h. for_body directive_pos h p))))"

section \<open>Enumerations\<close>

text \<open>The loops of \<open>prescan_enums\<close>, each over the current token and the lexer.\<close>

definition ahead :: "token \<Rightarrow> lexer \<Rightarrow> nat" where
  "ahead token lexer = unread lexer + (if kind token = END then 0 else 1)"

lemma next_ahead [termination_simp]:
  assumes "(t', lx') = next_token lx" "kind t \<noteq> END"
  shows "ahead t' lx' < ahead t lx"
  using next_token_progress [of lx t' lx'] next_token_unread_le [of lx t' lx'] assms
  by (cases "kind t' = END") (auto simp: ahead_def)

function skip_to_brace :: "token \<Rightarrow> lexer \<Rightarrow> token \<times> lexer" where
  "skip_to_brace token lexer =
    (if kind token \<noteq> END \<and> token_text (lex_input lexer) token \<noteq> ''{''
     then case next_token lexer of (token', lexer') \<Rightarrow> skip_to_brace token' lexer'
     else (token, lexer))"
  by pat_completeness auto
termination
  by (relation "measure (case_prod ahead)") (rule wf_measure, metis case_prod_conv in_measure next_ahead)

record brackets =
  parentheses :: int
  square :: int
  braces :: int
  angles :: int

definition no_brackets :: brackets where
  "no_brackets = \<lparr>parentheses = 0, square = 0, braces = 0, angles = 0\<rparr>"

text \<open>What one token of an initializer does to the counters; \<open>None\<close> ends the initializer.\<close>

definition count_bracket :: "string \<Rightarrow> brackets \<Rightarrow> brackets option" where
  "count_bracket txt b =
    (if txt = ''('' then Some (b\<lparr>parentheses := parentheses b + 1\<rparr>)
     else if txt = '')'' \<and> parentheses b > 0 then Some (b\<lparr>parentheses := parentheses b - 1\<rparr>)
     else if txt = ''['' then Some (b\<lparr>square := square b + 1\<rparr>)
     else if txt = '']'' \<and> square b > 0 then Some (b\<lparr>square := square b - 1\<rparr>)
     else if txt = ''{'' then Some (b\<lparr>braces := braces b + 1\<rparr>)
     else if txt = ''}'' \<and> braces b > 0 then Some (b\<lparr>braces := braces b - 1\<rparr>)
     else if txt = ''<'' then Some (b\<lparr>angles := angles b + 1\<rparr>)
     else if txt = ''>'' \<and> angles b > 0 then Some (b\<lparr>angles := angles b - 1\<rparr>)
     else if txt = ''>>'' \<and> angles b > 0 then Some (b\<lparr>angles := max 0 (angles b - 2)\<rparr>)
     else if (txt = '','' \<or> txt = ''}'') \<and> b = no_brackets then None
     else Some b)"

function skip_initializer :: "token \<Rightarrow> lexer \<Rightarrow> brackets \<Rightarrow> token \<times> lexer" where
  "skip_initializer token lexer b =
    (if kind token \<noteq> END then
       case count_bracket (token_text (lex_input lexer) token) b of
         None \<Rightarrow> (token, lexer)
       | Some b' \<Rightarrow> (case next_token lexer of (token', lexer') \<Rightarrow> skip_initializer token' lexer' b')
     else (token, lexer))"
  by pat_completeness auto
termination
  by (relation "measure (\<lambda>(t, lx, b). ahead t lx)") (rule wf_measure, metis case_prod_conv in_measure next_ahead)

declare skip_to_brace.simps [simp del] skip_initializer.simps [simp del]

lemma skip_to_brace_le: "ahead (fst (skip_to_brace t lx)) (snd (skip_to_brace t lx)) \<le> ahead t lx
    \<and> lex_input (snd (skip_to_brace t lx)) = lex_input lx"
proof (induction t lx rule: skip_to_brace.induct)
  case (1 t lx)
  obtain t' lx' where n: "next_token lx = (t', lx')" by (cases "next_token lx")
  show ?case
  proof (cases "kind t \<noteq> END \<and> token_text (lex_input lx) t \<noteq> ''{''")
    case True
    with n have "skip_to_brace t lx = skip_to_brace t' lx'" by (subst skip_to_brace.simps) simp
    with "1.IH" [OF True n [symmetric]] next_ahead [OF n [symmetric], of t] next_token_input [of lx] n True
    show ?thesis by auto
  qed (subst (1 2 3) skip_to_brace.simps, auto)
qed

lemma skip_initializer_le: "ahead (fst (skip_initializer t lx b)) (snd (skip_initializer t lx b)) \<le> ahead t lx
    \<and> lex_input (snd (skip_initializer t lx b)) = lex_input lx"
proof (induction t lx b rule: skip_initializer.induct)
  case (1 t lx b)
  obtain t' lx' where n: "next_token lx = (t', lx')" by (cases "next_token lx")
  show ?case
  proof (cases "kind t = END \<or> count_bracket (token_text (lex_input lx) t) b = None")
    case False
    then obtain b' where b: "count_bracket (token_text (lex_input lx) t) b = Some b'" by auto
    with n False have "skip_initializer t lx b = skip_initializer t' lx' b'" by (subst skip_initializer.simps) simp
    with "1.IH" [OF _ b n [symmetric]] next_ahead [OF n [symmetric], of t] next_token_input [of lx] n False
    show ?thesis by auto
  qed (subst (1 2 3) skip_initializer.simps, auto)
qed

lemma text_of_END: "next_token lx = (t, lx') \<Longrightarrow> kind t = END \<Longrightarrow> token_text s t = []"
  using next_token_END [of lx]
  by (auto simp: next_token_def Let_def mk_token_def token_text_def substr_def split: if_splits)

function enumerators :: "token \<Rightarrow> lexer \<Rightarrow> string list \<Rightarrow> string list \<times> lexer" where
  "enumerators token lexer values =
    (let txt = token_text (lex_input lexer) token in
     if kind token \<noteq> END \<and> txt \<noteq> ''}'' then
       case next_token lexer of (token1, lexer1) \<Rightarrow>
         if txt = '','' \<or> kind token \<noteq> IDENTIFIER then enumerators token1 lexer1 values
         else if token_text (lex_input lexer) token1 \<noteq> ''='' then enumerators token1 lexer1 (values @ [txt])
         else case next_token lexer1 of (token2, lexer2) \<Rightarrow>
           case skip_initializer token2 lexer2 no_brackets of (token3, lexer3) \<Rightarrow>
             enumerators token3 lexer3 (values @ [txt])
     else (values, lexer))"
  by pat_completeness auto

termination
proof (relation "measure (\<lambda>(t, lx, vs). ahead t lx)", goal_cases)
  case (4 token lexer vals tx token1 lexer1 token2 lexer2 token3 lexer3)
  then have n: "next_token lexer = (token1, lexer1)" "next_token lexer1 = (token2, lexer2)" by auto
  have "kind token1 \<noteq> END" using 4 text_of_END [OF n(1)] by auto
  with n 4 have "ahead token2 lexer2 < ahead token lexer"
    using next_ahead [OF n(1) [symmetric], of token] next_ahead [OF n(2) [symmetric], of token1] by auto
  moreover have "ahead token3 lexer3 \<le> ahead token2 lexer2" using skip_initializer_le [of token2 lexer2 no_brackets] 4 by (metis fst_conv snd_conv)
  ultimately show ?case by simp
qed (auto intro: next_ahead)

declare enumerators.simps [simp del]

lemma next_unread_le: "unread (snd (next_token lx)) \<le> unread lx"
  by (cases "next_token lx") (auto dest: next_token_unread_le)

lemma ahead_next_le: "ahead (fst (next_token lx)) (snd (next_token lx)) \<le> unread lx"
  using next_token_progress [of lx "fst (next_token lx)" "snd (next_token lx)"] next_unread_le [of lx]
  by (cases "kind (fst (next_token lx)) = END") (auto simp: ahead_def Suc_le_eq)

lemma enumerators_le: "unread (snd (enumerators t lx vs)) \<le> ahead t lx
    \<and> lex_input (snd (enumerators t lx vs)) = lex_input lx"
proof (induction t lx vs rule: enumerators.induct)
  case (1 t lx vs)
  obtain t1 lx1 where n1: "next_token lx = (t1, lx1)" by (cases "next_token lx")
  obtain t2 lx2 where n2: "next_token lx1 = (t2, lx2)" by (cases "next_token lx1")
  obtain t3 lx3 where s3: "skip_initializer t2 lx2 no_brackets = (t3, lx3)" by (cases "skip_initializer t2 lx2 no_brackets")
  let ?txt = "token_text (lex_input lx) t"
  have inp: "lex_input lx1 = lex_input lx" "lex_input lx2 = lex_input lx" "lex_input lx3 = lex_input lx"
    using next_token_input [of lx] next_token_input [of lx1] skip_initializer_le [of t2 lx2 no_brackets] n1 n2 s3 by auto
  have le1: "kind t \<noteq> END \<Longrightarrow> ahead t1 lx1 < ahead t lx" using next_ahead [OF n1 [symmetric], of t] by simp
  have le3: "kind t1 \<noteq> END \<Longrightarrow> ahead t3 lx3 < ahead t1 lx1"
    using next_ahead [OF n2 [symmetric], of t1] skip_initializer_le [of t2 lx2 no_brackets] s3 by auto
  show ?case
  proof (cases "kind t = END \<or> ?txt = ''}''")
    case True
    then show ?thesis by (subst (1 2) enumerators.simps) (auto simp: Let_def ahead_def)
  next
    case F: False
    then have c: "kind t \<noteq> END \<and> ?txt \<noteq> ''}''" by simp
    consider (skip) "?txt = '','' \<or> kind t \<noteq> IDENTIFIER"
      | (plain) "\<not> (?txt = '','' \<or> kind t \<noteq> IDENTIFIER)" "token_text (lex_input lx) t1 \<noteq> ''=''"
      | (init) "\<not> (?txt = '','' \<or> kind t \<noteq> IDENTIFIER)" "token_text (lex_input lx) t1 = ''=''" by auto
    then show ?thesis
    proof cases
      case skip
      then have "enumerators t lx vs = enumerators t1 lx1 vs" using c n1 by (subst enumerators.simps) (simp add: Let_def)
      with "1.IH"(1) [OF refl c n1 [symmetric] skip] le1 c inp show ?thesis by auto
    next
      case plain
      then have "enumerators t lx vs = enumerators t1 lx1 (vs @ [?txt])" using c n1 by (subst enumerators.simps) (simp add: Let_def)
      with "1.IH"(2) [OF refl c n1 [symmetric] plain] le1 c inp show ?thesis by auto
    next
      case init
      then have "enumerators t lx vs = enumerators t3 lx3 (vs @ [?txt])" using c n1 n2 s3
        by (subst enumerators.simps) (simp add: Let_def)
      moreover have "kind t1 \<noteq> END" using init text_of_END [OF n1] by auto
      moreover have "\<not> token_text (lex_input lx) t1 \<noteq> ''=''" using init by simp
      ultimately show ?thesis
        using "1.IH"(3) [OF refl c n1 [symmetric] init(1) _ n2 [symmetric] s3 [symmetric]] le1 le3 c inp by auto
    qed
  qed
qed

text \<open>One turn of the outer loop at an \<^verbatim>\<open>enum\<close>: the name and values found, if any, and where to go on.\<close>

definition enum_at :: "lexer \<Rightarrow> (string \<times> string list) option \<times> lexer" where
  "enum_at lexer =
    (let s = lex_input lexer in
     case next_token lexer of (kind_token, lexer) \<Rightarrow>
     if kind kind_token \<noteq> IDENTIFIER \<or> token_text s kind_token \<noteq> ''struct'' \<and> token_text s kind_token \<noteq> ''class''
     then (None, lexer)
     else case next_token lexer of (name_token, lexer) \<Rightarrow>
     if kind name_token \<noteq> IDENTIFIER then (None, lexer)
     else let name = token_text s name_token in
     case next_token lexer of (token, lexer) \<Rightarrow>
     case (if token_text s token = '':'' then case next_token lexer of (token, lexer) \<Rightarrow> skip_to_brace token lexer
           else (token, lexer)) of (token, lexer) \<Rightarrow>
     if kind token = END \<or> token_text s token \<noteq> ''{'' then (None, lexer)
     else case next_token lexer of (token, lexer) \<Rightarrow>
     case enumerators token lexer [] of (vs, lexer) \<Rightarrow>
       (if vs = [] then None else Some (name, vs), lexer))"

lemma skip_to_brace_unread:
  assumes "ahead t lx \<le> n" "skip_to_brace t lx = (t', lx')"
  shows "unread lx' \<le> n" "lex_input lx' = lex_input lx"
  using skip_to_brace_le [of t lx] assms by (auto simp: ahead_def split: if_splits)

lemma enumerators_unread:
  assumes "ahead t lx \<le> n" "enumerators t lx vs = (vs', lx')"
  shows "unread lx' \<le> n" "lex_input lx' = lex_input lx"
  using enumerators_le [of t lx vs] assms by auto

lemma next_token_unread:
  assumes "unread lx \<le> n" "next_token lx = (t, lx')"
  shows "unread lx' \<le> n" "ahead t lx' \<le> n" "lex_input lx' = lex_input lx"
  using next_unread_le [of lx] ahead_next_le [of lx] next_token_input [of lx] assms by auto

lemma enum_at_unread:
  assumes "enum_at lx = (r, lx')"
  shows "unread lx' \<le> unread lx \<and> lex_input lx' = lex_input lx"
proof -
  let ?n = "unread lx" and ?s = "lex_input lx"
  obtain k l1 where 1: "next_token lx = (k, l1)" by (cases "next_token lx")
  obtain nm l2 where 2: "next_token l1 = (nm, l2)" by (cases "next_token l1")
  obtain t3 l3 where 3: "next_token l2 = (t3, l3)" by (cases "next_token l2")
  obtain t4 l4 where 4: "next_token l3 = (t4, l4)" by (cases "next_token l3")
  obtain t5 l5 where 5: "(if token_text ?s t3 = '':'' then skip_to_brace t4 l4 else (t3, l3)) = (t5, l5)" by fastforce
  obtain t6 l6 where 6: "next_token l5 = (t6, l6)" by (cases "next_token l5")
  obtain vs l7 where 7: "enumerators t6 l6 [] = (vs, l7)" by (cases "enumerators t6 l6 []")
  note b1 = next_token_unread [OF order_refl 1] note b2 = next_token_unread [OF b1(1) 2]
  note b3 = next_token_unread [OF b2(1) 3] note b4 = next_token_unread [OF b3(1) 4]
  have b5: "unread l5 \<le> ?n" "lex_input l5 = ?s"
    using 5 b1 b2 b3 b4 skip_to_brace_unread [OF b4(2), of t5 l5] by (auto split: if_splits)
  note b6 = next_token_unread [OF b5(1) 6] note b7 = enumerators_unread [OF b6(2) 7]
  have "lx' \<in> {l1, l2, l5, l7}"
    using assms 1 2 3 4 5 6 7 unfolding enum_at_def Let_def by (auto split: if_splits)
  with b1 b2 b3 b4 b5 b6 b7 show ?thesis by auto
qed

function prescan_enums :: "lexer \<Rightarrow> (string \<Rightarrow> string list option) \<Rightarrow> (string \<Rightarrow> string list option) outcome" where
  "prescan_enums lexer m =
    (case next_token lexer of (enum_token, lexer1) \<Rightarrow>
     if kind enum_token = END then Inr m
     else if kind enum_token \<noteq> IDENTIFIER \<or> token_text (lex_input lexer) enum_token \<noteq> ''enum'' then prescan_enums lexer1 m
     else case enum_at lexer1 of
       (None, lexer2) \<Rightarrow> prescan_enums lexer2 m
     | (Some (name, vs), lexer2) \<Rightarrow>
         kstd_assert (m name = None) ''Duplicate enum name'' (prescan_enums lexer2 (m(name \<mapsto> vs))))"
  by pat_completeness auto
termination
  by (relation "measure (\<lambda>(lx, m). unread lx)")
    (auto simp: next_token_smaller dest!: sym [of _ "enum_at _"] enum_at_unread intro: le_less_trans [OF _ next_token_smaller])

declare prescan_enums.simps [simp del]

text \<open>The elements of a list with a separator between them.\<close>

fun joined :: "string \<Rightarrow> string list \<Rightarrow> string" where
  "joined sep [] = []"
| "joined sep [w] = w"
| "joined sep (w # ws) = w @ sep @ joined sep ws"

definition enum_values_text :: "string \<Rightarrow> string list \<Rightarrow> string" where
  "enum_values_text name vs = ''{ '' @ joined '', '' (map (\<lambda>v. name @ ''::'' @ v) vs) @ '' }''"

definition enum_values_state :: "pp \<Rightarrow> pp outcome" where
  "enum_values_state p =
    obind (read_until CHR '')'' [] p) (\<lambda>(name, p).
    obind (expect CHR '')'' ''Unterminated @enum_values'' p) (\<lambda>p.
    case enum_map p name of
      None \<Rightarrow> Inl ''enum_values: enum not found''
    | Some vs \<Rightarrow> Inr (emit (enum_values_text name vs) p)))"

definition newline :: string where
  "newline = [CHR 0x0A]"

definition enum_case :: "string \<Rightarrow> string \<Rightarrow> string" where
  "enum_case name v =
    (let qualified = name @ ''::'' @ v in
     ''    case '' @ qualified @ '': return '' @ [CHR 0x22] @ qualified @ [CHR 0x22] @ '';'' @ newline)"

definition enum_to_string_text :: "string \<Rightarrow> string list \<Rightarrow> nat \<Rightarrow> string" where
  "enum_to_string_text name vs orig_line =
    ''constexpr auto enum_to_string('' @ name @ '' value) -> string {'' @ newline
    @ ''    switch (value) {'' @ newline
    @ concat (map (enum_case name) vs)
    @ ''    default: return string();'' @ newline
    @ ''    }'' @ newline
    @ ''}'' @ newline
    @ ''#line '' @ to_string (int orig_line) @ newline"

definition enum_to_string_state :: "pp \<Rightarrow> pp outcome" where
  "enum_to_string_state p =
    obind (read_until CHR '')'' [] p) (\<lambda>(name, p).
    obind (expect CHR '')'' ''Unterminated @enum_to_string'' p) (\<lambda>p.
    case enum_map p name of
      None \<Rightarrow> Inl ''enum_to_string: enum not found''
    | Some vs \<Rightarrow> Inr (emit (enum_to_string_text name vs (pp_line p)) p)))"

section \<open>The state machine\<close>

text \<open>\<^verbatim>\<open>output += get()\<close>.\<close>

definition copy_char :: "pp \<Rightarrow> (char \<times> pp) outcome" where
  "copy_char p = obind (get p) (\<lambda>(c, p). Inr (c, emit [c] p))"

definition enter :: "pp_mode \<Rightarrow> pp \<Rightarrow> pp outcome" where
  "enter m p = obind (copy_char p) (\<lambda>(c, p). Inr (p\<lparr>pp_mode := m\<rparr>))"

definition copy_one :: "pp \<Rightarrow> pp outcome" where
  "copy_one p = obind (copy_char p) (\<lambda>(c, p). Inr p)"

text \<open>The last branch of \<open>normal_state\<close>, then the rest.\<close>

definition plain_state :: "pp \<Rightarrow> pp outcome" where
  "plain_state p =
    (if peek p = CHR 0x22 then enter STRING p
     else if peek p = CHR 0x27 then enter CHAR_LITERAL p
     else (case match ''//'' p of Some p' \<Rightarrow> Inr (emit ''//'' (p'\<lparr>pp_mode := LINE_COMMENT\<rparr>)) | None \<Rightarrow>
     (case match ''/*'' p of Some p' \<Rightarrow> Inr (emit ''/*'' (p'\<lparr>pp_mode := BLOCK_COMMENT\<rparr>)) | None \<Rightarrow>
     copy_one p)))"

definition at_for_state :: "pp \<Rightarrow> pp outcome" where
  "at_for_state p =
    (let directive_pos = pp_pos p in
     obind (skip_spaces (p\<lparr>pp_pos := pp_pos p + 4\<rparr>)) (\<lambda>p.
     if peek p = CHR ''('' then obind (get p) (\<lambda>(c, p). for_state directive_pos p)
     else copy_one (p\<lparr>pp_pos := directive_pos\<rparr>)))"

definition normal_state :: "loader \<Rightarrow> pp \<Rightarrow> pp outcome" where
  "normal_state get_data p =
    (case match ''@embed('' p of Some p' \<Rightarrow> embed_state get_data p' | None \<Rightarrow>
    (case match ''@enum_values('' p of Some p' \<Rightarrow> enum_values_state p' | None \<Rightarrow>
    (case match ''@enum_to_string('' p of Some p' \<Rightarrow> enum_to_string_state p' | None \<Rightarrow>
    (case match ''@T('' p of Some p' \<Rightarrow> typename_state p' | None \<Rightarrow>
     if substr (pp_input p) (pp_pos p) 4 = ''@for'' then at_for_state p else plain_state p))))"

text \<open>\<open>string_state\<close> and \<open>char_state\<close> differ in the quote.\<close>

definition quoted_state :: "char \<Rightarrow> pp \<Rightarrow> pp outcome" where
  "quoted_state quote p =
    obind (copy_char p) (\<lambda>(c, p).
      if c = CHR 0x5C then copy_one p
      else if c = quote then Inr (p\<lparr>pp_mode := NORMAL\<rparr>)
      else Inr p)"

definition string_state :: "pp \<Rightarrow> pp outcome" where
  "string_state = quoted_state CHR 0x22"

definition char_state :: "pp \<Rightarrow> pp outcome" where
  "char_state = quoted_state CHR 0x27"

definition line_comment_state :: "pp \<Rightarrow> pp outcome" where
  "line_comment_state p = obind (copy_char p) (\<lambda>(c, p). if c = CHR 0x0A then Inr (p\<lparr>pp_mode := NORMAL\<rparr>) else Inr p)"

definition block_comment_state :: "pp \<Rightarrow> pp outcome" where
  "block_comment_state p =
    obind (copy_char p) (\<lambda>(c, p).
      if c = CHR ''*'' \<and> peek p = CHR ''/'' then enter NORMAL p else Inr p)"

definition pp_step :: "loader \<Rightarrow> pp \<Rightarrow> pp outcome" where
  "pp_step get_data p =
    (case pp_mode p of
       NORMAL \<Rightarrow> normal_state get_data p
     | STRING \<Rightarrow> string_state p
     | CHAR_LITERAL \<Rightarrow> char_state p
     | LINE_COMMENT \<Rightarrow> line_comment_state p
     | BLOCK_COMMENT \<Rightarrow> block_comment_state p)"

text \<open>Every step moves forward in an input that stays the same, which is the measure of \<open>run\<close>.\<close>

definition advances :: "pp \<Rightarrow> pp \<Rightarrow> bool" where
  "advances p p' \<longleftrightarrow> pp_input p' = pp_input p \<and> pp_pos p \<le> pp_pos p'"

definition passes :: "pp \<Rightarrow> pp \<Rightarrow> bool" where
  "passes p p' \<longleftrightarrow> pp_input p' = pp_input p \<and> pp_pos p < pp_pos p'"

named_theorems forward \<open>the operations of the preprocessor move forward\<close>

lemma advances_refl [simp]: "advances p p"
  by (simp add: advances_def)

lemma advances_trans: "advances p q \<Longrightarrow> advances q r \<Longrightarrow> advances p r"
  by (auto simp: advances_def)

lemma passes_trans: "passes p q \<Longrightarrow> advances q r \<Longrightarrow> passes p r"
  by (auto simp: advances_def passes_def)

lemma passes_advances: "passes p q \<Longrightarrow> advances p q"
  by (auto simp: advances_def passes_def)

lemma advances_fields [simp]:
  "advances p (emit w q) = advances p q"
  "advances p (q\<lparr>has_embed := b\<rparr>) = advances p q"
  "advances p (q\<lparr>pp_pool := pool\<rparr>) = advances p q"
  "advances p (q\<lparr>pp_output := out\<rparr>) = advances p q"
  "passes p (emit w q) = passes p q"
  "passes p (q\<lparr>pp_mode := m\<rparr>) = passes p q"
  by (simp_all add: advances_def passes_def emit_def)

lemma get_passes [forward]: "get p = Inr (c, q) \<Longrightarrow> passes p q"
  by (auto dest!: get_InrD simp: passes_def)

lemma consume_to_advances [forward]: "consume_to n p = Inr q \<Longrightarrow> advances p q"
proof (induction n p arbitrary: q rule: consume_to.induct)
  case (1 n p)
  show ?case
  proof (cases "pp_pos p < n")
    case True
    with "1.prems" obtain c r where r: "get p = Inr (c, r)" "consume_to n r = Inr q"
      by (subst (asm) consume_to.simps) (auto simp: obind_Inr_iff)
    with 1 True have "advances r q" by (auto simp: obind_Inr_iff)
    with r(1) show ?thesis by (meson forward passes_advances advances_trans)
  qed (use "1.prems" in \<open>simp add: consume_to.simps [of n p]\<close>)
qed

lemma skip_spaces_advances [forward]: "skip_spaces p = Inr q \<Longrightarrow> advances p q"
proof (induction p arbitrary: q rule: skip_spaces.induct)
  case (1 p)
  show ?case
  proof (cases "isspace (peek p)")
    case True
    with "1.prems" obtain c r where r: "get p = Inr (c, r)" "skip_spaces r = Inr q"
      by (subst (asm) skip_spaces.simps) (auto simp: obind_Inr_iff)
    with 1 True have "advances r q" by (auto simp: obind_Inr_iff)
    with r(1) show ?thesis by (meson forward passes_advances advances_trans)
  qed (use "1.prems" in \<open>simp add: skip_spaces.simps [of p]\<close>)
qed

lemma read_until_advances [forward]: "read_until stop acc p = Inr (w, q) \<Longrightarrow> advances p q"
proof (induction stop acc p arbitrary: q rule: read_until.induct)
  case (1 stop acc p)
  show ?case
  proof (cases "peek p \<noteq> stop \<and> peek p \<noteq> CHR 0x00")
    case True
    with "1.prems" obtain c r where r: "get p = Inr (c, r)" "read_until stop (acc @ [c]) r = Inr (w, q)"
      by (subst (asm) read_until.simps) (auto simp: obind_Inr_iff)
    with 1 True have "advances r q" by (auto simp: obind_Inr_iff)
    with r(1) show ?thesis by (meson forward passes_advances advances_trans)
  qed (use "1.prems" in \<open>auto simp: read_until.simps [of stop acc p] split: if_splits\<close>)
qed

lemma expect_passes [forward]: "expect c msg p = Inr q \<Longrightarrow> passes p q"
  by (auto simp: expect_def obind_Inr_iff kstd_assert_Inr_iff dest: forward)

lemma match_passes [forward]: "match w p = Some q \<Longrightarrow> w \<noteq> [] \<Longrightarrow> passes p q"
  by (auto simp: match_def passes_def split: if_splits)

lemma embed_advances [forward]: "embed_state g p = Inr q \<Longrightarrow> advances p q"
  unfolding embed_state_def
  by (auto simp: obind_Inr_iff dest!: forward passes_advances) (meson advances_trans)

lemma typename_advances [forward]: "typename_state p = Inr q \<Longrightarrow> advances p q"
  by (auto simp: typename_state_def Let_def obind_Inr_iff kstd_assert_Inr_iff dest!: forward)

lemma enum_values_advances [forward]: "enum_values_state p = Inr q \<Longrightarrow> advances p q"
  unfolding enum_values_state_def
  by (auto simp: obind_Inr_iff dest!: forward passes_advances split: option.splits) (meson advances_trans)

lemma enum_to_string_advances [forward]: "enum_to_string_state p = Inr q \<Longrightarrow> advances p q"
  unfolding enum_to_string_state_def
  by (auto simp: obind_Inr_iff dest!: forward passes_advances split: option.splits) (meson advances_trans)

lemma for_body_advances [forward]: "for_body d h p = Inr q \<Longrightarrow> advances p q"
  unfolding for_body_def Let_def
  by (auto simp: obind_Inr_iff kstd_assert_Inr_iff dest!: forward passes_advances) (meson advances_trans)+

lemma for_advances [forward]: "for_state d p = Inr q \<Longrightarrow> advances p q"
  unfolding for_state_def Let_def
  by (auto simp: obind_Inr_iff kstd_assert_Inr_iff dest!: forward) (meson advances_trans)

lemma copy_char_passes [forward]: "copy_char p = Inr (c, q) \<Longrightarrow> passes p q"
  by (auto simp: copy_char_def obind_Inr_iff dest: forward)

lemma copy_one_passes [forward]: "copy_one p = Inr q \<Longrightarrow> passes p q"
  by (auto simp: copy_one_def obind_Inr_iff dest: forward)

lemma enter_passes [forward]: "enter m p = Inr q \<Longrightarrow> passes p q"
  by (auto simp: enter_def obind_Inr_iff dest: forward)

lemma plain_passes [forward]: "plain_state p = Inr q \<Longrightarrow> passes p q"
  unfolding plain_state_def by (auto dest: forward split: option.splits if_splits)

lemma at_for_passes [forward]:
  assumes "at_for_state p = Inr q"
  shows "passes p q"
proof -
  from assms obtain r where r: "skip_spaces (p\<lparr>pp_pos := pp_pos p + 4\<rparr>) = Inr r"
    and q: "(if peek r = CHR ''('' then obind (get r) (\<lambda>(c, r). for_state (pp_pos p) r)
      else copy_one (r\<lparr>pp_pos := pp_pos p\<rparr>)) = Inr q"
    by (auto simp: at_for_state_def Let_def obind_Inr_iff)
  from r have "passes p r" by (auto dest!: forward simp: advances_def passes_def)
  show ?thesis
  proof (cases "peek r = CHR ''(''")
    case True
    with q obtain c u where "get r = Inr (c, u)" "for_state (pp_pos p) u = Inr q" by (auto simp: obind_Inr_iff)
    with \<open>passes p r\<close> show ?thesis by (meson forward passes_advances passes_trans)
  next
    case False
    with q have "passes (r\<lparr>pp_pos := pp_pos p\<rparr>) q" by (auto dest: forward)
    with \<open>passes p r\<close> show ?thesis by (auto simp: passes_def)
  qed
qed

lemma normal_passes [forward]:
  assumes "normal_state g p = Inr q"
  shows "passes p q"
proof (cases "match ''@embed('' p = None \<and> match ''@enum_values('' p = None \<and> match ''@enum_to_string('' p = None
    \<and> match ''@T('' p = None")
  case True
  with assms show ?thesis by (auto simp: normal_state_def dest: forward split: if_splits)
next
  case False
  have *: "match w p = Some r \<Longrightarrow> w \<noteq> [] \<Longrightarrow> advances r q \<Longrightarrow> passes p q" for w r
    by (meson forward passes_trans)
  from assms False show ?thesis
    unfolding normal_state_def by (auto dest!: forward(7-) split: option.splits if_splits intro: *)
qed

lemma quoted_passes [forward]: "quoted_state c p = Inr q \<Longrightarrow> passes p q"
  unfolding quoted_state_def
  by (auto simp: obind_Inr_iff dest!: forward split: if_splits intro: passes_trans passes_advances)

lemma line_comment_passes [forward]: "line_comment_state p = Inr q \<Longrightarrow> passes p q"
  unfolding line_comment_state_def by (auto simp: obind_Inr_iff dest!: forward split: if_splits)

lemma block_comment_passes [forward]: "block_comment_state p = Inr q \<Longrightarrow> passes p q"
  unfolding block_comment_state_def
  by (auto simp: obind_Inr_iff dest!: forward split: if_splits intro: passes_trans passes_advances)

lemma pp_step_passes [forward]: "pp_step g p = Inr q \<Longrightarrow> passes p q"
  unfolding pp_step_def string_state_def char_state_def by (auto split: pp_mode.splits dest: forward)

function run_loop :: "loader \<Rightarrow> pp \<Rightarrow> pp outcome" where
  "run_loop get_data p =
    (if pp_pos p < length (pp_input p) then obind (pp_step get_data p) (run_loop get_data) else Inr p)"
  by pat_completeness auto
termination
  by (relation "measure (\<lambda>(g, p). to_read p)") (auto dest!: forward simp: passes_def to_read_def)

declare run_loop.simps [simp del]

definition pp_clear_state :: "string \<Rightarrow> pp \<Rightarrow> pp" where
  "pp_clear_state source p =
    p\<lparr>pp_mode := NORMAL, pp_input := source, pp_pos := 0, pp_line := 1, pp_output := [], has_embed := False,
      enum_map := (\<lambda>n. None), constants := (\<lambda>n. None)\<rparr>"

definition pp_run :: "loader \<Rightarrow> string \<Rightarrow> pp \<Rightarrow> pp outcome" where
  "pp_run get_data source p =
    (let p = pp_clear_state source p; p = p\<lparr>constants := prescan_constants source 0 (constants p)\<rparr> in
     obind (prescan_enums (mk_lexer source 0) (enum_map p)) (\<lambda>m. run_loop get_data (p\<lparr>enum_map := m\<rparr>)))"

definition new_pp :: "string \<Rightarrow> resource list \<Rightarrow> pp" where
  "new_pp assets pool =
    \<lparr>pp_assets = assets, pp_pool = pool, pp_mode = NORMAL, pp_input = [], pp_pos = 0, pp_line = 1, pp_output = [],
     has_embed = False, enum_map = (\<lambda>n. None), constants = (\<lambda>n. None)\<rparr>"

section \<open>Files\<close>

definition line_directive :: "int \<Rightarrow> string \<Rightarrow> string" where
  "line_directive line original = ''#line '' @ to_string line @ '' '' @ [CHR 0x22] @ original @ [CHR 0x22] @ newline"

definition pragma :: string where
  "pragma = ''#pragma once'' @ newline"

definition include_line :: string where
  "include_line = ''#include '' @ [CHR 0x22] @ ''resources.hh'' @ [CHR 0x22] @ newline"

definition add_resource_include :: "string \<Rightarrow> string \<Rightarrow> string" where
  "add_resource_include source original =
    (case find_from source pragma 0 of
       Some at \<Rightarrow> take (at + length pragma) source @ include_line @ line_directive 2 original @ drop (at + length pragma) source
     | None \<Rightarrow> include_line @ line_directive 1 original @ source)"

text \<open>The text that \<open>process_file\<close> writes for a file's text, with the pool after it.\<close>

datatype file_type = SOURCE | ASSEMBLY | OTHER

definition process_file ::
  "loader \<Rightarrow> string \<Rightarrow> resource list \<Rightarrow> file_type \<Rightarrow> string \<Rightarrow> string \<Rightarrow> (string \<times> resource list) outcome" where
  "process_file get_data assets pool type original contents =
    (case type of
       SOURCE \<Rightarrow> obind (pp_run get_data contents (new_pp assets pool)) (\<lambda>p.
         Inr (if has_embed p then add_resource_include (pp_output p) original
              else line_directive 1 original @ pp_output p, pp_pool p))
     | ASSEMBLY \<Rightarrow> Inr (line_directive 1 original @ contents, pool)
     | OTHER \<Rightarrow> Inr (contents, pool))"

definition hex_digit :: "nat \<Rightarrow> char" where
  "hex_digit d = (if d < 10 then char_of (48 + d) else char_of (87 + d))"

definition byte_text :: "nat \<Rightarrow> u8 \<Rightarrow> string" where
  "byte_text i b =
    (if i mod 12 = 0 then ''        '' else [])
    @ ''0x'' @ [hex_digit (unat b div 16), hex_digit (unat b mod 16)] @ '',''
    @ (if i mod 12 \<noteq> 11 then '' '' else newline)"

definition resource_text :: "resource \<Rightarrow> string" where
  "resource_text r =
    (let n = to_string (int (length (res_data r))) in
     ''constexpr Resource<'' @ n @ ''> '' @ res_name r @ '' = {'' @ newline
     @ ''    .data = Static_Array<u8, '' @ n @ ''>{'' @ newline
     @ concat (map (\<lambda>(i, b). byte_text i b) (enumerate 0 (res_data r)))
     @ ''    },'' @ newline
     @ ''    .width = '' @ to_string (uint (fst (res_size r))) @ '','' @ newline
     @ ''    .height = '' @ to_string (uint (snd (res_size r))) @ '','' @ newline
     @ ''};'' @ newline @ newline)"

definition resources_header :: "resource list \<Rightarrow> string" where
  "resources_header resources =
    pragma @ newline @ ''#include '' @ [CHR 0x22] @ ''kstd/resource.hh'' @ [CHR 0x22] @ newline @ newline
    @ concat (map resource_text resources)"

text \<open>The files of one worker thread: \<open>files\<close> is the list of inputs, \<open>threads\<close> the clamped number of threads.\<close>

definition worker_count :: "nat \<Rightarrow> nat \<Rightarrow> nat" where
  "worker_count hardware files = min (max 1 hardware) (max 1 files)"

definition worker_files :: "nat \<Rightarrow> 'f list \<Rightarrow> nat \<Rightarrow> 'f list" where
  "worker_files threads files t =
    (let chunk = (length files + threads - 1) div threads;
         first = t * chunk;
         past = min (length files) (first + chunk)
     in if first \<ge> past then [] else take (past - first) (drop first files))"

end
