(* ===== verification/Pp_Properties.thy ===== *)
theory Pp_Properties
  imports Preprocessor
begin

text \<open>
  What the preprocessor does to a source: text without directives is copied, a loop is unrolled value by value
  and only whole identifiers are replaced in its body, an enumeration's values are read back as they were written.
\<close>

section \<open>Copying\<close>

text \<open>\<open>q\<close> is \<open>p\<close> after the next \<open>k\<close> characters have been copied to the output, in mode \<open>m\<close>.\<close>

definition copied :: "nat \<Rightarrow> pp_mode \<Rightarrow> pp \<Rightarrow> pp" where
  "copied k m p =
    (let w = substr (pp_input p) (pp_pos p) k in
     p\<lparr>pp_mode := m, pp_pos := pp_pos p + k, pp_output := pp_output p @ w,
       pp_line := pp_line p + length (filter (\<lambda>c. c = CHR 0x0A) w)\<rparr>)"

lemma copied_fields [simp]:
  "pp_input (copied k m p) = pp_input p" "pp_pos (copied k m p) = pp_pos p + k" "pp_mode (copied k m p) = m"
  "pp_pool (copied k m p) = pp_pool p" "has_embed (copied k m p) = has_embed p" "enum_map (copied k m p) = enum_map p"
  "pp_output (copied k m p) = pp_output p @ substr (pp_input p) (pp_pos p) k"
  by (simp_all add: copied_def Let_def)

lemma substr_add: "substr s p (j + k) = substr s p j @ substr s (p + j) k"
  by (simp add: substr_def take_add add.commute)

lemma copied_copied: "copied k m (copied j n p) = copied (j + k) m p"
  by (simp add: copied_def Let_def substr_add add.assoc)

lemma copied_0: "pp_mode p = m \<Longrightarrow> copied 0 m p = p"
  by (simp add: copied_def Let_def substr_def)

lemma substr_1: "p < length s \<Longrightarrow> substr s p 1 = [s ! p]"
  by (simp add: substr_def take_Suc_conv_app_nth)

lemma copy_char_at:
  "pp_pos p < length (pp_input p) \<Longrightarrow> copy_char p = Inr (pp_input p ! pp_pos p, copied 1 (pp_mode p) p)"
  using substr_1 [of "pp_pos p" "pp_input p"]
  by (simp add: copy_char_def get_def Let_def copied_def emit_def)

lemma copy_one_at: "pp_pos p < length (pp_input p) \<Longrightarrow> copy_one p = Inr (copied 1 (pp_mode p) p)"
  by (simp add: copy_one_def copy_char_at)

lemma enter_at: "pp_pos p < length (pp_input p) \<Longrightarrow> enter m p = Inr (copied 1 m p)"
  by (simp add: enter_def copy_char_at) (simp add: copied_def Let_def)

lemma match_at:
  assumes "match w p = Some q" "list_all (\<lambda>c. c \<noteq> CHR 0x0A) w" "m = pp_mode q'" "q' = emit w (q\<lparr>pp_mode := m\<rparr>)"
  shows "q' = copied (length w) m p"
proof -
  have "filter (\<lambda>c. c = CHR 0x0A) w = []" using assms(2) by (auto simp: filter_empty_conv list_all_iff)
  with assms show ?thesis by (auto simp: match_def copied_def Let_def emit_def split: if_splits)
qed

lemma directive_at:
  assumes "pp_pos p < length (pp_input p)" "w \<noteq> []" "hd w = CHR ''@''" "pp_input p ! pp_pos p \<noteq> CHR ''@''"
  shows "substr (pp_input p) (pp_pos p) (length w) \<noteq> w"
proof
  assume "substr (pp_input p) (pp_pos p) (length w) = w"
  moreover have "hd (substr (pp_input p) (pp_pos p) (length w)) = pp_input p ! pp_pos p"
    using assms(1,2) by (simp add: substr_def hd_drop_conv_nth)
  ultimately show False using assms(3,4) by simp
qed

lemma normal_at:
  assumes "pp_pos p < length (pp_input p)" "pp_input p ! pp_pos p \<noteq> CHR ''@''"
  shows "normal_state g p = plain_state p"
proof -
  have "match w p = None" if "w \<noteq> []" "hd w = CHR ''@''" for w
    using directive_at [OF assms(1) that assms(2)] by (simp add: match_def)
  moreover have "substr (pp_input p) (pp_pos p) 4 \<noteq> ''@for''"
    using directive_at [OF assms(1) _ _ assms(2), of "''@for''"] by (simp add: eval_nat_numeral)
  ultimately show ?thesis by (simp add: normal_state_def)
qed

lemma peek_at: "pp_pos p < length (pp_input p) \<Longrightarrow> peek p = pp_input p ! pp_pos p"
  by (simp add: peek_def)

text \<open>A character without a meaning for the preprocessor, and the text of such characters.\<close>

definition ordinary :: "char \<Rightarrow> bool" where
  "ordinary c \<longleftrightarrow> c \<notin> {CHR ''@'', CHR 0x22, CHR 0x27, CHR ''/''}"

lemma match_slash: "match (CHR ''/'' # w) p = Some q \<Longrightarrow> pp_pos p < length (pp_input p) \<Longrightarrow> pp_input p ! pp_pos p = CHR ''/''"
  by (auto simp: match_def substr_def split: if_splits) (metis Cons_nth_drop_Suc list.inject take_Suc_Cons)

lemma ordinary_step:
  assumes "pp_pos p < length (pp_input p)" "ordinary (pp_input p ! pp_pos p)" "pp_mode p = NORMAL"
  shows "pp_step g p = Inr (copied 1 NORMAL p)"
proof -
  have "match (CHR ''/'' # w) p = None" for w
    using match_slash [of w p] assms by (cases "match (CHR ''/'' # w) p") (auto simp: ordinary_def)
  with assms show ?thesis
    by (simp add: pp_step_def normal_at plain_state_def peek_at copy_one_at ordinary_def)
qed

lemma run_loop_step:
  assumes "pp_pos p < length (pp_input p)" "pp_step g p = Inr q"
  shows "run_loop g p = run_loop g q"
  using assms by (subst run_loop.simps) simp

lemma run_ordinary:
  assumes "pp_mode p = NORMAL" "pp_pos p + k \<le> length (pp_input p)" "list_all ordinary (substr (pp_input p) (pp_pos p) k)"
  shows "run_loop g p = run_loop g (copied k NORMAL p)"
  using assms(2,3)
proof (induction k)
  case (Suc k)
  have "substr (pp_input p) (pp_pos p) (Suc k) = substr (pp_input p) (pp_pos p) k @ [pp_input p ! (pp_pos p + k)]"
    using Suc.prems(1) substr_add [of "pp_input p" "pp_pos p" k 1] substr_1 [of "pp_pos p + k" "pp_input p"] by simp
  with Suc.prems have "list_all ordinary (substr (pp_input p) (pp_pos p) k)" "ordinary (pp_input p ! (pp_pos p + k))" by auto
  with Suc have "run_loop g p = run_loop g (copied 1 NORMAL (copied k NORMAL p))"
    by (simp add: run_loop_step [OF _ ordinary_step])
  then show ?case by (simp add: copied_copied)
qed (simp add: copied_0 [OF assms(1)])

section \<open>Sources without directives\<close>

text \<open>Away from the directives a step copies one or two characters; only an escape at the very end fails.\<close>

lemma copying_step:
  assumes "pp_pos p < length (pp_input p)" "pp_input p ! pp_pos p \<noteq> CHR ''@'' \<or> pp_mode p \<noteq> NORMAL"
    "last (pp_input p) \<noteq> CHR 0x5C"
  shows "\<exists>k m. pp_step g p = Inr (copied k m p) \<and> 1 \<le> k \<and> pp_pos p + k \<le> length (pp_input p)"
proof -
  note one = copy_one_at [OF assms(1)] copy_char_at [OF assms(1)] enter_at [OF assms(1)]
  have two: "match w p = Some q \<Longrightarrow> pp_pos p + length w \<le> length (pp_input p)" for w q
    by (auto simp: match_def split: if_splits dest: substr_length [OF _ refl assms(1)])
  have mode: "p'\<lparr>pp_mode := m\<rparr> = copied k m p" if "p' = copied k n p" for p' k m n
    using that by (simp add: copied_def Let_def)
  show ?thesis
  proof (cases "pp_mode p")
    case NORMAL
    with assms have "pp_step g p = plain_state p" by (simp add: pp_step_def normal_at)
    moreover have "match ''//'' p = Some q \<Longrightarrow> emit ''//'' (q\<lparr>pp_mode := m\<rparr>) = copied 2 m p" for q m
      using match_at [of "''//''" p q m "emit ''//'' (q\<lparr>pp_mode := m\<rparr>)"] by (simp add: emit_def numeral_2_eq_2)
    moreover have "match ''/*'' p = Some q \<Longrightarrow> emit ''/*'' (q\<lparr>pp_mode := m\<rparr>) = copied 2 m p" for q m
      using match_at [of "''/*''" p q m "emit ''/*'' (q\<lparr>pp_mode := m\<rparr>)"] by (simp add: emit_def numeral_2_eq_2)
    ultimately show ?thesis
      using one two [of "''//''"] two [of "''/*''"] assms(1)
      unfolding plain_state_def
      by (cases "match ''//'' p"; cases "match ''/*'' p") (auto intro: exI [of _ 1] exI [of _ 2])
  next
    case BLOCK_COMMENT
    let ?q = "copied 1 BLOCK_COMMENT p"
    have "enter NORMAL ?q = Inr (copied 2 NORMAL p)" if "peek ?q = CHR ''/''"
      using that enter_at [of ?q NORMAL] by (auto simp: peek_def copied_copied numeral_2_eq_2 split: if_splits)
    moreover have "pp_pos p + 2 \<le> length (pp_input p)" if "peek ?q = CHR ''/''"
      using that by (auto simp: peek_def split: if_splits)
    ultimately show ?thesis
      using BLOCK_COMMENT one assms(1)
      by (auto simp: pp_step_def block_comment_state_def numeral_2_eq_2 intro: exI [of _ "Suc 0"] exI [of _ "Suc (Suc 0)"])
  next
    case LINE_COMMENT
    with one assms(1) show ?thesis
      by (auto simp: pp_step_def line_comment_state_def mode intro!: exI [of _ 1])
  next
    case STRING
    have "pp_input p ! pp_pos p = CHR 0x5C \<Longrightarrow> pp_pos p + 1 < length (pp_input p)"
      using assms by (metis Suc_eq_plus1 Suc_lessI diff_Suc_1 last_conv_nth list.size(3) not_less_zero)
    then have "pp_input p ! pp_pos p = CHR 0x5C \<Longrightarrow>
        copy_one (copied 1 STRING p) = Inr (copied 2 STRING p) \<and> pp_pos p + 2 \<le> length (pp_input p)"
      by (simp add: copy_one_at copied_copied numeral_2_eq_2)
    with STRING one assms(1) show ?thesis
      by (auto simp: pp_step_def string_state_def quoted_state_def mode numeral_2_eq_2 intro!: exI)
  next
    case CHAR_LITERAL
    have "pp_input p ! pp_pos p = CHR 0x5C \<Longrightarrow> pp_pos p + 1 < length (pp_input p)"
      using assms by (metis Suc_eq_plus1 Suc_lessI diff_Suc_1 last_conv_nth list.size(3) not_less_zero)
    then have "pp_input p ! pp_pos p = CHR 0x5C \<Longrightarrow>
        copy_one (copied 1 CHAR_LITERAL p) = Inr (copied 2 CHAR_LITERAL p) \<and> pp_pos p + 2 \<le> length (pp_input p)"
      by (simp add: copy_one_at copied_copied numeral_2_eq_2)
    with CHAR_LITERAL one assms(1) show ?thesis
      by (auto simp: pp_step_def char_state_def quoted_state_def mode numeral_2_eq_2 intro!: exI)
  qed
qed

lemma run_copies:
  assumes "CHR ''@'' \<notin> set (drop (pp_pos p) (pp_input p))" "last (pp_input p) \<noteq> CHR 0x5C" "pp_pos p \<le> length (pp_input p)"
  shows "\<exists>m. run_loop g p = Inr (copied (length (pp_input p) - pp_pos p) m p)"
  using assms
proof (induction "to_read p" arbitrary: p rule: less_induct)
  case less
  show ?case
  proof (cases "pp_pos p < length (pp_input p)")
    case True
    then have "pp_input p ! pp_pos p \<in> set (drop (pp_pos p) (pp_input p))"
      by (metis Cons_nth_drop_Suc list.set_intros(1))
    with less.prems(1) have "pp_input p ! pp_pos p \<noteq> CHR ''@''" by metis
    then obtain k m where k: "pp_step g p = Inr (copied k m p)" "1 \<le> k" "pp_pos p + k \<le> length (pp_input p)"
      using copying_step [OF True _ less.prems(2)] by blast
    have "CHR ''@'' \<notin> set (drop (pp_pos p + k) (pp_input p))"
      using less.prems(1) by (metis add.commute drop_drop in_set_dropD)
    moreover have "to_read (copied k m p) < to_read p" using k True by (simp add: to_read_def)
    ultimately obtain m' where
      "run_loop g (copied k m p) = Inr (copied (length (pp_input p) - (pp_pos p + k)) m' (copied k m p))"
      using less.hyps [of "copied k m p"] less.prems(2) k(3) by auto
    with k True show ?thesis
      by (intro exI [of _ m']) (simp add: run_loop_step [OF True k(1)] copied_copied)
  next
    case False
    with less.prems show ?thesis
      by (intro exI [of _ "pp_mode p"]) (simp add: run_loop.simps [of g p] copied_0)
  qed
qed

section \<open>Reading back what is printed\<close>

definition is_identifier :: "string \<Rightarrow> bool" where
  "is_identifier w \<longleftrightarrow> w \<noteq> [] \<and> is_identifier_start (hd w) \<and> list_all is_identifier_part w"

definition ahead_text :: "lexer \<Rightarrow> string" where
  "ahead_text lx = drop (position lx) (lex_input lx)"

text \<open>The next token is \<open>w\<close>, of kind \<open>k\<close>, and \<open>rest\<close> follows it.\<close>

definition reads :: "lexer \<Rightarrow> token_kind \<Rightarrow> string \<Rightarrow> string \<Rightarrow> bool" where
  "reads lx k w rest \<longleftrightarrow>
    (case next_token lx of (t, lx') \<Rightarrow> kind t = k \<and> token_text (lex_input lx) t = w \<and> ahead_text lx' = rest)"

lemma reads_next:
  "reads lx k w rest \<Longrightarrow> \<exists>t lx'. next_token lx = (t, lx') \<and> kind t = k \<and> token_text (lex_input lx) t = w
     \<and> ahead_text lx' = rest \<and> lex_input lx' = lex_input lx"
  using next_token_input [of lx] by (cases "next_token lx") (auto simp: reads_def)

lemma identifier_part_not:
  "is_identifier_part c \<Longrightarrow> \<not> isspace c \<and> c \<noteq> CHR 0x22 \<and> c \<noteq> CHR 0x27 \<and> c \<noteq> CHR ''/''"
  by (auto simp: is_identifier_part_def isalnum_def isalpha_def isdigit_def isspace_def)

lemma scan_spaces:
  assumes "drop p s = sp @ c # rest" "list_all isspace sp" "\<not> isspace c"
  shows "scan_while isspace s p = p + length sp" "p + length sp < length s" "s ! (p + length sp) = c"
    "drop (p + length sp) s = c # rest"
proof -
  show d: "drop (p + length sp) s = c # rest" using assms(1) by (metis add.commute append_eq_conv_conj drop_drop)
  then show "p + length sp < length s" by (metis drop_all leI list.distinct(1))
  then show "s ! (p + length sp) = c" using d by (metis hd_drop_conv_nth list.sel(1))
  have "takeWhile isspace (sp @ c # rest) = sp" using assms(2,3) by (simp add: list_all_iff takeWhile_append2)
  then show "scan_while isspace s p = p + length sp" by (simp add: scan_while_closed assms(1))
qed

lemma token_text_drop:
  "drop p s = w @ rest \<Longrightarrow> token_text s (mk_token k p (p + length w)) = w"
  by (simp add: token_text_def mk_token_def substr_def)

lemma next_token_ahead:
  assumes "ahead_text lx = sp @ c # rest" "list_all isspace sp" "\<not> isspace c"
    "token_at (lex_input lx) (position lx + length sp) = mk_token k (position lx + length sp) (position lx + length sp + length w)"
    "c # rest = w @ rest'"
  shows "reads lx k w rest'"
proof -
  let ?p = "position lx + length sp" and ?s = "lex_input lx"
  note sp = scan_spaces [OF assms(1) [unfolded ahead_text_def] assms(2,3)]
  have w: "drop ?p ?s = w @ rest'" using sp(4) assms(5) by simp
  then have "drop (?p + length w) ?s = rest'" by (metis add.commute append_eq_conv_conj drop_drop)
  with sp assms(4) token_text_drop [OF w, of k] show ?thesis
    by (simp add: reads_def next_token_def Let_def ahead_text_def) (simp add: mk_token_def)
qed

lemma no_prefix_quote:
  assumes w: "list_all is_identifier_part w" and d: "drop p s = w @ rest"
    and r: "rest = [] \<or> \<not> is_identifier_part (hd rest) \<and> hd rest \<noteq> CHR 0x22"
    and pre: "list_all is_identifier_part pre"
  shows "\<not> quote_after s p pre"
proof
  assume q: "quote_after s p pre"
  have nth: "s ! (p + i) = (w @ rest) ! i" if "p + i < length s" for i
    using d that by (metis nth_drop less_imp_le_nat le_add1 le_trans)
  from q have t: "take (length pre) (w @ rest) = pre" and l: "p + length pre < length s"
    and c: "(w @ rest) ! length pre = CHR 0x22"
    using nth d by (auto simp: quote_after_def substr_def)
  have len: "length pre < length (w @ rest)" using l d by (metis length_drop less_diff_conv add.commute)
  consider "length pre < length w" | "length pre = length w" | "length w < length pre" by linarith
  then show False
  proof cases
    case 1
    then have "is_identifier_part (CHR 0x22)" using w c by (auto simp: list_all_length nth_append)
    then show False using identifier_part_not by blast
  next
    case 2
    with c len r show False by (cases rest) (auto simp: nth_append)
  next
    case 3
    then have "rest \<noteq> []" using len by auto
    moreover from 3 have "pre ! length w = (w @ rest) ! length w" by (metis t nth_take)
    ultimately have "pre ! length w = hd rest" "rest \<noteq> []" by (simp_all add: hd_conv_nth nth_append)
    moreover have "is_identifier_part (pre ! length w)" using 3 pre by (auto simp: list_all_length)
    ultimately show False using r by auto
  qed
qed

lemma literal_prefixes_parts: "list_all (list_all is_identifier_part) literal_prefixes"
  by (simp add: literal_prefixes_def is_identifier_part_def isalnum_def isalpha_def isdigit_def)

lemma reads_identifier:
  assumes "ahead_text lx = sp @ w @ rest" "list_all isspace sp" "is_identifier w"
    "rest = [] \<or> \<not> is_identifier_part (hd rest) \<and> hd rest \<noteq> CHR 0x22"
  shows "reads lx IDENTIFIER w rest"
proof -
  obtain c u where cu: "w = c # u" using assms(3) by (cases w) (auto simp: is_identifier_def)
  let ?p = "position lx + length sp" and ?s = "lex_input lx"
  have parts: "list_all is_identifier_part w" "is_identifier_start c" using assms(3) cu by (auto simp: is_identifier_def)
  then have c: "is_identifier_part c" using cu by simp
  note sp = scan_spaces [OF assms(1) [unfolded ahead_text_def cu append_Cons] assms(2) conjunct1 [OF identifier_part_not [OF c]]]
  have d: "drop ?p ?s = w @ rest" using sp(4) cu by simp
  have "find (quote_after ?s ?p) literal_prefixes = None"
    using no_prefix_quote [OF parts(1) d assms(4)] literal_prefixes_parts by (auto simp: find_None_iff list_all_iff)
  then have q: "prefixed_quote_position ?s ?p = None"
    using sp(3) identifier_part_not [OF c] by (simp add: prefixed_quote_position_def)
  have two: "substr ?s ?p 2 \<noteq> CHR ''/'' # v" for v
    using sp(4) identifier_part_not [OF c] by (auto simp: substr_def numeral_2_eq_2)
  have "takeWhile is_identifier_part (drop (Suc ?p) ?s) = u"
  proof -
    have "drop (Suc ?p) ?s = u @ rest" using d cu by (metis append_Cons drop_Suc list.sel(3) tl_drop)
    moreover have "takeWhile is_identifier_part rest = []" using assms(4) by (cases rest) auto
    ultimately show ?thesis using parts(1) cu by (simp add: list_all_iff takeWhile_append2)
  qed
  then have "scan_while is_identifier_part ?s (?p + 1) = ?p + length w" by (simp add: scan_while_closed cu)
  then have "token_at ?s ?p = mk_token IDENTIFIER ?p (?p + length w)"
    using q two sp(3) parts(2) identifier_part_not [OF c] by (simp add: token_at_def)
  then show ?thesis
    using assms(1,2) cu identifier_part_not [OF c] by (intro next_token_ahead [where c = c and sp = sp]) auto
qed

definition lone_punctuation :: "char \<Rightarrow> bool" where
  "lone_punctuation c \<longleftrightarrow> c \<in> set ''{},;@()''"

lemma reads_punctuation:
  assumes "ahead_text lx = sp @ c # rest" "list_all isspace sp" "lone_punctuation c"
  shows "reads lx PUNCTUATION [c] rest"
proof -
  let ?p = "position lx + length sp" and ?s = "lex_input lx"
  have c: "\<not> isspace c" "\<not> is_identifier_start c" "\<not> isdigit c" "c \<noteq> CHR 0x22" "c \<noteq> CHR 0x27" "c \<noteq> CHR ''/''"
    "list_all (\<lambda>w. hd w \<noteq> c \<and> w \<noteq> []) literal_prefixes" "list_all (\<lambda>w. hd w \<noteq> c \<and> w \<noteq> []) punctuations"
    using assms(3)
    by (auto simp: lone_punctuation_def isspace_def isdigit_def is_identifier_start_def isalpha_def literal_prefixes_def punctuations_def)
  note sp = scan_spaces [OF assms(1) [unfolded ahead_text_def] assms(2) c(1)]
  have other: "substr ?s ?p (length w) \<noteq> w" if "hd w \<noteq> c" "w \<noteq> []" for w
    using that sp(4) by (cases w) (auto simp: substr_def)
  have "find (quote_after ?s ?p) literal_prefixes = None"
    using c(7) other by (auto simp: find_None_iff list_all_iff quote_after_def)
  then have q: "prefixed_quote_position ?s ?p = None"
    using sp(3) c by (simp add: prefixed_quote_position_def)
  have p: "find (\<lambda>punctuation. substr ?s ?p (length punctuation) = punctuation) punctuations = None"
    using c(8) other by (auto simp: find_None_iff list_all_iff)
  have two: "substr ?s ?p 2 \<noteq> CHR ''/'' # v" for v
    using sp(4) c by (auto simp: substr_def numeral_2_eq_2)
  have "token_at ?s ?p = mk_token PUNCTUATION ?p (?p + length [c])"
    using q p two sp(3) c by (simp add: token_at_def)
  then show ?thesis
    using assms(1,2) c(1) by (intro next_token_ahead [where c = c and sp = sp]) auto
qed

lemma reads_END:
  "ahead_text lx = sp \<Longrightarrow> list_all isspace sp \<Longrightarrow> kind (fst (next_token lx)) = END"
  using scan_while_closed [of isspace "lex_input lx" "position lx"]
  by (auto simp: next_token_END ahead_text_def list_all_iff takeWhile_eq_all_conv [THEN iffD2])

subsection \<open>An enumeration\<close>

text \<open>How an enumeration is written: the name, the values with commas between them.\<close>

definition enum_source :: "string \<Rightarrow> string list \<Rightarrow> string" where
  "enum_source name vs = ''enum struct '' @ name @ '' { '' @ joined '', '' vs @ '' };'' @ newline"

lemma space_facts [simp]: "isspace CHR '' ''" "isspace CHR 0x0A"
  by (simp_all add: isspace_def)

lemma not_part [simp]:
  "\<not> is_identifier_part CHR '' ''" "\<not> is_identifier_part CHR '',''" "\<not> is_identifier_part CHR '')''"
  by (simp_all add: is_identifier_part_def isalnum_def isalpha_def isdigit_def)

lemma lone [simp]: "lone_punctuation CHR ''{''" "lone_punctuation CHR ''}''" "lone_punctuation CHR '',''"
  "lone_punctuation CHR '';''" "lone_punctuation CHR ''@''" "lone_punctuation CHR ''(''" "lone_punctuation CHR '')''"
  by (simp_all add: lone_punctuation_def)

lemma is_identifier_words: "is_identifier ''enum''" "is_identifier ''struct''" "is_identifier ''enum_to_string''"
  by (simp_all add: is_identifier_def is_identifier_start_def is_identifier_part_def isalnum_def isalpha_def isdigit_def)

lemma identifier_text:
  assumes "is_identifier w"
  shows "w \<noteq> [c] \<or> is_identifier_start c" "w \<noteq> []" "w \<noteq> '',''" "w \<noteq> ''}''" "w \<noteq> ''=''" "w \<noteq> ''{''" "w \<noteq> '':''"
  using assms by (auto simp: is_identifier_def is_identifier_start_def isalpha_def)

lemma joined_Cons: "vs \<noteq> [] \<Longrightarrow> joined sep (w # vs) = w @ sep @ joined sep vs"
  by (cases vs) auto

lemma enumerators_skip:
  assumes "kind t \<noteq> END" "token_text (lex_input lx) t = '',''" "next_token lx = (t', lx')"
  shows "enumerators t lx acc = enumerators t' lx' acc"
  using assms by (subst enumerators.simps) simp

lemma enumerators_plain:
  assumes "kind t = IDENTIFIER" "token_text (lex_input lx) t = v" "is_identifier v" "next_token lx = (t', lx')"
    "token_text (lex_input lx) t' \<noteq> ''=''"
  shows "enumerators t lx acc = enumerators t' lx' (acc @ [v])"
  using assms identifier_text [OF assms(3)] by (subst enumerators.simps) simp

lemma enumerators_end:
  "token_text (lex_input lx) t = ''}'' \<Longrightarrow> enumerators t lx acc = (acc, lx)"
  by (subst enumerators.simps) simp

lemma enumerators_read:
  assumes "list_all is_identifier (v # vs)" "kind t = IDENTIFIER" "token_text (lex_input lx) t = v"
    "ahead_text lx = (if vs = [] then [] else '', '' @ joined '', '' vs) @ '' }'' @ tail"
  shows "\<exists>lx'. enumerators t lx acc = (acc @ v # vs, lx') \<and> ahead_text lx' = tail \<and> lex_input lx' = lex_input lx"
  using assms
proof (induction vs arbitrary: v t lx acc)
  case Nil
  then have "reads lx PUNCTUATION ''}'' tail" by (intro reads_punctuation [where sp = "'' ''"]) auto
  from reads_next [OF this] obtain t' lx' where n: "next_token lx = (t', lx')" "token_text (lex_input lx) t' = ''}''"
    "ahead_text lx' = tail" "lex_input lx' = lex_input lx" by auto
  with Nil enumerators_plain [OF Nil(2,3) _ n(1), of acc] enumerators_end [of lx' t' "acc @ [v]"] show ?case by auto
next
  case (Cons u vs)
  then have "reads lx PUNCTUATION '','' ('' '' @ joined '', '' (u # vs) @ '' }'' @ tail)"
    by (intro reads_punctuation [where sp = "[]"]) auto
  from reads_next [OF this] obtain t1 lx1 where n1: "next_token lx = (t1, lx1)" "kind t1 = PUNCTUATION"
    "token_text (lex_input lx) t1 = '',''" "ahead_text lx1 = '' '' @ joined '', '' (u # vs) @ '' }'' @ tail"
    "lex_input lx1 = lex_input lx" by auto
  let ?rest = "(if vs = [] then [] else '', '' @ joined '', '' vs) @ '' }'' @ tail"
  have "joined '', '' (u # vs) @ '' }'' @ tail = u @ ?rest" by (cases "vs = []") (simp_all add: joined_Cons)
  with n1(4) Cons.prems(1) have "reads lx1 IDENTIFIER u ?rest"
    by (intro reads_identifier [where sp = "'' ''"]) auto
  from reads_next [OF this] obtain t2 lx2 where n2: "next_token lx1 = (t2, lx2)" "kind t2 = IDENTIFIER"
    "token_text (lex_input lx1) t2 = u" "ahead_text lx2 = ?rest" "lex_input lx2 = lex_input lx1" by auto
  have "enumerators t lx acc = enumerators t2 lx2 (acc @ [v])"
    using enumerators_plain [OF Cons.prems(2,3) _ n1(1), of acc] enumerators_skip [OF _ _ n2(1), of t1 "acc @ [v]"] n1 Cons.prems(1)
    by simp
  moreover from Cons.IH [of u t2 lx2 "acc @ [v]"] Cons.prems(1) n2 n1(5)
  obtain lx' where "enumerators t2 lx2 (acc @ [v]) = ((acc @ [v]) @ u # vs, lx')" "ahead_text lx' = tail"
    "lex_input lx' = lex_input lx" by auto
  ultimately show ?case by auto
qed

lemma enum_at_source:
  assumes "ahead_text lx = '' struct '' @ name @ '' { '' @ joined '', '' vs @ '' }'' @ tail"
    "is_identifier name" "list_all is_identifier vs" "vs \<noteq> []"
  shows "\<exists>lx'. enum_at lx = (Some (name, vs), lx') \<and> ahead_text lx' = tail \<and> lex_input lx' = lex_input lx"
proof -
  obtain v us where vs: "vs = v # us" using assms(4) by (cases vs) auto
  let ?rest = "(if us = [] then [] else '', '' @ joined '', '' us) @ '' }'' @ tail"
  have j: "joined '', '' vs @ '' }'' @ tail = v @ ?rest" using vs by (cases "us = []") (simp_all add: joined_Cons)
  have "reads lx IDENTIFIER ''struct'' ('' '' @ name @ '' { '' @ joined '', '' vs @ '' }'' @ tail)"
    using assms(1) is_identifier_words by (intro reads_identifier [where sp = "'' ''"]) auto
  from reads_next [OF this] obtain t1 l1 where 1: "next_token lx = (t1, l1)" "kind t1 = IDENTIFIER"
    "token_text (lex_input lx) t1 = ''struct''" "ahead_text l1 = '' '' @ name @ '' { '' @ joined '', '' vs @ '' }'' @ tail"
    "lex_input l1 = lex_input lx" by auto
  have "reads l1 IDENTIFIER name ('' { '' @ joined '', '' vs @ '' }'' @ tail)"
    using 1(4) assms(2) by (intro reads_identifier [where sp = "'' ''"]) auto
  from reads_next [OF this] obtain t2 l2 where 2: "next_token l1 = (t2, l2)" "kind t2 = IDENTIFIER"
    "token_text (lex_input l1) t2 = name" "ahead_text l2 = '' { '' @ joined '', '' vs @ '' }'' @ tail"
    "lex_input l2 = lex_input l1" by auto
  have "reads l2 PUNCTUATION ''{'' ('' '' @ joined '', '' vs @ '' }'' @ tail)"
    using 2(4) by (intro reads_punctuation [where sp = "'' ''"]) auto
  from reads_next [OF this] obtain t3 l3 where 3: "next_token l2 = (t3, l3)" "kind t3 = PUNCTUATION"
    "token_text (lex_input l2) t3 = ''{''" "ahead_text l3 = '' '' @ joined '', '' vs @ '' }'' @ tail"
    "lex_input l3 = lex_input l2" by auto
  have "reads l3 IDENTIFIER v ?rest"
    using 3(4) j assms(3) vs by (intro reads_identifier [where sp = "'' ''"]) auto
  from reads_next [OF this] obtain t4 l4 where 4: "next_token l3 = (t4, l4)" "kind t4 = IDENTIFIER"
    "token_text (lex_input l3) t4 = v" "ahead_text l4 = ?rest" "lex_input l4 = lex_input l3" by auto
  have "list_all is_identifier (v # us)" "token_text (lex_input l4) t4 = v" using assms(3) vs 4 by auto
  from enumerators_read [OF this(1) 4(2) this(2) 4(4), of "[]"] obtain lx' where
    "enumerators t4 l4 [] = (vs, lx')" "ahead_text lx' = tail" "lex_input lx' = lex_input l4" using vs by auto
  with 1 2 3 4 assms(4) show ?thesis by (simp add: enum_at_def Let_def)
qed

lemma prescan_skip:
  assumes "reads lx k w rest" "k \<noteq> END" "k \<noteq> IDENTIFIER \<or> w \<noteq> ''enum''"
  shows "\<exists>lx'. prescan_enums lx m = prescan_enums lx' m \<and> ahead_text lx' = rest"
  using reads_next [OF assms(1)] assms(2,3) by (auto simp: prescan_enums.simps [of lx])

lemma prescan_enum_source:
  assumes "ahead_text lx = sp @ enum_source name vs @ tail" "list_all isspace sp"
    "is_identifier name" "list_all is_identifier vs" "vs \<noteq> []" "m name = None"
  shows "\<exists>lx'. prescan_enums lx m = prescan_enums lx' (m(name \<mapsto> vs)) \<and> ahead_text lx' = newline @ tail"
proof -
  let ?tail = "'';'' @ newline @ tail"
  have "reads lx IDENTIFIER ''enum'' ('' struct '' @ name @ '' { '' @ joined '', '' vs @ '' }'' @ ?tail)"
    using assms(1,2) is_identifier_words by (intro reads_identifier [where sp = sp]) (auto simp: enum_source_def)
  from reads_next [OF this] obtain t lx1 where 1: "next_token lx = (t, lx1)" "kind t = IDENTIFIER"
    "token_text (lex_input lx) t = ''enum''" "ahead_text lx1 = '' struct '' @ name @ '' { '' @ joined '', '' vs @ '' }'' @ ?tail"
    by auto
  from enum_at_source [OF 1(4) assms(3-5)] obtain lx2 where
    2: "enum_at lx1 = (Some (name, vs), lx2)" "ahead_text lx2 = ?tail" by auto
  have "reads lx2 PUNCTUATION '';'' (newline @ tail)"
    using 2(2) by (intro reads_punctuation [where sp = "[]"]) auto
  from prescan_skip [OF this, of "m(name \<mapsto> vs)"] 1 2 assms(6) show ?thesis
    by (auto simp: prescan_enums.simps [of lx])
qed

definition enum_sources :: "(string \<times> string list) list \<Rightarrow> string" where
  "enum_sources es = concat (map (\<lambda>(name, vs). enum_source name vs) es)"

definition enum_ok :: "string \<times> string list \<Rightarrow> bool" where
  "enum_ok e \<longleftrightarrow> is_identifier (fst e) \<and> list_all is_identifier (snd e) \<and> snd e \<noteq> []"

lemma prescan_enum_sources:
  assumes "ahead_text lx = sp @ enum_sources es @ tail" "list_all isspace sp" "list_all enum_ok es"
    "distinct (map fst es)" "list_all (\<lambda>e. m (fst e) = None) es"
  shows "\<exists>lx' sp'. prescan_enums lx m = prescan_enums lx' (m ++ map_of es) \<and> ahead_text lx' = sp' @ tail \<and> list_all isspace sp'"
  using assms
proof (induction es arbitrary: lx sp m)
  case (Cons e es)
  obtain name vs where e: "e = (name, vs)" by (cases e)
  with Cons.prems have "\<exists>lx'. prescan_enums lx m = prescan_enums lx' (m(name \<mapsto> vs)) \<and> ahead_text lx' = newline @ enum_sources es @ tail"
    by (intro prescan_enum_source [where sp = sp]) (auto simp: enum_sources_def enum_ok_def)
  then obtain lx1 where 1: "prescan_enums lx m = prescan_enums lx1 (m(name \<mapsto> vs))" "ahead_text lx1 = newline @ enum_sources es @ tail"
    by auto
  have fresh: "list_all (\<lambda>e. (m(name \<mapsto> vs)) (fst e) = None) es"
    using Cons.prems(4,5) e by (force simp: list_all_iff)
  have nl: "list_all isspace newline" and rest: "list_all enum_ok es" "distinct (map fst es)"
    using Cons.prems(3,4) by (simp_all add: newline_def)
  obtain lx' sp' where
    2: "prescan_enums lx1 (m(name \<mapsto> vs)) = prescan_enums lx' ((m(name \<mapsto> vs)) ++ map_of es)" "ahead_text lx' = sp' @ tail"
      "list_all isspace sp'"
    using Cons.IH [OF 1(2) nl rest fresh] by blast
  have "name \<notin> dom (map_of es)" using Cons.prems(4) e by (auto simp: dom_map_of_conv_image_fst)
  then have "(m(name \<mapsto> vs)) ++ map_of es = m ++ map_of (e # es)"
    by (auto simp: e map_add_def fun_eq_iff split: option.splits)
  with 1 2 show ?case by metis
qed (auto simp: enum_sources_def)

lemma prescan_directive:
  assumes "ahead_text lx = sp @ ''@enum_to_string('' @ name @ '')''" "list_all isspace sp" "is_identifier name" "name \<noteq> ''enum''"
  shows "prescan_enums lx m = Inr m"
proof -
  have "reads lx PUNCTUATION ''@'' (''enum_to_string('' @ name @ '')'')"
    using assms by (intro reads_punctuation [where sp = sp]) auto
  from prescan_skip [OF this, of m] obtain l1 where 1: "prescan_enums lx m = prescan_enums l1 m"
    "ahead_text l1 = ''enum_to_string('' @ name @ '')''" by auto
  have "\<not> is_identifier_part CHR ''(''" by (simp add: is_identifier_part_def isalnum_def isalpha_def isdigit_def)
  then have "reads l1 IDENTIFIER ''enum_to_string'' (''('' @ name @ '')'')"
    using 1 is_identifier_words by (intro reads_identifier [where sp = "[]"]) auto
  from prescan_skip [OF this, of m] obtain l2 where 2: "prescan_enums l1 m = prescan_enums l2 m"
    "ahead_text l2 = ''('' @ name @ '')''" by auto
  have "reads l2 PUNCTUATION ''('' (name @ '')'')" using 2 by (intro reads_punctuation [where sp = "[]"]) auto
  from prescan_skip [OF this, of m] obtain l3 where 3: "prescan_enums l2 m = prescan_enums l3 m"
    "ahead_text l3 = name @ '')''" by auto
  have "reads l3 IDENTIFIER name '')''" using 3 assms by (intro reads_identifier [where sp = "[]"]) auto
  from prescan_skip [OF this, of m] assms(4) obtain l4 where 4: "prescan_enums l3 m = prescan_enums l4 m"
    "ahead_text l4 = '')''" by auto
  have "reads l4 PUNCTUATION '')'' []" using 4 by (intro reads_punctuation [where sp = "[]"]) auto
  from prescan_skip [OF this, of m] obtain l5 where 5: "prescan_enums l4 m = prescan_enums l5 m" "ahead_text l5 = []" by auto
  have "prescan_enums l5 m = Inr m"
    using reads_END [OF 5(2)] by (simp add: prescan_enums.simps [of l5] case_prod_beta)
  with 1 2 3 4 5 show ?thesis by simp
qed

lemma read_until_word:
  assumes "drop (pp_pos p) (pp_input p) = w @ stop # rest" "list_all (\<lambda>c. c \<noteq> stop \<and> c \<noteq> CHR 0x00 \<and> c \<noteq> CHR 0x0A) w"
  shows "read_until stop acc p = Inr (acc @ w, p\<lparr>pp_pos := pp_pos p + length w\<rparr>)"
  using assms
proof (induction w arbitrary: p acc)
  case Nil
  then have "pp_pos p < length (pp_input p)" by (metis drop_all leI list.distinct(1) append_Nil)
  moreover have "pp_input p ! pp_pos p = stop" using Nil(1) calculation by (metis append_Nil hd_drop_conv_nth list.sel(1))
  ultimately show ?case by (subst read_until.simps) (simp add: peek_def)
next
  case (Cons c w)
  then have l: "pp_pos p < length (pp_input p)" by (metis append_Cons drop_all leI list.distinct(1))
  have c: "pp_input p ! pp_pos p = c" using Cons.prems(1) l by (metis append_Cons hd_drop_conv_nth list.sel(1))
  let ?q = "p\<lparr>pp_pos := pp_pos p + 1\<rparr>"
  have "get p = Inr (c, ?q)" using l c Cons.prems(2) by (simp add: get_def Let_def)
  then have "read_until stop acc p = read_until stop (acc @ [c]) ?q"
    using l c Cons.prems(2) by (subst read_until.simps) (simp add: peek_def)
  moreover have "drop (pp_pos ?q) (pp_input ?q) = w @ stop # rest"
    using Cons.prems(1) by (simp add: drop_Suc tl_drop [symmetric])
  ultimately show ?case using Cons.IH [of ?q "acc @ [c]"] Cons.prems(2) by simp
qed

lemma drop_map_ordinary:
  "is_identifier w \<Longrightarrow> list_all ordinary w \<and> list_all (\<lambda>c. c \<noteq> CHR '')'' \<and> c \<noteq> CHR 0x00 \<and> c \<noteq> CHR 0x0A) w"
  by (auto simp: is_identifier_def list_all_iff ordinary_def is_identifier_part_def isalnum_def isalpha_def isdigit_def)

lemma joined_ordinary: "list_all (\<lambda>w. list_all P w) vs \<Longrightarrow> list_all P sep \<Longrightarrow> list_all P (joined sep vs)"
  by (induction sep vs rule: joined.induct) auto

lemma enum_sources_ordinary: "list_all enum_ok es \<Longrightarrow> list_all ordinary (enum_sources es)"
proof (induction es)
  case (Cons e es)
  obtain name vs where e: "e = (name, vs)" by (cases e)
  then have "is_identifier name" "list_all is_identifier vs" using Cons.prems by (auto simp: enum_ok_def)
  then have "list_all ordinary name" "list_all (\<lambda>w. list_all ordinary w) vs"
    using drop_map_ordinary by (auto simp: list_all_iff)
  with joined_ordinary [of ordinary vs "'', ''"] have "list_all ordinary (enum_source name vs)"
    by (simp add: enum_source_def newline_def ordinary_def)
  with Cons e show ?case by (simp add: enum_sources_def)
qed (simp add: enum_sources_def)

lemma lines_append: "filter (\<lambda>c. c = CHR 0x0A) (joined '', '' vs) = []" if "list_all is_identifier vs"
proof -
  have "list_all (\<lambda>c. c \<noteq> CHR 0x0A) (joined '', '' vs)"
    using that drop_map_ordinary by (intro joined_ordinary) (auto simp: list_all_iff)
  then show ?thesis by (auto simp: filter_empty_conv list_all_iff)
qed

lemma enum_sources_lines:
  "list_all enum_ok es \<Longrightarrow> length (filter (\<lambda>c. c = CHR 0x0A) (enum_sources es)) = length es"
proof (induction es)
  case (Cons e es)
  obtain name vs where e: "e = (name, vs)" by (cases e)
  then have i: "is_identifier name" "list_all is_identifier vs" using Cons.prems by (auto simp: enum_ok_def)
  then have "filter (\<lambda>c. c = CHR 0x0A) name = []"
    using drop_map_ordinary by (auto simp: filter_empty_conv list_all_iff)
  with Cons e lines_append [OF i(2)] show ?case by (simp add: enum_sources_def enum_source_def newline_def)
qed (simp add: enum_sources_def)

lemma enum_to_string_step:
  assumes "drop (pp_pos p) (pp_input p) = ''@enum_to_string('' @ name @ '')''" "pp_mode p = NORMAL" "is_identifier name"
    "enum_map p name = Some vs"
  shows "pp_step g p = Inr (emit (enum_to_string_text name vs (pp_line p)) (p\<lparr>pp_pos := length (pp_input p)\<rparr>))"
proof -
  let ?w = "''@enum_to_string(''"
  let ?p1 = "p\<lparr>pp_pos := pp_pos p + length ?w\<rparr>" and ?p2 = "p\<lparr>pp_pos := pp_pos p + length ?w + length name\<rparr>"
  have len: "length (pp_input p) = pp_pos p + length ?w + length name + 1"
    using arg_cong [OF assms(1), of length] by auto
  have m: "match ''@embed('' p = None" "match ''@enum_values('' p = None" "match ?w p = Some ?p1"
    using assms(1) by (simp_all add: match_def substr_def)
  have "drop (pp_pos p + length ?w) (pp_input p) = drop (length ?w) (drop (pp_pos p) (pp_input p))"
    by (simp only: drop_drop add.commute)
  then have d1: "drop (pp_pos p + length ?w) (pp_input p) = name @ CHR '')'' # []"
    unfolding assms(1) by simp
  have r: "read_until CHR '')'' [] ?p1 = Inr (name, ?p2)"
    using read_until_word [of ?p1 name "CHR '')''" "[]" "[]"] d1 drop_map_ordinary [OF assms(3)] by simp
  have "drop (pp_pos p + length ?w + length name) (pp_input p) = drop (length name) (drop (pp_pos p + length ?w) (pp_input p))"
    by (simp only: drop_drop add.commute)
  then have "drop (pp_pos p + length ?w + length name) (pp_input p) = '')''" unfolding d1 by simp
  then have "pp_input p ! (pp_pos p + length ?w + length name) = CHR '')''"
    using len hd_drop_conv_nth [of "pp_pos p + length ?w + length name" "pp_input p"] by simp
  then have x: "expect CHR '')'' msg ?p2 = Inr (p\<lparr>pp_pos := length (pp_input p)\<rparr>)" for msg
    using len by (simp add: expect_def get_def Let_def)
  show ?thesis
    using assms(2,4) m r x by (simp add: pp_step_def normal_state_def enum_to_string_state_def)
qed

section \<open>Unrolling\<close>

text \<open>The text of tokens written by \<open>f\<close>, with what lies between them copied.\<close>

fun rendered :: "(token \<Rightarrow> string) \<Rightarrow> string \<Rightarrow> nat \<Rightarrow> token list \<Rightarrow> string" where
  "rendered f s p [] = drop p s"
| "rendered f s p (t # ts) = substr s p (tok_begin t - p) @ f t @ rendered f s (tok_end t) ts"

lemma substr_drop: "p \<le> b \<Longrightarrow> b \<le> length s \<Longrightarrow> substr s p (b - p) @ drop b s = drop p s"
  by (simp add: substr_def) (metis append_take_drop_id drop_drop le_add_diff_inverse2 add.commute)

lemma rendered_itself: "laid_out s p ts \<Longrightarrow> rendered (token_text s) s p ts = drop p s"
proof (induction ts arbitrary: p)
  case (Cons t ts)
  then have "rendered (token_text s) s (tok_end t) ts = drop (tok_end t) s" by simp
  moreover have "token_text s t @ drop (tok_end t) s = drop (tok_begin t) s"
    using Cons.prems substr_drop [of "tok_begin t" "tok_end t" s] by (simp add: token_text_def)
  ultimately show ?case using Cons.prems substr_drop [of p "tok_begin t" s] by simp
qed simp

lemma replace_loop_rendered:
  "replace_loop x v lx from_pos result =
    result @ rendered (\<lambda>t. if kind t = IDENTIFIER \<and> token_text (lex_input lx) t = x then to_string v else token_text (lex_input lx) t)
      (lex_input lx) from_pos (tokens lx)"
proof (induction x v lx from_pos result rule: replace_loop.induct)
  case (1 x v lx from_pos result)
  obtain t lx' where n: "next_token lx = (t, lx')" by (cases "next_token lx")
  show ?case
  proof (cases "kind t = END")
    case True
    with n show ?thesis by (simp add: replace_loop.simps [of x v lx] tokens_END)
  next
    case False
    note t = next_token_cases [OF n False]
    show ?thesis
      using "1.IH" [OF refl n [symmetric] False, unfolded t(5)] n False t(5)
      by (simp add: replace_loop.simps [of x v lx] tokens_Cons token_text_def Let_def)
  qed
qed

lemma rendered_cong: "(\<And>t. t \<in> set ts \<Longrightarrow> f t = g t) \<Longrightarrow> rendered f s p ts = rendered g s p ts"
  by (induction ts arbitrary: p) auto

text \<open>The values a loop runs through.\<close>

fun loop_values :: "comparator \<Rightarrow> int \<Rightarrow> int \<Rightarrow> int list" where
  "loop_values LESS a b = [a..b - 1]"
| "loop_values LESS_EQUAL a b = [a..b]"
| "loop_values GREATER a b = rev [b + 1..a]"
| "loop_values GREATER_EQUAL a b = rev [b..a]"

text \<open>The step after the last value of the type.\<close>

fun steps_past_s64 :: "comparator \<Rightarrow> int \<Rightarrow> int \<Rightarrow> bool" where
  "steps_past_s64 LESS_EQUAL a b = (b = S64_MAX \<and> a \<le> b)"
| "steps_past_s64 GREATER_EQUAL a b = (b = S64_MIN \<and> b \<le> a)"
| "steps_past_s64 c a b = False"

definition is_s64 :: "int \<Rightarrow> bool" where
  "is_s64 v \<longleftrightarrow> S64_MIN \<le> v \<and> v \<le> S64_MAX"

lemma loop_values_Cons:
  assumes "condition_holds c b a"
  shows "loop_values c a b = a # loop_values c (if ascending c then a + 1 else a - 1) b"
  using assms upto_rec1 [of a "b - 1"] upto_rec1 [of a b] upto_rec2 [of "b + 1" a] upto_rec2 [of b a]
  by (cases c) auto

lemma loop_values_Nil: "\<not> condition_holds c b a \<Longrightarrow> loop_values c a b = []"
  by (cases c) auto

lemma for_loop_unrolls:
  "is_s64 a \<Longrightarrow> is_s64 b \<Longrightarrow> for_loop copy c b (ascending c) a out =
    (if steps_past_s64 c a b then Inl ''signed overflow'' else Inr (out @ concat (map copy (loop_values c a b))))"
proof (induction copy c b "ascending c" a out rule: for_loop.induct)
  case (1 copy c b a out)
  show ?case
  proof (cases "condition_holds c b a")
    case False
    then have "\<not> steps_past_s64 c a b" by (cases c) auto
    with False show ?thesis by (simp add: for_loop.simps [of copy c] loop_values_Nil)
  next
    case True
    let ?n = "if ascending c then a + 1 else a - 1"
    show ?thesis
    proof (cases "is_s64 ?n")
      case n: True
      then have "S64_MIN \<le> ?n \<and> ?n \<le> S64_MAX" by (simp add: is_s64_def)
      from "1.hyps" [OF True refl this n "1.prems"(2)] True this
      have "for_loop copy c b (ascending c) a out =
        (if steps_past_s64 c ?n b then Inl ''signed overflow'' else Inr ((out @ copy a) @ concat (map copy (loop_values c ?n b))))"
        by (simp add: for_loop.simps [of copy c b "ascending c" a])
      moreover have "steps_past_s64 c ?n b = steps_past_s64 c a b"
        using True n by (cases c) (auto simp: is_s64_def S64_MIN_def S64_MAX_def)
      ultimately show ?thesis using loop_values_Cons [OF True] by simp
    next
      case False
      then have "steps_past_s64 c a b"
        using True "1.prems" by (cases c) (auto simp: is_s64_def S64_MIN_def S64_MAX_def)
      moreover have "for_loop copy c b (ascending c) a out = Inl ''signed overflow''"
        using True False by (subst for_loop.simps) (auto simp: is_s64_def Let_def)
      ultimately show ?thesis by simp
    qed
  qed
qed

definition newlines :: "string \<Rightarrow> nat" where
  "newlines w = length (filter (\<lambda>c. c = CHR 0x0A) w)"

lemma newlines_append: "newlines (u @ w) = newlines u + newlines w"
  by (simp add: newlines_def)

lemma next_char:
  assumes "drop (pp_pos p) (pp_input p) = c # rest"
  shows "pp_pos p < length (pp_input p)" "pp_input p ! pp_pos p = c" "peek p = c"
    "get p = Inr (c, p\<lparr>pp_pos := pp_pos p + 1, pp_line := pp_line p + newlines [c]\<rparr>)" "drop (pp_pos p + 1) (pp_input p) = rest"
proof -
  show l: "pp_pos p < length (pp_input p)" using assms by (metis drop_all leI list.distinct(1))
  show c: "pp_input p ! pp_pos p = c" using assms l by (metis hd_drop_conv_nth list.sel(1))
  show "peek p = c" using l c by (simp add: peek_def)
  show "get p = Inr (c, p\<lparr>pp_pos := pp_pos p + 1, pp_line := pp_line p + newlines [c]\<rparr>)"
    using l c by (simp add: get_def Let_def newlines_def)
  show "drop (pp_pos p + 1) (pp_input p) = rest" using assms by (metis Suc_eq_plus1 drop_Suc list.sel(3) tl_drop)
qed

lemma skip_spaces_at:
  assumes "drop (pp_pos p) (pp_input p) = sp @ c # rest" "list_all isspace sp" "\<not> isspace c"
  shows "skip_spaces p = Inr (p\<lparr>pp_pos := pp_pos p + length sp, pp_line := pp_line p + newlines sp\<rparr>)"
  using assms(1,2)
proof (induction sp arbitrary: p)
  case Nil
  with next_char(3) [of p c rest] assms(3) show ?case
    by (subst skip_spaces.simps) (simp add: newlines_def)
next
  case (Cons d sp)
  note n = next_char [OF Cons.prems(1) [unfolded append_Cons]]
  let ?q = "p\<lparr>pp_pos := pp_pos p + 1, pp_line := pp_line p + newlines [d]\<rparr>"
  have "skip_spaces p = skip_spaces ?q" using n(3,4) Cons.prems(2) by (subst skip_spaces.simps) simp
  also have "\<dots> = Inr (?q\<lparr>pp_pos := pp_pos ?q + length sp, pp_line := pp_line ?q + newlines sp\<rparr>)"
    using n(5) Cons.prems(2) by (intro Cons.IH) simp_all
  finally show ?case using newlines_append [of "[d]" sp] by simp
qed

lemma consume_to_at:
  assumes "drop (pp_pos p) (pp_input p) = w @ rest"
  shows "consume_to (pp_pos p + length w) p = Inr (p\<lparr>pp_pos := pp_pos p + length w, pp_line := pp_line p + newlines w\<rparr>)"
  using assms
proof (induction w arbitrary: p)
  case Nil
  then show ?case by (subst consume_to.simps) (simp add: newlines_def)
next
  case (Cons d w)
  note n = next_char [OF Cons.prems [unfolded append_Cons]]
  let ?q = "p\<lparr>pp_pos := pp_pos p + 1, pp_line := pp_line p + newlines [d]\<rparr>"
  have "consume_to (pp_pos p + length (d # w)) p = consume_to (pp_pos ?q + length w) ?q"
    using n(4) by (subst consume_to.simps) simp
  also have "\<dots> = Inr (?q\<lparr>pp_pos := pp_pos ?q + length w, pp_line := pp_line ?q + newlines w\<rparr>)"
    using n(5) by (intro Cons.IH) simp_all
  finally show ?case using newlines_append [of "[d]" w] by simp
qed

section \<open>The properties\<close>


text \<open>
  C31: The scan for a closing bracket finds the first token that closes more brackets than were opened since
  the start, brackets in literals and comments not counting, and reports an incomplete range only if there is none.
\<close>
theorem closing_bracket_found:
  "let ts = tokens (mk_lexer s p); r = scan_balanced s p op cl;
       depth = (\<lambda>us. \<Sum>u\<leftarrow>us. weight s op cl u)
   in if complete r
      then \<exists>us t vs. ts = us @ t # vs \<and> token_text s t = [cl] \<and> close_at r = tok_begin t \<and> depth us = 0
        \<and> list_all (\<lambda>k. 0 \<le> depth (take k us)) [0..<Suc (length us)]
      else close_at r = length s \<and> list_all (\<lambda>k. 0 \<le> depth (take k ts)) [0..<Suc (length ts)]"
proof (cases "first_unmatched s op cl 0 (tokens (mk_lexer s p))")
  case None
  then have "scan_balanced s p op cl = \<lparr>complete = False, close_at = length s\<rparr>"
    by (simp add: scan_balanced_def balanced_loop_first_unmatched mk_lexer_def)
  with first_unmatched_None [OF None] show ?thesis by (auto simp: Let_def list_all_iff)
next
  case (Some t)
  then have "scan_balanced s p op cl = \<lparr>complete = True, close_at = tok_begin t\<rparr>"
    by (simp add: scan_balanced_def balanced_loop_first_unmatched mk_lexer_def)
  moreover obtain us vs where "tokens (mk_lexer s p) = us @ t # vs" "token_text s t = [cl]" "(\<Sum>u\<leftarrow>us. weight s op cl u) = 0"
    "list_all (\<lambda>k. 0 \<le> (\<Sum>u\<leftarrow>take k us. weight s op cl u)) [0..<Suc (length us)]"
    using first_unmatched_spec [OF Some] by (auto simp: list_all_iff less_Suc_eq_le)
  ultimately show ?thesis
    by (simp only: Let_def balanced_range.simps if_True) (intro exI conjI; assumption?; simp)
qed

text \<open>
  C32: In the copies of a loop's body exactly the identifiers that are the loop variable as a whole are replaced
  by the value: not parts of longer names, not text in literals or comments; everything else, white space
  included, is the body's.
\<close>
theorem whole_identifiers_replaced:
  "replace_for_variable body x v =
     rendered (\<lambda>t. if kind t = IDENTIFIER \<and> token_text body t = x then to_string v else token_text body t)
       body 0 (tokens (mk_lexer body 0))
   \<and> rendered (token_text body) body 0 (tokens (mk_lexer body 0)) = body
   \<and> (list_ex (\<lambda>t. kind t = IDENTIFIER \<and> token_text body t = x) (tokens (mk_lexer body 0))
      \<or> replace_for_variable body x v = body)"
proof -
  let ?ts = "tokens (mk_lexer body 0)" and ?f = "\<lambda>t. if kind t = IDENTIFIER \<and> token_text body t = x then to_string v else token_text body t"
  have inp: "lex_input (mk_lexer body 0) = body" by (simp add: mk_lexer_def)
  have eq: "replace_for_variable body x v = rendered ?f body 0 ?ts"
    using replace_loop_rendered [of x v "mk_lexer body 0" 0 "[]", unfolded inp] by (simp add: replace_for_variable_def)
  have id: "rendered (token_text body) body 0 ?ts = body"
    using rendered_itself [OF tokens_mk_lexer [of body 0]] by simp
  have "list_ex (\<lambda>t. kind t = IDENTIFIER \<and> token_text body t = x) ?ts \<or> rendered ?f body 0 ?ts = rendered (token_text body) body 0 ?ts"
    by (cases "list_ex (\<lambda>t. kind t = IDENTIFIER \<and> token_text body t = x) ?ts")
      (auto simp: list_ex_iff intro!: rendered_cong)
  with eq id show ?thesis by simp
qed



lemma prescan_no_enum:
  "list_all (\<lambda>t. \<not> (kind t = IDENTIFIER \<and> token_text (lex_input lx) t = ''enum'')) (tokens lx) \<Longrightarrow> prescan_enums lx m = Inr m"
proof (induction lx rule: tokens.induct)
  case (1 lx)
  obtain t lx' where n: "next_token lx = (t, lx')" by (cases "next_token lx")
  show ?case
  proof (cases "kind t = END")
    case False
    with 1 n next_token_input [of lx] show ?thesis
      by (auto simp: prescan_enums.simps [of lx] tokens_Cons)
  qed (simp add: prescan_enums.simps [of lx] n)
qed

text \<open>
  C33: A source without an @ is copied to the output as it is, whatever strings, character literals and comments it holds,
  unless an enumeration is defined twice or the text ends in a backslash; nothing is embedded.
\<close>
theorem plain_source_copied:
  assumes "CHR ''@'' \<notin> set source" "last source \<noteq> CHR 0x5C" "prescan_enums (mk_lexer source 0) (\<lambda>n. None) = Inr m"
  shows "\<exists>q. pp_run get_data source p = Inr q \<and> pp_output q = source \<and> \<not> has_embed q \<and> pp_pool q = pp_pool p"
proof -
  let ?p = "(pp_clear_state source p)\<lparr>constants := prescan_constants source 0 (\<lambda>n. None), enum_map := m\<rparr>"
  have run: "pp_run get_data source p = run_loop get_data ?p"
    using assms(3) by (simp add: pp_run_def pp_clear_state_def Let_def)
  have in0: "pp_input ?p = source" "pp_pos ?p = 0" "pp_output ?p = []" "\<not> has_embed ?p" "pp_pool ?p = pp_pool p"
    by (simp_all add: pp_clear_state_def)
  obtain k where "run_loop get_data ?p = Inr (copied (length source) k ?p)"
    using run_copies [of ?p get_data] assms(1,2) in0 by auto
  with run in0 show ?thesis by (simp add: substr_def)
qed

lemma plain_source_copied_witness:
  "\<exists>q. pp_run (\<lambda>f. Inl []) ''/* a */ char c = 'x'; // b'' (new_pp [] []) = Inr q \<and> pp_output q = ''/* a */ char c = 'x'; // b''"
proof -
  let ?s = "''/* a */ char c = 'x'; // b''"
  have "CHR ''@'' \<notin> set ?s" "last ?s \<noteq> CHR 0x5C" by simp_all
  moreover have "prescan_enums (mk_lexer ?s 0) (\<lambda>n. None) = Inr (\<lambda>n. None)"
    by (rule prescan_no_enum) code_simp
  ultimately show ?thesis using plain_source_copied [of ?s] by blast
qed



text \<open>
  C28: Enumerations are read back as they were written: after any list of definitions with distinct names,
  the directive for one of them writes its conversion function with a case for each of its values, in order,
  and a line directive with the directive's line.
\<close>
theorem enumerations_read_back:
  assumes "list_all enum_ok es" "distinct (map fst es)" "(name, vs) \<in> set es" "name \<noteq> ''enum''"
  shows "\<exists>q. pp_run get_data (enum_sources es @ ''@enum_to_string('' @ name @ '')'') p = Inr q
     \<and> pp_output q = enum_sources es @ enum_to_string_text name vs (length es + 1) \<and> enum_map q = map_of es"
proof -
  let ?d = "''@enum_to_string('' @ name @ '')''" and ?n = "length (enum_sources es)"
  let ?src = "enum_sources es @ ?d"
  let ?p = "(pp_clear_state ?src p)\<lparr>constants := prescan_constants ?src 0 (\<lambda>n. None), enum_map := map_of es\<rparr>"
  have id: "is_identifier name" using assms(1,3) by (auto simp: list_all_iff enum_ok_def)
  have "ahead_text (mk_lexer ?src 0) = [] @ enum_sources es @ ?d" by (simp add: ahead_text_def mk_lexer_def)
  from prescan_enum_sources [OF this _ assms(1,2), of "\<lambda>n. None"] obtain lx' sp' where
    "prescan_enums (mk_lexer ?src 0) (\<lambda>n. None) = prescan_enums lx' (map_of es)" "ahead_text lx' = sp' @ ?d" "list_all isspace sp'"
    by (auto simp: list_all_iff)
  with prescan_directive [of lx' sp' name "map_of es"] id assms(4)
  have "prescan_enums (mk_lexer ?src 0) (\<lambda>n. None) = Inr (map_of es)" by simp
  then have run: "pp_run get_data ?src p = run_loop get_data ?p"
    by (simp add: pp_run_def pp_clear_state_def Let_def)
  have in0: "pp_input ?p = ?src" "pp_pos ?p = 0" "pp_output ?p = []" "pp_mode ?p = NORMAL" "enum_map ?p = map_of es" "pp_line ?p = 1"
    by (simp_all add: pp_clear_state_def)
  let ?q = "copied ?n NORMAL ?p"
  have w: "substr ?src 0 ?n = enum_sources es" by (simp add: substr_def)
  then have 1: "run_loop get_data ?p = run_loop get_data ?q"
    using enum_sources_ordinary [OF assms(1)] by (intro run_ordinary) (simp_all only: in0, simp_all)
  have line: "pp_line ?q = length es + 1"
    using w enum_sources_lines [OF assms(1)] by (simp only: copied_def Let_def pp.simps in0) simp
  have vs: "enum_map ?q name = Some vs" using assms(2,3) in0 by (simp add: map_of_eq_Some_iff)
  have d: "drop (pp_pos ?q) (pp_input ?q) = ?d" using in0 by simp
  let ?r = "emit (enum_to_string_text name vs (pp_line ?q)) (?q\<lparr>pp_pos := length (pp_input ?q)\<rparr>)"
  have "pp_step get_data ?q = Inr ?r" using enum_to_string_step [OF d _ id vs] by simp
  then have "run_loop get_data ?q = run_loop get_data ?r" using in0 by (subst run_loop_step) simp_all
  also have "\<dots> = Inr ?r" by (subst run_loop.simps) (simp add: emit_def)
  finally show ?thesis
    using run 1 in0 line w by (simp add: emit_def)
qed

lemma enumerations_read_back_witness:
  "\<exists>q. pp_run (\<lambda>f. Inl []) (''enum struct Color { RED, GREEN };'' @ newline @ ''@enum_to_string(Color)'') (new_pp [] []) = Inr q
     \<and> pp_output q = ''enum struct Color { RED, GREEN };'' @ newline @ enum_to_string_text ''Color'' [''RED'', ''GREEN''] 2"
proof -
  let ?es = "[(''Color'', [''RED'', ''GREEN''])]"
  have "list_all enum_ok ?es" by code_simp
  with enumerations_read_back [of ?es "''Color''" "[''RED'', ''GREEN'']" "\<lambda>f. Inl []" "new_pp [] []"]
  show ?thesis by (auto simp: enum_sources_def enum_source_def numeral_2_eq_2)
qed

end
