(* ===== verification/Keys.thy ===== *)
theory Keys
  imports Prelude
begin

text \<open>
  The enumeration of physical keys of \<^verbatim>\<open>gameos/input.hh\<close>, in the order of the source, in a
  theory of its own because so large a datatype takes a while to build. \<^verbatim>\<open>Key::COUNT\<close> is the
  number of keys, not a key, and has no constructor.
\<close>

datatype (plugins only: ) key =
   Key_UNKNOWN | Key_DIGIT_1 | Key_DIGIT_2 | Key_DIGIT_3 | Key_DIGIT_4 | Key_DIGIT_5
   | Key_DIGIT_6 | Key_DIGIT_7 | Key_DIGIT_8 | Key_DIGIT_9 | Key_DIGIT_0 | Key_Q | Key_W
   | Key_E | Key_R | Key_T | Key_Y | Key_U | Key_I | Key_O | Key_P | Key_A | Key_S | Key_D
   | Key_F | Key_G | Key_H | Key_J | Key_K | Key_L | Key_Z | Key_X | Key_C | Key_V | Key_B
   | Key_N | Key_M | Key_F1 | Key_F2 | Key_F3 | Key_F4 | Key_F5 | Key_F6 | Key_F7 | Key_F8
   | Key_F9 | Key_F10 | Key_F11 | Key_F12 | Key_MINUS | Key_EQUALS | Key_ESCAPE
   | Key_BACKSPACE | Key_ENTER | Key_SPACE | Key_TAB | Key_SEMICOLON | Key_APOSTROPHE
   | Key_GRAVE | Key_SLASH | Key_BACKSLASH | Key_COMMA | Key_PERIOD | Key_LEFT_BRACKET
   | Key_RIGHT_BRACKET | Key_LEFT_SHIFT | Key_RIGHT_SHIFT | Key_LEFT_ALT | Key_RIGHT_ALT
   | Key_LEFT_CONTROL | Key_RIGHT_CONTROL | Key_CAPS_LOCK | Key_NUM_LOCK | Key_SCROLL_LOCK
   | Key_KEYPAD_0 | Key_KEYPAD_1 | Key_KEYPAD_2 | Key_KEYPAD_3 | Key_KEYPAD_4
   | Key_KEYPAD_5 | Key_KEYPAD_6 | Key_KEYPAD_7 | Key_KEYPAD_8 | Key_KEYPAD_9
   | Key_KEYPAD_MULTIPLY | Key_KEYPAD_PERIOD | Key_KEYPAD_MINUS | Key_KEYPAD_PLUS
   | Key_RIGHT_ARROW | Key_LEFT_ARROW | Key_UP_ARROW | Key_DOWN_ARROW

end
