(* ===== verification/Ring_Buffer.thy ===== *)
theory Ring_Buffer
  imports Prelude
begin

text \<open>
  \<^verbatim>\<open>kstd/ring_buffer.hh\<close>: the fixed-capacity ring buffer that the input and thread code
  queue their work in. The capacity \<open>N\<close> of the template is the length of \<open>rb_data\<close>
  (a \<^verbatim>\<open>Static_Array<T, N>\<close>), and \<open>rb_head\<close>, \<open>rb_tail\<close>, \<open>rb_size\<close> are the three counters.
  The locale \<open>bounded_queue\<close> is the interface its clients rely on: what the operations do to
  the sequence of queued elements. It is interpreted here on the ring buffer.
\<close>

section \<open>The ring buffer\<close>

record 'a ring_buffer =
  rb_data :: "'a list"
  rb_head :: nat
  rb_tail :: nat
  rb_size :: nat

definition rb_capacity :: "'a ring_buffer \<Rightarrow> nat" where
  "rb_capacity rb = List.length (rb_data rb)"

text \<open>The default member initialisers over an array whose cells hold \<open>fill\<close>.\<close>

definition ring_buffer_init :: "nat \<Rightarrow> 'a \<Rightarrow> 'a ring_buffer" where
  "ring_buffer_init n fill =
     \<lparr> rb_data = replicate n fill, rb_head = 0, rb_tail = 0, rb_size = 0 \<rparr>"

text \<open>\<^verbatim>\<open>Static_Array::operator[]\<close> asserts its bounds.\<close>

definition static_array_get :: "'a list \<Rightarrow> nat \<Rightarrow> 'a outcome" where
  "static_array_get data index =
     kstd_assert (index < List.length data) ''index out of bounds'' (Inr (data ! index))"

definition static_array_set :: "'a list \<Rightarrow> nat \<Rightarrow> 'a \<Rightarrow> 'a list outcome" where
  "static_array_set data index value =
     kstd_assert (index < List.length data) ''index out of bounds'' (Inr (data[index := value]))"

definition push_back :: "'a ring_buffer \<Rightarrow> 'a \<Rightarrow> 'a ring_buffer outcome" where
  "push_back rb element =
     kstd_assert (rb_size rb < rb_capacity rb) ''push_back on full Ring_Buffer''
       (obind (static_array_set (rb_data rb) (rb_tail rb) element) (\<lambda>data.
          Inr (rb\<lparr> rb_data := data,
                   rb_tail := (rb_tail rb + 1) mod rb_capacity rb,
                   rb_size := rb_size rb + 1 \<rparr>)))"

definition pop_front :: "'a ring_buffer \<Rightarrow> ('a \<times> 'a ring_buffer) outcome" where
  "pop_front rb =
     kstd_assert (0 < rb_size rb) ''pop_front on empty Ring_Buffer''
       (obind (static_array_get (rb_data rb) (rb_head rb)) (\<lambda>element.
          Inr (element,
               rb\<lparr> rb_head := (rb_head rb + 1) mod rb_capacity rb,
                   rb_size := rb_size rb - 1 \<rparr>)))"

definition rb_empty :: "'a ring_buffer \<Rightarrow> bool" where
  "rb_empty rb \<longleftrightarrow> rb_size rb = 0"

definition rb_full :: "'a ring_buffer \<Rightarrow> bool" where
  "rb_full rb \<longleftrightarrow> rb_size rb = rb_capacity rb"

definition rb_clear :: "'a ring_buffer \<Rightarrow> 'a ring_buffer" where
  "rb_clear rb = rb\<lparr> rb_head := 0, rb_tail := 0, rb_size := 0 \<rparr>"

text \<open>
  The elements in the order in which \<open>format\<close> prints them: \<open>data[(head + index) % N]\<close>.
\<close>

definition rb_elements :: "'a ring_buffer \<Rightarrow> 'a list" where
  "rb_elements rb =
     map (\<lambda>index. rb_data rb ! ((rb_head rb + index) mod rb_capacity rb)) [0..<rb_size rb]"

text \<open>The text \<open>format\<close> builds, over the text \<open>show_element\<close> of an element.\<close>

fun join_elements :: "('a \<Rightarrow> string) \<Rightarrow> bool \<Rightarrow> 'a list \<Rightarrow> string" where
  "join_elements show_element first [] = ''''"
| "join_elements show_element first (x # xs) =
     (if first then '''' else '', '') @ show_element x @ join_elements show_element False xs"

definition rb_format :: "('a \<Rightarrow> string) \<Rightarrow> 'a ring_buffer \<Rightarrow> string" where
  "rb_format show_element rb = ''['' @ join_elements show_element True (rb_elements rb) @ '']''"

section \<open>Well-formedness\<close>

definition rb_wf :: "'a ring_buffer \<Rightarrow> bool" where
  "rb_wf rb \<longleftrightarrow> 0 < rb_capacity rb \<and> rb_head rb < rb_capacity rb
     \<and> rb_size rb \<le> rb_capacity rb
     \<and> rb_tail rb = (rb_head rb + rb_size rb) mod rb_capacity rb"

lemma rb_wf_init: "0 < n \<Longrightarrow> rb_wf (ring_buffer_init n fill)"
  by (simp add: rb_wf_def ring_buffer_init_def rb_capacity_def)

lemma rb_elements_init [simp]: "rb_elements (ring_buffer_init n fill) = []"
  by (simp add: rb_elements_def ring_buffer_init_def)

lemma rb_capacity_init [simp]: "rb_capacity (ring_buffer_init n fill) = n"
  by (simp add: rb_capacity_def ring_buffer_init_def)

lemma length_rb_elements [simp]: "List.length (rb_elements rb) = rb_size rb"
  by (simp add: rb_elements_def)

lemma rb_wf_clear: "rb_wf rb \<Longrightarrow> rb_wf (rb_clear rb) \<and> rb_elements (rb_clear rb) = []
    \<and> rb_capacity (rb_clear rb) = rb_capacity rb"
  by (simp add: rb_wf_def rb_clear_def rb_elements_def rb_capacity_def)

text \<open>
  The cells that hold queued elements are pairwise different, and the tail is none of them
  while the buffer has room.
\<close>

lemma tail_is_free:
  fixes h i s N :: nat
  assumes "i < s" "s < N"
  shows "(h + i) mod N \<noteq> (h + s) mod N"
proof
  assume "(h + i) mod N = (h + s) mod N"
  then have "N dvd (h + s) - (h + i)"
    using assms by (intro mod_eq_dvd_iff_nat[THEN iffD1]) auto
  then have "N dvd s - i" by simp
  moreover have "0 < s - i" "s - i < N" using assms by auto
  ultimately show False by (auto dest: dvd_imp_le)
qed

lemma push_back_spec:
  assumes wf: "rb_wf rb" and room: "rb_size rb < rb_capacity rb"
  shows "\<exists>rb'. push_back rb x = Inr rb' \<and> rb_wf rb'
           \<and> rb_elements rb' = rb_elements rb @ [x] \<and> rb_capacity rb' = rb_capacity rb"
proof -
  let ?N = "rb_capacity rb" and ?t = "rb_tail rb"
  define rb' where "rb' = rb\<lparr> rb_data := (rb_data rb)[?t := x],
      rb_tail := (?t + 1) mod ?N, rb_size := rb_size rb + 1 \<rparr>"
  have t: "?t = (rb_head rb + rb_size rb) mod ?N" and N: "0 < ?N"
    using wf by (auto simp: rb_wf_def)
  have tN: "?t < ?N" using t N by simp
  have run: "push_back rb x = Inr rb'"
    using room tN by (simp add: push_back_def static_array_set_def rb'_def rb_capacity_def)
  have cap: "rb_capacity rb' = ?N" by (simp add: rb'_def rb_capacity_def)
  have "rb_wf rb'"
    using wf room cap unfolding rb_wf_def by (simp add: rb'_def mod_simps)
  moreover have "rb_elements rb' = rb_elements rb @ [x]"
  proof -
    have old: "(rb_data rb)[?t := x] ! ((rb_head rb + i) mod ?N)
        = rb_data rb ! ((rb_head rb + i) mod ?N)" if "i < rb_size rb" for i
      using tail_is_free [OF that room, of "rb_head rb"] t by simp
    have new: "(rb_data rb)[?t := x] ! ((rb_head rb + rb_size rb) mod ?N) = x"
      using t tN by (simp add: rb_capacity_def)
    have "rb_elements rb' = map (\<lambda>i. (rb_data rb)[?t := x] ! ((rb_head rb + i) mod ?N))
        [0..<Suc (rb_size rb)]"
      unfolding rb_elements_def cap by (simp add: rb'_def)
    then show ?thesis by (simp add: rb_elements_def old new)
  qed
  ultimately show ?thesis using run cap by blast
qed

lemma push_back_full:
  "rb_size rb \<ge> rb_capacity rb \<Longrightarrow> push_back rb x = Inl ''push_back on full Ring_Buffer''"
  by (simp add: push_back_def)

lemma pop_front_spec:
  assumes wf: "rb_wf rb" and some: "0 < rb_size rb"
  shows "\<exists>rb'. pop_front rb = Inr (hd (rb_elements rb), rb') \<and> rb_wf rb'
           \<and> rb_elements rb' = tl (rb_elements rb) \<and> rb_capacity rb' = rb_capacity rb"
proof -
  let ?N = "rb_capacity rb" and ?h = "rb_head rb"
  define rb' where "rb' = rb\<lparr> rb_head := (?h + 1) mod ?N, rb_size := rb_size rb - 1 \<rparr>"
  have h: "?h < ?N" and N: "0 < ?N" using wf by (auto simp: rb_wf_def)
  have first: "hd (rb_elements rb) = rb_data rb ! ?h"
    using some h by (simp add: rb_elements_def hd_map)
  have run: "pop_front rb = Inr (hd (rb_elements rb), rb')"
    using some h first
    by (simp add: pop_front_def static_array_get_def rb'_def rb_capacity_def)
  have cap: "rb_capacity rb' = ?N" by (simp add: rb'_def rb_capacity_def)
  have "((?h + 1) mod ?N + (rb_size rb - 1)) mod ?N = (?h + rb_size rb) mod ?N"
    using some by (subst mod_add_left_eq) simp
  then have "rb_wf rb'"
    using wf h N cap unfolding rb_wf_def by (auto simp: rb'_def)
  moreover have "rb_elements rb' = tl (rb_elements rb)"
  proof (rule nth_equalityI)
    show "List.length (rb_elements rb') = List.length (tl (rb_elements rb))"
      by (simp add: rb'_def)
    fix i assume "i < List.length (rb_elements rb')"
    then have i: "i < rb_size rb - 1" by (simp add: rb'_def)
    then have "rb_elements rb' ! i = rb_data rb ! (((?h + 1) mod ?N + i) mod ?N)"
      unfolding rb_elements_def cap by (simp add: rb'_def)
    also have "((?h + 1) mod ?N + i) mod ?N = (?h + Suc i) mod ?N"
      by (simp add: mod_simps)
    also have "rb_data rb ! ((?h + Suc i) mod ?N) = tl (rb_elements rb) ! i"
    proof -
      have "[0..<rb_size rb] ! Suc i = Suc i" using i by (subst nth_upt) auto
      then show ?thesis using i by (simp add: rb_elements_def nth_tl)
    qed
    finally show "rb_elements rb' ! i = tl (rb_elements rb) ! i" .
  qed
  ultimately show ?thesis using run cap by blast
qed

lemma pop_front_empty:
  "rb_size rb = 0 \<Longrightarrow> pop_front rb = Inl ''pop_front on empty Ring_Buffer''"
  by (simp add: pop_front_def)

section \<open>The interface of a bounded queue\<close>

locale bounded_queue =
  fixes push :: "'q \<Rightarrow> 'e \<Rightarrow> 'q outcome"
    and pop :: "'q \<Rightarrow> ('e \<times> 'q) outcome"
    and contents :: "'q \<Rightarrow> 'e list"
    and capacity :: "'q \<Rightarrow> nat"
    and valid :: "'q \<Rightarrow> bool"
  assumes push_room: "valid q \<Longrightarrow> List.length (contents q) < capacity q \<Longrightarrow>
      \<exists>q'. push q x = Inr q' \<and> valid q' \<and> contents q' = contents q @ [x]
           \<and> capacity q' = capacity q"
    and push_full: "valid q \<Longrightarrow> capacity q \<le> List.length (contents q) \<Longrightarrow> \<exists>msg. push q x = Inl msg"
    and pop_some: "valid q \<Longrightarrow> contents q = x # xs \<Longrightarrow>
      \<exists>q'. pop q = Inr (x, q') \<and> valid q' \<and> contents q' = xs \<and> capacity q' = capacity q"
    and pop_none: "valid q \<Longrightarrow> contents q = [] \<Longrightarrow> \<exists>msg. pop q = Inl msg"
begin

fun push_all :: "'q \<Rightarrow> 'e list \<Rightarrow> 'q outcome" where
  "push_all q [] = Inr q"
| "push_all q (x # xs) = obind (push q x) (\<lambda>q'. push_all q' xs)"

fun pop_many :: "nat \<Rightarrow> 'q \<Rightarrow> ('e list \<times> 'q) outcome" where
  "pop_many 0 q = Inr ([], q)"
| "pop_many (Suc n) q =
     obind (pop q) (\<lambda>(x, q'). obind (pop_many n q') (\<lambda>(xs, q''). Inr (x # xs, q'')))"

lemma push_InrD:
  assumes "valid q" "push q x = Inr q'"
  shows "valid q' \<and> contents q' = contents q @ [x] \<and> capacity q' = capacity q
    \<and> List.length (contents q) < capacity q"
  using push_room [OF assms(1), of x] push_full [OF assms(1), of x] assms(2)
  by (cases "List.length (contents q) < capacity q") auto

lemma pop_InrD:
  assumes "valid q" "pop q = Inr (x, q')"
  shows "contents q = x # contents q' \<and> valid q' \<and> capacity q' = capacity q"
proof (cases "contents q")
  case Nil
  then show ?thesis using pop_none [OF assms(1)] assms(2) by auto
next
  case (Cons y ys)
  then show ?thesis using pop_some [OF assms(1) Cons] assms(2) by auto
qed

lemma push_all_spec:
  "valid q \<Longrightarrow> List.length (contents q) + List.length xs \<le> capacity q \<Longrightarrow>
   \<exists>q'. push_all q xs = Inr q' \<and> valid q' \<and> contents q' = contents q @ xs
        \<and> capacity q' = capacity q"
proof (induction xs arbitrary: q)
  case (Cons x xs)
  obtain q1 where q1: "push q x = Inr q1" "valid q1" "contents q1 = contents q @ [x]"
      "capacity q1 = capacity q"
    using push_room [OF Cons.prems(1), of x] Cons.prems(2) by auto
  show ?case using Cons.IH [OF q1(2)] q1 Cons.prems(2) by auto
qed simp

lemma pop_many_spec:
  "valid q \<Longrightarrow> n \<le> List.length (contents q) \<Longrightarrow>
   \<exists>q'. pop_many n q = Inr (take n (contents q), q') \<and> valid q'
        \<and> contents q' = drop n (contents q) \<and> capacity q' = capacity q"
proof (induction n arbitrary: q)
  case (Suc n)
  then obtain x xs where c: "contents q = x # xs" by (cases "contents q") auto
  obtain q1 where q1: "pop q = Inr (x, q1)" "valid q1" "contents q1 = xs"
      "capacity q1 = capacity q"
    using pop_some [OF Suc.prems(1) c] by auto
  show ?case using Suc.IH [OF q1(2)] q1 c Suc.prems(2) by auto
qed simp

lemma fifo:
  assumes "valid q" "contents q = []" "List.length xs \<le> capacity q"
  shows "\<exists>q1 q2. push_all q xs = Inr q1 \<and> pop_many (List.length xs) q1 = Inr (xs, q2)
           \<and> contents q2 = []"
proof -
  obtain q1 where q1: "push_all q xs = Inr q1" "valid q1" "contents q1 = xs"
    using push_all_spec [OF assms(1), of xs] assms by auto
  show ?thesis using pop_many_spec [OF q1(2), of "List.length xs"] q1 by auto
qed

end

interpretation rq: bounded_queue push_back pop_front rb_elements rb_capacity rb_wf
proof
  fix q :: "'a ring_buffer" and x
  assume "rb_wf q" "List.length (rb_elements q) < rb_capacity q"
  then show "\<exists>q'. push_back q x = Inr q' \<and> rb_wf q' \<and> rb_elements q' = rb_elements q @ [x]
      \<and> rb_capacity q' = rb_capacity q"
    using push_back_spec by (metis length_rb_elements)
next
  fix q :: "'a ring_buffer" and x
  assume "rb_wf q" "rb_capacity q \<le> List.length (rb_elements q)"
  then show "\<exists>msg. push_back q x = Inl msg" using push_back_full by (metis length_rb_elements)
next
  fix q :: "'a ring_buffer" and x xs
  assume q: "rb_wf q" "rb_elements q = x # xs"
  then have "0 < rb_size q" by (metis length_rb_elements length_greater_0_conv list.discI)
  then show "\<exists>q'. pop_front q = Inr (x, q') \<and> rb_wf q' \<and> rb_elements q' = xs
      \<and> rb_capacity q' = rb_capacity q"
    using pop_front_spec [OF q(1)] q(2) by auto
next
  fix q :: "'a ring_buffer"
  assume "rb_wf q" "rb_elements q = []"
  then show "\<exists>msg. pop_front q = Inl msg"
    using pop_front_empty by (metis length_rb_elements list.size(3))
qed

text \<open>A program of pushes and pops, run against a buffer and against a plain list.\<close>

datatype 'a rb_op = Push 'a | Pop

fun rb_run :: "'a rb_op list \<Rightarrow> 'a ring_buffer \<Rightarrow> ('a list \<times> 'a ring_buffer) outcome" where
  "rb_run [] rb = Inr ([], rb)"
| "rb_run (Push x # ops) rb = obind (push_back rb x) (rb_run ops)"
| "rb_run (Pop # ops) rb =
     obind (pop_front rb) (\<lambda>(x, rb'). obind (rb_run ops rb') (\<lambda>(xs, rb''). Inr (x # xs, rb'')))"

fun list_run :: "nat \<Rightarrow> 'a rb_op list \<Rightarrow> 'a list \<Rightarrow> ('a list \<times> 'a list) outcome" where
  "list_run n [] q = Inr ([], q)"
| "list_run n (Push x # ops) q =
     (if List.length q < n then list_run n ops (q @ [x])
      else Inl ''push_back on full Ring_Buffer'')"
| "list_run n (Pop # ops) [] = Inl ''pop_front on empty Ring_Buffer''"
| "list_run n (Pop # ops) (x # q) = obind (list_run n ops q) (\<lambda>(xs, q'). Inr (x # xs, q'))"

text \<open>
  C37: The ring buffer refines a bounded list: whatever program of \<open>push_back\<close> and \<open>pop_front\<close>
  calls is run from a well-formed buffer, it returns the same elements in the same order as the
  program run on the list of queued elements, it fails exactly when that one fails and with the
  same assertion message, and the final buffer holds the final list.
\<close>

theorem ring_buffer_refines_list:
  assumes "rb_wf rb"
  shows "map_sum id (map_prod id rb_elements) (rb_run ops rb)
       = list_run (rb_capacity rb) ops (rb_elements rb)"
  using assms
proof (induction ops arbitrary: rb)
  case (Cons op ops)
  note IH = Cons.IH and wf = Cons.prems
  show ?case
  proof (cases op)
    case (Push x)
    show ?thesis
    proof (cases "rb_size rb < rb_capacity rb")
      case True
      obtain rb' where "push_back rb x = Inr rb'" "rb_wf rb'"
          "rb_elements rb' = rb_elements rb @ [x]" "rb_capacity rb' = rb_capacity rb"
        using push_back_spec [OF wf True, of x] by blast
      then show ?thesis using IH [of rb'] True Push by simp
    qed (simp add: Push push_back_full)
  next
    case Pop
    show ?thesis
    proof (cases "rb_elements rb")
      case Nil
      then have "rb_size rb = 0" by (metis length_rb_elements list.size(3))
      then show ?thesis using Pop Nil by (simp add: pop_front_empty)
    next
      case (Cons x xs)
      obtain rb' where rb': "pop_front rb = Inr (x, rb')" "rb_wf rb'" "rb_elements rb' = xs"
          "rb_capacity rb' = rb_capacity rb"
        using rq.pop_some [OF wf Cons] by blast
      show ?thesis
        using IH [OF rb'(2), symmetric] rb' Pop Cons
        by (cases "rb_run ops rb'") (auto split: prod.splits)
    qed
  qed
qed simp

theorem ring_buffer_refines_list_witness:
  "map_sum id (map_prod id rb_elements)
     (rb_run [Push 1, Push 2, Pop, Push 3, Push (4::nat)] (ring_buffer_init 2 0))
   = Inl ''push_back on full Ring_Buffer''"
  by (subst ring_buffer_refines_list [OF rb_wf_init]) simp_all

end
