(* ===== verification/Input.thy ===== *)
theory Input
  imports Keys Ring_Buffer
begin

text \<open>
  \<^verbatim>\<open>gameos/input.hh\<close>: the input state that interrupt handlers update and the game reads once a
  frame. The \<^verbatim>\<open>inline\<close> variables of the namespace \<^verbatim>\<open>hidden\<close> are the record \<open>input_state\<close>; an
  \<^verbatim>\<open>Enum_Array<Key, bool>\<close> is a function on the keys. Every operation holds the spinlock with
  interrupts off from its first statement to its last, so each is one step on the state. The
  deltas are 32-bit words (the code adds \<^verbatim>\<open>s32\<close> values).
\<close>

section \<open>Events and state\<close>

datatype (plugins only: ) mouse_button = LEFT | MIDDLE | RIGHT | X1 | X2

record event_key =
  ek_key :: key
  ek_repeat :: bool

record mouse_delta =
  delta_x :: u32
  delta_y :: u32

text \<open>\<open>Event\<close>: the tag together with the union member it selects.\<close>

datatype (plugins only: ) event =
    KEY_DOWN event_key
  | KEY_UP event_key
  | MOUSE_MOTION mouse_delta
  | MOUSE_BUTTON_DOWN mouse_button
  | MOUSE_BUTTON_UP mouse_button
  | MOUSE_WHEEL mouse_delta

record poll_result =
  pr_event :: event
  is_present :: bool

definition EVENT_QUEUE_CAPACITY :: nat where
  "EVENT_QUEUE_CAPACITY = 256"

record input_state =
  events :: "event ring_buffer"
  keys :: "key \<Rightarrow> bool"
  next_frame_pressed :: "key \<Rightarrow> bool"
  next_frame_released :: "key \<Rightarrow> bool"
  next_frame_repeated :: "key \<Rightarrow> bool"
  frame_pressed :: "key \<Rightarrow> bool"
  frame_released :: "key \<Rightarrow> bool"
  frame_repeated :: "key \<Rightarrow> bool"
  mouse_buttons :: "mouse_button \<Rightarrow> bool"
  next_frame_button_pressed :: "mouse_button \<Rightarrow> bool"
  next_frame_button_released :: "mouse_button \<Rightarrow> bool"
  frame_button_pressed :: "mouse_button \<Rightarrow> bool"
  frame_button_released :: "mouse_button \<Rightarrow> bool"
  next_frame_motion :: mouse_delta
  frame_motion :: mouse_delta
  next_frame_wheel :: mouse_delta
  frame_wheel :: mouse_delta
  dropped_event_count :: u64

definition zero_delta :: mouse_delta where
  "zero_delta = \<lparr> delta_x = 0, delta_y = 0 \<rparr>"

definition add_delta :: "mouse_delta \<Rightarrow> mouse_delta \<Rightarrow> mouse_delta" where
  "add_delta a b = \<lparr> delta_x = delta_x a + delta_x b, delta_y = delta_y a + delta_y b \<rparr>"

definition empty_event :: event where
  "empty_event = KEY_DOWN \<lparr> ek_key = Key_UNKNOWN, ek_repeat = False \<rparr>"

section \<open>Operations\<close>

definition submit_key :: "event_key \<Rightarrow> bool \<Rightarrow> input_state \<Rightarrow> input_state" where
  "submit_key key_event down st =
     (if ek_key key_event = Key_UNKNOWN then st
      else
        let k = ek_key key_event;
            was_down = keys st k;
            st = st\<lparr> keys := (keys st)(k := down) \<rparr>
        in if down then
             if was_down then
               if ek_repeat key_event
               then st\<lparr> next_frame_repeated := (next_frame_repeated st)(k := True) \<rparr>
               else st
             else st\<lparr> next_frame_pressed := (next_frame_pressed st)(k := True) \<rparr>
           else if was_down
             then st\<lparr> next_frame_released := (next_frame_released st)(k := True) \<rparr>
             else st)"

definition submit_mouse_button :: "mouse_button \<Rightarrow> bool \<Rightarrow> input_state \<Rightarrow> input_state" where
  "submit_mouse_button button down st =
     (let was_down = mouse_buttons st button;
          st = st\<lparr> mouse_buttons := (mouse_buttons st)(button := down) \<rparr>
      in if down \<and> \<not> was_down
         then st\<lparr> next_frame_button_pressed := (next_frame_button_pressed st)(button := True) \<rparr>
         else if \<not> down \<and> was_down
         then st\<lparr> next_frame_button_released := (next_frame_button_released st)(button := True) \<rparr>
         else st)"

definition clear_state :: "input_state \<Rightarrow> input_state" where
  "clear_state st =
     \<lparr> events = rb_clear (events st),
       keys = (\<lambda>_. False),
       next_frame_pressed = (\<lambda>_. False),
       next_frame_released = (\<lambda>_. False),
       next_frame_repeated = (\<lambda>_. False),
       frame_pressed = (\<lambda>_. False),
       frame_released = (\<lambda>_. False),
       frame_repeated = (\<lambda>_. False),
       mouse_buttons = (\<lambda>_. False),
       next_frame_button_pressed = (\<lambda>_. False),
       next_frame_button_released = (\<lambda>_. False),
       frame_button_pressed = (\<lambda>_. False),
       frame_button_released = (\<lambda>_. False),
       next_frame_motion = zero_delta,
       frame_motion = zero_delta,
       next_frame_wheel = zero_delta,
       frame_wheel = zero_delta,
       dropped_event_count = 0 \<rparr>"

text \<open>The \<^verbatim>\<open>switch\<close> of \<open>submit_event\<close>, then its queue.\<close>

fun apply_event :: "event \<Rightarrow> input_state \<Rightarrow> input_state" where
  "apply_event (KEY_DOWN e) st = submit_key e True st"
| "apply_event (KEY_UP e) st = submit_key e False st"
| "apply_event (MOUSE_MOTION d) st =
     st\<lparr> next_frame_motion := add_delta (next_frame_motion st) d \<rparr>"
| "apply_event (MOUSE_WHEEL d) st =
     st\<lparr> next_frame_wheel := add_delta (next_frame_wheel st) d \<rparr>"
| "apply_event (MOUSE_BUTTON_DOWN b) st = submit_mouse_button b True st"
| "apply_event (MOUSE_BUTTON_UP b) st = submit_mouse_button b False st"

definition submit_event :: "event \<Rightarrow> input_state \<Rightarrow> input_state outcome" where
  "submit_event e st =
     (let st = apply_event e st
      in if rb_full (events st)
         then Inr (st\<lparr> dropped_event_count := dropped_event_count st + 1 \<rparr>)
         else obind (push_back (events st) e) (\<lambda>q. Inr (st\<lparr> events := q \<rparr>)))"

definition begin_frame :: "input_state \<Rightarrow> input_state" where
  "begin_frame st =
     st\<lparr> frame_pressed := next_frame_pressed st,
         frame_released := next_frame_released st,
         frame_repeated := next_frame_repeated st,
         frame_button_pressed := next_frame_button_pressed st,
         frame_button_released := next_frame_button_released st,
         frame_motion := next_frame_motion st,
         frame_wheel := next_frame_wheel st,
         next_frame_pressed := (\<lambda>_. False),
         next_frame_released := (\<lambda>_. False),
         next_frame_repeated := (\<lambda>_. False),
         next_frame_button_pressed := (\<lambda>_. False),
         next_frame_button_released := (\<lambda>_. False),
         next_frame_motion := zero_delta,
         next_frame_wheel := zero_delta \<rparr>"

definition poll_event :: "input_state \<Rightarrow> (poll_result \<times> input_state) outcome" where
  "poll_event st =
     (if rb_empty (events st)
      then Inr (\<lparr> pr_event = empty_event, is_present = False \<rparr>, st)
      else obind (pop_front (events st)) (\<lambda>(e, q).
             Inr (\<lparr> pr_event = e, is_present = True \<rparr>, st\<lparr> events := q \<rparr>)))"

definition key_held :: "key \<Rightarrow> input_state \<Rightarrow> bool" where
  "key_held k st = keys st k"

definition key_pressed :: "key \<Rightarrow> input_state \<Rightarrow> bool" where
  "key_pressed k st = frame_pressed st k"

definition key_released :: "key \<Rightarrow> input_state \<Rightarrow> bool" where
  "key_released k st = frame_released st k"

definition key_repeated :: "key \<Rightarrow> input_state \<Rightarrow> bool" where
  "key_repeated k st = frame_repeated st k"

definition mouse_button_held :: "mouse_button \<Rightarrow> input_state \<Rightarrow> bool" where
  "mouse_button_held b st = mouse_buttons st b"

definition mouse_button_pressed :: "mouse_button \<Rightarrow> input_state \<Rightarrow> bool" where
  "mouse_button_pressed b st = frame_button_pressed st b"

definition mouse_button_released :: "mouse_button \<Rightarrow> input_state \<Rightarrow> bool" where
  "mouse_button_released b st = frame_button_released st b"

definition mouse_motion :: "input_state \<Rightarrow> mouse_delta" where
  "mouse_motion st = frame_motion st"

definition mouse_wheel :: "input_state \<Rightarrow> mouse_delta" where
  "mouse_wheel st = frame_wheel st"

definition reset :: "input_state \<Rightarrow> input_state" where
  "reset st = clear_state st"

text \<open>The state at start-up: zero-initialised arrays and an empty queue.\<close>

definition initial_input :: input_state where
  "initial_input =
     \<lparr> events = ring_buffer_init EVENT_QUEUE_CAPACITY empty_event,
       keys = (\<lambda>_. False),
       next_frame_pressed = (\<lambda>_. False),
       next_frame_released = (\<lambda>_. False),
       next_frame_repeated = (\<lambda>_. False),
       frame_pressed = (\<lambda>_. False),
       frame_released = (\<lambda>_. False),
       frame_repeated = (\<lambda>_. False),
       mouse_buttons = (\<lambda>_. False),
       next_frame_button_pressed = (\<lambda>_. False),
       next_frame_button_released = (\<lambda>_. False),
       frame_button_pressed = (\<lambda>_. False),
       frame_button_released = (\<lambda>_. False),
       next_frame_motion = zero_delta,
       frame_motion = zero_delta,
       next_frame_wheel = zero_delta,
       frame_wheel = zero_delta,
       dropped_event_count = 0 \<rparr>"

section \<open>The queue invariant\<close>

definition input_wf :: "input_state \<Rightarrow> bool" where
  "input_wf st \<longleftrightarrow> rb_wf (events st) \<and> rb_capacity (events st) = EVENT_QUEUE_CAPACITY"

lemma input_wf_initial: "input_wf initial_input"
  by (simp add: input_wf_def initial_input_def rb_wf_init EVENT_QUEUE_CAPACITY_def)

lemma input_wf_reset: "input_wf st \<Longrightarrow> input_wf (reset st)"
  using rb_wf_clear by (auto simp: input_wf_def reset_def clear_state_def)

lemma input_wf_begin_frame [simp]: "input_wf (begin_frame st) = input_wf st"
  by (simp add: input_wf_def begin_frame_def)

lemma events_apply_event [simp]:
  "events (apply_event e st) = events st"
  "dropped_event_count (apply_event e st) = dropped_event_count st"
  by (cases e; simp add: submit_key_def submit_mouse_button_def Let_def)+

text \<open>
  \<open>submit_event\<close> never fails on a well-formed state: it is \<open>apply_event\<close> with the queue either
  extended or, when full, only counted.
\<close>

lemma submit_event_spec:
  assumes "input_wf st"
  shows "\<exists>st'. submit_event e st = Inr st' \<and> input_wf st' \<and>
     st' = (apply_event e st)\<lparr> events := events st',
                               dropped_event_count := dropped_event_count st' \<rparr> \<and>
     (if rb_size (events st) < EVENT_QUEUE_CAPACITY
      then rb_elements (events st') = rb_elements (events st) @ [e]
           \<and> dropped_event_count st' = dropped_event_count st
      else rb_elements (events st') = rb_elements (events st)
           \<and> dropped_event_count st' = dropped_event_count st + 1)"
proof (cases "rb_size (events st) < EVENT_QUEUE_CAPACITY")
  case True
  then obtain q where q: "push_back (events st) e = Inr q" "rb_wf q"
      "rb_elements q = rb_elements (events st) @ [e]" "rb_capacity q = EVENT_QUEUE_CAPACITY"
    using push_back_spec [of "events st" e] assms by (auto simp: input_wf_def)
  moreover have "\<not> rb_full (events st)" using True assms by (simp add: rb_full_def input_wf_def)
  ultimately show ?thesis using True by (simp add: submit_event_def Let_def input_wf_def)
next
  case False
  then have "rb_full (events st)" using assms by (simp add: rb_full_def input_wf_def rb_wf_def)
  then show ?thesis using False assms by (simp add: submit_event_def Let_def input_wf_def)
qed

fun submit_events :: "event list \<Rightarrow> input_state \<Rightarrow> input_state outcome" where
  "submit_events [] st = Inr st"
| "submit_events (e # es) st = obind (submit_event e st) (submit_events es)"

lemma submit_events_snoc:
  "submit_events (es @ [e]) st = obind (submit_events es st) (submit_event e)"
proof (induction es arbitrary: st)
  case Nil
  then show ?case by (cases "submit_event e st") auto
next
  case (Cons a es)
  then show ?case by (cases "submit_event a st") auto
qed

section \<open>What a frame reports\<close>

text \<open>
  The specification of a digital input: an event presses it, releases it or leaves it alone,
  and whether it is held after a list of events is decided by the last event that touches it.
\<close>

fun presses_key :: "key \<Rightarrow> event \<Rightarrow> bool" where
  "presses_key k (KEY_DOWN e) \<longleftrightarrow> ek_key e = k \<and> k \<noteq> Key_UNKNOWN"
| "presses_key k _ \<longleftrightarrow> False"

fun repeats_key :: "key \<Rightarrow> event \<Rightarrow> bool" where
  "repeats_key k (KEY_DOWN e) \<longleftrightarrow> ek_key e = k \<and> k \<noteq> Key_UNKNOWN \<and> ek_repeat e"
| "repeats_key k _ \<longleftrightarrow> False"

fun releases_key :: "key \<Rightarrow> event \<Rightarrow> bool" where
  "releases_key k (KEY_UP e) \<longleftrightarrow> ek_key e = k \<and> k \<noteq> Key_UNKNOWN"
| "releases_key k _ \<longleftrightarrow> False"

definition presses_button :: "mouse_button \<Rightarrow> event \<Rightarrow> bool" where
  "presses_button b e \<longleftrightarrow> e = MOUSE_BUTTON_DOWN b"

definition releases_button :: "mouse_button \<Rightarrow> event \<Rightarrow> bool" where
  "releases_button b e \<longleftrightarrow> e = MOUSE_BUTTON_UP b"

definition held_after :: "(event \<Rightarrow> bool) \<Rightarrow> (event \<Rightarrow> bool) \<Rightarrow> bool \<Rightarrow> event list \<Rightarrow> bool" where
  "held_after down up was es =
     fold (\<lambda>e h. if down e then True else if up e then False else h) es was"

lemma held_after_Nil [simp]: "held_after down up was [] = was"
  by (simp add: held_after_def)

lemma held_after_snoc [simp]:
  "held_after down up was (es @ [e]) =
     (if down e then True else if up e then False else held_after down up was es)"
  by (simp add: held_after_def)

text \<open>Some event of the list satisfies \<open>P\<close> with the input held (or not) just before it.\<close>

definition occurs_when ::
  "(event \<Rightarrow> bool) \<Rightarrow> (event \<Rightarrow> bool) \<Rightarrow> bool \<Rightarrow> bool \<Rightarrow> (event \<Rightarrow> bool) \<Rightarrow> event list \<Rightarrow> bool" where
  "occurs_when down up was h P es \<longleftrightarrow>
     (\<exists>i < List.length es. P (es ! i) \<and> held_after down up was (take i es) = h)"

lemma occurs_when_Nil [simp]: "\<not> occurs_when down up was h P []"
  by (simp add: occurs_when_def)

lemma occurs_when_snoc [simp]:
  "occurs_when down up was h P (es @ [e]) \<longleftrightarrow>
     occurs_when down up was h P es \<or> (P e \<and> held_after down up was es = h)"
proof -
  let ?Q = "\<lambda>i. P ((es @ [e]) ! i) \<and> held_after down up was (take i (es @ [e])) = h"
  have "(\<exists>i < Suc n. Q i) \<longleftrightarrow> (\<exists>i < n. Q i) \<or> Q n" for n and Q :: "nat \<Rightarrow> bool"
    by (auto simp: less_Suc_eq)
  from this [of "List.length es" ?Q] have "occurs_when down up was h P (es @ [e])
      \<longleftrightarrow> (\<exists>i < List.length es. ?Q i) \<or> (P e \<and> held_after down up was es = h)"
    by (simp add: occurs_when_def)
  moreover have "?Q i \<longleftrightarrow> P (es ! i) \<and> held_after down up was (take i es) = h"
    if "i < List.length es" for i
    using that by (simp add: nth_append)
  ultimately show ?thesis unfolding occurs_when_def by (metis (no_types, lifting))
qed

fun motion_of :: "event \<Rightarrow> mouse_delta" where
  "motion_of (MOUSE_MOTION d) = d"
| "motion_of _ = zero_delta"

fun wheel_of :: "event \<Rightarrow> mouse_delta" where
  "wheel_of (MOUSE_WHEEL d) = d"
| "wheel_of _ = zero_delta"

definition total_delta :: "mouse_delta list \<Rightarrow> mouse_delta" where
  "total_delta ds = \<lparr> delta_x = sum_list (map delta_x ds), delta_y = sum_list (map delta_y ds) \<rparr>"

lemma total_delta_simps [simp]:
  "total_delta [] = zero_delta"
  "total_delta (ds @ [d]) = add_delta (total_delta ds) d"
  by (simp_all add: total_delta_def zero_delta_def add_delta_def)

lemma add_zero_delta [simp]: "add_delta d zero_delta = d"
  by (simp add: add_delta_def zero_delta_def)

text \<open>One event, seen from one key, one button and the deltas.\<close>

lemma submit_key_facts:
  "keys (submit_key e down st) k =
     (if ek_key e = k \<and> k \<noteq> Key_UNKNOWN then down else keys st k)"
  "next_frame_pressed (submit_key e down st) k =
     (next_frame_pressed st k \<or> ek_key e = k \<and> k \<noteq> Key_UNKNOWN \<and> down \<and> \<not> keys st k)"
  "next_frame_released (submit_key e down st) k =
     (next_frame_released st k \<or> ek_key e = k \<and> k \<noteq> Key_UNKNOWN \<and> \<not> down \<and> keys st k)"
  "next_frame_repeated (submit_key e down st) k =
     (next_frame_repeated st k
        \<or> ek_key e = k \<and> k \<noteq> Key_UNKNOWN \<and> down \<and> ek_repeat e \<and> keys st k)"
  by (auto simp: submit_key_def Let_def)

lemma submit_key_frame [simp]:
  "mouse_buttons (submit_key e down st) = mouse_buttons st"
  "next_frame_button_pressed (submit_key e down st) = next_frame_button_pressed st"
  "next_frame_button_released (submit_key e down st) = next_frame_button_released st"
  "next_frame_motion (submit_key e down st) = next_frame_motion st"
  "next_frame_wheel (submit_key e down st) = next_frame_wheel st"
  by (simp_all add: submit_key_def Let_def)

lemma submit_mouse_button_facts:
  "mouse_buttons (submit_mouse_button b' down st) b =
     (if b' = b then down else mouse_buttons st b)"
  "next_frame_button_pressed (submit_mouse_button b' down st) b =
     (next_frame_button_pressed st b \<or> b' = b \<and> down \<and> \<not> mouse_buttons st b)"
  "next_frame_button_released (submit_mouse_button b' down st) b =
     (next_frame_button_released st b \<or> b' = b \<and> \<not> down \<and> mouse_buttons st b)"
  by (auto simp: submit_mouse_button_def Let_def)

lemma submit_mouse_button_frame [simp]:
  "keys (submit_mouse_button b down st) = keys st"
  "next_frame_pressed (submit_mouse_button b down st) = next_frame_pressed st"
  "next_frame_released (submit_mouse_button b down st) = next_frame_released st"
  "next_frame_repeated (submit_mouse_button b down st) = next_frame_repeated st"
  "next_frame_motion (submit_mouse_button b down st) = next_frame_motion st"
  "next_frame_wheel (submit_mouse_button b down st) = next_frame_wheel st"
  by (simp_all add: submit_mouse_button_def Let_def)

lemma apply_event_key:
  "keys (apply_event e st) k =
     (if presses_key k e then True else if releases_key k e then False else keys st k)"
  "next_frame_pressed (apply_event e st) k =
     (next_frame_pressed st k \<or> presses_key k e \<and> \<not> keys st k)"
  "next_frame_released (apply_event e st) k =
     (next_frame_released st k \<or> releases_key k e \<and> keys st k)"
  "next_frame_repeated (apply_event e st) k =
     (next_frame_repeated st k \<or> repeats_key k e \<and> keys st k)"
  by (cases e; simp add: submit_key_facts)+

lemma apply_event_button:
  "mouse_buttons (apply_event e st) b =
     (if presses_button b e then True else if releases_button b e then False
      else mouse_buttons st b)"
  "next_frame_button_pressed (apply_event e st) b =
     (next_frame_button_pressed st b \<or> presses_button b e \<and> \<not> mouse_buttons st b)"
  "next_frame_button_released (apply_event e st) b =
     (next_frame_button_released st b \<or> releases_button b e \<and> mouse_buttons st b)"
  by (cases e; simp add: submit_mouse_button_facts presses_button_def releases_button_def)+

lemma apply_event_delta:
  "next_frame_motion (apply_event e st) = add_delta (next_frame_motion st) (motion_of e)"
  "next_frame_wheel (apply_event e st) = add_delta (next_frame_wheel st) (wheel_of e)"
  by (cases e; simp)+

text \<open>The same for a list of events: the queue does not matter.\<close>

lemma submit_event_state:
  assumes "input_wf st" "submit_event e st = Inr st'"
  shows "input_wf st'"
    and "keys st' = keys (apply_event e st)"
    and "next_frame_pressed st' = next_frame_pressed (apply_event e st)"
    and "next_frame_released st' = next_frame_released (apply_event e st)"
    and "next_frame_repeated st' = next_frame_repeated (apply_event e st)"
    and "mouse_buttons st' = mouse_buttons (apply_event e st)"
    and "next_frame_button_pressed st' = next_frame_button_pressed (apply_event e st)"
    and "next_frame_button_released st' = next_frame_button_released (apply_event e st)"
    and "next_frame_motion st' = next_frame_motion (apply_event e st)"
    and "next_frame_wheel st' = next_frame_wheel (apply_event e st)"
proof -
  have eq: "st' = (apply_event e st)\<lparr> events := events st',
      dropped_event_count := dropped_event_count st' \<rparr>" and "input_wf st'"
    using submit_event_spec [OF assms(1), of e] assms(2) by auto
  then show "input_wf st'" by simp
  show "keys st' = keys (apply_event e st)"
    and "next_frame_pressed st' = next_frame_pressed (apply_event e st)"
    and "next_frame_released st' = next_frame_released (apply_event e st)"
    and "next_frame_repeated st' = next_frame_repeated (apply_event e st)"
    and "mouse_buttons st' = mouse_buttons (apply_event e st)"
    and "next_frame_button_pressed st' = next_frame_button_pressed (apply_event e st)"
    and "next_frame_button_released st' = next_frame_button_released (apply_event e st)"
    and "next_frame_motion st' = next_frame_motion (apply_event e st)"
    and "next_frame_wheel st' = next_frame_wheel (apply_event e st)"
    by (subst eq, simp)+
qed

lemma submit_events_runs:
  assumes "input_wf st"
  shows "\<exists>st'. submit_events es st = Inr st' \<and> input_wf st'"
  using assms
proof (induction es arbitrary: st)
  case (Cons e es)
  obtain st1 where "submit_event e st = Inr st1" "input_wf st1"
    using submit_event_spec [OF Cons.prems, of e] by blast
  then show ?case using Cons.IH by simp
qed simp

lemma submit_events_snocE:
  assumes "input_wf st" "submit_events (es @ [e]) st = Inr st2"
  obtains st1 where "submit_events es st = Inr st1" "input_wf st1"
    "submit_event e st1 = Inr st2"
  using submit_events_runs [OF assms(1), of es] assms(2) by (auto simp: submit_events_snoc)

lemma submit_events_key:
  assumes wf: "input_wf st"
  shows "submit_events es st = Inr st' \<Longrightarrow>
    keys st' k = held_after (presses_key k) (releases_key k) (keys st k) es
    \<and> next_frame_pressed st' k = (next_frame_pressed st k
      \<or> occurs_when (presses_key k) (releases_key k) (keys st k) False (presses_key k) es)
    \<and> next_frame_released st' k = (next_frame_released st k
      \<or> occurs_when (presses_key k) (releases_key k) (keys st k) True (releases_key k) es)
    \<and> next_frame_repeated st' k = (next_frame_repeated st k
      \<or> occurs_when (presses_key k) (releases_key k) (keys st k) True (repeats_key k) es)"
proof (induction es arbitrary: st' rule: rev_induct)
  case (snoc e es)
  obtain st1 where st1: "submit_events es st = Inr st1" "input_wf st1" "submit_event e st1 = Inr st'"
    using submit_events_snocE [OF wf snoc.prems] by blast
  show ?case
    using snoc.IH [OF st1(1)]
    by (simp add: submit_event_state [OF st1(2,3)] apply_event_key)
qed simp

lemma submit_events_button:
  assumes wf: "input_wf st"
  shows "submit_events es st = Inr st' \<Longrightarrow>
    mouse_buttons st' b = held_after (presses_button b) (releases_button b) (mouse_buttons st b) es
    \<and> next_frame_button_pressed st' b = (next_frame_button_pressed st b
      \<or> occurs_when (presses_button b) (releases_button b) (mouse_buttons st b) False
            (presses_button b) es)
    \<and> next_frame_button_released st' b = (next_frame_button_released st b
      \<or> occurs_when (presses_button b) (releases_button b) (mouse_buttons st b) True
            (releases_button b) es)"
proof (induction es arbitrary: st' rule: rev_induct)
  case (snoc e es)
  obtain st1 where st1: "submit_events es st = Inr st1" "input_wf st1" "submit_event e st1 = Inr st'"
    using submit_events_snocE [OF wf snoc.prems] by blast
  show ?case
    using snoc.IH [OF st1(1)]
    by (simp add: submit_event_state [OF st1(2,3)] apply_event_button)
qed simp

lemma submit_events_delta:
  assumes wf: "input_wf st"
  shows "submit_events es st = Inr st' \<Longrightarrow>
    next_frame_motion st' = add_delta (next_frame_motion st) (total_delta (map motion_of es))
    \<and> next_frame_wheel st' = add_delta (next_frame_wheel st) (total_delta (map wheel_of es))"
proof (induction es arbitrary: st' rule: rev_induct)
  case (snoc e es)
  obtain st1 where st1: "submit_events es st = Inr st1" "input_wf st1" "submit_event e st1 = Inr st'"
    using submit_events_snocE [OF wf snoc.prems] by blast
  show ?case
    using snoc.IH [OF st1(1)]
    by (simp add: submit_event_state [OF st1(2,3)] apply_event_delta)
       (simp add: add_delta_def add.assoc)
qed simp

lemma add_delta_zero_left [simp]: "add_delta zero_delta d = d"
  by (simp add: add_delta_def zero_delta_def)

text \<open>
  C9: What a frame reports is exactly what happened between its \<open>begin_frame\<close> and the next.
  After any events \<open>es\<close> (more than the queue can hold included) and a \<open>begin_frame\<close>, a key is
  held iff the last event touching it pressed it, it is reported as pressed iff some event of
  the frame pressed it while it was up (so a key that went down and up within one frame is
  not lost), as released iff some event released it while it was down, as repeated iff a repeat
  arrived while it was down; the buttons likewise, and motion and wheel are the sums of the
  deltas of the frame.
\<close>

theorem frame_reports_edges:
  assumes "input_wf st"
  shows "\<exists>st'. submit_events es (begin_frame st) = Inr st' \<and> input_wf st' \<and>
     (let f = begin_frame st';
          kh = (\<lambda>k h P. occurs_when (presses_key k) (releases_key k) (key_held k st) h P es);
          bh = (\<lambda>b h P. occurs_when (presses_button b) (releases_button b)
                          (mouse_button_held b st) h P es)
      in (\<forall>k. key_held k f = held_after (presses_key k) (releases_key k) (key_held k st) es
            \<and> key_pressed k f = kh k False (presses_key k)
            \<and> key_released k f = kh k True (releases_key k)
            \<and> key_repeated k f = kh k True (repeats_key k))
       \<and> (\<forall>b. mouse_button_held b f =
                held_after (presses_button b) (releases_button b) (mouse_button_held b st) es
            \<and> mouse_button_pressed b f = bh b False (presses_button b)
            \<and> mouse_button_released b f = bh b True (releases_button b))
       \<and> mouse_motion f = total_delta (map motion_of es)
       \<and> mouse_wheel f = total_delta (map wheel_of es))"
proof -
  have wf: "input_wf (begin_frame st)" using assms by simp
  then obtain st' where run: "submit_events es (begin_frame st) = Inr st'" "input_wf st'"
    using submit_events_runs by blast
  have "keys (begin_frame st) = keys st" "mouse_buttons (begin_frame st) = mouse_buttons st"
    "next_frame_pressed (begin_frame st) = (\<lambda>_. False)"
    "next_frame_released (begin_frame st) = (\<lambda>_. False)"
    "next_frame_repeated (begin_frame st) = (\<lambda>_. False)"
    "next_frame_button_pressed (begin_frame st) = (\<lambda>_. False)"
    "next_frame_button_released (begin_frame st) = (\<lambda>_. False)"
    "next_frame_motion (begin_frame st) = zero_delta"
    "next_frame_wheel (begin_frame st) = zero_delta"
    by (simp_all add: begin_frame_def)
  note start = this
  note k = submit_events_key [OF wf run(1), unfolded start]
  note b = submit_events_button [OF wf run(1), unfolded start]
  note d = submit_events_delta [OF wf run(1), unfolded start]
  have reads: "key_held k (begin_frame st') = keys st' k"
    "key_pressed k (begin_frame st') = next_frame_pressed st' k"
    "key_released k (begin_frame st') = next_frame_released st' k"
    "key_repeated k (begin_frame st') = next_frame_repeated st' k"
    "mouse_button_held b (begin_frame st') = mouse_buttons st' b"
    "mouse_button_pressed b (begin_frame st') = next_frame_button_pressed st' b"
    "mouse_button_released b (begin_frame st') = next_frame_button_released st' b"
    "mouse_motion (begin_frame st') = next_frame_motion st'"
    "mouse_wheel (begin_frame st') = next_frame_wheel st'" for k b
    by (simp_all add: begin_frame_def key_held_def key_pressed_def key_released_def
        key_repeated_def mouse_button_held_def mouse_button_pressed_def
        mouse_button_released_def mouse_motion_def mouse_wheel_def)
  show ?thesis
    using run k b d
    by (simp add: Let_def reads key_held_def [of _ st] mouse_button_held_def [of _ st])
qed

theorem frame_reports_edges_witness:
  "\<exists>st'. submit_events [KEY_DOWN \<lparr> ek_key = Key_A, ek_repeat = False \<rparr>,
                       KEY_UP \<lparr> ek_key = Key_A, ek_repeat = False \<rparr>]
           (begin_frame initial_input) = Inr st'
     \<and> \<not> key_held Key_A (begin_frame st') \<and> key_pressed Key_A (begin_frame st')"
  using frame_reports_edges [OF input_wf_initial,
      of "[KEY_DOWN \<lparr> ek_key = Key_A, ek_repeat = False \<rparr>,
           KEY_UP \<lparr> ek_key = Key_A, ek_repeat = False \<rparr>]"]
  by (force simp: Let_def held_after_def occurs_when_def initial_input_def key_held_def)

section \<open>The queue: order and overflow\<close>

lemma submit_events_queue:
  assumes "input_wf st"
  shows "\<exists>st'. submit_events es st = Inr st' \<and> input_wf st' \<and>
     rb_elements (events st') = take EVENT_QUEUE_CAPACITY (rb_elements (events st) @ es) \<and>
     dropped_event_count st' = dropped_event_count st
       + of_nat (rb_size (events st) + List.length es - EVENT_QUEUE_CAPACITY)"
  using assms
proof (induction es arbitrary: st)
  case Nil
  then show ?case by (simp add: input_wf_def rb_wf_def)
next
  case (Cons e es)
  obtain st1 where st1: "submit_event e st = Inr st1" "input_wf st1" and
    q: "if rb_size (events st) < EVENT_QUEUE_CAPACITY
      then rb_elements (events st1) = rb_elements (events st) @ [e]
           \<and> dropped_event_count st1 = dropped_event_count st
      else rb_elements (events st1) = rb_elements (events st)
           \<and> dropped_event_count st1 = dropped_event_count st + 1"
    using submit_event_spec [OF Cons.prems, of e] by blast
  have le: "rb_size (events st) \<le> EVENT_QUEUE_CAPACITY"
    using Cons.prems by (simp add: input_wf_def rb_wf_def)
  have size: "rb_size (events st1) = (if rb_size (events st) < EVENT_QUEUE_CAPACITY
      then Suc (rb_size (events st)) else rb_size (events st))"
    using q by (metis length_rb_elements length_append_singleton)
  show ?case
    using Cons.IH [OF st1(2)] st1(1) q size le
    by (cases "rb_size (events st) < EVENT_QUEUE_CAPACITY") (auto simp: Suc_diff_le)
qed

fun poll_events :: "nat \<Rightarrow> input_state \<Rightarrow> (event list \<times> input_state) outcome" where
  "poll_events 0 st = Inr ([], st)"
| "poll_events (Suc n) st = obind (poll_event st) (\<lambda>(r, st').
     obind (poll_events n st') (\<lambda>(rs, st'').
       Inr (if is_present r then pr_event r # rs else rs, st'')))"

lemma poll_events_spec:
  "input_wf st \<Longrightarrow> \<exists>st'. poll_events n st = Inr (take n (rb_elements (events st)), st')
     \<and> input_wf st' \<and> st' = st\<lparr> events := events st' \<rparr>
     \<and> rb_elements (events st') = drop n (rb_elements (events st))"
proof (induction n arbitrary: st)
  case (Suc n)
  show ?case
  proof (cases "rb_elements (events st)")
    case Nil
    then have "rb_empty (events st)" by (metis length_rb_elements list.size(3) rb_empty_def)
    then show ?thesis using Suc.IH [OF Suc.prems] Nil by (auto simp: poll_event_def)
  next
    case (Cons e es)
    then have ne: "\<not> rb_empty (events st)"
      by (metis length_rb_elements list.size(3) rb_empty_def length_0_conv list.discI)
    obtain q where q: "pop_front (events st) = Inr (e, q)" "rb_wf q" "rb_elements q = es"
        "rb_capacity q = rb_capacity (events st)"
      using rq.pop_some [OF _ Cons] Suc.prems by (auto simp: input_wf_def)
    have "input_wf (st\<lparr> events := q \<rparr>)" using Suc.prems q by (simp add: input_wf_def)
    from Suc.IH [OF this] obtain st' where st': "poll_events n (st\<lparr> events := q \<rparr>)
        = Inr (take n es, st')" "input_wf st'" "st' = st\<lparr> events := events st' \<rparr>"
        "rb_elements (events st') = drop n es"
      using q(3) by auto
    then show ?thesis using ne q Cons by (auto simp: poll_event_def)
  qed
qed simp

text \<open>
  Events are polled in the order they were submitted and none is invented: after a reset and
  any submissions, polling as often as one likes gives the first 256 events in order (all of
  them when there are no more), then reports an absent event; exactly the excess is
  counted as dropped, and neither submitting nor polling ever fails an assertion.
\<close>

theorem events_polled_in_order:
  assumes "input_wf st"
  shows "\<exists>st1 st2. submit_events es (reset st) = Inr st1
     \<and> poll_events n st1 = Inr (take n (take EVENT_QUEUE_CAPACITY es), st2)
     \<and> dropped_event_count st2 = of_nat (List.length es - EVENT_QUEUE_CAPACITY)
     \<and> (EVENT_QUEUE_CAPACITY \<le> n \<longrightarrow>
          poll_event st2 = Inr (\<lparr> pr_event = empty_event, is_present = False \<rparr>, st2))"
proof -
  have r: "input_wf (reset st)" "rb_elements (events (reset st)) = []"
    "dropped_event_count (reset st) = 0"
    using assms input_wf_reset rb_wf_clear [of "events st"]
    by (auto simp: reset_def clear_state_def input_wf_def)
  then have sz: "rb_size (events (reset st)) = 0" by (metis length_rb_elements list.size(3))
  obtain st1 where st1: "submit_events es (reset st) = Inr st1" "input_wf st1"
      "rb_elements (events st1) = take EVENT_QUEUE_CAPACITY es"
      "dropped_event_count st1 = of_nat (List.length es - EVENT_QUEUE_CAPACITY)"
    using submit_events_queue [OF r(1), of es] r sz by auto
  obtain st2 where st2: "poll_events n st1 = Inr (take n (rb_elements (events st1)), st2)"
      "st2 = st1\<lparr> events := events st2 \<rparr>" "rb_elements (events st2) = drop n (rb_elements (events st1))"
    using poll_events_spec [OF st1(2), of n] by blast
  have "dropped_event_count st2 = dropped_event_count st1" by (subst st2(2)) simp
  moreover have "rb_empty (events st2)" if "EVENT_QUEUE_CAPACITY \<le> n"
  proof -
    have "rb_elements (events st2) = []" using st2(3) st1(3) that by simp
    then show ?thesis by (metis length_rb_elements list.size(3) rb_empty_def)
  qed
  ultimately show ?thesis using st1 st2 by (auto simp: poll_event_def)
qed

theorem events_polled_in_order_witness:
  "\<exists>st1 st2. submit_events (replicate 257 (MOUSE_MOTION \<lparr> delta_x = 1, delta_y = 1 \<rparr>))
               (reset initial_input) = Inr st1
     \<and> poll_events 256 st1 = Inr (replicate 256 (MOUSE_MOTION \<lparr> delta_x = 1, delta_y = 1 \<rparr>), st2)
     \<and> dropped_event_count st2 = 1"
  using events_polled_in_order [OF input_wf_initial,
      of "replicate 257 (MOUSE_MOTION \<lparr> delta_x = 1, delta_y = 1 \<rparr>)" 256]
  by (force simp: EVENT_QUEUE_CAPACITY_def)

end
