(* ===== verification/Ps2.thy ===== *)
theory Ps2
  imports Input Bits
begin

text \<open>
  \<^verbatim>\<open>gameos/ps2.hh\<close>: the PS/2 controller, the keyboard decoder and the mouse packet decoder that
  feed the input state. The port instructions of \<^verbatim>\<open>gameos/low_level_io.hh\<close> are inline assembly:
  a device of any type \<open>'d\<close> answers them through the parameters \<open>inb\<close> and \<open>outb\<close>, and every
  function threads the device through the reads and writes it makes, in their order.
\<close>

section \<open>Ports and the timeouts\<close>

type_synonym 'd port_read = "u16 \<Rightarrow> 'd \<Rightarrow> u8 \<times> 'd"
type_synonym 'd port_write = "u16 \<Rightarrow> u8 \<Rightarrow> 'd \<Rightarrow> 'd"

definition PS2_DATA_PORT :: u16 where "PS2_DATA_PORT = 0x60"
definition PS2_STATUS_PORT :: u16 where "PS2_STATUS_PORT = 0x64"
definition PS2_CMD_PORT :: u16 where "PS2_CMD_PORT = 0x64"

definition PS2_TIMEOUT_ITERS :: nat where "PS2_TIMEOUT_ITERS = 100000"

text \<open>The bits of \<open>Controller_Status_Register\<close> and \<open>Controller_Config\<close> the code touches.\<close>

definition output_full :: "u8 \<Rightarrow> bool" where "output_full raw = bit raw 0"
definition input_full :: "u8 \<Rightarrow> bool" where "input_full raw = bit raw 1"

datatype cmd = Cmd_read_config | Cmd_write_config | Cmd_enable_second_port | Cmd_write_to_mouse

fun cmd_value :: "cmd \<Rightarrow> u8" where
  "cmd_value Cmd_read_config = 0x20"
| "cmd_value Cmd_write_config = 0x60"
| "cmd_value Cmd_enable_second_port = 0xA8"
| "cmd_value Cmd_write_to_mouse = 0xD4"

definition Mouse_Cmd_enable_reporting :: u8 where "Mouse_Cmd_enable_reporting = 0xF4"

text \<open>
  The two \<^verbatim>\<open>for\<close> loops differ only in the condition that ends them; \<open>n\<close> counts the
  iterations that are left.
\<close>

fun wait_loop :: "(u8 \<Rightarrow> bool) \<Rightarrow> 'd port_read \<Rightarrow> nat \<Rightarrow> 'd \<Rightarrow> bool \<times> 'd" where
  "wait_loop ready inb 0 d = (False, d)"
| "wait_loop ready inb (Suc n) d =
     (let (raw, d) = inb PS2_STATUS_PORT d
      in if ready raw then (True, d) else wait_loop ready inb n d)"

definition wait_input_ready :: "'d port_read \<Rightarrow> 'd \<Rightarrow> bool \<times> 'd" where
  "wait_input_ready inb d = wait_loop (\<lambda>raw. \<not> input_full raw) inb PS2_TIMEOUT_ITERS d"

definition wait_output_ready :: "'d port_read \<Rightarrow> 'd \<Rightarrow> bool \<times> 'd" where
  "wait_output_ready inb d = wait_loop output_full inb PS2_TIMEOUT_ITERS d"

definition send_cmd :: "'d port_read \<Rightarrow> 'd port_write \<Rightarrow> cmd \<Rightarrow> 'd \<Rightarrow> bool \<times> 'd" where
  "send_cmd inb outb cmd d =
     (let (ok, d) = wait_input_ready inb d
      in if \<not> ok then (False, d) else (True, outb PS2_CMD_PORT (cmd_value cmd) d))"

definition send_data :: "'d port_read \<Rightarrow> 'd port_write \<Rightarrow> u8 \<Rightarrow> 'd \<Rightarrow> bool \<times> 'd" where
  "send_data inb outb data d =
     (let (ok, d) = wait_input_ready inb d
      in if \<not> ok then (False, d) else (True, outb PS2_DATA_PORT data d))"

definition read_data :: "'d port_read \<Rightarrow> 'd \<Rightarrow> u8 \<times> 'd" where
  "read_data inb d =
     (let (ok, d) = wait_output_ready inb d
      in if \<not> ok then (0xFF, d) else inb PS2_DATA_PORT d)"

definition initialize_ps2 :: "'d port_read \<Rightarrow> 'd port_write \<Rightarrow> 'd \<Rightarrow> 'd" where
  "initialize_ps2 inb outb d =
     (let (ok, d) = send_cmd inb outb Cmd_enable_second_port d in
      if \<not> ok then d else
      let (ok, d) = send_cmd inb outb Cmd_read_config d in
      if \<not> ok then d else
      let (config, d) = read_data inb d in
      if config = 0xFF then d else
      let config = set_bit 0 config; config = set_bit 1 config;
          (ok, d) = send_cmd inb outb Cmd_write_config d in
      if \<not> ok then d else
      let (ok, d) = send_data inb outb config d in
      if \<not> ok then d else
      let (ok, d) = send_cmd inb outb Cmd_write_to_mouse d in
      if \<not> ok then d else
      let (ok, d) = send_data inb outb Mouse_Cmd_enable_reporting d in
      if \<not> ok then d else snd (read_data inb d))"

text \<open>The device after \<open>i\<close> reads of the status port, and the \<open>i\<close>-th status it shows.\<close>

definition status_after :: "'d port_read \<Rightarrow> nat \<Rightarrow> 'd \<Rightarrow> 'd" where
  "status_after inb i d = ((\<lambda>d. snd (inb PS2_STATUS_PORT d)) ^^ i) d"

definition status_at :: "'d port_read \<Rightarrow> nat \<Rightarrow> 'd \<Rightarrow> u8" where
  "status_at inb i d = fst (inb PS2_STATUS_PORT (status_after inb i d))"

lemma status_Suc:
  "status_after inb (Suc i) d = status_after inb i (snd (inb PS2_STATUS_PORT d))"
  "status_at inb (Suc i) d = status_at inb i (snd (inb PS2_STATUS_PORT d))"
  by (simp_all add: status_after_def status_at_def funpow_swap1 del: funpow.simps(2))
     (simp_all add: funpow_Suc_right del: funpow.simps(2))

lemma wait_loop_spec:
  "case wait_loop ready inb n d of
     (True, d') \<Rightarrow> \<exists>i<n. ready (status_at inb i d) \<and> (\<forall>j<i. \<not> ready (status_at inb j d))
                     \<and> d' = status_after inb (Suc i) d
   | (False, d') \<Rightarrow> (\<forall>j<n. \<not> ready (status_at inb j d)) \<and> d' = status_after inb n d"
proof (induction n arbitrary: d)
  case 0
  show ?case by (simp add: status_after_def)
next
  case (Suc n)
  obtain raw d1 where r: "inb PS2_STATUS_PORT d = (raw, d1)" by (cases "inb PS2_STATUS_PORT d")
  have at0: "status_at inb 0 d = raw" by (simp add: status_at_def status_after_def r)
  have S: "status_after inb (Suc i) d = status_after inb i d1"
    "status_at inb (Suc i) d = status_at inb i d1" for i
    by (simp_all add: status_Suc r)
  show ?case
  proof (cases "ready raw")
    case True
    have "d1 = status_after inb (Suc 0) d" unfolding S by (simp add: status_after_def)
    then show ?thesis using True by (auto simp: r at0 intro!: exI [of _ 0])
  next
    case False
    obtain ok d' where w: "wait_loop ready inb n d1 = (ok, d')" by fastforce
    show ?thesis
    proof (cases ok)
      case True
      then obtain i where i: "i < n" "ready (status_at inb i d1)"
          "\<forall>j<i. \<not> ready (status_at inb j d1)" "d' = status_after inb (Suc i) d1"
        using Suc.IH [of d1] w by auto
      then have "\<forall>j<Suc i. \<not> ready (status_at inb j d)"
        using False at0 by (simp add: All_less_Suc2 S)
      moreover have "ready (status_at inb (Suc i) d)" "d' = status_after inb (Suc (Suc i)) d"
        using i S by simp_all
      ultimately show ?thesis using True w r False i(1) by (auto intro!: exI [of _ "Suc i"])
    next
      case notok: False
      then have "\<forall>j<n. \<not> ready (status_at inb j d1)" "d' = status_after inb n d1"
        using Suc.IH [of d1] w by auto
      then have "\<forall>j<Suc n. \<not> ready (status_at inb j d)" "d' = status_after inb (Suc n) d"
        using False at0 S by (simp_all add: All_less_Suc2)
      then show ?thesis using notok w r False by simp
    qed
  qed
qed

lemma wait_loop_find:
  "wait_loop ready inb n d =
     (case find (\<lambda>i. ready (status_at inb i d)) [0..<n] of
        Some i \<Rightarrow> (True, status_after inb (Suc i) d)
      | None \<Rightarrow> (False, status_after inb n d))"
proof -
  obtain ok d' where w: "wait_loop ready inb n d = (ok, d')" by fastforce
  show ?thesis
  proof (cases ok)
    case True
    then obtain i where i: "i < n" "ready (status_at inb i d)"
        "\<forall>j<i. \<not> ready (status_at inb j d)" "d' = status_after inb (Suc i) d"
      using wait_loop_spec [where ready = ready and inb = inb and n = n and d = d] w by auto
    then have "find (\<lambda>i. ready (status_at inb i d)) [0..<n] = Some i"
      unfolding find_Some_iff by (intro exI [of _ i]) auto
    then show ?thesis using w True i(4) by simp
  next
    case False
    then have "\<forall>j<n. \<not> ready (status_at inb j d)" "d' = status_after inb n d"
      using wait_loop_spec [where ready = ready and inb = inb and n = n and d = d] w by auto
    moreover from this have "find (\<lambda>i. ready (status_at inb i d)) [0..<n] = None"
      unfolding find_None_iff by simp
    ultimately show ?thesis using w False by simp
  qed
qed

text \<open>
  The controller waits are bounded and exact: \<open>wait_input_ready\<close> (\<open>wait_output_ready\<close>)
  returns true iff one of the next 100000 reads of the status port shows the input buffer free
  (the output buffer full), it stops at the first such read, and on a timeout it has
  read the port exactly 100000 times. It never hangs.
\<close>

theorem waits_are_bounded:
  "wait_input_ready inb d =
     (case find (\<lambda>i. \<not> input_full (status_at inb i d)) [0..<100000] of
        Some i \<Rightarrow> (True, status_after inb (Suc i) d)
      | None \<Rightarrow> (False, status_after inb 100000 d))
   \<and> wait_output_ready inb d =
     (case find (\<lambda>i. output_full (status_at inb i d)) [0..<100000] of
        Some i \<Rightarrow> (True, status_after inb (Suc i) d)
      | None \<Rightarrow> (False, status_after inb 100000 d))"
  unfolding wait_input_ready_def wait_output_ready_def PS2_TIMEOUT_ITERS_def wait_loop_find
  by (rule conjI refl)+

text \<open>
  To speak of the writes of \<open>initialize\<close>, a device is paired with a log of the writes it
  received.
\<close>

definition logged_inb :: "'d port_read \<Rightarrow> ('d \<times> (u16 \<times> u8) list) port_read" where
  "logged_inb inb port dl = (let (v, d) = inb port (fst dl) in (v, (d, snd dl)))"

definition logged_outb :: "'d port_write \<Rightarrow> ('d \<times> (u16 \<times> u8) list) port_write" where
  "logged_outb outb port v dl = (outb port v (fst dl), snd dl @ [(port, v)])"

definition init_script :: "u8 \<Rightarrow> (u16 \<times> u8) list" where
  "init_script config =
     [(PS2_CMD_PORT, 0xA8), (PS2_CMD_PORT, 0x20), (PS2_CMD_PORT, 0x60),
      (PS2_DATA_PORT, config OR 3), (PS2_CMD_PORT, 0xD4), (PS2_DATA_PORT, 0xF4)]"

lemma snd_logged_inb [simp]: "snd (snd (logged_inb inb port dl)) = snd dl"
  by (simp add: logged_inb_def split: prod.splits)

lemma wait_loop_log: "wait_loop ready (logged_inb inb) n dl = (ok, dl') \<Longrightarrow> snd dl' = snd dl"
proof (induction n arbitrary: dl)
  case (Suc n)
  then show ?case
    by (auto split: prod.splits if_splits) (metis snd_conv snd_logged_inb)+
qed simp

lemma send_cmd_log:
  "send_cmd (logged_inb inb) (logged_outb outb) c dl = (ok, dl') \<Longrightarrow>
   snd dl' = snd dl @ (if ok then [(PS2_CMD_PORT, cmd_value c)] else [])"
  unfolding send_cmd_def wait_input_ready_def
  by (cases "wait_loop (\<lambda>raw. \<not> input_full raw) (logged_inb inb) PS2_TIMEOUT_ITERS dl")
     (auto simp: logged_outb_def dest: wait_loop_log split: if_splits)

lemma send_data_log:
  "send_data (logged_inb inb) (logged_outb outb) v dl = (ok, dl') \<Longrightarrow>
   snd dl' = snd dl @ (if ok then [(PS2_DATA_PORT, v)] else [])"
  unfolding send_data_def wait_input_ready_def
  by (cases "wait_loop (\<lambda>raw. \<not> input_full raw) (logged_inb inb) PS2_TIMEOUT_ITERS dl")
     (auto simp: logged_outb_def dest: wait_loop_log split: if_splits)

lemma read_data_log: "snd (snd (read_data (logged_inb inb) dl)) = snd dl"
  unfolding read_data_def wait_output_ready_def
  by (cases "wait_loop output_full (logged_inb inb) PS2_TIMEOUT_ITERS dl")
     (auto dest: wait_loop_log split: if_splits)

lemma set_low_bits: "set_bit (Suc 0) (set_bit 0 (config :: u8)) = config OR 3"
  by (simp add: set_bit_eq_or or.assoc)

text \<open>
  \<open>initialize\<close> writes to the controller nothing but a prefix of its script: enable the
  second port, ask for the configuration, write it back with the two interrupt bits set and
  all other bits as they were read, and enable reporting on the mouse. It stops at the first
  step that times out; in particular the configuration is never overwritten when it
  could not be read.
\<close>

theorem initialize_follows_script:
  "\<exists>n config. snd (initialize_ps2 (logged_inb inb) (logged_outb outb) (d, log))
                = log @ take n (init_script config) \<and> (n \<le> 2 \<or> config < 0xFF)"
proof -
  define ib where "ib = logged_inb inb"
  define ob where "ob = logged_outb outb"
  note log = send_cmd_log [of inb outb, folded ib_def ob_def]
    send_data_log [of inb outb, folded ib_def ob_def]
  note rlog = read_data_log [of inb, folded ib_def]
  let ?P = "\<lambda>dl. \<exists>n config. snd dl = log @ take n (init_script config)
      \<and> (n \<le> 2 \<or> config < 0xFF)"
  obtain ok1 d1 where s1: "send_cmd ib ob Cmd_enable_second_port (d, log) = (ok1, d1)"
    by (rule prod.exhaust)
  obtain ok2 d2 where s2: "send_cmd ib ob Cmd_read_config d1 = (ok2, d2)" by (rule prod.exhaust)
  obtain config d3 where s3: "read_data ib d2 = (config, d3)" by (rule prod.exhaust)
  obtain ok4 d4 where s4: "send_cmd ib ob Cmd_write_config d3 = (ok4, d4)" by (rule prod.exhaust)
  obtain ok5 d5 where s5: "send_data ib ob (config OR 3) d4 = (ok5, d5)" by (rule prod.exhaust)
  obtain ok6 d6 where s6: "send_cmd ib ob Cmd_write_to_mouse d5 = (ok6, d6)" by (rule prod.exhaust)
  obtain ok7 d7 where s7: "send_data ib ob Mouse_Cmd_enable_reporting d6 = (ok7, d7)" by (rule prod.exhaust)
  note steps = s1 s2 s3 s4 s5 s6 s7
  note logs = log(1) [OF s1] log(1) [OF s2] rlog [of d2, unfolded s3] log(1) [OF s4]
    log(2) [OF s5] log(1) [OF s6] log(2) [OF s7] rlog [of d7]
  have run: "initialize_ps2 ib ob (d, log) =
      (if \<not> ok1 then d1 else if \<not> ok2 then d2 else if config = 0xFF then d3
       else if \<not> ok4 then d4 else if \<not> ok5 then d5 else if \<not> ok6 then d6
       else if \<not> ok7 then d7 else snd (read_data ib d7))"
    unfolding initialize_ps2_def by (simp add: Let_def steps set_low_bits)
  define n :: nat where "n = (if \<not> ok1 then 0 else if \<not> ok2 then 1 else if config = 0xFF then 2
       else if \<not> ok4 then 2 else if \<not> ok5 then 3 else if \<not> ok6 then 4
       else if \<not> ok7 then 5 else 6)"
  have "snd (initialize_ps2 ib ob (d, log)) = log @ take n (init_script config)"
    unfolding run n_def using logs
    by (simp add: init_script_def Mouse_Cmd_enable_reporting_def split: if_splits)
  moreover have "config < 0xFF" if "config \<noteq> 0xFF"
  proof -
    have "unat config \<noteq> unat (0xFF :: u8)" using that by (metis unsigned_word_eqI)
    then have "unat config \<noteq> 255" by simp
    then show ?thesis using unat_lt_pow8 [of config] unfolding word_less_nat_alt
      by (simp; linarith)
  qed
  then have "n \<le> 2 \<or> config < 0xFF" by (auto simp: n_def)
  ultimately show ?thesis unfolding ib_def ob_def by blast
qed

section \<open>The keyboard\<close>

text \<open>
  The enumeration \<open>Scancode\<close> with the keys that the \<^verbatim>\<open>switch\<close> of \<open>to_input_key\<close> returns for its
  values; every other value gives \<open>UNKNOWN\<close>.
\<close>

definition KEY_UP_RANGE_START :: u8 where "KEY_UP_RANGE_START = 128"
definition KEY_EXTENDED_OFFSET :: u8 where "KEY_EXTENDED_OFFSET = 0x80"

definition scancodes :: "(u8 \<times> key) list" where
  "scancodes =
    [(0x01, Key_ESCAPE), (0x02, Key_DIGIT_1), (0x03, Key_DIGIT_2), (0x04, Key_DIGIT_3),
     (0x05, Key_DIGIT_4), (0x06, Key_DIGIT_5), (0x07, Key_DIGIT_6), (0x08, Key_DIGIT_7),
     (0x09, Key_DIGIT_8), (0x0A, Key_DIGIT_9), (0x0B, Key_DIGIT_0), (0x0C, Key_MINUS),
     (0x0D, Key_EQUALS), (0x0E, Key_BACKSPACE), (0x0F, Key_TAB), (0x10, Key_Q),
     (0x11, Key_W), (0x12, Key_E), (0x13, Key_R), (0x14, Key_T), (0x15, Key_Y),
     (0x16, Key_U), (0x17, Key_I), (0x18, Key_O), (0x19, Key_P), (0x1A, Key_LEFT_BRACKET),
     (0x1B, Key_RIGHT_BRACKET), (0x1C, Key_ENTER), (0x1D, Key_LEFT_CONTROL), (0x1E, Key_A),
     (0x1F, Key_S), (0x20, Key_D), (0x21, Key_F), (0x22, Key_G), (0x23, Key_H),
     (0x24, Key_J), (0x25, Key_K), (0x26, Key_L), (0x27, Key_SEMICOLON),
     (0x28, Key_APOSTROPHE), (0x29, Key_GRAVE), (0x2A, Key_LEFT_SHIFT),
     (0x2B, Key_BACKSLASH), (0x2C, Key_Z), (0x2D, Key_X), (0x2E, Key_C), (0x2F, Key_V),
     (0x30, Key_B), (0x31, Key_N), (0x32, Key_M), (0x33, Key_COMMA), (0x34, Key_PERIOD),
     (0x35, Key_SLASH), (0x36, Key_RIGHT_SHIFT), (0x37, Key_KEYPAD_MULTIPLY),
     (0x38, Key_LEFT_ALT), (0x39, Key_SPACE), (0x3A, Key_CAPS_LOCK), (0x3B, Key_F1),
     (0x3C, Key_F2), (0x3D, Key_F3), (0x3E, Key_F4), (0x3F, Key_F5), (0x40, Key_F6),
     (0x41, Key_F7), (0x42, Key_F8), (0x43, Key_F9), (0x44, Key_F10), (0x45, Key_NUM_LOCK),
     (0x46, Key_SCROLL_LOCK), (0x47, Key_KEYPAD_7), (0x48, Key_KEYPAD_8),
     (0x49, Key_KEYPAD_9), (0x4A, Key_KEYPAD_MINUS), (0x4B, Key_KEYPAD_4),
     (0x4C, Key_KEYPAD_5), (0x4D, Key_KEYPAD_6), (0x4E, Key_KEYPAD_PLUS),
     (0x4F, Key_KEYPAD_1), (0x50, Key_KEYPAD_2), (0x51, Key_KEYPAD_3), (0x52, Key_KEYPAD_0),
     (0x53, Key_KEYPAD_PERIOD), (0x57, Key_F11), (0x58, Key_F12),
     (0x1D + 0x80, Key_RIGHT_CONTROL), (0x38 + 0x80, Key_RIGHT_ALT),
     (0x4D + 0x80, Key_RIGHT_ARROW), (0x4B + 0x80, Key_LEFT_ARROW),
     (0x48 + 0x80, Key_UP_ARROW), (0x50 + 0x80, Key_DOWN_ARROW)]"

definition to_input_key :: "u8 \<Rightarrow> key" where
  "to_input_key scancode =
     (case map_of scancodes scancode of Some k \<Rightarrow> k | None \<Rightarrow> Key_UNKNOWN)"

record mouse_packet_state =
  packet_bytes :: "u8 list"
  packet_index :: nat

record ps2_state =
  input :: input_state
  extended_pending :: bool
  mouse_packet :: mouse_packet_state

definition keyboard_byte :: "u8 \<Rightarrow> ps2_state \<Rightarrow> ps2_state outcome" where
  "keyboard_byte scancode_value st =
     (if scancode_value = 0xE0 then Inr (st\<lparr> extended_pending := True \<rparr>)
      else
        let key_up = KEY_UP_RANGE_START \<le> scancode_value;
            key_value = (if key_up then scancode_value - KEY_UP_RANGE_START else scancode_value);
            key_value = (if extended_pending st then key_value + KEY_EXTENDED_OFFSET
                         else key_value);
            st = st\<lparr> extended_pending := False \<rparr>;
            key = to_input_key key_value
        in if key = Key_UNKNOWN then Inr st
           else
             let repeat = (\<not> key_up \<and> key_held key (input st));
                 e = (if key_up then KEY_UP \<lparr> ek_key = key, ek_repeat = False \<rparr>
                      else KEY_DOWN \<lparr> ek_key = key, ek_repeat = repeat \<rparr>)
             in obind (submit_event e (input st)) (\<lambda>i. Inr (st\<lparr> input := i \<rparr>)))"

definition isr_handle_ps2_keyboard ::
  "'d port_read \<Rightarrow> ps2_state \<Rightarrow> 'd \<Rightarrow> (ps2_state \<times> 'd) outcome" where
  "isr_handle_ps2_keyboard inb st d =
     (let (scancode_value, d) = inb PS2_DATA_PORT d
      in obind (keyboard_byte scancode_value st) (\<lambda>st. Inr (st, d)))"

fun keyboard_bytes :: "u8 list \<Rightarrow> ps2_state \<Rightarrow> ps2_state outcome" where
  "keyboard_bytes [] st = Inr st"
| "keyboard_bytes (v # vs) st = obind (keyboard_byte v st) (keyboard_bytes vs)"

text \<open>
  What a keyboard sends in scancode set 1 when the key with table value \<open>v\<close> goes down and up.
\<close>

definition make_bytes :: "u8 \<Rightarrow> u8 list" where
  "make_bytes v = (if v < 0x80 then [v] else [0xE0, v - 0x80])"

definition break_bytes :: "u8 \<Rightarrow> u8 list" where
  "break_bytes v = (if v < 0x80 then [v + 0x80] else [0xE0, v])"

text \<open>One byte that is not the prefix, by whether it is a make or a break code.\<close>

lemma keyboard_make:
  assumes "v < 0x80" "to_input_key (if extended_pending st then v + 0x80 else v) = k"
    "k \<noteq> Key_UNKNOWN"
  shows "keyboard_byte v st = obind (submit_event
      (KEY_DOWN \<lparr> ek_key = k, ek_repeat = key_held k (input st) \<rparr>) (input st))
      (\<lambda>i. Inr (st\<lparr> extended_pending := False, input := i \<rparr>))"
proof -
  have "v \<noteq> 0xE0" "\<not> 0x80 \<le> v" using assms(1) by (auto simp: not_le)
  then show ?thesis using assms
    by (cases "extended_pending st")
       (simp_all add: keyboard_byte_def KEY_UP_RANGE_START_def KEY_EXTENDED_OFFSET_def Let_def)
qed

lemma keyboard_break:
  assumes "0x80 \<le> b" "b \<noteq> 0xE0"
    "to_input_key (if extended_pending st then b - 0x80 + 0x80 else b - 0x80) = k"
    "k \<noteq> Key_UNKNOWN"
  shows "keyboard_byte b st = obind (submit_event
      (KEY_UP \<lparr> ek_key = k, ek_repeat = False \<rparr>) (input st))
      (\<lambda>i. Inr (st\<lparr> extended_pending := False, input := i \<rparr>))"
  using assms
  by (cases "extended_pending st")
     (simp_all add: keyboard_byte_def KEY_UP_RANGE_START_def KEY_EXTENDED_OFFSET_def Let_def)

lemmas scancode_values = scancodes_def [THEN arg_cong [of _ _ "map fst"],
    unfolded list.map fst_conv]
lemmas scancode_keys = scancodes_def [THEN arg_cong [of _ _ "map snd"],
    unfolded list.map snd_conv]

lemma scancodes_distinct: "distinct (map fst scancodes)"
  unfolding scancode_values by simp

lemma keys_distinct: "distinct (map snd scancodes)"
  unfolding scancode_keys by simp

lemma key_in_list: "k \<noteq> Key_UNKNOWN \<Longrightarrow> k \<in> set (map snd scancodes)"
  unfolding scancode_keys by (cases k) simp_all

lemma key_in_table: "k \<noteq> Key_UNKNOWN \<Longrightarrow> \<exists>v. (v, k) \<in> set scancodes"
  using key_in_list [of k] by force

lemma UNKNOWN_not_in_list: "Key_UNKNOWN \<notin> set (map snd scancodes)"
  unfolding scancode_keys by simp

lemma UNKNOWN_not_in_table: "(v, Key_UNKNOWN) \<notin> set scancodes"
  using UNKNOWN_not_in_list by force

lemma scancode_not_prefix: "(v, k) \<in> set scancodes \<Longrightarrow> v \<noteq> 0xE0 \<and> v \<noteq> 0x60"
  by (auto simp: scancodes_def)

lemma to_input_key_table: "(v, k) \<in> set scancodes \<Longrightarrow> to_input_key v = k"
  using map_of_is_SomeI [OF scancodes_distinct] by (simp add: to_input_key_def)


text \<open>A key's make and break bytes, as what reaches the input state.\<close>

lemma obind_Inr_right [simp]: "obind r Inr = r"
  by (cases r) simp_all

lemma clear_pending:
  "\<not> extended_pending st \<Longrightarrow>
   (\<lambda>i. Inr (st\<lparr> extended_pending := False, input := i \<rparr>) :: ps2_state outcome)
   = (\<lambda>i. Inr (st\<lparr> input := i \<rparr>))"
  by (intro ext) simp

lemma keyboard_bytes_single [simp]: "keyboard_bytes [v] st = keyboard_byte v st"
  by (cases "keyboard_byte v st") simp_all

lemma keyboard_bytes_extended:
  "keyboard_bytes [0xE0, v] st = keyboard_byte v (st\<lparr> extended_pending := True \<rparr>)"
  by (cases "keyboard_byte v (st\<lparr> extended_pending := True \<rparr>)")
     (simp_all add: keyboard_byte_def [of "0xE0"])

lemma keyboard_make_bytes:
  assumes vk: "(v, k) \<in> set scancodes" and np: "\<not> extended_pending st"
  shows "keyboard_bytes (make_bytes v) st = obind (submit_event
      (KEY_DOWN \<lparr> ek_key = k, ek_repeat = key_held k (input st) \<rparr>) (input st))
      (\<lambda>i. Inr (st\<lparr> input := i \<rparr>))"
proof -
  have k: "k \<noteq> Key_UNKNOWN" using vk UNKNOWN_not_in_table by auto
  show ?thesis
  proof (cases "v < 0x80")
    case True
    then show ?thesis
      using keyboard_make [OF True, of st k] np to_input_key_table [OF vk] k
      by (simp add: make_bytes_def clear_pending del: keyboard_bytes.simps)
  next
    case False
    have "unat (v - 0x80) = unat v - 128"
      using False by (simp add: unat_sub not_less)
    then have low: "v - 0x80 < 0x80" using unat_lt_pow8 [of v]
      unfolding word_less_nat_alt by (simp; linarith)
    show ?thesis
      using keyboard_make [OF low, of "st\<lparr> extended_pending := True \<rparr>" k]
        to_input_key_table [OF vk] k False np
      by (simp add: make_bytes_def keyboard_bytes_extended clear_pending [of st]
          del: keyboard_bytes.simps)
  qed
qed

lemma keyboard_break_bytes:
  assumes vk: "(v, k) \<in> set scancodes" and np: "\<not> extended_pending st"
  shows "keyboard_bytes (break_bytes v) st = obind (submit_event
      (KEY_UP \<lparr> ek_key = k, ek_repeat = False \<rparr>) (input st))
      (\<lambda>i. Inr (st\<lparr> input := i \<rparr>))"
proof -
  have k: "k \<noteq> Key_UNKNOWN" using vk UNKNOWN_not_in_table by auto
  have v: "v \<noteq> 0xE0" "v \<noteq> 0x60" using scancode_not_prefix [OF vk] by auto
  show ?thesis
  proof (cases "v < 0x80")
    case True
    then have "unat (v + 0x80) = unat v + 128"
      by (subst unat_add_no_wrap) (simp_all add: word_less_nat_alt)
    then have "0x80 \<le> v + 0x80" by (simp add: word_le_nat_alt)
    moreover have "v + 0x80 \<noteq> 0xE0"
    proof
      assume "v + 0x80 = 0xE0"
      then have "v = 0xE0 - 0x80" by (metis add_diff_cancel_right')
      then show False using v(2) by simp
    qed
    ultimately show ?thesis
      using keyboard_break [of "v + 0x80" st k] np to_input_key_table [OF vk] k True
      by (simp add: break_bytes_def clear_pending del: keyboard_bytes.simps)
  next
    case False
    then have "break_bytes v = [0xE0, v]" by (simp add: break_bytes_def)
    then show ?thesis
      using keyboard_break [of v "st\<lparr> extended_pending := True \<rparr>" k]
        to_input_key_table [OF vk] k v np False
      by (simp add: keyboard_bytes_extended clear_pending [of st] not_less
          del: keyboard_bytes.simps)
  qed
qed

text \<open>
  Pressing and releasing a key round-trips through the keyboard decoder. Every
  key but \<open>UNKNOWN\<close> has exactly one scancode; the bytes a keyboard sends when it goes down leave
  exactly that key newly held (with \<open>repeat\<close> set iff it was held before), the bytes it sends
  when it goes up leave exactly that key up, extended keys (a \<^verbatim>\<open>0xE0\<close> prefix) included, no
  prefix stays pending, and no assertion fails.
\<close>

theorem keyboard_press_release:
  assumes "k \<noteq> Key_UNKNOWN" "input_wf (input st)" "\<not> extended_pending st"
  shows "\<exists>!v. to_input_key v = k
     \<and> (\<exists>i1 i2. keyboard_bytes (make_bytes v) st = Inr (st\<lparr> input := i1 \<rparr>)
          \<and> submit_event (KEY_DOWN \<lparr> ek_key = k, ek_repeat = key_held k (input st) \<rparr>) (input st)
              = Inr i1
          \<and> keyboard_bytes (break_bytes v) (st\<lparr> input := i1 \<rparr>) = Inr (st\<lparr> input := i2 \<rparr>)
          \<and> keys i1 = (keys (input st))(k := True) \<and> keys i2 = (keys (input st))(k := False))"
    (is "\<exists>!v. ?P v")
proof -
  obtain v where vk: "(v, k) \<in> set scancodes" using key_in_table [OF assms(1)] by blast
  have unique: "v' = v" if "to_input_key v' = k" for v'
  proof -
    have "(v', k) \<in> set scancodes"
      using that assms(1) unfolding to_input_key_def by (auto split: option.splits dest: map_of_SomeD)
    moreover have "inj_on snd (set scancodes)" using keys_distinct by (simp add: distinct_map)
    ultimately have "(v', k) = (v, k)" using vk by (metis inj_onD snd_conv)
    then show ?thesis by simp
  qed
  let ?down = "KEY_DOWN \<lparr> ek_key = k, ek_repeat = key_held k (input st) \<rparr>"
  let ?up = "KEY_UP \<lparr> ek_key = k, ek_repeat = False \<rparr>"
  obtain i1 where i1: "submit_event ?down (input st) = Inr i1" "input_wf i1"
    using submit_event_spec [OF assms(2), of ?down] by blast
  obtain i2 where i2: "submit_event ?up i1 = Inr i2" "input_wf i2"
    using submit_event_spec [OF i1(2), of ?up] by blast
  have "keys i1 = (keys (input st))(k := True)"
    using submit_event_state(2) [OF assms(2) i1(1)] assms(1)
    by (intro ext) (auto simp: submit_key_facts(1))
  moreover have "keys i2 = (keys i1)(k := False)"
    using submit_event_state(2) [OF i1(2) i2(1)] assms(1)
    by (intro ext) (auto simp: submit_key_facts(1))
  moreover have "keyboard_bytes (make_bytes v) st = Inr (st\<lparr> input := i1 \<rparr>)"
    using keyboard_make_bytes [OF vk assms(3)] i1 by simp
  moreover have "keyboard_bytes (break_bytes v) (st\<lparr> input := i1 \<rparr>) = Inr (st\<lparr> input := i2 \<rparr>)"
    using keyboard_break_bytes [OF vk, of "st\<lparr> input := i1 \<rparr>"] assms(3) i2 by simp
  ultimately have good: "?P v"
    using i1(1) to_input_key_table [OF vk] by (metis fun_upd_upd)
  show ?thesis
  proof (rule ex1I)
    show "?P v" by (rule good)
    show "v' = v" if "?P v'" for v' using that unique by blast
  qed
qed

definition initial_ps2 :: ps2_state where
  "initial_ps2 = \<lparr> input = initial_input, extended_pending = False,
     mouse_packet = \<lparr> packet_bytes = [0, 0, 0], packet_index = 0 \<rparr> \<rparr>"

theorem keyboard_press_release_witness:
  "\<exists>v i1. keyboard_bytes (make_bytes v) initial_ps2 = Inr (initial_ps2\<lparr> input := i1 \<rparr>)
     \<and> to_input_key v = Key_RIGHT_ARROW \<and> keys i1 Key_RIGHT_ARROW \<and> \<not> keys i1 Key_KEYPAD_6"
proof -
  have "\<not> keys (input initial_ps2) Key_KEYPAD_6" by (simp add: initial_ps2_def initial_input_def)
  then show ?thesis
    using keyboard_press_release [of Key_RIGHT_ARROW initial_ps2] input_wf_initial
    by (force simp: initial_ps2_def)
qed

section \<open>The mouse\<close>

definition MOUSE_PACKET_SIZE :: nat where "MOUSE_PACKET_SIZE = 3"

text \<open>\<open>Mouse_Flags\<close>: the first byte of a packet.\<close>

definition LEFT_BUTTON :: u8 where "LEFT_BUTTON = push_bit 0 1"
definition RIGHT_BUTTON :: u8 where "RIGHT_BUTTON = push_bit 1 1"
definition MIDDLE_BUTTON :: u8 where "MIDDLE_BUTTON = push_bit 2 1"
definition ALWAYS_ONE :: u8 where "ALWAYS_ONE = push_bit 3 1"
definition X_OVERFLOW :: u8 where "X_OVERFLOW = push_bit 6 1"
definition Y_OVERFLOW :: u8 where "Y_OVERFLOW = push_bit 7 1"

definition submit_button_flag ::
  "u8 \<Rightarrow> u8 \<Rightarrow> mouse_button \<Rightarrow> input_state \<Rightarrow> input_state outcome" where
  "submit_button_flag flags button_flag button i =
     (let down = has_flag flags [button_flag]
      in if mouse_button_held button i = down then Inr i
         else if down then submit_event (MOUSE_BUTTON_DOWN button) i
         else submit_event (MOUSE_BUTTON_UP button) i)"

definition process_mouse_byte :: "u8 \<Rightarrow> ps2_state \<Rightarrow> ps2_state outcome" where
  "process_mouse_byte value st =
     (let packet = mouse_packet st in
      if packet_index packet = 0 \<and> \<not> has_flag value [ALWAYS_ONE] then Inr st
      else
        obind (static_array_set (packet_bytes packet) (packet_index packet) value) (\<lambda>bytes.
        let packet = packet\<lparr> packet_bytes := bytes, packet_index := packet_index packet + 1 \<rparr>
        in if packet_index packet < MOUSE_PACKET_SIZE then Inr (st\<lparr> mouse_packet := packet \<rparr>)
           else
             let st = st\<lparr> mouse_packet := packet\<lparr> packet_index := 0 \<rparr> \<rparr>
             in obind (static_array_get bytes 0) (\<lambda>flags.
                obind (submit_button_flag flags LEFT_BUTTON LEFT (input st)) (\<lambda>i.
                obind (submit_button_flag flags RIGHT_BUTTON RIGHT i) (\<lambda>i.
                obind (submit_button_flag flags MIDDLE_BUTTON MIDDLE i) (\<lambda>i.
                if has_flag flags [X_OVERFLOW] \<or> has_flag flags [Y_OVERFLOW]
                then Inr (st\<lparr> input := i \<rparr>)
                else
                  obind (static_array_get bytes 1) (\<lambda>x.
                  obind (static_array_get bytes 2) (\<lambda>y.
                  let xrel = scast x; yrel = - scast y
                  in if xrel = 0 \<and> yrel = 0 then Inr (st\<lparr> input := i \<rparr>)
                     else obind (submit_event
                            (MOUSE_MOTION \<lparr> delta_x = xrel, delta_y = yrel \<rparr>) i)
                            (\<lambda>i. Inr (st\<lparr> input := i \<rparr>))))))))))"

text \<open>The interrupt handler drains the controller; with no bound, so it may not return.\<close>

definition OUTPUT_BUFFER_FULL :: u8 where "OUTPUT_BUFFER_FULL = push_bit 0 1"
definition AUX_DATA :: u8 where "AUX_DATA = push_bit 5 1"

partial_function (option) isr_handle_ps2_mouse ::
  "'d port_read \<Rightarrow> ps2_state \<Rightarrow> 'd \<Rightarrow> (ps2_state \<times> 'd) outcome option" where
  "isr_handle_ps2_mouse inb st d =
     (let (status, d) = inb PS2_STATUS_PORT d
      in if \<not> has_flag status [OUTPUT_BUFFER_FULL OR AUX_DATA] then Some (Inr (st, d))
         else let (value, d) = inb PS2_DATA_PORT d
              in case process_mouse_byte value st of
                   Inl msg \<Rightarrow> Some (Inl msg)
                 | Inr st \<Rightarrow> isr_handle_ps2_mouse inb st d)"

fun mouse_bytes :: "u8 list \<Rightarrow> ps2_state \<Rightarrow> ps2_state outcome" where
  "mouse_bytes [] st = Inr st"
| "mouse_bytes (v # vs) st = obind (process_mouse_byte v st) (mouse_bytes vs)"

definition ps2_wf :: "ps2_state \<Rightarrow> bool" where
  "ps2_wf st \<longleftrightarrow> input_wf (input st) \<and> List.length (packet_bytes (mouse_packet st)) = 3
     \<and> packet_index (mouse_packet st) < 3"

subsection \<open>The events of a packet\<close>

lemma has_flag_bit: "n < 8 \<Longrightarrow> has_flag (v :: u8) [push_bit n 1] = bit v n"
  unfolding has_flag_single bit_eq_iff by (auto simp: bit_simps)

lemmas mouse_flag_defs = LEFT_BUTTON_def RIGHT_BUTTON_def MIDDLE_BUTTON_def ALWAYS_ONE_def
  X_OVERFLOW_def Y_OVERFLOW_def

lemma mouse_flags [simp]:
  "has_flag v [LEFT_BUTTON] = bit v 0"
  "has_flag v [RIGHT_BUTTON] = bit v 1"
  "has_flag v [MIDDLE_BUTTON] = bit v 2"
  "has_flag v [ALWAYS_ONE] = bit v 3"
  "has_flag v [X_OVERFLOW] = bit v 6"
  "has_flag v [Y_OVERFLOW] = bit v 7"
  unfolding mouse_flag_defs by (rule has_flag_bit, simp)+

text \<open>The events a packet \<open>[f, x, y]\<close> stands for, when \<open>held\<close> says which buttons are down.\<close>

definition button_events :: "(mouse_button \<Rightarrow> bool) \<Rightarrow> u8 \<Rightarrow> nat \<Rightarrow> mouse_button \<Rightarrow> event list" where
  "button_events held f n b =
     (if bit f n = held b then []
      else if bit f n then [MOUSE_BUTTON_DOWN b] else [MOUSE_BUTTON_UP b])"

definition motion_events :: "u8 \<Rightarrow> u8 \<Rightarrow> u8 \<Rightarrow> event list" where
  "motion_events f x y =
     (if bit f 6 \<or> bit f 7 \<or> (x = 0 \<and> y = 0) then []
      else [MOUSE_MOTION \<lparr> delta_x = scast x, delta_y = - scast y \<rparr>])"

definition packet_events :: "(mouse_button \<Rightarrow> bool) \<Rightarrow> u8 \<Rightarrow> u8 \<Rightarrow> u8 \<Rightarrow> event list" where
  "packet_events held f x y = button_events held f 0 LEFT @ button_events held f 1 RIGHT
     @ button_events held f 2 MIDDLE @ motion_events f x y"

lemma submit_events_append:
  "submit_events (es @ es') i = obind (submit_events es i) (submit_events es')"
proof (induction es arbitrary: i)
  case (Cons e es)
  then show ?case by (cases "submit_event e i") auto
qed simp

lemma submit_events_Nil_fun [simp]: "submit_events [] = Inr"
  by (rule ext) simp

text \<open>Each button step submits its events, sets its own button and no other.\<close>

lemma submit_button_flag_spec:
  assumes wf: "input_wf i" and flag: "has_flag f [flag] = bit f n"
  shows "\<exists>i'. submit_button_flag f flag b i = Inr i'
     \<and> submit_events (button_events (mouse_buttons i) f n b) i = Inr i' \<and> input_wf i'
     \<and> mouse_buttons i' = (mouse_buttons i)(b := bit f n) \<and> keys i' = keys i"
proof (cases "mouse_buttons i b = bit f n")
  case True
  then have "(mouse_buttons i)(b := bit f n) = mouse_buttons i" by (simp flip: True)
  then show ?thesis
    using wf flag True
    by (simp add: submit_button_flag_def Let_def button_events_def mouse_button_held_def)
next
  case False
  let ?e = "if bit f n then MOUSE_BUTTON_DOWN b else MOUSE_BUTTON_UP b"
  obtain i' where i': "submit_event ?e i = Inr i'" "input_wf i'"
    using submit_event_spec [OF wf, of ?e] by blast
  have "mouse_buttons i' = (mouse_buttons i)(b := bit f n)" "keys i' = keys i"
    unfolding submit_event_state(6) [OF wf i'(1)] submit_event_state(2) [OF wf i'(1)]
    using submit_mouse_button_facts(1) by (auto intro!: ext)
  then show ?thesis
    using False flag i'
    by (simp add: submit_button_flag_def Let_def button_events_def mouse_button_held_def
        split: if_splits)
qed

lemma scast_u8_eq_0 [simp]: "(scast (x :: u8) :: u32) = 0 \<longleftrightarrow> x = 0"
proof
  assume zero: "(scast x :: u32) = 0"
  show "x = 0"
  proof (rule bit_word_eqI)
    fix n assume n: "n < LENGTH(8)"
    then have "bit x n = bit (scast x :: u32) n" by (simp add: bit_signed_iff)
    then show "bit x n = bit 0 n" by (simp add: zero)
  qed
qed simp

text \<open>A byte that does not complete the packet, and one that does.\<close>

lemma mouse_byte_collect:
  assumes "mouse_packet st = \<lparr> packet_bytes = bytes, packet_index = n \<rparr>"
    "n \<noteq> 0 \<or> bit v 3" "List.length bytes = 3" "n < 2"
  shows "process_mouse_byte v st
    = Inr (st\<lparr> mouse_packet := \<lparr> packet_bytes = bytes[n := v], packet_index = Suc n \<rparr> \<rparr>)"
  using assms by (auto simp: process_mouse_byte_def Let_def static_array_set_def
      MOUSE_PACKET_SIZE_def)

lemma mouse_byte_complete:
  assumes "mouse_packet st = \<lparr> packet_bytes = [f, x, c], packet_index = 2 \<rparr>"
    and wf: "input_wf (input st)"
  shows "\<exists>i. process_mouse_byte y st
        = Inr (st\<lparr> input := i, mouse_packet := \<lparr> packet_bytes = [f, x, y], packet_index = 0 \<rparr> \<rparr>)
     \<and> submit_events (packet_events (mouse_buttons (input st)) f x y) (input st) = Inr i
     \<and> mouse_buttons i = (mouse_buttons (input st))(LEFT := bit f 0, RIGHT := bit f 1,
                                                    MIDDLE := bit f 2)
     \<and> input_wf i"
proof -
  let ?held = "mouse_buttons (input st)"
  obtain i1 where i1: "submit_button_flag f LEFT_BUTTON LEFT (input st) = Inr i1" "input_wf i1"
      "submit_events (button_events ?held f 0 LEFT) (input st) = Inr i1"
      "mouse_buttons i1 = ?held(LEFT := bit f 0)"
    using submit_button_flag_spec [OF wf, of f LEFT_BUTTON 0 LEFT] by auto
  obtain i2 where i2: "submit_button_flag f RIGHT_BUTTON RIGHT i1 = Inr i2" "input_wf i2"
      "submit_events (button_events (mouse_buttons i1) f 1 RIGHT) i1 = Inr i2"
      "mouse_buttons i2 = (mouse_buttons i1)(RIGHT := bit f 1)"
    using submit_button_flag_spec [OF i1(2), of f RIGHT_BUTTON 1 RIGHT] by auto
  obtain i3 where i3: "submit_button_flag f MIDDLE_BUTTON MIDDLE i2 = Inr i3" "input_wf i3"
      "submit_events (button_events (mouse_buttons i2) f 2 MIDDLE) i2 = Inr i3"
      "mouse_buttons i3 = (mouse_buttons i2)(MIDDLE := bit f 2)"
    using submit_button_flag_spec [OF i2(2), of f MIDDLE_BUTTON 2 MIDDLE] by auto
  obtain i4 where i4: "submit_events (motion_events f x y) i3 = Inr i4" "input_wf i4"
    using submit_events_runs [OF i3(2)] by blast
  have "mouse_buttons i4 = mouse_buttons i3"
    using i4(1) submit_event_state(6) [OF i3(2)] by (auto simp: motion_events_def split: if_splits)
  moreover have "button_events (mouse_buttons i1) f 1 RIGHT = button_events ?held f 1 RIGHT"
    "button_events (mouse_buttons i2) f 2 MIDDLE = button_events ?held f 2 MIDDLE"
    using i1(4) i2(4) by (simp_all add: button_events_def)
  moreover have "process_mouse_byte y st = Inr (st\<lparr> input := i4,
      mouse_packet := \<lparr> packet_bytes = [f, x, y], packet_index = 0 \<rparr> \<rparr>)"
    using assms(1) i4(1) i1(1) i2(1) i3(1)
    by (auto simp: process_mouse_byte_def Let_def static_array_set_def static_array_get_def
        MOUSE_PACKET_SIZE_def motion_events_def split: if_splits)
  ultimately show ?thesis
    using i1 i2 i3 i4 by (auto simp: packet_events_def submit_events_append)
qed

text \<open>
  C18: A mouse packet is decoded completely and in order. Bytes before the packet whose
  always-one bit is clear are skipped; then the three bytes submit one event for each
  button that changed (left, right, middle), and one motion event with the signed bytes,
  y negated, unless an overflow bit is set or both are zero. Afterwards the three buttons are
  what the flags say and the other two unchanged, the packet state is empty again, and no
  assertion failed.
\<close>

theorem mouse_packet_decoded:
  assumes wf: "ps2_wf st" and start: "packet_index (mouse_packet st) = 0"
    and noise: "\<forall>v \<in> set noise. \<not> bit v 3" and sync: "bit f 3"
  shows "\<exists>i. mouse_bytes (noise @ [f, x, y]) st
        = Inr (st\<lparr> input := i, mouse_packet := \<lparr> packet_bytes = [f, x, y], packet_index = 0 \<rparr> \<rparr>)
     \<and> submit_events (packet_events (mouse_buttons (input st)) f x y) (input st) = Inr i
     \<and> mouse_buttons i = (mouse_buttons (input st))(LEFT := bit f 0, RIGHT := bit f 1,
                                                    MIDDLE := bit f 2)
     \<and> input_wf i"
proof -
  have skip: "mouse_bytes (noise @ [f, x, y]) st = mouse_bytes [f, x, y] st"
    using noise start by (induction noise) (simp_all add: process_mouse_byte_def)
  let ?p = "mouse_packet st"
  obtain a b c where bytes: "packet_bytes ?p = [a, b, c]"
    using wf by (auto simp: ps2_wf_def length_Suc_conv numeral_3_eq_3)
  have p0: "?p = \<lparr> packet_bytes = [a, b, c], packet_index = 0 \<rparr>"
    using start bytes by (cases ?p) simp
  define st1 where "st1 = st\<lparr> mouse_packet := \<lparr> packet_bytes = [f, b, c], packet_index = 1 \<rparr> \<rparr>"
  define st2 where "st2 = st\<lparr> mouse_packet := \<lparr> packet_bytes = [f, x, c], packet_index = 2 \<rparr> \<rparr>"
  have "process_mouse_byte f st = Inr st1"
    using mouse_byte_collect [OF p0, of f] sync by (simp add: st1_def)
  moreover have "process_mouse_byte x st1 = Inr st2"
    using mouse_byte_collect [of st1 "[f, b, c]" 1 x] by (simp add: st1_def st2_def)
  ultimately have two: "mouse_bytes [f, x, y] st = process_mouse_byte y st2"
    by (cases "process_mouse_byte y st2") simp_all
  have "input_wf (input st2)" "input st2 = input st" using wf by (simp_all add: st2_def ps2_wf_def)
  then show ?thesis
    unfolding skip two using mouse_byte_complete [of st2 f x c y] by (auto simp: st2_def)
qed

theorem mouse_packet_decoded_witness:
  "\<exists>i. mouse_bytes [0, 0x09, 0xFF, 2] initial_ps2 = Inr (initial_ps2\<lparr> input := i,
         mouse_packet := \<lparr> packet_bytes = [0x09, 0xFF, 2], packet_index = 0 \<rparr> \<rparr>)
     \<and> mouse_buttons i LEFT \<and> \<not> mouse_buttons i RIGHT"
  using mouse_packet_decoded [of initial_ps2 "[0]" "0x09" "0xFF" 2] input_wf_initial
  by (force simp: ps2_wf_def initial_ps2_def initial_input_def)

text \<open>
  The flags byte also carries the ninth (sign) bit of each delta, which the decoder does not
  read: a move of +200 in one packet (sign bit clear, byte 200) is reported as -56.
\<close>

lemma mouse_delta_sign_ignored:
  "motion_events 0x08 200 0 = [MOUSE_MOTION \<lparr> delta_x = - 56, delta_y = 0 \<rparr>]"
  by (simp add: motion_events_def)

end
