(* ===== verification/Random_Numbers.thy ===== *)
theory Random_Numbers
  imports Prelude
begin

text \<open>
  \<^verbatim>\<open>gameos/random.hh\<close>: the generator xoshiro256++, its seeding by splitmix64 and numbers in a
  range by rejection. The processor's random instruction and time stamp counter are arguments: \<open>rdrand n\<close>
  is the outcome of its \<open>n\<close>th execution.

  Seeding never gives the state of zeros, which the generator could not leave, and no step reaches it; a number in
  a range is accepted exactly so that every value stands for equally many outputs of the generator.
\<close>

section \<open>The generator\<close>

definition rol64 :: "u64 \<Rightarrow> nat \<Rightarrow> u64" where
  "rol64 x k = push_bit k x OR drop_bit (64 - k) x"

record xoshiro_state =
  s0 :: u64
  s1 :: u64
  s2 :: u64
  s3 :: u64

definition xoshiro256pp :: "xoshiro_state \<Rightarrow> u64 \<times> xoshiro_state" where
  "xoshiro256pp st =
    (let result = rol64 (s0 st + s3 st) 23 + s0 st;
         t = push_bit 17 (s1 st);
         st = st\<lparr>s2 := s2 st XOR s0 st\<rparr>;
         st = st\<lparr>s3 := s3 st XOR s1 st\<rparr>;
         st = st\<lparr>s1 := s1 st XOR s2 st\<rparr>;
         st = st\<lparr>s0 := s0 st XOR s3 st\<rparr>;
         st = st\<lparr>s2 := s2 st XOR t\<rparr>;
         st = st\<lparr>s3 := rol64 (s3 st) 45\<rparr>
     in (result, st))"

definition splitmix64 :: "u64 \<Rightarrow> u64 \<times> u64" where
  "splitmix64 state =
    (let z = state + 0x9E3779B97F4A7C15;
         state = z;
         z = (z XOR drop_bit 30 z) * 0xBF58476D1CE4E5B9;
         z = (z XOR drop_bit 27 z) * 0x94D049BB133111EB
     in (z XOR drop_bit 31 z, state))"

section \<open>Seeding\<close>

text \<open>At most ten attempts; the flag, the number and the count of executions so far.\<close>

fun rdrand32_loop :: "nat \<Rightarrow> (nat \<Rightarrow> u32 \<times> bool) \<Rightarrow> nat \<Rightarrow> u32 \<Rightarrow> bool \<times> u32 \<times> nat" where
  "rdrand32_loop 0 rdrand n out = (False, out, n)"
| "rdrand32_loop (Suc attempts) rdrand n out =
    (case rdrand n of (v, ok) \<Rightarrow> if ok then (True, v, n + 1) else rdrand32_loop attempts rdrand (n + 1) v)"

definition rdrand32 :: "(nat \<Rightarrow> u32 \<times> bool) \<Rightarrow> nat \<Rightarrow> u32 \<Rightarrow> bool \<times> u32 \<times> nat" where
  "rdrand32 rdrand n out = rdrand32_loop 10 rdrand n out"

definition two_halves :: "u32 \<Rightarrow> u32 \<Rightarrow> u64" where
  "two_halves hi lo = push_bit 32 (ucast hi) OR ucast lo"

definition hardware_seed :: "bool \<Rightarrow> (nat \<Rightarrow> u32 \<times> bool) \<Rightarrow> u32 \<times> u32 \<Rightarrow> u64" where
  "hardware_seed has_rdrand rdrand tsc =
    (let fall_back = two_halves (snd tsc) (fst tsc) in
     if has_rdrand then
       case rdrand32 rdrand 0 0 of (ok, lo, n) \<Rightarrow>
         if ok then case rdrand32 rdrand n 0 of (ok', hi, n') \<Rightarrow> if ok' then two_halves hi lo else fall_back
         else fall_back
     else fall_back)"

definition random_initialize :: "u64 \<Rightarrow> xoshiro_state" where
  "random_initialize seed =
    (case splitmix64 seed of (a, seed) \<Rightarrow>
     case splitmix64 seed of (b, seed) \<Rightarrow>
     case splitmix64 seed of (c, seed) \<Rightarrow>
     case splitmix64 seed of (d, seed) \<Rightarrow> \<lparr>s0 = a, s1 = b, s2 = c, s3 = d\<rparr>)"

section \<open>Numbers in a range\<close>

partial_function (option) draw :: "u64 \<Rightarrow> xoshiro_state \<Rightarrow> (u64 \<times> xoshiro_state) option" where
  "draw threshold st =
    (case xoshiro256pp st of (random, st) \<Rightarrow> if random < threshold then draw threshold st else Some (random, st))"

definition rejection_threshold :: "u64 \<Rightarrow> u64" where
  "rejection_threshold width = (- width) mod width"

definition generate_between :: "u64 \<Rightarrow> u64 \<Rightarrow> xoshiro_state \<Rightarrow> (u64 \<times> xoshiro_state) run" where
  "generate_between first past st =
    run_assert (first < past) ''from < to''
     (let width = past - first in
      case draw (rejection_threshold width) st of
        None \<Rightarrow> None
      | Some (random, st) \<Rightarrow> Some (Inr (first + random mod width, st)))"

section \<open>The state of zeros\<close>

definition zero_state :: "xoshiro_state \<Rightarrow> bool" where
  "zero_state st \<longleftrightarrow> s0 st = 0 \<and> s1 st = 0 \<and> s2 st = 0 \<and> s3 st = 0"

lemma xor_zero_iff: "x XOR y = 0 \<longleftrightarrow> x = y" for x y :: u64
  by (auto simp: bit_eq_iff bit_xor_iff)

lemma xor_shift_right_cancel:
  fixes x y :: u64
  assumes "x XOR drop_bit k x = y XOR drop_bit k y" "0 < k"
  shows "x = y"
proof -
  let ?d = "x XOR y"
  have "?d = drop_bit k ?d"
  proof (rule bit_eqI)
    fix n
    have "bit (x XOR drop_bit k x) n = bit (y XOR drop_bit k y) n" using assms(1) by simp
    then show "bit ?d n = bit (drop_bit k ?d) n" by (auto simp: bit_xor_iff bit_drop_bit_eq)
  qed
  then have "unat ?d = unat ?d div 2 ^ k" by (metis unat_drop_bit)
  then have "unat ?d = 0"
    using assms(2) by (metis div_less_dividend less_irrefl not_gr_zero one_less_numeral_iff one_less_power semiring_norm(76))
  then show ?thesis by (metis unat_eq_zero xor_zero_iff)
qed

lemma mult_cancel_odd:
  fixes x y :: u64
  assumes "x * c = y * c" "c * d = 1"
  shows "x = y"
  using arg_cong [OF assms(1), of "\<lambda>z. z * d"] assms(2) by (simp add: mult.assoc)

lemma splitmix64_inj:
  assumes "fst (splitmix64 a) = fst (splitmix64 b)"
  shows "a = b"
proof -
  have 1: "(0xBF58476D1CE4E5B9 :: u64) * 10871156337175269513 = 1" by simp
  have 2: "(0x94D049BB133111EB :: u64) * 3573116690164977347 = 1" by simp
  from assms show ?thesis
    unfolding splitmix64_def Let_def fst_conv
    by (auto dest!: xor_shift_right_cancel mult_cancel_odd [OF _ 1] mult_cancel_odd [OF _ 2])
qed

lemma splitmix64_state: "snd (splitmix64 a) = a + 0x9E3779B97F4A7C15"
  by (simp add: splitmix64_def Let_def)

lemma initialize_nonzero: "\<not> zero_state (random_initialize seed)"
proof
  assume z: "zero_state (random_initialize seed)"
  let ?next = "snd (splitmix64 seed)"
  have "fst (splitmix64 seed) = fst (splitmix64 ?next)"
    using z by (simp add: random_initialize_def zero_state_def case_prod_beta)
  then have "seed = ?next" by (rule splitmix64_inj)
  then show False by (simp add: splitmix64_state)
qed

lemma rol64_eq_0: "0 < k \<Longrightarrow> k < 64 \<Longrightarrow> rol64 x k = 0 \<Longrightarrow> x = 0"
proof (rule bit_word_eqI)
  fix n assume k: "0 < k" "k < 64" and z: "rol64 x k = 0" and "n < LENGTH(64)"
  then have n: "n < 64" by simp
  have *: "\<not> bit (rol64 x k) m" for m using z by simp
  show "bit x n = bit (0::u64) n"
  proof (cases "n + k < 64")
    case True
    with *[of "n + k"] k show ?thesis by (simp add: rol64_def bit_or_iff bit_push_bit_iff)
  next
    case False
    with *[of "n + k - 64"] k n show ?thesis by (simp add: rol64_def bit_or_iff bit_drop_bit_eq)
  qed
qed

lemma shifted_self_zero:
  fixes w :: u64
  assumes "w = push_bit 17 w"
  shows "w = 0"
proof -
  have "w * 131071 = 0" using assms by (simp add: push_bit_eq_mult algebra_simps)
  moreover have "(131071 :: u64) * 18444492256715866111 = 1" by simp
  ultimately show ?thesis using mult_cancel_odd [of w 131071 0] by (metis mult_zero_left)
qed

lemma xoshiro_nonzero:
  assumes "zero_state (snd (xoshiro256pp st))"
  shows "zero_state st"
proof -
  let ?a = "s0 st" and ?b = "s1 st" and ?c = "s2 st" and ?d = "s3 st"
  from assms have r: "rol64 (?d XOR ?b) 45 = 0" and 0: "?a XOR (?d XOR ?b) = 0"
    and 1: "?b XOR (?c XOR ?a) = 0" and 2: "(?c XOR ?a) XOR push_bit 17 ?b = 0"
    by (simp_all add: zero_state_def xoshiro256pp_def Let_def)
  from r have d: "?d XOR ?b = 0" by (rule rol64_eq_0 [rotated 2]) simp_all
  with 0 have a: "?a = 0" by simp
  with 1 2 have "?b = ?c" "?c = push_bit 17 ?b" by (simp_all add: xor_zero_iff)
  then have b: "?b = 0" using shifted_self_zero [of ?b] by simp
  with d \<open>?b = ?c\<close> a show ?thesis by (simp add: zero_state_def)
qed

section \<open>Equally many outputs for every value\<close>

definition steps :: "nat \<Rightarrow> xoshiro_state \<Rightarrow> xoshiro_state" where
  "steps n st = ((\<lambda>st. snd (xoshiro256pp st)) ^^ n) st"

definition nth_output :: "nat \<Rightarrow> xoshiro_state \<Rightarrow> u64" where
  "nth_output n st = fst (xoshiro256pp (steps n st))"

lemma unat_minus_word: "w \<noteq> 0 \<Longrightarrow> unat (- w) = 2 ^ 64 - unat w" for w :: u64
proof -
  assume "w \<noteq> 0"
  have "unat (- w + w) = (unat (- w) + unat w) mod 2 ^ 64" by (simp only: unat_word_ariths len_of_numeral_defs) simp
  then have "(unat (- w) + unat w) mod 2 ^ 64 = 0" by simp
  then obtain k where k: "unat (- w) + unat w = 2 ^ 64 * k" by blast
  have pos: "0 < unat w" using \<open>w \<noteq> 0\<close> by (metis gr0I unat_eq_zero)
  have lt: "unat (- w) < 18446744073709551616" "unat w < 18446744073709551616"
    using unsigned_less [of "- w"] unsigned_less [of w] by simp_all
  have "unat (- w) + unat w = 18446744073709551616 * k" using k by simp
  then have "k < 2" using lt by linarith
  moreover have "0 < k" using k pos by (cases k) auto
  ultimately have "k = 1" by simp
  with k show ?thesis by simp
qed

lemma unat_threshold:
  assumes "w \<noteq> 0"
  shows "unat (rejection_threshold w) = 2 ^ 64 mod unat w"
proof -
  have "unat w \<le> 2 ^ 64" by (simp add: less_imp_le)
  then have "(2 ^ 64 - unat w) mod unat w = 2 ^ 64 mod unat w" by (metis le_mod_geq)
  with unat_minus_word [OF assms] show ?thesis by (simp add: rejection_threshold_def unat_mod)
qed

lemma mod_cancel:
  fixes w t x d :: nat
  assumes "(t + x) mod w = (t + d) mod w" "x < w" "d < w"
  shows "x = d"
proof -
  have *: "a = b" if "a \<le> b" "(t + a) mod w = (t + b) mod w" "b < w" for a b
  proof -
    have "w dvd (t + b) - (t + a)" using that by (subst mod_eq_dvd_iff_nat [symmetric]) simp_all
    then have "w dvd b - a" by simp
    moreover have "b - a < w" using that(3) by simp
    ultimately have "b - a = 0" by (metis nat_dvd_not_less gr0I)
    with that(1) show ?thesis by simp
  qed
  show ?thesis using *[of x d] *[of d x] assms by (cases "x \<le> d") auto
qed

lemma card_residue:
  fixes w t q k :: nat
  assumes "k < w" "t < w"
  shows "card {n. t \<le> n \<and> n < t + q * w \<and> n mod w = k} = q"
proof -
  define d where "d = (k + (w - t)) mod w"
  have d: "d < w" "(t + d) mod w = k"
    using assms by (simp_all add: d_def mod_add_right_eq)
  have "{n. t \<le> n \<and> n < t + q * w \<and> n mod w = k} = (\<lambda>j. t + d + j * w) ` {..<q}" (is "?A = ?B")
  proof (intro subset_antisym subsetI)
    fix n assume "n \<in> ?A"
    then have n: "t \<le> n" "n - t < q * w" "n mod w = k" by auto
    have "(t + (n - t) mod w) mod w = (t + d) mod w" using n d(2) by (simp add: mod_add_right_eq)
    moreover have "(n - t) mod w < w" using assms(2) by simp
    ultimately have "(n - t) mod w = d" using d(1) mod_cancel [of t "(n - t) mod w" w d] by blast
    moreover have "(n - t) div w < q" using n(2) by (simp add: less_mult_imp_div_less)
    ultimately show "n \<in> ?B"
      using n(1) by (intro image_eqI [of _ _ "(n - t) div w"]) (metis add.assoc add.commute le_add_diff_inverse mod_div_mult_eq, simp)
  next
    fix n assume "n \<in> ?B"
    then obtain j where j: "j < q" "n = t + d + j * w" by auto
    have "j * w + w \<le> q * w" using j(1) by (metis Suc_leI add.commute mult_Suc mult_le_mono1)
    with j d show "n \<in> ?A" by auto
  qed
  moreover have "inj_on (\<lambda>j. t + d + j * w) {..<q}" using assms by (auto simp: inj_on_def)
  ultimately show ?thesis by (simp add: card_image)
qed

lemma accepted_card:
  assumes "w \<noteq> 0" "k < w"
  shows "card {r. \<not> r < rejection_threshold w \<and> r mod w = k} = 2 ^ 64 div unat w"
proof -
  let ?W = "unat w" and ?t = "2 ^ 64 mod unat w"
  let ?S = "{n. ?t \<le> n \<and> n < ?t + (2 ^ 64 div ?W) * ?W \<and> n mod ?W = unat k}"
  have W: "0 < ?W" using assms(1) by (metis gr0I unat_eq_zero)
  have top: "?t + (2 ^ 64 div ?W) * ?W = 2 ^ 64" by (rule mod_div_mult_eq)
  have "{r. \<not> r < rejection_threshold w \<and> r mod w = k} = of_nat ` ?S" (is "?A = _")
  proof (intro subset_antisym subsetI)
    fix r assume "r \<in> ?A"
    then have "?t \<le> unat r" "unat r mod ?W = unat k" "unat r < 2 ^ 64"
      using unat_threshold [OF assms(1)] by (auto simp: word_less_nat_alt unat_mod)
    then have "unat r \<in> ?S" using top by simp
    then show "r \<in> of_nat ` ?S" by (rule rev_image_eqI) simp
  next
    fix r :: u64 assume "r \<in> of_nat ` ?S"
    then obtain n where n: "n \<in> ?S" "r = of_nat n" by blast
    then have "n < 2 ^ 64" using top by simp
    then have "unat r = n" using n(2) by (simp add: unsigned_of_nat take_bit_nat_eq_self)
    then show "r \<in> ?A" using n(1) unat_threshold [OF assms(1)] by (simp add: word_less_nat_alt word_unat_eq_iff unat_mod)
  qed
  moreover have "inj_on (of_nat :: nat \<Rightarrow> u64) ?S"
  proof (rule inj_onI)
    fix x y assume xy: "x \<in> ?S" "y \<in> ?S" and eq: "(of_nat x :: u64) = of_nat y"
    then have "x < 2 ^ 64" "y < 2 ^ 64" using top by simp_all
    with arg_cong [OF eq, of unat] show "x = y" by (simp add: unsigned_of_nat take_bit_nat_eq_self)
  qed
  moreover have "card ?S = 2 ^ 64 div ?W"
    using card_residue [of "unat k" ?W ?t "2 ^ 64 div ?W"] assms(2) W by (simp add: word_less_nat_alt)
  ultimately show ?thesis by (simp add: card_image)
qed

lemma steps_Suc: "steps (Suc n) st = steps n (snd (xoshiro256pp st))"
  by (simp add: steps_def funpow_Suc_right del: funpow.simps)

lemma draw_first_accepted:
  assumes "\<not> nth_output n st < t" "\<forall>m < n. nth_output m st < t"
  shows "draw t st = Some (nth_output n st, steps (Suc n) st)"
  using assms
proof (induction n arbitrary: st)
  case 0
  then show ?case by (subst draw.simps) (simp add: nth_output_def steps_def case_prod_beta)
next
  case (Suc n)
  have "fst (xoshiro256pp st) < t" using Suc.prems(2) by (force simp: nth_output_def steps_def)
  then have "draw t st = draw t (snd (xoshiro256pp st))" by (subst draw.simps) (simp add: case_prod_beta)
  moreover have "nth_output m (snd (xoshiro256pp st)) = nth_output (Suc m) st" for m
    by (simp add: nth_output_def steps_Suc)
  ultimately show ?case using Suc by (simp add: steps_Suc)
qed

section \<open>The properties\<close>

text \<open>
  C20: From every seed, the state is never the state of zeros that the generator could not leave: not after
  seeding, not after any number of steps.
\<close>
theorem generator_never_stuck: "\<not> zero_state (steps n (random_initialize seed))"
proof (induction n)
  case (Suc n)
  then show ?case using xoshiro_nonzero [of "steps n (random_initialize seed)"] by (auto simp: steps_def)
qed (simp add: steps_def initialize_nonzero)

text \<open>
  C19: A number in a range is drawn from the first output that is accepted, and every value of the range
  stands for the same number of accepted outputs; fewer outputs than the range has values are rejected, at most half of all.
\<close>
theorem range_is_uniform:
  assumes "first < past" "\<not> nth_output n st < rejection_threshold (past - first)"
    "list_all (\<lambda>m. nth_output m st < rejection_threshold (past - first)) [0..<n]"
    "first \<le> v" "v < past"
  shows "\<exists>r. generate_between first past st = Some (Inr (r, steps (Suc n) st)) \<and> first \<le> r \<and> r < past
      \<and> r = first + nth_output n st mod (past - first)
    \<and> card {x. \<not> x < rejection_threshold (past - first) \<and> first + x mod (past - first) = v} = 2 ^ 64 div unat (past - first)
    \<and> rejection_threshold (past - first) < past - first
    \<and> 2 * unat (rejection_threshold (past - first)) \<le> 2 ^ 64"
proof -
  let ?w = "past - first" and ?x = "nth_output n st"
  have w: "?w \<noteq> 0" using assms(1) by auto
  have uw: "unat ?w = unat past - unat first" using assms(1) by (simp add: unat_sub less_imp_le)
  have "draw (rejection_threshold ?w) st = Some (?x, steps (Suc n) st)"
    using assms(2,3) by (intro draw_first_accepted) (auto simp: list_all_iff)
  then have g: "generate_between first past st = Some (Inr (first + ?x mod ?w, steps (Suc n) st))"
    using assms(1) by (simp add: generate_between_def Let_def)
  have lt: "y mod ?w < ?w" for y using w by (simp add: word_less_nat_alt unat_mod word_unat_eq_iff)
  have "unat (first + y mod ?w) = unat first + unat (y mod ?w)" for y
  proof (rule unat_add_le_bound [of _ _ past])
    show "unat first + unat (y mod ?w) \<le> unat past"
      using lt [of y] uw assms(1) by (simp add: word_less_nat_alt)
  qed
  then have r: "first \<le> first + y mod ?w" "first + y mod ?w < past" for y
    using lt [of y] uw assms(1) by (simp_all add: word_le_nat_alt word_less_nat_alt)
  have "v - first < ?w"
    using assms(1,4,5) uw by (simp add: word_less_nat_alt unat_sub word_le_nat_alt)
  then have "card {x. \<not> x < rejection_threshold ?w \<and> x mod ?w = v - first} = 2 ^ 64 div unat ?w"
    by (rule accepted_card [OF w])
  moreover have "(first + x mod ?w = v) = (x mod ?w = v - first)" for x by (auto simp: algebra_simps)
  ultimately have c: "card {x. \<not> x < rejection_threshold ?w \<and> first + x mod ?w = v} = 2 ^ 64 div unat ?w" by simp
  have W: "0 < unat ?w" using w by (metis gr0I unat_eq_zero)
  have t: "unat (rejection_threshold ?w) = 2 ^ 64 mod unat ?w" by (rule unat_threshold [OF w])
  then have "rejection_threshold ?w < ?w" using W by (simp add: word_less_nat_alt)
  moreover have "2 * (2 ^ 64 mod unat ?w) \<le> 2 ^ 64"
  proof -
    have "unat ?w \<le> 2 ^ 64" by (simp add: less_imp_le)
    then have "1 \<le> 2 ^ 64 div unat ?w" using W by (simp add: Suc_le_eq div_greater_zero_iff)
    then have "unat ?w \<le> (2 ^ 64 div unat ?w) * unat ?w" by simp
    moreover have "2 ^ 64 mod unat ?w < unat ?w" using W by simp
    ultimately show ?thesis using div_mult_mod_eq [of "2 ^ 64" "unat ?w"] by linarith
  qed
  ultimately show ?thesis using g r t c by auto
qed

lemma range_is_uniform_witness:
  "\<exists>r. generate_between 1 7 (random_initialize 42) = Some (Inr (r, steps 1 (random_initialize 42))) \<and> 1 \<le> r \<and> r < 7"
proof -
  have "\<not> nth_output 0 (random_initialize 42) < rejection_threshold (7 - 1)" by code_simp
  with range_is_uniform [of 1 7 0 "random_initialize 42" 3] show ?thesis by auto
qed

end
