(* ===== verification/Format.thy ===== *)
theory Format
  imports Bits
begin

text \<open>
  \<^verbatim>\<open>kstd/format.hh\<close>: writing values and format strings to a backend. A backend is the record of its
  three operations on a state; a value is what the overloads of \<open>print_value\<close> tell apart, with
  arrays nested. Every function returns the number the code returns together with
  the backend's state. Floating-point values are left out.
\<close>

section \<open>Backends and values\<close>

record 'b backend =
  be_put_char :: "char \<Rightarrow> 'b \<Rightarrow> 'b outcome"
  be_append :: "string \<Rightarrow> 'b \<Rightarrow> 'b outcome"
  be_new_line :: "'b \<Rightarrow> 'b outcome"

record formatting_config =
  newline_after_each :: bool
  indent_spaces :: int

text \<open>
  A C string is \<open>None\<close> for the null pointer; an enumerator has the name \<^verbatim>\<open>enum_to_string\<close> gives it, which may be
  empty, and its underlying value. A value with a \<open>format\<close> method counts as the string it returns.
\<close>

datatype fmt_value =
    V_bool bool
  | V_char char
  | V_cstring "string option"
  | V_signed int
  | V_unsigned u64
  | V_pointer u64
  | V_string string
  | V_enum string fmt_value
  | V_array "fmt_value list"

text \<open>
  The counts are of type \<^verbatim>\<open>int\<close>: lengths are converted to 32 bits, and the sums wrap as the processor's additions do.
\<close>

type_synonym c_int = "32 word"

text \<open>The results of two writers in a row: the counts add up.\<close>

type_synonym 'b writer = "'b \<Rightarrow> (c_int \<times> 'b) outcome"

definition and_then :: "'b writer \<Rightarrow> 'b writer \<Rightarrow> 'b writer" where
  "and_then f g b = obind (f b) (\<lambda>(n, b). obind (g b) (\<lambda>(m, b). Inr (n + m, b)))"

definition emits :: "c_int \<Rightarrow> ('b \<Rightarrow> 'b outcome) \<Rightarrow> 'b writer" where
  "emits n f b = obind (f b) (\<lambda>b. Inr (n, b))"

definition nothing :: "'b writer" where "nothing b = Inr (0, b)"

fun put_chars :: "'b backend \<Rightarrow> string \<Rightarrow> 'b \<Rightarrow> 'b outcome" where
  "put_chars be [] b = Inr b"
| "put_chars be (c # cs) b = obind (be_put_char be c b) (put_chars be cs)"

section \<open>Numbers\<close>

definition write_string :: "'b backend \<Rightarrow> string \<Rightarrow> 'b writer" where
  "write_string be s = emits (of_nat (length s)) (put_chars be s)"

definition digit_char :: "nat \<Rightarrow> char" where "digit_char d = char_of (48 + d)"

text \<open>The digits a loop leaves in its buffer, the last one first.\<close>

function decimal_loop :: "u64 \<Rightarrow> string \<Rightarrow> string" where
  "decimal_loop value buf =
     (if 0 < value then decimal_loop (value div 10) (buf @ [digit_char (unat (value mod 10))]) else buf)"
  by pat_completeness auto
termination
proof (relation "measure (\<lambda>(value, buf). unat value)", simp)
  fix v :: u64 and buf :: string
  assume "0 < v"
  then have "0 < unat v" by (simp add: word_less_nat_alt)
  then show "((v div 10, buf @ [digit_char (unat (v mod 10))]), v, buf) \<in> measure (\<lambda>(value, buf). unat value)"
    by (simp add: unat_div)
qed

declare decimal_loop.simps [simp del]

definition write_unsigned :: "'b backend \<Rightarrow> u64 \<Rightarrow> 'b writer" where
  "write_unsigned be value =
     (if value = 0 then emits 1 (be_put_char be (CHR ''0''))
      else let buf = decimal_loop value [] in emits (of_nat (length buf)) (put_chars be (rev buf)))"

definition write_signed :: "'b backend \<Rightarrow> int \<Rightarrow> 'b writer" where
  "write_signed be value =
     (if value < 0 then
        and_then (emits 1 (be_put_char be (CHR ''-'')))
          (if value = - 9223372036854775807 - 1 then write_unsigned be 0x8000000000000000
           else write_unsigned be (word_of_int (- value)))
      else write_unsigned be (word_of_int value))"

definition hex_char :: "nat \<Rightarrow> char" where
  "hex_char nibble = (if nibble < 10 then char_of (48 + nibble) else char_of (97 + nibble - 10))"

function hex_loop :: "u64 \<Rightarrow> string \<Rightarrow> string" where
  "hex_loop value buf =
     (if 0 < value then hex_loop (drop_bit 4 value) (buf @ [hex_char (unat (value AND 0xF))]) else buf)"
  by pat_completeness auto
termination
proof (relation "measure (\<lambda>(value, buf). unat value)", simp)
  fix v :: u64 and buf :: string
  assume "0 < v"
  then have "0 < unat v" by (simp add: word_less_nat_alt)
  then show "((drop_bit 4 v, buf @ [hex_char (unat (v AND 0xF))]), v, buf) \<in> measure (\<lambda>(value, buf). unat value)"
    by (simp add: unat_drop_bit)
qed

declare hex_loop.simps [simp del]

definition write_hex :: "'b backend \<Rightarrow> u64 \<Rightarrow> 'b writer" where
  "write_hex be value =
     (if value = 0 then emits 1 (be_put_char be (CHR ''0''))
      else let buf = hex_loop value [] in emits (of_nat (length buf)) (put_chars be (rev buf)))"

definition write_pointer :: "'b backend \<Rightarrow> u64 \<Rightarrow> 'b writer" where
  "write_pointer be value = and_then (write_string be ''0x'') (write_hex be value)"

section \<open>Values\<close>

fun print_value :: "formatting_config \<Rightarrow> 'b backend \<Rightarrow> fmt_value \<Rightarrow> 'b writer"
  and print_elements :: "formatting_config \<Rightarrow> 'b backend \<Rightarrow> nat \<Rightarrow> nat \<Rightarrow> fmt_value list \<Rightarrow> 'b writer" where
  "print_value cfg be (V_bool value) = write_string be (if value then ''true'' else ''false'')"
| "print_value cfg be (V_char value) = emits 1 (be_put_char be value)"
| "print_value cfg be (V_cstring value) = write_string be (case value of None \<Rightarrow> ''(null)'' | Some s \<Rightarrow> s)"
| "print_value cfg be (V_signed value) = write_signed be value"
| "print_value cfg be (V_unsigned value) = write_unsigned be value"
| "print_value cfg be (V_pointer value) = write_pointer be value"
| "print_value cfg be (V_string s) = emits (of_nat (length s)) (put_chars be s)"
| "print_value cfg be (V_enum name underlying) =
     (if 0 < length name then emits (of_nat (length name)) (put_chars be name) else print_value cfg be underlying)"
| "print_value cfg be (V_array elements) =
     and_then (emits 1 (be_put_char be (CHR ''[''))) (and_then
       (if newline_after_each cfg \<and> 0 < length elements then emits 1 (be_new_line be) else nothing) (and_then
       (print_elements cfg be 0 (length elements) elements)
       (emits 1 (be_put_char be (CHR '']'')))))"
| "print_elements cfg be i sz [] = nothing"
| "print_elements cfg be i sz (element # elements) =
     and_then (if 0 < i \<and> \<not> newline_after_each cfg then emits 2 (put_chars be '', '') else nothing) (and_then
       (if newline_after_each cfg
        then emits (word_of_int (indent_spaces cfg)) (put_chars be (replicate (nat (indent_spaces cfg)) (CHR '' ''))) else nothing) (and_then
       (print_value cfg be element) (and_then
       (if newline_after_each cfg
        then and_then (if i + 1 < sz then emits 1 (be_put_char be (CHR '','')) else nothing) (emits 1 (be_new_line be))
        else nothing)
       (print_elements cfg be (Suc i) sz elements))))"

section \<open>Format strings\<close>

definition substring :: "string \<Rightarrow> nat \<Rightarrow> nat \<Rightarrow> string" where
  "substring s start stop = take (stop - start) (drop start s)"

definition write_literal :: "'b backend \<Rightarrow> string \<Rightarrow> 'b writer" where
  "write_literal be s = (if length s = 0 then nothing else emits (of_nat (length s)) (be_append be s))"

definition is_digit :: "char \<Rightarrow> bool" where
  "is_digit c \<longleftrightarrow> 48 \<le> (of_char c :: nat) \<and> (of_char c :: nat) \<le> 57"

text \<open>The index of a directive: the sum of its digits as a 64-bit \<open>ssize\<close>, and the cursor behind them.\<close>

function index_loop :: "string \<Rightarrow> nat \<Rightarrow> u64 \<Rightarrow> u64 \<times> nat" where
  "index_loop format cursor acc =
     (if cursor < length format \<and> is_digit (format ! cursor)
      then index_loop format (cursor + 1) (acc * 10 + of_nat (of_char (format ! cursor) - 48))
      else (acc, cursor))"
  by pat_completeness auto
termination by (relation "measure (\<lambda>(format, cursor, acc). length format - cursor)") auto

declare index_loop.simps [simp del]

lemma index_loop_mono: "cursor \<le> snd (index_loop format cursor acc)"
  by (induction format cursor acc rule: index_loop.induct) (subst index_loop.simps, auto)

text \<open>
  The argument a \<^verbatim>\<open>%\<close> selects when what follows it is at \<open>cursor\<close>: \<open>None\<close> for an empty insert.
\<close>

definition directive :: "string \<Rightarrow> nat \<Rightarrow> int \<Rightarrow> int option \<times> nat" where
  "directive format cursor implicit_index =
     (if cursor < length format \<and> is_digit (format ! cursor) then
        let (acc, stop) = index_loop format cursor 0
        in if acc = 0 then (if 2 \<le> stop - cursor then None else Some implicit_index, stop)
           else (Some (sint (acc - 1)), stop)
      else (Some implicit_index, cursor))"

lemma directive_mono: "cursor \<le> snd (directive format cursor implicit_index)"
  using index_loop_mono [of cursor format 0] by (auto simp: directive_def split: prod.splits)

definition print_arg_at :: "formatting_config \<Rightarrow> 'b backend \<Rightarrow> fmt_value list \<Rightarrow> int \<Rightarrow> 'b writer" where
  "print_arg_at cfg be args index =
     (if 0 \<le> index \<and> index < int (length args) then print_value cfg be (args ! nat index) else nothing)"

function print_loop ::
  "formatting_config \<Rightarrow> 'b backend \<Rightarrow> string \<Rightarrow> fmt_value list \<Rightarrow> nat \<Rightarrow> nat \<Rightarrow> int \<Rightarrow> 'b writer" where
  "print_loop cfg be format args cursor printed implicit_index =
     (if length format \<le> cursor then write_literal be (substring format printed cursor)
      else if format ! cursor \<noteq> CHR ''%'' then
        if of_char (format ! cursor) = (31 :: nat)
        then and_then (write_literal be (substring format printed cursor)) (and_then
          (emits 1 (be_put_char be (CHR ''%'')))
          (print_loop cfg be format args (cursor + 1) (cursor + 1) implicit_index))
        else print_loop cfg be format args (cursor + 1) printed implicit_index
      else and_then (write_literal be (substring format printed cursor))
       (if cursor + 1 < length format \<and> format ! (cursor + 1) = CHR ''%''
        then and_then (emits 1 (be_put_char be (CHR ''%'')))
          (print_loop cfg be format args (cursor + 2) (cursor + 2) implicit_index)
        else
          let (value, stop) = directive format (cursor + 1) implicit_index
          in case value of
               None \<Rightarrow> print_loop cfg be format args stop stop implicit_index
             | Some index \<Rightarrow>
                 if int (length args) \<le> index then (\<lambda>b. Inl ''format arg index out of range'')
                 else and_then (print_arg_at cfg be args index)
                   (print_loop cfg be format args stop stop (index + 1))))"
  by pat_completeness auto
termination
proof (relation "measure (\<lambda>(cfg, be, format, args, cursor, printed, implicit_index). length format - cursor)", goal_cases)
  case (5 cfg be format args cursor printed implicit_index x v stop)
  then show ?case using directive_mono [of "cursor + 1" format implicit_index]
    by (cases "directive format (cursor + 1) implicit_index") auto
next
  case (6 cfg be format args cursor printed implicit_index x v stop)
  then show ?case using directive_mono [of "cursor + 1" format implicit_index]
    by (cases "directive format (cursor + 1) implicit_index") auto
qed auto

declare print_loop.simps [simp del]

definition print_impl :: "formatting_config \<Rightarrow> 'b backend \<Rightarrow> string \<Rightarrow> fmt_value list \<Rightarrow> 'b writer" where
  "print_impl cfg be format args = print_loop cfg be format args 0 0 0"

definition println_impl :: "formatting_config \<Rightarrow> 'b backend \<Rightarrow> string \<Rightarrow> fmt_value list \<Rightarrow> 'b writer" where
  "println_impl cfg be format args = and_then (print_impl cfg be format args) (emits 1 (be_new_line be))"

end
