(* ===== verification/Format_Text.thy ===== *)
theory Format_Text
  imports Format "HOL-Library.Sublist"
begin

text \<open>
  What the formatting functions write, over any backend that keeps its text: the locale
  \<open>text_backend\<close> states what a backend promises, \<open>value_text\<close> and \<open>render\<close> what the text is.
\<close>

section \<open>Reference texts\<close>

fun decimal :: "nat \<Rightarrow> string" where
  "decimal n = (if n < 10 then [digit_char n] else decimal (n div 10) @ [digit_char (n mod 10)])"

fun hexadecimal :: "nat \<Rightarrow> string" where
  "hexadecimal n = (if n < 16 then [hex_char n] else hexadecimal (n div 16) @ [hex_char (n mod 16)])"

declare decimal.simps [simp del] hexadecimal.simps [simp del]

fun join :: "string \<Rightarrow> string list \<Rightarrow> string" where
  "join sep [] = []"
| "join sep [x] = x"
| "join sep (x # y # zs) = x @ sep @ join sep (y # zs)"

fun value_text :: "formatting_config \<Rightarrow> fmt_value \<Rightarrow> string" where
  "value_text cfg (V_bool b) = (if b then ''true'' else ''false'')"
| "value_text cfg (V_char c) = [c]"
| "value_text cfg (V_cstring s) = (case s of None \<Rightarrow> ''(null)'' | Some s \<Rightarrow> s)"
| "value_text cfg (V_signed n) = (if n < 0 then ''-'' @ decimal (nat (- n)) else decimal (nat n))"
| "value_text cfg (V_unsigned n) = decimal (unat n)"
| "value_text cfg (V_pointer p) = ''0x'' @ hexadecimal (unat p)"
| "value_text cfg (V_string s) = s"
| "value_text cfg (V_enum name n) = (if name = [] then value_text cfg n else name)"
| "value_text cfg (V_array vs) =
     (if newline_after_each cfg
      then if vs = [] then ''[]''
        else ''['' @ [CHR 10] @ join ('','' @ [CHR 10])
               (map (\<lambda>v. replicate (nat (indent_spaces cfg)) (CHR '' '') @ value_text cfg v) vs) @ [CHR 10] @ '']''
      else ''['' @ join '', '' (map (value_text cfg) vs) @ '']'')"

text \<open>The values the code can have: an \<open>s64\<close> has 64 bits.\<close>

fun value_ok :: "fmt_value \<Rightarrow> bool" where
  "value_ok (V_signed n) \<longleftrightarrow> - (2 ^ 63) \<le> n \<and> n < 2 ^ 63"
| "value_ok (V_enum name n) \<longleftrightarrow> value_ok n"
| "value_ok (V_array vs) \<longleftrightarrow> (\<forall>v \<in> set vs. value_ok v)"
| "value_ok _ \<longleftrightarrow> True"

definition digits_value :: "string \<Rightarrow> nat" where
  "digits_value ds = foldl (\<lambda>n c. 10 * n + (of_char c - 48)) 0 ds"

text \<open>
  The meaning of a format string by its documentation: \<^verbatim>\<open>%%\<close> and character 31 are a percent sign, two or more zeros an
  empty insert, a number the argument of that 1-based index, anything else the next argument.
\<close>

function render :: "formatting_config \<Rightarrow> fmt_value list \<Rightarrow> nat \<Rightarrow> string \<Rightarrow> string outcome" where
  "render cfg args i format =
     (case format of
        [] \<Rightarrow> Inr []
      | c # cs \<Rightarrow>
          if c \<noteq> CHR ''%''
          then obind (render cfg args i cs) (\<lambda>t. Inr ((if of_char c = (31 :: nat) then CHR ''%'' else c) # t))
          else if cs \<noteq> [] \<and> hd cs = CHR ''%''
          then obind (render cfg args i (tl cs)) (\<lambda>t. Inr (CHR ''%'' # t))
          else
            let ds = takeWhile is_digit cs; rest = dropWhile is_digit cs; n = digits_value ds in
            if n = 0 \<and> 2 \<le> length ds then render cfg args i rest
            else
              let k = (if n = 0 then i else n - 1) in
              if length args \<le> k then Inl ''format arg index out of range''
              else obind (render cfg args (k + 1) rest) (\<lambda>t. Inr (value_text cfg (args ! k) @ t)))"
  by pat_completeness auto
termination
  by (relation "measure (\<lambda>(cfg, args, i, format). length format)") (auto simp: le_imp_less_Suc length_dropWhile_le)

declare render.simps [simp del]

section \<open>Digits\<close>

lemma digit_char_facts:
  assumes "d < 10"
  shows "of_char (digit_char d) = 48 + d" "is_digit (digit_char d)"
  using assms by (auto simp: digit_char_def is_digit_def of_char_of take_bit_nat_eq_self)

lemma decimal_loop_decimal: "0 < v \<Longrightarrow> decimal_loop v buf = buf @ rev (decimal (unat v))"
proof (induction v buf rule: decimal_loop.induct)
  case (1 v buf)
  have d: "unat (v div 10) = unat v div 10" "unat (v mod 10) = unat v mod 10" by (simp_all add: unat_div unat_mod)
  show ?case
  proof (cases "0 < v div 10")
    case True
    then have "\<not> unat v < 10" using d(1) by (auto simp: word_less_nat_alt)
    then show ?thesis using 1 True d by (simp add: decimal_loop.simps [of v] decimal.simps [of "unat v"])
  next
    case False
    then have "v div 10 = 0" by (metis word_gt_0)
    then have "unat v < 10" using d(1) by (metis div_eq_0_iff unat_0 zero_neq_numeral)
    then show ?thesis using 1(2) \<open>v div 10 = 0\<close> d(2)
      by (simp add: decimal_loop.simps [of v] decimal_loop.simps [of 0] decimal.simps [of "unat v"])
  qed
qed

lemma hex_loop_hexadecimal: "0 < v \<Longrightarrow> hex_loop v buf = buf @ rev (hexadecimal (unat v))"
proof (induction v buf rule: hex_loop.induct)
  case (1 v buf)
  have "v AND 0xF = take_bit 4 v" by (simp only: take_bit_eq_mask mask_eq_exp_minus_1) simp
  then have d: "unat (drop_bit 4 v) = unat v div 16" "unat (v AND 0xF) = unat v mod 16"
    by (simp_all only: unat_drop_bit unsigned_take_bit_eq) (simp_all add: take_bit_eq_mod)
  show ?case
  proof (cases "0 < drop_bit 4 v")
    case True
    then have "\<not> unat v < 16" using d(1) by (auto simp: word_less_nat_alt)
    then show ?thesis using 1 True d by (simp add: hex_loop.simps [of v] hexadecimal.simps [of "unat v"])
  next
    case False
    then have z: "drop_bit 4 v = 0" by (metis word_gt_0)
    then have "unat v < 16" using d(1) by (metis div_eq_0_iff unat_0 zero_neq_numeral)
    then show ?thesis using 1(2) z d(2)
      by (simp add: hex_loop.simps [of v] hex_loop.simps [of 0] hexadecimal.simps [of "unat v"])
  qed
qed

lemma decimal_nonempty: "decimal n \<noteq> []"
  by (subst decimal.simps) simp

lemma decimal_digits: "c \<in> set (decimal n) \<Longrightarrow> is_digit c"
proof (induction n rule: decimal.induct)
  case (1 n)
  then show ?case by (subst (asm) (2) decimal.simps) (auto simp: digit_char_facts split: if_splits)
qed

lemma digits_value_append: "digits_value (ds @ [c]) = 10 * digits_value ds + (of_char c - 48)"
  by (simp add: digits_value_def)

lemma digits_value_decimal: "digits_value (decimal n) = n"
proof (induction n rule: decimal.induct)
  case (1 n)
  show ?case
  proof (cases "n < 10")
    case True
    then show ?thesis by (simp add: decimal.simps [of n] digits_value_def digit_char_facts)
  next
    case False
    then show ?thesis using 1 by (simp add: decimal.simps [of n] digits_value_append digit_char_facts)
  qed
qed

lemma decimal_length: "n < 10 ^ Suc k \<Longrightarrow> length (decimal n) \<le> Suc k"
proof (induction k arbitrary: n)
  case 0
  then show ?case by (simp add: decimal.simps)
next
  case (Suc k)
  then have "n div 10 < 10 ^ Suc k" by (simp add: div_less_iff_less_mult)
  then show ?case using Suc.IH [of "n div 10"] by (subst decimal.simps) simp
qed

section \<open>The elements of an array\<close>

definition element_indent :: "formatting_config \<Rightarrow> string" where
  "element_indent cfg = (if newline_after_each cfg then replicate (nat (indent_spaces cfg)) (CHR '' '') else [])"

fun elements_text :: "formatting_config \<Rightarrow> nat \<Rightarrow> nat \<Rightarrow> fmt_value list \<Rightarrow> string" where
  "elements_text cfg i sz [] = []"
| "elements_text cfg i sz (v # vs) =
     (if 0 < i \<and> \<not> newline_after_each cfg then '', '' else []) @ element_indent cfg @ value_text cfg v
     @ (if newline_after_each cfg then (if i + 1 < sz then '','' else []) @ [CHR 10] else [])
     @ elements_text cfg (Suc i) sz vs"

lemma join_Cons: "join sep (x # xs) = x @ (if xs = [] then [] else sep @ join sep xs)"
  by (cases xs) simp_all

lemma elements_text_lines:
  assumes "newline_after_each cfg" "i + length vs = sz" "vs \<noteq> []"
  shows "elements_text cfg i sz vs
    = join ('','' @ [CHR 10]) (map (\<lambda>v. element_indent cfg @ value_text cfg v) vs) @ [CHR 10]"
  using assms
proof (induction vs arbitrary: i)
  case (Cons v vs)
  then show ?case by (cases "vs = []") (auto simp: join_Cons)
qed simp

lemma elements_text_inline:
  assumes "\<not> newline_after_each cfg"
  shows "elements_text cfg i sz vs = (if 0 < i \<and> vs \<noteq> [] then '', '' else []) @ join '', '' (map (value_text cfg) vs)"
  using assms by (induction vs arbitrary: i) (auto simp: join_Cons element_indent_def)

lemma array_text:
  "value_text cfg (V_array vs) =
     ''['' @ (if newline_after_each cfg \<and> 0 < length vs then [CHR 10] else []) @ elements_text cfg 0 (length vs) vs @ '']''"
  by (cases "vs = []")
    (simp_all add: elements_text_lines elements_text_inline element_indent_def)

section \<open>Directives\<close>

text \<open>Indices of at most 18 digits: below, the sum stays far from the width of \<open>ssize\<close>.\<close>

definition short_numbers :: "string \<Rightarrow> bool" where
  "short_numbers format \<longleftrightarrow> (\<forall>i < length format. length (takeWhile is_digit (drop i format)) \<le> 18)"

lemma digits_value_bound: "\<forall>c \<in> set ds. is_digit c \<Longrightarrow> digits_value ds < 10 ^ length ds"
proof (induction ds rule: rev_induct)
  case (snoc c ds)
  then have "is_digit c" by simp
  then have "of_char c - 48 \<le> (9 :: nat)" unfolding is_digit_def by linarith
  then show ?case using snoc by (simp add: digits_value_append)
qed (simp add: digits_value_def)

lemma index_loop_digits:
  "index_loop format cursor (of_nat acc) =
     (of_nat (foldl (\<lambda>n c. 10 * n + (of_char c - 48)) acc (takeWhile is_digit (drop cursor format))),
      cursor + length (takeWhile is_digit (drop cursor format)))"
proof (induction "length format - cursor" arbitrary: cursor acc rule: less_induct)
  case less
  show ?case
  proof (cases "cursor < length format \<and> is_digit (format ! cursor)")
    case True
    then have d: "drop cursor format = format ! cursor # drop (Suc cursor) format" by (simp add: Cons_nth_drop_Suc)
    have "(of_nat acc :: u64) * 10 + of_nat (of_char (format ! cursor) - 48)
        = of_nat (10 * acc + (of_char (format ! cursor) - 48))" by simp
    moreover have "length format - Suc cursor < length format - cursor" using True by linarith
    ultimately show ?thesis
      using True less.hyps [of "Suc cursor" "10 * acc + (of_char (format ! cursor) - 48)"]
      by (simp add: index_loop.simps [of format cursor] d del: of_nat_add of_nat_mult)
  next
    case False
    then have "takeWhile is_digit (drop cursor format) = []"
      by (cases "cursor < length format") (simp_all add: Cons_nth_drop_Suc [symmetric])
    then show ?thesis using False by (subst index_loop.simps) auto
  qed
qed

lemma directive_digits:
  fixes format cursor
  defines "ds \<equiv> takeWhile is_digit (drop cursor format)"
  assumes "length ds \<le> 18"
  shows "directive format cursor (int i) =
    ((if digits_value ds = 0 \<and> 2 \<le> length ds then None
      else Some (int (if digits_value ds = 0 then i else digits_value ds - 1))), cursor + length ds)"
proof -
  have "\<forall>c \<in> set ds. is_digit c" unfolding ds_def by (meson set_takeWhileD)
  then have "digits_value ds < 10 ^ length ds" by (rule digits_value_bound)
  also have "\<dots> \<le> 10 ^ 18" using assms(2) by (intro power_increasing) simp_all
  finally have bound: "digits_value ds < 10 ^ 18" .
  have loop: "index_loop format cursor 0 = (of_nat (digits_value ds), cursor + length ds)"
    using index_loop_digits [of format cursor 0] by (simp add: ds_def digits_value_def)
  have u: "unat (of_nat (digits_value ds) :: u64) = digits_value ds"
    using bound by (simp add: unsigned_of_nat take_bit_nat_eq_self)
  then have z: "(of_nat (digits_value ds) :: u64) = 0 \<longleftrightarrow> digits_value ds = 0" by (simp add: word_unat_eq_iff)
  have "sint (of_nat (digits_value ds) - 1 :: u64) = int (digits_value ds - 1)" if "digits_value ds \<noteq> 0"
  proof -
    have "(of_nat (digits_value ds) - 1 :: u64) = of_nat (digits_value ds - 1)" using that by (simp add: of_nat_diff)
    then show ?thesis using bound by (simp add: signed_of_nat signed_take_bit_int_eq_self)
  qed
  moreover have "cursor < length format \<and> is_digit (format ! cursor) \<longleftrightarrow> ds \<noteq> []"
    unfolding ds_def by (cases "cursor < length format") (auto simp: Cons_nth_drop_Suc [symmetric])
  moreover have "ds = [] \<Longrightarrow> digits_value ds = 0" by (simp add: digits_value_def)
  ultimately show ?thesis using z by (auto simp: directive_def loop)
qed

section \<open>The interface of a backend\<close>

text \<open>
  \<open>good\<close> is the backend's invariant; \<open>ok\<close> tells that no text was lost so far. A backend may lose characters
  (when memory runs out) but must then say so for good.
\<close>

definition writes :: "('b \<Rightarrow> bool) \<Rightarrow> ('b \<Rightarrow> bool) \<Rightarrow> ('b \<Rightarrow> string) \<Rightarrow> 'b writer \<Rightarrow> string \<Rightarrow> bool" where
  "writes good ok content f s \<longleftrightarrow> (\<forall>b. good b \<longrightarrow>
     (\<exists>b' u. f b = Inr (of_nat (length s), b') \<and> good b' \<and> content b' = content b @ u \<and> subseq u s
        \<and> (ok b' \<longrightarrow> ok b \<and> u = s)))"

definition prints :: "('b \<Rightarrow> bool) \<Rightarrow> ('b \<Rightarrow> bool) \<Rightarrow> ('b \<Rightarrow> string) \<Rightarrow> 'b writer \<Rightarrow> string outcome \<Rightarrow> bool" where
  "prints good ok content f r \<longleftrightarrow>
     (case r of Inl msg \<Rightarrow> \<forall>b. good b \<longrightarrow> f b = Inl msg | Inr s \<Rightarrow> writes good ok content f s)"

locale text_backend =
  fixes be :: "'b backend"
    and good :: "'b \<Rightarrow> bool"
    and ok :: "'b \<Rightarrow> bool"
    and content :: "'b \<Rightarrow> string"
  assumes put_char: "good b \<Longrightarrow> \<exists>b' u. be_put_char be c b = Inr b' \<and> good b'
        \<and> content b' = content b @ u \<and> subseq u [c] \<and> (ok b' \<longrightarrow> ok b \<and> u = [c])"
    and append_text: "good b \<Longrightarrow> \<exists>b' u. be_append be s b = Inr b' \<and> good b'
        \<and> content b' = content b @ u \<and> subseq u s \<and> (ok b' \<longrightarrow> ok b \<and> u = s)"
    and new_line: "good b \<Longrightarrow> \<exists>b' u. be_new_line be b = Inr b' \<and> good b'
        \<and> content b' = content b @ u \<and> subseq u [CHR 10] \<and> (ok b' \<longrightarrow> ok b \<and> u = [CHR 10])"
begin

lemma put_chars_writes:
  "good b \<Longrightarrow> \<exists>b' u. put_chars be s b = Inr b' \<and> good b' \<and> content b' = content b @ u \<and> subseq u s
    \<and> (ok b' \<longrightarrow> ok b \<and> u = s)"
proof (induction s arbitrary: b)
  case (Cons c s)
  obtain b1 u where b1: "be_put_char be c b = Inr b1" "good b1" "content b1 = content b @ u" "subseq u [c]"
      "ok b1 \<longrightarrow> ok b \<and> u = [c]"
    using put_char [OF Cons.prems] by blast
  from Cons.IH [OF b1(2)] obtain b2 v where b2: "put_chars be s b1 = Inr b2" "good b2" "content b2 = content b1 @ v"
      "subseq v s" "ok b2 \<longrightarrow> ok b1 \<and> v = s" by blast
  have "subseq (u @ v) ([c] @ s)" using b1(4) b2(4) by (rule list_emb_append_mono)
  then show ?case using b1 b2 by (intro exI [of _ b2] exI [of _ "u @ v"]) simp
qed simp

lemma emits_chars: "n = of_nat (length s) \<Longrightarrow> writes good ok content (emits n (put_chars be s)) s"
  using put_chars_writes [of _ s] by (fastforce simp: writes_def emits_def)

lemma emits_char: "writes good ok content (emits 1 (be_put_char be c)) [c]"
  using put_char [of _ c] by (fastforce simp: writes_def emits_def)

lemma emits_new_line: "writes good ok content (emits 1 (be_new_line be)) [CHR 10]"
  using new_line by (fastforce simp: writes_def emits_def)

lemma write_literal_writes: "writes good ok content (write_literal be s) s"
  using append_text [of _ s] by (fastforce simp: writes_def emits_def write_literal_def nothing_def)

lemma nothing_writes: "writes good ok content nothing []"
  by (simp add: writes_def nothing_def)

lemma and_then_writes:
  assumes "writes good ok content f s" "writes good ok content g t"
  shows "writes good ok content (and_then f g) (s @ t)"
  unfolding writes_def
proof (intro allI impI)
  fix b assume "good b"
  then obtain b1 u where b1: "f b = Inr (of_nat (length s), b1)" "good b1" "content b1 = content b @ u" "subseq u s"
      "ok b1 \<longrightarrow> ok b \<and> u = s"
    using assms(1) unfolding writes_def by blast
  then obtain b2 v where b2: "g b1 = Inr (of_nat (length t), b2)" "good b2" "content b2 = content b1 @ v" "subseq v t"
      "ok b2 \<longrightarrow> ok b1 \<and> v = t"
    using assms(2) unfolding writes_def by blast
  have "and_then f g b = Inr (of_nat (length (s @ t)), b2)" using b1(1) b2(1) by (simp add: and_then_def)
  moreover have "subseq (u @ v) (s @ t)" using b1(4) b2(4) by (rule list_emb_append_mono)
  ultimately show "\<exists>b' u. and_then f g b = Inr (of_nat (length (s @ t)), b') \<and> good b' \<and> content b' = content b @ u
      \<and> subseq u (s @ t) \<and> (ok b' \<longrightarrow> ok b \<and> u = s @ t)"
    using b1 b2 by (intro exI [of _ b2] exI [of _ "u @ v"]) simp
qed

lemma and_then_prints:
  assumes f: "writes good ok content f s" and g: "prints good ok content g r"
  shows "prints good ok content (and_then f g) (obind r (\<lambda>t. Inr (s @ t)))"
proof (cases r)
  case (Inl msg)
  have "and_then f g b = Inl msg" if "good b" for b
  proof -
    obtain b1 where "f b = Inr (of_nat (length s), b1)" "good b1" using f \<open>good b\<close> unfolding writes_def by blast
    moreover from this have "g b1 = Inl msg" using g Inl by (simp add: prints_def)
    ultimately show ?thesis by (simp add: and_then_def)
  qed
  then show ?thesis by (simp add: prints_def Inl)
next
  case (Inr t)
  then show ?thesis using and_then_writes [OF f, of g t] g by (simp add: prints_def)
qed

lemma write_string_writes: "writes good ok content (write_string be s) s"
  unfolding write_string_def by (rule emits_chars) simp

lemma write_unsigned_writes: "writes good ok content (write_unsigned be v) (decimal (unat v))"
proof (cases "v = 0")
  case True
  have "decimal (unat (0 :: u64)) = [CHR ''0'']" by (simp add: decimal.simps digit_char_def) code_simp
  then show ?thesis using emits_char by (simp add: write_unsigned_def True)
next
  case False
  then have "rev (decimal_loop v []) = decimal (unat v)"
    by (simp add: decimal_loop_decimal word_gt_0)
  then show ?thesis using False emits_chars [of _ "decimal (unat v)"]
    by (simp add: write_unsigned_def) (metis length_rev)
qed

lemma write_hex_writes: "writes good ok content (write_hex be v) (hexadecimal (unat v))"
proof (cases "v = 0")
  case True
  have "hexadecimal (unat (0 :: u64)) = [CHR ''0'']" by (simp add: hexadecimal.simps hex_char_def) code_simp
  then show ?thesis using emits_char by (simp add: write_hex_def True)
next
  case False
  then have "rev (hex_loop v []) = hexadecimal (unat v)"
    by (simp add: hex_loop_hexadecimal word_gt_0)
  then show ?thesis using False emits_chars [of _ "hexadecimal (unat v)"]
    by (simp add: write_hex_def) (metis length_rev)
qed

lemma write_signed_writes:
  assumes "- (2 ^ 63) \<le> n" "n < 2 ^ 63"
  shows "writes good ok content (write_signed be n) (value_text cfg (V_signed n))"
proof -
  have u: "unat (word_of_int k :: u64) = nat k" if "0 \<le> k" "k < 2 ^ 64" for k
    using that by (simp add: unsigned_of_int take_bit_int_eq_self)
  have minimum: "unat (0x8000000000000000 :: u64) = nat 9223372036854775808" by simp
  show ?thesis
  proof (cases "n < 0")
    case True
    have "writes good ok content (if n = - 9223372036854775807 - 1 then write_unsigned be 0x8000000000000000
        else write_unsigned be (word_of_int (- n))) (decimal (nat (- n)))"
    proof (cases "n = - 9223372036854775807 - 1")
      case True
      then show ?thesis using write_unsigned_writes [of "0x8000000000000000"] minimum by simp
    next
      case False
      then show ?thesis using write_unsigned_writes [of "word_of_int (- n)"] u [of "- n"] assms \<open>n < 0\<close> by simp
    qed
    then show ?thesis using and_then_writes [OF emits_char [of "CHR ''-''"]] True by (simp add: write_signed_def)
  next
    case False
    then show ?thesis using write_unsigned_writes [of "word_of_int n"] u [of n] assms by (simp add: write_signed_def)
  qed
qed

lemma write_pointer_writes: "writes good ok content (write_pointer be p) (value_text cfg (V_pointer p))"
  using and_then_writes [OF write_string_writes [of "''0x''"] write_hex_writes [of p]] by (simp add: write_pointer_def)

lemma if_writes:
  "(c \<Longrightarrow> writes good ok content f s) \<Longrightarrow> (\<not> c \<Longrightarrow> writes good ok content g t) \<Longrightarrow>
   writes good ok content (if c then f else g) (if c then s else t)"
  by simp

lemma indent_writes:
  assumes "0 \<le> indent_spaces cfg"
  shows "writes good ok content (if newline_after_each cfg
     then emits (word_of_int (indent_spaces cfg)) (put_chars be (replicate (nat (indent_spaces cfg)) (CHR '' ''))) else nothing)
     (element_indent cfg)"
  unfolding element_indent_def using assms by (intro if_writes emits_chars nothing_writes) simp

lemma elements_write:
  assumes "0 \<le> indent_spaces cfg" "\<forall>v \<in> set vs. writes good ok content (print_value cfg be v) (value_text cfg v)"
  shows "writes good ok content (print_elements cfg be i sz vs) (elements_text cfg i sz vs)"
  using assms(2)
proof (induction vs arbitrary: i)
  case Nil
  then show ?case by (simp add: nothing_writes)
next
  case (Cons v vs)
  have "writes good ok content (print_value cfg be v) (value_text cfg v)" using Cons.prems by simp
  note parts = emits_chars [of 2 "'', ''"] emits_char emits_new_line nothing_writes indent_writes [OF assms(1)] this
    Cons.IH Cons.prems
  show ?case unfolding print_elements.simps elements_text.simps
    by (intro and_then_writes if_writes parts) (use Cons.prems in auto)
qed

lemma value_writes:
  assumes "0 \<le> indent_spaces cfg"
  shows "value_ok v \<Longrightarrow> writes good ok content (print_value cfg be v) (value_text cfg v)"
proof (induction v)
  case (V_bool b)
  then show ?case using write_string_writes by simp
next
  case (V_char c)
  then show ?case using emits_char by simp
next
  case (V_cstring s)
  then show ?case using write_string_writes by simp
next
  case (V_signed n)
  then show ?case using write_signed_writes by simp
next
  case (V_unsigned n)
  then show ?case using write_unsigned_writes by simp
next
  case (V_pointer p)
  then show ?case using write_pointer_writes [of p cfg] by (simp only: print_value.simps)
next
  case (V_string s)
  then show ?case using emits_chars by simp
next
  case (V_enum name n)
  then show ?case using emits_chars [of _ name] by simp
next
  case (V_array vs)
  then have "\<forall>v \<in> set vs. writes good ok content (print_value cfg be v) (value_text cfg v)" by simp
  note parts = emits_char [of "CHR ''[''"] emits_char emits_new_line nothing_writes elements_write [OF assms this]
  show ?case unfolding print_value.simps array_text append_assoc
    by (intro and_then_writes [where s = "''[''"] and_then_writes if_writes parts)
qed

lemma obind_assoc: "obind (obind r f) g = obind r (\<lambda>x. obind (f x) g)"
  by (cases r) simp_all

lemma prints_chain:
  assumes "writes good ok content f s" "prints good ok content g (obind r (\<lambda>t. Inr (u @ t)))"
    and "v = obind r (\<lambda>t. Inr (s @ u @ t))"
  shows "prints good ok content (and_then f g) v"
  using and_then_prints [OF assms(1,2)] assms(3) by (cases r) simp_all

lemma prints_chain2:
  assumes "writes good ok content f s" "writes good ok content f2 s2"
    and "prints good ok content g (obind r (\<lambda>t. Inr ([] @ t)))" "v = obind r (\<lambda>t. Inr (s @ s2 @ t))"
  shows "prints good ok content (and_then f (and_then f2 g)) v"
proof -
  have "prints good ok content (and_then f2 g) (obind r (\<lambda>t. Inr (s2 @ t)))"
    by (rule prints_chain [OF assms(2,3)]) simp
  then show ?thesis by (rule prints_chain [OF assms(1)]) (rule assms(4))
qed

lemma arg_writes:
  assumes "0 \<le> indent_spaces cfg" "\<forall>v \<in> set args. value_ok v" "k < length args"
  shows "writes good ok content (print_arg_at cfg be args (int k)) (value_text cfg (args ! k))"
  using value_writes [OF assms(1), of "args ! k"] assms(2,3) by (simp add: print_arg_at_def)

lemma print_loop_prints:
  assumes cfg: "0 \<le> indent_spaces cfg" and args: "\<forall>v \<in> set args. value_ok v" and short: "short_numbers format"
    and "printed \<le> cursor" "cursor \<le> length format"
  shows "prints good ok content (print_loop cfg be format args cursor printed (int i))
    (obind (render cfg args i (drop cursor format)) (\<lambda>t. Inr (substring format printed cursor @ t)))"
  using assms(4,5)
proof (induction "length format - cursor" arbitrary: cursor printed i rule: less_induct)
  case less
  note unfold = print_loop.simps [of cfg be format args cursor printed "int i"]
  have none: "substring format k k = []" for k by (simp add: substring_def)
  show ?case
  proof (cases "cursor < length format")
    case False
    then have "render cfg args i (drop cursor format) = Inr []" by (simp add: render.simps [of _ _ _ "[]"])
    then show ?thesis using write_literal_writes False unfolding unfold by (simp add: prints_def)
  next
    case True
    define c cs where "c = format ! cursor" and "cs = drop (Suc cursor) format"
    have d: "drop cursor format = c # cs" using True by (simp add: c_def cs_def Cons_nth_drop_Suc)
    note r = render.simps [of cfg args i "c # cs", simplified]
    have IH: "prints good ok content (print_loop cfg be format args k p (int j))
        (obind (render cfg args j (drop k format)) (\<lambda>t. Inr (substring format p k @ t)))"
      if "cursor < k" "p \<le> k" "k \<le> length format" for k p j
      using that True by (intro less.hyps) linarith+
    have IH': "prints good ok content (print_loop cfg be format args k k (int j))
        (obind (render cfg args j (drop k format)) (\<lambda>t. Inr ([] @ t)))"
      if "cursor < k" "k \<le> length format" for k j
      using IH [of k k j] that by (simp add: none)
    note lit = write_literal_writes [of "substring format printed cursor"]
    consider (plain) "c \<noteq> CHR ''%''" "of_char c \<noteq> (31 :: nat)" | (thirty_one) "c \<noteq> CHR ''%''" "of_char c = (31 :: nat)"
      | (escape) "c = CHR ''%''" "cs \<noteq> []" "hd cs = CHR ''%''"
      | (directive) "c = CHR ''%''" "cs = [] \<or> hd cs \<noteq> CHR ''%''" by blast
    then show ?thesis
    proof cases
      case plain
      have "substring format printed (Suc cursor) = substring format printed cursor @ [c]"
        using less.prems True by (simp add: substring_def c_def Suc_diff_le take_Suc_conv_app_nth)
      then show ?thesis using IH [of "Suc cursor" printed i] less.prems True plain unfolding d r
        by (simp add: unfold c_def cs_def obind_assoc)
    next
      case thirty_one
      have "prints good ok content (print_loop cfg be format args cursor printed (int i))
          (obind (obind (render cfg args i cs) (\<lambda>t. Inr (CHR ''%'' # t))) (\<lambda>t. Inr (substring format printed cursor @ t)))"
        using thirty_one True
        by (simp add: unfold c_def [symmetric])
          (rule prints_chain2 [OF lit emits_char IH' [of "Suc cursor" i]], auto simp: cs_def obind_assoc)
      then show ?thesis using thirty_one unfolding d r by simp
    next
      case escape
      then have e: "cursor + 1 < length format" "format ! (cursor + 1) = CHR ''%''" "tl cs = drop (cursor + 2) format"
        by (auto simp: cs_def hd_drop_conv_nth tl_drop simp flip: drop_Suc)
      have "prints good ok content (print_loop cfg be format args cursor printed (int i))
          (obind (obind (render cfg args i (tl cs)) (\<lambda>t. Inr (CHR ''%'' # t))) (\<lambda>t. Inr (substring format printed cursor @ t)))"
        using escape e True
        by (simp add: unfold c_def [symmetric])
          (rule prints_chain2 [OF lit emits_char IH' [of "Suc (Suc cursor)" i]], auto simp: obind_assoc)
      then show ?thesis using escape unfolding d r by simp
    next
      case directive
      define ds where "ds = takeWhile is_digit cs"
      define stop where "stop = cursor + 1 + length ds"
      define k where "k = (if digits_value ds = 0 then i else digits_value ds - 1)"
      have "length ds \<le> 18"
        using short True unfolding ds_def cs_def short_numbers_def by (cases "Suc cursor < length format") auto
      then have dir: "directive format (cursor + 1) (int i)
          = (if digits_value ds = 0 \<and> 2 \<le> length ds then None else Some (int k), stop)"
        using directive_digits [of "cursor + 1" format i] by (simp add: ds_def cs_def stop_def k_def)
      have rest: "dropWhile is_digit cs = drop stop format"
        by (simp add: ds_def stop_def cs_def dropWhile_eq_drop add.commute)
      have stop: "cursor < stop" "stop \<le> length format"
        using True length_takeWhile_le [of is_digit cs] by (auto simp: stop_def ds_def cs_def)
      have no_escape: "\<not> (cursor + 1 < length format \<and> format ! (cursor + 1) = CHR ''%'')"
        using directive(2) by (auto simp: cs_def hd_drop_conv_nth)
      have step: "print_loop cfg be format args cursor printed (int i) =
          and_then (write_literal be (substring format printed cursor))
           (if digits_value ds = 0 \<and> 2 \<le> length ds then print_loop cfg be format args stop stop (int i)
            else if length args \<le> k then (\<lambda>b. Inl ''format arg index out of range'')
            else and_then (print_arg_at cfg be args (int k)) (print_loop cfg be format args stop stop (int (k + 1))))"
        using True directive(1) unfolding unfold dir if_not_P [OF no_escape] by (auto simp: c_def add.commute)
      have render: "render cfg args i (drop cursor format) =
          (if digits_value ds = 0 \<and> 2 \<le> length ds then render cfg args i (drop stop format)
           else if length args \<le> k then Inl ''format arg index out of range''
           else obind (render cfg args (k + 1) (drop stop format)) (\<lambda>t. Inr (value_text cfg (args ! k) @ t)))"
        using directive unfolding d r by (auto simp: ds_def [symmetric] rest k_def Let_def)
      consider "digits_value ds = 0 \<and> 2 \<le> length ds" | "\<not> (digits_value ds = 0 \<and> 2 \<le> length ds)" "length args \<le> k"
        | "\<not> (digits_value ds = 0 \<and> 2 \<le> length ds)" "\<not> length args \<le> k" by blast
      then show ?thesis
      proof cases
        case 1
        show ?thesis unfolding step render if_P [OF 1] by (rule prints_chain [OF lit IH' [OF stop]]) simp
      next
        case 2
        have "prints good ok content (\<lambda>b. Inl ''format arg index out of range'') (Inl ''format arg index out of range'')"
          by (simp add: prints_def)
        from and_then_prints [OF lit this] show ?thesis
          unfolding step render if_not_P [OF 2(1)] if_P [OF 2(2)] by simp
      next
        case 3
        then have "k < length args" by simp
        show ?thesis unfolding step render if_not_P [OF 3(1)] if_not_P [OF 3(2)]
          by (rule prints_chain2 [OF lit arg_writes [OF cfg args \<open>k < length args\<close>] IH' [OF stop]])
            (simp_all add: obind_assoc)
      qed
    qed
  qed
qed

end

end
