(* ===== verification/String_Builder.thy ===== *)
theory String_Builder
  imports Format_Text Temporary
begin

text \<open>
  \<^verbatim>\<open>kstd/string_builder.hh\<close> and the owning operations of \<^verbatim>\<open>kstd/string.hh\<close>: a builder is its inline buffer
  and a chain of heap buffers, each the list of the characters it holds; the operations run on an
  allocator's \<open>proc\<close> and state. A builder is a backend for \<open>Format\<close>, which gives \<open>sprint\<close>.
  A string that was allocated is its address and its characters.
\<close>

definition STRING_BUILDER_BUFFER_SIZE :: nat where "STRING_BUILDER_BUFFER_SIZE = 512"
definition BUFFER_HEADER_SIZE :: nat where "BUFFER_HEADER_SIZE = 24"
definition INITIAL_DATA_SIZE :: nat where "INITIAL_DATA_SIZE = STRING_BUILDER_BUFFER_SIZE - BUFFER_HEADER_SIZE"

text \<open>The chain holds address, \<open>allocated\<close> and characters of each heap buffer; the last one is \<open>current_buffer\<close>.\<close>

record string_builder =
  sb_base :: string
  sb_chain :: "(u64 \<times> nat \<times> string) list"
  subsequent_buffer_size :: int
  sb_failed :: bool

definition builder_new :: "int \<Rightarrow> string_builder" where
  "builder_new buffer_size = \<lparr> sb_base = [], sb_chain = [],
     subsequent_buffer_size = (if 0 < buffer_size then buffer_size else int INITIAL_DATA_SIZE), sb_failed = False \<rparr>"

text \<open>\<open>length_max\<close> of the current buffer, and copying characters into it.\<close>

definition current_room :: "string_builder \<Rightarrow> nat" where
  "current_room sb =
     (if sb_chain sb = [] then INITIAL_DATA_SIZE - length (sb_base sb)
      else case last (sb_chain sb) of (buffer, cap, chars) \<Rightarrow> cap - length chars)"

definition copy_in :: "string \<Rightarrow> string_builder \<Rightarrow> string_builder" where
  "copy_in cs sb =
     (if sb_chain sb = [] then sb\<lparr> sb_base := sb_base sb @ cs \<rparr>
      else case last (sb_chain sb) of (buffer, cap, chars) \<Rightarrow>
        sb\<lparr> sb_chain := butlast (sb_chain sb) @ [(buffer, cap, chars @ cs)] \<rparr>)"

definition builder_expand :: "'s allocator_proc \<Rightarrow> string_builder \<times> 's \<Rightarrow> (bool \<times> string_builder \<times> 's) outcome" where
  "builder_expand proc = (\<lambda>(sb, s).
     let subsequent = (if 0 < subsequent_buffer_size sb then subsequent_buffer_size sb else int INITIAL_DATA_SIZE);
         block_size = int BUFFER_HEADER_SIZE + subsequent
     in obind (alloc proc block_size 8 s) (\<lambda>(allocation, s).
          if res_memory allocation = 0 then Inr (False, sb, s)
          else Inr (True, sb\<lparr> sb_chain := sb_chain sb @ [(res_memory allocation, nat subsequent, [])] \<rparr>, s)))"

function builder_append :: "'s allocator_proc \<Rightarrow> string \<Rightarrow> string_builder \<times> 's \<Rightarrow> (string_builder \<times> 's) outcome" where
  "builder_append proc bytes (sb, s) =
     (if bytes = [] then Inr (sb, s)
      else if 0 < current_room sb then
        builder_append proc (drop (current_room sb) bytes) (copy_in (take (current_room sb) bytes) sb, s)
      else
        obind (builder_expand proc (sb, s)) (\<lambda>(expanded, sb, s).
          if \<not> expanded then Inr (sb\<lparr> sb_failed := True \<rparr>, s)
          else kstd_assert (0 < current_room sb) ''String_Builder expand produced empty buffer''
            (builder_append proc (drop (current_room sb) bytes) (copy_in (take (current_room sb) bytes) sb, s))))"
  by pat_completeness auto
termination by (relation "measure (\<lambda>(proc, bytes, sb). length bytes)") auto

declare builder_append.simps [simp del]

definition builder_length :: "string_builder \<Rightarrow> int" where
  "builder_length sb = int (length (sb_base sb)) + (\<Sum>(buffer, cap, chars) \<leftarrow> sb_chain sb. int (length chars))"

text \<open>The characters of the whole chain, as the copying loops of \<open>to_string\<close> and \<open>to_c_string\<close> collect them.\<close>

definition builder_text :: "string_builder \<Rightarrow> string" where
  "builder_text sb = sb_base sb @ concat (map (\<lambda>(buffer, cap, chars). chars) (sb_chain sb))"

fun free_buffers_loop :: "'s allocator_proc \<Rightarrow> (u64 \<times> nat \<times> string) list \<Rightarrow> 's \<Rightarrow> 's outcome" where
  "free_buffers_loop proc [] s = Inr s"
| "free_buffers_loop proc ((buffer, cap, chars) # chain) s =
     obind (free_aligned proc buffer (int BUFFER_HEADER_SIZE + int cap) 8 s) (\<lambda>(ignored, s).
       free_buffers_loop proc chain s)"

definition free_buffers :: "'s allocator_proc \<Rightarrow> string_builder \<times> 's \<Rightarrow> (string_builder \<times> 's) outcome" where
  "free_buffers proc = (\<lambda>(sb, s).
     obind (free_buffers_loop proc (sb_chain sb) s) (\<lambda>s. Inr (sb\<lparr> sb_chain := [] \<rparr>, s)))"

definition builder_reset :: "'s allocator_proc \<Rightarrow> string_builder \<times> 's \<Rightarrow> (string_builder \<times> 's) outcome" where
  "builder_reset proc b =
     obind (free_buffers proc b) (\<lambda>(sb, s). Inr (sb\<lparr> sb_base := [], sb_failed := False \<rparr>, s))"

text \<open>\<open>destination\<close> is the \<open>proc\<close> of the allocator that the result is taken from.\<close>

definition builder_to_string ::
  "'s allocator_proc \<Rightarrow> 's allocator_proc \<Rightarrow> bool \<Rightarrow> string_builder \<times> 's \<Rightarrow> ((u64 \<times> string) \<times> string_builder \<times> 's) outcome" where
  "builder_to_string proc destination do_reset = (\<lambda>(sb, s).
     let count = builder_length sb in
     if count = 0 then
       if do_reset then obind (builder_reset proc (sb, s)) (\<lambda>b. Inr ((0, []), b)) else Inr ((0, []), sb, s)
     else
       obind (alloc destination count 1 s) (\<lambda>(allocation, s).
         kstd_assert (res_memory allocation \<noteq> 0) ''String_Builder::to_string allocation failed''
           (let out = (res_memory allocation, builder_text sb)
            in if do_reset then obind (builder_reset proc (sb, s)) (\<lambda>b. Inr (out, b)) else Inr (out, sb, s))))"

definition builder_to_c_string ::
  "'s allocator_proc \<Rightarrow> 's allocator_proc \<Rightarrow> bool \<Rightarrow> string_builder \<times> 's \<Rightarrow> ((u64 \<times> string) \<times> string_builder \<times> 's) outcome" where
  "builder_to_c_string proc destination do_reset = (\<lambda>(sb, s).
     obind (alloc destination (builder_length sb + 1) 1 s) (\<lambda>(allocation, s).
       kstd_assert (res_memory allocation \<noteq> 0) ''String_Builder::to_c_string allocation failed''
         (let out = (res_memory allocation, builder_text sb @ [CHR 0x00])
          in if do_reset then obind (builder_reset proc (sb, s)) (\<lambda>b. Inr (out, b)) else Inr (out, sb, s))))"

definition builder_backend :: "'s allocator_proc \<Rightarrow> (string_builder \<times> 's) backend" where
  "builder_backend proc = \<lparr> be_put_char = (\<lambda>c. builder_append proc [c]), be_append = builder_append proc,
     be_new_line = builder_append proc [CHR 10] \<rparr>"

text \<open>The builder of a \<open>sprint\<close> lives on the stack; its destructor frees the buffers.\<close>

definition sprint ::
  "formatting_config \<Rightarrow> 's allocator_proc \<Rightarrow> string \<Rightarrow> fmt_value list \<Rightarrow> 's \<Rightarrow> ((u64 \<times> string) \<times> 's) outcome" where
  "sprint cfg proc format args s =
     obind (print_impl cfg (builder_backend proc) format args (builder_new 0, s)) (\<lambda>(written, b).
     obind (builder_to_string proc proc True b) (\<lambda>(out, b).
     obind (free_buffers proc b) (\<lambda>(sb, s). Inr (out, s))))"

definition csprint ::
  "formatting_config \<Rightarrow> 's allocator_proc \<Rightarrow> string \<Rightarrow> fmt_value list \<Rightarrow> 's \<Rightarrow> ((u64 \<times> string) \<times> 's) outcome" where
  "csprint cfg proc format args s =
     obind (print_impl cfg (builder_backend proc) format args (builder_new 0, s)) (\<lambda>(written, b).
     obind (builder_to_c_string proc proc True b) (\<lambda>(out, b).
     obind (free_buffers proc b) (\<lambda>(sb, s). Inr (out, s))))"

section \<open>Strings that own their bytes\<close>

definition free_string :: "'s allocator_proc \<Rightarrow> u64 \<times> string \<Rightarrow> 's \<Rightarrow> 's outcome" where
  "free_string proc = (\<lambda>(data, chars) s.
     if data = 0 \<or> chars = [] then Inr s
     else obind (free_aligned proc data (int (length chars)) 1 s) (\<lambda>(ignored, s). Inr s))"

text \<open>A C string's size is found by its first zero.\<close>

definition free_c_string :: "'s allocator_proc \<Rightarrow> u64 \<times> string \<Rightarrow> 's \<Rightarrow> 's outcome" where
  "free_c_string proc = (\<lambda>(data, chars) s.
     if data = 0 then Inr s
     else obind (free_aligned proc data (int (length (takeWhile (\<lambda>c. c \<noteq> CHR 0x00) chars)) + 1) 1 s) (\<lambda>(ignored, s). Inr s))"

definition copy_string :: "'s allocator_proc \<Rightarrow> string \<Rightarrow> 's \<Rightarrow> ((u64 \<times> string) \<times> 's) outcome" where
  "copy_string proc chars s =
     (if chars = [] then Inr ((0, []), s)
      else obind (alloc proc (int (length chars)) 1 s) (\<lambda>(allocation, s).
        kstd_assert (res_memory allocation \<noteq> 0) ''copy_string allocation failed''
          (Inr ((res_memory allocation, chars), s))))"

end
