(* ===== verification/Sprint.thy ===== *)
theory Sprint
  imports String_Builder Buddy
begin

text \<open>
  String builders over any heap that looks its blocks up by pointer: a builder is a backend that keeps its
  text, its buffers are live blocks of the heap, and formatting into a new string leaves the heap
  with that string's block and nothing else added.
\<close>

section \<open>Builders on a heap\<close>

definition chain_pointers :: "string_builder \<Rightarrow> u64 list" where
  "chain_pointers sb = map fst (sb_chain sb)"

definition builder_ok :: "string_builder \<Rightarrow> bool" where
  "builder_ok sb \<longleftrightarrow> 0 < subsequent_buffer_size sb \<and> subsequent_buffer_size sb < 2 ^ 62
     \<and> length (sb_base sb) \<le> INITIAL_DATA_SIZE \<and> (\<forall>(p, n, cs) \<in> set (sb_chain sb). length cs \<le> n)"

text \<open>
  The heap holds the pointers \<open>L\<close>, at the places \<open>w\<close>, and the builder's buffers, each with room for its header and
  \<open>allocated\<close> characters.
\<close>

definition builder_holds ::
  "('s \<Rightarrow> u64 set \<Rightarrow> bool) \<Rightarrow> ('s \<Rightarrow> u64 \<Rightarrow> nat set) \<Rightarrow> u64 set \<Rightarrow> (u64 \<Rightarrow> nat set) \<Rightarrow> string_builder \<times> 's \<Rightarrow> bool" where
  "builder_holds heap_inv region_of L w = (\<lambda>(sb, s). builder_ok sb \<and> distinct (chain_pointers sb)
     \<and> L \<inter> set (chain_pointers sb) = {} \<and> heap_inv s (L \<union> set (chain_pointers sb)) \<and> (\<forall>p \<in> L. region_of s p = w p)
     \<and> (\<forall>(p, n, cs) \<in> set (sb_chain sb). {unat p ..< unat p + BUFFER_HEADER_SIZE + n} \<subseteq> region_of s p))"

lemma builder_holdsD:
  assumes "builder_holds heap_inv region_of L w (sb, s)"
  shows "builder_ok sb" "distinct (chain_pointers sb)" "L \<inter> set (chain_pointers sb) = {}"
    "heap_inv s (L \<union> set (chain_pointers sb))" "\<forall>p \<in> L. region_of s p = w p"
    "\<forall>(p, n, cs) \<in> set (sb_chain sb). {unat p ..< unat p + BUFFER_HEADER_SIZE + n} \<subseteq> region_of s p"
  using assms by (auto simp: builder_holds_def)

lemma copy_in_facts:
  assumes "length cs \<le> current_room sb"
  shows "builder_ok sb \<Longrightarrow> builder_ok (copy_in cs sb)" "chain_pointers (copy_in cs sb) = chain_pointers sb"
    "builder_text (copy_in cs sb) = builder_text sb @ cs" "sb_failed (copy_in cs sb) = sb_failed sb"
    "(\<lambda>(p, n, x). (p, n)) ` set (sb_chain (copy_in cs sb)) = (\<lambda>(p, n, x). (p, n)) ` set (sb_chain sb)"
proof -
  show "builder_ok sb \<Longrightarrow> builder_ok (copy_in cs sb)" "chain_pointers (copy_in cs sb) = chain_pointers sb"
      "builder_text (copy_in cs sb) = builder_text sb @ cs" "sb_failed (copy_in cs sb) = sb_failed sb"
      "(\<lambda>(p, n, x). (p, n)) ` set (sb_chain (copy_in cs sb)) = (\<lambda>(p, n, x). (p, n)) ` set (sb_chain sb)"
    using assms
    by (cases "sb_chain sb" rule: rev_cases;
        force simp: copy_in_def current_room_def builder_ok_def chain_pointers_def builder_text_def split: prod.splits)+
qed

lemma copy_in_holds:
  assumes "builder_holds heap_inv region_of L w (sb, s)" "length cs \<le> current_room sb"
  shows "builder_holds heap_inv region_of L w (copy_in cs sb, s)"
proof -
  note f = copy_in_facts [OF assms(2)]
  have "(p, n, x) \<in> set (sb_chain (copy_in cs sb)) \<Longrightarrow> \<exists>y. (p, n, y) \<in> set (sb_chain sb)" for p n x
    using f(5) by (force simp: image_iff set_eq_iff)
  then show ?thesis using assms(1) f by (fastforce simp: builder_holds_def)
qed

lemma builder_length_text: "builder_length sb = int (length (builder_text sb))"
proof -
  have "(\<Sum>(buffer, n, chars) \<leftarrow> chain. int (length chars)) = int (length (concat (map (\<lambda>(buffer, n, chars). chars) chain)))"
    for chain :: "(u64 \<times> nat \<times> string) list"
    by (induction chain) auto
  then show ?thesis by (simp add: builder_length_def builder_text_def)
qed

context sized_heap
begin

lemma expand_law:
  assumes holds: "builder_holds inv owned L w (sb, s)"
  shows "\<exists>expanded sb' s'. builder_expand proc (sb, s) = Inr (expanded, sb', s') \<and> builder_holds inv owned L w (sb', s')
    \<and> builder_text sb' = builder_text sb \<and> sb_failed sb' = sb_failed sb \<and> (expanded \<longrightarrow> 0 < current_room sb')"
proof -
  note h = builder_holdsD [OF holds]
  let ?L = "L \<union> set (chain_pointers sb)"
  have sub: "0 < subsequent_buffer_size sb" "subsequent_buffer_size sb < 2 ^ 62" using h(1) by (auto simp: builder_ok_def)
  let ?n = "int BUFFER_HEADER_SIZE + subsequent_buffer_size sb"
  have "?n < 2 ^ 63" "(8 :: int) < 2 ^ 63" using sub by (simp_all add: BUFFER_HEADER_SIZE_def)
  from alloc_spec [OF h(4) this] obtain r s' where r: "alloc proc ?n 8 s = Inr (r, s')"
    "if res_memory r = 0 then inv s' ?L
     else res_memory r \<notin> ?L \<and> inv s' (insert (res_memory r) ?L)
       \<and> {unat (res_memory r) ..< unat (res_memory r) + nat ?n} \<subseteq> owned s' (res_memory r)"
    "\<forall>p \<in> ?L. owned s' p = owned s p"
    by (auto split: if_splits)
  have kept: "\<forall>(p, n, cs) \<in> set (sb_chain sb). {unat p ..< unat p + BUFFER_HEADER_SIZE + n} \<subseteq> owned s' p"
  proof (rule ballI, clarify del: subsetI)
    fix p n cs assume m: "(p, n, cs) \<in> set (sb_chain sb)"
    then have "p \<in> ?L" by (force simp: chain_pointers_def)
    then have "owned s' p = owned s p" using r(3) by simp
    then show "{unat p ..< unat p + BUFFER_HEADER_SIZE + n} \<subseteq> owned s' p" using h(6) m by auto
  qed
  show ?thesis
  proof (cases "res_memory r = 0")
    case True
    then have "builder_holds inv owned L w (sb, s')" using h r kept by (simp add: builder_holds_def)
    then show ?thesis using sub True r(1) by (simp add: builder_expand_def ex_bool_eq)
  next
    case False
    let ?sb = "sb\<lparr> sb_chain := sb_chain sb @ [(res_memory r, nat (subsequent_buffer_size sb), [])] \<rparr>"
    have "nat ?n = BUFFER_HEADER_SIZE + nat (subsequent_buffer_size sb)" using sub by (simp add: nat_add_distrib)
    then have "builder_holds inv owned L w (?sb, s')"
      using h r kept False
      by (auto simp: builder_holds_def builder_ok_def chain_pointers_def add.assoc insert_commute Un_insert_right)
    moreover have "builder_text ?sb = builder_text sb" "0 < current_room ?sb"
      using sub by (simp_all add: builder_text_def current_room_def)
    ultimately show ?thesis using sub False r(1) by (simp add: builder_expand_def ex_bool_eq)
  qed
qed

lemma append_law:
  assumes "builder_holds inv owned L w (sb, s)"
  shows "\<exists>sb' s' u. builder_append proc bytes (sb, s) = Inr (sb', s') \<and> builder_holds inv owned L w (sb', s')
    \<and> builder_text sb' = builder_text sb @ u \<and> subseq u bytes \<and> (\<not> sb_failed sb' \<longrightarrow> \<not> sb_failed sb \<and> u = bytes)"
  using assms
proof (induction "length bytes" arbitrary: bytes sb s rule: less_induct)
  case less
  note unfold = builder_append.simps [of proc bytes sb s]
  have step: "\<exists>sb' s' u. builder_append proc (drop (current_room sb1) bytes) (copy_in (take (current_room sb1) bytes) sb1, s1)
        = Inr (sb', s') \<and> builder_holds inv owned L w (sb', s')
      \<and> builder_text sb' = builder_text sb1 @ u \<and> subseq u bytes \<and> (\<not> sb_failed sb' \<longrightarrow> \<not> sb_failed sb1 \<and> u = bytes)"
    if "builder_holds inv owned L w (sb1, s1)" "0 < current_room sb1" "bytes \<noteq> []" for sb1 s1
  proof -
    let ?k = "current_room sb1"
    have fits: "length (take ?k bytes) \<le> ?k" by simp
    have "length (drop ?k bytes) < length bytes" using that(2,3) by (cases bytes) simp_all
    from less.hyps [OF this copy_in_holds [OF that(1) fits]] obtain sb' s' v where v:
        "builder_append proc (drop ?k bytes) (copy_in (take ?k bytes) sb1, s1) = Inr (sb', s')"
        "builder_holds inv owned L w (sb', s')" "builder_text sb' = builder_text (copy_in (take ?k bytes) sb1) @ v"
        "subseq v (drop ?k bytes)" "\<not> sb_failed sb' \<longrightarrow> \<not> sb_failed (copy_in (take ?k bytes) sb1) \<and> v = drop ?k bytes"
      by blast
    have "subseq (take ?k bytes @ v) (take ?k bytes @ drop ?k bytes)" using v(4) by (rule list_emb_append_mono [OF subseq_order.refl])
    then have "subseq (take ?k bytes @ v) bytes" by simp
    then show ?thesis using v copy_in_facts(3,4) [OF fits]
      by (intro exI [of _ sb'] exI [of _ s'] exI [of _ "take ?k bytes @ v"]) auto
  qed
  show ?case
  proof (cases "bytes = [] \<or> 0 < current_room sb")
    case True
    then show ?thesis using step [OF less.prems] less.prems unfolding unfold by (cases "bytes = []") simp_all
  next
    case False
    obtain expanded sb1 s1 where e: "builder_expand proc (sb, s) = Inr (expanded, sb1, s1)"
      "builder_holds inv owned L w (sb1, s1)" "builder_text sb1 = builder_text sb" "sb_failed sb1 = sb_failed sb"
      "expanded \<longrightarrow> 0 < current_room sb1"
      using expand_law [OF less.prems] by blast
    show ?thesis
    proof (cases expanded)
      case True
      then show ?thesis using False e step [OF e(2)] unfolding unfold by simp
    next
      case not_expanded: False
      have "builder_holds inv owned L w (sb1\<lparr> sb_failed := True \<rparr>, s1)"
        using e(2) by (simp add: builder_holds_def builder_ok_def chain_pointers_def)
      moreover have "builder_text (sb1\<lparr> sb_failed := True \<rparr>) = builder_text sb @ []" using e(3) by (simp add: builder_text_def)
      ultimately show ?thesis using False not_expanded e(1) unfolding unfold
        by (intro exI [of _ "sb1\<lparr> sb_failed := True \<rparr>"] exI [of _ s1] exI [of _ "[]"]) simp
    qed
  qed
qed

end

sublocale sized_heap \<subseteq> builder: text_backend "builder_backend proc" "builder_holds inv owned L w"
    "\<lambda>b. \<not> sb_failed (fst b)" "\<lambda>b. builder_text (fst b)" for L w
proof unfold_locales
  fix b :: "string_builder \<times> 'a" and c :: char and str :: string
  obtain sb s where b: "b = (sb, s)" by (rule prod.exhaust)
  assume "builder_holds inv owned L w b"
  then have holds: "builder_holds inv owned L w (sb, s)" by (simp add: b)
  show "\<exists>b' u. be_put_char (builder_backend proc) c b = Inr b' \<and> builder_holds inv owned L w b'
      \<and> builder_text (fst b') = builder_text (fst b) @ u \<and> subseq u [c]
      \<and> (\<not> sb_failed (fst b') \<longrightarrow> \<not> sb_failed (fst b) \<and> u = [c])"
    using append_law [OF holds, of "[c]"] by (auto simp: builder_backend_def b)
  show "\<exists>b' u. be_append (builder_backend proc) str b = Inr b' \<and> builder_holds inv owned L w b'
      \<and> builder_text (fst b') = builder_text (fst b) @ u \<and> subseq u str
      \<and> (\<not> sb_failed (fst b') \<longrightarrow> \<not> sb_failed (fst b) \<and> u = str)"
    using append_law [OF holds, of str] by (auto simp: builder_backend_def b)
  show "\<exists>b' u. be_new_line (builder_backend proc) b = Inr b' \<and> builder_holds inv owned L w b'
      \<and> builder_text (fst b') = builder_text (fst b) @ u \<and> subseq u [CHR 10]
      \<and> (\<not> sb_failed (fst b') \<longrightarrow> \<not> sb_failed (fst b) \<and> u = [CHR 10])"
    using append_law [OF holds, of "[CHR 10]"] by (auto simp: builder_backend_def b)
qed

context sized_heap
begin

lemma free_buffers_loop_law:
  assumes "inv s (L \<union> set (map fst chain))" "distinct (map fst chain)" "L \<inter> set (map fst chain) = {}"
  shows "\<exists>s'. free_buffers_loop proc chain s = Inr s' \<and> inv s' L \<and> (\<forall>p \<in> L. owned s' p = owned s p)"
  using assms
proof (induction chain arbitrary: s)
  case (Cons buffer chain)
  obtain p n cs where b: "buffer = (p, n, cs)" by (cases buffer)
  let ?P = "insert p (L \<union> set (map fst chain))"
  have "inv s ?P" using Cons.prems(1) by (simp add: b)
  from free_sized_spec [OF this insertI1, of "int BUFFER_HEADER_SIZE + int n" 8] obtain s1 where
      s1: "free_aligned proc p (int BUFFER_HEADER_SIZE + int n) 8 s = Inr (Error_NONE, s1)"
        "inv s1 (?P - {p})" "\<forall>q \<in> ?P - {p}. owned s1 q = owned s q"
    by auto
  have "insert p (L \<union> set (map fst chain)) - {p} = L \<union> set (map fst chain)" using Cons.prems(2,3) by (auto simp: b)
  with s1 Cons.IH [of s1] Cons.prems(2,3) show ?case by (auto simp: b)
qed simp

lemma free_buffers_law:
  assumes "builder_holds inv owned L w (sb, s)"
  shows "\<exists>s'. free_buffers proc (sb, s) = Inr (sb\<lparr> sb_chain := [] \<rparr>, s') \<and> inv s' L \<and> (\<forall>p \<in> L. owned s' p = w p)"
  using free_buffers_loop_law [of s L "sb_chain sb"] builder_holdsD [OF assms]
  by (auto simp: free_buffers_def chain_pointers_def)

lemma builder_new_holds: "inv s L \<Longrightarrow> builder_holds inv owned L (owned s) (builder_new 0, s)"
  by (simp add: builder_holds_def builder_ok_def builder_new_def chain_pointers_def INITIAL_DATA_SIZE_def
      STRING_BUILDER_BUFFER_SIZE_def BUFFER_HEADER_SIZE_def)

lemma to_string_law:
  assumes holds: "builder_holds inv owned L w (sb, s)" and bound: "length (builder_text sb) < 2 ^ 63"
  shows "builder_to_string proc proc True (sb, s) = Inl ''String_Builder::to_string allocation failed''
      \<and> builder_text sb \<noteq> [] \<and> (\<exists>r s1. alloc proc (int (length (builder_text sb))) 1 s = Inr (r, s1) \<and> res_memory r = 0)
    \<or> (\<exists>p s'. builder_to_string proc proc True (sb, s) = Inr ((p, builder_text sb), builder_new (subsequent_buffer_size sb), s')
        \<and> (if builder_text sb = [] then p = 0 \<and> inv s' L
           else p \<notin> L \<and> inv s' (insert p L) \<and> {unat p ..< unat p + length (builder_text sb)} \<subseteq> owned s' p)
        \<and> (\<forall>q \<in> L. owned s' q = w q))"
proof -
  note h = builder_holdsD [OF holds]
  have new: "sb\<lparr> sb_chain := [], sb_base := [], sb_failed := False \<rparr> = builder_new (subsequent_buffer_size sb)"
    using h(1) by (simp add: builder_new_def builder_ok_def)
  show ?thesis
  proof (cases "builder_text sb = []")
    case True
    obtain s' where "free_buffers proc (sb, s) = Inr (sb\<lparr> sb_chain := [] \<rparr>, s')" "inv s' L" "\<forall>p \<in> L. owned s' p = w p"
      using free_buffers_law [OF holds] by blast
    then show ?thesis using True new by (simp add: builder_to_string_def builder_length_text builder_reset_def)
  next
    case False
    let ?n = "int (length (builder_text sb))" and ?P = "L \<union> set (chain_pointers sb)"
    have "?n < 2 ^ 63" "(1 :: int) < 2 ^ 63" using bound by simp_all
    from alloc_spec [OF h(4) this] obtain r s1 where r: "alloc proc ?n 1 s = Inr (r, s1)"
      "res_memory r \<noteq> 0 \<longrightarrow> res_memory r \<notin> ?P \<and> inv s1 (insert (res_memory r) ?P)
         \<and> {unat (res_memory r) ..< unat (res_memory r) + length (builder_text sb)} \<subseteq> owned s1 (res_memory r)"
      "\<forall>p \<in> ?P. owned s1 p = owned s p"
      by (auto split: if_splits)
    show ?thesis
    proof (cases "res_memory r = 0")
      case True
      then show ?thesis using False r(1) by (simp add: builder_to_string_def builder_length_text)
    next
      case nz: False
      have inv': "inv s1 (insert (res_memory r) L \<union> set (map fst (sb_chain sb)))"
        using r(2) nz by (simp add: chain_pointers_def)
      have disj: "insert (res_memory r) L \<inter> set (map fst (sb_chain sb)) = {}" "distinct (map fst (sb_chain sb))"
        using r(2) nz h(2,3) by (auto simp: chain_pointers_def)
      from free_buffers_loop_law [OF inv' disj(2,1)] obtain s2 where s2: "free_buffers_loop proc (sb_chain sb) s1 = Inr s2"
          "inv s2 (insert (res_memory r) L)" "\<forall>p \<in> insert (res_memory r) L. owned s2 p = owned s1 p" by blast
      have "\<forall>q \<in> L. owned s2 q = w q" using s2(3) r(3) h(5) by simp
      moreover have "builder_to_string proc proc True (sb, s)
          = Inr ((res_memory r, builder_text sb), builder_new (subsequent_buffer_size sb), s2)"
        using False nz r(1) s2(1) new
        by (simp add: builder_to_string_def builder_length_text builder_reset_def free_buffers_def)
      ultimately show ?thesis using False nz r(2) s2(2,3) by auto
    qed
  qed
qed

lemma sprint_law:
  assumes start: "inv s L" and cfg: "0 \<le> indent_spaces cfg" and args: "\<forall>v \<in> set args. value_ok v"
    and short: "short_numbers format" and r: "render cfg args 0 format = Inr t" and bound: "length t < 2 ^ 63"
  shows "\<exists>sb s1. print_impl cfg (builder_backend proc) format args (builder_new 0, s) = Inr (of_nat (length t), sb, s1) \<and>
    (sprint cfg proc format args s = Inl ''String_Builder::to_string allocation failed''
    \<or> (\<exists>p u s'. sprint cfg proc format args s = Inr ((p, u), s') \<and> subseq u t \<and> (\<not> sb_failed sb \<longrightarrow> u = t)
        \<and> (if u = [] then p = 0 \<and> inv s' L
           else p \<notin> L \<and> inv s' (insert p L) \<and> {unat p ..< unat p + length u} \<subseteq> owned s' p)
        \<and> (\<forall>q \<in> L. owned s' q = owned s q)))"
proof -
  note holds = builder_new_holds [OF start]
  have "prints (builder_holds inv owned L (owned s)) (\<lambda>b. \<not> sb_failed (fst b)) (\<lambda>b. builder_text (fst b))
      (print_loop cfg (builder_backend proc) format args 0 0 (int 0)) (obind (render cfg args 0 (drop 0 format)) (\<lambda>t. Inr (substring format 0 0 @ t)))"
    by (rule builder.print_loop_prints [OF cfg args short]) simp_all
  then have "writes (builder_holds inv owned L (owned s)) (\<lambda>b. \<not> sb_failed (fst b)) (\<lambda>b. builder_text (fst b))
      (print_impl cfg (builder_backend proc) format args) t"
    by (simp add: r prints_def print_impl_def substring_def)
  then obtain sb s1 u where p: "print_impl cfg (builder_backend proc) format args (builder_new 0, s)
        = Inr (of_nat (length t), sb, s1)" "builder_holds inv owned L (owned s) (sb, s1)" "builder_text sb = u" "subseq u t"
        "\<not> sb_failed sb \<longrightarrow> u = t"
    using holds by (fastforce simp: writes_def builder_text_def builder_new_def)
  have "length (builder_text sb) < 2 ^ 63" using list_emb_length [OF p(4)] bound p(3) by simp
  from to_string_law [OF p(2) this] show ?thesis
  proof (elim disjE exE conjE)
    fix q s2
    assume a: "builder_to_string proc proc True (sb, s1)
        = Inr ((q, builder_text sb), builder_new (subsequent_buffer_size sb), s2)"
      "if builder_text sb = [] then q = 0 \<and> inv s2 L
       else q \<notin> L \<and> inv s2 (insert q L) \<and> {unat q ..< unat q + length (builder_text sb)} \<subseteq> owned s2 q"
      "\<forall>p \<in> L. owned s2 p = owned s p"
    have "sprint cfg proc format args s = Inr ((q, u), s2)"
      using p(1,3) a(1) by (simp add: sprint_def free_buffers_def builder_new_def)
    then show ?thesis using a(2,3) p(1,3-5) by blast
  qed (use p(1) in \<open>simp add: sprint_def\<close>)
qed

end

section \<open>Builders on a heap with pages to spare\<close>

text \<open>
  The builder fills each buffer before it asks for the next, and notes a failure only when the \<open>K\<close> spare pages it
  started with are used up.
\<close>

definition frugal :: "('s \<Rightarrow> nat) \<Rightarrow> nat \<Rightarrow> string_builder \<times> 's \<Rightarrow> bool" where
  "frugal pages K = (\<lambda>(sb, s). subsequent_buffer_size sb = 488 \<and> current_room sb \<le> 488
     \<and> length (builder_text sb) + current_room sb = 488 * (length (sb_chain sb) + 1)
     \<and> K \<le> length (sb_chain sb) + pages s \<and> (sb_failed sb \<longrightarrow> 488 * (K + 1) \<le> length (builder_text sb)))"

lemma failed_fields [simp]: "current_room (sb\<lparr> sb_failed := x \<rparr>) = current_room sb" "builder_text (sb\<lparr> sb_failed := x \<rparr>) = builder_text sb"
  by (simp_all add: current_room_def builder_text_def)

lemma buffer_sizes: "INITIAL_DATA_SIZE = 488" "BUFFER_HEADER_SIZE = 24"
  by (simp_all add: INITIAL_DATA_SIZE_def STRING_BUILDER_BUFFER_SIZE_def BUFFER_HEADER_SIZE_def)

lemma copy_in_room:
  "length cs \<le> current_room sb \<Longrightarrow> current_room (copy_in cs sb) = current_room sb - length cs
    \<and> length (sb_chain (copy_in cs sb)) = length (sb_chain sb) \<and> subsequent_buffer_size (copy_in cs sb) = subsequent_buffer_size sb"
  by (cases "sb_chain sb" rule: rev_cases) (auto simp: copy_in_def current_room_def split: prod.splits)

lemma copy_in_frugal:
  assumes "frugal pages K (sb, s)" "length cs \<le> current_room sb"
  shows "frugal pages K (copy_in cs sb, s)"
  using assms copy_in_room [OF assms(2)] copy_in_facts(3,4) [OF assms(2)] by (auto simp: frugal_def)

lemma frugal_new: "frugal pages (pages s) (builder_new 0, s)"
  by (simp add: frugal_def builder_new_def current_room_def builder_text_def buffer_sizes)

lemma eight_power: "is_power_of_two 8" "is_power_of_two 1"
  by code_simp+

context paged_heap
begin

lemma expand_frugal:
  assumes holds: "builder_holds inv owned L w (sb, s)" and fr: "frugal pages K (sb, s)" and room: "current_room sb = 0"
    and run: "builder_expand proc (sb, s) = Inr (expanded, sb', s')"
  shows "if expanded then frugal pages K (sb', s') else sb' = sb \<and> K \<le> length (sb_chain sb)"
proof -
  note h = builder_holdsD [OF holds]
  have sub: "subsequent_buffer_size sb = 488" using fr by (simp add: frugal_def)
  obtain r s1 where a: "alloc proc 512 8 s = Inr (r, s1)" "0 < pages s \<longrightarrow> res_memory r \<noteq> 0 \<and> pages s \<le> pages s1 + 1"
  proof (cases "0 < pages s")
    case True
    with page_alloc [OF h(4) _ eight_power(1), of 512] that show thesis by auto
  next
    case False
    with alloc_spec [OF h(4), of 512 8] that show thesis by auto
  qed
  show ?thesis
  proof (cases "res_memory r = 0")
    case True
    then show ?thesis using a run sub fr by (auto simp: builder_expand_def buffer_sizes frugal_def)
  next
    case False
    have "pages s \<le> pages s1 + 1" using a(2) by (cases "pages s") auto
    then show ?thesis using False a run sub fr room
      by (auto simp: builder_expand_def buffer_sizes frugal_def current_room_def builder_text_def)
  qed
qed

lemma append_frugal:
  assumes "builder_holds inv owned L w (sb, s)" "frugal pages K (sb, s)" "builder_append proc bytes (sb, s) = Inr (sb', s')"
  shows "frugal pages K (sb', s')"
  using assms
proof (induction "length bytes" arbitrary: bytes sb s rule: less_induct)
  case less
  note unfold = builder_append.simps [of proc bytes sb s]
  have step: "frugal pages K (sb', s')"
    if "builder_holds inv owned L w (sb1, s1)" "frugal pages K (sb1, s1)" "0 < current_room sb1" "bytes \<noteq> []"
      "builder_append proc (drop (current_room sb1) bytes) (copy_in (take (current_room sb1) bytes) sb1, s1) = Inr (sb', s')" for sb1 s1
  proof -
    have fits: "length (take (current_room sb1) bytes) \<le> current_room sb1" by simp
    have "length (drop (current_room sb1) bytes) < length bytes" using that(3,4) by (cases bytes) simp_all
    from less.hyps [OF this copy_in_holds [OF that(1) fits] copy_in_frugal [OF that(2) fits] that(5)] show ?thesis .
  qed
  show ?case
  proof (cases "bytes = [] \<or> 0 < current_room sb")
    case True
    then show ?thesis using step [OF less.prems(1,2)] less.prems(2,3) unfolding unfold by (cases "bytes = []") simp_all
  next
    case False
    obtain expanded sb1 s1 where e: "builder_expand proc (sb, s) = Inr (expanded, sb1, s1)"
      "builder_holds inv owned L w (sb1, s1)" "expanded \<longrightarrow> 0 < current_room sb1"
      using expand_law [OF less.prems(1)] by blast
    have room: "current_room sb = 0" using False by simp
    note f = expand_frugal [OF less.prems(1,2) room e(1)]
    show ?thesis
    proof (cases expanded)
      case True
      then show ?thesis using False e f step [OF e(2)] less.prems(3) unfolding unfold by simp
    next
      case not_expanded: False
      then have "sb' = sb\<lparr> sb_failed := True \<rparr>" "K \<le> length (sb_chain sb)"
        using False e(1) f less.prems(3) unfolding unfold by auto
      then show ?thesis using less.prems(2) room
        by (simp add: frugal_def)
    qed
  qed
qed

end

sublocale paged_heap \<subseteq> frugal_builder: text_backend "builder_backend proc" "\<lambda>b. builder_holds inv owned L w b \<and> frugal pages K b"
    "\<lambda>b. \<not> sb_failed (fst b)" "\<lambda>b. builder_text (fst b)" for L w K
proof unfold_locales
  fix b :: "string_builder \<times> 'a" and c :: char and str :: string
  assume good: "builder_holds inv owned L w b \<and> frugal pages K b"
  obtain sb s where b: "b = (sb, s)" by (rule prod.exhaust)
  have append: "\<exists>b' u. builder_append proc bytes b = Inr b' \<and> (builder_holds inv owned L w b' \<and> frugal pages K b')
      \<and> builder_text (fst b') = builder_text (fst b) @ u \<and> subseq u bytes \<and> (\<not> sb_failed (fst b') \<longrightarrow> \<not> sb_failed (fst b) \<and> u = bytes)"
    for bytes
  proof -
    from append_law [of L w sb s bytes] good obtain sb' s' u where a: "builder_append proc bytes (sb, s) = Inr (sb', s')"
        "builder_holds inv owned L w (sb', s')" "builder_text sb' = builder_text sb @ u" "subseq u bytes"
        "\<not> sb_failed sb' \<longrightarrow> \<not> sb_failed sb \<and> u = bytes"
      unfolding b by blast
    moreover have "frugal pages K (sb', s')" using append_frugal [OF _ _ a(1)] good unfolding b by blast
    ultimately show ?thesis unfolding b by auto
  qed
  show "\<exists>b' u. be_put_char (builder_backend proc) c b = Inr b' \<and> (builder_holds inv owned L w b' \<and> frugal pages K b')
      \<and> builder_text (fst b') = builder_text (fst b) @ u \<and> subseq u [c]
      \<and> (\<not> sb_failed (fst b') \<longrightarrow> \<not> sb_failed (fst b) \<and> u = [c])"
    "\<exists>b' u. be_append (builder_backend proc) str b = Inr b' \<and> (builder_holds inv owned L w b' \<and> frugal pages K b')
      \<and> builder_text (fst b') = builder_text (fst b) @ u \<and> subseq u str
      \<and> (\<not> sb_failed (fst b') \<longrightarrow> \<not> sb_failed (fst b) \<and> u = str)"
    "\<exists>b' u. be_new_line (builder_backend proc) b = Inr b' \<and> (builder_holds inv owned L w b' \<and> frugal pages K b')
      \<and> builder_text (fst b') = builder_text (fst b) @ u \<and> subseq u [CHR 10]
      \<and> (\<not> sb_failed (fst b') \<longrightarrow> \<not> sb_failed (fst b) \<and> u = [CHR 10])"
    using append by (simp_all add: builder_backend_def)
qed

context paged_heap
begin

lemma sprint_succeeds:
  assumes start: "inv s L" and cfg: "0 \<le> indent_spaces cfg" and args: "\<forall>v \<in> set args. value_ok v"
    and short: "short_numbers format" and r: "render cfg args 0 format = Inr t"
    and size: "length t < 4064" and room: "length t div 488 < pages s"
  shows "\<exists>p s'. sprint cfg proc format args s = Inr ((p, t), s')"
proof -
  let ?good = "\<lambda>b. builder_holds inv owned L (owned s) b \<and> frugal pages (pages s) b"
  have start': "?good (builder_new 0, s)" using builder_new_holds [OF start] frugal_new [of pages s] by blast
  have "prints ?good (\<lambda>b. \<not> sb_failed (fst b)) (\<lambda>b. builder_text (fst b))
      (print_loop cfg (builder_backend proc) format args 0 0 (int 0)) (obind (render cfg args 0 (drop 0 format)) (\<lambda>t. Inr (substring format 0 0 @ t)))"
    by (rule frugal_builder.print_loop_prints [OF cfg args short]) simp_all
  then have "writes ?good (\<lambda>b. \<not> sb_failed (fst b)) (\<lambda>b. builder_text (fst b)) (print_impl cfg (builder_backend proc) format args) t"
    by (simp add: r prints_def print_impl_def substring_def)
  then obtain sb s1 u where p: "print_impl cfg (builder_backend proc) format args (builder_new 0, s)
        = Inr (of_nat (length t), sb, s1)" "?good (sb, s1)" "builder_text sb = u" "subseq u t"
        "\<not> sb_failed sb \<longrightarrow> u = t"
    using start' by (fastforce simp: writes_def builder_text_def builder_new_def)
  have fr: "current_room sb \<le> 488" "length u + current_room sb = 488 * (length (sb_chain sb) + 1)"
      "pages s \<le> length (sb_chain sb) + pages s1" "sb_failed sb \<longrightarrow> 488 * (pages s + 1) \<le> length u"
    using p(2,3) by (simp_all add: frugal_def)
  have "length u \<le> length t" by (rule list_emb_length [OF p(4)])
  moreover have n: "length t < 488 * pages s" using room by (simp add: div_less_iff_less_mult mult.commute)
  ultimately have "\<not> sb_failed sb" using fr(4) by (cases "sb_failed sb") simp_all
  then have u: "u = t" using p(5) by simp
  have "488 * length (sb_chain sb) \<le> length t" using fr(1,2) unfolding u by simp
  then have "length (sb_chain sb) < pages s" using n by linarith
  then have spare: "0 < pages s1" using fr(3) by linarith
  have holds: "builder_holds inv owned L (owned s) (sb, s1)" using p(2) by blast
  have "length (builder_text sb) < 2 ^ 63" using u p(3) size by simp
  from to_string_law [OF holds this] show ?thesis
  proof (elim disjE exE conjE)
    fix r s2 assume fail: "builder_text sb \<noteq> []" "alloc proc (int (length (builder_text sb))) 1 s1 = Inr (r, s2)" "res_memory r = 0"
    have "int (length (builder_text sb)) + 1 \<le> 4064" "0 < int (length (builder_text sb))" using u p(3) size fail(1) by simp_all
    with page_alloc [OF builder_holdsD(4) [OF holds] _ eight_power(2) _ spare] fail(2,3) show ?thesis by fastforce
  next
    fix q s2 assume "builder_to_string proc proc True (sb, s1)
        = Inr ((q, builder_text sb), builder_new (subsequent_buffer_size sb), s2)"
    then show ?thesis using p(1,3) u by (simp add: sprint_def free_buffers_def builder_new_def)
  qed
qed

end

section \<open>Properties\<close>

text \<open>
  C15: Formatting into a new string on the buddy heap, for any format and values: the count returned is the length
  of the text the format's documentation describes, as a C \<^verbatim>\<open>int\<close>; the string holds a subsequence of
  that text, all of it when the builder reports no failure, and lies in a block of its own; the builder's
  buffers are all given back, and every other live block stays where it was. A text that fits a page
  (with 32 bytes for the block's header) is returned whole if the heap has a page for it and one for each buffer of 488 characters
  that the text fills.
\<close>

theorem sprint_follows_documentation:
  assumes "buddy_holds M b L" "0 \<le> indent_spaces cfg" "\<forall>v \<in> set args. value_ok v" "short_numbers format"
    and "render cfg args 0 format = Inr t" "length t < 2 ^ 63"
  shows "(\<exists>sb s1. print_impl cfg (builder_backend buddy_proc) format args (builder_new 0, b) = Inr (of_nat (length t), sb, s1) \<and>
    (sprint cfg buddy_proc format args b = Inl ''String_Builder::to_string allocation failed''
    \<or> (\<exists>p u b'. sprint cfg buddy_proc format args b = Inr ((p, u), b') \<and> subseq u t \<and> (\<not> sb_failed sb \<longrightarrow> u = t)
        \<and> (if u = [] then p = 0 \<and> buddy_holds M b' L
           else p \<notin> L \<and> buddy_holds M b' (insert p L) \<and> {unat p ..< unat p + length u} \<subseteq> live_range b' p)
        \<and> (\<forall>q \<in> L. live_range b' q = live_range b q))))
    \<and> (length t < 4064 \<and> length t div 488 < card (free_bytes b) div 4096 \<longrightarrow>
        (\<exists>p b'. sprint cfg buddy_proc format args b = Inr ((p, t), b')))"
  using buddy.sprint_law [OF assms] buddy_pages.sprint_succeeds [OF assms(1-5)] by (simp add: spare_pages_def)

text \<open>\<^verbatim>\<open>"%2 then %1: %% %"\<close> with a number, a string and an array.\<close>

definition plain_config :: formatting_config where
  "plain_config = \<lparr> newline_after_each = False, indent_spaces = 4 \<rparr>"

definition sample_format :: string where "sample_format = ''%2 then %1: %% %''"
definition sample_args :: "fmt_value list" where
  "sample_args = [V_signed (- 42), V_string ''ab'', V_array [V_unsigned 7, V_bool True]]"

lemma sprint_follows_documentation_witness:
  "\<exists>p b'. sprint plain_config buddy_proc sample_format sample_args small_heap = Inr ((p, ''ab then -42: % ab''), b')"
proof -
  have r: "render plain_config sample_args 0 sample_format = Inr ''ab then -42: % ab''" by code_simp
  have holds: "buddy_holds {0x100000 ..< 0x102000} small_heap {}" using small_heap_inv by (simp add: buddy_holds_def)
  have ok: "\<forall>v \<in> set sample_args. value_ok v" "0 \<le> indent_spaces plain_config"
    by (simp_all add: sample_args_def plain_config_def)
  have "\<forall>i \<in> set [0 ..< length sample_format]. length (takeWhile is_digit (drop i sample_format)) \<le> 18"
    by code_simp
  then have short: "short_numbers sample_format" by (simp add: short_numbers_def)
  have "length ''ab then -42: % ab'' < 2 ^ 63" by simp
  from sprint_follows_documentation [OF holds ok(2,1) short r this] show ?thesis
    by (simp add: small_heap_inv)
qed

section \<open>Text that is lost\<close>

definition plain_char :: "char \<Rightarrow> bool" where
  "plain_char c \<longleftrightarrow> c \<noteq> CHR ''%'' \<and> of_char c \<noteq> (31 :: nat)"

lemma print_loop_plain:
  assumes "\<forall>c \<in> set format. plain_char c" "cursor \<le> length format"
  shows "print_loop cfg be format args cursor 0 i = write_literal be format"
  using assms(2)
proof (induction "length format - cursor" arbitrary: cursor)
  case 0
  then show ?case by (simp add: print_loop.simps [of _ _ _ _ cursor] substring_def)
next
  case (Suc n)
  then have "cursor < length format" by simp
  moreover from this have "plain_char (format ! cursor)" using assms(1) by simp
  ultimately show ?case using Suc.hyps(1) [of "cursor + 1"] Suc.hyps(2)
    by (simp add: print_loop.simps [of _ _ _ _ cursor] plain_char_def)
qed

text \<open>
  Lost text goes unnoticed. When the allocator has room for the 488 characters of the inline buffer but not for
  another buffer (512 bytes with its header), the builder notes the failure in \<^verbatim>\<open>failed\<close>, which nothing
  reads, and \<^verbatim>\<open>sprint\<close> returns the first 488 characters as if they were all.
\<close>

theorem sprint_truncates_silently:
  assumes "\<forall>c \<in> set format. plain_char c" "488 < length format"
    and "alloc proc 512 8 s = Inr (r, s)" "res_memory r = 0"
    and "alloc proc 488 1 s = Inr (r', s')" "res_memory r' \<noteq> 0"
  shows "sprint cfg proc format args s = Inr ((res_memory r', take 488 format), s')"
proof -
  have sizes: "INITIAL_DATA_SIZE = 488" "BUFFER_HEADER_SIZE = 24"
    by (simp_all add: INITIAL_DATA_SIZE_def STRING_BUILDER_BUFFER_SIZE_def BUFFER_HEADER_SIZE_def)
  define full where "full = (builder_new 0)\<lparr> sb_base := take 488 format \<rparr>"
  have ne: "format \<noteq> []" "drop 488 format \<noteq> []" using assms(2) by auto
  have "current_room (builder_new 0) = 488" "copy_in (take 488 format) (builder_new 0) = full"
    by (simp_all add: current_room_def copy_in_def builder_new_def full_def sizes)
  then have "builder_append proc format (builder_new 0, s) = builder_append proc (drop 488 format) (full, s)"
    using ne by (simp add: builder_append.simps [of _ format])
  moreover have "current_room full = 0" using assms(2) by (simp add: current_room_def full_def builder_new_def sizes)
  moreover have "builder_expand proc (full, s) = Inr (False, full, s)"
    using assms(3,4) by (simp add: builder_expand_def full_def builder_new_def sizes)
  ultimately have "builder_append proc format (builder_new 0, s) = Inr (full\<lparr> sb_failed := True \<rparr>, s)"
    using ne by (simp add: builder_append.simps [of _ "drop 488 format"])
  then have "print_impl cfg (builder_backend proc) format args (builder_new 0, s)
      = Inr (of_nat (length format), full\<lparr> sb_failed := True \<rparr>, s)"
    using print_loop_plain [OF assms(1), of 0 cfg "builder_backend proc" args 0] ne
    by (simp add: print_impl_def write_literal_def emits_def builder_backend_def)
  moreover have "builder_length (full\<lparr> sb_failed := True \<rparr>) = 488" "builder_text (full\<lparr> sb_failed := True \<rparr>) = take 488 format"
    using assms(2) by (simp_all add: builder_length_text) (simp_all add: builder_text_def full_def builder_new_def)
  ultimately show ?thesis using assms(5,6)
    by (simp add: sprint_def builder_to_string_def builder_reset_def free_buffers_def full_def builder_new_def)
qed

text \<open>Temporary storage of 500 bytes without a backing allocator, and a text of 600 characters.\<close>

lemma sprint_truncates_silently_witness:
  "\<exists>s'. sprint plain_config (temporary_proc None) (replicate 600 (CHR ''x'')) [] (temporary_over 0x10000 500, ())
    = Inr ((0x10000, replicate 488 (CHR ''x'')), s')"
proof -
  let ?s = "(temporary_over 0x10000 500, ())"
  have fails: "alloc (temporary_proc None) 512 8 ?s = Inr (result 0 OUT_OF_MEMORY, ?s)" by code_simp
  have "map_sum id fst (alloc (temporary_proc None) 488 1 ?s) = Inr (result 0x10000 Error_NONE)" by code_simp
  then obtain s' where ok: "alloc (temporary_proc None) 488 1 ?s = Inr (result 0x10000 Error_NONE, s')"
    by (cases "alloc (temporary_proc None) 488 1 ?s") auto
  have "\<forall>c \<in> set (replicate 600 (CHR ''x'')). plain_char c" by (simp add: plain_char_def)
  moreover have "488 < length (replicate 600 (CHR ''x''))" by simp
  ultimately have "sprint plain_config (temporary_proc None) (replicate 600 (CHR ''x'')) [] ?s
      = Inr ((0x10000, take 488 (replicate 600 (CHR ''x''))), s')"
    using sprint_truncates_silently [OF _ _ fails _ ok, of "replicate 600 (CHR ''x'')" plain_config "[]"] by simp
  then show ?thesis by (intro exI [of _ s']) simp
qed

section \<open>Indices\<close>

text \<open>A backend that keeps its text and never fails.\<close>

definition buffer_backend :: "string backend" where
  "buffer_backend = \<lparr> be_put_char = (\<lambda>c b. Inr (b @ [c])), be_append = (\<lambda>s b. Inr (b @ s)), be_new_line = (\<lambda>b. Inr (b @ [CHR 10])) \<rparr>"

interpretation buffer: text_backend buffer_backend "\<lambda>_. True" "\<lambda>_. True" id
  by unfold_locales (auto simp: buffer_backend_def)

text \<open>
  An index beyond the width of \<^verbatim>\<open>ssize\<close> is not refused. The digits are summed without a check:
  \<^verbatim>\<open>%18446744073709551617\<close> wraps round to \<^verbatim>\<open>%1\<close> and prints the first argument, and
  \<^verbatim>\<open>%9223372036854775809\<close> wraps to a negative index and prints nothing, while any other index
  without an argument fails an assertion.
\<close>

theorem huge_index_wraps:
  "print_impl plain_config buffer_backend ''%18446744073709551617'' [V_char c] [] = Inr (1, [c])
   \<and> print_impl plain_config buffer_backend ''%9223372036854775809'' [V_char c] [] = Inr (0, [])
   \<and> print_impl plain_config buffer_backend ''%2'' [V_char c] [] = Inl ''format arg index out of range''"
  by (intro conjI; code_simp)

section \<open>Numbers\<close>

lemma numbers_read_back_parts:
  "\<exists>s. write_unsigned buffer_backend v [] = Inr (of_nat (length s), s) \<and> digits_value s = unat v \<and> length s \<le> 20
     \<and> list_all is_digit s \<and> length (decimal_loop v []) \<le> 20"
  "\<exists>s. write_signed buffer_backend (sint (w :: u64)) [] = Inr (of_nat (length s), s) \<and> length s \<le> 21
     \<and> sint w = (if s \<noteq> [] \<and> hd s = CHR ''-'' then - int (digits_value (tl s)) else int (digits_value s))"
proof -
  have w: "\<exists>b'. f b = Inr (of_nat (length s), b') \<and> b' = b @ s"
    if "writes (\<lambda>_. True) (\<lambda>_. True) id f s" for f s b
    using that by (auto simp: writes_def)
  have len: "length (decimal (unat x)) \<le> 20" for x :: u64
    using decimal_length [of "unat x" 19] unat_lt_pow64 [of x] by (simp del: unat_lt_pow64)
  have "length (decimal_loop v []) \<le> 20"
    using len [of v] by (cases "v = 0") (simp_all add: decimal_loop_decimal decimal_loop.simps [of 0] word_gt_0)
  then show "\<exists>s. write_unsigned buffer_backend v [] = Inr (of_nat (length s), s) \<and> digits_value s = unat v \<and> length s \<le> 20
      \<and> list_all is_digit s \<and> length (decimal_loop v []) \<le> 20"
    using w [OF buffer.write_unsigned_writes, of v "[]"] len [of v] by (auto simp: digits_value_decimal list_all_iff dest: decimal_digits)
  show "\<exists>s. write_signed buffer_backend (sint w) [] = Inr (of_nat (length s), s) \<and> length s \<le> 21
     \<and> sint w = (if s \<noteq> [] \<and> hd s = CHR ''-'' then - int (digits_value (tl s)) else int (digits_value s))"
  proof -
    let ?t = "value_text plain_config (V_signed (sint w))"
    have range: "- (2 ^ 63) \<le> sint w" "sint w < 2 ^ 63" using sint_ge [of w] sint_lt [of w] by simp_all
    have small: "length (decimal n) \<le> 20" if "n \<le> 2 ^ 63" for n
      using decimal_length [of n 19] that by simp
    have hd: "hd (decimal n) \<noteq> CHR ''-''" for n
      using decimal_digits [of "hd (decimal n)" n] decimal_nonempty [of n] hd_in_set [of "decimal n"]
      by (auto simp: is_digit_def)
    have "length (decimal (nat (- sint w))) \<le> 20" "length (decimal (nat (sint w))) \<le> 20"
      using range by (auto intro!: small simp: nat_le_iff)
    then have "length ?t \<le> 21" by simp
    moreover have "sint w = (if ?t \<noteq> [] \<and> hd ?t = CHR ''-'' then - int (digits_value (tl ?t)) else int (digits_value ?t))"
      using hd decimal_nonempty by (simp add: digits_value_decimal)
    moreover have "write_signed buffer_backend (sint w) [] = Inr (of_nat (length ?t), ?t)"
      using w [OF buffer.write_signed_writes [OF range], of "[]" plain_config] by (elim exE conjE) (simp only: append_Nil)
    ultimately show ?thesis by (intro exI [of _ ?t] conjI)
  qed
qed

text \<open>
  C16: A printed number reads back: \<^verbatim>\<open>write_unsigned\<close> and \<^verbatim>\<open>write_signed\<close> write decimal digits (after a minus sign) whose
  value is the number, for every 64-bit value including the smallest signed one, and they never
  fill their buffer of 20 digits beyond its end.
\<close>

theorem numbers_read_back:
  "(\<exists>s. write_unsigned buffer_backend v [] = Inr (of_nat (length s), s) \<and> digits_value s = unat v \<and> length s \<le> 20
     \<and> list_all is_digit s \<and> length (decimal_loop v []) \<le> 20) \<and>
   (\<exists>s. write_signed buffer_backend (sint (w :: u64)) [] = Inr (of_nat (length s), s) \<and> length s \<le> 21
     \<and> sint w = (if s \<noteq> [] \<and> hd s = CHR ''-'' then - int (digits_value (tl s)) else int (digits_value s)))"
  by (intro conjI numbers_read_back_parts)

end
