(* ===== verification/Grid3.thy ===== *)
theory Grid3
  imports Prelude
begin

text \<open>
  \<^verbatim>\<open>kstd/math/grid3.hh\<close>: a grid of rows, columns and layers over one array, whose \<open>operator[]\<close>
  asserts its index. Sizes and coordinates are \<^verbatim>\<open>ssize\<close> values, modelled as \<open>int\<close>. A skip
  predicate reads a grid that may be the one being changed, so it is applied to the current
  state of the operation.
\<close>

record 'a grid3 =
  backing_array :: "'a list"
  default_value :: 'a
  rows :: int
  cols :: int
  layers :: int
  cells_in_layer :: int

definition array_at :: "'a list \<Rightarrow> int \<Rightarrow> 'a outcome" where
  "array_at xs i = kstd_assert (0 \<le> i \<and> i < int (List.length xs)) ''index out of bounds'' (Inr (xs ! nat i))"

definition array_put :: "'a list \<Rightarrow> int \<Rightarrow> 'a \<Rightarrow> 'a list outcome" where
  "array_put xs i v =
     kstd_assert (0 \<le> i \<and> i < int (List.length xs)) ''index out of bounds'' (Inr (xs[nat i := v]))"

definition grid3_new :: "int \<Rightarrow> int \<Rightarrow> int \<Rightarrow> 'a \<Rightarrow> 'a grid3" where
  "grid3_new r c l dflt = \<lparr> backing_array = replicate (nat (r * c * l)) dflt, default_value = dflt,
     rows = r, cols = c, layers = l, cells_in_layer = r * c \<rparr>"

definition backing_array_index_for :: "'a grid3 \<Rightarrow> int \<Rightarrow> int \<Rightarrow> int \<Rightarrow> int" where
  "backing_array_index_for g row col layer = cells_in_layer g * layer + row * cols g + col"

definition grid_at :: "'a grid3 \<Rightarrow> int \<Rightarrow> int \<Rightarrow> int \<Rightarrow> 'a outcome" where
  "grid_at g row col layer = array_at (backing_array g) (backing_array_index_for g row col layer)"

definition grid_set :: "'a grid3 \<Rightarrow> int \<Rightarrow> int \<Rightarrow> int \<Rightarrow> 'a \<Rightarrow> 'a grid3 outcome" where
  "grid_set g row col layer v =
     obind (array_put (backing_array g) (backing_array_index_for g row col layer) v) (\<lambda>xs.
       Inr (g\<lparr> backing_array := xs \<rparr>))"

definition grid_clear :: "'a grid3 \<Rightarrow> int \<Rightarrow> int \<Rightarrow> int \<Rightarrow> 'a grid3 outcome" where
  "grid_clear g row col layer = grid_set g row col layer (default_value g)"

definition grid_move :: "'a grid3 \<Rightarrow> int \<Rightarrow> int \<Rightarrow> int \<Rightarrow> int \<Rightarrow> int \<Rightarrow> int \<Rightarrow> 'a grid3 outcome" where
  "grid_move g from_row from_col from_layer to_row to_col to_layer =
     obind (grid_at g from_row from_col from_layer) (\<lambda>v.
     obind (grid_set g to_row to_col to_layer v) (\<lambda>g.
       grid_clear g from_row from_col from_layer))"

definition grid_copy :: "'a grid3 \<Rightarrow> int \<Rightarrow> int \<Rightarrow> int \<Rightarrow> int \<Rightarrow> int \<Rightarrow> int \<Rightarrow> 'a grid3 outcome" where
  "grid_copy g from_row from_col from_layer to_row to_col to_layer =
     obind (grid_at g from_row from_col from_layer) (\<lambda>v. grid_set g to_row to_col to_layer v)"

text \<open>The two nested loops over the rows and columns of a layer.\<close>

definition layer_cells :: "'a grid3 \<Rightarrow> (int \<times> int) list" where
  "layer_cells g = List.product [0..rows g - 1] [0..cols g - 1]"

fun for_cells :: "(int \<Rightarrow> int \<Rightarrow> 'g \<Rightarrow> 'g outcome) \<Rightarrow> (int \<times> int) list \<Rightarrow> 'g \<Rightarrow> 'g outcome" where
  "for_cells body [] g = Inr g"
| "for_cells body ((row, col) # cells) g = obind (body row col g) (for_cells body cells)"

type_synonym 'a skip_predicate = "'a grid3 \<Rightarrow> int \<Rightarrow> int \<Rightarrow> int \<Rightarrow> bool outcome"

definition clear_layer :: "'a grid3 \<Rightarrow> int \<Rightarrow> 'a skip_predicate \<Rightarrow> 'a grid3 outcome" where
  "clear_layer g layer skip_cell =
     for_cells (\<lambda>row col g. obind (skip_cell g row col layer) (\<lambda>s.
       if s then Inr g else grid_clear g row col layer)) (layer_cells g) g"

definition move_layer :: "'a grid3 \<Rightarrow> int \<Rightarrow> int \<Rightarrow> 'a grid3 outcome" where
  "move_layer g from_layer to_layer =
     for_cells (\<lambda>row col g. grid_move g row col from_layer row col to_layer) (layer_cells g) g"

definition copy_layer :: "'a grid3 \<Rightarrow> int \<Rightarrow> int \<Rightarrow> 'a skip_predicate \<Rightarrow> 'a grid3 outcome" where
  "copy_layer g from_layer to_layer skip_cell =
     for_cells (\<lambda>row col g. obind (skip_cell g row col from_layer) (\<lambda>s.
       if s then Inr g else grid_copy g row col from_layer row col to_layer)) (layer_cells g) g"

fun filled_with :: "'a list \<Rightarrow> 'a \<Rightarrow> int list \<Rightarrow> bool outcome" where
  "filled_with xs v [] = Inr True"
| "filled_with xs v (i # is) = obind (array_at xs i) (\<lambda>x. if x \<noteq> v then Inr False else filled_with xs v is)"

definition layer_filled_with :: "'a grid3 \<Rightarrow> int \<Rightarrow> 'a \<Rightarrow> bool outcome" where
  "layer_filled_with g layer v =
     filled_with (backing_array g) v [layer * cells_in_layer g..(layer + 1) * cells_in_layer g - 1]"

definition can_move_lower :: "'a grid3 \<Rightarrow> int \<Rightarrow> int \<Rightarrow> int \<Rightarrow> bool outcome" where
  "can_move_lower g row col layer =
     (if layers g \<le> layer + 1 then Inr False
      else obind (grid_at g row col (layer + 1)) (\<lambda>value_lower. Inr (value_lower = default_value g)))"

section \<open>The grid as a function on its cells\<close>

type_synonym coords = "int \<times> int \<times> int"

fun in_grid :: "'a grid3 \<Rightarrow> coords \<Rightarrow> bool" where
  "in_grid g (r, c, l) \<longleftrightarrow> 0 \<le> r \<and> r < rows g \<and> 0 \<le> c \<and> c < cols g \<and> 0 \<le> l \<and> l < layers g"

definition grid_wf :: "'a grid3 \<Rightarrow> bool" where
  "grid_wf g \<longleftrightarrow> 0 \<le> rows g \<and> 0 \<le> cols g \<and> 0 \<le> layers g \<and> cells_in_layer g = rows g * cols g
     \<and> int (List.length (backing_array g)) = rows g * cols g * layers g"

fun cell_index :: "'a grid3 \<Rightarrow> coords \<Rightarrow> nat" where
  "cell_index g (r, c, l) = nat (rows g * cols g * l + r * cols g + c)"

definition cell :: "'a grid3 \<Rightarrow> coords \<Rightarrow> 'a" where
  "cell g p = backing_array g ! cell_index g p"

definition grid_upd :: "'a grid3 \<Rightarrow> coords \<Rightarrow> 'a \<Rightarrow> 'a grid3" where
  "grid_upd g p v = g\<lparr> backing_array := (backing_array g)[cell_index g p := v] \<rparr>"

lemma in_grid_index:
  assumes "grid_wf g" "in_grid g (r, c, l)"
  shows "0 \<le> rows g * cols g * l + r * cols g + c"
    "rows g * cols g * l + r * cols g + c < int (List.length (backing_array g))"
proof -
  have *: "0 \<le> r" "r < rows g" "0 \<le> c" "c < cols g" "0 \<le> l" "l < layers g"
    using assms(2) by auto
  then show "0 \<le> rows g * cols g * l + r * cols g + c" by simp
  have "r * cols g + c < (r + 1) * cols g" using * by (simp add: algebra_simps)
  also have "\<dots> \<le> rows g * cols g" using * by (intro mult_right_mono) auto
  finally have "rows g * cols g * l + r * cols g + c < rows g * cols g * (l + 1)"
    by (simp add: algebra_simps)
  also have "\<dots> \<le> rows g * cols g * layers g" using * by (intro mult_left_mono) auto
  finally show "rows g * cols g * l + r * cols g + c < int (List.length (backing_array g))"
    using assms(1) by (simp add: grid_wf_def)
qed

lemma cell_index_inj:
  assumes "grid_wf g" "in_grid g p" "in_grid g q" "cell_index g p = cell_index g q"
  shows "p = q"
proof -
  obtain r c l where p: "p = (r, c, l)" by (cases p)
  obtain r' c' l' where q: "q = (r', c', l')" by (cases q)
  let ?n = "cols g" and ?k = "rows g * cols g"
  have *: "0 \<le> r" "r < rows g" "0 \<le> c" "c < ?n" "0 \<le> r'" "r' < rows g" "0 \<le> c'" "c' < ?n"
    using assms(2,3) by (auto simp: p q)
  have e: "?k * l + r * ?n + c = ?k * l' + r' * ?n + c'"
    using assms(4) in_grid_index [OF assms(1) assms(2) [unfolded p]]
      in_grid_index [OF assms(1) assms(3) [unfolded q]]
    by (simp only: p q cell_index.simps eq_nat_nat_iff)
  have b: "a * ?n + d < ?k" if "0 \<le> a" "a < rows g" "d < ?n" for a d
  proof -
    have "a * ?n + d < (a + 1) * ?n" using that by (simp add: algebra_simps)
    also have "\<dots> \<le> ?k" using that * by (intro mult_right_mono) auto
    finally show ?thesis .
  qed
  have "(?k * l + (r * ?n + c)) div ?k = (?k * l' + (r' * ?n + c')) div ?k"
    using e by (simp add: add.assoc)
  then have "l = l'" using b [of r c] b [of r' c'] * by (simp add: div_pos_pos_trivial)
  then have "r * ?n + c = r' * ?n + c'" using e by simp
  moreover from this have "(r * ?n + c) div ?n = (r' * ?n + c') div ?n" by simp
  then have "r = r'" using * by (simp add: div_pos_pos_trivial)
  ultimately show ?thesis using \<open>l = l'\<close> by (simp add: p q)
qed

lemma grid_at_cell:
  assumes "grid_wf g" "in_grid g (r, c, l)"
  shows "grid_at g r c l = Inr (cell g (r, c, l))"
  using in_grid_index [OF assms] assms(1)
  by (simp add: grid_at_def array_at_def backing_array_index_for_def cell_def grid_wf_def)

lemma grid_set_upd:
  assumes "grid_wf g" "in_grid g (r, c, l)"
  shows "grid_set g r c l v = Inr (grid_upd g (r, c, l) v)"
  using in_grid_index [OF assms] assms(1)
  by (simp add: grid_set_def array_put_def backing_array_index_for_def grid_upd_def grid_wf_def)

lemma grid_clear_upd:
  "grid_wf g \<Longrightarrow> in_grid g (r, c, l) \<Longrightarrow> grid_clear g r c l = Inr (grid_upd g (r, c, l) (default_value g))"
  by (simp add: grid_clear_def grid_set_upd)

lemma grid_upd_dims [simp]:
  "rows (grid_upd g p v) = rows g" "cols (grid_upd g p v) = cols g" "layers (grid_upd g p v) = layers g"
  "default_value (grid_upd g p v) = default_value g" "grid_wf (grid_upd g p v) \<longleftrightarrow> grid_wf g"
  "in_grid (grid_upd g p v) q \<longleftrightarrow> in_grid g q"
  by (simp_all add: grid_upd_def grid_wf_def) (cases q, simp)

lemma cell_upd:
  assumes "grid_wf g" "in_grid g p" "in_grid g q"
  shows "cell (grid_upd g p v) q = (if q = p then v else cell g q)"
proof -
  have i: "cell_index (grid_upd g p v) q = cell_index g q" by (cases q) (simp add: grid_upd_def)
  have "cell_index g p < List.length (backing_array g)"
    using in_grid_index [of g] assms by (cases p) (simp add: nat_less_iff)
  then show ?thesis
    using cell_index_inj [OF assms(1,3,2)] by (auto simp: cell_def i) (auto simp: grid_upd_def nth_list_update)
qed

lemma can_move_lower_cell:
  assumes "grid_wf g" "in_grid g (r, c, l)"
  shows "can_move_lower g r c l =
    Inr (l + 1 < layers g \<and> cell g (r, c, l + 1) = default_value g)"
  using assms grid_at_cell [of g r c "l + 1"] by (auto simp: can_move_lower_def)

lemma grid3_new_wf:
  assumes "0 \<le> r" "0 \<le> c" "0 \<le> l"
  shows "grid_wf (grid3_new r c l d)" "in_grid (grid3_new r c l d) p \<Longrightarrow> cell (grid3_new r c l d) p = d"
proof -
  show w: "grid_wf (grid3_new r c l d)" using assms by (simp add: grid_wf_def grid3_new_def)
  show "cell (grid3_new r c l d) p = d" if "in_grid (grid3_new r c l d) p"
    using in_grid_index [OF w, of "fst p" "fst (snd p)" "snd (snd p)"] that
    by (cases p) (simp add: cell_def grid3_new_def nat_less_iff)
qed

end
