(* ===== verification/Tetris.thy ===== *)
theory Tetris
  imports Grid3 Input
begin

text \<open>
  \<^verbatim>\<open>tetris/main.hh\<close>: the rules of the game on the board of \<^verbatim>\<open>Grid3\<close>. Block coordinates are
  \<^verbatim>\<open>u32\<close> values that never leave the board, modelled as \<open>int\<close>; \<open>(row, col, layer)\<close> is
  \<open>(x, y, z)\<close>, with layer 0 at the top. What depends on the world is an argument of \<open>update\<close>: the input
  state, the two readings of the tick counter, the number \<^verbatim>\<open>krand::generate\<close> draws, and the
  camera's sector (an \<^verbatim>\<open>f32\<close> rounded to an \<^verbatim>\<open>s32\<close>). Drawing and the frame statistics are not modelled.
\<close>

definition BODY_BLOCK_LIMIT :: nat where "BODY_BLOCK_LIMIT = 10"

type_synonym blocks = "coords list"

text \<open>\<^verbatim>\<open>std::sort\<close> by descending layer; the order of blocks of one layer does not matter below.\<close>

definition layer_sort :: "blocks \<Rightarrow> blocks" where
  "layer_sort bs = sort_key (\<lambda>(row, col, layer). - layer) bs"

definition falling_body_contains :: "blocks \<Rightarrow> coords \<Rightarrow> bool" where
  "falling_body_contains body p = list_ex (\<lambda>b. b = p) body"

definition available_bodies :: "blocks list" where
  "available_bodies =
     [[(0, 0, 0), (0, 0, 1)],
      [(0, 0, 0), (1, 0, 0), (0, 0, 1)],
      [(0, 0, 0), (0, 0, 1), (0, 0, 2), (0, 0, 3)],
      [(0, 0, 0), (1, 0, 0), (0, 1, 0), (1, 1, 0)],
      [(0, 0, 0), (0, 0, 1), (0, 0, 2), (1, 0, 2)],
      [(1, 0, 0), (1, 0, 1), (1, 0, 2), (0, 0, 2)],
      [(0, 0, 0), (0, 0, 1), (0, 0, 2), (1, 0, 1)],
      [(1, 0, 0), (2, 0, 0), (0, 0, 1), (1, 0, 1)],
      [(0, 0, 0), (1, 0, 0), (1, 0, 1), (2, 0, 1)],
      [(0, 0, 0), (1, 0, 0), (0, 1, 0), (0, 0, 1)],
      [(0, 0, 0), (1, 0, 0), (1, 1, 0), (1, 1, 1)],
      [(0, 0, 0), (1, 0, 0), (1, 0, 1), (1, 1, 1)]]"

datatype block_type = EMPTY | SOLID | FALLING

definition TETRIS_FAST_FALL_TIME_MS :: u64 where "TETRIS_FAST_FALL_TIME_MS = 50"

record game =
  board :: "block_type grid3"
  body_indices :: "u8 grid3"
  falling_body :: blocks
  falling_body_index :: int
  next_falling_body_index :: int
  game_over :: bool
  layers_to_destroy :: "int list"
  time_till_next_move_ms :: u64
  current_move_started_at_tick :: u64
  destroy_layers_after_ms :: u64

definition game_new :: "int \<Rightarrow> int \<Rightarrow> int \<Rightarrow> int \<Rightarrow> game" where
  "game_new r c l random = \<lparr> board = grid3_new r c l EMPTY, body_indices = grid3_new r c l 0,
     falling_body = [], falling_body_index = 0, next_falling_body_index = random, game_over = False,
     layers_to_destroy = [], time_till_next_move_ms = 1000, current_move_started_at_tick = 0,
     destroy_layers_after_ms = 1000 \<rparr>"

section \<open>Blocks\<close>

definition push_block :: "blocks \<Rightarrow> coords \<Rightarrow> blocks outcome" where
  "push_block bs b = kstd_assert (List.length bs < BODY_BLOCK_LIMIT) ''push_back on full Bounded_Array'' (Inr (bs @ [b]))"

fun push_blocks :: "blocks \<Rightarrow> coords list \<Rightarrow> blocks outcome" where
  "push_blocks bs [] = Inr bs"
| "push_blocks bs (b # rest) = obind (push_block bs b) (\<lambda>bs. push_blocks bs rest)"

definition create_new_falling_body :: "blocks \<Rightarrow> blocks outcome" where
  "create_new_falling_body body = obind (push_blocks [] body) (\<lambda>bs. Inr (layer_sort bs))"

text \<open>The loops over the blocks that clear or mark their cells.\<close>

fun clear_blocks :: "blocks \<Rightarrow> game \<Rightarrow> game outcome" where
  "clear_blocks [] g = Inr g"
| "clear_blocks ((row, col, layer) # bs) g =
     obind (grid_clear (board g) row col layer) (\<lambda>b. clear_blocks bs (g\<lparr> board := b \<rparr>))"

fun mark_blocks :: "block_type \<Rightarrow> blocks \<Rightarrow> game \<Rightarrow> game outcome" where
  "mark_blocks t [] g = Inr g"
| "mark_blocks t ((row, col, layer) # bs) g =
     obind (grid_set (board g) row col layer t) (\<lambda>b. mark_blocks t bs (g\<lparr> board := b \<rparr>))"

definition set_falling :: "int \<Rightarrow> coords \<Rightarrow> game \<Rightarrow> game outcome" where
  "set_falling body_index p g =
     (case p of (row, col, layer) \<Rightarrow>
        obind (grid_set (board g) row col layer FALLING) (\<lambda>b.
        obind (grid_set (body_indices g) row col layer (word_of_int body_index)) (\<lambda>bi.
          Inr (g\<lparr> board := b, body_indices := bi \<rparr>))))"

fun set_falling_blocks :: "int \<Rightarrow> blocks \<Rightarrow> game \<Rightarrow> game outcome" where
  "set_falling_blocks body_index [] g = Inr g"
| "set_falling_blocks body_index (p # bs) g =
     obind (set_falling body_index p g) (set_falling_blocks body_index bs)"

fun all_empty :: "block_type grid3 \<Rightarrow> blocks \<Rightarrow> bool outcome" where
  "all_empty b [] = Inr True"
| "all_empty b ((row, col, layer) # bs) =
     obind (grid_at b row col layer) (\<lambda>t. if t \<noteq> EMPTY then Inr False else all_empty b bs)"

definition produce_new_falling_body :: "int \<Rightarrow> game \<Rightarrow> (bool \<times> game) outcome" where
  "produce_new_falling_body random g =
     (let body_index = next_falling_body_index g;
          g = g\<lparr> next_falling_body_index := random \<rparr>;
          body = available_bodies ! nat body_index
      in obind (create_new_falling_body body) (\<lambda>falling.
         obind (all_empty (board g) falling) (\<lambda>free.
           if \<not> free then Inr (False, g)
           else obind (set_falling_blocks body_index falling g) (\<lambda>g.
                  Inr (True, g\<lparr> falling_body := falling, falling_body_index := body_index \<rparr>)))))"

section \<open>Falling\<close>

fun blocks_can_go_lower :: "block_type grid3 \<Rightarrow> blocks \<Rightarrow> blocks \<Rightarrow> bool outcome" where
  "blocks_can_go_lower b body [] = Inr True"
| "blocks_can_go_lower b body ((row, col, layer) # bs) =
     obind (can_move_lower b row col layer) (\<lambda>free.
       if free \<or> list_ex (\<lambda>p. p = (row, col, layer + 1)) body
       then blocks_can_go_lower b body bs else Inr False)"

definition falling_body_can_go_lower :: "game \<Rightarrow> bool outcome" where
  "falling_body_can_go_lower g = blocks_can_go_lower (board g) (falling_body g) (falling_body g)"

text \<open>The loop of \<open>move_falling_body_lower\<close>, which changes the blocks it walks over.\<close>

fun lower_blocks :: "int \<Rightarrow> blocks \<Rightarrow> game \<Rightarrow> (blocks \<times> game) outcome" where
  "lower_blocks body_index [] g = Inr ([], g)"
| "lower_blocks body_index ((row, col, layer) # bs) g =
     obind (grid_clear (board g) row col layer) (\<lambda>b.
     obind (set_falling body_index (row, col, layer + 1) (g\<lparr> board := b \<rparr>)) (\<lambda>g.
     obind (lower_blocks body_index bs g) (\<lambda>(bs, g). Inr ((row, col, layer + 1) # bs, g))))"

definition move_falling_body_lower :: "game \<Rightarrow> game outcome" where
  "move_falling_body_lower g =
     obind (lower_blocks (falling_body_index g) (layer_sort (falling_body g)) g) (\<lambda>(bs, g).
       Inr (g\<lparr> falling_body := bs \<rparr>))"

text \<open>The loop of an instant drop. It does not end for a body without blocks.\<close>

partial_function (option) drop_loop :: "game \<Rightarrow> game run" where
  "drop_loop g =
     rbind (Some (falling_body_can_go_lower g)) (\<lambda>can.
       if can then rbind (Some (move_falling_body_lower g)) drop_loop else Some (Inr g))"

text \<open>How far the shadow lies below the body: for every block the first obstacle under it.\<close>

fun block_offset_loop :: "block_type grid3 \<Rightarrow> blocks \<Rightarrow> int \<Rightarrow> int \<Rightarrow> int \<Rightarrow> int list \<Rightarrow> int \<Rightarrow> int outcome" where
  "block_offset_loop b body row col layer [] block_offset = Inr block_offset"
| "block_offset_loop b body row col layer (offset # offsets) block_offset =
     obind (grid_at b row col (layer + offset)) (\<lambda>t.
       if t = EMPTY \<or> falling_body_contains body (row, col, layer + offset)
       then block_offset_loop b body row col layer offsets block_offset
       else Inr (offset - 1))"

fun shadow_loop :: "block_type grid3 \<Rightarrow> blocks \<Rightarrow> blocks \<Rightarrow> int \<Rightarrow> int outcome" where
  "shadow_loop b body [] shadow_offset = Inr shadow_offset"
| "shadow_loop b body ((row, col, layer) # bs) shadow_offset =
     (let block_offset = layers b - 1 - layer
      in obind (block_offset_loop b body row col layer [1..block_offset] block_offset) (\<lambda>block_offset.
           shadow_loop b body bs (min shadow_offset block_offset)))"

definition tetris_shadow_layer_offset :: "game \<Rightarrow> int outcome" where
  "tetris_shadow_layer_offset g = shadow_loop (board g) (falling_body g) (falling_body g) (layers (board g))"

section \<open>Rotating and moving\<close>

datatype rotation_axis = Axis_X | Axis_Y | Axis_Z

fun rotate_difference :: "rotation_axis \<Rightarrow> coords \<Rightarrow> coords" where
  "rotate_difference Axis_X (x, y, z) = (x, - z, y)"
| "rotate_difference Axis_Y (x, y, z) = (z, y, - x)"
| "rotate_difference Axis_Z (x, y, z) = (- y, x, z)"

fun add_coords :: "coords \<Rightarrow> coords \<Rightarrow> coords" where
  "add_coords (x, y, z) (x', y', z') = (x + x', y + y', z + z')"

fun sub_coords :: "coords \<Rightarrow> coords \<Rightarrow> coords" where
  "sub_coords (x, y, z) (x', y', z') = (x - x', y - y', z - z')"

definition rotate_90 :: "coords \<Rightarrow> coords \<Rightarrow> rotation_axis \<Rightarrow> coords" where
  "rotate_90 block center axis = add_coords (rotate_difference axis (sub_coords block center)) center"

definition rotate_90_doubled :: "coords \<Rightarrow> coords \<Rightarrow> rotation_axis \<Rightarrow> coords" where
  "rotate_90_doubled block center_twice axis =
     (case block of (x, y, z) \<Rightarrow>
        add_coords center_twice (rotate_difference axis (sub_coords (2 * x, 2 * y, 2 * z) center_twice)))"

definition U32_MAX :: int where "U32_MAX = 2 ^ 32 - 1"

text \<open>The minimum and maximum loops over the blocks.\<close>

definition box_min :: "(coords \<Rightarrow> int) \<Rightarrow> blocks \<Rightarrow> int" where
  "box_min f bs = fold (\<lambda>b m. min m (f b)) bs U32_MAX"

definition box_max :: "(coords \<Rightarrow> int) \<Rightarrow> blocks \<Rightarrow> int" where
  "box_max f bs = fold (\<lambda>b m. max m (f b)) bs 0"

definition box_sum :: "blocks \<Rightarrow> coords" where
  "box_sum bs =
     (box_min fst bs + box_max fst bs, box_min (fst \<circ> snd) bs + box_max (fst \<circ> snd) bs,
      box_min (snd \<circ> snd) bs + box_max (snd \<circ> snd) bs)"

definition calculate_center_of_body :: "blocks \<Rightarrow> coords" where
  "calculate_center_of_body bs = (case box_sum bs of (x, y, z) \<Rightarrow> (x div 2, y div 2, z div 2))"

text \<open>
  The body of the loop that builds \<open>rotated\<close>, \<open>None\<close> for its returns of false, and the loop; the
  same for moving.
\<close>

definition rotated_block :: "game \<Rightarrow> coords \<Rightarrow> rotation_axis \<Rightarrow> coords \<Rightarrow> coords option outcome" where
  "rotated_block g center_twice axis block =
     (case rotate_90_doubled block center_twice axis of (x2, y2, z2) \<Rightarrow>
        if odd x2 \<or> odd y2 \<or> odd z2 then Inr None
        else
          let x = x2 div 2; y = y2 div 2; z = z2 div 2
          in if x < 0 \<or> y < 0 \<or> z < 0 then Inr None
             else if rows (board g) \<le> x \<or> cols (board g) \<le> y \<or> layers (board g) \<le> z then Inr None
             else obind (grid_at (board g) x y z) (\<lambda>t.
               if t \<noteq> EMPTY \<and> \<not> falling_body_contains (falling_body g) (x, y, z) then Inr None
               else Inr (Some (x, y, z))))"

definition moved_block :: "game \<Rightarrow> int \<Rightarrow> int \<Rightarrow> coords \<Rightarrow> coords option outcome" where
  "moved_block g row_delta col_delta block =
     (case block of (row, col, layer) \<Rightarrow>
        let new_row = row + row_delta; new_col = col + col_delta
        in if new_row < 0 \<or> new_col < 0 \<or> rows (board g) \<le> new_row \<or> cols (board g) \<le> new_col then Inr None
           else obind (grid_at (board g) new_row new_col layer) (\<lambda>t.
             if t \<noteq> EMPTY \<and> \<not> falling_body_contains (falling_body g) (new_row, new_col, layer) then Inr None
             else Inr (Some (new_row, new_col, layer))))"

fun transform_blocks :: "(coords \<Rightarrow> coords option outcome) \<Rightarrow> blocks \<Rightarrow> blocks \<Rightarrow> blocks option outcome" where
  "transform_blocks f [] acc = Inr (Some acc)"
| "transform_blocks f (block # bs) acc =
     obind (f block) (\<lambda>new_coords.
       case new_coords of
         None \<Rightarrow> Inr None
       | Some p \<Rightarrow> obind (push_block acc p) (transform_blocks f bs))"

text \<open>Clearing the old cells, taking the new blocks, marking their cells.\<close>

definition replace_falling_body :: "blocks \<Rightarrow> game \<Rightarrow> game outcome" where
  "replace_falling_body bs g =
     obind (clear_blocks (falling_body g) g) (\<lambda>g.
       set_falling_blocks (falling_body_index g) bs (g\<lparr> falling_body := bs \<rparr>))"

definition try_rotating_falling_body :: "rotation_axis \<Rightarrow> game \<Rightarrow> (bool \<times> game) outcome" where
  "try_rotating_falling_body axis g =
     obind (transform_blocks (rotated_block g (box_sum (falling_body g)) axis) (falling_body g) []) (\<lambda>rotated.
       case rotated of
         None \<Rightarrow> Inr (False, g)
       | Some bs \<Rightarrow> obind (replace_falling_body (layer_sort bs) g) (\<lambda>g. Inr (True, g)))"

definition try_moving_falling_body :: "int \<Rightarrow> int \<Rightarrow> game \<Rightarrow> (bool \<times> game) outcome" where
  "try_moving_falling_body row_delta col_delta g =
     obind (transform_blocks (moved_block g row_delta col_delta) (falling_body g) []) (\<lambda>moved.
       case moved of
         None \<Rightarrow> Inr (False, g)
       | Some bs \<Rightarrow> obind (replace_falling_body bs g) (\<lambda>g. Inr (True, g)))"

text \<open>The integer part of \<open>camera_relative_move_delta\<close>; \<open>sector\<close> is the rounded number of quarter turns.\<close>

definition camera_relative_move_delta :: "int \<Rightarrow> int \<Rightarrow> int \<Rightarrow> int \<times> int" where
  "camera_relative_move_delta sector screen_x screen_y =
     (let sector = sector mod 4;
          (right_x, right_y) = [(1, 0), (0, 1), (-1, 0), (0, -1)] ! nat sector;
          (up_x, up_y) = [(0, -1), (1, 0), (0, 1), (-1, 0)] ! nat sector
      in (screen_x * right_x + screen_y * up_x, screen_x * right_y + screen_y * up_y))"

section \<open>Destroying layers\<close>

fun mark_destroyed :: "int list \<Rightarrow> bool list \<Rightarrow> bool list outcome" where
  "mark_destroyed [] destroyed = Inr destroyed"
| "mark_destroyed (l # ls) destroyed = obind (array_put destroyed l True) (mark_destroyed ls)"

definition skip_if_is_falling :: "block_type skip_predicate" where
  "skip_if_is_falling b row col layer = obind (grid_at b row col layer) (\<lambda>t. Inr (t = FALLING))"

text \<open>The loop down the layers; it carries the two grids and \<open>write_layer\<close>.\<close>

fun compact_layers ::
  "bool list \<Rightarrow> int list \<Rightarrow> block_type grid3 \<times> u8 grid3 \<times> int \<Rightarrow> (block_type grid3 \<times> u8 grid3 \<times> int) outcome"
  where
  "compact_layers destroyed [] st = Inr st"
| "compact_layers destroyed (read_layer # ls) (b, bi, write_layer) =
     obind (array_at destroyed read_layer) (\<lambda>d.
       if d then compact_layers destroyed ls (b, bi, write_layer)
       else
         obind (if read_layer \<noteq> write_layer
                then obind (copy_layer b read_layer write_layer skip_if_is_falling) (\<lambda>b.
                     obind (copy_layer bi read_layer write_layer (\<lambda>_. skip_if_is_falling b)) (\<lambda>bi.
                       Inr (b, bi)))
                else Inr (b, bi)) (\<lambda>(b, bi).
           compact_layers destroyed ls (b, bi, write_layer - 1)))"

fun clear_layers :: "int list \<Rightarrow> block_type grid3 \<times> u8 grid3 \<Rightarrow> (block_type grid3 \<times> u8 grid3) outcome" where
  "clear_layers [] st = Inr st"
| "clear_layers (layer # ls) (b, bi) =
     obind (clear_layer b layer skip_if_is_falling) (\<lambda>b.
     obind (clear_layer bi layer (\<lambda>_. skip_if_is_falling b)) (\<lambda>bi.
       clear_layers ls (b, bi)))"

definition destroy_layers :: "game \<Rightarrow> game outcome" where
  "destroy_layers g =
     (if layers_to_destroy g = [] then Inr g
      else
        obind (mark_destroyed (layers_to_destroy g) (replicate (nat (layers (board g))) False)) (\<lambda>destroyed.
        obind (compact_layers destroyed (rev [0..layers (board g) - 1])
                 (board g, body_indices g, layers (board g) - 1)) (\<lambda>(b, bi, write_layer).
        obind (clear_layers (rev [0..write_layer]) (b, bi)) (\<lambda>(b, bi).
          Inr (g\<lparr> board := b, body_indices := bi, layers_to_destroy := [] \<rparr>)))))"

section \<open>One update\<close>

fun schedule_layers :: "block_type grid3 \<Rightarrow> int list \<Rightarrow> int list \<Rightarrow> int list outcome" where
  "schedule_layers b [] acc = Inr acc"
| "schedule_layers b (l # ls) acc =
     obind (layer_filled_with b l SOLID) (\<lambda>full. schedule_layers b ls (if full then acc @ [l] else acc))"

definition solidify :: "int \<Rightarrow> game \<Rightarrow> game outcome" where
  "solidify random g =
     obind (mark_blocks SOLID (falling_body g) g) (\<lambda>g.
     obind (schedule_layers (board g) (rev [0..layers (board g) - 1]) (layers_to_destroy g)) (\<lambda>ls.
     obind (produce_new_falling_body random (g\<lparr> layers_to_destroy := ls \<rparr>)) (\<lambda>(ok, g).
       Inr (g\<lparr> game_over := \<not> ok \<rparr>))))"

record frame_input =
  fi_input :: input_state
  fi_sector :: int
  fi_now :: u64
  fi_after :: u64
  fi_random :: int

definition ms_to_ticks :: "u64 \<Rightarrow> u64" where
  "ms_to_ticks ms = ms * 10000 div 1000"

definition handle_rotations :: "input_state \<Rightarrow> game \<Rightarrow> game outcome" where
  "handle_rotations input g =
     (if key_pressed Key_W input \<or> key_pressed Key_S input
      then obind (try_rotating_falling_body Axis_X g) (\<lambda>(_, g). Inr g)
      else if key_pressed Key_A input \<or> key_pressed Key_D input
      then obind (try_rotating_falling_body Axis_Y g) (\<lambda>(_, g). Inr g)
      else Inr g)"

definition move_on_key :: "bool \<Rightarrow> int \<times> int \<Rightarrow> game \<Rightarrow> game outcome" where
  "move_on_key pressed delta g =
     (if pressed then obind (try_moving_falling_body (fst delta) (snd delta) g) (\<lambda>(_, g). Inr g) else Inr g)"

definition handle_moves :: "input_state \<Rightarrow> int \<Rightarrow> game \<Rightarrow> game outcome" where
  "handle_moves input sector g =
     obind (move_on_key (key_pressed Key_LEFT_ARROW input) (camera_relative_move_delta sector (-1) 0) g) (\<lambda>g.
     obind (move_on_key (key_pressed Key_RIGHT_ARROW input) (camera_relative_move_delta sector 1 0) g) (\<lambda>g.
     obind (move_on_key (key_pressed Key_UP_ARROW input) (camera_relative_move_delta sector 0 (-1)) g) (\<lambda>g.
       move_on_key (key_pressed Key_DOWN_ARROW input) (camera_relative_move_delta sector 0 1) g)))"

definition handle_fall :: "frame_input \<Rightarrow> game \<Rightarrow> game run" where
  "handle_fall fi g =
     (let fast_fall_key_held = key_held Key_LEFT_SHIFT (fi_input fi) \<or> key_held Key_RIGHT_SHIFT (fi_input fi);
          instant_drop_key_pressed = key_pressed Key_SPACE (fi_input fi);
          move_interval_ms = (if fast_fall_key_held then TETRIS_FAST_FALL_TIME_MS else time_till_next_move_ms g);
          timer_elapsed = (current_move_started_at_tick g + ms_to_ticks move_interval_ms \<le> fi_now fi)
      in if timer_elapsed \<or> instant_drop_key_pressed
         then rbind
                (if instant_drop_key_pressed
                 then rbind (drop_loop g) (\<lambda>g. Some (Inr (True, g)))
                 else rbind (Some (falling_body_can_go_lower g)) (\<lambda>can.
                        if can then rbind (Some (move_falling_body_lower g)) (\<lambda>g. Some (Inr (False, g)))
                        else Some (Inr (True, g)))) (\<lambda>(land, g).
              rbind (Some (if land then solidify (fi_random fi) g else Inr g)) (\<lambda>g.
                Some (Inr (g\<lparr> current_move_started_at_tick := fi_after fi \<rparr>))))
         else Some (Inr g))"

definition update :: "frame_input \<Rightarrow> game \<Rightarrow> game run" where
  "update fi g =
     rbind (Some (destroy_layers g)) (\<lambda>g.
     rbind (Some (handle_rotations (fi_input fi) g)) (\<lambda>g.
     rbind (Some (handle_moves (fi_input fi) (fi_sector fi) g)) (\<lambda>g.
       handle_fall fi g)))"

end
