(* ===== verification/Tetris_Board.thy ===== *)
theory Tetris_Board
  imports Tetris
begin

text \<open>
  What the rules of \<^verbatim>\<open>Tetris\<close> keep of the board: the cells marked \<open>FALLING\<close> are those of the falling
  body, the \<open>SOLID\<close> ones do not move; the instant drop and the shadow; landing; the
  destruction of layers.
\<close>

declare split_paired_All [simp del] split_paired_Ex [simp del]

section \<open>Repainting cells\<close>

definition same_shape :: "'a grid3 \<Rightarrow> 'a grid3 \<Rightarrow> bool" where
  "same_shape b b' \<longleftrightarrow> rows b' = rows b \<and> cols b' = cols b \<and> layers b' = layers b
     \<and> default_value b' = default_value b \<and> (grid_wf b \<longrightarrow> grid_wf b')"

lemma same_shape_refl [simp]: "same_shape b b"
  by (simp add: same_shape_def)

lemma same_shape_trans: "same_shape a b \<Longrightarrow> same_shape b c \<Longrightarrow> same_shape a c"
  by (simp add: same_shape_def)

lemma same_shape_upd [simp]: "same_shape b (grid_upd b' p v) \<longleftrightarrow> same_shape b b'"
  by (simp add: same_shape_def)

lemma same_shape_in_grid: "same_shape b b' \<Longrightarrow> in_grid b' q \<longleftrightarrow> in_grid b q"
  by (cases q) (simp add: same_shape_def)

definition repainted :: "'a grid3 \<Rightarrow> 'a grid3 \<Rightarrow> coords set \<Rightarrow> 'a \<Rightarrow> bool" where
  "repainted b b' S v \<longleftrightarrow> same_shape b b' \<and>
     (\<forall>q. in_grid b q \<longrightarrow> cell b' q = (if q \<in> S then v else cell b q))"

lemma repainted_cell:
  "repainted b b' S v \<Longrightarrow> in_grid b q \<Longrightarrow> cell b' q = (if q \<in> S then v else cell b q)"
  by (simp add: repainted_def)

lemma repainted_upd:
  assumes "grid_wf b" "in_grid b p" "repainted (grid_upd b p v) b' S v"
  shows "repainted b b' (insert p S) v"
  using assms by (auto simp: repainted_def same_shape_def cell_upd)

lemma clear_blocks_spec:
  assumes "grid_wf (board g)" "\<forall>p \<in> set bs. in_grid (board g) p"
  shows "\<exists>b. clear_blocks bs g = Inr (g\<lparr> board := b \<rparr>)
    \<and> repainted (board g) b (set bs) (default_value (board g))"
  using assms
proof (induction bs arbitrary: g)
  case Nil
  then show ?case by (auto simp: repainted_def intro: exI [of _ "board g"])
next
  case (Cons p bs)
  obtain r c l where p: "p = (r, c, l)" by (cases p)
  let ?d = "default_value (board g)"
  let ?g = "g\<lparr> board := grid_upd (board g) p ?d \<rparr>"
  obtain b where b: "clear_blocks bs ?g = Inr (?g\<lparr> board := b \<rparr>)" "repainted (board ?g) b (set bs) ?d"
    using Cons.IH [of ?g] Cons.prems by auto
  have "clear_blocks (p # bs) g = Inr (g\<lparr> board := b \<rparr>)"
    using Cons.prems b(1) by (simp add: p grid_clear_upd)
  then show ?case using repainted_upd [of "board g" p ?d b "set bs"] Cons.prems b(2) by auto
qed

lemma mark_blocks_spec:
  assumes "grid_wf (board g)" "\<forall>p \<in> set bs. in_grid (board g) p"
  shows "\<exists>b. mark_blocks t bs g = Inr (g\<lparr> board := b \<rparr>) \<and> repainted (board g) b (set bs) t"
  using assms
proof (induction bs arbitrary: g)
  case Nil
  then show ?case by (auto simp: repainted_def intro: exI [of _ "board g"])
next
  case (Cons p bs)
  obtain r c l where p: "p = (r, c, l)" by (cases p)
  let ?g = "g\<lparr> board := grid_upd (board g) p t \<rparr>"
  obtain b where b: "mark_blocks t bs ?g = Inr (?g\<lparr> board := b \<rparr>)" "repainted (board ?g) b (set bs) t"
    using Cons.IH [of ?g] Cons.prems by auto
  have "mark_blocks t (p # bs) g = Inr (g\<lparr> board := b \<rparr>)"
    using Cons.prems b(1) by (simp add: p grid_set_upd)
  then show ?case using repainted_upd [of "board g" p t b "set bs"] Cons.prems b(2) by auto
qed

text \<open>The two grids of a game have one shape.\<close>

definition grids_ok :: "game \<Rightarrow> bool" where
  "grids_ok g \<longleftrightarrow> grid_wf (board g) \<and> grid_wf (body_indices g) \<and> default_value (board g) = EMPTY
     \<and> rows (body_indices g) = rows (board g) \<and> cols (body_indices g) = cols (board g)
     \<and> layers (body_indices g) = layers (board g)"

lemma grids_ok_in_grid: "grids_ok g \<Longrightarrow> in_grid (body_indices g) p \<longleftrightarrow> in_grid (board g) p"
  by (cases p) (simp add: grids_ok_def)

lemma set_falling_spec:
  assumes "grids_ok g" "in_grid (board g) p"
  shows "set_falling i p g = Inr (g\<lparr> board := grid_upd (board g) p FALLING,
    body_indices := grid_upd (body_indices g) p (word_of_int i) \<rparr>)"
proof -
  obtain r c l where p: "p = (r, c, l)" by (cases p)
  have "in_grid (body_indices g) p" using assms by (simp add: grids_ok_in_grid)
  then show ?thesis using assms by (simp add: p set_falling_def grids_ok_def grid_set_upd)
qed

lemma grids_ok_painted:
  "grids_ok g \<Longrightarrow> same_shape (board g) b \<Longrightarrow> same_shape (body_indices g) bi \<Longrightarrow>
   grids_ok (g\<lparr> board := b, body_indices := bi \<rparr>)"
  by (simp add: grids_ok_def same_shape_def)

lemma set_falling_blocks_spec:
  assumes "grids_ok g" "\<forall>p \<in> set bs. in_grid (board g) p"
  shows "\<exists>b bi. set_falling_blocks i bs g = Inr (g\<lparr> board := b, body_indices := bi \<rparr>)
    \<and> repainted (board g) b (set bs) FALLING \<and> same_shape (body_indices g) bi"
  using assms
proof (induction bs arbitrary: g)
  case Nil
  then show ?case by (auto simp: repainted_def intro!: exI [of _ "board g"] exI [of _ "body_indices g"])
next
  case (Cons p bs)
  let ?g = "g\<lparr> board := grid_upd (board g) p FALLING, body_indices := grid_upd (body_indices g) p (word_of_int i) \<rparr>"
  have ok: "grids_ok ?g" using Cons.prems(1) by (intro grids_ok_painted) simp_all
  obtain b bi where b: "set_falling_blocks i bs ?g = Inr (?g\<lparr> board := b, body_indices := bi \<rparr>)"
    "repainted (board ?g) b (set bs) FALLING" "same_shape (body_indices ?g) bi"
    using Cons.IH [OF ok] Cons.prems by auto
  have "set_falling_blocks i (p # bs) g = Inr (g\<lparr> board := b, body_indices := bi \<rparr>)"
    using Cons.prems b(1) by (simp add: set_falling_spec)
  moreover have "same_shape (body_indices g) bi"
    using b(3) same_shape_trans [of "body_indices g" "body_indices ?g" bi] by simp
  ultimately show ?case
    using repainted_upd [of "board g" p FALLING b "set bs"] Cons.prems b(2) by (auto simp: grids_ok_def)
qed

section \<open>The invariant of a game\<close>

definition solid_cells :: "game \<Rightarrow> coords set" where
  "solid_cells g = {p. in_grid (board g) p \<and> cell (board g) p = SOLID}"

definition game_wf :: "game \<Rightarrow> bool" where
  "game_wf g \<longleftrightarrow> grids_ok g \<and> distinct (falling_body g) \<and> List.length (falling_body g) \<le> BODY_BLOCK_LIMIT
     \<and> (\<forall>p \<in> set (falling_body g). in_grid (board g) p)
     \<and> (\<forall>p. in_grid (board g) p \<longrightarrow> (cell (board g) p = FALLING \<longleftrightarrow> p \<in> set (falling_body g)))"

text \<open>Everything about a game but the falling body, its cells and the body indices is as before.\<close>

definition same_rest :: "game \<Rightarrow> game \<Rightarrow> bool" where
  "same_rest g g' \<longleftrightarrow> g' = g\<lparr> board := board g', body_indices := body_indices g', falling_body := falling_body g' \<rparr>
     \<and> same_shape (board g) (board g') \<and> solid_cells g' = solid_cells g
     \<and> List.length (falling_body g') = List.length (falling_body g)"

lemma same_rest_refl [simp]: "same_rest g g"
  by (simp add: same_rest_def)

lemma same_rest_trans: "same_rest g g' \<Longrightarrow> same_rest g' g'' \<Longrightarrow> same_rest g g''"
  by (cases g; cases g'; cases g'') (auto simp: same_rest_def intro: same_shape_trans)

lemma replace_falling_body_spec:
  assumes wf: "game_wf g" and bs: "\<forall>p \<in> set bs. in_grid (board g) p \<and> cell (board g) p \<noteq> SOLID"
    and d: "distinct bs" "List.length bs = List.length (falling_body g)"
  shows "\<exists>g'. replace_falling_body bs g = Inr g' \<and> game_wf g' \<and> same_rest g g' \<and> falling_body g' = bs"
proof -
  have ok: "grids_ok g" using wf by (simp add: game_wf_def)
  obtain b where b: "clear_blocks (falling_body g) g = Inr (g\<lparr> board := b \<rparr>)"
      "repainted (board g) b (set (falling_body g)) EMPTY"
    using clear_blocks_spec [of g "falling_body g"] wf by (auto simp: game_wf_def grids_ok_def)
  let ?g = "g\<lparr> board := b, falling_body := bs \<rparr>"
  have sh: "same_shape (board g) b" using b(2) by (simp add: repainted_def)
  have ok': "grids_ok ?g" using ok sh by (simp add: grids_ok_def same_shape_def)
  obtain b' bi where b': "set_falling_blocks (falling_body_index g) bs ?g = Inr (?g\<lparr> board := b', body_indices := bi \<rparr>)"
      "repainted b b' (set bs) FALLING" "same_shape (body_indices g) bi"
    using set_falling_blocks_spec [OF ok', of bs "falling_body_index g"] bs sh by (auto simp: same_shape_in_grid)
  let ?g' = "?g\<lparr> board := b', body_indices := bi \<rparr>"
  have sh': "same_shape (board g) b'"
    using b'(2) sh by (auto simp: repainted_def intro: same_shape_trans)
  have cells: "cell b' q = (if q \<in> set bs then FALLING else if q \<in> set (falling_body g) then EMPTY
      else cell (board g) q)" if "in_grid (board g) q" for q
    using that repainted_cell [OF b(2) that] repainted_cell [OF b'(2), of q] sh by (simp add: same_shape_in_grid)
  have "replace_falling_body bs g = Inr ?g'"
    using b(1) b'(1) by (simp add: replace_falling_body_def)
  moreover have "grids_ok ?g'" using ok sh' b'(3) by (simp add: grids_ok_def same_shape_def)
  then have "game_wf ?g'"
    using wf d bs cells by (auto simp: game_wf_def same_shape_in_grid [OF sh'] split: if_splits)
  moreover have "cell b' q = SOLID \<longleftrightarrow> cell (board g) q = SOLID" if "in_grid (board g) q" for q
    using wf bs cells [OF that] that by (auto simp: game_wf_def split: if_splits)
  then have "solid_cells ?g' = solid_cells g"
    by (simp add: solid_cells_def same_shape_in_grid [OF sh'] cong: conj_cong)
  then have "same_rest g ?g'" using sh' d by (simp add: same_rest_def)
  ultimately show ?thesis by auto
qed

section \<open>Rotating, moving\<close>

lemma push_block_ok: "List.length acc < BODY_BLOCK_LIMIT \<Longrightarrow> push_block acc p = Inr (acc @ [p])"
  by (simp add: push_block_def)

lemma transform_blocks_spec:
  assumes "\<forall>b \<in> set bs. \<exists>r. f b = Inr r \<and> (\<forall>p. r = Some p \<longrightarrow> p = h b \<and> ok b)"
    "List.length acc + List.length bs \<le> BODY_BLOCK_LIMIT"
  shows "transform_blocks f bs acc = Inr None \<or>
    transform_blocks f bs acc = Inr (Some (acc @ map h bs)) \<and> (\<forall>b \<in> set bs. ok b)"
  using assms
proof (induction bs arbitrary: acc)
  case (Cons b bs)
  obtain r where r: "f b = Inr r" "\<forall>p. r = Some p \<longrightarrow> p = h b \<and> ok b" using Cons.prems(1) by auto
  show ?case
  proof (cases r)
    case None
    then show ?thesis using r(1) by simp
  next
    case (Some p)
    then have p: "p = h b" "ok b" using r(2) by auto
    have "transform_blocks f (b # bs) acc = transform_blocks f bs (acc @ [h b])"
      using r(1) Some p(1) Cons.prems(2) by (simp add: push_block_ok)
    then show ?thesis using Cons.IH [of "acc @ [h b]"] Cons.prems p(2) by auto
  qed
qed simp

definition free_cell :: "game \<Rightarrow> coords \<Rightarrow> bool" where
  "free_cell g p \<longleftrightarrow> in_grid (board g) p \<and> cell (board g) p \<noteq> SOLID"

lemma falling_body_contains_set: "falling_body_contains bs p \<longleftrightarrow> p \<in> set bs"
  by (auto simp: falling_body_contains_def list_ex_iff)

lemma free_cell_test:
  assumes "game_wf g" "in_grid (board g) p"
  shows "(cell (board g) p \<noteq> EMPTY \<and> \<not> falling_body_contains (falling_body g) p) \<longleftrightarrow> \<not> free_cell g p"
  using assms by (cases "cell (board g) p") (auto simp: free_cell_def game_wf_def falling_body_contains_set)

definition rotation_of :: "coords \<Rightarrow> rotation_axis \<Rightarrow> coords \<Rightarrow> coords" where
  "rotation_of center_twice axis b =
     (case rotate_90_doubled b center_twice axis of (x, y, z) \<Rightarrow> (x div 2, y div 2, z div 2))"

lemma rotated_block_spec:
  assumes "game_wf g"
  shows "\<exists>r. rotated_block g center axis b = Inr r \<and>
    (\<forall>p. r = Some p \<longrightarrow> p = rotation_of center axis b \<and> free_cell g (rotation_of center axis b)
       \<and> (case rotate_90_doubled b center axis of (x, y, z) \<Rightarrow> even x \<and> even y \<and> even z))"
proof -
  obtain x2 y2 z2 where e: "rotate_90_doubled b center axis = (x2, y2, z2)" by (cases "rotate_90_doubled b center axis")
  let ?p = "(x2 div 2, y2 div 2, z2 div 2)"
  show ?thesis
  proof (cases "(even x2 \<and> even y2 \<and> even z2) \<and> in_grid (board g) ?p")
    case True
    have "grid_at (board g) (x2 div 2) (y2 div 2) (z2 div 2) = Inr (cell (board g) ?p)"
      using True assms by (intro grid_at_cell) (auto simp: game_wf_def grids_ok_def)
    moreover have "\<not> (rows (board g) \<le> x2 div 2 \<or> cols (board g) \<le> y2 div 2 \<or> layers (board g) \<le> z2 div 2)"
      "\<not> (x2 div 2 < 0 \<or> y2 div 2 < 0 \<or> z2 div 2 < 0)"
      using True by auto
    ultimately show ?thesis
      using True free_cell_test [OF assms, of ?p]
      by (simp only: rotated_block_def rotation_of_def e Let_def) auto
  next
    case False
    then show ?thesis by (auto simp: rotated_block_def e Let_def)
  qed
qed

lemma moved_block_spec:
  assumes "game_wf g" "in_grid (board g) b"
  shows "\<exists>r. moved_block g dr dc b = Inr r \<and>
    (\<forall>p. r = Some p \<longrightarrow> p = add_coords b (dr, dc, 0) \<and> free_cell g (add_coords b (dr, dc, 0)))"
proof -
  obtain r c l where b: "b = (r, c, l)" by (cases b)
  let ?p = "(r + dr, c + dc, l)"
  show ?thesis
  proof (cases "in_grid (board g) ?p")
    case True
    then have "grid_at (board g) (r + dr) (c + dc) l = Inr (cell (board g) ?p)"
      using assms by (intro grid_at_cell) (auto simp: game_wf_def grids_ok_def)
    then show ?thesis
      using True free_cell_test [OF assms(1), of ?p] by (auto simp: moved_block_def b Let_def)
  next
    case False
    then show ?thesis using assms(2) by (auto simp: moved_block_def b Let_def)
  qed
qed

lemma layer_sort_facts [simp]:
  "set (layer_sort bs) = set bs" "distinct (layer_sort bs) = distinct bs"
  "List.length (layer_sort bs) = List.length bs"
  by (simp_all add: layer_sort_def)

lemma rotation_of_inj: "inj_on (rotation_of center axis) {b. case rotate_90_doubled b center axis of (x, y, z) \<Rightarrow>
    even x \<and> even y \<and> even z}"
proof (rule inj_onI)
  fix b b'
  assume "b \<in> {b. case rotate_90_doubled b center axis of (x, y, z) \<Rightarrow> even x \<and> even y \<and> even z}"
    "b' \<in> {b. case rotate_90_doubled b center axis of (x, y, z) \<Rightarrow> even x \<and> even y \<and> even z}"
    "rotation_of center axis b = rotation_of center axis b'"
  then have "rotate_90_doubled b center axis = rotate_90_doubled b' center axis"
    by (auto simp: rotation_of_def elim!: evenE split: prod.splits)
  then show "b = b'"
    by (cases axis; cases b; cases b'; cases center) (auto simp: rotate_90_doubled_def)
qed

lemma try_rotating_spec:
  assumes wf: "game_wf g"
  shows "\<exists>ok g'. try_rotating_falling_body axis g = Inr (ok, g') \<and> game_wf g' \<and> same_rest g g'
    \<and> set (falling_body g') = (if ok then rotation_of (box_sum (falling_body g)) axis ` set (falling_body g)
                               else set (falling_body g))"
proof -
  let ?c = "box_sum (falling_body g)" and ?h = "rotation_of (box_sum (falling_body g)) axis"
  let ?ev = "\<lambda>b. case rotate_90_doubled b ?c axis of (x, y, z) \<Rightarrow> even x \<and> even y \<and> even z"
  let ?f = "\<lambda>b. rotated_block g ?c axis b"
  have len: "List.length (falling_body g) \<le> BODY_BLOCK_LIMIT" using wf by (simp add: game_wf_def)
  have "\<forall>b \<in> set (falling_body g). \<exists>r. ?f b = Inr r \<and>
      (\<forall>p. r = Some p \<longrightarrow> p = ?h b \<and> free_cell g (?h b) \<and> ?ev b)"
    using rotated_block_spec [OF wf, of ?c axis] by (intro ballI)
  note t = transform_blocks_spec [OF this, of "[]"]
  show ?thesis
  proof (cases "transform_blocks ?f (falling_body g) [] = Inr None")
    case True
    then show ?thesis using wf by (auto simp: try_rotating_falling_body_def)
  next
    case False
    then have some: "transform_blocks ?f (falling_body g) [] = Inr (Some (map ?h (falling_body g)))"
      and free: "\<forall>b \<in> set (falling_body g). free_cell g (?h b) \<and> ?ev b" using t len by auto
    let ?bs = "layer_sort (map ?h (falling_body g))"
    have "inj_on ?h (set (falling_body g))"
      using rotation_of_inj [of ?c axis] by (rule inj_on_subset) (use free in auto)
    then have "distinct ?bs" using wf by (simp add: distinct_map game_wf_def)
    then obtain g' where "replace_falling_body ?bs g = Inr g'" "game_wf g'" "same_rest g g'" "falling_body g' = ?bs"
      using replace_falling_body_spec [OF wf, of ?bs] free by (auto simp: free_cell_def)
    then show ?thesis using some by (auto simp: try_rotating_falling_body_def)
  qed
qed

lemma try_moving_spec:
  assumes wf: "game_wf g"
  shows "\<exists>ok g'. try_moving_falling_body dr dc g = Inr (ok, g') \<and> game_wf g' \<and> same_rest g g'
    \<and> falling_body g' = (if ok then map (\<lambda>b. add_coords b (dr, dc, 0)) (falling_body g) else falling_body g)"
proof -
  let ?h = "\<lambda>b. add_coords b (dr, dc, 0)" and ?f = "moved_block g dr dc"
  have len: "List.length (falling_body g) \<le> BODY_BLOCK_LIMIT" using wf by (simp add: game_wf_def)
  have "\<forall>b \<in> set (falling_body g). \<exists>r. ?f b = Inr r \<and> (\<forall>p. r = Some p \<longrightarrow> p = ?h b \<and> free_cell g (?h b))"
  proof
    fix b assume "b \<in> set (falling_body g)"
    then show "\<exists>r. ?f b = Inr r \<and> (\<forall>p. r = Some p \<longrightarrow> p = ?h b \<and> free_cell g (?h b))"
      using wf by (intro moved_block_spec [OF wf]) (auto simp: game_wf_def)
  qed
  note t = transform_blocks_spec [OF this, of "[]"]
  show ?thesis
  proof (cases "transform_blocks ?f (falling_body g) [] = Inr None")
    case True
    then show ?thesis using wf by (auto simp: try_moving_falling_body_def)
  next
    case False
    then have some: "transform_blocks ?f (falling_body g) [] = Inr (Some (map ?h (falling_body g)))"
      and free: "\<forall>b \<in> set (falling_body g). free_cell g (?h b)" using t len by auto
    have "inj ?h" by (rule injI) (metis add_coords.simps add_right_cancel prod.inject surj_pair)
    then have "distinct (map ?h (falling_body g))" using wf by (simp add: distinct_map game_wf_def inj_on_def)
    then obtain g' where "replace_falling_body (map ?h (falling_body g)) g = Inr g'" "game_wf g'" "same_rest g g'"
        "falling_body g' = map ?h (falling_body g)"
      using replace_falling_body_spec [OF wf, of "map ?h (falling_body g)"] free by (auto simp: free_cell_def)
    then show ?thesis using some by (auto simp: try_moving_falling_body_def)
  qed
qed

section \<open>Falling\<close>

fun down :: "int \<Rightarrow> coords \<Rightarrow> coords" where
  "down k (r, c, l) = (r, c, l + k)"

abbreviation layer_of :: "coords \<Rightarrow> int" where "layer_of p \<equiv> snd (snd p)"

lemma down_simps [simp]: "down 0 p = p" "down j (down k p) = down (k + j) p" "layer_of (down k p) = layer_of p + k"
  by (cases p; simp)+

lemma down_inj: "down k p = down k q \<longleftrightarrow> p = q"
  by (cases p; cases q) simp

lemma sorted_layer_sort: "sorted_wrt (\<lambda>p q. layer_of q \<le> layer_of p) (layer_sort bs)"
proof -
  have "sorted (map (\<lambda>(r, c, l). - l) (layer_sort bs))" by (simp add: layer_sort_def)
  then show ?thesis by (simp add: sorted_map split_beta)
qed

text \<open>Lowering from the bottom up: a cell is never cleared after it has been marked.\<close>

lemma lower_blocks_spec:
  assumes "grids_ok g" "distinct bs" "sorted_wrt (\<lambda>p q. layer_of q \<le> layer_of p) bs"
    "\<forall>p \<in> set bs. in_grid (board g) p \<and> in_grid (board g) (down 1 p)"
  shows "\<exists>b bi. lower_blocks i bs g = Inr (map (down 1) bs, g\<lparr> board := b, body_indices := bi \<rparr>)
    \<and> same_shape (board g) b \<and> same_shape (body_indices g) bi
    \<and> (\<forall>q. in_grid (board g) q \<longrightarrow> cell b q =
         (if q \<in> down 1 ` set bs then FALLING else if q \<in> set bs then EMPTY else cell (board g) q))"
  using assms
proof (induction bs arbitrary: g)
  case Nil
  then show ?case by (auto intro!: exI [of _ "board g"] exI [of _ "body_indices g"])
next
  case (Cons p bs)
  obtain r c l where p: "p = (r, c, l)" by (cases p)
  have ok: "grids_ok g" by (rule Cons.prems(1))
  have in1: "in_grid (board g) p" "in_grid (board g) (down 1 p)" using Cons.prems(4) by auto
  let ?b = "grid_upd (grid_upd (board g) p EMPTY) (down 1 p) FALLING"
  let ?bi = "grid_upd (body_indices g) (down 1 p) (word_of_int i)"
  let ?g = "g\<lparr> board := ?b, body_indices := ?bi \<rparr>"
  have cl: "grid_clear (board g) r c l = Inr (grid_upd (board g) p EMPTY)"
    using ok in1 by (simp add: p grid_clear_upd grids_ok_def)
  have "grids_ok (g\<lparr> board := grid_upd (board g) p EMPTY \<rparr>)" using ok by (simp add: grids_ok_def)
  then have sf: "set_falling i (r, c, l + 1) (g\<lparr> board := grid_upd (board g) p EMPTY \<rparr>) = Inr ?g"
    using set_falling_spec [of "g\<lparr> board := grid_upd (board g) p EMPTY \<rparr>" "down 1 p" i] in1 by (simp add: p)
  have "grids_ok ?g" using ok by (intro grids_ok_painted) simp_all
  then obtain b bi where b: "lower_blocks i bs ?g = Inr (map (down 1) bs, ?g\<lparr> board := b, body_indices := bi \<rparr>)"
      "same_shape ?b b" "same_shape ?bi bi"
      "\<forall>q. in_grid ?b q \<longrightarrow> cell b q =
         (if q \<in> down 1 ` set bs then FALLING else if q \<in> set bs then EMPTY else cell ?b q)"
    using Cons.IH [of ?g] Cons.prems(2-4) by auto
  have "lower_blocks i (p # bs) g = Inr (map (down 1) (p # bs), g\<lparr> board := b, body_indices := bi \<rparr>)"
    using cl sf b(1) by (simp add: p)
  moreover have "same_shape (board g) b" "same_shape (body_indices g) bi"
    using same_shape_trans [of "board g" ?b b] same_shape_trans [of "body_indices g" ?bi bi] b(2,3) by simp_all
  moreover have "cell b q = (if q \<in> down 1 ` set (p # bs) then FALLING
      else if q \<in> set (p # bs) then EMPTY else cell (board g) q)" if q: "in_grid (board g) q" for q
  proof -
    have "p \<notin> set bs" using Cons.prems(2) by simp
    moreover have "down 1 p \<notin> set bs" using Cons.prems(3) by (auto dest: bspec [of _ _ "down 1 p"])
    moreover have "down 1 p \<noteq> p" by (cases p) simp
    moreover have "cell ?b q = (if q = down 1 p then FALLING else if q = p then EMPTY else cell (board g) q)"
      using q in1 ok by (simp add: cell_upd grids_ok_def)
    ultimately show ?thesis using b(4) q by auto
  qed
  ultimately show ?case by blast
qed

lemma down_in_grid: "in_grid b p \<Longrightarrow> 0 \<le> k \<Longrightarrow> in_grid b (down k p) \<longleftrightarrow> layer_of p + k < layers b"
  by (cases p) auto

definition can_fall :: "game \<Rightarrow> bool" where
  "can_fall g \<longleftrightarrow> (\<forall>p \<in> set (falling_body g). free_cell g (down 1 p))"

lemma falling_body_can_go_lower_spec:
  assumes wf: "game_wf g"
  shows "falling_body_can_go_lower g = Inr (can_fall g)"
proof -
  have "blocks_can_go_lower (board g) (falling_body g) bs = Inr (\<forall>p \<in> set bs. free_cell g (down 1 p))"
    if "set bs \<subseteq> set (falling_body g)" for bs
    using that
  proof (induction bs)
    case (Cons p bs)
    obtain r c l where p: "p = (r, c, l)" by (cases p)
    have ig: "in_grid (board g) p" and ok: "grids_ok g" using wf Cons.prems by (auto simp: game_wf_def)
    have "(l + 1 < layers (board g) \<and> cell (board g) (r, c, l + 1) = EMPTY
        \<or> list_ex (\<lambda>q. q = (r, c, l + 1)) (falling_body g)) \<longleftrightarrow> free_cell g (down 1 p)"
    proof (cases "in_grid (board g) (down 1 p)")
      case True
      then show ?thesis
        using free_cell_test [OF wf True] by (auto simp: p falling_body_contains_def)
    next
      case False
      then have "\<not> l + 1 < layers (board g)" using ig by (auto simp: p)
      moreover have "(r, c, l + 1) \<notin> set (falling_body g)" using wf False by (auto simp: game_wf_def p)
      ultimately show ?thesis using False by (auto simp: free_cell_def list_ex_iff)
    qed
    then show ?case
      using Cons can_move_lower_cell [of "board g" r c l] ig ok by (simp add: p grids_ok_def)
  qed simp
  then show ?thesis by (simp add: falling_body_can_go_lower_def can_fall_def)
qed

lemma move_lower_spec:
  assumes wf: "game_wf g" and can: "can_fall g"
  shows "\<exists>g'. move_falling_body_lower g = Inr g' \<and> game_wf g' \<and> same_rest g g'
    \<and> falling_body g' = map (down 1) (layer_sort (falling_body g))"
proof -
  let ?bs = "layer_sort (falling_body g)"
  have ok: "grids_ok g" and d: "distinct ?bs" using wf by (simp_all add: game_wf_def)
  have ig: "\<forall>p \<in> set ?bs. in_grid (board g) p \<and> in_grid (board g) (down 1 p)"
    using wf can by (auto simp: game_wf_def can_fall_def free_cell_def)
  obtain b bi where b: "lower_blocks (falling_body_index g) ?bs g
        = Inr (map (down 1) ?bs, g\<lparr> board := b, body_indices := bi \<rparr>)"
      "same_shape (board g) b" "same_shape (body_indices g) bi"
      "\<forall>q. in_grid (board g) q \<longrightarrow> cell b q =
         (if q \<in> down 1 ` set ?bs then FALLING else if q \<in> set ?bs then EMPTY else cell (board g) q)"
    using lower_blocks_spec [OF ok d sorted_layer_sort ig] by blast
  let ?g = "g\<lparr> board := b, body_indices := bi, falling_body := map (down 1) ?bs \<rparr>"
  have "move_falling_body_lower g = Inr ?g" using b(1) by (simp add: move_falling_body_lower_def)
  moreover have "game_wf ?g"
    using wf b(2-4) ig grids_ok_painted [OF ok b(2,3)]
    by (auto simp: game_wf_def grids_ok_def distinct_map inj_on_def down_inj same_shape_in_grid)
  moreover have "cell b q = SOLID \<longleftrightarrow> cell (board g) q = SOLID" if q: "in_grid (board g) q" for q
    using b(4) [rule_format, OF q] wf can q by (auto simp: game_wf_def can_fall_def free_cell_def)
  then have "solid_cells ?g = solid_cells g"
    by (simp add: solid_cells_def same_shape_in_grid [OF b(2)] cong: conj_cong)
  then have "same_rest g ?g" using b(2) by (simp add: same_rest_def)
  ultimately show ?thesis by auto
qed

text \<open>The body can fall \<open>k\<close> layers when all cells on the way are free.\<close>

definition free_below :: "game \<Rightarrow> int \<Rightarrow> bool" where
  "free_below g k \<longleftrightarrow> (\<forall>p \<in> set (falling_body g). \<forall>j \<in> {1..k}. free_cell g (down j p))"

lemma free_cell_same: "same_rest g g' \<Longrightarrow> free_cell g' p \<longleftrightarrow> free_cell g p"
proof -
  assume s: "same_rest g g'"
  then have "in_grid (board g') p \<longleftrightarrow> in_grid (board g) p" by (simp add: same_rest_def same_shape_in_grid)
  moreover have "p \<in> solid_cells g' \<longleftrightarrow> p \<in> solid_cells g" using s by (simp add: same_rest_def)
  ultimately show ?thesis by (auto simp: free_cell_def solid_cells_def)
qed

lemma ball_steps:
  "0 \<le> (k :: int) \<Longrightarrow> (\<forall>j \<in> {1..k + 1}. P j) \<longleftrightarrow> P 1 \<and> (\<forall>j \<in> {1..k}. P (1 + j))"
proof (intro iffI conjI ballI)
  fix j assume a: "P 1 \<and> (\<forall>j \<in> {1..k}. P (1 + j))" and j: "j \<in> {1..k + 1}"
  show "P j"
  proof (cases "j = 1")
    case False
    with a j have "P (1 + (j - 1))" by (intro a [THEN conjunct2, rule_format]) auto
    then show ?thesis by simp
  qed (use a in simp)
qed auto

lemma drop_loop_lands:
  assumes "game_wf g" "free_below g (int n)" "\<not> free_below g (int n + 1)"
  shows "\<exists>g'. drop_loop g = Some (Inr g') \<and> game_wf g' \<and> same_rest g g' \<and> \<not> can_fall g'
    \<and> set (falling_body g') = down (int n) ` set (falling_body g)"
  using assms
proof (induction n arbitrary: g)
  case 0
  then have "\<not> can_fall g" by (auto simp: free_below_def can_fall_def)
  then have "drop_loop g = Some (Inr g)"
    using 0 by (subst drop_loop.simps) (simp add: falling_body_can_go_lower_spec)
  then show ?case using 0 \<open>\<not> can_fall g\<close> by simp
next
  case (Suc n)
  have can: "can_fall g" using Suc.prems(2) by (auto simp: free_below_def can_fall_def)
  obtain g1 where g1: "move_falling_body_lower g = Inr g1" "game_wf g1" "same_rest g g1"
      "falling_body g1 = map (down 1) (layer_sort (falling_body g))"
    using move_lower_spec [OF Suc.prems(1) can] by blast
  have shift: "free_below g1 k \<longleftrightarrow> (\<forall>p \<in> set (falling_body g). \<forall>j \<in> {1..k}. free_cell g (down (1 + j) p))" for k
    using g1(3,4) by (simp add: free_below_def free_cell_same)
  have iff: "free_below g (k + 1) \<longleftrightarrow> free_below g1 k" if "0 \<le> k" for k
    unfolding shift unfolding free_below_def ball_steps [OF that] using can by (auto simp: can_fall_def)
  have "free_below g1 (int n)" "\<not> free_below g1 (int n + 1)"
    using Suc.prems(2,3) iff [of "int n"] iff [of "int n + 1"] by (simp_all add: add.commute)
  then obtain g' where g': "drop_loop g1 = Some (Inr g')" "game_wf g'" "same_rest g1 g'" "\<not> can_fall g'"
      "set (falling_body g') = down (int n) ` set (falling_body g1)"
    using Suc.IH [OF g1(2)] by blast
  have "drop_loop g = drop_loop g1"
    using Suc.prems(1) can g1(1) by (subst drop_loop.simps) (simp add: falling_body_can_go_lower_spec)
  moreover have "set (falling_body g') = down (int (Suc n)) ` set (falling_body g)"
    using g'(5) g1(4) by (simp add: image_image)
  ultimately show ?case using g' g1(3) same_rest_trans by metis
qed

lemma block_offset_spec:
  assumes wf: "game_wf g" and p: "in_grid (board g) (r, c, l)" and a: "1 \<le> a"
    "\<forall>j \<in> {1..<a}. free_cell g (r, c, l + j)" and m: "m = layers (board g) - 1 - l" "a \<le> m + 1"
  shows "\<exists>k. block_offset_loop (board g) (falling_body g) r c l [a..m] m = Inr k \<and> a - 1 \<le> k \<and> k \<le> m
    \<and> (\<forall>j \<in> {1..k}. free_cell g (r, c, l + j)) \<and> (k < m \<longrightarrow> \<not> free_cell g (r, c, l + (k + 1)))"
  using a m(2)
proof (induction "nat (m + 1 - a)" arbitrary: a)
  case 0
  then show ?case using m p by (auto simp: upto.simps)
next
  case (Suc n)
  then have am: "a \<le> m" by simp
  have ig: "in_grid (board g) (r, c, l + a)" using p m(1) am Suc.prems(1) by auto
  have at: "grid_at (board g) r c (l + a) = Inr (cell (board g) (r, c, l + a))"
    using wf ig by (intro grid_at_cell) (auto simp: game_wf_def grids_ok_def)
  have up: "[a..m] = a # [a + 1..m]" using am by (simp add: upto_rec1)
  show ?case
  proof (cases "free_cell g (r, c, l + a)")
    case True
    then have step: "block_offset_loop (board g) (falling_body g) r c l [a..m] m =
        block_offset_loop (board g) (falling_body g) r c l [a + 1..m] m"
      using free_cell_test [OF wf ig] at by (auto simp: up)
    have "\<forall>j \<in> {1..<a + 1}. free_cell g (r, c, l + j)"
      using Suc.prems(2) True by (auto simp: less_le)
    moreover have "n = nat (m + 1 - (a + 1))" using Suc.hyps(2) by linarith
    ultimately obtain k where "block_offset_loop (board g) (falling_body g) r c l [a + 1..m] m = Inr k"
        "a + 1 - 1 \<le> k" "k \<le> m" "\<forall>j \<in> {1..k}. free_cell g (r, c, l + j)"
        "k < m \<longrightarrow> \<not> free_cell g (r, c, l + (k + 1))"
      using Suc.hyps(1) [of "a + 1"] Suc.prems(1) am by auto
    then show ?thesis unfolding step by (intro exI [of _ k]) simp
  next
    case False
    then have "block_offset_loop (board g) (falling_body g) r c l [a..m] m = Inr (a - 1)"
      using free_cell_test [OF wf ig] at by (auto simp: up)
    then show ?thesis using False Suc.prems(2) am Suc.prems(1) by auto
  qed
qed

lemma free_below_mono: "free_below g k \<Longrightarrow> j \<le> k \<Longrightarrow> free_below g j"
  by (auto simp: free_below_def)

text \<open>The shadow's offset is the number of layers the body can fall.\<close>

lemma shadow_spec:
  assumes wf: "game_wf g" and ne: "falling_body g \<noteq> []"
  shows "\<exists>k. tetris_shadow_layer_offset g = Inr k \<and> 0 \<le> k \<and> free_below g k \<and> \<not> free_below g (k + 1)"
proof -
  let ?free = "\<lambda>p k. \<forall>j \<in> {1..k}. free_cell g (down j p)"
  have "\<exists>k. shadow_loop (board g) (falling_body g) bs s = Inr k \<and> 0 \<le> k \<and> k \<le> s \<and> (\<forall>p \<in> set bs. ?free p k)
      \<and> (k = s \<or> (\<exists>p \<in> set bs. \<not> ?free p (k + 1)))"
    if "set bs \<subseteq> set (falling_body g)" "0 \<le> s" for bs s
    using that
  proof (induction bs arbitrary: s)
    case (Cons p bs)
    obtain r c l where p: "p = (r, c, l)" by (cases p)
    have ig: "in_grid (board g) (r, c, l)" using Cons.prems(1) wf by (auto simp: game_wf_def p)
    let ?m = "layers (board g) - 1 - l"
    have m: "0 \<le> ?m" using ig by simp
    obtain k where k: "block_offset_loop (board g) (falling_body g) r c l [1..?m] ?m = Inr k" "0 \<le> k"
        "k \<le> ?m" "\<forall>j \<in> {1..k}. free_cell g (r, c, l + j)" "k < ?m \<longrightarrow> \<not> free_cell g (r, c, l + (k + 1))"
      using block_offset_spec [OF wf ig, of 1 ?m] m by auto
    have blocked: "\<not> ?free p (k + 1)"
    proof (cases "k < ?m")
      case True
      then show ?thesis using k(2,5) by (auto simp: p intro: bexI [of _ "k + 1"])
    next
      case False
      then have "\<not> in_grid (board g) (r, c, l + (k + 1))" using k(3) by auto
      then show ?thesis using k(2) by (auto simp: p free_cell_def intro: bexI [of _ "k + 1"])
    qed
    obtain k' where k': "shadow_loop (board g) (falling_body g) bs (min s k) = Inr k'" "0 \<le> k'" "k' \<le> min s k"
        "\<forall>p \<in> set bs. ?free p k'" "k' = min s k \<or> (\<exists>p \<in> set bs. \<not> ?free p (k' + 1))"
      using Cons.IH [of "min s k"] Cons.prems k(2) by auto
    have "shadow_loop (board g) (falling_body g) (p # bs) s = Inr k'" using k(1) k'(1) by (simp add: p Let_def)
    moreover have "?free p k'" using k(4) k'(3) by (auto simp: p)
    moreover have "k' = s \<or> (\<exists>p \<in> set (p # bs). \<not> ?free p (k' + 1))"
      using k'(5) blocked by (auto simp: min_def split: if_splits)
    ultimately show ?case using k'(2-4) by auto
  qed auto
  from this [of "falling_body g" "layers (board g)"] obtain k where k:
    "tetris_shadow_layer_offset g = Inr k" "0 \<le> k" "free_below g k"
    "k = layers (board g) \<or> (\<exists>p \<in> set (falling_body g). \<not> ?free p (k + 1))"
    using wf by (auto simp: tetris_shadow_layer_offset_def free_below_def game_wf_def grids_ok_def grid_wf_def)
  obtain p where p: "p \<in> set (falling_body g)" using ne by (cases "falling_body g") auto
  then have "in_grid (board g) p" using wf by (auto simp: game_wf_def)
  then have "\<not> free_cell g (down (layers (board g) + 1) p)"
    by (cases p) (auto simp: free_cell_def)
  moreover have "0 \<le> layers (board g)" using wf by (simp add: game_wf_def grids_ok_def grid_wf_def)
  ultimately have "\<not> free_below g (k + 1)"
    unfolding free_below_def using k(4)
    by (elim disjE) (auto intro!: bexI [OF _ p] bexI [of _ "layers (board g) + 1"])
  then show ?thesis using k(1-3) by auto
qed

end
