(* ===== verification/Tetris_Layers.thy ===== *)
theory Tetris_Layers
  imports Tetris_Board
begin

text \<open>
  Landing, full layers and their destruction; then the properties of the game.
\<close>

section \<open>Landing\<close>

lemma filled_with_spec:
  "\<forall>i \<in> set is. 0 \<le> i \<and> i < int (List.length xs) \<Longrightarrow>
   filled_with xs v is = Inr (\<forall>i \<in> set is. xs ! nat i = v)"
  by (induction "is") (auto simp: array_at_def)

lemma layer_filled_with_spec:
  assumes wf: "grid_wf b" and l: "0 \<le> l" "l < layers b"
  shows "layer_filled_with b l v =
    Inr (\<forall>r c. in_grid b (r, c, l) \<longrightarrow> cell b (r, c, l) = v)"
proof -
  let ?n = "rows b * cols b"
  have n: "cells_in_layer b = ?n" "int (List.length (backing_array b)) = ?n * layers b" "0 \<le> ?n"
    using wf by (simp_all add: grid_wf_def)
  have "(l + 1) * ?n \<le> layers b * ?n" using l n(3) by (intro mult_right_mono) auto
  moreover have "0 \<le> l * ?n" using l n(3) by simp
  ultimately have r: "\<forall>i \<in> set [l * ?n..(l + 1) * ?n - 1]. 0 \<le> i \<and> i < int (List.length (backing_array b))"
    unfolding n(2) mult.commute [of ?n "layers b"] by (auto dest!: zle_diff1_eq [THEN iffD1] intro: order_trans order.strict_trans2)
  have "(\<forall>i \<in> set [l * ?n..(l + 1) * ?n - 1]. backing_array b ! nat i = v) \<longleftrightarrow>
      (\<forall>r c. in_grid b (r, c, l) \<longrightarrow> cell b (r, c, l) = v)" (is "?L \<longleftrightarrow> ?R")
  proof
    assume L: ?L
    show ?R
    proof (intro allI impI)
      fix r c assume ig: "in_grid b (r, c, l)"
      have "r * cols b + c < (r + 1) * cols b" using ig by (simp add: algebra_simps)
      also have "\<dots> \<le> ?n" using ig by (intro mult_right_mono) auto
      finally have "r * cols b + c < ?n" .
      then have "?n * l + r * cols b + c \<in> set [l * ?n..(l + 1) * ?n - 1]"
        using ig by (auto simp: algebra_simps)
      with L show "cell b (r, c, l) = v" by (auto simp: cell_def)
    qed
  next
    assume R: ?R
    show ?L
    proof
      fix i assume i: "i \<in> set [l * ?n..(l + 1) * ?n - 1]"
      let ?j = "i - l * ?n"
      have j: "0 \<le> ?j" "?j < ?n" using i by (auto simp: algebra_simps)
      then have pos: "0 < cols b" using wf by (cases "cols b = 0") (auto simp: grid_wf_def)
      have "?j div cols b < rows b"
      proof (rule ccontr)
        assume "\<not> ?thesis"
        then have "rows b * cols b \<le> ?j div cols b * cols b" using pos by (intro mult_right_mono) auto
        also have "\<dots> \<le> ?j" using pos by (metis add_increasing2 div_mult_mod_eq le_add_same_cancel1 pos_mod_sign)
        finally show False using j(2) by simp
      qed
      then have "in_grid b (?j div cols b, ?j mod cols b, l)"
        using j pos l by (simp add: pos_imp_zdiv_nonneg_iff)
      then have "cell b (?j div cols b, ?j mod cols b, l) = v" using R by blast
      moreover have "?n * l + ?j div cols b * cols b + ?j mod cols b = i"
        using div_mult_mod_eq [of ?j "cols b"] by (simp add: algebra_simps)
      ultimately show "backing_array b ! nat i = v" by (simp add: cell_def)
    qed
  qed
  then show ?thesis using filled_with_spec [OF r] by (simp add: layer_filled_with_def n(1))
qed

definition full_layer :: "block_type grid3 \<Rightarrow> int \<Rightarrow> bool" where
  "full_layer b l \<longleftrightarrow>
     (\<forall>r \<in> set [0..rows b - 1]. \<forall>c \<in> set [0..cols b - 1]. cell b (r, c, l) = SOLID)"

lemma full_layer_iff:
  "0 \<le> l \<Longrightarrow> l < layers b \<Longrightarrow>
   full_layer b l \<longleftrightarrow> (\<forall>r c. in_grid b (r, c, l) \<longrightarrow> cell b (r, c, l) = SOLID)"
  by (auto simp: full_layer_def)

lemma schedule_layers_spec:
  assumes "grid_wf b" "\<forall>l \<in> set ls. 0 \<le> l \<and> l < layers b"
  shows "schedule_layers b ls acc = Inr (acc @ filter (full_layer b) ls)"
  using assms(2)
  by (induction ls arbitrary: acc) (auto simp: layer_filled_with_spec [OF assms(1)] full_layer_iff)

lemma all_empty_spec:
  "grid_wf b \<Longrightarrow> \<forall>p \<in> set bs. in_grid b p \<Longrightarrow> all_empty b bs = Inr (\<forall>p \<in> set bs. cell b p = EMPTY)"
proof (induction bs)
  case (Cons p bs)
  obtain r c l where p: "p = (r, c, l)" by (cases p)
  show ?case using Cons grid_at_cell [of b r c l] by (auto simp: p)
qed simp

lemma push_blocks_ok:
  "List.length acc + List.length bs \<le> BODY_BLOCK_LIMIT \<Longrightarrow> push_blocks acc bs = Inr (acc @ bs)"
  by (induction bs arbitrary: acc) (simp_all add: push_block_ok)

definition piece_ok :: "'a grid3 \<Rightarrow> int \<Rightarrow> bool" where
  "piece_ok b i \<longleftrightarrow> 0 \<le> i \<and> i < 12 \<and> 3 \<le> rows b \<and> 2 \<le> cols b \<and> 4 \<le> layers b"

lemma piece_facts:
  assumes "piece_ok b i"
  shows "distinct (available_bodies ! nat i)" "List.length (available_bodies ! nat i) \<le> BODY_BLOCK_LIMIT"
    "\<forall>p \<in> set (available_bodies ! nat i). in_grid b p" "available_bodies ! nat i \<noteq> []"
proof -
  have "available_bodies ! nat i \<in> set available_bodies"
    using assms by (intro nth_mem) (simp add: piece_ok_def available_bodies_def nat_less_iff)
  moreover have "\<forall>p \<in> set available_bodies. distinct p \<and> List.length p \<le> BODY_BLOCK_LIMIT
      \<and> (\<forall>q \<in> set p. in_grid b q) \<and> p \<noteq> []"
    using assms by (simp add: available_bodies_def BODY_BLOCK_LIMIT_def piece_ok_def)
  ultimately show "distinct (available_bodies ! nat i)" "List.length (available_bodies ! nat i) \<le> BODY_BLOCK_LIMIT"
    "\<forall>p \<in> set (available_bodies ! nat i). in_grid b p" "available_bodies ! nat i \<noteq> []" by auto
qed

text \<open>A game between two pieces: no cell is falling.\<close>

lemma produce_spec:
  assumes ok: "grids_ok g" and piece: "piece_ok (board g) (next_falling_body_index g)"
    and settled: "\<forall>q. in_grid (board g) q \<longrightarrow> cell (board g) q \<noteq> FALLING"
  defines "piece \<equiv> available_bodies ! nat (next_falling_body_index g)"
  shows "\<exists>g'. produce_new_falling_body random g = Inr (set piece \<inter> solid_cells g = {}, g')
    \<and> next_falling_body_index g' = random \<and> solid_cells g' = solid_cells g
    \<and> same_shape (board g) (board g') \<and> layers_to_destroy g' = layers_to_destroy g \<and> grids_ok g'
    \<and> (set piece \<inter> solid_cells g = {} \<longrightarrow> game_wf g' \<and> falling_body g' = layer_sort piece
         \<and> falling_body_index g' = next_falling_body_index g)
    \<and> (set piece \<inter> solid_cells g \<noteq> {} \<longrightarrow> g' = g\<lparr> next_falling_body_index := random \<rparr>)"
proof -
  note p = piece_facts [OF piece, folded piece_def]
  let ?g = "g\<lparr> next_falling_body_index := random \<rparr>" and ?bs = "layer_sort piece"
  have new: "create_new_falling_body piece = Inr ?bs"
    using p(2) push_blocks_ok [of "[]" piece] by (simp add: create_new_falling_body_def)
  have empty: "all_empty (board g) ?bs = Inr (set piece \<inter> solid_cells g = {})"
  proof -
    have "cell (board g) q = EMPTY \<longleftrightarrow> q \<notin> solid_cells g" if "q \<in> set piece" for q
      using settled p(3) that by (cases "cell (board g) q") (auto simp: solid_cells_def)
    then show ?thesis
      using all_empty_spec [of "board g" ?bs] p(3) ok by (auto simp: grids_ok_def)
  qed
  show ?thesis
  proof (cases "set piece \<inter> solid_cells g = {}")
    case False
    then have "produce_new_falling_body random g = Inr (False, ?g)"
      using new empty by (simp add: produce_new_falling_body_def Let_def piece_def)
    then show ?thesis using False ok by (simp add: solid_cells_def grids_ok_def)
  next
    case True
    have "grids_ok ?g" using ok by (simp add: grids_ok_def)
    then obtain b bi where b: "set_falling_blocks (next_falling_body_index g) ?bs ?g
          = Inr (?g\<lparr> board := b, body_indices := bi \<rparr>)"
        "repainted (board g) b (set piece) FALLING" "same_shape (body_indices g) bi"
      using set_falling_blocks_spec [of ?g ?bs "next_falling_body_index g"] p(3) by auto
    let ?g' = "?g\<lparr> board := b, body_indices := bi, falling_body := ?bs,
      falling_body_index := next_falling_body_index g \<rparr>"
    have sh: "same_shape (board g) b" using b(2) by (simp add: repainted_def)
    have "produce_new_falling_body random g = Inr (True, ?g')"
      using new empty True b(1) by (simp add: produce_new_falling_body_def Let_def piece_def)
    moreover have gok: "grids_ok ?g'" using ok sh b(3) by (simp add: grids_ok_def same_shape_def)
    moreover have cells: "cell b q = (if q \<in> set piece then FALLING else cell (board g) q)"
      if "in_grid (board g) q" for q using repainted_cell [OF b(2) that] .
    then have "game_wf ?g'"
      using gok p settled by (auto simp: game_wf_def same_shape_in_grid [OF sh])
    moreover have "solid_cells ?g' = solid_cells g"
      using True cells by (auto simp: solid_cells_def same_shape_in_grid [OF sh] split: if_splits)
    ultimately show ?thesis using True sh by auto
  qed
qed

lemma solidify_spec:
  assumes wf: "game_wf g" and piece: "piece_ok (board g) (next_falling_body_index g)"
  defines "piece \<equiv> available_bodies ! nat (next_falling_body_index g)"
  shows "\<exists>g'. solidify random g = Inr g' \<and> solid_cells g' = solid_cells g \<union> set (falling_body g)
    \<and> layers_to_destroy g' = layers_to_destroy g @
        filter (\<lambda>l. \<forall>r c. in_grid (board g) (r, c, l) \<longrightarrow> (r, c, l) \<in> solid_cells g') (rev [0..layers (board g) - 1])
    \<and> next_falling_body_index g' = random
    \<and> (game_over g' \<longleftrightarrow> set piece \<inter> solid_cells g' \<noteq> {})
    \<and> (\<not> game_over g' \<longrightarrow> game_wf g' \<and> falling_body g' = layer_sort piece)"
proof -
  have ok: "grids_ok g" and ig: "\<forall>p \<in> set (falling_body g). in_grid (board g) p" using wf by (auto simp: game_wf_def)
  obtain b where b: "mark_blocks SOLID (falling_body g) g = Inr (g\<lparr> board := b \<rparr>)"
      "repainted (board g) b (set (falling_body g)) SOLID"
    using mark_blocks_spec [of g "falling_body g" SOLID] ok ig by (auto simp: grids_ok_def)
  have sh: "same_shape (board g) b" using b(2) by (simp add: repainted_def)
  let ?ls = "layers_to_destroy g @ filter (full_layer b) (rev [0..layers (board g) - 1])"
  let ?g = "g\<lparr> board := b, layers_to_destroy := ?ls \<rparr>"
  have gok: "grids_ok ?g" using ok sh by (simp add: grids_ok_def same_shape_def)
  have lay: "layers b = layers (board g)" using sh by (simp add: same_shape_def)
  have sched: "schedule_layers b (rev [0..layers b - 1]) (layers_to_destroy g) = Inr ?ls"
    using schedule_layers_spec [of b "rev [0..layers b - 1]" "layers_to_destroy g"] gok
    by (simp add: grids_ok_def lay)
  have settled: "cell b q \<noteq> FALLING" if "in_grid b q" for q
    using that wf repainted_cell [OF b(2), of q] by (auto simp: same_shape_in_grid [OF sh] game_wf_def)
  have solid: "solid_cells ?g = solid_cells g \<union> set (falling_body g)"
    using ig repainted_cell [OF b(2)] by (auto simp: solid_cells_def same_shape_in_grid [OF sh] split: if_splits)
  have "piece_ok b (next_falling_body_index g)" using piece sh by (simp add: piece_ok_def same_shape_def)
  then obtain g' where g': "produce_new_falling_body random ?g = Inr (set piece \<inter> solid_cells ?g = {}, g')"
      "next_falling_body_index g' = random" "solid_cells g' = solid_cells ?g" "layers_to_destroy g' = ?ls"
      "set piece \<inter> solid_cells ?g = {} \<longrightarrow> game_wf g' \<and> falling_body g' = layer_sort piece"
    using produce_spec [OF gok, of random] settled by (auto simp: piece_def)
  let ?over = "set piece \<inter> solid_cells ?g \<noteq> {}"
  let ?G = "g'\<lparr> game_over := ?over \<rparr>"
  have same: "solid_cells ?G = solid_cells g'" "game_wf ?G = game_wf g'"
    and lay_G: "layers_to_destroy ?G = layers_to_destroy g'"
    by (simp_all add: solid_cells_def game_wf_def grids_ok_def)
  have full: "full_layer b l \<longleftrightarrow> (\<forall>r c. in_grid (board g) (r, c, l) \<longrightarrow> (r, c, l) \<in> solid_cells ?g)"
    if "0 \<le> l" "l < layers (board g)" for l
    using that sh by (simp add: full_layer_iff solid_cells_def same_shape_def)
  have fullf: "filter (full_layer b) (rev [0..layers (board g) - 1]) = filter (\<lambda>l. \<forall>r c. in_grid (board g) (r, c, l) \<longrightarrow>
      (r, c, l) \<in> solid_cells ?g) (rev [0..layers (board g) - 1])"
  proof (rule filter_cong [OF refl])
    fix l assume "l \<in> set (rev [0..layers (board g) - 1])"
    then show "full_layer b l \<longleftrightarrow> (\<forall>r c. in_grid (board g) (r, c, l) \<longrightarrow> (r, c, l) \<in> solid_cells ?g)"
      by (intro full) auto
  qed
  show ?thesis
  proof (intro exI conjI)
    show "solidify random g = Inr ?G"
      unfolding solidify_def b(1) obind.simps using sched g'(1) by simp
    show "solid_cells ?G = solid_cells g \<union> set (falling_body g)" unfolding same g'(3) by (rule solid)
    show "layers_to_destroy ?G = layers_to_destroy g @ filter (\<lambda>l. \<forall>r c. in_grid (board g) (r, c, l) \<longrightarrow>
        (r, c, l) \<in> solid_cells ?G) (rev [0..layers (board g) - 1])"
      unfolding same g'(3) lay_G g'(4) by (rule arg_cong [OF fullf])
    show "next_falling_body_index ?G = random" using g'(2) by simp
    show "game_over ?G \<longleftrightarrow> set piece \<inter> solid_cells ?G \<noteq> {}" unfolding same g'(3) by simp
    show "\<not> game_over ?G \<longrightarrow> game_wf ?G \<and> falling_body ?G = layer_sort piece"
      unfolding same using g'(5) by simp
  qed
qed

end
