(* ===== verification/Tetris_Destroy.thy ===== *)
theory Tetris_Destroy
  imports Tetris_Layers
begin

text \<open>
  The destruction of full layers, column by column.
\<close>

section \<open>The loops over a layer's cells\<close>

lemma layer_cells_in_grid:
  "(r, c) \<in> set (layer_cells b) \<Longrightarrow> 0 \<le> l \<Longrightarrow> l < layers b \<Longrightarrow> in_grid b (r, c, l)"
  "in_grid b (r, c, l) \<Longrightarrow> (r, c) \<in> set (layer_cells b)"
  "distinct (layer_cells b)"
  by (auto simp: layer_cells_def distinct_product)

text \<open>A body that writes one cell of its own position and layer \<open>to\<close>, from a value that the loop does not change.\<close>

lemma for_cells_upd:
  assumes step: "\<And>r c x. (r, c) \<in> set cs \<Longrightarrow> same_shape b x \<Longrightarrow> grid_wf x \<Longrightarrow>
      (\<forall>q. in_grid b q \<longrightarrow> fst q = r \<and> fst (snd q) = c \<longrightarrow> cell x q = cell b q) \<Longrightarrow>
      \<exists>y. body r c x = Inr y \<and> same_shape x y \<and>
        (\<forall>q. in_grid b q \<longrightarrow> cell y q = (if q = (r, c, to) then v r c else cell x q))"
    and d: "distinct cs" and wf: "grid_wf b"
  shows "\<exists>y. for_cells body cs b = Inr y \<and> same_shape b y \<and>
    (\<forall>q. in_grid b q \<longrightarrow> cell y q =
       (if (fst q, fst (snd q)) \<in> set cs \<and> snd (snd q) = to then v (fst q) (fst (snd q)) else cell b q))"
proof -
  have "\<exists>y. for_cells body ds x = Inr y \<and> same_shape b y \<and>
    (\<forall>q. in_grid b q \<longrightarrow> cell y q =
       (if (fst q, fst (snd q)) \<in> set ds \<and> snd (snd q) = to then v (fst q) (fst (snd q)) else cell x q))"
    if "set ds \<subseteq> set cs" "distinct ds" "same_shape b x"
      "\<forall>q. in_grid b q \<longrightarrow> (fst q, fst (snd q)) \<in> set ds \<longrightarrow> cell x q = cell b q" for ds x
    using that
  proof (induction ds arbitrary: x)
    case (Cons rc ds)
    obtain r c where rc: "rc = (r, c)" by (cases rc)
    have "grid_wf x" using Cons.prems(3) wf by (simp add: same_shape_def)
    then obtain y where y: "body r c x = Inr y" "same_shape x y"
        "\<forall>q. in_grid b q \<longrightarrow> cell y q = (if q = (r, c, to) then v r c else cell x q)"
      using step [of r c x] Cons.prems rc by auto
    have sy: "same_shape b y" by (rule same_shape_trans [OF Cons.prems(3) y(2)])
    have "\<forall>q. in_grid b q \<longrightarrow> (fst q, fst (snd q)) \<in> set ds \<longrightarrow> cell y q = cell b q"
      using Cons.prems(2,4) y(3) by (auto simp: rc)
    then obtain z where z: "for_cells body ds y = Inr z" "same_shape b z"
        "\<forall>q. in_grid b q \<longrightarrow> cell z q =
          (if (fst q, fst (snd q)) \<in> set ds \<and> snd (snd q) = to then v (fst q) (fst (snd q)) else cell y q)"
      using Cons.IH [of y] Cons.prems(1,2) sy by auto
    show ?case
    proof (intro exI conjI allI impI)
      show "for_cells body (rc # ds) x = Inr z" using y(1) z(1) by (simp add: rc)
      show "same_shape b z" by (rule z(2))
      fix q assume "in_grid b q"
      then show "cell z q = (if (fst q, fst (snd q)) \<in> set (rc # ds) \<and> snd (snd q) = to
          then v (fst q) (fst (snd q)) else cell x q)"
        using z(3) y(3) by (cases q) (auto simp: rc)
    qed
  qed simp
  from this [of cs b] d show ?thesis by simp
qed

text \<open>The column test: the cell of \<open>layer\<close> is not overwritten by the loop.\<close>

lemma copy_layer_spec:
  assumes wf: "grid_wf b" and l: "0 \<le> from_l" "from_l < layers b" "0 \<le> to_l" "to_l < layers b"
  shows "\<exists>b'. copy_layer b from_l to_l skip_if_is_falling = Inr b' \<and> same_shape b b' \<and>
    (\<forall>r c l. in_grid b (r, c, l) \<longrightarrow> cell b' (r, c, l) =
       (if l = to_l \<and> cell b (r, c, from_l) \<noteq> FALLING then cell b (r, c, from_l) else cell b (r, c, l)))"
proof -
  let ?v = "\<lambda>r c. if cell b (r, c, from_l) \<noteq> FALLING then cell b (r, c, from_l) else cell b (r, c, to_l)"
  have "\<exists>y. for_cells (\<lambda>row col g. obind (skip_if_is_falling g row col from_l) (\<lambda>s.
       if s then Inr g else grid_copy g row col from_l row col to_l)) (layer_cells b) b = Inr y \<and> same_shape b y \<and>
    (\<forall>q. in_grid b q \<longrightarrow> cell y q = (if (fst q, fst (snd q)) \<in> set (layer_cells b) \<and> snd (snd q) = to_l
       then ?v (fst q) (fst (snd q)) else cell b q))"
  proof (rule for_cells_upd [OF _ layer_cells_in_grid(3) wf])
    fix r c x assume rc: "(r, c) \<in> set (layer_cells b)" and x: "same_shape b x" "grid_wf x"
      and eq: "\<forall>q. in_grid b q \<longrightarrow> fst q = r \<and> fst (snd q) = c \<longrightarrow> cell x q = cell b q"
    have ig: "in_grid b (r, c, from_l)" "in_grid b (r, c, to_l)"
      using layer_cells_in_grid(1) [OF rc] l by auto
    then have igx: "in_grid x (r, c, from_l)" "in_grid x (r, c, to_l)" using x(1) by (simp_all add: same_shape_def)
    have same: "cell x (r, c, from_l) = cell b (r, c, from_l)" "cell x (r, c, to_l) = cell b (r, c, to_l)"
      using eq ig by auto
    have at: "grid_at x r c from_l = Inr (cell b (r, c, from_l))"
      using grid_at_cell [OF x(2) igx(1)] same by simp
    show "\<exists>y. obind (skip_if_is_falling x r c from_l) (\<lambda>s.
         if s then Inr x else grid_copy x r c from_l r c to_l) = Inr y \<and> same_shape x y \<and>
       (\<forall>q. in_grid b q \<longrightarrow> cell y q = (if q = (r, c, to_l) then ?v r c else cell x q))"
    proof (cases "cell b (r, c, from_l) = FALLING")
      case True
      then show ?thesis using same at by (auto simp: skip_if_is_falling_def)
    next
      case False
      then show ?thesis
        using at grid_set_upd [OF x(2) igx(2)] cell_upd [OF x(2) igx(2)]
        by (auto simp: skip_if_is_falling_def grid_copy_def same_shape_in_grid [OF x(1)])
    qed
  qed
  then obtain y where "copy_layer b from_l to_l skip_if_is_falling = Inr y" "same_shape b y"
      "\<forall>q. in_grid b q \<longrightarrow> cell y q = (if (fst q, fst (snd q)) \<in> set (layer_cells b) \<and> snd (snd q) = to_l
         then ?v (fst q) (fst (snd q)) else cell b q)"
    unfolding copy_layer_def by blast
  then show ?thesis
    by (intro exI [of _ y]) (auto simp del: in_grid.simps dest: layer_cells_in_grid(2))
qed

text \<open>The same loops over the body indices keep the grid's shape.\<close>

lemma for_cells_shape:
  assumes "\<And>r c x. (r, c) \<in> set cs \<Longrightarrow> same_shape b x \<Longrightarrow> \<exists>y. body r c x = Inr y \<and> same_shape x y"
  shows "\<exists>y. for_cells body cs b = Inr y \<and> same_shape b y"
proof -
  have "\<exists>y. for_cells body ds x = Inr y \<and> same_shape b y" if "set ds \<subseteq> set cs" "same_shape b x" for ds x
    using that
  proof (induction ds arbitrary: x)
    case (Cons rc ds)
    obtain r c where rc: "rc = (r, c)" by (cases rc)
    obtain y where y: "body r c x = Inr y" "same_shape x y" using assms [of r c x] Cons.prems rc by auto
    then show ?case using Cons.IH [of y] same_shape_trans [OF Cons.prems(2) y(2)] Cons.prems(1) by (auto simp: rc)
  qed simp
  from this [of cs b] show ?thesis by simp
qed

lemma skip_spec:
  "grid_wf b \<Longrightarrow> in_grid b (r, c, l) \<Longrightarrow> skip_if_is_falling b r c l = Inr (cell b (r, c, l) = FALLING)"
  by (simp add: skip_if_is_falling_def grid_at_cell)

lemma copy_indices_shape:
  assumes wf: "grid_wf b" "grid_wf bi" and dims: "rows bi = rows b" "cols bi = cols b" "layers bi = layers b"
    and l: "0 \<le> from_l" "from_l < layers b" "0 \<le> to_l" "to_l < layers b"
  shows "\<exists>bi'. copy_layer bi from_l to_l (\<lambda>_. skip_if_is_falling b) = Inr bi' \<and> same_shape bi bi'"
  unfolding copy_layer_def
proof (rule for_cells_shape)
  fix r c x assume rc: "(r, c) \<in> set (layer_cells bi)" and x: "same_shape bi x"
  have wx: "grid_wf x" using x wf(2) by (simp add: same_shape_def)
  have ig: "in_grid b (r, c, from_l)" "in_grid x (r, c, from_l)" "in_grid x (r, c, to_l)"
    using layer_cells_in_grid(1) [OF rc] l x dims by (simp_all add: same_shape_def)
  show "\<exists>y. obind (skip_if_is_falling b r c from_l) (\<lambda>s.
      if s then Inr x else grid_copy x r c from_l r c to_l) = Inr y \<and> same_shape x y"
    using ig wx wf by (simp add: skip_spec grid_copy_def grid_at_cell grid_set_upd)
qed

lemma clear_indices_shape:
  assumes wf: "grid_wf b" "grid_wf bi" and dims: "rows bi = rows b" "cols bi = cols b" "layers bi = layers b"
    and l: "0 \<le> k" "k < layers b"
  shows "\<exists>bi'. clear_layer bi k (\<lambda>_. skip_if_is_falling b) = Inr bi' \<and> same_shape bi bi'"
  unfolding clear_layer_def
proof (rule for_cells_shape)
  fix r c x assume rc: "(r, c) \<in> set (layer_cells bi)" and x: "same_shape bi x"
  have wx: "grid_wf x" using x wf(2) by (simp add: same_shape_def)
  have ig: "in_grid b (r, c, k)" "in_grid x (r, c, k)"
    using layer_cells_in_grid(1) [OF rc] l x dims by (simp_all add: same_shape_def)
  show "\<exists>y. obind (skip_if_is_falling b r c k) (\<lambda>s.
      if s then Inr x else grid_clear x r c k) = Inr y \<and> same_shape x y"
    using ig wx wf by (simp add: skip_spec grid_clear_upd)
qed

lemma clear_layer_spec:
  assumes wf: "grid_wf b" and k: "0 \<le> k" "k < layers b"
  shows "\<exists>b'. clear_layer b k skip_if_is_falling = Inr b' \<and> same_shape b b' \<and>
    (\<forall>r c l. in_grid b (r, c, l) \<longrightarrow> cell b' (r, c, l) =
       (if l = k \<and> cell b (r, c, l) \<noteq> FALLING then default_value b else cell b (r, c, l)))"
proof -
  let ?v = "\<lambda>r c. if cell b (r, c, k) \<noteq> FALLING then default_value b else cell b (r, c, k)"
  have "\<exists>y. for_cells (\<lambda>row col g. obind (skip_if_is_falling g row col k) (\<lambda>s.
       if s then Inr g else grid_clear g row col k)) (layer_cells b) b = Inr y \<and> same_shape b y \<and>
    (\<forall>q. in_grid b q \<longrightarrow> cell y q = (if (fst q, fst (snd q)) \<in> set (layer_cells b) \<and> snd (snd q) = k
       then ?v (fst q) (fst (snd q)) else cell b q))"
  proof (rule for_cells_upd [OF _ layer_cells_in_grid(3) wf])
    fix r c x assume rc: "(r, c) \<in> set (layer_cells b)" and x: "same_shape b x" "grid_wf x"
      and eq: "\<forall>q. in_grid b q \<longrightarrow> fst q = r \<and> fst (snd q) = c \<longrightarrow> cell x q = cell b q"
    have ig: "in_grid b (r, c, k)" using layer_cells_in_grid(1) [OF rc] k by auto
    then have igx: "in_grid x (r, c, k)" using x(1) by (simp add: same_shape_def)
    have same: "cell x (r, c, k) = cell b (r, c, k)" using eq ig by auto
    have dv: "default_value x = default_value b" using x(1) by (simp add: same_shape_def)
    show "\<exists>y. obind (skip_if_is_falling x r c k) (\<lambda>s. if s then Inr x else grid_clear x r c k) = Inr y
       \<and> same_shape x y \<and> (\<forall>q. in_grid b q \<longrightarrow> cell y q = (if q = (r, c, k) then ?v r c else cell x q))"
      using skip_spec [OF x(2) igx] same dv grid_clear_upd [OF x(2) igx] cell_upd [OF x(2) igx]
      by (auto simp: same_shape_in_grid [OF x(1)])
  qed
  then obtain y where "clear_layer b k skip_if_is_falling = Inr y" "same_shape b y"
      "\<forall>q. in_grid b q \<longrightarrow> cell y q = (if (fst q, fst (snd q)) \<in> set (layer_cells b) \<and> snd (snd q) = k
         then ?v (fst q) (fst (snd q)) else cell b q)"
    unfolding clear_layer_def by blast
  then show ?thesis
    by (intro exI [of _ y]) (auto simp del: in_grid.simps dest: layer_cells_in_grid(2))
qed

section \<open>Compacting a column\<close>

text \<open>The two grids of the loops, and a column without falling cells.\<close>

definition pair_ok :: "block_type grid3 \<Rightarrow> u8 grid3 \<Rightarrow> bool" where
  "pair_ok b bi \<longleftrightarrow> grid_wf b \<and> grid_wf bi \<and> rows bi = rows b \<and> cols bi = cols b \<and> layers bi = layers b
     \<and> default_value b = EMPTY"

lemma pair_ok_shape: "pair_ok b bi \<Longrightarrow> same_shape b b' \<Longrightarrow> same_shape bi bi' \<Longrightarrow> pair_ok b' bi'"
  by (simp add: pair_ok_def same_shape_def)

definition calm :: "block_type grid3 \<Rightarrow> int \<Rightarrow> int \<Rightarrow> bool" where
  "calm b r c \<longleftrightarrow> 0 \<le> r \<and> r < rows b \<and> 0 \<le> c \<and> c < cols b \<and>
     (\<forall>l. 0 \<le> l \<longrightarrow> l < layers b \<longrightarrow> cell b (r, c, l) \<noteq> FALLING)"

definition kept_layers :: "bool list \<Rightarrow> int \<Rightarrow> int list" where
  "kept_layers destroyed m = filter (\<lambda>l. \<not> destroyed ! nat l) [0..m - 1]"

lemma kept_layers_Suc:
  "0 \<le> m \<Longrightarrow> kept_layers d (m + 1) = kept_layers d m @ (if d ! nat m then [] else [m])"
  by (simp add: kept_layers_def upto_rec2)

lemma kept_layers_bound: "0 \<le> m \<Longrightarrow> int (List.length (kept_layers d m)) \<le> m"
proof -
  assume "0 \<le> m"
  moreover have "List.length (kept_layers d m) \<le> List.length [0..m - 1]"
    unfolding kept_layers_def by (rule length_filter_le)
  ultimately show ?thesis by (simp add: le_nat_iff)
qed

lemma compact_layers_spec:
  assumes "pair_ok b bi" "int m - 1 \<le> w" "w < layers b" "List.length d = nat (layers b)"
  shows "\<exists>b' bi' w'. compact_layers d (rev [0..int m - 1]) (b, bi, w) = Inr (b', bi', w')
    \<and> same_shape b b' \<and> same_shape bi bi' \<and> w' = w - int (List.length (kept_layers d (int m)))
    \<and> (\<forall>r c. calm b r c \<longrightarrow> calm b' r c
         \<and> (\<forall>l. w < l \<and> l < layers b \<longrightarrow> cell b' (r, c, l) = cell b (r, c, l))
         \<and> map (\<lambda>l. cell b' (r, c, l)) [w' + 1..w] = map (\<lambda>l. cell b (r, c, l)) (kept_layers d (int m)))"
  using assms
proof (induction m arbitrary: b bi w)
  case 0
  then show ?case by (auto simp: kept_layers_def)
next
  case (Suc m)
  have rd: "rev [0..int (Suc m) - 1] = int m # rev [0..int m - 1]" by (simp add: upto_rec2)
  have m: "int m < layers b" using Suc.prems(2,3) by simp
  have at: "array_at d (int m) = Inr (d ! m)" using m Suc.prems(4) by (simp add: array_at_def)
  have ks: "kept_layers d (int (Suc m)) = kept_layers d (int m) @ (if d ! m then [] else [int m])"
    using kept_layers_Suc [of "int m" d] by (simp add: add.commute)
  show ?case
  proof (cases "d ! m")
    case True
    then show ?thesis using Suc.IH [of b bi w] Suc.prems at by (simp add: rd ks del: of_nat_Suc)
  next
    case False
    have wm: "int m \<le> w" "0 \<le> w" using Suc.prems(2) by simp_all
    have "\<exists>b1 bi1. (if int m \<noteq> w
          then obind (copy_layer b (int m) w skip_if_is_falling) (\<lambda>b.
               obind (copy_layer bi (int m) w (\<lambda>_. skip_if_is_falling b)) (\<lambda>bi. Inr (b, bi)))
          else Inr (b, bi)) = Inr (b1, bi1) \<and> same_shape b b1 \<and> same_shape bi bi1 \<and>
        (\<forall>r c. calm b r c \<longrightarrow> (\<forall>l. 0 \<le> l \<and> l < layers b \<longrightarrow>
           cell b1 (r, c, l) = cell b (r, c, if l = w then int m else l)))"
    proof (cases "int m = w")
      case True
      then show ?thesis by (auto intro!: exI [of _ b] exI [of _ bi])
    next
      case ne: False
      obtain b1 where b1: "copy_layer b (int m) w skip_if_is_falling = Inr b1" "same_shape b b1"
          "\<forall>r c l. in_grid b (r, c, l) \<longrightarrow> cell b1 (r, c, l) =
             (if l = w \<and> cell b (r, c, int m) \<noteq> FALLING then cell b (r, c, int m) else cell b (r, c, l))"
        using copy_layer_spec [of b "int m" w] Suc.prems(1,3) m wm by (auto simp: pair_ok_def)
      have p1: "pair_ok b1 bi" using pair_ok_shape [OF Suc.prems(1) b1(2) same_shape_refl] .
      have lay1: "layers b1 = layers b" using b1(2) by (simp add: same_shape_def)
      obtain bi1 where bi1: "copy_layer bi (int m) w (\<lambda>_. skip_if_is_falling b1) = Inr bi1" "same_shape bi bi1"
        using copy_indices_shape [of b1 bi "int m" w] p1 Suc.prems(3) m wm by (auto simp: pair_ok_def lay1)
      have cells: "cell b1 (r, c, l) = cell b (r, c, if l = w then int m else l)"
        if "calm b r c" "0 \<le> l" "l < layers b" for r c l
        using b1(3) that m by (auto simp: calm_def)
      show ?thesis using ne b1(1,2) bi1 cells by auto
    qed
    then obtain b1 bi1 where st: "compact_layers d (rev [0..int (Suc m) - 1]) (b, bi, w)
          = compact_layers d (rev [0..int m - 1]) (b1, bi1, w - 1)"
        "same_shape b b1" "same_shape bi bi1"
        "\<And>r c l. calm b r c \<Longrightarrow> 0 \<le> l \<Longrightarrow> l < layers b \<Longrightarrow> cell b1 (r, c, l) = cell b (r, c, if l = w then int m else l)"
      using False at unfolding rd by auto
    have lay: "layers b1 = layers b" "rows b1 = rows b" "cols b1 = cols b"
      using st(2) by (simp_all add: same_shape_def)
    have calm1: "calm b1 r c" if "calm b r c" for r c
      using that st(4) [OF that] m by (auto simp: calm_def lay)
    obtain b' bi' w' where r: "compact_layers d (rev [0..int m - 1]) (b1, bi1, w - 1) = Inr (b', bi', w')"
        "same_shape b1 b'" "same_shape bi1 bi'" "w' = w - 1 - int (List.length (kept_layers d (int m)))"
        "\<forall>r c. calm b1 r c \<longrightarrow> calm b' r c
         \<and> (\<forall>l. w - 1 < l \<and> l < layers b1 \<longrightarrow> cell b' (r, c, l) = cell b1 (r, c, l))
         \<and> map (\<lambda>l. cell b' (r, c, l)) [w' + 1..w - 1] = map (\<lambda>l. cell b1 (r, c, l)) (kept_layers d (int m))"
      using Suc.IH [of b1 bi1 "w - 1"] pair_ok_shape [OF Suc.prems(1) st(2,3)] Suc.prems(2-4) lay by auto
    have up: "[w' + 1..w] = [w' + 1..w - 1] @ [w]" using r(4) by (intro upto_rec2) simp
    have col: "calm b' r c \<and> (\<forall>l. w < l \<and> l < layers b \<longrightarrow> cell b' (r, c, l) = cell b (r, c, l))
         \<and> map (\<lambda>l. cell b' (r, c, l)) [w' + 1..w] = map (\<lambda>l. cell b (r, c, l)) (kept_layers d (int (Suc m)))"
      if cb: "calm b r c" for r c
    proof -
      note R = r(5) [rule_format, OF calm1 [OF cb]]
      have "map (\<lambda>l. cell b1 (r, c, l)) (kept_layers d (int m)) = map (\<lambda>l. cell b (r, c, l)) (kept_layers d (int m))"
        using st(4) [OF cb] m wm by (intro map_cong) (auto simp: kept_layers_def)
      moreover have "cell b' (r, c, w) = cell b (r, c, int m)"
        using R st(4) [OF cb, of w] wm Suc.prems(3) by (simp add: lay)
      moreover have "cell b' (r, c, l) = cell b (r, c, l)" if "w < l" "l < layers b" for l
        using R st(4) [OF cb, of l] that wm by (simp add: lay)
      ultimately show ?thesis using R False by (simp add: up ks del: of_nat_Suc)
    qed
    show ?thesis
      using st(1) r(1) same_shape_trans [OF st(2) r(2)] same_shape_trans [OF st(3) r(3)] r(4) col False
      by (intro exI [of _ b'] exI [of _ bi'] exI [of _ w']) (simp add: ks del: of_nat_Suc)
  qed
qed

lemma clear_layers_spec:
  assumes "pair_ok b bi" "int m \<le> layers b"
  shows "\<exists>b' bi'. clear_layers (rev [0..int m - 1]) (b, bi) = Inr (b', bi')
    \<and> same_shape b b' \<and> same_shape bi bi'
    \<and> (\<forall>r c l. in_grid b (r, c, l) \<longrightarrow> cell b' (r, c, l) =
         (if l < int m \<and> cell b (r, c, l) \<noteq> FALLING then EMPTY else cell b (r, c, l)))"
  using assms
proof (induction m arbitrary: b bi)
  case 0
  then show ?case by auto
next
  case (Suc m)
  have rd: "rev [0..int (Suc m) - 1] = int m # rev [0..int m - 1]" by (simp add: upto_rec2)
  obtain b1 where b1: "clear_layer b (int m) skip_if_is_falling = Inr b1" "same_shape b b1"
      "\<forall>r c l. in_grid b (r, c, l) \<longrightarrow> cell b1 (r, c, l) =
         (if l = int m \<and> cell b (r, c, l) \<noteq> FALLING then default_value b else cell b (r, c, l))"
    using clear_layer_spec [of b "int m"] Suc.prems by (auto simp: pair_ok_def)
  have p1: "pair_ok b1 bi" using pair_ok_shape [OF Suc.prems(1) b1(2) same_shape_refl] .
  obtain bi1 where bi1: "clear_layer bi (int m) (\<lambda>_. skip_if_is_falling b1) = Inr bi1" "same_shape bi bi1"
    using clear_indices_shape [of b1 bi "int m"] p1 Suc.prems(2) b1(2) by (auto simp: pair_ok_def same_shape_def)
  have lay: "layers b1 = layers b" using b1(2) by (simp add: same_shape_def)
  obtain b' bi' where r: "clear_layers (rev [0..int m - 1]) (b1, bi1) = Inr (b', bi')"
      "same_shape b1 b'" "same_shape bi1 bi'"
      "\<forall>r c l. in_grid b1 (r, c, l) \<longrightarrow> cell b' (r, c, l) =
         (if l < int m \<and> cell b1 (r, c, l) \<noteq> FALLING then EMPTY else cell b1 (r, c, l))"
    using Suc.IH [of b1 bi1] pair_ok_shape [OF Suc.prems(1) b1(2) bi1(2)] Suc.prems(2) lay by auto
  have "cell b' (r, c, l) = (if l < int (Suc m) \<and> cell b (r, c, l) \<noteq> FALLING then EMPTY else cell b (r, c, l))"
    if "in_grid b (r, c, l)" for r c l
    using r(4) b1(3) that Suc.prems(1) by (auto simp del: in_grid.simps simp: same_shape_in_grid [OF b1(2)] pair_ok_def)
  then show ?case
    using b1(1) bi1(1) r(1) same_shape_trans [OF b1(2) r(2)] same_shape_trans [OF bi1(2) r(3)]
    by (intro exI [of _ b'] exI [of _ bi']) (simp add: rd del: of_nat_Suc)
qed

lemma mark_destroyed_spec:
  assumes "\<forall>l \<in> set ls. 0 \<le> l \<and> l < int (List.length d)"
  shows "\<exists>d'. mark_destroyed ls d = Inr d' \<and> List.length d' = List.length d \<and>
    (\<forall>l. 0 \<le> l \<and> l < int (List.length d) \<longrightarrow> d' ! nat l = (l \<in> set ls \<or> d ! nat l))"
  using assms
proof (induction ls arbitrary: d)
  case (Cons k ls)
  obtain d' where d': "mark_destroyed ls (d[nat k := True]) = Inr d'" "List.length d' = List.length d"
      "\<forall>l. 0 \<le> l \<and> l < int (List.length d) \<longrightarrow> d' ! nat l = (l \<in> set ls \<or> d[nat k := True] ! nat l)"
    using Cons.IH [of "d[nat k := True]"] Cons.prems by auto
  have "d' ! nat l = (l \<in> set (k # ls) \<or> d ! nat l)" if "0 \<le> l" "l < int (List.length d)" for l
    using d'(3) that Cons.prems by (auto simp: nth_list_update nat_less_iff)
  then show ?case using d'(1,2) Cons.prems by (auto simp: array_put_def)
qed simp

definition column :: "block_type grid3 \<Rightarrow> int \<Rightarrow> int \<Rightarrow> block_type list" where
  "column b r c = map (\<lambda>l. cell b (r, c, l)) [0..layers b - 1]"

text \<open>A column without falling cells keeps the other layers in order, at the bottom.\<close>

lemma destroy_layers_spec:
  assumes ok: "grids_ok g" and ls: "\<forall>l \<in> set (layers_to_destroy g). 0 \<le> l \<and> l < layers (board g)"
  shows "\<exists>g'. destroy_layers g = Inr g' \<and> grids_ok g' \<and> same_shape (board g) (board g') \<and> layers_to_destroy g' = []
    \<and> falling_body g' = falling_body g
    \<and> (\<forall>r c. calm (board g) r c \<longrightarrow> column (board g') r c =
         (let kept = filter (\<lambda>l. l \<notin> set (layers_to_destroy g)) [0..layers (board g) - 1]
          in replicate (nat (layers (board g)) - List.length kept) EMPTY @ map (\<lambda>l. cell (board g) (r, c, l)) kept))"
proof (cases "layers_to_destroy g = []")
  case True
  then show ?thesis using ok by (simp add: destroy_layers_def column_def)
next
  case False
  let ?b = "board g" and ?n = "layers (board g)"
  have n: "0 \<le> ?n" using ok by (simp add: grids_ok_def grid_wf_def)
  have po: "pair_ok ?b (body_indices g)" using ok by (simp add: pair_ok_def grids_ok_def)
  obtain d where d: "mark_destroyed (layers_to_destroy g) (replicate (nat ?n) False) = Inr d"
      "List.length d = nat ?n" "\<forall>l. 0 \<le> l \<and> l < ?n \<longrightarrow> d ! nat l = (l \<in> set (layers_to_destroy g))"
    using mark_destroyed_spec [of "layers_to_destroy g" "replicate (nat ?n) False"] ls n by (auto simp: nat_less_iff)
  let ?kept = "filter (\<lambda>l. l \<notin> set (layers_to_destroy g)) [0..?n - 1]"
  have k: "kept_layers d ?n = ?kept" using d(3) by (auto simp: kept_layers_def intro!: filter_cong)
  define e where "e = ?n - int (List.length ?kept)"
  have e: "0 \<le> e" "e \<le> ?n" using kept_layers_bound [OF n, of d] by (auto simp: k e_def)
  obtain b1 bi1 where c: "compact_layers d (rev [0..?n - 1]) (?b, body_indices g, ?n - 1) = Inr (b1, bi1, e - 1)"
      "same_shape ?b b1" "same_shape (body_indices g) bi1"
      "\<forall>r c. calm ?b r c \<longrightarrow> calm b1 r c \<and>
         map (\<lambda>l. cell b1 (r, c, l)) [e..?n - 1] = map (\<lambda>l. cell ?b (r, c, l)) ?kept"
  proof -
    have e1: "?n - 1 - int (List.length (kept_layers d ?n)) = e - 1" by (simp add: k e_def)
    from compact_layers_spec [OF po, of "nat ?n" "?n - 1" d] n d(2) show ?thesis
      by (simp add: e1) (elim exE conjE, rule that, auto simp: k)
  qed
  have lay: "layers b1 = ?n" using c(2) by (simp add: same_shape_def)
  obtain b2 bi2 where cl: "clear_layers (rev [0..e - 1]) (b1, bi1) = Inr (b2, bi2)"
      "same_shape b1 b2" "same_shape bi1 bi2"
      "\<forall>r c l. in_grid b1 (r, c, l) \<longrightarrow> cell b2 (r, c, l) =
         (if l < e \<and> cell b1 (r, c, l) \<noteq> FALLING then EMPTY else cell b1 (r, c, l))"
    using clear_layers_spec [of b1 bi1 "nat e"] pair_ok_shape [OF po c(2,3)] e lay by auto
  have sh: "same_shape ?b b2" "same_shape (body_indices g) bi2"
    using same_shape_trans [OF c(2) cl(2)] same_shape_trans [OF c(3) cl(3)] by auto
  let ?g = "g\<lparr> board := b2, body_indices := bi2, layers_to_destroy := [] \<rparr>"
  have dl: "destroy_layers g = Inr ?g" using False d(1) c(1) cl(1) by (simp add: destroy_layers_def)
  have gok: "grids_ok ?g" using grids_ok_painted [OF ok sh] by (simp add: grids_ok_def)
  have col: "column b2 r c' = replicate (nat e) EMPTY @ map (\<lambda>l. cell ?b (r, c', l)) ?kept"
    if cb: "calm ?b r c'" for r c'
  proof -
    have c1: "calm b1 r c'" using c(4) cb by blast
    have split: "[0..?n - 1] = [0..e - 1] @ [e..?n - 1]" using upto_split1 [of 0 e "?n - 1"] e by (auto simp: upto.simps)
    have "map (\<lambda>l. cell b2 (r, c', l)) [0..e - 1] = replicate (nat e) EMPTY"
      using cl(4) c1 e lay by (intro nth_equalityI) (auto simp: calm_def)
    moreover have "map (\<lambda>l. cell b2 (r, c', l)) [e..?n - 1] = map (\<lambda>l. cell b1 (r, c', l)) [e..?n - 1]"
      using cl(4) c1 e lay by (intro map_cong) (auto simp: calm_def)
    ultimately show ?thesis
      using c(4) cb sh(1) by (simp add: column_def same_shape_def split)
  qed
  have "nat e = nat ?n - List.length ?kept" by (simp add: e_def nat_diff_distrib)
  then show ?thesis using dl gok sh(1) col by (intro exI [of _ ?g]) (simp add: Let_def)
qed

end
