(* ===== verification/Tetris_Properties.thy ===== *)
theory Tetris_Properties
  imports Tetris_Destroy
begin

text \<open>
  The properties of the game: one update, the instant drop and its shadow, the destruction
  of layers, and which bodies can rotate.
\<close>

section \<open>A frame\<close>

lemma handle_rotations_spec:
  assumes "game_wf g"
  shows "\<exists>g'. handle_rotations input g = Inr g' \<and> game_wf g' \<and> same_rest g g'"
proof -
  have "\<exists>g'. obind (try_rotating_falling_body axis g) (\<lambda>(_, g). Inr g) = Inr g' \<and> game_wf g' \<and> same_rest g g'"
    for axis using try_rotating_spec [OF assms, of axis] by auto
  then show ?thesis using assms same_rest_refl by (auto simp: handle_rotations_def)
qed

lemma move_on_key_spec:
  assumes "game_wf g"
  shows "\<exists>g'. move_on_key k d g = Inr g' \<and> game_wf g' \<and> same_rest g g'"
  using try_moving_spec [OF assms, of "fst d" "snd d"] assms same_rest_refl by (auto simp: move_on_key_def)

lemma handle_moves_spec:
  assumes "game_wf g"
  shows "\<exists>g'. handle_moves input sector g = Inr g' \<and> game_wf g' \<and> same_rest g g'"
proof -
  let ?d = "camera_relative_move_delta sector"
  obtain g1 where g1: "move_on_key (key_pressed Key_LEFT_ARROW input) (?d (-1) 0) g = Inr g1" "game_wf g1" "same_rest g g1"
    using move_on_key_spec [OF assms] by blast
  obtain g2 where g2: "move_on_key (key_pressed Key_RIGHT_ARROW input) (?d 1 0) g1 = Inr g2" "game_wf g2" "same_rest g1 g2"
    using move_on_key_spec [OF g1(2)] by blast
  obtain g3 where g3: "move_on_key (key_pressed Key_UP_ARROW input) (?d 0 (-1)) g2 = Inr g3" "game_wf g3" "same_rest g2 g3"
    using move_on_key_spec [OF g2(2)] by blast
  obtain g4 where g4: "move_on_key (key_pressed Key_DOWN_ARROW input) (?d 0 1) g3 = Inr g4" "game_wf g4" "same_rest g3 g4"
    using move_on_key_spec [OF g3(2)] by blast
  have "same_rest g g4" using g1(3) g2(3) g3(3) g4(3) same_rest_trans by blast
  then show ?thesis using g1(1) g2(1) g3(1) g4(1,2) by (simp add: handle_moves_def)
qed

text \<open>What a landed body is: it cannot fall further, and its blocks were free.\<close>

definition rests_on :: "game \<Rightarrow> coords set \<Rightarrow> bool" where
  "rests_on g S \<longleftrightarrow> (\<forall>p \<in> S. free_cell g p) \<and> (\<exists>p \<in> S. \<not> free_cell g (down 1 p))"

lemma rests_on_body:
  assumes "game_wf g" "\<not> can_fall g"
  shows "rests_on g (set (falling_body g))"
  using assms unfolding rests_on_def can_fall_def free_cell_def game_wf_def by auto

lemma drop_lands:
  assumes wf: "game_wf g" and ne: "falling_body g \<noteq> []"
  shows "\<exists>k g'. tetris_shadow_layer_offset g = Inr k \<and> 0 \<le> k \<and> drop_loop g = Some (Inr g') \<and> game_wf g'
    \<and> same_rest g g' \<and> \<not> can_fall g' \<and> set (falling_body g') = down k ` set (falling_body g)"
proof -
  obtain k where k: "tetris_shadow_layer_offset g = Inr k" "0 \<le> k" "free_below g k" "\<not> free_below g (k + 1)"
    using shadow_spec [OF wf ne] by blast
  then show ?thesis using drop_loop_lands [OF wf, of "nat k"] by auto
qed

text \<open>The outcome of a frame: the body still falls, or it came to rest and the next one was tried.\<close>

definition still_falling :: "game \<Rightarrow> game \<Rightarrow> bool" where
  "still_falling g g' \<longleftrightarrow> game_wf g' \<and> solid_cells g' = solid_cells g \<and> layers_to_destroy g' = layers_to_destroy g
     \<and> List.length (falling_body g') = List.length (falling_body g)"

definition landed :: "game \<Rightarrow> game \<Rightarrow> bool" where
  "landed g g' \<longleftrightarrow> (\<exists>S. card S = List.length (falling_body g) \<and> rests_on g S \<and> solid_cells g' = solid_cells g \<union> S
     \<and> set (layers_to_destroy g') = {l. 0 \<le> l \<and> l < layers (board g) \<and>
         (\<forall>r c. in_grid (board g) (r, c, l) \<longrightarrow> (r, c, l) \<in> solid_cells g')}
     \<and> (game_over g' \<longleftrightarrow> set (available_bodies ! nat (next_falling_body_index g)) \<inter> solid_cells g' \<noteq> {})
     \<and> (\<not> game_over g' \<longrightarrow> game_wf g' \<and> set (falling_body g') = set (available_bodies ! nat (next_falling_body_index g))))"

lemma same_rest_facts:
  assumes "same_rest g g'"
  shows "next_falling_body_index g' = next_falling_body_index g" "layers_to_destroy g' = layers_to_destroy g"
    "same_shape (board g) (board g')" "solid_cells g' = solid_cells g"
    "List.length (falling_body g') = List.length (falling_body g)"
  using assms by (cases g; cases g'; simp add: same_rest_def)+

lemma solidify_landed:
  assumes wf: "game_wf g" and start: "game_wf g0" "same_rest g0 g" and stuck: "\<not> can_fall g"
    and piece: "piece_ok (board g0) (next_falling_body_index g0)" and none: "layers_to_destroy g0 = []"
  shows "\<exists>g'. solidify random g = Inr g' \<and> landed g0 g'"
proof -
  note same = same_rest_facts [OF start(2)]
  have "piece_ok (board g) (next_falling_body_index g)" using piece same(1,3) by (simp add: piece_ok_def same_shape_def)
  then obtain g' where g': "solidify random g = Inr g'" "solid_cells g' = solid_cells g \<union> set (falling_body g)"
      "layers_to_destroy g' = layers_to_destroy g @
        filter (\<lambda>l. \<forall>r c. in_grid (board g) (r, c, l) \<longrightarrow> (r, c, l) \<in> solid_cells g') (rev [0..layers (board g) - 1])"
      "game_over g' \<longleftrightarrow> set (available_bodies ! nat (next_falling_body_index g)) \<inter> solid_cells g' \<noteq> {}"
      "\<not> game_over g' \<longrightarrow> game_wf g' \<and> falling_body g' = layer_sort (available_bodies ! nat (next_falling_body_index g))"
    using solidify_spec [OF wf, of random] by blast
  have "rests_on g0 (set (falling_body g))"
    using rests_on_body [OF wf stuck] by (simp add: rests_on_def free_cell_same [OF start(2)])
  moreover have "card (set (falling_body g)) = List.length (falling_body g0)"
    using wf same(5) by (simp add: game_wf_def distinct_card)
  moreover have "set (layers_to_destroy g') = {l. 0 \<le> l \<and> l < layers (board g0) \<and>
         (\<forall>r c. in_grid (board g0) (r, c, l) \<longrightarrow> (r, c, l) \<in> solid_cells g')}"
    using g'(3) none same(2,3) by (auto simp: same_shape_in_grid [OF same(3)] same_shape_def simp del: in_grid.simps)
  ultimately show ?thesis
    using g' same(1,4) unfolding landed_def by (intro exI [of _ g'] conjI exI [of _ "set (falling_body g)"]) auto
qed

lemma handle_fall_spec:
  assumes wf: "game_wf g" and ne: "falling_body g \<noteq> []" and start: "game_wf g0" "same_rest g0 g"
    and piece: "piece_ok (board g0) (next_falling_body_index g0)" and none: "layers_to_destroy g0 = []"
  shows "\<exists>g'. handle_fall fi g = Some (Inr g') \<and> (still_falling g0 g' \<or> landed g0 g')"
proof -
  let ?t = "\<lambda>g'. g'\<lparr> current_move_started_at_tick := fi_after fi \<rparr>"
  have still: "still_falling g0 (?t g')" "still_falling g0 g'" if "game_wf g'" "same_rest g0 g'" for g'
    using that same_rest_facts [OF that(2)]
    by (simp_all add: still_falling_def game_wf_def grids_ok_def solid_cells_def)
  have land: "\<exists>g'. solidify (fi_random fi) g1 = Inr g' \<and> landed g0 (?t g')"
    if g1: "game_wf g1" "same_rest g0 g1" "\<not> can_fall g1" for g1
    using solidify_landed [OF g1(1) start(1) g1(2,3) piece none, of "fi_random fi"]
    by (auto simp: landed_def game_wf_def grids_ok_def solid_cells_def)
  obtain g1 where g1: "drop_loop g = Some (Inr g1)" "game_wf g1" "same_rest g g1" "\<not> can_fall g1"
    using drop_lands [OF wf ne] by blast
  obtain g2 where g2: "solidify (fi_random fi) g1 = Inr g2" "landed g0 (?t g2)"
    using land [OF g1(2) same_rest_trans [OF start(2) g1(3)] g1(4)] by blast
  show ?thesis
  proof (cases "can_fall g")
    case True
    obtain g3 where g3: "move_falling_body_lower g = Inr g3" "game_wf g3" "same_rest g g3"
      using move_lower_spec [OF wf True] by blast
    then have "still_falling g0 (?t g3)" using still same_rest_trans [OF start(2) g3(3)] by blast
    then show ?thesis
      using True g1(1) g2 g3(1) still(2) [OF wf start(2)] falling_body_can_go_lower_spec [OF wf]
      by (auto simp: handle_fall_def Let_def)
  next
    case False
    obtain g3 where "solidify (fi_random fi) g = Inr g3" "landed g0 (?t g3)"
      using land [OF wf start(2) False] by blast
    then show ?thesis
      using False g1(1) g2 still(2) [OF wf start(2)] falling_body_can_go_lower_spec [OF wf]
      by (auto simp: handle_fall_def Let_def)
  qed
qed

text \<open>
  C6: One update with no layer waiting for destruction, whatever the keys, the clock and the camera: it
  returns, no assertion of the grid or of the bounded arrays fails, and either the body is
  still falling - its cells are exactly the \<open>FALLING\<close> ones, it has as many blocks as before and no \<open>SOLID\<close>
  cell changed - or it came to rest: the \<open>SOLID\<close> cells are the old ones and, for each of its blocks, a cell
  that was free, one of them with no free cell below; the layers scheduled are exactly the
  full ones; and the game is over exactly when the next body overlaps a \<open>SOLID\<close> cell.
\<close>

theorem update_follows_rules:
  assumes "game_wf g" "falling_body g \<noteq> []" "layers_to_destroy g = []"
    "piece_ok (board g) (next_falling_body_index g)"
  shows "\<exists>g'. update fi g = Some (Inr g') \<and> (still_falling g g' \<or> landed g g')"
proof -
  obtain g1 where g1: "handle_rotations (fi_input fi) g = Inr g1" "game_wf g1" "same_rest g g1"
    using handle_rotations_spec [OF assms(1)] by blast
  obtain g2 where g2: "handle_moves (fi_input fi) (fi_sector fi) g1 = Inr g2" "game_wf g2" "same_rest g1 g2"
    using handle_moves_spec [OF g1(2)] by blast
  have s: "same_rest g g2" by (rule same_rest_trans [OF g1(3) g2(3)])
  have "falling_body g2 \<noteq> []" using same_rest_facts(5) [OF s] assms(2) by auto
  from handle_fall_spec [OF g2(2) this assms(1) s assms(4,3)] show ?thesis
    using g1(1) g2(1) assms(3) by (simp add: update_def destroy_layers_def)
qed

text \<open>A game with its first body, the start of the program's \<^verbatim>\<open>run\<close>, on a small board.\<close>

definition started :: "int \<Rightarrow> int \<Rightarrow> game" where
  "started first second = (case produce_new_falling_body second (game_new 3 2 6 first) of Inr (_, g) \<Rightarrow> g)"

lemma started_spec:
  assumes "0 \<le> first" "first < 12"
  shows "game_wf (started first second)" "falling_body (started first second) = layer_sort (available_bodies ! nat first)"
    "layers_to_destroy (started first second) = []" "next_falling_body_index (started first second) = second"
    "rows (board (started first second)) = 3" "cols (board (started first second)) = 2"
    "layers (board (started first second)) = 6" "solid_cells (started first second) = {}"
proof -
  let ?g = "game_new 3 2 6 first"
  have ok: "grids_ok ?g" by (simp add: game_new_def grids_ok_def grid3_new_wf) (simp add: grid3_new_def)
  have dims: "rows (board ?g) = 3" "cols (board ?g) = 2" "layers (board ?g) = 6" "next_falling_body_index ?g = first"
    "layers_to_destroy ?g = []"
    by (simp_all add: game_new_def grid3_new_def)
  have empty: "cell (board ?g) q = EMPTY" if "in_grid (board ?g) q" for q
    using grid3_new_wf(2) [of 3 2 6 EMPTY q] that by (simp add: game_new_def)
  then have sc: "solid_cells ?g = {}" by (auto simp: solid_cells_def)
  have "piece_ok (board ?g) (next_falling_body_index ?g)" using assms dims by (simp add: piece_ok_def)
  from produce_spec [OF ok this, of second] empty obtain g' where
    g': "produce_new_falling_body second ?g = Inr (True, g')" "next_falling_body_index g' = second" "solid_cells g' = {}"
    "same_shape (board ?g) (board g')" "layers_to_destroy g' = []" "game_wf g'"
    "falling_body g' = layer_sort (available_bodies ! nat first)"
    using sc dims by auto
  have "started first second = g'" by (simp add: started_def g'(1))
  then show "game_wf (started first second)" "falling_body (started first second) = layer_sort (available_bodies ! nat first)"
    "layers_to_destroy (started first second) = []" "next_falling_body_index (started first second) = second"
    "rows (board (started first second)) = 3" "cols (board (started first second)) = 2"
    "layers (board (started first second)) = 6" "solid_cells (started first second) = {}"
    using g' dims by (simp_all add: same_shape_def)
qed

text \<open>A frame without keys in which the fall is due.\<close>

definition idle_frame :: frame_input where
  "idle_frame = \<lparr> fi_input = initial_input, fi_sector = 0, fi_now = 20000, fi_after = 20000, fi_random = 7 \<rparr>"

lemma update_follows_rules_witness:
  "\<exists>g'. update idle_frame (started 1 5) = Some (Inr g')
     \<and> (still_falling (started 1 5) g' \<or> landed (started 1 5) g')"
  by (rule update_follows_rules)
    (simp_all add: started_spec piece_ok_def available_bodies_def layer_sort_def)

text \<open>
  C17: The instant drop returns, with the body where the shadow was drawn: the offset computed from the
  first obstacles under the blocks is the number of layers the loop moves the body down, and there
  it cannot go lower.
\<close>

theorem hard_drop_lands_on_shadow:
  assumes "game_wf g" "falling_body g \<noteq> []"
  shows "\<exists>k g'. tetris_shadow_layer_offset g = Inr k \<and> drop_loop g = Some (Inr g')
    \<and> set (falling_body g') = (\<lambda>(row, col, layer). (row, col, layer + k)) ` set (falling_body g)
    \<and> falling_body_can_go_lower g' = Inr False \<and> solid_cells g' = solid_cells g"
proof -
  obtain k g' where k: "tetris_shadow_layer_offset g = Inr k" "drop_loop g = Some (Inr g')" "game_wf g'"
      "same_rest g g'" "\<not> can_fall g'" "set (falling_body g') = down k ` set (falling_body g)"
    using drop_lands [OF assms] by blast
  have "down k = (\<lambda>(row, col, layer). (row, col, layer + k))" by auto
  then show ?thesis
    using k falling_body_can_go_lower_spec [OF k(3)] same_rest_facts(4) [OF k(4)] by auto
qed

lemma hard_drop_lands_on_shadow_witness:
  "\<exists>k g'. tetris_shadow_layer_offset (started 4 0) = Inr k \<and> drop_loop (started 4 0) = Some (Inr g')
    \<and> set (falling_body g') = (\<lambda>(row, col, layer). (row, col, layer + k)) ` set (falling_body (started 4 0))
    \<and> falling_body_can_go_lower g' = Inr False \<and> solid_cells g' = solid_cells (started 4 0)"
  by (rule hard_drop_lands_on_shadow) (simp_all add: started_spec available_bodies_def layer_sort_def)

section \<open>The destruction of layers\<close>

text \<open>
  C36: Destroying the scheduled layers: every column without a falling cell keeps the cells of
  the other layers in their order at the bottom, under as many empty ones as layers were
  destroyed; nothing is scheduled afterwards and no index of a grid is out of range.
\<close>

theorem destroyed_layers_compact_columns:
  assumes "grids_ok g" "\<forall>l \<in> set (layers_to_destroy g). 0 \<le> l \<and> l < layers (board g)"
  shows "\<exists>g'. destroy_layers g = Inr g' \<and> grids_ok g' \<and> layers_to_destroy g' = []
    \<and> (\<forall>row col. calm (board g) row col \<longrightarrow> column (board g') row col =
         (let kept = filter (\<lambda>l. l \<notin> set (layers_to_destroy g)) [0..layers (board g) - 1]
          in replicate (nat (layers (board g)) - List.length kept) EMPTY @ map (\<lambda>l. cell (board g) (row, col, l)) kept))"
  using destroy_layers_spec [OF assms] by blast

text \<open>The lowest layer filled by a square beside two \<open>SOLID\<close> cells; the next body is number 5.\<close>

definition nearly_full :: game where
  "nearly_full = (game_new 3 2 6 5)\<lparr>
     board := (grid3_new 3 2 6 EMPTY)\<lparr> backing_array := replicate 30 EMPTY @ [FALLING, FALLING, FALLING, FALLING, SOLID, SOLID] \<rparr>,
     falling_body := [(0, 0, 5), (0, 1, 5), (1, 0, 5), (1, 1, 5)], falling_body_index := 3 \<rparr>"

lemma nearly_full_ok: "grids_ok nearly_full"
  by (simp add: nearly_full_def game_new_def grids_ok_def grid_wf_def grid3_new_def)

lemma destroyed_layers_compact_columns_witness:
  "\<exists>g'. destroy_layers (nearly_full\<lparr> layers_to_destroy := [5] \<rparr>) = Inr g' \<and>
     column (board g') 2 0 = [EMPTY, EMPTY, EMPTY, EMPTY, EMPTY, EMPTY]"
proof -
  let ?g = "nearly_full\<lparr> layers_to_destroy := [5] \<rparr>"
  have ok: "grids_ok ?g" using nearly_full_ok by (simp add: grids_ok_def)
  have lay: "layers (board ?g) = 6" by (simp add: nearly_full_def game_new_def grid3_new_def)
  have cells: "map (\<lambda>l. cell (board ?g) (2, 0, l)) [0..5] = [EMPTY, EMPTY, EMPTY, EMPTY, EMPTY, SOLID]" by code_simp
  have "list_all (\<lambda>l. cell (board ?g) (2, 0, l) \<noteq> FALLING) [0..5]" by code_simp
  moreover have "rows (board ?g) = 3" "cols (board ?g) = 2" by (simp_all add: nearly_full_def game_new_def grid3_new_def)
  ultimately have calm: "calm (board ?g) 2 0" by (auto simp: calm_def lay [simplified] list_all_iff)
  have "filter (\<lambda>l. l \<notin> set [5]) [0..6 - 1] = [0..4 :: int]" by code_simp
  moreover have "layers_to_destroy ?g = [5]" by simp
  ultimately have kept: "filter (\<lambda>l. l \<notin> set (layers_to_destroy ?g)) [0..layers (board ?g) - 1] = [0..4]"
    by (simp only: lay)
  have "\<forall>l \<in> set (layers_to_destroy ?g). 0 \<le> l \<and> l < layers (board ?g)"
    by (simp add: lay [simplified])
  from destroyed_layers_compact_columns [OF ok this] calm obtain g' where g': "destroy_layers ?g = Inr g'"
      "column (board g') 2 0 = replicate (nat 6 - List.length [0..4]) EMPTY @ map (\<lambda>l. cell (board ?g) (2, 0, l)) [0..4]"
    unfolding Let_def unfolding kept unfolding lay by blast
  have "map (\<lambda>l. cell (board ?g) (2, 0, l)) [0..4] = [EMPTY, EMPTY, EMPTY, EMPTY, EMPTY]" by code_simp
  then show ?thesis using g' by (simp add: length_upto)
qed

text \<open>
  The destruction of layers loses a cell of the falling body: a layer is full, the next body spawns
  above it without overlap, and the next update's destruction copies the empty cell above a
  \<open>FALLING\<close> one over it, because the copy only skips falling sources, not falling targets. The
  body still has the block, its cell is empty.
\<close>

theorem destruction_loses_falling_cell:
  "\<exists>g g'. solidify 0 nearly_full = Inr g \<and> layers_to_destroy g = [5] \<and> \<not> game_over g
     \<and> list_all (\<lambda>(row, col, layer). grid_at (board g) row col layer = Inr FALLING) (falling_body g)
     \<and> destroy_layers g = Inr g' \<and> (0, 0, 2) \<in> set (falling_body g') \<and> grid_at (board g') 0 0 2 = Inr EMPTY"
proof -
  have "case solidify 0 nearly_full of Inl _ \<Rightarrow> False | Inr g \<Rightarrow> layers_to_destroy g = [5] \<and> \<not> game_over g
     \<and> list_all (\<lambda>(row, col, layer). grid_at (board g) row col layer = Inr FALLING) (falling_body g)
     \<and> (case destroy_layers g of Inl _ \<Rightarrow> False | Inr g' \<Rightarrow>
          (0, 0, 2) \<in> set (falling_body g') \<and> grid_at (board g') 0 0 2 = Inr EMPTY)"
    by code_simp
  then show ?thesis by (auto split: sum.splits)
qed

section \<open>Rotations\<close>

text \<open>
  Which bodies never rotate: when the sums of the smallest and the largest coordinate on the two axes
  of the rotation's plane differ in parity, the rotation is refused and changes nothing, wherever the body is
  and however much room it has. Moving or lowering the body keeps both parities, so the domino, the bar
  and the square can never be rotated by the keys.
\<close>

theorem odd_boxes_never_rotate:
  assumes "falling_body g \<noteq> []" "box_sum (falling_body g) = (x, y, z)"
    "odd (case axis of Axis_X \<Rightarrow> y + z | Axis_Y \<Rightarrow> x + z | Axis_Z \<Rightarrow> x + y)"
  shows "try_rotating_falling_body axis g = Inr (False, g)"
proof -
  obtain b bs where b: "falling_body g = b # bs" using assms(1) by (cases "falling_body g") auto
  obtain r c l where p: "b = (r, c, l)" by (cases b)
  have "rotated_block g (x, y, z) axis b = Inr None"
    using assms(3) by (cases axis) (auto simp: rotated_block_def rotate_90_doubled_def p Let_def)
  then show ?thesis using assms(2) by (simp add: try_rotating_falling_body_def b)
qed

lemma odd_boxes_never_rotate_witness:
  "try_rotating_falling_body Axis_X (started 0 1) = Inr (False, started 0 1)
    \<and> try_rotating_falling_body Axis_Y (started 2 1) = Inr (False, started 2 1)"
proof
  have b: "falling_body (started 0 1) = [(0, 0, 1), (0, 0, 0)]"
    "falling_body (started 2 1) = [(0, 0, 3), (0, 0, 2), (0, 0, 1), (0, 0, 0)]"
    by (simp_all add: started_spec available_bodies_def layer_sort_def)
  have s: "box_sum [(0, 0, 1), (0, 0, 0)] = (0, 0, 1)" "box_sum [(0, 0, 3), (0, 0, 2), (0, 0, 1), (0, 0, 0)] = (0, 0, 3)"
    by (simp_all add: box_sum_def box_min_def box_max_def U32_MAX_def)
  show "try_rotating_falling_body Axis_X (started 0 1) = Inr (False, started 0 1)"
    by (rule odd_boxes_never_rotate [of _ 0 0 1]) (simp_all add: b s)
  show "try_rotating_falling_body Axis_Y (started 2 1) = Inr (False, started 2 1)"
    by (rule odd_boxes_never_rotate [of _ 0 0 3]) (simp_all add: b s)
qed

section \<open>Four quarter turns\<close>

lemma box_min_fold: "fold (\<lambda>b m. min m (f b)) bs (k :: int) = Min (insert k (f ` set bs))"
proof (induction bs arbitrary: k)
  case (Cons b bs)
  have "Min (insert (min k (f b)) (f ` set bs)) = Min (insert k (insert (f b) (f ` set bs)))"
    by (cases "bs = []") (simp_all add: min.assoc)
  then show ?case using Cons by simp
qed simp

lemma box_max_fold: "fold (\<lambda>b m. max m (f b)) bs (k :: int) = Max (insert k (f ` set bs))"
proof (induction bs arbitrary: k)
  case (Cons b bs)
  have "Max (insert (max k (f b)) (f ` set bs)) = Max (insert k (insert (f b) (f ` set bs)))"
    by (cases "bs = []") (simp_all add: max.assoc)
  then show ?case using Cons by simp
qed simp

text \<open>The bounding box of a body on a board of at most \<open>U32_MAX\<close> rows, columns and layers.\<close>

definition extent :: "(coords \<Rightarrow> int) \<Rightarrow> coords set \<Rightarrow> int" where
  "extent f S = Min (f ` S) + Max (f ` S)"

lemma box_extent:
  assumes "bs \<noteq> []" "\<forall>b \<in> set bs. 0 \<le> f b \<and> f b \<le> U32_MAX"
  shows "box_min f bs + box_max f bs = extent f (set bs)"
proof -
  let ?S = "f ` set bs"
  have S: "finite ?S" "?S \<noteq> {}" using assms(1) by simp_all
  have "Min ?S \<le> U32_MAX" "0 \<le> Max ?S" using Min_in [OF S] Max_in [OF S] assms(2) by fastforce+
  then show ?thesis
    by (simp add: box_min_def box_max_def box_min_fold box_max_fold extent_def Min_insert [OF S] Max_insert [OF S] min_absorb2 max_absorb2)
qed

lemma extent_add:
  assumes "finite S" "S \<noteq> {}"
  shows "extent (\<lambda>p. k + f p) S = 2 * k + extent f S" "extent (\<lambda>p. k - f p) S = 2 * k - extent f S"
proof -
  have m: "Min ((\<lambda>p. k + f p) ` S) = k + Min (f ` S)" "Max ((\<lambda>p. k + f p) ` S) = k + Max (f ` S)" for f :: "coords \<Rightarrow> int"
    using Min_add_commute [of S f k] Max_add_commute [of S f k] assms by (simp_all add: add.commute)
  then show "extent (\<lambda>p. k + f p) S = 2 * k + extent f S" by (simp add: extent_def)
  have "(\<lambda>p. - f p) ` S = uminus ` f ` S" by auto
  then have "Min ((\<lambda>p. - f p) ` S) = - Max (f ` S)" "Max ((\<lambda>p. - f p) ` S) = - Min (f ` S)"
    using minus_Max_eq_Min [of "f ` S"] minus_Min_eq_Max [of "f ` S"] assms by simp_all
  then show "extent (\<lambda>p. k - f p) S = 2 * k - extent f S" using m [of "\<lambda>p. - f p"] by (simp add: extent_def)
qed

definition even_turn :: "coords \<Rightarrow> rotation_axis \<Rightarrow> bool" where
  "even_turn c axis = (case c of (x, y, z) \<Rightarrow>
     even (case axis of Axis_X \<Rightarrow> y + z | Axis_Y \<Rightarrow> x + z | Axis_Z \<Rightarrow> x + y))"

lemma even_turn_iff:
  "(case rotate_90_doubled b c axis of (x, y, z) \<Rightarrow> even x \<and> even y \<and> even z) \<longleftrightarrow> even_turn c axis"
  by (cases b; cases c; cases axis) (auto simp: rotate_90_doubled_def even_turn_def)

lemma rotation_of_coords:
  "rotation_of (cx, cy, cz) axis (x, y, z) = (case axis of
      Axis_X \<Rightarrow> (x, (cy + cz) div 2 - z, (cz - cy) div 2 + y)
    | Axis_Y \<Rightarrow> ((cx - cz) div 2 + z, y, (cx + cz) div 2 - x)
    | Axis_Z \<Rightarrow> ((cx + cy) div 2 - y, (cy - cx) div 2 + x, z))"
proof -
  have h: "(a + (b - 2 * d)) div 2 = (a + b) div 2 - d" "(a - (2 * d - b)) div 2 = (a + b) div 2 - d"
    "(a + (2 * d - b)) div 2 = (a - b) div 2 + d" "(2 * d - b + a) div 2 = (a - b) div 2 + d" for a b d :: int
    by presburger+
  show ?thesis by (cases axis) (simp_all add: rotation_of_def rotate_90_doubled_def h)
qed

lemma four_turns:
  assumes "even_turn c axis"
  shows "rotation_of c axis (rotation_of c axis (rotation_of c axis (rotation_of c axis p))) = p"
proof -
  obtain cx cy cz x y z where "c = (cx, cy, cz)" "p = (x, y, z)" by (cases c; cases p)
  then show ?thesis
    using assms by (cases axis) (simp_all only: rotation_of_coords rotation_axis.case, auto simp: even_turn_def elim!: evenE)
qed

definition center_of :: "coords set \<Rightarrow> coords" where
  "center_of S = (extent fst S, extent (fst \<circ> snd) S, extent (snd \<circ> snd) S)"

lemma center_of_turn:
  assumes S: "finite S" "S \<noteq> {}" and ev: "even_turn (center_of S) axis"
  shows "center_of (rotation_of (center_of S) axis ` S) = center_of S"
proof -
  obtain x y z where c: "center_of S = (x, y, z)" by (cases "center_of S")
  then have e: "extent (\<lambda>p. fst p) S = x" "extent (\<lambda>p. fst (snd p)) S = y" "extent (\<lambda>p. snd (snd p)) S = z"
    by (simp_all add: center_of_def comp_def)
  have rot: "rotation_of (x, y, z) axis p = (case axis of
      Axis_X \<Rightarrow> (fst p, (y + z) div 2 - snd (snd p), (z - y) div 2 + fst (snd p))
    | Axis_Y \<Rightarrow> ((x - z) div 2 + snd (snd p), fst (snd p), (x + z) div 2 - fst p)
    | Axis_Z \<Rightarrow> ((x + y) div 2 - fst (snd p), (y - x) div 2 + fst p, snd (snd p)))" for p
    using rotation_of_coords [of x y z axis "fst p" "fst (snd p)" "snd (snd p)"] by simp
  have im: "extent f (rotation_of (x, y, z) axis ` S) = extent (\<lambda>p. f (rotation_of (x, y, z) axis p)) S" for f
    by (simp add: extent_def image_image)
  show ?thesis
    unfolding c unfolding center_of_def im comp_def rot
    using ev by (cases axis) (auto simp: extent_add [OF S] e even_turn_def c elim!: evenE)
qed

lemma odd_step:
  assumes "falling_body g \<noteq> []" "\<not> even_turn (box_sum (falling_body g)) axis"
  shows "try_rotating_falling_body axis g = Inr (False, g)"
proof -
  obtain b bs where b: "falling_body g = b # bs" using assms(1) by (cases "falling_body g") auto
  obtain x2 y2 z2 where e: "rotate_90_doubled b (box_sum (b # bs)) axis = (x2, y2, z2)"
    by (cases "rotate_90_doubled b (box_sum (b # bs)) axis")
  have "rotated_block g (box_sum (b # bs)) axis b = Inr None"
    using assms(2) even_turn_iff [of b "box_sum (b # bs)" axis] by (simp add: rotated_block_def e b)
  then show ?thesis by (simp add: try_rotating_falling_body_def b)
qed

definition board_fits :: "'a grid3 \<Rightarrow> bool" where
  "board_fits b \<longleftrightarrow> rows b \<le> U32_MAX \<and> cols b \<le> U32_MAX \<and> layers b \<le> U32_MAX"

lemma box_sum_center:
  assumes wf: "game_wf g" and fits: "board_fits (board g)" and ne: "falling_body g \<noteq> []"
  shows "box_sum (falling_body g) = center_of (set (falling_body g))"
proof -
  have b: "0 \<le> fst p \<and> fst p \<le> U32_MAX" "0 \<le> (fst \<circ> snd) p \<and> (fst \<circ> snd) p \<le> U32_MAX"
    "0 \<le> (snd \<circ> snd) p \<and> (snd \<circ> snd) p \<le> U32_MAX" if "p \<in> set (falling_body g)" for p
  proof -
    have "in_grid (board g) p" using wf that by (auto simp: game_wf_def)
    then show "0 \<le> fst p \<and> fst p \<le> U32_MAX" "0 \<le> (fst \<circ> snd) p \<and> (fst \<circ> snd) p \<le> U32_MAX"
      "0 \<le> (snd \<circ> snd) p \<and> (snd \<circ> snd) p \<le> U32_MAX"
      using fits by (cases p; auto simp: board_fits_def)+
  qed
  then show ?thesis unfolding box_sum_def center_of_def using ne by (simp add: box_extent del: comp_apply)
qed

text \<open>A successful turn, and when a turn succeeds.\<close>

lemma turn_spec:
  assumes wf: "game_wf g" and fits: "board_fits (board g)" and ne: "falling_body g \<noteq> []"
    and t: "try_rotating_falling_body axis g = Inr (True, g')"
  defines "c \<equiv> center_of (set (falling_body g))"
  shows "game_wf g' \<and> same_rest g g' \<and> board_fits (board g') \<and> falling_body g' \<noteq> []
    \<and> set (falling_body g') = rotation_of c axis ` set (falling_body g) \<and> even_turn c axis
    \<and> center_of (set (falling_body g')) = c"
proof -
  have box: "box_sum (falling_body g) = c" unfolding c_def by (rule box_sum_center [OF wf fits ne])
  have g': "game_wf g'" "same_rest g g'" "set (falling_body g') = rotation_of c axis ` set (falling_body g)"
  proof -
    obtain ok h where h: "try_rotating_falling_body axis g = Inr (ok, h)" "game_wf h" "same_rest g h"
        "set (falling_body h) = (if ok then rotation_of c axis ` set (falling_body g) else set (falling_body g))"
      using try_rotating_spec [OF wf, of axis] unfolding box by blast
    moreover have "ok" "h = g'" using h(1) t by simp_all
    ultimately show "game_wf g'" "same_rest g g'" "set (falling_body g') = rotation_of c axis ` set (falling_body g)"
      by simp_all
  qed
  have ev: "even_turn c axis"
  proof (rule ccontr)
    assume "\<not> ?thesis"
    then have "try_rotating_falling_body axis g = Inr (False, g)"
      using odd_step [OF ne] by (simp add: box)
    then show False using t by simp
  qed
  have "center_of (set (falling_body g')) = c"
    using center_of_turn [of "set (falling_body g)" axis] ne ev unfolding g'(3) c_def by simp
  moreover have "board_fits (board g')" using fits same_rest_facts(3) [OF g'(2)] by (simp add: board_fits_def same_shape_def)
  moreover have "falling_body g' \<noteq> []" using g'(3) ne by auto
  ultimately show ?thesis using g' ev by simp
qed

lemma turn_succeeds:
  assumes wf: "game_wf g" and fits: "board_fits (board g)" and ne: "falling_body g \<noteq> []"
    and ev: "even_turn (center_of (set (falling_body g))) axis"
    and free: "\<forall>b \<in> set (falling_body g). free_cell g (rotation_of (center_of (set (falling_body g))) axis b)"
  shows "\<exists>g'. try_rotating_falling_body axis g = Inr (True, g')"
proof -
  let ?c = "box_sum (falling_body g)"
  note box = box_sum_center [OF wf fits ne]
  have some: "rotated_block g ?c axis b = Inr (Some (rotation_of ?c axis b))" if "b \<in> set (falling_body g)" for b
  proof -
    obtain x2 y2 z2 where e: "rotate_90_doubled b ?c axis = (x2, y2, z2)" by (cases "rotate_90_doubled b ?c axis")
    have even: "even x2 \<and> even y2 \<and> even z2" using even_turn_iff [of b ?c axis, unfolded e] ev by (simp add: box)
    let ?p = "(x2 div 2, y2 div 2, z2 div 2)"
    have p: "rotation_of ?c axis b = ?p" by (simp add: rotation_of_def e)
    then have fr: "free_cell g ?p" using free that box by metis
    then have ig: "in_grid (board g) ?p" by (simp add: free_cell_def)
    then have "grid_at (board g) (x2 div 2) (y2 div 2) (z2 div 2) = Inr (cell (board g) ?p)"
      using wf by (intro grid_at_cell) (auto simp: game_wf_def grids_ok_def)
    moreover have "\<not> (rows (board g) \<le> x2 div 2 \<or> cols (board g) \<le> y2 div 2 \<or> layers (board g) \<le> z2 div 2)"
      "\<not> (x2 div 2 < 0 \<or> y2 div 2 < 0 \<or> z2 div 2 < 0)"
      using ig by auto
    ultimately show ?thesis
      using free_cell_test [OF wf ig] fr even p by (simp only: rotated_block_def e Let_def) auto
  qed
  have "transform_blocks (rotated_block g ?c axis) bs acc = Inr (Some (acc @ map (rotation_of ?c axis) bs))"
    if "set bs \<subseteq> set (falling_body g)" "List.length acc + List.length bs \<le> BODY_BLOCK_LIMIT" for bs acc
    using that by (induction bs arbitrary: acc) (simp_all add: some push_block_ok)
  from this [of "falling_body g" "[]"] wf
  have tr: "transform_blocks (rotated_block g ?c axis) (falling_body g) [] = Inr (Some (map (rotation_of ?c axis) (falling_body g)))"
    by (simp add: game_wf_def)
  obtain ok g' where "try_rotating_falling_body axis g = Inr (ok, g')" using try_rotating_spec [OF wf, of axis] by blast
  then show ?thesis by (auto simp: try_rotating_falling_body_def tr obind_Inr_iff)
qed

lemma same_body_same_cells:
  assumes "game_wf g" "game_wf g'" "same_rest g g'" "set (falling_body g') = set (falling_body g)" "in_grid (board g) q"
  shows "cell (board g') q = cell (board g) q"
proof -
  have body: "cell (board h) q = (if q \<in> set (falling_body h) then FALLING else if q \<in> solid_cells h then SOLID else EMPTY)"
    if "game_wf h" "in_grid (board h) q" for h
    using that by (cases "cell (board h) q") (auto simp: game_wf_def solid_cells_def)
  have "in_grid (board g') q" using assms(5) same_shape_in_grid [OF same_rest_facts(3) [OF assms(3)]] by simp
  then show ?thesis
    using body [OF assms(1,5)] body [OF assms(2)] unfolding assms(4) same_rest_facts(4) [OF assms(3)] by simp
qed

text \<open>
  Three quarter turns about an axis that succeed are followed by a fourth that succeeds, and
  after it the body and the whole board are as before the first.
\<close>

theorem four_quarter_turns:
  assumes "game_wf g" "board_fits (board g)" "falling_body g \<noteq> []"
    "try_rotating_falling_body axis g = Inr (True, g1)" "try_rotating_falling_body axis g1 = Inr (True, g2)"
    "try_rotating_falling_body axis g2 = Inr (True, g3)"
  shows "\<exists>g4. try_rotating_falling_body axis g3 = Inr (True, g4) \<and> set (falling_body g4) = set (falling_body g)
    \<and> (\<forall>q. in_grid (board g) q \<longrightarrow> cell (board g4) q = cell (board g) q)"
proof -
  let ?S = "set (falling_body g)" let ?c = "center_of ?S" let ?R = "rotation_of ?c axis"
  note t1 = turn_spec [OF assms(1-4)]
  then have "game_wf g1" "board_fits (board g1)" "falling_body g1 \<noteq> []" by auto
  note t2 = turn_spec [OF this assms(5)]
  then have "game_wf g2" "board_fits (board g2)" "falling_body g2 \<noteq> []" by auto
  note t3 = turn_spec [OF this assms(6)]
  then have g3: "game_wf g3" "board_fits (board g3)" "falling_body g3 \<noteq> []" by auto
  have c1: "center_of (set (falling_body g1)) = ?c" using t1 by blast
  have c2: "center_of (set (falling_body g2)) = ?c" using t2 unfolding c1 by blast
  have c3: "center_of (set (falling_body g3)) = ?c" using t3 unfolding c2 by blast
  have "set (falling_body g1) = ?R ` ?S" using t1 by blast
  moreover have "set (falling_body g2) = ?R ` set (falling_body g1)" using t2 unfolding c1 by blast
  moreover have "set (falling_body g3) = ?R ` set (falling_body g2)" using t3 unfolding c2 by blast
  ultimately have s3: "set (falling_body g3) = ?R ` ?R ` ?R ` ?S" by metis
  have rr: "same_rest g g1" "same_rest g1 g2" "same_rest g2 g3" using t1 t2 t3 by blast+
  have r3: "same_rest g g3" by (rule same_rest_trans [OF same_rest_trans [OF rr(1,2)] rr(3)])
  have ev: "even_turn ?c axis" using t1 by blast
  have R4: "?R ` ?R ` ?R ` ?R ` ?S = ?S" by (simp add: image_image four_turns [OF ev])
  have "\<forall>b \<in> set (falling_body g3). free_cell g3 (?R b)"
  proof
    fix b assume "b \<in> set (falling_body g3)"
    then have "?R b \<in> ?R ` set (falling_body g3)" by (rule imageI)
    then have "?R b \<in> ?S" unfolding s3 R4 .
    then have "free_cell g (?R b)" using assms(1) by (auto simp: game_wf_def free_cell_def)
    then show "free_cell g3 (?R b)" by (simp add: free_cell_same [OF r3])
  qed
  then obtain g4 where g4: "try_rotating_falling_body axis g3 = Inr (True, g4)"
    using turn_succeeds [OF g3, of axis] ev unfolding c3 by blast
  note t4 = turn_spec [OF g3 g4]
  have "same_rest g3 g4" using t4 by blast
  note r4 = same_rest_trans [OF r3 this]
  have "set (falling_body g4) = ?R ` set (falling_body g3)" using t4 unfolding c3 by blast
  then have s4: "set (falling_body g4) = ?S" unfolding s3 R4 .
  have "cell (board g4) q = cell (board g) q" if "in_grid (board g) q" for q
    using same_body_same_cells [OF assms(1) _ r4 s4 that] t4 by blast
  then show ?thesis using g4 s4 by blast
qed

lemma case_outcome_pairD:
  "(case r of Inl _ \<Rightarrow> False | Inr (ok, g) \<Rightarrow> P ok g) \<Longrightarrow> \<exists>ok g. r = Inr (ok, g) \<and> P ok g"
  by (auto split: sum.splits prod.splits)

text \<open>The corner piece turns in place.\<close>

lemma four_quarter_turns_witness:
  "\<exists>g1 g2 g3 g4. try_rotating_falling_body Axis_Y (started 1 5) = Inr (True, g1)
    \<and> try_rotating_falling_body Axis_Y g1 = Inr (True, g2) \<and> try_rotating_falling_body Axis_Y g2 = Inr (True, g3)
    \<and> try_rotating_falling_body Axis_Y g3 = Inr (True, g4)
    \<and> set (falling_body g4) = set (falling_body (started 1 5)) \<and> falling_body g1 \<noteq> falling_body (started 1 5)"
proof -
  have "case try_rotating_falling_body Axis_Y (started 1 5) of Inl _ \<Rightarrow> False | Inr (ok1, g1) \<Rightarrow> ok1
      \<and> falling_body g1 \<noteq> falling_body (started 1 5)
      \<and> (case try_rotating_falling_body Axis_Y g1 of Inl _ \<Rightarrow> False | Inr (ok2, g2) \<Rightarrow> ok2
      \<and> (case try_rotating_falling_body Axis_Y g2 of Inl _ \<Rightarrow> False | Inr (ok3, g3) \<Rightarrow> ok3))"
    by code_simp
  then obtain g1 g2 g3 where t: "try_rotating_falling_body Axis_Y (started 1 5) = Inr (True, g1)"
      "try_rotating_falling_body Axis_Y g1 = Inr (True, g2)" "try_rotating_falling_body Axis_Y g2 = Inr (True, g3)"
      "falling_body g1 \<noteq> falling_body (started 1 5)"
    by (auto dest!: case_outcome_pairD)
  have "game_wf (started 1 5)" "board_fits (board (started 1 5))" "falling_body (started 1 5) \<noteq> []"
    by (simp_all add: started_spec board_fits_def U32_MAX_def available_bodies_def layer_sort_def)
  from four_quarter_turns [OF this t(1-3)] t show ?thesis by blast
qed

end
