(* ===== verification/Threads.thy ===== *)
theory Threads
  imports Ring_Buffer Allocator
begin

text \<open>
  \<^verbatim>\<open>gameos/threads.hh\<close>: the table of threads, the shared queue of ready ones and the cooperative
  switching between each CPU's idle context and a thread. Every critical section of the ready
  lock is one operation, and so is every stretch of code between two of them; a CPU's position
  between the operations is its \<open>phase\<close>. \<open>reachable\<close> collects the states that arbitrary
  interleavings of a set of CPUs lead to.

  A context is what \<^verbatim>\<open>threads_context_switch\<close> left in it: \<open>Entry\<close> as \<open>create_thread\<close> fills it,
  \<open>In_Yield\<close> and \<open>In_Finish\<close> when the thread was switched out from \<^verbatim>\<open>yield\<close> or \<open>finish_current\<close>. Resuming it leaves the
  memory as it is; \<open>Stale\<close> marks an image that was resumed and not saved since. Stacks, storage and TLS
  blocks are their addresses; what destructors and the thread-local constructors do with them is not modelled, and what
  \<^verbatim>\<open>mem::alloc\<close> and \<^verbatim>\<open>mem::free\<close> return is an argument of the operation that calls them.
\<close>

definition THREAD_MAX_COUNT :: nat where "THREAD_MAX_COUNT = 64"
definition THREAD_STACK_SIZE :: u64 where "THREAD_STACK_SIZE = 65536"
definition AP_STACK_ALIGNMENT :: u64 where "AP_STACK_ALIGNMENT = 16"
definition ANY_CPU :: u32 where "ANY_CPU = - 1"

datatype thread_state = Thread_FREE | Thread_READY | Thread_RUNNING | Thread_DONE

datatype context_image = Entry (entry_rsp: u64) (entry_rip: u64) | In_Yield | In_Finish | is_stale: Stale context_image

text \<open>The registers in the memory of a context.\<close>

fun saved_image :: "context_image \<Rightarrow> context_image" where
  "saved_image (Stale regs) = regs"
| "saved_image regs = regs"

record thread =
  th_context :: context_image
  th_procedure :: u64
  th_argument :: u64
  th_stack :: u64
  th_stack_size :: u64
  th_storage :: u64
  th_storage_size :: u64
  th_storage_alignment :: u64
  th_typed_control :: u64
  th_typed_result :: u64
  th_typed_destroy :: u64
  th_tls_block :: u64
  th_cpu_affinity :: u32
  th_state :: thread_state
  th_detached :: bool

definition blank_thread :: thread where
  "blank_thread = \<lparr> th_context = Entry 0 0, th_procedure = 0, th_argument = 0, th_stack = 0, th_stack_size = 0,
     th_storage = 0, th_storage_size = 0, th_storage_alignment = 0,
     th_typed_control = 0, th_typed_result = 0, th_typed_destroy = 0, th_tls_block = 0, th_cpu_affinity = ANY_CPU,
     th_state = Thread_FREE, th_detached = False \<rparr>"

text \<open>
  Where a CPU is. \<open>Idle\<close>: in its own context, outside the operations. \<open>Creating h p\<close>: in \<^verbatim>\<open>spawn\<close>, between the table
  and the queue. \<open>Joining typed h p\<close>: in \<^verbatim>\<open>join\<close>, after its loop has seen the thread done. \<open>Selected h\<close>, \<open>Entering h\<close>, \<open>Back h\<close>: in \<^verbatim>\<open>idle_poll\<close>, before the state is published,
  before the switch, and after it. \<open>On h\<close>: running the thread. \<open>Leaving h\<close>, \<open>Exiting h\<close>: on the
  thread's stack between the critical section of \<^verbatim>\<open>yield\<close> or \<^verbatim>\<open>finish_current\<close> and the switch.
\<close>

datatype phase =
    Idle | Creating nat phase | Joining bool nat phase | Selected nat | Entering nat | On nat | Leaving nat | Exiting nat | Back nat

record scheduler =
  sch_threads :: "thread list"
  ready_queue :: "nat ring_buffer"
  current_threads :: "u32 \<Rightarrow> nat option"
  idle_blocks :: "u32 \<Rightarrow> u64"
  active_tls :: "u32 \<Rightarrow> u64"
  freed_storage :: "(u64 \<times> u64 \<times> u64) list"
  sch_phase :: "u32 \<Rightarrow> phase"

definition threads_initialize :: "scheduler \<Rightarrow> scheduler" where
  "threads_initialize s = s\<lparr> sch_threads := replicate THREAD_MAX_COUNT blank_thread,
     current_threads := (\<lambda>_. None), ready_queue := rb_clear (ready_queue s) \<rparr>"

section \<open>Creating threads\<close>

definition stack_top_for :: "u64 \<Rightarrow> u64 \<Rightarrow> u64" where
  "stack_top_for stack stack_size = ((stack + stack_size) AND NOT (AP_STACK_ALIGNMENT - 1)) - 8"

record thread_spec =
  ts_procedure :: u64
  ts_data :: u64
  ts_stack :: u64
  ts_stack_size :: u64
  ts_storage :: u64
  ts_storage_size :: u64
  ts_storage_alignment :: u64
  ts_entry :: u64
  ts_tls_block :: u64
  ts_cpu_affinity :: u32

text \<open>The fields are written outside the lock; nothing refers to the slot until it is queued.\<close>

definition create_thread :: "thread_spec \<Rightarrow> scheduler \<Rightarrow> (nat \<times> scheduler) outcome" where
  "create_thread ts s =
     (case find (\<lambda>index. th_state (sch_threads s ! index) = Thread_FREE) [0..<THREAD_MAX_COUNT] of
        None \<Rightarrow> Inl ''Thread table full''
      | Some handle \<Rightarrow>
          kstd_assert (\<not> rb_full (ready_queue s)) ''Ready queue full''
            (Inr (handle, s\<lparr> sch_threads := (sch_threads s)[handle := (sch_threads s ! handle)\<lparr>
               th_state := Thread_READY, th_procedure := ts_procedure ts, th_argument := ts_data ts,
               th_stack := ts_stack ts, th_stack_size := ts_stack_size ts, th_storage := ts_storage ts,
               th_storage_size := ts_storage_size ts, th_storage_alignment := ts_storage_alignment ts,
               th_cpu_affinity := ts_cpu_affinity ts, th_tls_block := ts_tls_block ts,
               th_context := Entry (stack_top_for (ts_stack ts) (ts_stack_size ts)) (ts_entry ts) \<rparr>] \<rparr>)))"

text \<open>The arguments of the plain \<^verbatim>\<open>spawn\<close>, with the stack it allocated and the address of \<^verbatim>\<open>thread_start\<close>.\<close>

record spawn_args =
  sp_procedure :: u64
  sp_data :: u64
  sp_stack_size :: u64
  sp_cpu_affinity :: u32
  sp_stack :: u64
  sp_tls_block :: u64
  sp_thread_start :: u64

definition spawn_create :: "u32 \<Rightarrow> spawn_args \<Rightarrow> scheduler \<Rightarrow> scheduler outcome" where
  "spawn_create cpu sp s =
     kstd_assert (sp_stack sp \<noteq> 0) ''Thread stack allocation failed''
       (obind (create_thread \<lparr> ts_procedure = sp_procedure sp, ts_data = sp_data sp, ts_stack = sp_stack sp,
            ts_stack_size = sp_stack_size sp, ts_storage = sp_stack sp, ts_storage_size = sp_stack_size sp,
            ts_storage_alignment = AP_STACK_ALIGNMENT, ts_entry = sp_thread_start sp, ts_tls_block = sp_tls_block sp,
            ts_cpu_affinity = sp_cpu_affinity sp \<rparr> s) (\<lambda>(handle, s).
          Inr (s\<lparr> sch_phase := (sch_phase s)(cpu := Creating handle (sch_phase s cpu)) \<rparr>)))"

text \<open>
  The typed \<^verbatim>\<open>spawn\<close>: one block holds the control object and, above it, the stack. The layout of the control object
  and the addresses of the functions instantiated for it are arguments.
\<close>

record typed_args =
  tp_storage :: u64
  tp_control_size :: u64
  tp_control_align :: u64
  tp_result_offset :: u64
  tp_destroy :: u64
  tp_thread_start :: u64
  tp_tls_block :: u64

definition control_alignment :: "typed_args \<Rightarrow> u64" where
  "control_alignment tp = (if AP_STACK_ALIGNMENT < tp_control_align tp then tp_control_align tp else AP_STACK_ALIGNMENT)"

definition control_stack_offset :: "typed_args \<Rightarrow> u64" where
  "control_stack_offset tp = (tp_control_size tp + AP_STACK_ALIGNMENT - 1) AND NOT (AP_STACK_ALIGNMENT - 1)"

text \<open>The result lies in the object, and no function has the null address.\<close>

definition typed_args_ok :: "typed_args \<Rightarrow> bool" where
  "typed_args_ok tp \<longleftrightarrow> unat (tp_storage tp) + unat (tp_result_offset tp) < 2 ^ 64 \<and> tp_destroy tp \<noteq> 0"

definition spawn_typed :: "u32 \<Rightarrow> typed_args \<Rightarrow> scheduler \<Rightarrow> scheduler outcome" where
  "spawn_typed cpu tp s =
     kstd_assert (tp_storage tp \<noteq> 0) ''Typed thread control allocation failed''
       (obind (create_thread \<lparr> ts_procedure = 0, ts_data = 0, ts_stack = tp_storage tp + control_stack_offset tp,
            ts_stack_size = THREAD_STACK_SIZE, ts_storage = tp_storage tp,
            ts_storage_size = control_stack_offset tp + THREAD_STACK_SIZE,
            ts_storage_alignment = control_alignment tp, ts_entry = tp_thread_start tp, ts_tls_block = tp_tls_block tp,
            ts_cpu_affinity = ANY_CPU \<rparr> s) (\<lambda>(handle, s).
          Inr (s\<lparr> sch_threads := (sch_threads s)[handle := (sch_threads s ! handle)\<lparr>
                 th_typed_control := tp_storage tp, th_typed_result := tp_storage tp + tp_result_offset tp,
                 th_typed_destroy := tp_destroy tp \<rparr>],
               sch_phase := (sch_phase s)(cpu := Creating handle (sch_phase s cpu)) \<rparr>)))"

definition enqueue_thread :: "nat \<Rightarrow> scheduler \<Rightarrow> scheduler outcome" where
  "enqueue_thread handle s =
     kstd_assert (\<not> rb_full (ready_queue s)) ''Ready queue full''
       (obind (push_back (ready_queue s) handle) (\<lambda>q. Inr (s\<lparr> ready_queue := q \<rparr>)))"

section \<open>Switching\<close>

definition upd_thread :: "nat \<Rightarrow> (thread \<Rightarrow> thread) \<Rightarrow> scheduler \<Rightarrow> scheduler" where
  "upd_thread h f s = s\<lparr> sch_threads := (sch_threads s)[h := f (sch_threads s ! h)] \<rparr>"

definition goto :: "u32 \<Rightarrow> phase \<Rightarrow> scheduler \<Rightarrow> scheduler" where
  "goto cpu p s = s\<lparr> sch_phase := (sch_phase s)(cpu := p) \<rparr>"

text \<open>The critical section of \<^verbatim>\<open>yield\<close>: the thread is published before its context is saved.\<close>

definition yield_publish :: "u32 \<Rightarrow> scheduler \<Rightarrow> scheduler outcome" where
  "yield_publish cpu s =
     (case current_threads s cpu of
        None \<Rightarrow> Inl []
      | Some current \<Rightarrow>
          kstd_assert (th_state (sch_threads s ! current) = Thread_RUNNING) []
          (kstd_assert (\<not> rb_full (ready_queue s)) []
          (obind (push_back (ready_queue s) current) (\<lambda>q.
             Inr (goto cpu (Leaving current)
               (upd_thread current (th_state_update (\<lambda>_. Thread_READY))
                 (s\<lparr> ready_queue := q, current_threads := (current_threads s)(cpu := None) \<rparr>)))))))"

text \<open>The critical section of \<open>finish_current\<close>: the thread is done before its stack is left.\<close>

definition finish_publish :: "u32 \<Rightarrow> scheduler \<Rightarrow> scheduler outcome" where
  "finish_publish cpu s =
     (case current_threads s cpu of
        None \<Rightarrow> Inl ''No current thread even though there should be one''
      | Some current \<Rightarrow>
          Inr (goto cpu (Exiting current)
            (upd_thread current (th_state_update (\<lambda>_. Thread_DONE))
              (s\<lparr> current_threads := (current_threads s)(cpu := None) \<rparr>))))"

text \<open>What follows in both: the idle TLS block, and the switch from the thread to the idle context, which saves \<open>regs\<close>.\<close>

definition switch_out :: "u32 \<Rightarrow> nat \<Rightarrow> context_image \<Rightarrow> scheduler \<Rightarrow> scheduler" where
  "switch_out cpu h regs s =
     goto cpu (Back h) (upd_thread h (th_context_update (\<lambda>_. regs))
       (s\<lparr> active_tls := (active_tls s)(cpu := idle_blocks s cpu) \<rparr>))"

section \<open>The idle loop\<close>

text \<open>The loop under the lock rotates the whole queue and keeps out the first thread that may run on this CPU.\<close>

fun select_loop ::
  "u32 \<Rightarrow> thread list \<Rightarrow> nat \<Rightarrow> nat option \<Rightarrow> nat ring_buffer \<Rightarrow> (nat option \<times> nat ring_buffer) outcome" where
  "select_loop cpu ths 0 found q = Inr (found, q)"
| "select_loop cpu ths (Suc n) found q =
     obind (pop_front q) (\<lambda>(candidate, q).
     obind (static_array_get ths candidate) (\<lambda>candidate_thread.
       if found = None \<and> (th_cpu_affinity candidate_thread = ANY_CPU \<or> th_cpu_affinity candidate_thread = cpu)
       then select_loop cpu ths n (Some candidate) q
       else obind (push_back q candidate) (select_loop cpu ths n found)))"

definition idle_select :: "u32 \<Rightarrow> scheduler \<Rightarrow> scheduler outcome" where
  "idle_select cpu s =
     (if rb_empty (ready_queue s) then Inr s
      else obind (select_loop cpu (sch_threads s) (rb_size (ready_queue s)) None (ready_queue s)) (\<lambda>(found, q).
        case found of
          None \<Rightarrow> Inr (s\<lparr> ready_queue := q \<rparr>)
        | Some handle \<Rightarrow> Inr (goto cpu (Selected handle) (s\<lparr> ready_queue := q \<rparr>))))"

definition idle_enter :: "u32 \<Rightarrow> nat \<Rightarrow> scheduler \<Rightarrow> scheduler outcome" where
  "idle_enter cpu handle s =
     kstd_assert (th_state (sch_threads s ! handle) = Thread_READY) ''Dequeued thread is not ready''
       (Inr (goto cpu (Entering handle) (upd_thread handle (th_state_update (\<lambda>_. Thread_RUNNING))
         (s\<lparr> current_threads := (current_threads s)(cpu := Some handle),
             active_tls := (active_tls s)(cpu := th_tls_block (sch_threads s ! handle)) \<rparr>))))"

text \<open>
  The switch from the idle context to the thread, and where it comes out. \<^verbatim>\<open>thread_start\<close> and its typed form
  read the CPU's current thread; the second asserts that there is one. A context saved in \<open>finish_current\<close>
  returns to the line after its switch, which must not be reached.
\<close>

definition switch_in :: "u32 \<Rightarrow> nat \<Rightarrow> scheduler \<Rightarrow> scheduler outcome" where
  "switch_in cpu h s =
     (let regs = saved_image (th_context (sch_threads s ! h));
          s' = goto cpu (On h) (upd_thread h (th_context_update (\<lambda>_. Stale regs)) s)
      in case regs of
           In_Finish \<Rightarrow> Inl ''Finished thread resumed''
         | Entry rsp rip \<Rightarrow> kstd_assert (current_threads s cpu \<noteq> None) ''No current typed thread'' (Inr s')
         | _ \<Rightarrow> Inr s')"

text \<open>\<open>error\<close> is what \<^verbatim>\<open>mem::free\<close> returns for the storage.\<close>

definition reclaim :: "allocator_error \<Rightarrow> nat \<Rightarrow> scheduler \<Rightarrow> scheduler outcome" where
  "reclaim error h s =
     (let thread = sch_threads s ! h
      in kstd_assert (error = Error_NONE) []
        (Inr (upd_thread h (\<lambda>_. blank_thread)
          (s\<lparr> freed_storage := (th_storage thread, th_storage_size thread, th_storage_alignment thread) # freed_storage s \<rparr>))))"

definition idle_return :: "u32 \<Rightarrow> allocator_error \<Rightarrow> nat \<Rightarrow> scheduler \<Rightarrow> scheduler outcome" where
  "idle_return cpu error h s =
     (let s = goto cpu Idle (s\<lparr> current_threads := (current_threads s)(cpu := None),
                active_tls := (active_tls s)(cpu := idle_blocks s cpu) \<rparr>);
          thread = sch_threads s ! h
      in if th_state thread = Thread_DONE \<and> th_detached thread then reclaim error h s else Inr s)"

section \<open>Detaching and joining\<close>

definition detach :: "nat \<Rightarrow> scheduler \<Rightarrow> scheduler outcome" where
  "detach handle s =
     kstd_assert (handle < THREAD_MAX_COUNT) ''Invalid thread handle''
       (let thread = sch_threads s ! handle
        in kstd_assert (th_state thread \<noteq> Thread_FREE) ''Thread is already free''
          (kstd_assert (th_state thread \<noteq> Thread_DONE) ''Cannot detach completed thread''
          (kstd_assert (\<not> th_detached thread) ''Thread is already detached''
            (Inr (upd_thread handle (th_detached_update (\<lambda>_. True)) s)))))"

text \<open>
  \<open>join\<close> at the end of its loop, when it has seen the thread done, and its critical section. What the loop does while it
  waits are the operations of a yield or of the idle loop. \<open>typed\<close> is whether the handle has a result type.
\<close>

definition join_seen :: "u32 \<Rightarrow> bool \<Rightarrow> nat \<Rightarrow> scheduler \<Rightarrow> scheduler outcome" where
  "join_seen cpu typed handle s =
     kstd_assert (handle < THREAD_MAX_COUNT) ''Invalid typed thread handle''
       (Inr (goto cpu (Joining typed handle (sch_phase s cpu)) s))"

definition join_reclaim :: "bool \<Rightarrow> allocator_error \<Rightarrow> nat \<Rightarrow> scheduler \<Rightarrow> scheduler outcome" where
  "join_reclaim typed error handle s =
     (let thread = sch_threads s ! handle
      in kstd_assert (th_state thread = Thread_DONE) ''Thread is not done''
        (kstd_assert (\<not> th_detached thread) ''Cannot join detached thread''
        (if \<not> typed
         then kstd_assert (th_typed_control thread = 0) ''Void handle belongs to typed thread'' (reclaim error handle s)
         else kstd_assert (th_typed_control thread \<noteq> 0) ''Result handle belongs to untyped thread''
             (kstd_assert (th_typed_result thread \<noteq> 0) ''Thread has no typed result''
             (kstd_assert (th_typed_destroy thread \<noteq> 0) ''Thread has no typed destructor''
               (reclaim error handle s))))))"

section \<open>Interleavings\<close>

datatype action =
    Spawn_Create spawn_args | Spawn_Typed typed_args | Spawn_Enqueue | Yield | Finish | Switch_Out
  | Idle_Select | Idle_Enter | Switch_In | Idle_Return allocator_error
  | Detach nat | Join_Seen bool nat | Join_Reclaim allocator_error

text \<open>Code that calls \<^verbatim>\<open>spawn\<close>, \<^verbatim>\<open>detach\<close> or \<^verbatim>\<open>join\<close> runs on a thread or in the CPU's own context.\<close>

definition in_code :: "phase \<Rightarrow> bool" where
  "in_code p \<longleftrightarrow> (case p of Idle \<Rightarrow> True | On h \<Rightarrow> True | _ \<Rightarrow> False)"

text \<open>One operation of a CPU; \<open>None\<close> when it is not at that point of the code.\<close>

fun act :: "u32 \<Rightarrow> action \<Rightarrow> scheduler \<Rightarrow> scheduler run" where
  "act cpu (Spawn_Create ts) s = (if in_code (sch_phase s cpu) then Some (spawn_create cpu ts s) else None)"
| "act cpu (Spawn_Typed tp) s =
     (if in_code (sch_phase s cpu) \<and> typed_args_ok tp then Some (spawn_typed cpu tp s) else None)"
| "act cpu Spawn_Enqueue s =
     (case sch_phase s cpu of
        Creating h p \<Rightarrow> Some (obind (enqueue_thread h s) (\<lambda>s. Inr (goto cpu p s)))
      | _ \<Rightarrow> None)"
| "act cpu Yield s = (case sch_phase s cpu of On h \<Rightarrow> Some (yield_publish cpu s) | _ \<Rightarrow> None)"
| "act cpu Finish s = (case sch_phase s cpu of On h \<Rightarrow> Some (finish_publish cpu s) | _ \<Rightarrow> None)"
| "act cpu Switch_Out s =
     (case sch_phase s cpu of
        Leaving h \<Rightarrow> Some (Inr (switch_out cpu h In_Yield s))
      | Exiting h \<Rightarrow> Some (Inr (switch_out cpu h In_Finish s))
      | _ \<Rightarrow> None)"
| "act cpu Idle_Select s = (case sch_phase s cpu of Idle \<Rightarrow> Some (idle_select cpu s) | _ \<Rightarrow> None)"
| "act cpu Idle_Enter s = (case sch_phase s cpu of Selected h \<Rightarrow> Some (idle_enter cpu h s) | _ \<Rightarrow> None)"
| "act cpu Switch_In s = (case sch_phase s cpu of Entering h \<Rightarrow> Some (switch_in cpu h s) | _ \<Rightarrow> None)"
| "act cpu (Idle_Return error) s = (case sch_phase s cpu of Back h \<Rightarrow> Some (idle_return cpu error h s) | _ \<Rightarrow> None)"
| "act cpu (Detach h) s = (if in_code (sch_phase s cpu) then Some (detach h s) else None)"
| "act cpu (Join_Seen typed h) s =
     (if in_code (sch_phase s cpu) \<and> (h < THREAD_MAX_COUNT \<longrightarrow> th_state (sch_threads s ! h) = Thread_DONE)
      then Some (join_seen cpu typed h s) else None)"
| "act cpu (Join_Reclaim error) s =
     (case sch_phase s cpu of
        Joining typed h p \<Rightarrow> Some (obind (join_reclaim typed error h s) (\<lambda>s. Inr (goto cpu p s)))
      | _ \<Rightarrow> None)"

definition start_state :: "(u32 \<Rightarrow> u64) \<Rightarrow> scheduler" where
  "start_state blocks = threads_initialize
     \<lparr> sch_threads = [], ready_queue = ring_buffer_init THREAD_MAX_COUNT 0, current_threads = (\<lambda>_. None),
       idle_blocks = blocks, active_tls = blocks, freed_storage = [], sch_phase = (\<lambda>_. Idle) \<rparr>"

inductive reachable :: "u32 set \<Rightarrow> (u32 \<Rightarrow> u64) \<Rightarrow> scheduler \<Rightarrow> bool" for cpus blocks where
  start: "reachable cpus blocks (start_state blocks)"
| step: "reachable cpus blocks s \<Longrightarrow> cpu \<in> cpus \<Longrightarrow> act cpu a s = Some (Inr s') \<Longrightarrow> reachable cpus blocks s'"

fun run_actions :: "(u32 \<times> action) list \<Rightarrow> scheduler \<Rightarrow> scheduler run" where
  "run_actions [] s = Some (Inr s)"
| "run_actions ((cpu, a) # as) s = rbind (act cpu a s) (run_actions as)"

end
