(* ===== verification/Threads_Safety.thy ===== *)
theory Threads_Safety
  imports Threads
begin

text \<open>
  What holds of \<^verbatim>\<open>Threads\<close> in every interleaving of any set of CPUs: where each thread is, and
  that the assertions of the scheduler itself never fail. Then what holds on one CPU only: no stack is
  used twice or freed in use; and two interleavings of two CPUs in which it is.
\<close>

section \<open>The order of selection\<close>

definition may_run_on :: "thread list \<Rightarrow> u32 \<Rightarrow> nat \<Rightarrow> bool" where
  "may_run_on ths cpu h \<longleftrightarrow> th_cpu_affinity (ths ! h) = ANY_CPU \<or> th_cpu_affinity (ths ! h) = cpu"

definition taken :: "(nat \<Rightarrow> bool) \<Rightarrow> nat list \<Rightarrow> nat list" where
  "taken P xs = (case find P xs of None \<Rightarrow> xs | Some h \<Rightarrow> remove1 h xs)"

lemma taken_Cons: "taken P (x # xs) = (if P x then xs else x # taken P xs)"
proof -
  have "P h" if "find P xs = Some h" for h using that by (auto simp: find_Some_iff)
  then show ?thesis by (auto simp: taken_def split: option.splits)
qed

lemma select_loop_spec:
  assumes "rb_wf q" "rb_elements q = xs @ ys" "\<forall>h \<in> set xs. h < List.length ths"
  shows "\<exists>q'. select_loop cpu ths (List.length xs) found q =
      Inr (if found = None then find (may_run_on ths cpu) xs else found, q')
    \<and> rb_wf q' \<and> rb_capacity q' = rb_capacity q
    \<and> rb_elements q' = ys @ (if found = None then taken (may_run_on ths cpu) xs else xs)"
  using assms
proof (induction xs arbitrary: q ys found)
  case Nil
  then show ?case by (auto simp: taken_def)
next
  case (Cons h xs)
  have sz: "rb_size q = Suc (List.length xs + List.length ys)"
    using arg_cong [OF Cons.prems(2), of List.length] by simp
  then have "0 < rb_size q" by simp
  from pop_front_spec [OF Cons.prems(1) this] Cons.prems(2) obtain q1 where q1: "pop_front q = Inr (h, q1)"
      "rb_wf q1" "rb_elements q1 = xs @ ys" "rb_capacity q1 = rb_capacity q" by auto
  have get: "static_array_get ths h = Inr (ths ! h)" using Cons.prems(3) by (simp add: static_array_get_def)
  show ?case
  proof (cases "found = None \<and> may_run_on ths cpu h")
    case True
    then have "select_loop cpu ths (List.length (h # xs)) found q = select_loop cpu ths (List.length xs) (Some h) q1"
      using q1(1) get by (simp add: may_run_on_def)
    then show ?thesis
      using True Cons.IH [OF q1(2,3), of "Some h"] Cons.prems(3) q1(4) by (auto simp: taken_Cons)
  next
    case False
    have "rb_size q1 < rb_capacity q1"
      using arg_cong [OF q1(3), of List.length] sz Cons.prems(1) q1(4) by (simp add: rb_wf_def)
    from push_back_spec [OF q1(2) this, of h] obtain q2 where q2: "push_back q1 h = Inr q2" "rb_wf q2"
        "rb_elements q2 = xs @ ys @ [h]" "rb_capacity q2 = rb_capacity q"
      by (auto simp: q1(3,4))
    have "select_loop cpu ths (List.length (h # xs)) found q = select_loop cpu ths (List.length xs) found q2"
      using False q1(1) get q2(1) by (auto simp: may_run_on_def)
    then show ?thesis
      using False Cons.IH [OF q2(2), of "ys @ [h]" found] Cons.prems(3) q2(3,4) by (auto simp: taken_Cons)
  qed
qed

section \<open>Where every thread is\<close>

abbreviation queue :: "scheduler \<Rightarrow> nat list" where "queue s \<equiv> rb_elements (ready_queue s)"

abbreviation state_of :: "scheduler \<Rightarrow> nat \<Rightarrow> thread_state" where
  "state_of s h \<equiv> th_state (sch_threads s ! h)"

text \<open>The thread a CPU has taken out of the queue or is about to put there, and the one it runs.\<close>

fun held_by :: "phase \<Rightarrow> nat option" where
  "held_by (Creating h p) = Some h"
| "held_by (Selected h) = Some h"
| "held_by _ = None"

fun run_by :: "phase \<Rightarrow> nat option" where
  "run_by (Creating h p) = run_by p"
| "run_by (Joining typed h p) = run_by p"
| "run_by (Entering h) = Some h"
| "run_by (On h) = Some h"
| "run_by _ = None"

fun phase_ok :: "phase \<Rightarrow> bool" where
  "phase_ok (Creating h p) = in_code p"
| "phase_ok (Joining typed h p) = (in_code p \<and> h < THREAD_MAX_COUNT)"
| "phase_ok (Leaving h) = (h < THREAD_MAX_COUNT)"
| "phase_ok (Exiting h) = (h < THREAD_MAX_COUNT)"
| "phase_ok (Back h) = (h < THREAD_MAX_COUNT)"
| "phase_ok _ = True"

text \<open>
  The accounting of the scheduler over the state of every slot, the queue, and what each CPU holds and
  runs: a ready thread is in exactly one place, the queue or one CPU's hands, and a running one is run by
  exactly one CPU.
\<close>

definition places ::
  "(nat \<Rightarrow> thread_state) \<Rightarrow> nat list \<Rightarrow> (u32 \<Rightarrow> nat option) \<Rightarrow> (u32 \<Rightarrow> nat option) \<Rightarrow> bool" where
  "places st q held run \<longleftrightarrow> distinct q
     \<and> (\<forall>h. st h = Thread_READY \<longleftrightarrow> h \<in> set q \<or> (\<exists>c. held c = Some h))
     \<and> (\<forall>h \<in> set q. \<forall>c. held c \<noteq> Some h)
     \<and> (\<forall>c c' h. held c = Some h \<longrightarrow> held c' = Some h \<longrightarrow> c = c')
     \<and> (\<forall>h. st h = Thread_RUNNING \<longleftrightarrow> (\<exists>c. run c = Some h))
     \<and> (\<forall>c c' h. run c = Some h \<longrightarrow> run c' = Some h \<longrightarrow> c = c')"

lemma places_take:
  "places st q held run \<Longrightarrow> h \<in> set q \<Longrightarrow> held c = None \<Longrightarrow> places st (remove1 h q) (held(c := Some h)) run"
  unfolding places_def fun_upd_apply by (elim conjE, intro conjI) (simp_all, (metis option.distinct(1) option.inject thread_state.distinct)+)

lemma places_create:
  "places st q held run \<Longrightarrow> st h = Thread_FREE \<Longrightarrow> held c = None \<Longrightarrow>
   places (st(h := Thread_READY)) q (held(c := Some h)) run"
  unfolding places_def fun_upd_apply by (elim conjE, intro conjI) (simp_all, (metis option.distinct(1) option.inject thread_state.distinct)+)

lemma places_enqueue:
  "places st q held run \<Longrightarrow> held c = Some h \<Longrightarrow> places st (q @ [h]) (held(c := None)) run"
  unfolding places_def fun_upd_apply by (elim conjE, intro conjI) (simp_all, (metis option.distinct(1) option.inject thread_state.distinct)+)

lemma places_enter:
  "places st q held run \<Longrightarrow> held c = Some h \<Longrightarrow> run c = None \<Longrightarrow>
   places (st(h := Thread_RUNNING)) q (held(c := None)) (run(c := Some h))"
  unfolding places_def fun_upd_apply by (elim conjE, intro conjI) (simp_all, (metis option.distinct(1) option.inject thread_state.distinct)+)

lemma places_yield:
  "places st q held run \<Longrightarrow> run c = Some h \<Longrightarrow>
   places (st(h := Thread_READY)) (q @ [h]) held (run(c := None))"
  unfolding places_def fun_upd_apply by (elim conjE, intro conjI) (simp_all, (metis option.distinct(1) option.inject thread_state.distinct)+)

lemma places_finish:
  "places st q held run \<Longrightarrow> run c = Some h \<Longrightarrow> places (st(h := Thread_DONE)) q held (run(c := None))"
  unfolding places_def fun_upd_apply by (elim conjE, intro conjI) (simp_all, (metis option.distinct(1) option.inject thread_state.distinct)+)

lemma places_reclaim:
  "places st q held run \<Longrightarrow> st h = Thread_DONE \<Longrightarrow> places (st(h := Thread_FREE)) q held run"
  unfolding places_def fun_upd_apply by (elim conjE, intro conjI) (simp_all, (metis option.distinct(1) option.inject thread_state.distinct)+)

section \<open>The invariant\<close>

definition slot_state :: "scheduler \<Rightarrow> nat \<Rightarrow> thread_state" where
  "slot_state s h = (if h < THREAD_MAX_COUNT then state_of s h else Thread_FREE)"

definition holds :: "scheduler \<Rightarrow> u32 \<Rightarrow> nat option" where
  "holds s c = held_by (sch_phase s c)"

definition runs :: "scheduler \<Rightarrow> u32 \<Rightarrow> nat option" where
  "runs s c = run_by (sch_phase s c)"

definition sch_inv :: "scheduler \<Rightarrow> bool" where
  "sch_inv s \<longleftrightarrow> List.length (sch_threads s) = THREAD_MAX_COUNT \<and> rb_wf (ready_queue s)
     \<and> rb_capacity (ready_queue s) = THREAD_MAX_COUNT \<and> (\<forall>c. phase_ok (sch_phase s c))
     \<and> places (slot_state s) (queue s) (holds s) (runs s)
     \<and> current_threads s = runs s"

lemma sch_invD:
  assumes "sch_inv s"
  shows "List.length (sch_threads s) = THREAD_MAX_COUNT" "rb_wf (ready_queue s)"
    "rb_capacity (ready_queue s) = THREAD_MAX_COUNT" "phase_ok (sch_phase s c)"
    "places (slot_state s) (queue s) (holds s) (runs s)"
    "current_threads s = runs s"
  using assms by (simp_all add: sch_inv_def)

lemma places_facts:
  assumes "places st q held run"
  shows "distinct q" "h \<in> set q \<Longrightarrow> st h = Thread_READY" "held c = Some h \<Longrightarrow> st h = Thread_READY"
    "run c = Some h \<Longrightarrow> st h = Thread_RUNNING" "held c = Some h \<Longrightarrow> h \<notin> set q"
  using assms unfolding places_def by metis+

lemma slot_bound: "slot_state s h \<noteq> Thread_FREE \<Longrightarrow> h < THREAD_MAX_COUNT \<and> state_of s h = slot_state s h"
  by (simp add: slot_state_def split: if_splits)

lemma goto_sel [simp]:
  "sch_threads (goto c p s) = sch_threads s" "ready_queue (goto c p s) = ready_queue s"
  "current_threads (goto c p s) = current_threads s" "sch_phase (goto c p s) = (sch_phase s)(c := p)"
  "active_tls (goto c p s) = active_tls s" "idle_blocks (goto c p s) = idle_blocks s"
  "slot_state (goto c p s) = slot_state s" "holds (goto c p s) = (holds s)(c := held_by p)"
  "runs (goto c p s) = (runs s)(c := run_by p)"
  by (simp_all add: goto_def slot_state_def holds_def runs_def fun_eq_iff)

lemma upd_thread_sel [simp]:
  "sch_threads (upd_thread h f s) = (sch_threads s)[h := f (sch_threads s ! h)]" "ready_queue (upd_thread h f s) = ready_queue s"
  "current_threads (upd_thread h f s) = current_threads s" "sch_phase (upd_thread h f s) = sch_phase s"
  "active_tls (upd_thread h f s) = active_tls s" "idle_blocks (upd_thread h f s) = idle_blocks s"
  "holds (upd_thread h f s) = holds s" "runs (upd_thread h f s) = runs s"
  by (simp_all add: upd_thread_def holds_def runs_def fun_eq_iff)

lemma slot_state_upd:
  "List.length (sch_threads s) = THREAD_MAX_COUNT \<Longrightarrow> h < THREAD_MAX_COUNT \<Longrightarrow>
   slot_state (upd_thread h f s) = (slot_state s)(h := th_state (f (sch_threads s ! h)))"
  by (auto simp: slot_state_def fun_eq_iff nth_list_update)

lemma phase_fields [simp]:
  "holds (s\<lparr> ready_queue := q \<rparr>) = holds s" "holds (s\<lparr> current_threads := cur \<rparr>) = holds s"
  "holds (s\<lparr> active_tls := tls \<rparr>) = holds s" "holds (s\<lparr> freed_storage := fs \<rparr>) = holds s"
  "runs (s\<lparr> ready_queue := q \<rparr>) = runs s" "runs (s\<lparr> current_threads := cur \<rparr>) = runs s"
  "runs (s\<lparr> active_tls := tls \<rparr>) = runs s" "runs (s\<lparr> freed_storage := fs \<rparr>) = runs s"
  by (simp_all add: holds_def runs_def fun_eq_iff)

lemma slot_state_fields [simp]:
  "slot_state (s\<lparr> ready_queue := q \<rparr>) = slot_state s" "slot_state (s\<lparr> current_threads := cur \<rparr>) = slot_state s"
  "slot_state (s\<lparr> active_tls := tls \<rparr>) = slot_state s" "slot_state (s\<lparr> freed_storage := fs \<rparr>) = slot_state s"
  by (simp_all add: slot_state_def fun_eq_iff)

lemma start_inv: "sch_inv (start_state blocks)"
proof -
  have "rb_wf (ring_buffer_init THREAD_MAX_COUNT (0 :: nat))"
    by (rule rb_wf_init) (simp add: THREAD_MAX_COUNT_def)
  note wf = rb_wf_clear [OF this]
  have f: "sch_threads (start_state blocks) = replicate THREAD_MAX_COUNT blank_thread"
    "ready_queue (start_state blocks) = rb_clear (ring_buffer_init THREAD_MAX_COUNT 0)"
    "sch_phase (start_state blocks) = (\<lambda>_. Idle)" "current_threads (start_state blocks) = (\<lambda>_. None)"
    by (simp_all add: start_state_def threads_initialize_def)
  have "slot_state (start_state blocks) = (\<lambda>_. Thread_FREE)"
    by (auto simp: slot_state_def f blank_thread_def)
  then show ?thesis using wf by (simp add: sch_inv_def places_def f holds_def runs_def fun_eq_iff)
qed

text \<open>A slot that is not in the queue leaves room for it.\<close>

lemma queue_push:
  assumes inv: "sch_inv s" and h: "h < THREAD_MAX_COUNT" "h \<notin> set (queue s)"
  shows "\<not> rb_full (ready_queue s)"
    "\<exists>q. push_back (ready_queue s) h = Inr q \<and> rb_wf q \<and> rb_elements q = queue s @ [h] \<and> rb_capacity q = THREAD_MAX_COUNT"
proof -
  note wf = sch_invD [OF inv] and pl = places_facts [OF sch_invD(5) [OF inv]]
  have "set (queue s) \<subseteq> {..<THREAD_MAX_COUNT} - {h}"
    using pl(2) h(2) slot_bound [of s] by fastforce
  then have "card (set (queue s)) \<le> THREAD_MAX_COUNT - 1"
    using card_mono [of "{..<THREAD_MAX_COUNT} - {h}" "set (queue s)"] h(1) by simp
  then have room: "rb_size (ready_queue s) < THREAD_MAX_COUNT"
    using distinct_card [OF pl(1)] h(1) by simp
  show "\<not> rb_full (ready_queue s)" using room wf(3) by (simp add: rb_full_def)
  show "\<exists>q. push_back (ready_queue s) h = Inr q \<and> rb_wf q \<and> rb_elements q = queue s @ [h] \<and> rb_capacity q = THREAD_MAX_COUNT"
    using push_back_spec [OF wf(2), of h] room wf(3) by simp
qed

text \<open>A change of a thread's context or of its other fields keeps the accounting.\<close>

lemma same_state_upd:
  assumes inv: "sch_inv s" and f: "\<And>t. th_state (f t) = th_state t"
  shows "sch_inv (upd_thread h f s)"
proof -
  note wf = sch_invD [OF inv]
  have "th_state ((sch_threads s)[h := f (sch_threads s ! h)] ! x) = state_of s x" for x
    using f by (cases "x = h"; cases "h < List.length (sch_threads s)") (simp_all add: not_less list_update_beyond)
  then have "slot_state (upd_thread h f s) = slot_state s" by (simp add: slot_state_def fun_eq_iff)
  then show ?thesis using wf by (simp add: sch_inv_def)
qed

lemma same_state_inv:
  assumes "sch_inv s" "\<And>t. th_state (f t) = th_state t"
    and p: "held_by p = holds s c" "run_by p = runs s c" "phase_ok p"
  shows "sch_inv (goto c p (upd_thread h f s))"
  using same_state_upd [OF assms(1,2), of h] by (simp add: sch_inv_def p)

lemma goto_upd: "goto c p (upd_thread h f s) = upd_thread h f (goto c p s)"
  by (simp add: goto_def upd_thread_def)

lemma create_inv:
  assumes inv: "sch_inv s" and code: "in_code (sch_phase s c)" and ok: "create_thread ts s = Inr (h, s')"
    and f: "\<And>t. th_state (f t) = th_state t"
  shows "sch_inv (goto c (Creating h (sch_phase s c)) (upd_thread h f s'))"
proof -
  note wf = sch_invD [OF inv]
  have h: "find (\<lambda>index. state_of s index = Thread_FREE) [0..<THREAD_MAX_COUNT] = Some h"
    using ok by (auto simp: create_thread_def kstd_assert_Inr_iff split: option.splits)
  obtain t where t: "s' = upd_thread h (\<lambda>_. t) s" "th_state t = Thread_READY"
    using ok h by (auto simp: create_thread_def kstd_assert_Inr_iff upd_thread_def)
  have hs: "h < THREAD_MAX_COUNT" "state_of s h = Thread_FREE" using h by (auto simp: find_Some_iff)
  then have "places ((slot_state s)(h := Thread_READY)) (queue s) ((holds s)(c := Some h)) (runs s)"
    using code by (intro places_create [OF wf(5)]) (auto simp: slot_state_def in_code_def holds_def split: phase.splits)
  moreover have "slot_state (upd_thread h (\<lambda>_. t) s) = (slot_state s)(h := Thread_READY)" using wf(1) hs(1) t(2) by (simp add: slot_state_upd)
  moreover have "(runs s)(c := run_by (sch_phase s c)) = runs s" by (auto simp: fun_eq_iff runs_def)
  ultimately have "sch_inv (goto c (Creating h (sch_phase s c)) (upd_thread h (\<lambda>_. t) s))"
    using wf code by (simp add: sch_inv_def)
  from same_state_upd [of _ f h, OF this f] show ?thesis by (simp add: t(1) goto_upd)
qed

lemma spawn_inv:
  assumes "sch_inv s" "in_code (sch_phase s c)"
  shows "spawn_create c sp s = Inr s' \<Longrightarrow> sch_inv s'" "spawn_typed c tp s = Inr s' \<Longrightarrow> sch_inv s'"
proof -
  note create = create_inv [OF assms]
  have ph: "create_thread ts s = Inr (h, s1) \<Longrightarrow> sch_phase s1 = sch_phase s" for ts h s1
    by (auto simp: create_thread_def kstd_assert_Inr_iff split: option.splits)
  {
    assume "spawn_create c sp s = Inr s'"
    then show "sch_inv s'"
      using create [of _ _ _ "\<lambda>t. t"] ph
      by (auto simp: spawn_create_def kstd_assert_Inr_iff obind_Inr_iff goto_def upd_thread_def)
  next
    assume "spawn_typed c tp s = Inr s'"
    then show "sch_inv s'"
      using create [of _ _ _ "\<lambda>t. t\<lparr> th_typed_control := tp_storage tp, th_typed_result := tp_storage tp + tp_result_offset tp,
                 th_typed_destroy := tp_destroy tp \<rparr>"] ph
      by (auto simp: spawn_typed_def kstd_assert_Inr_iff obind_Inr_iff goto_def upd_thread_def)
  }
qed

lemma enqueue_inv:
  assumes inv: "sch_inv s" and at: "sch_phase s c = Creating h p"
  shows "\<exists>s'. act c Spawn_Enqueue s = Some (Inr s') \<and> sch_inv s'"
proof -
  note wf = sch_invD [OF inv] and pl = places_facts [OF sch_invD(5) [OF inv]]
  have held: "holds s c = Some h" by (simp add: holds_def at)
  have h: "h < THREAD_MAX_COUNT" "h \<notin> set (queue s)" using slot_bound [of s h] pl(3) [OF held] pl(5) [OF held] by auto
  obtain q where q: "push_back (ready_queue s) h = Inr q" "rb_wf q" "rb_elements q = queue s @ [h]"
    "rb_capacity q = THREAD_MAX_COUNT" using queue_push(2) [OF inv h] by blast
  let ?s = "goto c p (s\<lparr> ready_queue := q \<rparr>)"
  have code: "in_code p" using wf(4) [of c] at by simp
  then have np: "held_by p = None" "run_by p = runs s c" "phase_ok p"
    by (auto simp: in_code_def runs_def at split: phase.splits)
  have "(runs s)(c := run_by p) = runs s" unfolding np by simp
  then have "sch_inv ?s"
    using wf(1,4,6) q(2-4) np(1,3) places_enqueue [OF wf(5) held] by (simp add: sch_inv_def)
  then show ?thesis using q(1) queue_push(1) [OF inv h] by (simp add: at enqueue_thread_def)
qed

lemma yield_inv:
  assumes inv: "sch_inv s" and at: "sch_phase s c = On h"
  shows "\<exists>s'. act c Yield s = Some (Inr s') \<and> sch_inv s'"
proof -
  note wf = sch_invD [OF inv] and pl = places_facts [OF sch_invD(5) [OF inv]]
  have run: "runs s c = Some h" by (simp add: runs_def at)
  have st: "slot_state s h = Thread_RUNNING" by (rule pl(4) [OF run])
  then have h: "h < THREAD_MAX_COUNT" "state_of s h = Thread_RUNNING" using slot_bound [of s h] by auto
  have nq: "h \<notin> set (queue s)" using pl(2) st by fastforce
  obtain q where q: "push_back (ready_queue s) h = Inr q" "rb_wf q" "rb_elements q = queue s @ [h]"
    "rb_capacity q = THREAD_MAX_COUNT" using queue_push(2) [OF inv h(1) nq] by blast
  let ?s = "goto c (Leaving h) (upd_thread h (th_state_update (\<lambda>_. Thread_READY))
     (s\<lparr> ready_queue := q, current_threads := (current_threads s)(c := None) \<rparr>))"
  have "slot_state ?s = (slot_state s)(h := Thread_READY)" using wf(1) h(1) by (simp add: slot_state_upd)
  moreover have "(holds s)(c := None) = holds s" by (auto simp: fun_eq_iff holds_def at)
  ultimately have "sch_inv ?s"
    using wf(1,4,6) q(2-4) h(1) places_yield [OF wf(5) run] by (simp add: sch_inv_def)
  then show ?thesis
    using q(1) h queue_push(1) [OF inv h(1) nq] wf(6) run by (simp add: at yield_publish_def)
qed

lemma finish_inv:
  assumes inv: "sch_inv s" and at: "sch_phase s c = On h"
  shows "\<exists>s'. act c Finish s = Some (Inr s') \<and> sch_inv s'"
proof -
  note wf = sch_invD [OF inv] and pl = places_facts [OF sch_invD(5) [OF inv]]
  have run: "runs s c = Some h" by (simp add: runs_def at)
  have h: "h < THREAD_MAX_COUNT" using pl(4) [OF run] slot_bound [of s h] by auto
  let ?s = "goto c (Exiting h) (upd_thread h (th_state_update (\<lambda>_. Thread_DONE))
     (s\<lparr> current_threads := (current_threads s)(c := None) \<rparr>))"
  have "slot_state ?s = (slot_state s)(h := Thread_DONE)" using wf(1) h by (simp add: slot_state_upd)
  moreover have "(holds s)(c := None) = holds s" by (auto simp: fun_eq_iff holds_def at)
  ultimately have "sch_inv ?s"
    using wf(1-4,6) h places_finish [OF wf(5) run] by (simp add: sch_inv_def)
  then show ?thesis using wf(6) run by (simp add: at finish_publish_def)
qed

lemma taken_find: "find P xs = Some h \<Longrightarrow> taken P xs = remove1 h xs" "find P xs = None \<Longrightarrow> taken P xs = xs"
  by (simp_all add: taken_def)

lemma select_inv:
  assumes inv: "sch_inv s" and at: "sch_phase s c = Idle"
  shows "\<exists>s'. act c Idle_Select s = Some (Inr s') \<and> sch_inv s'
    \<and> queue s' = taken (may_run_on (sch_threads s) c) (queue s)
    \<and> sch_phase s' c = (case find (may_run_on (sch_threads s) c) (queue s) of None \<Rightarrow> Idle | Some h \<Rightarrow> Selected h)"
proof (cases "rb_size (ready_queue s) = 0")
  case True
  then have "queue s = []" by (metis length_0_conv length_rb_elements)
  then show ?thesis using True inv at by (auto simp: idle_select_def rb_empty_def taken_def)
next
  case False
  note wf = sch_invD [OF inv] and pl = places_facts [OF sch_invD(5) [OF inv]]
  let ?P = "may_run_on (sch_threads s) c"
  have "\<forall>h \<in> set (queue s). h < List.length (sch_threads s)" using pl(2) slot_bound [of s] wf(1) by fastforce
  from select_loop_spec [OF wf(2), of "queue s" "[]" _ c None] this obtain q where
    q: "select_loop c (sch_threads s) (rb_size (ready_queue s)) None (ready_queue s) = Inr (find ?P (queue s), q)"
      "rb_wf q" "rb_capacity q = THREAD_MAX_COUNT" "rb_elements q = taken ?P (queue s)"
    using wf(3) by auto
  show ?thesis
  proof (cases "find ?P (queue s)")
    case None
    then have "sch_inv (s\<lparr> ready_queue := q \<rparr>)"
      using wf q(2-4) by (simp add: sch_inv_def taken_find)
    then show ?thesis
      using None False q(1,4) at by (simp add: idle_select_def rb_empty_def taken_find)
  next
    case (Some h)
    then have h: "h \<in> set (queue s)" by (auto simp: find_Some_iff)
    have "(runs s)(c := None) = runs s" by (auto simp: fun_eq_iff runs_def at)
    then have "sch_inv (goto c (Selected h) (s\<lparr> ready_queue := q \<rparr>))"
      using wf q(2-4) places_take [OF wf(5) h, of c] Some
      by (simp add: sch_inv_def taken_find holds_def at)
    then show ?thesis
      using Some False q(1,4) at by (simp add: idle_select_def rb_empty_def)
  qed
qed

lemma enter_inv:
  assumes inv: "sch_inv s" and at: "sch_phase s c = Selected h"
  shows "\<exists>s'. act c Idle_Enter s = Some (Inr s') \<and> sch_inv s'"
proof -
  note wf = sch_invD [OF inv] and pl = places_facts [OF sch_invD(5) [OF inv]]
  have hold: "holds s c = Some h" "runs s c = None" by (simp_all add: holds_def runs_def at)
  have h: "h < THREAD_MAX_COUNT" "state_of s h = Thread_READY"
    using pl(3) [OF hold(1)] slot_bound [of s h] by auto
  let ?s = "goto c (Entering h) (upd_thread h (th_state_update (\<lambda>_. Thread_RUNNING))
    (s\<lparr> current_threads := (current_threads s)(c := Some h),
       active_tls := (active_tls s)(c := th_tls_block (sch_threads s ! h)) \<rparr>))"
  have "slot_state ?s = (slot_state s)(h := Thread_RUNNING)" using wf(1) h(1) by (simp add: slot_state_upd)
  then have "sch_inv ?s"
    using wf(1-4,6) places_enter [OF wf(5) hold] by (simp add: sch_inv_def)
  then show ?thesis using h(2) by (simp add: at idle_enter_def)
qed

lemma switch_in_outcome:
  assumes inv: "sch_inv s" and at: "sch_phase s c = Entering h"
  shows "if saved_image (th_context (sch_threads s ! h)) = In_Finish then switch_in c h s = Inl ''Finished thread resumed''
    else \<exists>s'. switch_in c h s = Inr s' \<and> sch_inv s'
      \<and> sch_threads s' = (sch_threads s)[h := th_context_update (\<lambda>_. Stale (saved_image (th_context (sch_threads s ! h)))) (sch_threads s ! h)]
      \<and> sch_phase s' = (sch_phase s)(c := On h)"
proof -
  let ?f = "th_context_update (\<lambda>_. Stale (saved_image (th_context (sch_threads s ! h))))"
  have "sch_inv (goto c (On h) (upd_thread h ?f s))"
    by (rule same_state_inv [OF inv]) (simp_all add: holds_def runs_def at)
  moreover have "current_threads s c \<noteq> None" using sch_invD(6) [OF inv] by (simp add: runs_def at)
  ultimately show ?thesis by (auto simp: switch_in_def Let_def split: context_image.splits)
qed

lemma tls_inv: "sch_inv (s\<lparr> active_tls := tls \<rparr>) = sch_inv s" "sch_inv (s\<lparr> freed_storage := fs \<rparr>) = sch_inv s"
  by (simp_all add: sch_inv_def)

lemma switch_out_inv:
  "sch_inv s \<Longrightarrow> sch_phase s c \<in> {Leaving h, Exiting h} \<Longrightarrow> sch_inv (switch_out c h regs s)"
  unfolding switch_out_def using sch_invD(4) [of s c]
  by (intro same_state_inv) (auto simp: holds_def runs_def tls_inv)

lemma reclaim_Inr:
  "reclaim error h s = Inr s' \<longleftrightarrow> error = Error_NONE \<and> s' = upd_thread h (\<lambda>_. blank_thread)
    (s\<lparr> freed_storage := (th_storage (sch_threads s ! h), th_storage_size (sch_threads s ! h),
       th_storage_alignment (sch_threads s ! h)) # freed_storage s \<rparr>)"
  by (auto simp: reclaim_def kstd_assert_Inr_iff Let_def)

lemma reclaim_inv:
  assumes inv: "sch_inv s" and fin: "state_of s h = Thread_DONE" "h < THREAD_MAX_COUNT" and ok: "reclaim error h s = Inr s'"
  shows "sch_inv s'"
proof -
  note wf = sch_invD [OF inv]
  have "places ((slot_state s)(h := Thread_FREE)) (queue s) (holds s) (runs s)"
    using fin by (intro places_reclaim [OF wf(5)]) (simp add: slot_state_def)
  moreover have "slot_state s' = (slot_state s)(h := Thread_FREE)"
    using wf(1) fin(2) ok by (simp add: reclaim_Inr slot_state_upd blank_thread_def)
  ultimately show ?thesis using wf ok by (simp add: sch_inv_def) (simp add: reclaim_Inr)
qed

lemma return_inv:
  assumes inv: "sch_inv s" and at: "sch_phase s c = Back h" and ok: "idle_return c error h s = Inr s'"
  shows "sch_inv s'"
proof -
  note wf = sch_invD [OF inv]
  let ?s = "goto c Idle (s\<lparr> current_threads := (current_threads s)(c := None),
      active_tls := (active_tls s)(c := idle_blocks s c) \<rparr>)"
  have "(holds s)(c := None) = holds s" "(runs s)(c := None) = runs s"
    by (auto simp: fun_eq_iff holds_def runs_def at)
  then have "sch_inv ?s" using wf by (simp add: sch_inv_def)
  then show ?thesis using reclaim_inv [of ?s h error s'] wf(4) [of c] at ok by (auto simp: idle_return_def Let_def split: if_splits)
qed

lemma detach_inv: "sch_inv s \<Longrightarrow> detach h s = Inr s' \<Longrightarrow> sch_inv s'"
  using same_state_upd [of s "th_detached_update (\<lambda>_. True)" h]
  by (auto simp: detach_def kstd_assert_Inr_iff Let_def)

lemma join_seen_inv:
  assumes inv: "sch_inv s" and code: "in_code (sch_phase s c)" and ok: "join_seen c typed h s = Inr s'"
  shows "sch_inv s'"
proof -
  note wf = sch_invD [OF inv]
  let ?p = "Joining typed h (sch_phase s c)"
  have h: "h < THREAD_MAX_COUNT" and s': "s' = goto c ?p s" using ok by (auto simp: join_seen_def kstd_assert_Inr_iff)
  have "(holds s)(c := held_by ?p) = holds s" "(runs s)(c := run_by ?p) = runs s"
    using code by (auto simp: fun_eq_iff holds_def runs_def in_code_def split: phase.splits)
  then show ?thesis using wf code h by (simp add: sch_inv_def s')
qed

lemma join_reclaim_Inr:
  "join_reclaim typed error h s = Inr s' \<Longrightarrow> state_of s h = Thread_DONE \<and> \<not> th_detached (sch_threads s ! h) \<and> reclaim error h s = Inr s'"
  by (auto simp: join_reclaim_def kstd_assert_Inr_iff Let_def split: if_splits)

lemma join_inv:
  assumes inv: "sch_inv s" and at: "sch_phase s c = Joining typed h p" and ok: "join_reclaim typed error h s = Inr s'"
  shows "sch_inv (goto c p s')"
proof -
  note fin = join_reclaim_Inr [OF ok]
  have h: "h < THREAD_MAX_COUNT" "in_code p" using sch_invD(4) [OF inv, of c] at by simp_all
  have inv': "sch_inv s'" using fin h(1) by (blast intro: reclaim_inv [OF inv])
  have ph: "sch_phase s' c = Joining typed h p" using fin at by (auto simp: reclaim_Inr)
  have "held_by p = holds s' c" "run_by p = runs s' c" "phase_ok p"
    using h(2) by (auto simp: in_code_def holds_def runs_def ph split: phase.splits)
  then show ?thesis using inv' by (simp add: sch_inv_def)
qed

lemma act_inv:
  assumes inv: "sch_inv s" and step: "act c a s = Some (Inr s')"
  shows "sch_inv s'"
proof (cases a)
  case (Spawn_Create sp)
  then show ?thesis using step spawn_inv(1) [OF inv] by (auto split: if_splits)
next
  case (Spawn_Typed tp)
  then show ?thesis using step spawn_inv(2) [OF inv] by (auto split: if_splits)
next
  case Spawn_Enqueue
  then obtain h p where "sch_phase s c = Creating h p" using step by (auto split: phase.splits)
  then show ?thesis using step enqueue_inv [OF inv] Spawn_Enqueue by force
next
  case Yield
  then obtain h where "sch_phase s c = On h" using step by (auto split: phase.splits)
  then show ?thesis using step yield_inv [OF inv] Yield by force
next
  case Finish
  then obtain h where "sch_phase s c = On h" using step by (auto split: phase.splits)
  then show ?thesis using step finish_inv [OF inv] Finish by force
next
  case Switch_Out
  then obtain h regs where "sch_phase s c \<in> {Leaving h, Exiting h}" "s' = switch_out c h regs s" using step by (auto split: phase.splits)
  then show ?thesis using switch_out_inv [OF inv] by blast
next
  case Idle_Select
  then have "sch_phase s c = Idle" using step by (auto split: phase.splits)
  then show ?thesis using step select_inv [OF inv] Idle_Select by force
next
  case Idle_Enter
  then obtain h where "sch_phase s c = Selected h" using step by (auto split: phase.splits)
  then show ?thesis using step enter_inv [OF inv] Idle_Enter by force
next
  case Switch_In
  then obtain h where "sch_phase s c = Entering h" "switch_in c h s = Inr s'" using step by (auto split: phase.splits)
  then show ?thesis using switch_in_outcome [OF inv] by (force split: if_splits)
next
  case (Idle_Return error)
  then obtain h where "sch_phase s c = Back h" "idle_return c error h s = Inr s'" using step by (auto split: phase.splits)
  then show ?thesis by (rule return_inv [OF inv])
next
  case (Detach h)
  then show ?thesis using step detach_inv [OF inv] by (auto split: if_splits)
next
  case (Join_Seen typed h)
  then show ?thesis using step join_seen_inv [OF inv] by (auto split: if_splits)
next
  case (Join_Reclaim error)
  then obtain typed h p where at: "sch_phase s c = Joining typed h p" using step by (auto split: phase.splits)
  with step Join_Reclaim obtain s1 where "join_reclaim typed error h s = Inr s1" "s' = goto c p s1" by (auto simp: obind_Inr_iff)
  then show ?thesis using join_inv [OF inv at] by blast
qed

lemma reachable_inv: "reachable cpus blocks s \<Longrightarrow> sch_inv s"
  by (induction rule: reachable.induct) (auto intro: start_inv act_inv)

section \<open>Properties of every interleaving\<close>

text \<open>
  C23: In every interleaving of any set of CPUs, a slot is ready exactly when it is in exactly one place: once in
  the queue, or in the hands of exactly one CPU that dispatches or spawns it; it is running
  exactly when it is the current thread of exactly one CPU.
\<close>

theorem every_thread_in_one_place:
  assumes "reachable cpus blocks s" "h < THREAD_MAX_COUNT"
  shows "distinct (queue s)
    \<and> (state_of s h = Thread_READY \<longleftrightarrow> (h \<in> set (queue s)) \<noteq> (\<exists>!c. held_by (sch_phase s c) = Some h))
    \<and> (\<forall>c. held_by (sch_phase s c) = Some h \<longrightarrow> state_of s h = Thread_READY)
    \<and> (state_of s h = Thread_RUNNING \<longleftrightarrow> (\<exists>!c. current_threads s c = Some h))
    \<and> (\<forall>c. current_threads s c = Some h \<longrightarrow> state_of s h = Thread_RUNNING)"
proof -
  note wf = sch_invD [OF reachable_inv [OF assms(1)]]
  have st: "slot_state s h = state_of s h" using assms(2) by (simp add: slot_state_def)
  have "state_of s h = Thread_READY \<longleftrightarrow> (h \<in> set (queue s)) \<noteq> (\<exists>!c. held_by (sch_phase s c) = Some h)"
    using wf(5) unfolding places_def holds_def st [symmetric] by metis
  moreover have "state_of s h = Thread_RUNNING \<longleftrightarrow> (\<exists>!c. current_threads s c = Some h)"
    using wf(5) unfolding places_def wf(6) st [symmetric] by metis
  ultimately show ?thesis
    using places_facts [OF wf(5)] unfolding st [symmetric] wf(6) by (auto simp: holds_def)
qed

text \<open>
  \<^verbatim>\<open>idle_poll\<close> takes the longest-waiting thread that may run on the CPU and leaves the others
  queued in their order; with none it changes nothing in the queue.
\<close>

theorem idle_poll_takes_first:
  assumes "reachable cpus blocks s" "sch_phase s c = Idle"
  shows "\<exists>s'. act c Idle_Select s = Some (Inr s') \<and>
    (case find (\<lambda>h. th_cpu_affinity (sch_threads s ! h) = ANY_CPU \<or> th_cpu_affinity (sch_threads s ! h) = c) (queue s) of
       None \<Rightarrow> sch_phase s' c = Idle \<and> queue s' = queue s
     | Some h \<Rightarrow> sch_phase s' c = Selected h \<and> queue s' = remove1 h (queue s))"
proof -
  have P: "(\<lambda>h. th_cpu_affinity (sch_threads s ! h) = ANY_CPU \<or> th_cpu_affinity (sch_threads s ! h) = c) =
      may_run_on (sch_threads s) c" by (simp add: may_run_on_def fun_eq_iff)
  show ?thesis
    unfolding P using select_inv [OF reachable_inv [OF assms(1)] assms(2)] by (auto simp: taken_def split: option.splits)
qed

section \<open>Stacks\<close>

text \<open>The thread on whose stack a CPU executes.\<close>

fun stack_user :: "phase \<Rightarrow> nat option" where
  "stack_user (On h) = Some h"
| "stack_user (Leaving h) = Some h"
| "stack_user (Exiting h) = Some h"
| "stack_user (Creating h p) = stack_user p"
| "stack_user (Joining typed h p) = stack_user p"
| "stack_user _ = None"

definition stacks_safe :: "scheduler \<Rightarrow> bool" where
  "stacks_safe s \<longleftrightarrow>
     (\<forall>c c' h. stack_user (sch_phase s c) = Some h \<longrightarrow> stack_user (sch_phase s c') = Some h \<longrightarrow> c = c')
     \<and> (\<forall>c h. stack_user (sch_phase s c) = Some h \<longrightarrow> state_of s h \<noteq> Thread_FREE)
     \<and> (\<forall>c h. sch_phase s c = Entering h \<longrightarrow> \<not> is_stale (th_context (sch_threads s ! h)))"

text \<open>With one CPU at work, only the thread it is leaving can be ready with a context in use.\<close>

definition slot_ok :: "phase \<Rightarrow> nat \<Rightarrow> thread \<Rightarrow> bool" where
  "slot_ok p h t \<longleftrightarrow> (th_state t = Thread_READY \<longrightarrow> p \<noteq> Leaving h \<longrightarrow> \<not> is_stale (th_context t))
     \<and> (p = Entering h \<longrightarrow> \<not> is_stale (th_context t)) \<and> (saved_image (th_context t) = In_Finish \<longrightarrow> th_state t = Thread_DONE)
     \<and> (p = Leaving h \<longrightarrow> th_state t = Thread_READY) \<and> (p = Exiting h \<longrightarrow> th_state t = Thread_DONE)"

definition solo :: "u32 \<Rightarrow> scheduler \<Rightarrow> bool" where
  "solo c s \<longleftrightarrow> sch_inv s \<and> (\<forall>c'. c' \<noteq> c \<longrightarrow> sch_phase s c' = Idle)
     \<and> (\<forall>h < THREAD_MAX_COUNT. slot_ok (sch_phase s c) h (sch_threads s ! h))"

lemma run_by_code: "in_code p \<Longrightarrow> stack_user p = run_by p"
  by (auto simp: in_code_def split: phase.splits)

lemma solo_safe:
  assumes s: "solo c s"
  shows "stacks_safe s"
proof -
  have inv: "sch_inv s" and others: "\<And>c'. c' \<noteq> c \<Longrightarrow> sch_phase s c' = Idle" using s by (auto simp: solo_def)
  have only: "c' = c" if "stack_user (sch_phase s c') = Some h" for c' h using others [of c'] that by (cases "c' = c") auto
  have running: "h < THREAD_MAX_COUNT \<and> state_of s h = Thread_RUNNING" if "run_by (sch_phase s c) = Some h" for h
    using places_facts(4) [OF sch_invD(5) [OF inv], of c h] that slot_bound [of s h] by (simp add: runs_def)
  have "state_of s h \<noteq> Thread_FREE" if u: "stack_user (sch_phase s c) = Some h" for h
  proof (cases "run_by (sch_phase s c) = Some h")
    case False
    then have "sch_phase s c = Leaving h \<or> sch_phase s c = Exiting h"
      using u sch_invD(4) [OF inv, of c] run_by_code by (cases "sch_phase s c") auto
    then show ?thesis using s sch_invD(4) [OF inv, of c] by (auto simp: solo_def slot_ok_def)
  qed (use running in auto)
  moreover have "\<not> is_stale (th_context (sch_threads s ! h))" if "sch_phase s c' = Entering h" for c' h
    using that s others [of c'] running by (cases "c' = c") (auto simp: solo_def slot_ok_def)
  ultimately show ?thesis unfolding stacks_safe_def using only by metis
qed

lemma solo_start: "solo c (start_state blocks)"
  by (simp add: solo_def start_inv) (simp add: start_state_def threads_initialize_def blank_thread_def slot_ok_def)

text \<open>A step of the CPU changes its phase and at most one slot.\<close>

lemma solo_step:
  assumes "solo c s" "sch_inv s'" "sch_threads s' = (sch_threads s)[h := t]" "sch_phase s' = (sch_phase s)(c := p)"
    and "\<And>x. x < THREAD_MAX_COUNT \<Longrightarrow> x \<noteq> h \<Longrightarrow> slot_ok (sch_phase s c) x (sch_threads s ! x) \<Longrightarrow> slot_ok p x (sch_threads s ! x)"
    and "h < THREAD_MAX_COUNT \<Longrightarrow> slot_ok (sch_phase s c) h (sch_threads s ! h) \<Longrightarrow> slot_ok p h t"
  shows "solo c s'"
proof -
  have "slot_ok p x ((sch_threads s)[h := t] ! x)" if "x < THREAD_MAX_COUNT" for x
    using assms that sch_invD(1) [of s] by (cases "x = h") (auto simp: solo_def)
  then show ?thesis using assms(1-4) by (simp add: solo_def)
qed

lemma solo_phase:
  assumes "solo c s" "sch_inv s'" "sch_threads s' = sch_threads s" "sch_phase s' = (sch_phase s)(c := p)"
    and "\<And>x. x < THREAD_MAX_COUNT \<Longrightarrow> slot_ok (sch_phase s c) x (sch_threads s ! x) \<Longrightarrow> slot_ok p x (sch_threads s ! x)"
  shows "solo c s'"
  using assms by (auto simp: solo_def)

lemma solo_ready: "solo c s \<Longrightarrow> holds s c = Some h \<Longrightarrow> h < THREAD_MAX_COUNT \<and> state_of s h = Thread_READY"
  using places_facts(3) [OF sch_invD(5)] slot_bound [of s h] by (fastforce simp: solo_def)

lemma update_twice: "(xs[h := x])[h := g ((xs[h := x]) ! h)] = xs[h := g x]"
  by (cases "h < List.length xs") (simp_all add: list_update_beyond)

lemma create_slot:
  "create_thread ts s = Inr (h, s') \<Longrightarrow> \<exists>t rsp rip. s' = upd_thread h (\<lambda>_. t) s \<and> th_context t = Entry rsp rip"
  by (auto simp: create_thread_def kstd_assert_Inr_iff upd_thread_def intro!: exI split: option.splits)

lemma spawn_slot:
  "spawn_create c sp s = Inr s' \<Longrightarrow> \<exists>h t rsp rip. sch_threads s' = (sch_threads s)[h := t]
     \<and> sch_phase s' = (sch_phase s)(c := Creating h (sch_phase s c)) \<and> th_context t = Entry rsp rip"
  "spawn_typed c tp s = Inr s' \<Longrightarrow> \<exists>h t rsp rip. sch_threads s' = (sch_threads s)[h := t]
     \<and> sch_phase s' = (sch_phase s)(c := Creating h (sch_phase s c)) \<and> th_context t = Entry rsp rip"
proof -
  assume "spawn_create c sp s = Inr s'"
  then obtain ts h s1 where "create_thread ts s = Inr (h, s1)" "s' = s1\<lparr> sch_phase := (sch_phase s1)(c := Creating h (sch_phase s1 c)) \<rparr>"
    by (auto simp: spawn_create_def kstd_assert_Inr_iff obind_Inr_iff)
  with create_slot [of ts s h s1] show "\<exists>h t rsp rip. sch_threads s' = (sch_threads s)[h := t]
     \<and> sch_phase s' = (sch_phase s)(c := Creating h (sch_phase s c)) \<and> th_context t = Entry rsp rip"
    by (force simp: upd_thread_def)
next
  let ?g = "\<lambda>t. t\<lparr> th_typed_control := tp_storage tp, th_typed_result := tp_storage tp + tp_result_offset tp, th_typed_destroy := tp_destroy tp \<rparr>"
  assume "spawn_typed c tp s = Inr s'"
  then obtain ts h s1 where s1: "create_thread ts s = Inr (h, s1)" "sch_threads s' = (sch_threads s1)[h := ?g (sch_threads s1 ! h)]"
      "sch_phase s' = (sch_phase s1)(c := Creating h (sch_phase s1 c))"
    by (auto simp: spawn_typed_def kstd_assert_Inr_iff obind_Inr_iff)
  obtain t rsp rip where t: "s1 = upd_thread h (\<lambda>_. t) s" "th_context t = Entry rsp rip" using create_slot [OF s1(1)] by blast
  have "sch_threads s' = (sch_threads s)[h := ?g t]"
    using s1(2) update_twice [of "sch_threads s" h t ?g] by (simp add: t(1))
  then show "\<exists>h t rsp rip. sch_threads s' = (sch_threads s)[h := t]
     \<and> sch_phase s' = (sch_phase s)(c := Creating h (sch_phase s c)) \<and> th_context t = Entry rsp rip"
    using s1(3) t by (intro exI [of _ h] exI [of _ "?g t"] exI [of _ rsp] exI [of _ rip]) simp
qed

lemma solo_act:
  assumes solo: "solo c s" and step: "act c a s = Some (Inr s')"
  shows "solo c s'"
proof -
  have inv: "sch_inv s" using solo by (auto simp: solo_def)
  note wf = sch_invD [OF inv]
  have inv': "sch_inv s'" by (rule act_inv [OF inv step])
  note S = solo_step [OF solo inv'] and P = solo_phase [OF solo inv']
  show ?thesis
  proof (cases a)
    case (Spawn_Create sp)
    then have code: "in_code (sch_phase s c)" and ok: "spawn_create c sp s = Inr s'" using step by (auto split: if_splits)
    from spawn_slot(1) [OF ok] obtain h t rsp rip where "sch_threads s' = (sch_threads s)[h := t]"
      "sch_phase s' = (sch_phase s)(c := Creating h (sch_phase s c))" "th_context t = Entry rsp rip" by blast
    then show ?thesis
      using code by (intro S [of h t "Creating h (sch_phase s c)"]) (auto simp: slot_ok_def in_code_def split: phase.splits)
  next
    case (Spawn_Typed tp)
    then have code: "in_code (sch_phase s c)" and ok: "spawn_typed c tp s = Inr s'" using step by (auto split: if_splits)
    from spawn_slot(2) [OF ok] obtain h t rsp rip where "sch_threads s' = (sch_threads s)[h := t]"
      "sch_phase s' = (sch_phase s)(c := Creating h (sch_phase s c))" "th_context t = Entry rsp rip" by blast
    then show ?thesis
      using code by (intro S [of h t "Creating h (sch_phase s c)"]) (auto simp: slot_ok_def in_code_def split: phase.splits)
  next
    case Spawn_Enqueue
    then obtain h p where at: "sch_phase s c = Creating h p" using step by (auto split: phase.splits)
    then have "in_code p" "sch_threads s' = sch_threads s" "sch_phase s' = (sch_phase s)(c := p)"
      using step Spawn_Enqueue wf(4) [of c] by (auto simp: enqueue_thread_def kstd_assert_Inr_iff obind_Inr_iff)
    then show ?thesis by (intro P) (auto simp: slot_ok_def at in_code_def)
  next
    case Yield
    then obtain h where at: "sch_phase s c = On h" using step by (auto split: phase.splits)
    then have "current_threads s c = Some h" using wf(6) by (simp add: runs_def)
    then have "sch_threads s' = (sch_threads s)[h := th_state_update (\<lambda>_. Thread_READY) (sch_threads s ! h)]"
        "sch_phase s' = (sch_phase s)(c := Leaving h)"
      using step Yield at by (auto simp: yield_publish_def kstd_assert_Inr_iff obind_Inr_iff)
    moreover have "state_of s h = Thread_RUNNING"
      using places_facts(4) [OF wf(5), of c h] slot_bound [of s h] at by (simp add: runs_def)
    ultimately show ?thesis by (intro S) (auto simp: slot_ok_def at)
  next
    case Finish
    then obtain h where at: "sch_phase s c = On h" using step by (auto split: phase.splits)
    then have "current_threads s c = Some h" using wf(6) by (simp add: runs_def)
    then have "sch_threads s' = (sch_threads s)[h := th_state_update (\<lambda>_. Thread_DONE) (sch_threads s ! h)]"
        "sch_phase s' = (sch_phase s)(c := Exiting h)"
      using step Finish at by (auto simp: finish_publish_def)
    then show ?thesis by (intro S) (auto simp: slot_ok_def at)
  next
    case Switch_Out
    then obtain h regs where at: "sch_phase s c = Leaving h \<and> regs = In_Yield \<or> sch_phase s c = Exiting h \<and> regs = In_Finish"
      and s': "s' = switch_out c h regs s" using step by (auto split: phase.splits)
    show ?thesis
      by (rule S [of h "th_context_update (\<lambda>_. regs) (sch_threads s ! h)" "Back h"])
        (use at in \<open>auto simp: s' switch_out_def slot_ok_def\<close>)
  next
    case Idle_Select
    then have at: "sch_phase s c = Idle" using step by (auto split: phase.splits)
    then have "sch_phase s' c = Idle \<or> (\<exists>h. sch_phase s' c = Selected h)" "sch_threads s' = sch_threads s"
        "sch_phase s' = (sch_phase s)(c := sch_phase s' c)"
      using step Idle_Select by (auto simp: idle_select_def obind_Inr_iff split: if_splits option.splits)
    then show ?thesis by (intro P [of "sch_phase s' c"]) (auto simp: slot_ok_def at)
  next
    case Idle_Enter
    then obtain h where at: "sch_phase s c = Selected h" using step by (auto split: phase.splits)
    then have r: "state_of s h = Thread_READY" using solo_ready [OF solo, of h] by (simp add: holds_def)
    have "sch_threads s' = (sch_threads s)[h := th_state_update (\<lambda>_. Thread_RUNNING) (sch_threads s ! h)]"
        "sch_phase s' = (sch_phase s)(c := Entering h)"
      using step Idle_Enter at by (auto simp: idle_enter_def kstd_assert_Inr_iff)
    then show ?thesis using r by (intro S) (auto simp: slot_ok_def at)
  next
    case Switch_In
    then obtain h where at: "sch_phase s c = Entering h" and ok: "switch_in c h s = Inr s'" using step by (auto split: phase.splits)
    have "state_of s h = Thread_RUNNING"
      using places_facts(4) [OF wf(5), of c h] slot_bound [of s h] at by (simp add: runs_def)
    moreover have "saved_image (th_context (sch_threads s ! h)) \<noteq> In_Finish"
        "sch_threads s' = (sch_threads s)[h := th_context_update (\<lambda>_. Stale (saved_image (th_context (sch_threads s ! h)))) (sch_threads s ! h)]"
        "sch_phase s' = (sch_phase s)(c := On h)"
      using switch_in_outcome [OF inv at] ok by (auto split: if_splits)
    ultimately show ?thesis by (intro S) (auto simp: slot_ok_def at)
  next
    case (Idle_Return error)
    then obtain h where at: "sch_phase s c = Back h" and ok: "idle_return c error h s = Inr s'" using step by (auto split: phase.splits)
    show ?thesis
    proof (cases "state_of s h = Thread_DONE \<and> th_detached (sch_threads s ! h)")
      case True
      then show ?thesis
        by (intro S [of h blank_thread Idle])
          (use ok in \<open>auto simp: idle_return_def reclaim_Inr slot_ok_def at blank_thread_def Let_def\<close>)
    next
      case False
      then show ?thesis by (intro P [of Idle]) (use ok in \<open>auto simp: idle_return_def slot_ok_def at Let_def\<close>)
    qed
  next
    case (Detach h)
    then have "in_code (sch_phase s c)" "s' = upd_thread h (th_detached_update (\<lambda>_. True)) s"
      using step by (auto simp: detach_def kstd_assert_Inr_iff Let_def split: if_splits)
    then show ?thesis
      by (intro S [of h "th_detached_update (\<lambda>_. True) (sch_threads s ! h)" "sch_phase s c"])
        (auto simp: slot_ok_def)
  next
    case (Join_Seen typed h)
    then have "in_code (sch_phase s c)" "s' = goto c (Joining typed h (sch_phase s c)) s"
      using step by (auto simp: join_seen_def kstd_assert_Inr_iff split: if_splits)
    then show ?thesis
      by (intro P [of "Joining typed h (sch_phase s c)"]) (auto simp: slot_ok_def in_code_def split: phase.splits)
  next
    case (Join_Reclaim error)
    then obtain typed h p where at: "sch_phase s c = Joining typed h p" using step by (auto split: phase.splits)
    with step Join_Reclaim obtain s1 where ok: "join_reclaim typed error h s = Inr s1" and s': "s' = goto c p s1" by (auto simp: obind_Inr_iff)
    have "in_code p" using wf(4) [of c] at by simp
    then show ?thesis using join_reclaim_Inr [OF ok]
      by (intro S [of h blank_thread p]) (auto simp: s' reclaim_Inr slot_ok_def at blank_thread_def in_code_def)
  qed
qed

lemma reachable_solo: "reachable {c} blocks s \<Longrightarrow> solo c s"
  by (induction rule: reachable.induct) (auto intro: solo_start solo_act)

text \<open>
  C27: With a single CPU the cooperative switching is sound in every order of operations: no two
  positions share a thread's stack, no stack is in use whose thread was reclaimed, and a
  thread is only entered through a context that was saved, or made at its creation, since it last ran.
\<close>

theorem one_cpu_stacks_safe:
  assumes "reachable {cpu} blocks s"
  shows "stacks_safe s"
  by (rule solo_safe [OF reachable_solo [OF assms]])

section \<open>The fields of typed threads\<close>

definition typed_fields :: "thread \<Rightarrow> bool" where
  "typed_fields t \<longleftrightarrow> (th_typed_control t \<noteq> 0 \<longrightarrow> th_typed_result t \<noteq> 0 \<and> th_typed_destroy t \<noteq> 0)"

abbreviation all_typed_fields :: "scheduler \<Rightarrow> bool" where
  "all_typed_fields s \<equiv> list_all typed_fields (sch_threads s)"

lemma list_all_update: "list_all P xs \<Longrightarrow> P x \<Longrightarrow> list_all P (xs[i := x])"
  using set_update_subset_insert [of xs i x] by (auto simp: list_all_iff)

lemma typed_fields_upd:
  assumes "all_typed_fields s" "\<And>t. typed_fields t \<Longrightarrow> typed_fields (f t)"
  shows "all_typed_fields (upd_thread h f s)"
proof (cases "h < List.length (sch_threads s)")
  case True
  then have "typed_fields (sch_threads s ! h)" using assms(1) by (simp add: list_all_length)
  from list_all_update [OF assms(1) assms(2) [OF this]] show ?thesis by simp
qed (use assms in \<open>simp add: list_update_beyond\<close>)

lemma typed_fields_start: "all_typed_fields (start_state blocks)"
  by (simp add: start_state_def threads_initialize_def blank_thread_def typed_fields_def list_all_iff)

lemma blank_typed [simp]: "typed_fields blank_thread"
  by (simp add: typed_fields_def blank_thread_def)

lemma create_typed_fields:
  assumes ok: "create_thread ts s = Inr (h, s')" and "all_typed_fields s"
  shows "all_typed_fields s'"
proof -
  have "s' = upd_thread h (\<lambda>t. t\<lparr> th_state := Thread_READY, th_procedure := ts_procedure ts, th_argument := ts_data ts,
               th_stack := ts_stack ts, th_stack_size := ts_stack_size ts, th_storage := ts_storage ts,
               th_storage_size := ts_storage_size ts, th_storage_alignment := ts_storage_alignment ts,
               th_cpu_affinity := ts_cpu_affinity ts, th_tls_block := ts_tls_block ts,
               th_context := Entry (stack_top_for (ts_stack ts) (ts_stack_size ts)) (ts_entry ts) \<rparr>) s"
    using ok by (auto simp: create_thread_def kstd_assert_Inr_iff upd_thread_def split: option.splits)
  then show ?thesis using assms(2) by (simp only:) (rule typed_fields_upd, simp_all add: typed_fields_def)
qed

lemma spawn_typed_fields:
  assumes ok: "spawn_typed c tp s = Inr s'" and args: "typed_args_ok tp" and "all_typed_fields s"
  shows "all_typed_fields s'"
proof -
  obtain ts h s1 where s1: "create_thread ts s = Inr (h, s1)" "sch_threads s' = sch_threads (upd_thread h
      (\<lambda>t. t\<lparr> th_typed_control := tp_storage tp, th_typed_result := tp_storage tp + tp_result_offset tp, th_typed_destroy := tp_destroy tp \<rparr>) s1)"
    and storage: "tp_storage tp \<noteq> 0"
    using ok by (auto simp: spawn_typed_def kstd_assert_Inr_iff obind_Inr_iff)
  have "unat (tp_storage tp + tp_result_offset tp) = unat (tp_storage tp) + unat (tp_result_offset tp)"
    using args by (simp add: typed_args_ok_def unat_word_ariths)
  then have "tp_storage tp + tp_result_offset tp \<noteq> 0" using storage by (metis add_is_0 unat_0 unat_eq_zero)
  then show ?thesis unfolding s1(2)
    using args create_typed_fields [OF s1(1) assms(3)] by (intro typed_fields_upd) (simp_all add: typed_fields_def typed_args_ok_def)
qed

lemma typed_fields_act:
  assumes inv: "sch_inv s" and t: "all_typed_fields s" and step: "act c a s = Some (Inr s')"
  shows "all_typed_fields s'"
proof -
  note U = typed_fields_upd [OF t]
  have fields: "all_typed_fields (upd_thread h (th_context_update g) s)" "all_typed_fields (upd_thread h (th_state_update k) s)"
      "all_typed_fields (upd_thread h (th_detached_update d) s)" for h g k d
    by (rule U, simp add: typed_fields_def)+
  have blank: "all_typed_fields (upd_thread h (\<lambda>_. blank_thread) s)" for h by (rule U) (rule blank_typed)
  note ctx = fields [unfolded upd_thread_sel] blank [unfolded upd_thread_sel]
  show ?thesis
  proof (cases a)
    case (Spawn_Create sp)
    with step obtain ts h s1 where "create_thread ts s = Inr (h, s1)" "sch_threads s' = sch_threads s1"
      by (auto simp: spawn_create_def kstd_assert_Inr_iff obind_Inr_iff split: if_splits)
    with create_typed_fields [OF _ t] show ?thesis by simp
  next
    case (Spawn_Typed tp)
    with step spawn_typed_fields [OF _ _ t] show ?thesis by (auto split: if_splits)
  next
    case Switch_In
    then obtain h where at: "sch_phase s c = Entering h" and ok: "switch_in c h s = Inr s'" using step by (auto split: phase.splits)
    then show ?thesis using switch_in_outcome [OF inv at] ctx by (auto split: if_splits)
  next
    case (Idle_Return error)
    then show ?thesis using step t ctx by (auto simp: idle_return_def reclaim_Inr Let_def split: phase.splits if_splits)
  next
    case (Join_Reclaim error)
    then obtain typed h p where at: "sch_phase s c = Joining typed h p" using step by (auto split: phase.splits)
    with step Join_Reclaim obtain s1 where "join_reclaim typed error h s = Inr s1" "s' = goto c p s1" by (auto simp: obind_Inr_iff)
    then show ?thesis using join_reclaim_Inr [of typed error h s s1] ctx by (auto simp: reclaim_Inr)
  qed (use step t ctx in \<open>auto simp: enqueue_thread_def yield_publish_def finish_publish_def switch_out_def idle_select_def
    idle_enter_def detach_def join_seen_def kstd_assert_Inr_iff obind_Inr_iff Let_def split: phase.splits if_splits option.splits\<close>)
qed

lemma reachable_typed: "reachable cpus blocks s \<Longrightarrow> all_typed_fields s"
  by (induction rule: reachable.induct) (auto intro: typed_fields_start typed_fields_act reachable_inv)

section \<open>Assertions\<close>

lemma solo_resumes:
  assumes "solo c s" "sch_phase s c' = Entering h"
  shows "saved_image (th_context (sch_threads s ! h)) \<noteq> In_Finish"
proof -
  have inv: "sch_inv s" and c: "c' = c" using assms by (auto simp: solo_def)
  have "h < THREAD_MAX_COUNT \<and> state_of s h = Thread_RUNNING"
    using places_facts(4) [OF sch_invD(5) [OF inv], of c' h] assms(2) slot_bound [of s h] by (simp add: runs_def)
  then show ?thesis using assms(1) by (auto simp: solo_def slot_ok_def)
qed

lemma create_never_asserts:
  assumes inv: "sch_inv s" and "create_thread ts s = Inl msg"
  shows "msg = ''Thread table full''"
proof -
  have "\<not> rb_full (ready_queue s)" if "find (\<lambda>index. state_of s index = Thread_FREE) [0..<THREAD_MAX_COUNT] = Some h" for h
  proof -
    have h: "h < THREAD_MAX_COUNT" "state_of s h = Thread_FREE" using that by (auto simp: find_Some_iff)
    then have "h \<notin> set (queue s)"
      using places_facts(2) [OF sch_invD(5) [OF inv], of h] by (auto simp: slot_state_def)
    then show ?thesis using queue_push(1) [OF inv h(1)] by simp
  qed
  then show ?thesis using assms(2) by (auto simp: create_thread_def kstd_assert_def split: if_splits option.splits)
qed

lemma obind_Inl_iff: "obind r f = Inl e \<longleftrightarrow> r = Inl e \<or> (\<exists>x. r = Inr x \<and> f x = Inl e)"
  by (cases r) auto


section \<open>Two CPUs\<close>

lemma run_actions_reachable:
  "reachable cpus blocks s \<Longrightarrow> \<forall>(cpu, a) \<in> set as. cpu \<in> cpus \<Longrightarrow> run_actions as s = Some (Inr s') \<Longrightarrow>
   reachable cpus blocks s'"
proof (induction as arbitrary: s)
  case (Cons x as)
  obtain cpu a where x: "x = (cpu, a)" by (cases x)
  obtain s1 where "act cpu a s = Some (Inr s1)" "run_actions as s1 = Some (Inr s')"
    using Cons.prems(3) unfolding x by (cases "act cpu a s" rule: rbind.cases [of "(y, f)" for y f, simplified]) auto
  then show ?case
    using Cons.IH [of s1] Cons.prems(1,2) reachable.step [of cpus blocks s cpu a s1] by (auto simp: x)
qed simp

definition example_thread :: spawn_args where
  "example_thread = \<lparr> sp_procedure = 0x2000, sp_data = 0, sp_stack_size = THREAD_STACK_SIZE, sp_cpu_affinity = ANY_CPU,
     sp_stack = 0x10000, sp_tls_block = 0x500, sp_thread_start = 0x3000 \<rparr>"

text \<open>CPU 0 spawns a thread and dispatches it.\<close>

definition dispatch_example :: "(u32 \<times> action) list" where
  "dispatch_example = [(0, Spawn_Create example_thread), (0, Spawn_Enqueue), (0, Idle_Select), (0, Idle_Enter), (0, Switch_In)]"

definition ends_in :: "(scheduler \<Rightarrow> bool) \<Rightarrow> scheduler run \<Rightarrow> bool" where
  "ends_in P r = (case r of Some (Inr s) \<Rightarrow> P s | _ \<Rightarrow> False)"

lemma ends_inD: "ends_in P r \<Longrightarrow> \<exists>s. r = Some (Inr s) \<and> P s"
  by (auto simp: ends_in_def split: option.splits sum.splits)

definition fails_with :: "string \<Rightarrow> scheduler run \<Rightarrow> bool" where
  "fails_with e r = (case r of Some (Inl e') \<Rightarrow> e' = e | _ \<Rightarrow> False)"

lemma fails_withD: "fails_with e r \<Longrightarrow> r = Some (Inl e)"
  by (auto simp: fails_with_def split: option.splits sum.splits)

lemma example_reachable:
  assumes "ends_in P (run_actions as (start_state (\<lambda>_. 0x400)))" "\<forall>(cpu, a) \<in> set as. cpu \<in> cpus"
  shows "\<exists>s. reachable cpus (\<lambda>_. 0x400) s \<and> P s"
  using ends_inD [OF assms(1)] run_actions_reachable [OF reachable.start assms(2)] by blast

text \<open>
  C25: Two CPUs on one stack. CPU 0 has published the thread it yields and is still on its stack; CPU 1 takes it
  from the queue and enters it through the context of its previous resumption, before CPU 0
  has saved the new one.
\<close>

theorem yield_race_shares_stack:
  "\<exists>s. reachable {0, 1} (\<lambda>_. 0x400) s \<and> sch_phase s 0 = Leaving 0 \<and> sch_phase s 1 = Entering 0
     \<and> is_stale (th_context (sch_threads s ! 0))
     \<and> (\<exists>s'. act 1 Switch_In s = Some (Inr s') \<and> stack_user (sch_phase s' 0) = Some 0 \<and> stack_user (sch_phase s' 1) = Some 0)"
proof -
  have "ends_in (\<lambda>s. sch_phase s 0 = Leaving 0 \<and> sch_phase s 1 = Entering 0 \<and> th_context (sch_threads s ! 0) = Stale (Entry 0x1fff8 0x3000))
    (run_actions (dispatch_example @ [(0, Yield), (1, Idle_Select), (1, Idle_Enter)]) (start_state (\<lambda>_. 0x400)))"
    by code_simp
  from example_reachable [OF this, of "{0, 1}"] obtain s where s: "reachable {0, 1} (\<lambda>_. 0x400) s"
      "sch_phase s 0 = Leaving 0" "sch_phase s 1 = Entering 0" "th_context (sch_threads s ! 0) = Stale (Entry 0x1fff8 0x3000)"
    by (auto simp: dispatch_example_def)
  from reachable_inv [OF s(1)] s(3) have "saved_image (th_context (sch_threads s ! 0)) \<noteq> In_Finish \<Longrightarrow>
      \<exists>s'. switch_in 1 0 s = Inr s' \<and> sch_phase s' = (sch_phase s)(1 := On 0)"
    using switch_in_outcome [of s 1 0] by auto
  with s show ?thesis by (intro exI [of _ s]) auto
qed

text \<open>
  C26: A stack freed in use, and a lost thread, in one run. CPU 0 has published that its thread is done and is
  still on its stack when CPU 1 joins the thread, which frees that stack. From there, CPU 1 spawns another thread, which takes
  the same slot while CPU 0 still runs on the first one's stack; CPU 0 leaves and saves its registers over the
  new thread's context; and CPU 1, entering the new thread, resumes the finished one instead, at the assertion.
\<close>

theorem finish_race_frees_stack:
  "\<exists>s s' s''. reachable {0, 1} (\<lambda>_. 0x400) s \<and> sch_phase s 0 = Exiting 0 \<and> state_of s 0 = Thread_FREE
     \<and> freed_storage s = [(sp_stack example_thread, sp_stack_size example_thread, AP_STACK_ALIGNMENT)]
     \<and> run_actions [(1, Spawn_Create example_thread), (1, Spawn_Enqueue)] s = Some (Inr s')
     \<and> sch_phase s' 0 = Exiting 0 \<and> state_of s' 0 = Thread_READY \<and> queue s' = [0]
     \<and> th_context (sch_threads s' ! 0) = Entry 0x1fff8 (sp_thread_start example_thread)
     \<and> act 0 Switch_Out s' = Some (Inr s'') \<and> queue s'' = [0] \<and> th_context (sch_threads s'' ! 0) = In_Finish
     \<and> run_actions [(1, Idle_Select), (1, Idle_Enter), (1, Switch_In)] s'' = Some (Inl ''Finished thread resumed'')"
proof -
  let ?r = "run_actions (dispatch_example @ [(0, Finish), (1, Join_Seen False 0), (1, Join_Reclaim Error_NONE)]) (start_state (\<lambda>_. 0x400))"
  have "ends_in (\<lambda>s. sch_phase s 0 = Exiting 0 \<and> state_of s 0 = Thread_FREE
      \<and> freed_storage s = [(sp_stack example_thread, sp_stack_size example_thread, AP_STACK_ALIGNMENT)]
      \<and> ends_in (\<lambda>s'. sch_phase s' 0 = Exiting 0 \<and> state_of s' 0 = Thread_READY \<and> queue s' = [0]
          \<and> th_context (sch_threads s' ! 0) = Entry 0x1fff8 (sp_thread_start example_thread)
          \<and> ends_in (\<lambda>s''. queue s'' = [0] \<and> th_context (sch_threads s'' ! 0) = In_Finish
              \<and> fails_with ''Finished thread resumed'' (run_actions [(1, Idle_Select), (1, Idle_Enter), (1, Switch_In)] s''))
            (act 0 Switch_Out s'))
        (run_actions [(1, Spawn_Create example_thread), (1, Spawn_Enqueue)] s)) ?r"
    by code_simp
  from example_reachable [OF this, of "{0, 1}"] show ?thesis
    by (fastforce simp: dispatch_example_def dest!: ends_inD fails_withD simp del: run_actions.simps act.simps)
qed

section \<open>Examples\<close>

text \<open>CPU 0 runs a thread while CPU 1 has spawned another one.\<close>

definition busy_example :: "(u32 \<times> action) list" where
  "busy_example = dispatch_example @ [(1, Spawn_Create example_thread), (1, Spawn_Enqueue)]"

lemma busy_reachable:
  "\<exists>s. reachable {0, 1} (\<lambda>_. 0x400) s \<and> sch_phase s 0 = On 0 \<and> sch_phase s 1 = Idle \<and> queue s = [1]
     \<and> state_of s 1 = Thread_READY \<and> th_cpu_affinity (sch_threads s ! 1) = ANY_CPU"
proof -
  have "ends_in (\<lambda>s. sch_phase s 0 = On 0 \<and> sch_phase s 1 = Idle \<and> queue s = [1] \<and> state_of s 1 = Thread_READY
      \<and> th_cpu_affinity (sch_threads s ! 1) = ANY_CPU) (run_actions busy_example (start_state (\<lambda>_. 0x400)))"
    by code_simp
  from example_reachable [OF this, of "{0, 1}"] show ?thesis by (simp add: busy_example_def dispatch_example_def)
qed

lemma every_thread_in_one_place_witness:
  "\<exists>s. reachable {0, 1} (\<lambda>_. 0x400) s \<and> queue s = [1] \<and> \<not> (\<exists>!c. held_by (sch_phase s c) = Some 1)"
proof -
  obtain s where s: "reachable {0, 1} (\<lambda>_. 0x400) s" "queue s = [1]" "state_of s 1 = Thread_READY"
    using busy_reachable by blast
  have "(1 :: nat) < THREAD_MAX_COUNT" by (simp add: THREAD_MAX_COUNT_def)
  from every_thread_in_one_place [OF s(1) this] s show ?thesis by auto
qed


lemma idle_poll_takes_first_witness:
  "\<exists>s s'. reachable {0, 1} (\<lambda>_. 0x400) s \<and> act 1 Idle_Select s = Some (Inr s') \<and> sch_phase s' 1 = Selected 1 \<and> queue s' = []"
proof -
  obtain s where s: "reachable {0, 1} (\<lambda>_. 0x400) s" "sch_phase s 1 = Idle" "queue s = [1]"
      "th_cpu_affinity (sch_threads s ! 1) = ANY_CPU"
    using busy_reachable by blast
  from idle_poll_takes_first [OF s(1,2)] s show ?thesis by auto
qed

lemma one_cpu_stacks_safe_witness:
  "\<exists>s. reachable {0} (\<lambda>_. 0x400) s \<and> stack_user (sch_phase s 0) = Some 0 \<and> stacks_safe s"
proof -
  have "ends_in (\<lambda>s. stack_user (sch_phase s 0) = Some 0) (run_actions dispatch_example (start_state (\<lambda>_. 0x400)))"
    by code_simp
  from example_reachable [OF this, of "{0}"] obtain s where "reachable {0} (\<lambda>_. 0x400) s" "stack_user (sch_phase s 0) = Some 0"
    by (auto simp: dispatch_example_def)
  then show ?thesis using one_cpu_stacks_safe [of 0 "\<lambda>_. 0x400" s] by blast
qed

section \<open>The first stack pointer\<close>

text \<open>
  The stack pointer a thread starts with lies inside its stack, leaves room for the return address
  above it, and is 8 above a multiple of 16, as the calling convention asks at a function's entry.
\<close>

theorem initial_stack_pointer:
  assumes "unat stack + unat sz < 2 ^ 64" "32 \<le> sz"
  shows "unat (stack_top_for stack sz) mod 16 = 8 \<and> unat stack \<le> unat (stack_top_for stack sz)
    \<and> unat (stack_top_for stack sz) + 8 \<le> unat stack + unat sz"
proof -
  let ?t = "stack + sz"
  have t: "unat ?t = unat stack + unat sz" using assms(1) by (simp add: unat_word_ariths)
  have sz: "32 \<le> unat sz" using assms(2) by (simp add: word_le_nat_alt)
  have d: "unat (?t AND NOT (AP_STACK_ALIGNMENT - 1)) = unat ?t - unat ?t mod 16"
    using unat_align_down [of 4 ?t] by (simp add: align_down_def AP_STACK_ALIGNMENT_def)
  have "unat ?t mod 16 < 16" by simp
  then have top: "unat (stack_top_for stack sz) = unat ?t - unat ?t mod 16 - 8"
    unfolding stack_top_for_def using d t sz by (subst unat_sub) (auto simp: word_le_nat_alt)
  have q: "unat ?t - unat ?t mod 16 = 16 * (unat ?t div 16)" by (simp add: minus_mod_eq_mult_div)
  have "16 * (unat ?t div 16) - 8 = 16 * (unat ?t div 16 - 1) + 8" using t sz by (simp add: diff_mult_distrib2)
  then have "unat (stack_top_for stack sz) mod 16 = 8" unfolding top q by simp
  moreover have "unat stack \<le> unat (stack_top_for stack sz)" "unat (stack_top_for stack sz) + 8 \<le> unat stack + unat sz"
    unfolding top using t sz \<open>unat ?t mod 16 < 16\<close> by linarith+
  ultimately show ?thesis by simp
qed

lemma initial_stack_pointer_witness:
  "unat (stack_top_for 0x10001 THREAD_STACK_SIZE) mod 16 = 8 \<and> unat (stack_top_for 0x10001 THREAD_STACK_SIZE) = 0x1fff8"
proof -
  have "stack_top_for 0x10001 THREAD_STACK_SIZE = 0x1fff8"
    by (simp add: stack_top_for_def THREAD_STACK_SIZE_def AP_STACK_ALIGNMENT_def)
  moreover have "unat (0x10001 :: u64) + unat THREAD_STACK_SIZE < 2 ^ 64" "32 \<le> THREAD_STACK_SIZE"
    by (simp_all add: THREAD_STACK_SIZE_def)
  note initial_stack_pointer [OF this]
  ultimately show ?thesis by simp
qed

end
