(* ===== verification/Spec2Isabelle.thy ===== *)
theory Spec2Isabelle
  imports Boot_Memory Debug Dwarf_Rows Pp_Properties Ps2 Random_Numbers Sprint Tetris_Properties Threads_Safety
begin

text \<open>
  Verification development for gameos, a freestanding x86-64 kernel in C++ that boots on bare metal and
  plays three-dimensional Tetris. Paths below are relative to \<^verbatim>\<open>src/\<close>.

  \<^bold>\<open>The program.\<close> \<^verbatim>\<open>src/kstd\<close> is the standard library of the kernel: allocators,
  containers, formatting, a reader of byte buffers and a DWARF reader. \<^verbatim>\<open>src/gameos\<close> is the kernel:
  it parses the boot loader's information (\<^verbatim>\<open>multiboot2.hh\<close>), makes a map of the usable memory
  (\<^verbatim>\<open>memory.hh\<close>) and gives it to the buddy heap (\<^verbatim>\<open>allocator.hh\<close>), on which the arenas,
  the temporary storage, the string builders and the hash tables of \<^verbatim>\<open>kstd\<close> allocate; interrupt handlers
  (\<^verbatim>\<open>ps2.hh\<close>) decode keyboard and mouse and submit events to the input state (\<^verbatim>\<open>input.hh\<close>);
  a cooperative scheduler (\<^verbatim>\<open>threads.hh\<close>) runs threads on every CPU; a failed assertion prints a
  stack trace with source lines found in the DWARF tables (\<^verbatim>\<open>kstd/dwarf.hh\<close>).
  \<^verbatim>\<open>src/tetris/main.hh\<close> is the game, \<^verbatim>\<open>tools/preprocessor.cc\<close> a source-to-source tool of
  the build.

  \<^bold>\<open>How code becomes definitions.\<close> Integers keep their width (\<open>u8\<close> to \<open>u64\<close> are words,
  signed ones are read with \<open>sint\<close>); a struct is a record, an enumeration a datatype, shared or
  static state an explicit record passed through. A failed \<^verbatim>\<open>kstd_assert\<close> is \<open>Inl\<close> of an error
  (\<open>Prelude\<close>), composed with \<open>rbind\<close>; a null pointer, an invalid optional or a loop that does not end is
  \<open>None\<close>. Loops are recursive functions with a termination proof, or \<open>partial_function (option)\<close> where
  the code may hang. Code outside the sources enters as an argument. The definitions have the names of the
  source where HOL leaves them free.

  \<^bold>\<open>Theories, in the order of the code.\<close>
  \<^item> \<open>Prelude\<close>: integer types, errors, lists and option laws shared by all. \<open>Bits\<close>
    (\<^verbatim>\<open>kstd/math.hh\<close>, alignment in \<^verbatim>\<open>kstd/allocator.hh\<close>): powers of two, logarithm, rounding.
    \<open>Memory\<close>: byte-addressed memory with little-endian loads, and views of it.
  \<^item> \<open>Byte_Reader\<close> (\<^verbatim>\<open>kstd/byte_reader.hh\<close>): every read with its result and cursor; reads
    stay inside the buffer, and LEB128 decoding inverts the encodings of the DWARF standard (at most ten
    bytes for 64 bits).
  \<^item> \<open>Ring_Buffer\<close> (\<^verbatim>\<open>kstd/ring_buffer.hh\<close>): refinement to bounded lists. \<open>Keys\<close>,
    \<open>Input\<close> (\<^verbatim>\<open>gameos/input.hh\<close>): key and mouse state, the event queue and a frame's edges.
    \<open>Ps2\<close> (\<^verbatim>\<open>gameos/ps2.hh\<close>): controller dialogue (at most 100000 polls per wait), scan codes,
    mouse packets, interrupt handlers; the state machine resynchronises and reports what the device sent.
  \<^item> \<open>Hash_Table\<close> (\<^verbatim>\<open>kstd/hash.hh\<close>, \<^verbatim>\<open>kstd/hash_table.hh\<close>): open addressing with
    tombstones as a refinement of a finite map; \<open>add\<close> calls itself at most once after growing, so two levels
    of recursion (\<open>add_fuel\<close>) are enough, and its probing visits every slot of a power-of-two table.
  \<^item> \<open>Allocator\<close> (\<^verbatim>\<open>kstd/allocator_types.hh\<close>, the free functions of
    \<^verbatim>\<open>kstd/allocator.hh\<close>): the procedure interface, and as locales what a heap promises its clients.
    \<open>Bump\<close>: the contract that arena and temporary storage share. \<open>Arena\<close>, \<open>Temporary\<close>, \<open>Debug\<close>
    (\<^verbatim>\<open>kstd/allocator.hh\<close>) and \<open>Buddy\<close> (\<^verbatim>\<open>gameos/allocator.hh\<close>): each allocator with its
    state invariant; live blocks are disjoint and inside their memory, memory is conserved, leaks and double
    frees are reported. Sizes are below \<open>2 ^ 61\<close> for bump allocation and \<open>2 ^ 60\<close> for what an arena reserves, so that rounding
    does not wrap.
  \<^item> \<open>Dwarf_Info\<close>, \<open>Dwarf_Line\<close> (\<^verbatim>\<open>kstd/dwarf.hh\<close>): abbreviations, attribute values, unit headers,
    line tables. \<open>Dwarf_Values\<close>, \<open>Dwarf_Rows\<close>: round trips with encodings written from the standard, the line-number
    program against the standard's machine, lookup of an address and the stack traces of
    \<^verbatim>\<open>gameos/stack_trace.hh\<close>.
  \<^item> \<open>Grid3\<close> (\<^verbatim>\<open>kstd/math/grid3.hh\<close>), \<open>Tetris\<close> (\<^verbatim>\<open>tetris/main.hh\<close>, its rules), \<open>Tetris_Board\<close>,
    \<open>Tetris_Layers\<close>, \<open>Tetris_Destroy\<close>, \<open>Tetris_Properties\<close>: what marks on the board mean, one update, landing, drop and shadow,
    destruction of full layers, rotation.
  \<^item> \<open>Threads\<close> (\<^verbatim>\<open>gameos/threads.hh\<close>): at most 64 threads, the ready queue, yield, join and finish as a
    step relation over any set of CPUs; \<open>Threads_Safety\<close>: invariants of every interleaving and two races.
  \<^item> \<open>Regions\<close>, \<open>Multiboot\<close>, \<open>Boot_Memory\<close> (\<^verbatim>\<open>gameos/memory.hh\<close>,
    \<^verbatim>\<open>gameos/multiboot2.hh\<close>): at most 128 regions below \<open>2 ^ 63\<close>, the walk over tags, reservation, and the memory
    the heap starts with.
  \<^item> \<open>Format\<close>, \<open>Format_Text\<close> (\<^verbatim>\<open>kstd/format.hh\<close>): printing of values and format strings to any backend, against a
    specification of the text (argument indices of at most 18 digits, beyond which the code wraps).
    \<open>String_Builder\<close>, \<open>Sprint\<close> (\<^verbatim>\<open>kstd/string_builder.hh\<close>, \<^verbatim>\<open>kstd/string.hh\<close>): builders on any heap, and the
    composition of format, builder and heap.
  \<^item> \<open>Pp_Lexer\<close>, \<open>Preprocessor\<close> (\<^verbatim>\<open>tools/preprocessor.cc\<close>): the build tool's lexer, its state machine, the
    directives, the scans for constants and enumerations and the text it writes; every loop consumes input, which is the measure
    of its termination. \<open>Pp_Properties\<close>: shapes of tokens, brackets, unrolled loops, enumerations read back, sources copied unchanged.
  \<^item> \<open>Random_Numbers\<close> (\<^verbatim>\<open>gameos/random.hh\<close>): xoshiro256++, its seeding and numbers in a range by rejection, a loop that may
    in principle not end; the generator never reaches the state of zeros and every value of a range is equally likely.

  \<^bold>\<open>Interfaces.\<close> The locales state what one component promises another: heaps to their
  clients, bump allocators, text backends to the formatter. Each is interpreted on the model's own
  definitions in the theory that provides them, and the properties rest on the interpreted facts. The
  properties carry their position in the list of claims (\<open>C1\<close> and on) in the text before them; a property with
  hypotheses is followed by a witness at a concrete input.

  \<^bold>\<open>Not modelled.\<close> Assembly and linking (\<^verbatim>\<open>boot.S\<close>, \<^verbatim>\<open>context_switch.S\<close>,
  \<^verbatim>\<open>smp_trampoline.S\<close>, \<^verbatim>\<open>linker.ld\<close>); device registers whose whole meaning is the hardware
  behind them (interrupt descriptors, GDT, APICs, PIC, serial port, terminal, TLB, power); floating point (\<^verbatim>\<open>matrix.hh\<close>, most of
  \<^verbatim>\<open>math.hh\<close>, \<^verbatim>\<open>write_float\<close>) and the rasteriser \<^verbatim>\<open>gfx.hh\<close> that is written over it; the shims of
  \<^verbatim>\<open>src/linux\<close> that call the host; demos and tests; the vendored \<^verbatim>\<open>stb_image.h\<close>. Data races below the granularity of a lock
  are modelled only in \<open>Threads\<close>. Strings are lists of characters where no property depends on sharing.
\<close>

end
